(* ===== verification/Prelude.thy ===== *)
theory Prelude
  imports Main "HOL-Library.Word" "HOL-Library.Monad_Syntax"
begin

unbundle bit_operations_syntax

text \<open>
  Shared vocabulary of the development: the machine integer types of the C sources, error
  codes, and raw memory blocks with checked access.

  A C computation that may run into undefined behaviour (a read or write outside a block,
  a read of an indeterminate byte, a dereference of \<^verbatim>\<open>NULL\<close>) is a value of an \<open>option\<close>
  type: \<open>None\<close> is undefined behaviour, \<open>Some r\<close> is a run that returns \<open>r\<close>.  The sources'
  own error returns (negative codes, \<^verbatim>\<open>NULL\<close> results) are part of \<open>r\<close>.
\<close>

section \<open>Machine integers and error codes\<close>

type_synonym u8 = "8 word"
type_synonym u16 = "16 word"
type_synonym u32 = "32 word"
type_synonym i32 = "32 word"

text \<open>\<open>size_t\<close> on the 64-bit targets is a natural number below \<open>size_mod\<close>; additions wrap.\<close>

definition size_mod :: nat where
  "size_mod = 2 ^ 64"

definition size_add :: "nat \<Rightarrow> nat \<Rightarrow> nat" where
  "size_add a b = (a + b) mod size_mod"

definition size_sub :: "nat \<Rightarrow> nat \<Rightarrow> nat" where
  "size_sub a b = (a + size_mod - b) mod size_mod"

lemma size_mod_eq: "size_mod = 18446744073709551616"
  by (simp add: size_mod_def)

lemma size_mod_pos [simp]: "0 < size_mod"
  by (simp add: size_mod_eq)

lemma size_add_small [simp]: "a + b < size_mod \<Longrightarrow> size_add a b = a + b"
  by (simp add: size_add_def)

lemma size_sub_le [simp]: "b \<le> a \<Longrightarrow> a < size_mod \<Longrightarrow> size_sub a b = a - b"
proof -
  assume le: "b \<le> a" and lt: "a < size_mod"
  from le have "a + size_mod - b = (a - b) + size_mod" by simp
  then have "size_sub a b = ((a - b) + size_mod) mod size_mod"
    unfolding size_sub_def by (rule arg_cong)
  with lt show "size_sub a b = a - b" by simp
qed

text \<open>The error codes the sources return, as \<^verbatim>\<open>errno.h\<close> of Linux has them.\<close>

definition EINTR :: int where "EINTR = 4"
definition EIO :: int where "EIO = 5"
definition ENOMEM :: int where "ENOMEM = 12"
definition EACCES :: int where "EACCES = 13"
definition EFAULT :: int where "EFAULT = 14"
definition EBUSY :: int where "EBUSY = 16"
definition EINVAL :: int where "EINVAL = 22"
definition ENOSYS :: int where "ENOSYS = 38"

named_theorems errno_defs "the values of the error codes"

lemmas errno_values [errno_defs] =
  EINTR_def EIO_def ENOMEM_def EACCES_def EFAULT_def EBUSY_def EINVAL_def ENOSYS_def

text \<open>Addresses of objects that are linked through pointers.\<close>

type_synonym addr = nat

definition NULL :: addr where "NULL = 0"

text \<open>The first of a list of objects, or \<^verbatim>\<open>NULL\<close>: what a search returns.\<close>

definition hd_node :: "addr list \<Rightarrow> addr" where
  "hd_node xs = (case xs of [] \<Rightarrow> NULL | x # _ \<Rightarrow> x)"

lemma hd_node_simps [simp]: "hd_node [] = NULL" "hd_node (x # xs) = x"
  by (simp_all add: hd_node_def)

lemma hd_node_append: "hd_node (xs @ ys) = (if xs = [] then hd_node ys else hd_node xs)"
  by (cases xs) auto

section \<open>Memory blocks\<close>

text \<open>
  A block is a list of cells; a cell is \<open>None\<close> while its content is indeterminate (fresh
  from \<^verbatim>\<open>malloc\<close>) and \<open>Some b\<close> once a byte was stored in it.
\<close>

type_synonym cell = "u8 option"
type_synonym block = "cell list"

named_theorems mem_simps "evaluation of checked memory access"

definition peek :: "'a option list \<Rightarrow> nat \<Rightarrow> 'a option" where
  "peek m i = (if i < length m then m ! i else None)"

definition poke :: "'a option list \<Rightarrow> nat \<Rightarrow> 'a \<Rightarrow> 'a option list option" where
  "poke m i b = (if i < length m then Some (m[i := Some b]) else None)"

text \<open>\<open>copy_in m i s\<close> is \<^verbatim>\<open>memcpy(m + i, s, n)\<close> for the \<open>n\<close> cells of \<open>s\<close>; zero cells are
  copied whatever the pointers are.\<close>

definition copy_in :: "'a option list \<Rightarrow> nat \<Rightarrow> 'a option list \<Rightarrow> 'a option list option" where
  "copy_in m i s =
     (if s = [] then Some m
      else if i + length s \<le> length m
      then Some (take i m @ s @ drop (i + length s) m) else None)"

text \<open>\<open>copy_out m i n\<close> is the \<open>n\<close> cells at \<open>m + i\<close>, the source side of a \<^verbatim>\<open>memcpy\<close>.\<close>

definition copy_out :: "'a option list \<Rightarrow> nat \<Rightarrow> nat \<Rightarrow> 'a option list option" where
  "copy_out m i n =
     (if n = 0 then Some []
      else if i + n \<le> length m then Some (take n (drop i m)) else None)"

definition fresh :: "nat \<Rightarrow> 'a option list" where
  "fresh n = replicate n None"

lemma length_fresh [simp]: "length (fresh n) = n"
  by (simp add: fresh_def)

lemma fresh_0 [simp]: "fresh 0 = []"
  by (simp add: fresh_def)

lemma fresh_add: "fresh (m + n) = fresh m @ fresh n"
  by (simp add: fresh_def replicate_add)

text \<open>
  Sequential writing: an iterator stands at the end of the part already written.  These
  rules move the written bytes from the front of the rest into the written part.
\<close>

lemma poke_append [mem_simps]:
  "poke (p @ c # r) (length p) b = Some (p @ Some b # r)"
  by (simp add: poke_def)

lemma poke_at:
  "i = length p \<Longrightarrow> poke (p @ c # r) i b = Some (p @ Some b # r)"
  by (simp add: poke_append)

lemma copy_in_at:
  assumes "i = length p" and "length s \<le> length r"
  shows "copy_in (p @ r) i s = Some (p @ s @ drop (length s) r)"
  using assms by (cases "s = []") (auto simp: copy_in_def)

lemma peek_at:
  "i = length p \<Longrightarrow> peek (p @ c # r) i = c"
  by (simp add: peek_def)

lemma peek_map_Some [mem_simps]:
  "peek (map Some bs) i = (if i < length bs then Some (bs ! i) else None)"
  by (simp add: peek_def)

lemma copy_out_map_Some [mem_simps]:
  "copy_out (map Some bs) i n =
     (if n = 0 then Some [] else if i + n \<le> length bs then Some (map Some (take n (drop i bs))) else None)"
  by (simp add: copy_out_def take_map drop_map)

lemma fresh_Suc [mem_simps]: "fresh (Suc n) = None # fresh n"
  by (simp add: fresh_def)

lemma drop_fresh [simp]: "drop n (fresh m) = fresh (m - n)"
  by (simp add: fresh_def)

lemma take_fresh [simp]: "take n (fresh m) = fresh (min n m)"
  by (simp add: fresh_def)

text \<open>Defined bytes of a block: all cells hold a byte.\<close>

definition bytes_of :: "'a option list \<Rightarrow> 'a list option" where
  "bytes_of m = those m"

lemma bytes_of_map_Some [simp]: "bytes_of (map Some bs) = Some bs"
  unfolding bytes_of_def by (induction bs) auto

lemma bytes_of_eq_Some: "bytes_of m = Some bs \<longleftrightarrow> m = map Some bs"
proof
  show "bytes_of m = Some bs \<Longrightarrow> m = map Some bs"
    unfolding bytes_of_def
    by (induction m arbitrary: bs) (auto split: option.splits)
qed simp

end
