(* ===== verification/List_Head.thy ===== *)
theory List_Head
  imports Prelude
begin

text \<open>
  \<^verbatim>\<open>base/list.h\<close>: circular doubly linked intrusive lists.  The heap gives every node address
  its two link fields; each operation of the header is the sequence of stores it performs.
  \<open>ring h a xs\<close> says that the list with head \<open>a\<close> holds the nodes \<open>xs\<close> in this order.
\<close>

section \<open>Nodes and primitive operations\<close>


record list_head =
  nxt :: "addr \<Rightarrow> addr"
  prv :: "addr \<Rightarrow> addr"

definition set_next :: "addr \<Rightarrow> addr \<Rightarrow> list_head \<Rightarrow> list_head" where
  "set_next a b h = h\<lparr>nxt := (nxt h)(a := b)\<rparr>"

definition set_prev :: "addr \<Rightarrow> addr \<Rightarrow> list_head \<Rightarrow> list_head" where
  "set_prev a b h = h\<lparr>prv := (prv h)(a := b)\<rparr>"

definition LIST_POISON1 :: addr where "LIST_POISON1 = 0x00100100"
definition LIST_POISON2 :: addr where "LIST_POISON2 = 0x00200200"

definition INIT_LIST_HEAD :: "addr \<Rightarrow> list_head \<Rightarrow> list_head" where
  "INIT_LIST_HEAD l h = set_prev l l (set_next l l h)"

definition list_add_between :: "addr \<Rightarrow> addr \<Rightarrow> addr \<Rightarrow> list_head \<Rightarrow> list_head" where
  "list_add_between new prev next h =
     (let h = set_prev next new h;
          h = set_next new next h;
          h = set_prev new prev h
      in set_next prev new h)"

definition list_add :: "addr \<Rightarrow> addr \<Rightarrow> list_head \<Rightarrow> list_head" where
  "list_add new head h = list_add_between new head (nxt h head) h"

definition list_add_tail :: "addr \<Rightarrow> addr \<Rightarrow> list_head \<Rightarrow> list_head" where
  "list_add_tail new head h = list_add_between new (prv h head) head h"

definition list_del_between :: "addr \<Rightarrow> addr \<Rightarrow> list_head \<Rightarrow> list_head" where
  "list_del_between prev next h = set_next prev next (set_prev next prev h)"

definition list_del :: "addr \<Rightarrow> list_head \<Rightarrow> list_head" where
  "list_del entry h =
     (let h = list_del_between (prv h entry) (nxt h entry) h;
          h = set_next entry LIST_POISON1 h
      in set_prev entry LIST_POISON2 h)"

definition list_replace :: "addr \<Rightarrow> addr \<Rightarrow> list_head \<Rightarrow> list_head" where
  "list_replace old new h =
     (let h = set_next new (nxt h old) h;
          h = set_prev (nxt h new) new h;
          h = set_prev new (prv h old) h
      in set_next (prv h new) new h)"

definition list_replace_init :: "addr \<Rightarrow> addr \<Rightarrow> list_head \<Rightarrow> list_head" where
  "list_replace_init old new h = INIT_LIST_HEAD old (list_replace old new h)"

definition list_del_init :: "addr \<Rightarrow> list_head \<Rightarrow> list_head" where
  "list_del_init entry h =
     INIT_LIST_HEAD entry (list_del_between (prv h entry) (nxt h entry) h)"

definition list_move :: "addr \<Rightarrow> addr \<Rightarrow> list_head \<Rightarrow> list_head" where
  "list_move l head h = list_add l head (list_del_between (prv h l) (nxt h l) h)"

definition list_move_tail :: "addr \<Rightarrow> addr \<Rightarrow> list_head \<Rightarrow> list_head" where
  "list_move_tail l head h = list_add_tail l head (list_del_between (prv h l) (nxt h l) h)"

definition list_is_last :: "list_head \<Rightarrow> addr \<Rightarrow> addr \<Rightarrow> bool" where
  "list_is_last h l head = (nxt h l = head)"

definition list_empty :: "list_head \<Rightarrow> addr \<Rightarrow> bool" where
  "list_empty h head = (nxt h head = head)"

definition list_empty_careful :: "list_head \<Rightarrow> addr \<Rightarrow> bool" where
  "list_empty_careful h head = (let next = nxt h head in next = head \<and> next = prv h head)"

definition list_is_singular :: "list_head \<Rightarrow> addr \<Rightarrow> bool" where
  "list_is_singular h head = (\<not> list_empty h head \<and> nxt h head = prv h head)"

definition list_cut_between :: "addr \<Rightarrow> addr \<Rightarrow> addr \<Rightarrow> list_head \<Rightarrow> list_head" where
  "list_cut_between l head entry h =
     (let new_first = nxt h entry;
          h = set_next l (nxt h head) h;
          h = set_prev (nxt h l) l h;
          h = set_prev l entry h;
          h = set_next entry l h;
          h = set_next head new_first h
      in set_prev new_first head h)"

definition list_cut_position :: "addr \<Rightarrow> addr \<Rightarrow> addr \<Rightarrow> list_head \<Rightarrow> list_head" where
  "list_cut_position l head entry h =
     (if list_empty h head then h
      else if list_is_singular h head \<and> nxt h head \<noteq> entry \<and> head \<noteq> entry then h
      else if entry = head then INIT_LIST_HEAD l h
      else list_cut_between l head entry h)"

definition list_splice_between :: "addr \<Rightarrow> addr \<Rightarrow> addr \<Rightarrow> list_head \<Rightarrow> list_head" where
  "list_splice_between l prev next h =
     (let first = nxt h l;
          last = prv h l;
          h = set_prev first prev h;
          h = set_next prev first h;
          h = set_next last next h
      in set_prev next last h)"

definition list_splice :: "addr \<Rightarrow> addr \<Rightarrow> list_head \<Rightarrow> list_head" where
  "list_splice l head h =
     (if \<not> list_empty h l then list_splice_between l head (nxt h head) h else h)"

definition list_splice_tail :: "addr \<Rightarrow> addr \<Rightarrow> list_head \<Rightarrow> list_head" where
  "list_splice_tail l head h =
     (if \<not> list_empty h l then list_splice_between l (prv h head) head h else h)"

definition list_splice_init :: "addr \<Rightarrow> addr \<Rightarrow> list_head \<Rightarrow> list_head" where
  "list_splice_init l head h =
     (if \<not> list_empty h l
      then INIT_LIST_HEAD l (list_splice_between l head (nxt h head) h) else h)"

definition list_splice_tail_init :: "addr \<Rightarrow> addr \<Rightarrow> list_head \<Rightarrow> list_head" where
  "list_splice_tail_init l head h =
     (if \<not> list_empty h l
      then INIT_LIST_HEAD l (list_splice_between l (prv h head) head h) else h)"

text \<open>
  The macro \<^verbatim>\<open>list_for_each2\<close> as its users write it: a search for the first entry that satisfies a
  condition, \<^verbatim>\<open>NULL\<close> when the cursor is back at the head.  A list that is not circular need not end.
\<close>

partial_function (option) list_search :: "(addr \<Rightarrow> bool) \<Rightarrow> list_head \<Rightarrow> addr \<Rightarrow> addr \<Rightarrow> addr option" where
  "list_search P h head pos =
     (if pos = head then Some NULL
      else if P pos then Some pos
      else list_search P h head (nxt h pos))"

text \<open>The member functions \<^verbatim>\<open>pop_front\<close> and \<^verbatim>\<open>pop_back\<close> return the node they unlink; on an empty
  list this is the head itself.\<close>

definition list_pop_front :: "addr \<Rightarrow> list_head \<Rightarrow> addr \<times> list_head" where
  "list_pop_front head h = (let entry = nxt h head in (entry, list_del_init entry h))"

definition list_pop_back :: "addr \<Rightarrow> list_head \<Rightarrow> addr \<times> list_head" where
  "list_pop_back head h = (let entry = prv h head in (entry, list_del_init entry h))"

lemmas list_op_defs =
  set_next_def set_prev_def INIT_LIST_HEAD_def list_add_between_def list_add_def list_add_tail_def
  list_del_between_def list_del_def list_replace_def list_replace_init_def list_del_init_def list_move_def
  list_move_tail_def list_cut_between_def list_cut_position_def list_splice_between_def list_splice_def
  list_splice_tail_def list_splice_init_def list_splice_tail_init_def Let_def

section \<open>Rings\<close>

text \<open>\<open>chain h xs\<close>: consecutive nodes of \<open>xs\<close> point at each other.\<close>

fun chain :: "list_head \<Rightarrow> addr list \<Rightarrow> bool" where
  "chain h (x # y # zs) = (nxt h x = y \<and> prv h y = x \<and> chain h (y # zs))"
| "chain h _ = True"

definition ring :: "list_head \<Rightarrow> addr \<Rightarrow> addr list \<Rightarrow> bool" where
  "ring h a xs = (distinct (a # xs) \<and> chain h (a # xs @ [a]))"

lemma chain_append: "chain h (xs @ y # zs) = (chain h (xs @ [y]) \<and> chain h (y # zs))"
  by (induction xs rule: induct_list012) auto

lemma chain_Cons: "zs \<noteq> [] \<Longrightarrow> chain h (x # zs) = (nxt h x = hd zs \<and> prv h (hd zs) = x \<and> chain h zs)"
  by (cases zs) auto

lemma chain_cong:
  assumes "\<And>x. x \<in> set (butlast xs) \<Longrightarrow> nxt h' x = nxt h x"
    and "\<And>x. x \<in> set (tl xs) \<Longrightarrow> prv h' x = prv h x"
  shows "chain h' xs = chain h xs"
  using assms by (induction xs rule: induct_list012) auto

named_theorems ring_simps "link fields after the stores of an operation"

lemma set_next_sel [ring_simps]:
  "nxt (set_next a b h) = (nxt h)(a := b)" "prv (set_next a b h) = prv h"
  by (simp_all add: set_next_def)

lemma set_prev_sel [ring_simps]:
  "nxt (set_prev a b h) = nxt h" "prv (set_prev a b h) = (prv h)(a := b)"
  by (simp_all add: set_prev_def)

lemma chain_set_next [ring_simps]:
  "x \<notin> set (butlast xs) \<Longrightarrow> chain (set_next x v h) xs = chain h xs"
  by (rule chain_cong) (auto simp: ring_simps)

lemma chain_set_prev [ring_simps]:
  "x \<notin> set (tl xs) \<Longrightarrow> chain (set_prev x v h) xs = chain h xs"
  by (rule chain_cong) (auto simp: ring_simps)

lemma ring_frame:
  assumes "\<And>x. x \<in> set (a # xs) \<Longrightarrow> nxt h' x = nxt h x \<and> prv h' x = prv h x"
  shows "ring h' a xs = ring h a xs"
proof -
  have "chain h' (a # xs @ [a]) = chain h (a # xs @ [a])"
    by (rule chain_cong) (use assms in \<open>auto simp: butlast_append\<close>)
  then show ?thesis by (simp add: ring_def)
qed

text \<open>The links of the head and of a node in the middle of a ring.\<close>

lemma ring_split:
  "ring h a (xs @ ys) = (distinct (a # xs @ ys) \<and> chain h (a # xs) \<and>
     nxt h (last (a # xs)) = hd (ys @ [a]) \<and> prv h (hd (ys @ [a])) = last (a # xs) \<and>
     chain h (ys @ [a]))"
proof -
  obtain us p where us: "a # xs = us @ [p]" by (metis rev_exhaust list.distinct(1))
  obtain n vs where vs: "ys @ [a] = n # vs" by (cases ys) auto
  have "a # (xs @ ys) @ [a] = us @ p # n # vs"
    using us vs by (metis append.assoc append_Cons append_Nil)
  moreover have "chain h (us @ p # n # vs) =
      (chain h (us @ [p]) \<and> nxt h p = n \<and> prv h n = p \<and> chain h (n # vs))"
    by (subst chain_append) simp
  moreover have "last (a # xs) = p" "hd (ys @ [a]) = n" using us vs by simp_all
  ultimately show ?thesis
    unfolding ring_def using us vs by metis
qed

lemma ring_nil: "ring h a [] = (nxt h a = a \<and> prv h a = a)"
  by (auto simp: ring_def)

lemma ring_head:
  assumes "ring h a xs"
  shows "nxt h a = hd (xs @ [a])" and "prv h a = last (a # xs)"
  using assms ring_split[of h a "[]" xs] ring_split[of h a xs "[]"] by simp_all

lemma ring_mid:
  assumes "ring h a (xs @ e # ys)"
  shows "prv h e = last (a # xs)" and "nxt h e = hd (ys @ [a])"
  using assms ring_split[of h a xs "e # ys"] ring_split[of h a "xs @ [e]" ys] by simp_all

lemma ring_distinct: "ring h a xs \<Longrightarrow> distinct (a # xs)"
  by (simp add: ring_def)

lemma ring_empty_iff: "ring h a xs \<Longrightarrow> list_empty h a = (xs = [])"
  by (cases xs) (auto simp: ring_def list_empty_def)

section \<open>Effect of the operations on rings\<close>

lemma list_search_chain:
  assumes "chain h (p # xs @ [a])" and "a \<notin> set xs"
  shows "list_search P h a (nxt h p) = Some (hd_node (filter P xs))"
  using assms
proof (induction xs arbitrary: p)
  case Nil
  then show ?case by (subst list_search.simps) simp
next
  case (Cons x xs)
  then have "nxt h p = x" "chain h (x # xs @ [a])" "x \<noteq> a" by auto
  then show ?case using Cons.IH[of x] Cons.prems(2) by (subst list_search.simps) auto
qed

lemma list_search_ring:
  "ring h a xs \<Longrightarrow> list_search P h a (nxt h a) = Some (hd_node (filter P xs))"
  by (rule list_search_chain) (auto simp: ring_def)

lemma last_notin_butlast: "distinct xs \<Longrightarrow> xs \<noteq> [] \<Longrightarrow> last xs \<notin> set (butlast xs)"
  by (cases xs rule: rev_cases) auto

lemma hd_notin_tl: "distinct xs \<Longrightarrow> xs \<noteq> [] \<Longrightarrow> hd xs \<notin> set (tl xs)"
  by (cases xs) auto

text \<open>The two gaps of a cut: the last node of the left part and the first of the right part.\<close>

lemma gap_left:
  assumes "distinct (a # xs @ ys)"
  shows "last (a # xs) \<notin> set (butlast (a # xs))" and "last (a # xs) \<notin> set (butlast (ys @ [a]))"
proof -
  show "last (a # xs) \<notin> set (butlast (a # xs))"
    using assms last_notin_butlast[of "a # xs"] by simp
  have "last (a # xs) \<in> set (a # xs)" by (rule last_in_set) simp
  with assms show "last (a # xs) \<notin> set (butlast (ys @ [a]))" by auto
qed

lemma gap_right:
  assumes "distinct (a # xs @ ys)"
  shows "hd (ys @ [a]) \<notin> set xs" and "hd (ys @ [a]) \<notin> set (tl (ys @ [a]))"
  using assms by (cases ys; auto)+

lemma notin_butlast: "x \<notin> set xs \<Longrightarrow> x \<notin> set (butlast xs)"
  by (meson in_set_butlastD)

lemma notin_tl: "x \<notin> set xs \<Longrightarrow> x \<notin> set (tl xs)"
  by (cases xs) auto

lemma INIT_LIST_HEAD_ring: "ring (INIT_LIST_HEAD a h) a []"
  by (simp add: ring_nil INIT_LIST_HEAD_def ring_simps)

lemma list_add_between_ring:
  assumes r: "ring h a (xs @ ys)" and new: "new \<notin> set (a # xs @ ys)"
    and p: "p = last (a # xs)" and n: "n = hd (ys @ [a])"
  shows "ring (list_add_between new p n h) a (xs @ new # ys)"
proof -
  note d = ring_distinct[OF r]
  let ?h = "list_add_between new p n h"
  have pin: "p \<in> set (a # xs)" and nin: "n \<in> set (ys @ [a])"
    unfolding p n by (rule last_in_set, simp) (rule hd_in_set, simp)
  have pn: "p \<noteq> new" "n \<noteq> new" using pin nin new by auto
  have "chain ?h (a # xs) = chain h (a # xs)"
    using gap_left(1)[OF d] gap_right(1)[OF d] new notin_butlast[of new "a # xs"]
    by (simp add: list_add_between_def Let_def p n chain_set_next chain_set_prev)
  moreover have "chain ?h (ys @ [a]) = chain h (ys @ [a])"
    using gap_left(2)[OF d] gap_right(2)[OF d] new notin_butlast[of new "ys @ [a]"] notin_tl[of new "ys @ [a]"]
    by (simp add: list_add_between_def Let_def p n chain_set_next chain_set_prev)
  moreover have "nxt ?h p = new" "prv ?h new = p" "nxt ?h new = n" "prv ?h n = new"
    using pn by (simp_all add: list_add_between_def Let_def ring_simps)
  ultimately show ?thesis
    using r d new unfolding ring_split[of _ a xs] by (auto simp: chain_Cons p n)
qed

lemma list_add_ring:
  "ring h a xs \<Longrightarrow> new \<notin> set (a # xs) \<Longrightarrow> ring (list_add new a h) a (new # xs)"
  using list_add_between_ring[of h a "[]" xs new] ring_head(1)[of h a xs]
  by (simp add: list_add_def)

lemma list_add_tail_ring:
  "ring h a xs \<Longrightarrow> new \<notin> set (a # xs) \<Longrightarrow> ring (list_add_tail new a h) a (xs @ [new])"
  using list_add_between_ring[of h a xs "[]" new] ring_head(2)[of h a xs]
  by (simp add: list_add_tail_def)

text \<open>\<^verbatim>\<open>list_add_tail\<close> with a node \<open>e\<close> of the ring in place of the head inserts before it.\<close>

lemma list_add_tail_before_ring:
  assumes "ring h a (xs @ e # ys)" and "new \<notin> set (a # xs @ e # ys)"
  shows "ring (list_add_tail new e h) a (xs @ new # e # ys)"
  using list_add_between_ring[of h a xs "e # ys" new] ring_mid(1)[OF assms(1)] assms
  by (simp add: list_add_tail_def)

lemma list_del_between_ring:
  assumes r: "ring h a (xs @ e # ys)"
    and p: "p = last (a # xs)" and n: "n = hd (ys @ [a])"
  shows "ring (list_del_between p n h) a (xs @ ys)"
proof -
  have d: "distinct (a # xs @ ys)" using ring_distinct[OF r] by auto
  let ?h = "list_del_between p n h"
  have "chain h (a # xs)" "chain h (ys @ [a])"
    using r ring_split[of h a xs "e # ys"] by (auto simp: chain_Cons)
  moreover have "chain ?h (a # xs) = chain h (a # xs)"
    using gap_left(1)[OF d] gap_right(1)[OF d]
    by (simp add: list_del_between_def p n chain_set_next chain_set_prev)
  moreover have "chain ?h (ys @ [a]) = chain h (ys @ [a])"
    using gap_left(2)[OF d] gap_right(2)[OF d]
    by (simp add: list_del_between_def p n chain_set_next chain_set_prev)
  moreover have "nxt ?h p = n" "prv ?h n = p"
    by (simp_all add: list_del_between_def ring_simps)
  ultimately show ?thesis
    using d unfolding ring_split[of _ a xs ys] by (auto simp: p n)
qed

text \<open>Operations leave every ring alone that shares no node with the ones they work on.\<close>

lemma links_after [ring_simps]:
  "nxt (list_add_between new p n h) x = (if x = p then new else if x = new then n else nxt h x)"
  "prv (list_add_between new p n h) x = (if x = new then p else if x = n then new else prv h x)"
  "nxt (list_del_between p n h) x = (if x = p then n else nxt h x)"
  "prv (list_del_between p n h) x = (if x = n then p else prv h x)"
  "nxt (INIT_LIST_HEAD e h) x = (if x = e then e else nxt h x)"
  "prv (INIT_LIST_HEAD e h) x = (if x = e then e else prv h x)"
  by (simp_all add: list_add_between_def list_del_between_def INIT_LIST_HEAD_def Let_def set_next_def set_prev_def)

lemma ring_INIT_other: "e \<notin> set (b # zs) \<Longrightarrow> ring (INIT_LIST_HEAD e h) b zs = ring h b zs"
  by (rule ring_frame) (auto simp: ring_simps)

lemma ring_prv_in: "ring h a xs \<Longrightarrow> prv h a \<in> set (a # xs)"
  using ring_head(2)[of h a xs] by (cases xs rule: rev_cases) auto

lemma ring_nxt_in: "ring h a xs \<Longrightarrow> nxt h a \<in> set (a # xs)"
  using ring_head(1)[of h a xs] by (cases xs) auto

lemma list_add_tail_other:
  assumes "ring h a xs" and "ring h b zs" and "set (b # zs) \<inter> set (new # a # xs) = {}"
  shows "ring (list_add_tail new a h) b zs"
proof -
  have "ring (list_add_tail new a h) b zs = ring h b zs"
    unfolding list_add_tail_def
    by (rule ring_frame) (use ring_prv_in[OF assms(1)] assms(3) in \<open>auto simp: ring_simps\<close>)
  with assms(2) show ?thesis by simp
qed

lemma list_del_init_ring:
  assumes "ring h a (xs @ e # ys)"
  shows "ring (list_del_init e h) a (xs @ ys)" and "ring (list_del_init e h) e []"
proof -
  have "e \<notin> set (a # xs @ ys)" using ring_distinct[OF assms] by auto
  then show "ring (list_del_init e h) a (xs @ ys)"
    unfolding list_del_init_def
    by (simp add: ring_INIT_other list_del_between_ring[OF assms] ring_mid[OF assms])
  show "ring (list_del_init e h) e []"
    unfolding list_del_init_def by (rule INIT_LIST_HEAD_ring)
qed

lemma list_del_init_other:
  assumes "ring h a (xs @ e # ys)" and "ring h b zs" and "set (b # zs) \<inter> set (a # xs @ e # ys) = {}"
  shows "ring (list_del_init e h) b zs"
proof -
  have "prv h e \<in> set (a # xs)" "nxt h e \<in> set (ys @ [a])"
    unfolding ring_mid[OF assms(1)] by (rule last_in_set, simp) (rule hd_in_set, simp)
  then have "ring (list_del_init e h) b zs = ring h b zs"
    unfolding list_del_init_def
    by (intro ring_frame) (use assms(3) in \<open>auto simp: ring_simps\<close>)
  with assms(2) show ?thesis by simp
qed

text \<open>Unlinking a node that is in no list (a ring of its own) changes nothing.\<close>

lemma list_del_init_alone:
  assumes "ring h e []"
  shows "list_del_init e h = h"
  using assms by (simp add: ring_nil list_op_defs fun_upd_idem)

lemma list_pop_front_ring:
  assumes "ring h a (e # ys)"
  shows "fst (list_pop_front a h) = e" and "ring (snd (list_pop_front a h)) a ys"
    and "ring (snd (list_pop_front a h)) e []"
proof -
  have e: "nxt h a = e" using ring_head(1)[OF assms] by simp
  then show "fst (list_pop_front a h) = e" by (simp add: list_pop_front_def Let_def)
  show "ring (snd (list_pop_front a h)) a ys" "ring (snd (list_pop_front a h)) e []"
    using list_del_init_ring[of h a "[]" e ys] assms e by (simp_all add: list_pop_front_def Let_def)
qed

lemma list_pop_back_ring:
  assumes "ring h a (xs @ [e])"
  shows "fst (list_pop_back a h) = e" and "ring (snd (list_pop_back a h)) a xs"
    and "ring (snd (list_pop_back a h)) e []"
proof -
  have e: "prv h a = e" using ring_head(2)[OF assms] by simp
  then show "fst (list_pop_back a h) = e" by (simp add: list_pop_back_def Let_def)
  show "ring (snd (list_pop_back a h)) a xs" "ring (snd (list_pop_back a h)) e []"
    using list_del_init_ring[of h a xs e "[]"] assms e by (simp_all add: list_pop_back_def Let_def)
qed

lemma list_move_ring:
  assumes "ring h a (xs @ e # ys)"
  shows "ring (list_move e a h) a (e # xs @ ys)"
    and "ring (list_move_tail e a h) a (xs @ ys @ [e])"
proof -
  have d: "ring (list_del_between (prv h e) (nxt h e) h) a (xs @ ys)"
    using list_del_between_ring[OF assms] ring_mid[OF assms] by simp
  have "e \<notin> set (a # xs @ ys)" using ring_distinct[OF assms] by auto
  then show "ring (list_move e a h) a (e # xs @ ys)" "ring (list_move_tail e a h) a (xs @ ys @ [e])"
    using list_add_ring[OF d] list_add_tail_ring[OF d] by (simp_all add: list_move_def list_move_tail_def)
qed

lemma chain_append2:
  assumes "us \<noteq> []" and "vs \<noteq> []"
  shows "chain h (us @ vs) =
    (chain h us \<and> nxt h (last us) = hd vs \<and> prv h (hd vs) = last us \<and> chain h vs)"
proof -
  obtain us' p where us: "us = us' @ [p]" using assms(1) by (metis rev_exhaust)
  obtain n vs' where vs: "vs = n # vs'" using assms(2) by (cases vs) auto
  have "chain h (us' @ p # n # vs') = (chain h (us' @ [p]) \<and> chain h (p # n # vs'))"
    by (rule chain_append)
  then show ?thesis by (auto simp: us vs)
qed

lemma ring_inner: "ring h l ys \<Longrightarrow> ys \<noteq> [] \<Longrightarrow> chain h ys"
  using chain_append2[of ys "[l]" h] chain_Cons[of "ys @ [l]" h l] by (simp add: ring_def)

lemma list_splice_between_ring:
  assumes l: "ring h l ys" and a: "ring h a (xs @ zs)" and ne: "ys \<noteq> []"
    and dis: "set (l # ys) \<inter> set (a # xs @ zs) = {}"
    and p: "p = last (a # xs)" and n: "n = hd (zs @ [a])"
  shows "ring (list_splice_between l p n h) a (xs @ ys @ zs)"
proof -
  let ?h = "list_splice_between l p n h"
  note d = ring_distinct[OF a] and dl = ring_distinct[OF l]
  have f: "nxt h l = hd ys" and t: "prv h l = last ys"
    using ring_head[OF l] ne by auto
  have pin: "p \<in> set (a # xs)" and nin: "n \<in> set (zs @ [a])"
    unfolding p n by (rule last_in_set, simp) (rule hd_in_set, simp)
  have h': "?h = set_prev n (last ys) (set_next (last ys) n (set_next p (hd ys) (set_prev (hd ys) p h)))"
    by (simp add: list_splice_between_def Let_def f t)
  have ends: "hd ys \<in> set ys" "last ys \<in> set ys" using ne by simp_all
  have outside: "hd ys \<notin> set (a # xs @ zs)" "last ys \<notin> set (a # xs @ zs)" "p \<notin> set ys" "n \<notin> set ys"
    using ends dis pin nin by auto
  have "chain ?h (a # xs) = chain h (a # xs)"
    unfolding h' using outside gap_left(1)[OF d] gap_right(1)[OF d] notin_butlast[of "last ys" "a # xs"]
    by (simp add: chain_set_next chain_set_prev p n)
  moreover have "chain ?h (zs @ [a]) = chain h (zs @ [a])"
    unfolding h' using outside gap_left(2)[OF d] gap_right(2)[OF d]
      notin_butlast[of "last ys" "zs @ [a]"] notin_tl[of "hd ys" "zs @ [a]"]
    by (simp add: chain_set_next chain_set_prev p n)
  moreover have "chain ?h ys = chain h ys"
    unfolding h' using outside last_notin_butlast[of ys] hd_notin_tl[of ys] dl ne
      notin_butlast[of p ys] notin_tl[of n ys]
    by (simp add: chain_set_next chain_set_prev)
  moreover have "nxt ?h p = hd ys" "prv ?h (hd ys) = p" "nxt ?h (last ys) = n" "prv ?h n = last ys"
    unfolding h' using outside pin nin ends by (auto simp: ring_simps)
  moreover have "chain h ys" by (rule ring_inner[OF l ne])
  moreover have "distinct (a # xs @ ys @ zs)" using d dl dis by auto
  ultimately show ?thesis
    using a ne unfolding ring_split[of _ a xs] by (auto simp: chain_append2 p n)
qed

lemma list_splice_ring:
  assumes "ring h l ys" and "ring h a xs" and "set (l # ys) \<inter> set (a # xs) = {}"
  shows "ring (list_splice l a h) a (ys @ xs)"
    and "ring (list_splice_tail l a h) a (xs @ ys)"
  using list_splice_between_ring[of h l ys a "[]" xs] list_splice_between_ring[of h l ys a xs "[]"]
    assms ring_head[OF assms(2)] ring_empty_iff[OF assms(1)]
  by (auto simp: list_splice_def list_splice_tail_def)

lemma list_splice_init_ring:
  assumes "ring h l ys" and "ring h a xs" and "set (l # ys) \<inter> set (a # xs) = {}"
  shows "ring (list_splice_init l a h) a (ys @ xs)" and "ring (list_splice_init l a h) l []"
    and "ring (list_splice_tail_init l a h) a (xs @ ys)" and "ring (list_splice_tail_init l a h) l []"
proof -
  have l: "l \<notin> set (a # xs @ ys)" using assms(3) ring_distinct[OF assms(1)] by auto
  have sp: "list_splice_init l a h = (if ys \<noteq> [] then INIT_LIST_HEAD l (list_splice l a h) else h)"
    "list_splice_tail_init l a h = (if ys \<noteq> [] then INIT_LIST_HEAD l (list_splice_tail l a h) else h)"
    using ring_empty_iff[OF assms(1)]
    by (simp_all add: list_splice_init_def list_splice_tail_init_def list_splice_def list_splice_tail_def)
  show "ring (list_splice_init l a h) a (ys @ xs)" "ring (list_splice_tail_init l a h) a (xs @ ys)"
    using sp l list_splice_ring[OF assms] assms(2) by (auto simp: ring_INIT_other)
  show "ring (list_splice_init l a h) l []" "ring (list_splice_tail_init l a h) l []"
    using sp assms(1) by (auto simp: INIT_LIST_HEAD_ring)
qed

lemma list_cut_between_ring:
  assumes r: "ring h a (xs @ e # ys)" and l: "l \<notin> set (a # xs @ e # ys)"
  shows "ring (list_cut_between l a e h) l (xs @ [e])" and "ring (list_cut_between l a e h) a ys"
proof -
  let ?h = "list_cut_between l a e h" and ?f = "hd (xs @ [e])" and ?n = "hd (ys @ [a])"
  have f: "nxt h a = ?f" using ring_head(1)[OF r] by (cases xs) auto
  have n: "nxt h e = ?n" using ring_mid(2)[OF r] by simp
  have d: "distinct (a # xs @ e # ys)" by (rule ring_distinct[OF r])
  have fin: "?f \<in> set (xs @ [e])" and nin: "?n \<in> set (ys @ [a])"
    by (rule hd_in_set, simp)+
  have h': "?h = set_prev ?n a (set_next a ?n (set_next e l (set_prev l e (set_prev ?f l (set_next l ?f h)))))"
    by (simp add: list_cut_between_def Let_def f n ring_simps)
  have c: "chain h (xs @ [e])" "chain h (ys @ [a])"
    using ring_split[of h a "xs @ [e]" ys] r chain_Cons[of "xs @ [e]" h a] by auto
  have "?n \<notin> set (tl (xs @ [e]))" "?f \<notin> set (tl (xs @ [e]))"
    using hd_notin_tl[of "xs @ [e]"] nin d notin_tl[of ?n "xs @ [e]"] by auto
  moreover have "l \<notin> set (tl (xs @ [e]))" "l \<notin> set xs" "a \<notin> set xs" "e \<notin> set xs"
    using l d notin_tl[of l "xs @ [e]"] by auto
  ultimately have c1: "chain ?h (xs @ [e])"
    unfolding h' using c(1) by (simp add: chain_set_next chain_set_prev)
  have "?n \<notin> set (tl (ys @ [a]))" "?f \<notin> set (tl (ys @ [a]))" "l \<notin> set (tl (ys @ [a]))"
    using hd_notin_tl[of "ys @ [a]"] fin d l notin_tl[of ?f "ys @ [a]"] notin_tl[of l "ys @ [a]"] by auto
  moreover have "l \<notin> set ys" "a \<notin> set ys" "e \<notin> set ys" using l d by auto
  ultimately have c2: "chain ?h (ys @ [a])"
    unfolding h' using c(2) by (simp add: chain_set_next chain_set_prev)
  have k1: "nxt ?h l = ?f" "prv ?h ?f = l" "nxt ?h e = l" "prv ?h l = e"
    unfolding h' using fin nin d l by (auto simp: ring_simps)
  have k2: "nxt ?h a = ?n" "prv ?h ?n = a"
    unfolding h' by (auto simp: ring_simps)
  show "ring ?h l (xs @ [e])"
    using c1 k1 d l chain_append2[of "xs @ [e]" "[l]" ?h] by (auto simp: ring_def chain_Cons hd_append)
  show "ring ?h a ys"
    using c2 k2 d by (auto simp: ring_def chain_Cons)
qed

lemma list_cut_position_ring:
  assumes r: "ring h a (xs @ e # ys)" and l: "l \<notin> set (a # xs @ e # ys)"
  shows "ring (list_cut_position l a e h) l (xs @ [e])" and "ring (list_cut_position l a e h) a ys"
proof -
  have "a \<noteq> e" using ring_distinct[OF r] by auto
  moreover have "list_is_singular h a \<Longrightarrow> nxt h a = e"
  proof -
    assume "list_is_singular h a"
    then have s: "nxt h a = prv h a" by (simp add: list_is_singular_def)
    have "nxt h a = hd (xs @ [e])" using ring_head(1)[OF r] by (cases xs) auto
    moreover have "prv h a = last (e # ys)" using ring_head(2)[OF r] by simp
    ultimately show ?thesis using s ring_distinct[OF r]
      by (cases xs; cases ys rule: rev_cases) auto
  qed
  ultimately have "list_cut_position l a e h = list_cut_between l a e h"
    using ring_empty_iff[OF r] by (auto simp: list_cut_position_def)
  then show "ring (list_cut_position l a e h) l (xs @ [e])" "ring (list_cut_position l a e h) a ys"
    using list_cut_between_ring[OF assms] by simp_all
qed

text \<open>Replacing the head moves the whole list to the new head; an empty head is overwritten.\<close>

lemma list_replace_ring:
  assumes r: "ring h a (xs @ e # ys)" and new: "new \<notin> set (a # xs @ e # ys)"
  shows "ring (list_replace e new h) a (xs @ new # ys)"
proof -
  let ?h = "list_replace e new h" and ?p = "last (a # xs)" and ?n = "hd (ys @ [a])"
  have d: "distinct (a # xs @ ys)" using ring_distinct[OF r] by auto
  have pin: "?p \<in> set (a # xs)" and nin: "?n \<in> set (ys @ [a])"
    by (rule last_in_set, simp) (rule hd_in_set, simp)
  have ne: "new \<noteq> e" "?n \<noteq> e" "?n \<noteq> new" "?p \<noteq> new" using new pin nin ring_distinct[OF r] by auto
  have h': "?h = set_next ?p new (set_prev new ?p (set_prev ?n new (set_next new ?n h)))"
    using ring_mid[OF r] ne by (simp add: list_replace_def Let_def ring_simps)
  have "chain h (a # xs)" "chain h (ys @ [a])"
    using r ring_split[of h a xs "e # ys"] by (auto simp: chain_Cons)
  moreover have "chain ?h (a # xs) = chain h (a # xs)" unfolding h'
    using gap_left(1)[OF d] gap_right(1)[OF d] new notin_butlast[of new "a # xs"]
    by (simp add: chain_set_next chain_set_prev)
  moreover have "chain ?h (ys @ [a]) = chain h (ys @ [a])" unfolding h'
    using gap_left(2)[OF d] gap_right(2)[OF d] new notin_butlast[of new "ys @ [a]"] notin_tl[of new "ys @ [a]"]
    by (simp add: chain_set_next chain_set_prev)
  moreover have "nxt ?h ?p = new" "prv ?h new = ?p" "nxt ?h new = ?n" "prv ?h ?n = new"
    unfolding h' using ne by (simp_all add: ring_simps)
  ultimately show ?thesis
    using d new unfolding ring_split[of _ a xs "new # ys"] by (auto simp: chain_Cons)
qed

text \<open>A ring seen from another of its nodes.\<close>

lemma ring_rotate:
  assumes "ring h a (xs @ e # ys)"
  shows "ring h e (ys @ a # xs)"
proof -
  have c: "chain h (a # xs)" "nxt h (last (a # xs)) = e" "prv h e = last (a # xs)"
    "chain h (e # ys @ [a])"
    using assms ring_split[of h a xs "e # ys"] by auto
  have "chain h ((a # xs) @ [e])" using c by (subst chain_append2) auto
  then have "chain h (e # ys @ a # xs @ [e])"
    using c(4) chain_append[of h "e # ys" a "xs @ [e]"] by simp
  then show ?thesis using ring_distinct[OF assms] by (auto simp: ring_def)
qed

lemma list_replace_head_ring:
  assumes r: "ring h a xs" and new: "new \<notin> set (a # xs)"
  shows "ring (list_replace a new h) new xs"
proof (cases xs rule: rev_cases)
  case Nil
  with r new show ?thesis
    by (auto simp: ring_nil list_replace_def Let_def ring_simps)
next
  case (snoc us z)
  then have "ring h z ([] @ a # us)" using ring_rotate[of h a us z "[]"] r by simp
  then have "ring (list_replace a new h) z ([] @ new # us)"
    by (rule list_replace_ring) (use new snoc in auto)
  then show ?thesis using ring_rotate[of _ z "[]" new us] snoc by simp
qed

section \<open>The interface its clients use: an intrusive FIFO\<close>

text \<open>
  Queues of messages, operators and pool slices are used through three operations: append at the
  tail, take from the front, test for emptiness.  The contract is stated once; a node may be
  appended when it is usable (not the head itself) and not already queued.
\<close>

locale intrusive_fifo =
  fixes repr :: "'s \<Rightarrow> 'a list \<Rightarrow> bool"
    and usable :: "'a \<Rightarrow> bool"
    and push :: "'a \<Rightarrow> 's \<Rightarrow> 's"
    and pop :: "'s \<Rightarrow> 'a \<times> 's"
    and is_empty :: "'s \<Rightarrow> bool"
  assumes repr_distinct: "repr s xs \<Longrightarrow> distinct xs"
    and repr_push: "repr s xs \<Longrightarrow> usable x \<Longrightarrow> x \<notin> set xs \<Longrightarrow> repr (push x s) (xs @ [x])"
    and repr_pop: "repr s (x # xs) \<Longrightarrow> fst (pop s) = x \<and> repr (snd (pop s)) xs"
    and repr_is_empty: "repr s xs \<Longrightarrow> is_empty s = (xs = [])"
begin

lemma push_all:
  "repr s xs \<Longrightarrow> (\<forall>y \<in> set ys. usable y) \<Longrightarrow> distinct (xs @ ys) \<Longrightarrow> repr (fold push ys s) (xs @ ys)"
proof (induction ys arbitrary: s xs)
  case (Cons y ys)
  then have "repr (push y s) (xs @ [y])" by (intro repr_push) auto
  then have "repr (fold push ys (push y s)) ((xs @ [y]) @ ys)"
    by (rule Cons.IH) (use Cons.prems in auto)
  then show ?case by simp
qed simp

lemma pop_many: "repr s xs \<Longrightarrow> n \<le> length xs \<Longrightarrow> repr (((snd \<circ> pop) ^^ n) s) (drop n xs)"
proof (induction n arbitrary: s xs)
  case (Suc n)
  then obtain x ys where xs: "xs = x # ys" by (cases xs) auto
  then have "repr (snd (pop s)) ys" using repr_pop Suc.prems(1) by blast
  then have "repr (((snd \<circ> pop) ^^ n) (snd (pop s))) (drop n ys)"
    by (rule Suc.IH) (use xs Suc.prems(2) in simp)
  then show ?case by (simp add: xs funpow_Suc_right comp_def del: funpow.simps)
qed simp

lemma pop_nth:
  assumes "repr s xs" and "n < length xs"
  shows "fst (pop (((snd \<circ> pop) ^^ n) s)) = xs ! n"
proof -
  have "repr (((snd \<circ> pop) ^^ n) s) (xs ! n # drop (Suc n) xs)"
    using pop_many[of s xs n] assms by (simp add: Cons_nth_drop_Suc)
  then show ?thesis using repr_pop by blast
qed

lemma fifo_order:
  assumes "repr s []" and "\<forall>y \<in> set ys. usable y" and "distinct ys" and "n < length ys"
  shows "fst (pop (((snd \<circ> pop) ^^ n) (fold push ys s))) = ys ! n"
  using push_all[of s "[]" ys] assms by (intro pop_nth) auto

end

interpretation ring_queue:
  intrusive_fifo "\<lambda>h xs. ring h a xs" "\<lambda>x. x \<noteq> a" "\<lambda>x. list_add_tail x a" "list_pop_front a"
    "\<lambda>h. list_empty h a" for a
proof unfold_locales
  show "distinct xs" if "ring h a xs" for h xs using ring_distinct[OF that] by simp
  show "ring (list_add_tail x a h) a (xs @ [x])" if "ring h a xs" "x \<noteq> a" "x \<notin> set xs" for h xs x
    using list_add_tail_ring[OF that(1), of x] that by auto
  show "fst (list_pop_front a h) = x \<and> ring (snd (list_pop_front a h)) a xs"
    if "ring h a (x # xs)" for h x xs
    using list_pop_front_ring[OF that] by blast
  show "list_empty h a = (xs = [])" if "ring h a xs" for h xs
    using that by (rule ring_empty_iff)
qed


section \<open>Cutting and splicing\<close>

text \<open>
  Cutting a list after an entry leaves the entries up to it in the second list and the others in the
  first, each a well-formed ring in the old order, and splicing the second list back in front
  restores the original list.
\<close>

theorem list_cut_then_splice:
  assumes "ring h a (xs @ e # ys)" and "l \<notin> set (a # xs @ e # ys)"
  shows "ring (list_cut_position l a e h) l (xs @ [e]) \<and> ring (list_cut_position l a e h) a ys \<and>
    ring (list_splice_init l a (list_cut_position l a e h)) a (xs @ e # ys) \<and>
    ring (list_splice_init l a (list_cut_position l a e h)) l []"
proof -
  note c = list_cut_position_ring[OF assms]
  have d: "set (l # xs @ [e]) \<inter> set (a # ys) = {}"
    using assms ring_distinct[OF assms(1)] by auto
  with c show ?thesis using list_splice_init_ring(1,2)[OF c d] by simp
qed

theorem list_cut_then_splice_witness:
  "\<exists>h. ring h 1 [2, 3, 4] \<and> ring (list_cut_position 9 1 3 h) 9 [2, 3] \<and> ring (list_cut_position 9 1 3 h) 1 [4] \<and>
    ring (list_splice_init 9 1 (list_cut_position 9 1 3 h)) 1 [2, 3, 4]"
proof -
  let ?h = "fold (\<lambda>x. list_add_tail x 1) [2, 3, 4] (INIT_LIST_HEAD 1 \<lparr>nxt = (\<lambda>_. 0), prv = (\<lambda>_. 0)\<rparr>)"
  have "ring ?h 1 ([] @ [2, 3, 4])"
    by (rule ring_queue.push_all) (simp_all add: INIT_LIST_HEAD_ring)
  then show ?thesis
    using list_cut_then_splice[of ?h 1 "[2]" 3 "[4]" 9] by (intro exI[of _ ?h]) simp
qed

end
