(* ===== verification/Wait_Queue.thy ===== *)
theory Wait_Queue
  imports List_Head
begin

text \<open>
  \<^verbatim>\<open>base/wait_queue.h\<close>: a counted FIFO of intrusive nodes under a mutex.  Each function is one
  critical section, hence one state transformer.  The only point at which the mutex is given up
  is the timed wait of \<^verbatim>\<open>WQ_Pop\<close>; what the other threads do meanwhile is its argument \<open>wait\<close>.
\<close>

record wait_queue =
  wq_count :: u32
  wq_links :: list_head

text \<open>\<open>q\<close> is the address of the member \<^verbatim>\<open>queue\<close>, the list head.\<close>

definition WQ_Init :: "addr \<Rightarrow> list_head \<Rightarrow> wait_queue" where
  "WQ_Init q h = \<lparr>wq_count = 0, wq_links = INIT_LIST_HEAD q h\<rparr>"

text \<open>The result is the value returned and whether the condition variable is signalled.\<close>

definition WQ_Push :: "addr \<Rightarrow> addr \<Rightarrow> bool \<Rightarrow> wait_queue \<Rightarrow> (bool \<times> bool) \<times> wait_queue" where
  "WQ_Push q node signal wq =
     (let first = list_empty (wq_links wq) q;
          wq = wq\<lparr>wq_count := wq_count wq + 1\<rparr>;
          wq = wq\<lparr>wq_links := list_add_tail node q (wq_links wq)\<rparr>
      in ((first, first \<and> signal), wq))"

definition WQ_Pop :: "addr \<Rightarrow> (wait_queue \<Rightarrow> wait_queue) \<Rightarrow> wait_queue \<Rightarrow> addr option \<times> wait_queue" where
  "WQ_Pop q wait wq =
     (let wq = (if list_empty (wq_links wq) q then wait wq else wq)
      in if \<not> list_empty (wq_links wq) q
         then let node = nxt (wq_links wq) q;
                  wq = wq\<lparr>wq_links := list_del_init node (wq_links wq)\<rparr>
              in (Some node, wq\<lparr>wq_count := wq_count wq - 1\<rparr>)
         else (None, wq))"

text \<open>The abstract queue: the nodes in the ring, counted modulo the width of the counter.\<close>

definition wq_repr :: "addr \<Rightarrow> wait_queue \<Rightarrow> addr list \<Rightarrow> bool" where
  "wq_repr q wq xs = (ring (wq_links wq) q xs \<and> wq_count wq = of_nat (length xs))"

lemma WQ_Init_repr: "wq_repr q (WQ_Init q h) []"
  by (simp add: wq_repr_def WQ_Init_def INIT_LIST_HEAD_ring)

lemma WQ_Push_repr:
  assumes "wq_repr q wq xs" and "x \<noteq> q" and "x \<notin> set xs"
  shows "wq_repr q (snd (WQ_Push q x sig wq)) (xs @ [x])"
    and "fst (WQ_Push q x sig wq) = (xs = [], xs = [] \<and> sig)"
  using assms ring_queue.repr_push[of _ q xs x] ring_queue.repr_is_empty[of _ q xs]
  by (auto simp: wq_repr_def WQ_Push_def Let_def)

lemma WQ_Pop_repr:
  assumes "wq_repr q wq (x # xs)"
  shows "fst (WQ_Pop q wait wq) = Some x" and "wq_repr q (snd (WQ_Pop q wait wq)) xs"
proof -
  have r: "ring (wq_links wq) q (x # xs)" using assms by (simp add: wq_repr_def)
  note p = list_pop_front_ring[OF r]
  have ne: "\<not> list_empty (wq_links wq) q" using ring_queue.repr_is_empty[OF r] by simp
  then show "fst (WQ_Pop q wait wq) = Some x"
    using p(1) by (simp add: WQ_Pop_def list_pop_front_def Let_def)
  show "wq_repr q (snd (WQ_Pop q wait wq)) xs"
    using p(2) ne assms by (simp add: WQ_Pop_def wq_repr_def list_pop_front_def Let_def)
qed

interpretation wait_fifo:
  intrusive_fifo "wq_repr q" "\<lambda>x. x \<noteq> q" "\<lambda>x wq. snd (WQ_Push q x sig wq)"
    "\<lambda>wq. (the (fst (WQ_Pop q wait wq)), snd (WQ_Pop q wait wq))"
    "\<lambda>wq. list_empty (wq_links wq) q" for q sig wait
proof unfold_locales
  show "distinct xs" if "wq_repr q wq xs" for wq xs
    using that ring_queue.repr_distinct by (auto simp: wq_repr_def)
  show "wq_repr q (snd (WQ_Push q x sig wq)) (xs @ [x])"
    if "wq_repr q wq xs" "x \<noteq> q" "x \<notin> set xs" for wq xs x
    using WQ_Push_repr that by blast
  show "fst (the (fst (WQ_Pop q wait wq)), snd (WQ_Pop q wait wq)) = x \<and>
      wq_repr q (snd (the (fst (WQ_Pop q wait wq)), snd (WQ_Pop q wait wq))) xs"
    if "wq_repr q wq (x # xs)" for wq x xs
    using WQ_Pop_repr[OF that] by simp
  show "list_empty (wq_links wq) q = (xs = [])" if "wq_repr q wq xs" for wq xs
    using that ring_queue.repr_is_empty by (auto simp: wq_repr_def)
qed


text \<open>
  Nodes pushed on a fresh wait queue are popped in the order they were pushed, without a wait,
  and the counter is the number of nodes still queued.
\<close>

theorem wait_queue_order:
  assumes "distinct ys" and "q \<notin> set ys" and "n < length ys"
  shows "fst (WQ_Pop q wait (((\<lambda>wq. snd (WQ_Pop q wait wq)) ^^ n)
      (fold (\<lambda>y wq. snd (WQ_Push q y sig wq)) ys (WQ_Init q h)))) = Some (ys ! n) \<and>
    wq_count (((\<lambda>wq. snd (WQ_Pop q wait wq)) ^^ n)
      (fold (\<lambda>y wq. snd (WQ_Push q y sig wq)) ys (WQ_Init q h))) = of_nat (length ys - n)"
proof -
  let ?w = "fold (\<lambda>y wq. snd (WQ_Push q y sig wq)) ys (WQ_Init q h)"
  have "wq_repr q ?w ([] @ ys)"
    by (rule wait_fifo.push_all[OF WQ_Init_repr]) (use assms in auto)
  then have "wq_repr q (((\<lambda>wq. snd (WQ_Pop q wait wq)) ^^ n) ?w) (drop n ys)"
    using wait_fifo.pop_many[of q ?w ys n wait] assms(3) by (simp add: comp_def)
  moreover have "drop n ys = ys ! n # drop (Suc n) ys"
    using assms(3) by (simp add: Cons_nth_drop_Suc)
  ultimately have r: "wq_repr q (((\<lambda>wq. snd (WQ_Pop q wait wq)) ^^ n) ?w) (ys ! n # drop (Suc n) ys)" by simp
  then have "wq_count (((\<lambda>wq. snd (WQ_Pop q wait wq)) ^^ n) ?w) = of_nat (length (ys ! n # drop (Suc n) ys))"
    by (simp add: wq_repr_def)
  moreover have "length (ys ! n # drop (Suc n) ys) = length ys - n" using assms(3) by simp
  ultimately show ?thesis using WQ_Pop_repr(1)[OF r] by metis
qed

theorem wait_queue_order_witness:
  "fst (WQ_Pop 7 id (((\<lambda>wq. snd (WQ_Pop 7 id wq)) ^^ 2)
      (fold (\<lambda>y wq. snd (WQ_Push 7 y True wq)) [4, 9, 2, 5] (WQ_Init 7 \<lparr>nxt = (\<lambda>_. 0), prv = (\<lambda>_. 0)\<rparr>)))) = Some 2"
  using wait_queue_order[of "[4, 9, 2, 5]" 7 2 id True "\<lparr>nxt = (\<lambda>_. 0), prv = (\<lambda>_. 0)\<rparr>"]
  by (simp add: numeral_2_eq_2)

end
