(* ===== verification/Mqtt_Buffer.thy ===== *)
theory Mqtt_Buffer
  imports Prelude
begin

text \<open>
  \<^verbatim>\<open>iot/buffer.c\<close>: the heap-allocated byte buffer of the MQTT codec.  \<open>alloc n\<close> tells whether an
  allocation of \<open>n\<close> bytes succeeds; within one call of the codec the sizes requested for a buffer
  grow strictly, so this covers every pattern of failures.  An operation returns the C result
  and the buffer afterwards, all in \<open>option\<close>, \<open>None\<close> being undefined behaviour.
\<close>

definition FAILURE :: int where "FAILURE = - EFAULT"

lemma FAILURE_neq_0 [simp]: "FAILURE \<noteq> 0" "0 \<noteq> FAILURE"
  by (simp_all add: FAILURE_def errno_defs)

record mqtt_buffer =
  buffer :: "block option"
  bsize :: nat

text \<open>
  The source pointer of an append: \<^verbatim>\<open>NULL\<close>, the pointer the buffer itself holds, or a pointer
  to another block.
\<close>

datatype src = SNull | SSelf | SExt block

definition points_to_buffer :: "src \<Rightarrow> mqtt_buffer \<Rightarrow> bool" where
  "points_to_buffer s b = (case s of SNull \<Rightarrow> buffer b = None | SSelf \<Rightarrow> True | SExt _ \<Rightarrow> False)"

definition src_cells :: "src \<Rightarrow> mqtt_buffer \<Rightarrow> nat \<Rightarrow> block option" where
  "src_cells s b n =
     (case s of
        SNull \<Rightarrow> (if n = 0 then Some [] else None)
      | SSelf \<Rightarrow> (case buffer b of None \<Rightarrow> (if n = 0 then Some [] else None) | Some m \<Rightarrow> copy_out m 0 n)
      | SExt m \<Rightarrow> copy_out m 0 n)"

definition realloc_block :: "block option \<Rightarrow> nat \<Rightarrow> block" where
  "realloc_block m n =
     (case m of None \<Rightarrow> fresh n | Some c \<Rightarrow> take n c @ fresh (n - length c))"

text \<open>\<^verbatim>\<open>sizeof(BUFFER)\<close> on the 64-bit targets.\<close>

definition sizeof_BUFFER :: nat where "sizeof_BUFFER = 16"

definition BUFFER_new :: "(nat \<Rightarrow> bool) \<Rightarrow> mqtt_buffer option" where
  "BUFFER_new alloc =
     (if alloc sizeof_BUFFER then Some \<lparr>buffer = None, bsize = 0\<rparr> else None)"

definition BUFFER_safemalloc :: "(nat \<Rightarrow> bool) \<Rightarrow> mqtt_buffer \<Rightarrow> nat \<Rightarrow> int \<times> mqtt_buffer" where
  "BUFFER_safemalloc alloc b sz =
     (let sizetomalloc = (if sz = 0 then 1 else sz)
      in if \<not> alloc sizetomalloc then (FAILURE, b\<lparr>buffer := None\<rparr>)
         else (0, b\<lparr>buffer := Some (fresh sizetomalloc), bsize := sz\<rparr>))"

text \<open>The members of a struct fresh from \<^verbatim>\<open>malloc\<close> are indeterminate; both are stored before any use.\<close>

definition BUFFER_create :: "(nat \<Rightarrow> bool) \<Rightarrow> block option \<Rightarrow> nat \<Rightarrow> mqtt_buffer option option" where
  "BUFFER_create alloc source sz =
     (case source of
        None \<Rightarrow> Some None
      | Some s \<Rightarrow>
          if \<not> alloc sizeof_BUFFER then Some None
          else let (r, result) = BUFFER_safemalloc alloc \<lparr>buffer = None, bsize = 0\<rparr> sz
               in if r \<noteq> 0 then Some None
                  else do {
                    cells \<leftarrow> copy_out s 0 sz;
                    m \<leftarrow> copy_in (the (buffer result)) 0 cells;
                    Some (Some (result\<lparr>buffer := Some m\<rparr>))
                  })"

text \<open>\<open>BUFFER_delete\<close> frees both blocks; the handle is dead afterwards.\<close>

definition BUFFER_delete :: "mqtt_buffer option \<Rightarrow> mqtt_buffer option" where
  "BUFFER_delete handle = None"

definition BUFFER_build :: "(nat \<Rightarrow> bool) \<Rightarrow> mqtt_buffer \<Rightarrow> src \<Rightarrow> nat \<Rightarrow> (int \<times> mqtt_buffer) option" where
  "BUFFER_build alloc b source sz =
     (if sz = 0 then Some (0, b\<lparr>buffer := None, bsize := 0\<rparr>)
      else if \<not> alloc sz then Some (FAILURE, b)
      else case source of
             SExt s \<Rightarrow> do {
               cells \<leftarrow> copy_out s 0 sz;
               m \<leftarrow> copy_in (realloc_block (buffer b) sz) 0 cells;
               Some (0, b\<lparr>buffer := Some m, bsize := sz\<rparr>)
             }
           | _ \<Rightarrow> None)"

definition BUFFER_pre_build :: "(nat \<Rightarrow> bool) \<Rightarrow> mqtt_buffer \<Rightarrow> nat \<Rightarrow> int \<times> mqtt_buffer" where
  "BUFFER_pre_build alloc b sz =
     (if buffer b \<noteq> None then (FAILURE, b)
      else if \<not> alloc (if sz \<noteq> 0 then sz else 1) then (FAILURE, b)
      else (0, b\<lparr>buffer := Some (fresh (if sz \<noteq> 0 then sz else 1)), bsize := sz\<rparr>))"

definition BUFFER_content :: "mqtt_buffer option \<Rightarrow> bool \<Rightarrow> int \<times> block option" where
  "BUFFER_content handle content_given =
     (case handle of
        None \<Rightarrow> (FAILURE, None)
      | Some b \<Rightarrow> if content_given then (0, buffer b) else (FAILURE, None))"

definition BUFFER_unbuild :: "mqtt_buffer \<Rightarrow> int \<times> mqtt_buffer" where
  "BUFFER_unbuild b =
     (if buffer b \<noteq> None then (0, b\<lparr>buffer := None, bsize := 0\<rparr>) else (FAILURE, b))"

text \<open>\<open>realloc\<close> to zero bytes (the sum wrapped around) has no defined result.\<close>

definition BUFFER_enlarge :: "(nat \<Rightarrow> bool) \<Rightarrow> mqtt_buffer \<Rightarrow> nat \<Rightarrow> (int \<times> mqtt_buffer) option" where
  "BUFFER_enlarge alloc b enlargeSize =
     (if enlargeSize = 0 then Some (0, b)
      else let n = size_add (bsize b) enlargeSize
           in if n = 0 then None
              else if \<not> alloc n then Some (FAILURE, b)
              else Some (0, b\<lparr>buffer := Some (realloc_block (buffer b) n), bsize := n\<rparr>))"

definition BUFFER_size :: "mqtt_buffer option \<Rightarrow> bool \<Rightarrow> int \<times> nat option" where
  "BUFFER_size handle size_given =
     (case handle of
        None \<Rightarrow> (FAILURE, None)
      | Some b \<Rightarrow> if size_given then (0, Some (bsize b)) else (FAILURE, None))"

definition BUFFER_append :: "(nat \<Rightarrow> bool) \<Rightarrow> mqtt_buffer \<Rightarrow> src \<Rightarrow> nat \<Rightarrow> (int \<times> mqtt_buffer) option" where
  "BUFFER_append alloc b1 source sz =
     (if points_to_buffer source b1 then Some (FAILURE, b1)
      else if sz = 0 then Some (0, b1)
      else let n = size_add (bsize b1) sz
           in if \<not> alloc n then Some (FAILURE, b1)
              else do {
                old \<leftarrow> src_cells SSelf b1 (bsize b1);
                temp \<leftarrow> copy_in (fresh n) 0 old;
                new \<leftarrow> src_cells source b1 sz;
                temp \<leftarrow> copy_in temp (bsize b1) new;
                Some (0, b1\<lparr>buffer := Some temp, bsize := n\<rparr>)
              })"

definition BUFFER_prepend :: "(nat \<Rightarrow> bool) \<Rightarrow> mqtt_buffer \<Rightarrow> src \<Rightarrow> nat \<Rightarrow> (int \<times> mqtt_buffer) option" where
  "BUFFER_prepend alloc b1 source sz =
     (if points_to_buffer source b1 then Some (FAILURE, b1)
      else if sz = 0 then Some (0, b1)
      else let n = size_add (bsize b1) sz
           in if \<not> alloc n then Some (FAILURE, b1)
              else do {
                new \<leftarrow> src_cells source b1 sz;
                temp \<leftarrow> copy_in (fresh n) 0 new;
                old \<leftarrow> src_cells SSelf b1 (bsize b1);
                temp \<leftarrow> copy_in temp sz old;
                Some (0, b1\<lparr>buffer := Some temp, bsize := n\<rparr>)
              })"

definition BUFFER_u_char :: "mqtt_buffer option \<Rightarrow> block option" where
  "BUFFER_u_char handle =
     (case handle of None \<Rightarrow> None | Some b \<Rightarrow> if bsize b = 0 then None else buffer b)"

definition BUFFER_length :: "mqtt_buffer option \<Rightarrow> nat" where
  "BUFFER_length handle = (case handle of None \<Rightarrow> 0 | Some b \<Rightarrow> bsize b)"

text \<open>
  When the second allocation fails the new struct is not freed; the model has no account of
  leaked blocks, so this shows only as the \<^verbatim>\<open>NULL\<close> result.
\<close>

definition BUFFER_clone :: "(nat \<Rightarrow> bool) \<Rightarrow> mqtt_buffer option \<Rightarrow> mqtt_buffer option option" where
  "BUFFER_clone alloc handle =
     (case handle of
        None \<Rightarrow> Some None
      | Some supplied \<Rightarrow>
          if alloc sizeof_BUFFER
          then let (r, b) = BUFFER_safemalloc alloc \<lparr>buffer = None, bsize = 0\<rparr> (bsize supplied)
               in if r \<noteq> 0 then Some None
                  else do {
                    cells \<leftarrow> src_cells SSelf supplied (bsize supplied);
                    m \<leftarrow> copy_in (the (buffer b)) 0 cells;
                    Some (Some (b\<lparr>buffer := Some m, bsize := bsize supplied\<rparr>))
                  }
          else Some None)"

section \<open>The bytes a buffer holds\<close>

text \<open>
  \<open>buf_repr b m\<close>: the buffer holds exactly the cells \<open>m\<close>, in a block of that size (or none at
  all when it is empty).
\<close>

definition buf_repr :: "mqtt_buffer \<Rightarrow> block \<Rightarrow> bool" where
  "buf_repr b m = (bsize b = length m \<and> (buffer b = Some m \<or> m = [] \<and> buffer b = None))"

lemma buf_repr_empty [simp]: "buf_repr \<lparr>buffer = None, bsize = 0\<rparr> []"
  by (simp add: buf_repr_def)

lemma buf_repr_length: "buf_repr b m \<Longrightarrow> BUFFER_length (Some b) = length m"
  by (simp add: buf_repr_def BUFFER_length_def)

lemma buf_repr_u_char: "buf_repr b m \<Longrightarrow> BUFFER_u_char (Some b) = (if m = [] then None else Some m)"
  by (auto simp: buf_repr_def BUFFER_u_char_def)

lemma src_cells_self: "buf_repr b m \<Longrightarrow> src_cells SSelf b (bsize b) = Some m"
  by (auto simp: buf_repr_def src_cells_def copy_out_def)

lemma realloc_repr: "buf_repr b m \<Longrightarrow> realloc_block (buffer b) (length m + n) = m @ fresh n"
  by (auto simp: buf_repr_def realloc_block_def)

text \<open>\<open>buf_set b m\<close> is the buffer after its block was replaced by \<open>m\<close>.\<close>

definition buf_set :: "mqtt_buffer \<Rightarrow> block \<Rightarrow> mqtt_buffer" where
  "buf_set b m = b\<lparr>buffer := Some m, bsize := length m\<rparr>"

lemma buf_set_simps [simp]:
  "buffer (buf_set b m) = Some m" "bsize (buf_set b m) = length m"
  "buf_set (buf_set b m) m' = buf_set b m'"
  by (simp_all add: buf_set_def)

lemma buf_repr_set [simp]: "buf_repr (buf_set b m) m"
  by (simp add: buf_repr_def)

lemma buf_set_update [simp]: "length m' = length m \<Longrightarrow> (buf_set b m)\<lparr>buffer := Some m'\<rparr> = buf_set b m'"
  by (simp add: buf_set_def)

lemma BUFFER_length_set [simp]: "BUFFER_length (Some (buf_set b m)) = length m"
  by (simp add: BUFFER_length_def)

lemma u_char_set [simp]: "0 < length m \<Longrightarrow> BUFFER_u_char (Some (buf_set b m)) = Some m"
  by (simp add: BUFFER_u_char_def)

lemma BUFFER_enlarge_repr:
  assumes "buf_repr b m" and "0 < n" and "length m + n < size_mod"
  shows "BUFFER_enlarge alloc b n =
    (if alloc (length m + n) then Some (0, buf_set b (m @ fresh n)) else Some (FAILURE, b))"
  using assms realloc_repr[of b m n] by (auto simp: BUFFER_enlarge_def buf_repr_def buf_set_def Let_def)

lemma copy_in_front: "length s \<le> n \<Longrightarrow> copy_in (fresh n) 0 s = Some (s @ fresh (n - length s))"
  using copy_in_at[of 0 "[]" s "fresh n"] by simp

lemma copy_in_end: "copy_in (p @ fresh (length s)) (length p) s = Some (p @ s)"
  using copy_in_at[of "length p" p s "fresh (length s)"] by simp

lemma BUFFER_append_repr:
  assumes b: "buf_repr b m" and n: "length m + length s < size_mod"
  shows "BUFFER_append alloc b (SExt s) (length s) =
    (if s = [] then Some (0, b)
     else if alloc (length m + length s) then Some (0, buf_set b (m @ s)) else Some (FAILURE, b))"
proof -
  have "bsize b = length m" using b by (simp add: buf_repr_def)
  then show ?thesis
    using n src_cells_self[OF b] copy_in_front[of m "length m + length s"] copy_in_end[of m s]
    by (auto simp: BUFFER_append_def points_to_buffer_def src_cells_def copy_out_def buf_set_def Let_def)
qed

lemma BUFFER_prepend_repr:
  assumes b: "buf_repr b m" and n: "length m + n < size_mod" and le: "n \<le> length s"
  shows "BUFFER_prepend alloc b (SExt s) n =
    (if n = 0 then Some (0, b)
     else if alloc (length m + n) then Some (0, buf_set b (take n s @ m)) else Some (FAILURE, b))"
proof -
  have "bsize b = length m" using b by (simp add: buf_repr_def)
  moreover have "copy_in (take n s @ fresh (length m)) n m = Some (take n s @ m)"
    using copy_in_end[of "take n s" m] le by simp
  ultimately show ?thesis
    using n le src_cells_self[OF b] copy_in_front[of "take n s" "length m + n"]
    by (auto simp: BUFFER_prepend_def points_to_buffer_def src_cells_def copy_out_def buf_set_def Let_def add.commute)
qed

lemma BUFFER_unbuild_repr: "buf_repr b m \<Longrightarrow> snd (BUFFER_unbuild b) = b\<lparr>buffer := None, bsize := 0\<rparr>"
  by (cases b) (auto simp: buf_repr_def BUFFER_unbuild_def)

end
