(* ===== verification/Mqtt_Message.thy ===== *)
theory Mqtt_Message
  imports Mqtt_Buffer
begin

text \<open>
  \<^verbatim>\<open>iot/mqttconst.h\<close> and \<^verbatim>\<open>iot/mqtt_message.c\<close>: the constants of the protocol and the publish
  message with its constructor, copy and accessors.  A C enumeration is a 32-bit value, because
  the code stores numbers in it that are no enumerator (a received packet type, a configured
  quality of service).  A C string is the list of its bytes before the terminator.
\<close>

type_synonym c_enum = u32
type_synonym cstring = "u8 list"

named_theorems mqtt_consts "values of the protocol constants"

definition CONNECT_TYPE :: c_enum where [mqtt_consts]: "CONNECT_TYPE = 0x10"
definition CONNACK_TYPE :: c_enum where [mqtt_consts]: "CONNACK_TYPE = 0x20"
definition PUBLISH_TYPE :: c_enum where [mqtt_consts]: "PUBLISH_TYPE = 0x30"
definition PUBACK_TYPE :: c_enum where [mqtt_consts]: "PUBACK_TYPE = 0x40"
definition PUBREC_TYPE :: c_enum where [mqtt_consts]: "PUBREC_TYPE = 0x50"
definition PUBREL_TYPE :: c_enum where [mqtt_consts]: "PUBREL_TYPE = 0x60"
definition PUBCOMP_TYPE :: c_enum where [mqtt_consts]: "PUBCOMP_TYPE = 0x70"
definition SUBSCRIBE_TYPE :: c_enum where [mqtt_consts]: "SUBSCRIBE_TYPE = 0x80"
definition SUBACK_TYPE :: c_enum where [mqtt_consts]: "SUBACK_TYPE = 0x90"
definition UNSUBSCRIBE_TYPE :: c_enum where [mqtt_consts]: "UNSUBSCRIBE_TYPE = 0xA0"
definition UNSUBACK_TYPE :: c_enum where [mqtt_consts]: "UNSUBACK_TYPE = 0xB0"
definition PINGREQ_TYPE :: c_enum where [mqtt_consts]: "PINGREQ_TYPE = 0xC0"
definition PINGRESP_TYPE :: c_enum where [mqtt_consts]: "PINGRESP_TYPE = 0xD0"
definition DISCONNECT_TYPE :: c_enum where [mqtt_consts]: "DISCONNECT_TYPE = 0xE0"
definition PACKET_TYPE_ERROR :: c_enum where [mqtt_consts]: "PACKET_TYPE_ERROR = 0xE1"
definition UNKNOWN_TYPE :: c_enum where [mqtt_consts]: "UNKNOWN_TYPE = 0xE2"

definition DELIVER_AT_MOST_ONCE :: c_enum where [mqtt_consts]: "DELIVER_AT_MOST_ONCE = 0"
definition DELIVER_AT_LEAST_ONCE :: c_enum where [mqtt_consts]: "DELIVER_AT_LEAST_ONCE = 1"
definition DELIVER_EXACTLY_ONCE :: c_enum where [mqtt_consts]: "DELIVER_EXACTLY_ONCE = 2"

definition CONNECTION_ACCEPTED :: c_enum where [mqtt_consts]: "CONNECTION_ACCEPTED = 0"

record mqtt_client_options =
  clientId :: "cstring option"
  willTopic :: "cstring option"
  willMessage :: "cstring option"
  username :: "cstring option"
  password :: "cstring option"
  keepAliveInterval :: u16
  messageRetain :: bool
  useCleanSession :: bool
  qualityOfServiceValue :: c_enum
  log_trace :: bool

text \<open>
  The payload is a pointer and a length.  \<open>topicLen\<close> is indeterminate (\<open>None\<close>) in a message that
  \<^verbatim>\<open>mqttmessage_create\<close> built: only the decoder stores it.
\<close>

record publish_msg =
  packetId :: u16
  topicLen :: "u16 option"
  topicName :: "cstring option"
  qosInfo :: c_enum
  message :: "block option"
  msg_length :: nat
  isDuplicate :: bool
  isRetained :: bool

definition sizeof_PUBLISH_MSG :: nat where "sizeof_PUBLISH_MSG = 48"

text \<open>\<open>block_at p n\<close> is the \<open>n\<close> cells a pointer \<open>p\<close> leads to.\<close>

definition block_at :: "block option \<Rightarrow> nat \<Rightarrow> block option" where
  "block_at p n =
     (case p of None \<Rightarrow> (if n = 0 then Some [] else None) | Some m \<Rightarrow> copy_out m 0 n)"

definition mqttmessage_create ::
    "(nat \<Rightarrow> bool) \<Rightarrow> u16 \<Rightarrow> cstring option \<Rightarrow> c_enum \<Rightarrow> block option \<Rightarrow> nat \<Rightarrow> publish_msg option option" where
  "mqttmessage_create alloc pid topic qosValue appMsg appMsgLength =
     (case topic of
        None \<Rightarrow> Some None
      | Some t \<Rightarrow>
          if \<not> alloc sizeof_PUBLISH_MSG then Some None
          else if \<not> alloc (length t + 1) then Some None
          else let result = \<lparr>packetId = pid, topicLen = None, topicName = Some t, qosInfo = qosValue,
                             message = None, msg_length = appMsgLength,
                             isDuplicate = False, isRetained = False\<rparr>
               in if appMsgLength > 0
                  then if \<not> alloc appMsgLength then Some None
                       else do {
                         cells \<leftarrow> block_at appMsg appMsgLength;
                         m \<leftarrow> copy_in (fresh appMsgLength) 0 cells;
                         Some (Some (result\<lparr>message := Some m\<rparr>))
                       }
                  else Some (Some result))"

definition mqttmessage_destroy :: "publish_msg option \<Rightarrow> publish_msg option" where
  "mqttmessage_destroy handle = None"

definition mqttmessage_setIsDuplicateMsg :: "publish_msg option \<Rightarrow> bool \<Rightarrow> int \<times> publish_msg option" where
  "mqttmessage_setIsDuplicateMsg handle duplicateMsg =
     (case handle of None \<Rightarrow> (FAILURE, None)
      | Some msgInfo \<Rightarrow> (0, Some (msgInfo\<lparr>isDuplicate := duplicateMsg\<rparr>)))"

definition mqttmessage_setIsRetained :: "publish_msg option \<Rightarrow> bool \<Rightarrow> int \<times> publish_msg option" where
  "mqttmessage_setIsRetained handle retainMsg =
     (case handle of None \<Rightarrow> (FAILURE, None)
      | Some msgInfo \<Rightarrow> (0, Some (msgInfo\<lparr>isRetained := retainMsg\<rparr>)))"

definition mqttmessage_clone :: "(nat \<Rightarrow> bool) \<Rightarrow> publish_msg option \<Rightarrow> publish_msg option option" where
  "mqttmessage_clone alloc handle =
     (case handle of
        None \<Rightarrow> Some None
      | Some m \<Rightarrow> do {
          result \<leftarrow> mqttmessage_create alloc (packetId m) (topicName m) (qosInfo m) (message m) (msg_length m);
          if result \<noteq> None
          then let (_, result) = mqttmessage_setIsDuplicateMsg result (isDuplicate m);
                   (_, result) = mqttmessage_setIsRetained result (isRetained m)
               in Some result
          else Some None
        })"

definition mqttmessage_getPacketId :: "publish_msg option \<Rightarrow> u16" where
  "mqttmessage_getPacketId handle = (case handle of None \<Rightarrow> 0 | Some m \<Rightarrow> packetId m)"

definition mqttmessage_getTopicName :: "publish_msg option \<Rightarrow> cstring option" where
  "mqttmessage_getTopicName handle = (case handle of None \<Rightarrow> None | Some m \<Rightarrow> topicName m)"

definition mqttmessage_getQosType :: "publish_msg option \<Rightarrow> c_enum" where
  "mqttmessage_getQosType handle = (case handle of None \<Rightarrow> DELIVER_AT_MOST_ONCE | Some m \<Rightarrow> qosInfo m)"

definition mqttmessage_getIsDuplicateMsg :: "publish_msg option \<Rightarrow> bool" where
  "mqttmessage_getIsDuplicateMsg handle = (case handle of None \<Rightarrow> False | Some m \<Rightarrow> isDuplicate m)"

definition mqttmessage_getIsRetained :: "publish_msg option \<Rightarrow> bool" where
  "mqttmessage_getIsRetained handle = (case handle of None \<Rightarrow> False | Some m \<Rightarrow> isRetained m)"

definition mqttmessage_getApplicationMsg :: "publish_msg option \<Rightarrow> (block option \<times> nat) option" where
  "mqttmessage_getApplicationMsg handle =
     (case handle of None \<Rightarrow> None | Some m \<Rightarrow> Some (message m, msg_length m))"

text \<open>What a reader of a message sees: everything but \<open>topicLen\<close>, the payload as its cells.\<close>

definition msg_content where
  "msg_content m =
     (packetId m, topicName m, qosInfo m, block_at (message m) (msg_length m), isDuplicate m, isRetained m)"

definition msg_wf :: "publish_msg \<Rightarrow> bool" where
  "msg_wf m = (topicName m \<noteq> None \<and> block_at (message m) (msg_length m) \<noteq> None)"

lemma block_at_Some_length: "block_at p n = Some c \<Longrightarrow> length c = n"
  by (auto simp: block_at_def copy_out_def split: option.splits if_splits)

lemma block_at_self: "length c = n \<Longrightarrow> block_at (Some c) n = Some c"
  by (auto simp: block_at_def copy_out_def)

lemma mqttmessage_create_content:
  assumes "block_at appMsg n = Some c" and "alloc sizeof_PUBLISH_MSG" and "alloc (length t + 1)"
    and "n > 0 \<Longrightarrow> alloc n"
  shows "\<exists>m. mqttmessage_create alloc pid (Some t) q appMsg n = Some (Some m) \<and> msg_wf m \<and>
    msg_content m = (pid, Some t, q, Some c, False, False) \<and> topicLen m = None"
proof (cases "n = 0")
  case True
  then show ?thesis using assms block_at_Some_length[OF assms(1)]
    by (auto simp: mqttmessage_create_def msg_content_def msg_wf_def block_at_def)
next
  case False
  have "length c = n" using assms(1) by (rule block_at_Some_length)
  then have "copy_in (fresh n) 0 c = Some c" using copy_in_front[of c n] by simp
  with False assms \<open>length c = n\<close> show ?thesis
    by (simp add: mqttmessage_create_def msg_content_def msg_wf_def block_at_self Let_def)
qed

text \<open>
  Cloning a publish message yields a message with the same packet id, topic, quality of
  service, payload bytes and flags, when the allocations succeed; the member \<open>topicLen\<close> of the
  copy stays indeterminate.
\<close>

theorem mqttmessage_clone_same:
  assumes "msg_wf m" and "\<And>n. alloc n"
  shows "\<exists>c. mqttmessage_clone alloc (Some m) = Some (Some c) \<and> msg_content c = msg_content m \<and>
    topicLen c = None"
proof -
  obtain t c where t: "topicName m = Some t" "block_at (message m) (msg_length m) = Some c"
    using assms(1) by (auto simp: msg_wf_def)
  obtain r where "mqttmessage_create alloc (packetId m) (Some t) (qosInfo m) (message m) (msg_length m) = Some (Some r)"
      "msg_content r = (packetId m, Some t, qosInfo m, Some c, False, False)" "topicLen r = None"
    using mqttmessage_create_content[OF t(2)] assms(2) by blast
  with t show ?thesis
    by (auto simp: mqttmessage_clone_def msg_content_def mqttmessage_setIsDuplicateMsg_def
        mqttmessage_setIsRetained_def)
qed

theorem mqttmessage_clone_same_witness:
  "\<exists>m c. msg_wf m \<and> mqttmessage_clone (\<lambda>_. True) (Some m) = Some (Some c) \<and>
    block_at (message c) (msg_length c) = Some [Some 1, Some 2]"
proof -
  let ?m = "\<lparr>packetId = 7, topicLen = Some 1, topicName = Some [97], qosInfo = 1,
    message = Some [Some 1, Some 2], msg_length = 2, isDuplicate = True, isRetained = False\<rparr>"
  have wf: "msg_wf ?m" by (simp add: msg_wf_def block_at_def copy_out_def)
  obtain c where c: "mqttmessage_clone (\<lambda>_. True) (Some ?m) = Some (Some c)" "msg_content c = msg_content ?m"
    using mqttmessage_clone_same[OF wf, of "\<lambda>_. True"] by auto
  then have "block_at (message c) (msg_length c) = Some [Some 1, Some 2]"
    by (simp add: msg_content_def block_at_def copy_out_def)
  with wf c(1) show ?thesis by blast
qed

end
