(* ===== verification/Mqtt_Codec.thy ===== *)
theory Mqtt_Codec
  imports Mqtt_Message
begin

text \<open>
  The encoding half of \<^verbatim>\<open>iot/mqtt_codec.c\<close>: the \<^verbatim>\<open>byteutil_write\<close> helpers, the constructors of
  the headers and payloads and the ten \<^verbatim>\<open>mqtt_codec_\<close> packet builders.  An iterator into the
  buffer is the block with an offset.  A builder returns whether its result is the buffer
  (\<open>True\<close>) or \<^verbatim>\<open>NULL\<close> (\<open>False\<close>), with the buffer afterwards.
\<close>

unbundle bit_operations_syntax

section \<open>Iterators\<close>

type_synonym iter = "block \<times> nat"

definition USHRT_MAX :: nat where "USHRT_MAX = 65535"

definition byteutil_writeByte :: "iter \<Rightarrow> u8 \<Rightarrow> iter option" where
  "byteutil_writeByte it v = do { m \<leftarrow> poke (fst it) (snd it) v; Some (m, snd it + 1) }"

definition byteutil_write_uint16 :: "iter \<Rightarrow> u16 \<Rightarrow> iter option" where
  "byteutil_write_uint16 it v = do {
     m \<leftarrow> poke (fst it) (snd it) (ucast (v div 256));
     m \<leftarrow> poke m (snd it + 1) (ucast (v mod 256));
     Some (m, snd it + 2)
   }"

text \<open>The bytes of a C string that can be read: its characters and the terminator.\<close>

definition string_cells :: "cstring option \<Rightarrow> block option" where
  "string_cells s = map_option (\<lambda>bs. map Some (bs @ [0])) s"

definition c_strlen :: "cstring option \<Rightarrow> nat option" where
  "c_strlen s = map_option length s"

definition byteutil_writeUTF :: "iter \<Rightarrow> cstring option \<Rightarrow> u16 \<Rightarrow> iter option" where
  "byteutil_writeUTF it s len = do {
     (m, i) \<leftarrow> byteutil_write_uint16 it len;
     cells \<leftarrow> block_at (string_cells s) (unat len);
     m \<leftarrow> copy_in m i cells;
     Some (m, i + unat len)
   }"

section \<open>Headers and payloads\<close>

fun addListItemsToUnsubscribePacket ::
    "(nat \<Rightarrow> bool) \<Rightarrow> mqtt_buffer \<Rightarrow> cstring option list \<Rightarrow> (int \<times> mqtt_buffer) option" where
  "addListItemsToUnsubscribePacket alloc b [] = Some (0, b)"
| "addListItemsToUnsubscribePacket alloc b (topic # rest) = do {
     let offsetLen = BUFFER_length (Some b);
     topicLen \<leftarrow> c_strlen topic;
     if topicLen > USHRT_MAX then Some (FAILURE, b)
     else do {
       (r, b) \<leftarrow> BUFFER_enlarge alloc b (topicLen + 2);
       if r \<noteq> 0 then Some (FAILURE, b)
       else do {
         m \<leftarrow> BUFFER_u_char (Some b);
         (m, _) \<leftarrow> byteutil_writeUTF (m, offsetLen) topic (of_nat topicLen);
         addListItemsToUnsubscribePacket alloc (b\<lparr>buffer := Some m\<rparr>) rest
       }
     }
   }"

fun addListItemsToSubscribePacket ::
    "(nat \<Rightarrow> bool) \<Rightarrow> mqtt_buffer \<Rightarrow> (cstring option \<times> c_enum) list \<Rightarrow> (int \<times> mqtt_buffer) option" where
  "addListItemsToSubscribePacket alloc b [] = Some (0, b)"
| "addListItemsToSubscribePacket alloc b ((topic, qos) # rest) = do {
     let offsetLen = BUFFER_length (Some b);
     topicLen \<leftarrow> c_strlen topic;
     if topicLen > USHRT_MAX then Some (FAILURE, b)
     else do {
       (r, b) \<leftarrow> BUFFER_enlarge alloc b (topicLen + 2 + 1);
       if r \<noteq> 0 then Some (FAILURE, b)
       else do {
         m \<leftarrow> BUFFER_u_char (Some b);
         (m, i) \<leftarrow> byteutil_writeUTF (m, offsetLen) topic (of_nat topicLen);
         m \<leftarrow> poke m i (ucast qos);
         addListItemsToSubscribePacket alloc (b\<lparr>buffer := Some m\<rparr>) rest
       }
     }
   }"

definition CONNECT_VARIABLE_HEADER_SIZE :: nat where "CONNECT_VARIABLE_HEADER_SIZE = 10"
definition PROTOCOL_NUMBER :: u8 where "PROTOCOL_NUMBER = 4"
definition CONN_FLAG_BYTE_OFFSET :: nat where "CONN_FLAG_BYTE_OFFSET = 7"

text \<open>The bytes of \<^verbatim>\<open>"MQTT"\<close>.\<close>

definition MQTT_name :: cstring where "MQTT_name = [0x4D, 0x51, 0x54, 0x54]"

definition constructConnectVariableHeader ::
    "(nat \<Rightarrow> bool) \<Rightarrow> mqtt_buffer \<Rightarrow> mqtt_client_options \<Rightarrow> (int \<times> mqtt_buffer) option" where
  "constructConnectVariableHeader alloc b mqttOptions = do {
     (r, b) \<leftarrow> BUFFER_enlarge alloc b CONNECT_VARIABLE_HEADER_SIZE;
     if r \<noteq> 0 then Some (FAILURE, b)
     else case BUFFER_u_char (Some b) of
            None \<Rightarrow> Some (FAILURE, b)
          | Some m \<Rightarrow> do {
              it \<leftarrow> byteutil_writeUTF (m, 0) (Some MQTT_name) 4;
              it \<leftarrow> byteutil_writeByte it PROTOCOL_NUMBER;
              it \<leftarrow> byteutil_writeByte it 0;
              it \<leftarrow> byteutil_write_uint16 it (keepAliveInterval mqttOptions);
              Some (0, b\<lparr>buffer := Some (fst it)\<rparr>)
            }
   }"

definition constructPublishVariableHeader ::
    "(nat \<Rightarrow> bool) \<Rightarrow> mqtt_buffer \<Rightarrow> publish_msg \<Rightarrow> (int \<times> mqtt_buffer) option" where
  "constructPublishVariableHeader alloc b msg = do {
     topicLen \<leftarrow> c_strlen (topicName msg);
     let spaceLen = 2;
     let currLen = BUFFER_length (Some b);
     let idLen = (if qosInfo msg \<noteq> DELIVER_AT_MOST_ONCE then 2 else 0);
     if topicLen > USHRT_MAX then Some (FAILURE, b)
     else do {
       (r, b) \<leftarrow> BUFFER_enlarge alloc b (topicLen + idLen + spaceLen);
       if r \<noteq> 0 then Some (FAILURE, b)
       else do {
         m \<leftarrow> BUFFER_u_char (Some b);
         it \<leftarrow> byteutil_writeUTF (m, currLen) (topicName msg) (of_nat topicLen);
         it \<leftarrow> (if idLen > 0 then byteutil_write_uint16 it (packetId msg) else Some it);
         Some (0, b\<lparr>buffer := Some (fst it)\<rparr>)
       }
     }
   }"

definition constructSubscibeTypeVariableHeader ::
    "(nat \<Rightarrow> bool) \<Rightarrow> mqtt_buffer \<Rightarrow> u16 \<Rightarrow> (int \<times> mqtt_buffer) option" where
  "constructSubscibeTypeVariableHeader alloc b pid = do {
     (r, b) \<leftarrow> BUFFER_enlarge alloc b 2;
     if r \<noteq> 0 then Some (FAILURE, b)
     else case BUFFER_u_char (Some b) of
            None \<Rightarrow> Some (FAILURE, b)
          | Some m \<Rightarrow> do {
              it \<leftarrow> byteutil_write_uint16 (m, 0) pid;
              Some (0, b\<lparr>buffer := Some (fst it)\<rparr>)
            }
   }"

definition constructPublishReply ::
    "(nat \<Rightarrow> bool) \<Rightarrow> mqtt_buffer \<Rightarrow> c_enum \<Rightarrow> u8 \<Rightarrow> u16 \<Rightarrow> (bool \<times> mqtt_buffer) option" where
  "constructPublishReply alloc b type flags pid =
     (let (r, b) = BUFFER_pre_build alloc b 4
      in if r \<noteq> 0 then Some (False, snd (BUFFER_unbuild b))
         else case BUFFER_u_char (Some b) of
                None \<Rightarrow> Some (False, snd (BUFFER_unbuild b))
              | Some m \<Rightarrow> do {
                  it \<leftarrow> byteutil_writeByte (m, 0) (ucast type OR flags);
                  it \<leftarrow> byteutil_writeByte it 2;
                  it \<leftarrow> byteutil_write_uint16 it pid;
                  Some (True, b\<lparr>buffer := Some (fst it)\<rparr>)
                })"

text \<open>
  The do-while loop over \<open>packetLen\<close>, writing seven bits at a time into the array
  \<^verbatim>\<open>fixedHeader[6]\<close> from \<open>index\<close> on.
\<close>

function write_packet_length :: "block \<Rightarrow> nat \<Rightarrow> nat \<Rightarrow> (block \<times> nat) option" where
  "write_packet_length fixedHeader index packetLen =
     (let encode = (of_nat (packetLen mod 128) :: u8);
          packetLen' = packetLen div 128;
          encode = (if packetLen' > 0 then encode OR 0x80 else encode)
      in case poke fixedHeader index encode of
           None \<Rightarrow> None
         | Some h \<Rightarrow> if packetLen' > 0 then write_packet_length h (index + 1) packetLen'
                     else Some (h, index + 1))"
  by pat_completeness auto
termination by (relation "measure (\<lambda>(_, _, n). n)") auto

declare write_packet_length.simps [simp del]

definition constructFixedHeader ::
    "(nat \<Rightarrow> bool) \<Rightarrow> mqtt_buffer \<Rightarrow> c_enum \<Rightarrow> u8 \<Rightarrow> (int \<times> mqtt_buffer) option" where
  "constructFixedHeader alloc b packetType flags = do {
     let packetLen = BUFFER_length (Some b);
     fixedHeader \<leftarrow> poke (fresh 6) 0 (ucast packetType OR flags);
     (fixedHeader, index) \<leftarrow> write_packet_length fixedHeader 1 packetLen;
     BUFFER_prepend alloc b (SExt fixedHeader) index
   }"

definition USERNAME_FLAG :: u8 where "USERNAME_FLAG = 0x80"
definition PASSWORD_FLAG :: u8 where "PASSWORD_FLAG = 0x40"
definition WILL_RETAIN_FLAG :: u8 where "WILL_RETAIN_FLAG = 0x20"
definition WILL_FLAG_FLAG :: u8 where "WILL_FLAG_FLAG = 0x04"
definition CLEAN_SESSION_FLAG :: u8 where "CLEAN_SESSION_FLAG = 0x02"

lemmas conn_flag_defs =
  USERNAME_FLAG_def PASSWORD_FLAG_def WILL_RETAIN_FLAG_def WILL_FLAG_FLAG_def CLEAN_SESSION_FLAG_def

text \<open>\<^verbatim>\<open>packet[CONN_FLAG_BYTE_OFFSET] |= f\<close>, with the iterator kept.\<close>

definition or_conn_flag :: "iter \<Rightarrow> u8 \<Rightarrow> iter option" where
  "or_conn_flag it f = do {
     b \<leftarrow> peek (fst it) CONN_FLAG_BYTE_OFFSET;
     m \<leftarrow> poke (fst it) CONN_FLAG_BYTE_OFFSET (b OR f);
     Some (m, snd it)
   }"

text \<open>An optional member: the space its length field takes and its own length.\<close>

definition conn_space :: "cstring option \<Rightarrow> nat" where
  "conn_space s = (if s \<noteq> None then 2 else 0)"

definition conn_len :: "cstring option \<Rightarrow> nat" where
  "conn_len s = (case s of None \<Rightarrow> 0 | Some t \<Rightarrow> length t)"

text \<open>The writes of \<^verbatim>\<open>constructConnPayload\<close> after the client id, with the flags they set.\<close>

definition write_will :: "mqtt_client_options \<Rightarrow> iter \<Rightarrow> iter option" where
  "write_will opts it =
     (let willMessageLen = conn_len (willMessage opts);
          willTopicLen = conn_len (willTopic opts)
      in if willMessageLen > 0 \<and> willTopicLen > 0
         then do {
           it \<leftarrow> or_conn_flag it WILL_FLAG_FLAG;
           it \<leftarrow> byteutil_writeUTF it (willTopic opts) (of_nat willTopicLen);
           it \<leftarrow> or_conn_flag it (ucast (qualityOfServiceValue opts));
           it \<leftarrow> (if messageRetain opts then or_conn_flag it WILL_RETAIN_FLAG else Some it);
           byteutil_writeUTF it (willMessage opts) (of_nat willMessageLen)
         }
         else Some it)"

definition write_credential :: "cstring option \<Rightarrow> u8 \<Rightarrow> iter \<Rightarrow> iter option" where
  "write_credential s flag it =
     (if conn_len s > 0
      then do {
        it \<leftarrow> or_conn_flag it flag;
        byteutil_writeUTF it s (of_nat (conn_len s))
      }
      else Some it)"

definition write_conn_strings :: "mqtt_client_options \<Rightarrow> iter \<Rightarrow> iter option" where
  "write_conn_strings opts it = do {
     it \<leftarrow> write_will opts it;
     it \<leftarrow> write_credential (username opts) USERNAME_FLAG it;
     it \<leftarrow> write_credential (password opts) PASSWORD_FLAG it;
     if useCleanSession opts then or_conn_flag it CLEAN_SESSION_FLAG else Some it
   }"

definition constructConnPayload ::
    "(nat \<Rightarrow> bool) \<Rightarrow> mqtt_buffer \<Rightarrow> mqtt_client_options \<Rightarrow> (int \<times> mqtt_buffer) option" where
  "constructConnPayload alloc b opts = do {
     let clientLen = conn_len (clientId opts);
     let usernameLen = conn_len (username opts);
     let passwordLen = conn_len (password opts);
     let willMessageLen = conn_len (willMessage opts);
     let willTopicLen = conn_len (willTopic opts);
     let spaceLen = conn_space (clientId opts) + conn_space (username opts) + conn_space (password opts) +
                    conn_space (willMessage opts) + conn_space (willTopic opts);
     let currLen = BUFFER_length (Some b);
     let totalLen = (clientLen + usernameLen + passwordLen + willMessageLen + willTopicLen + spaceLen) mod size_mod;
     if clientLen > USHRT_MAX then Some (FAILURE, b)
     else if usernameLen = 0 \<and> passwordLen > 0 then Some (FAILURE, b)
     else if willMessageLen > 0 \<and> willTopicLen = 0 \<or> willTopicLen > 0 \<and> willMessageLen = 0
     then Some (FAILURE, b)
     else do {
       (r, b) \<leftarrow> BUFFER_enlarge alloc b totalLen;
       if r \<noteq> 0 then Some (FAILURE, b)
       else do {
         packet \<leftarrow> BUFFER_u_char (Some b);
         it \<leftarrow> byteutil_writeUTF (packet, currLen) (clientId opts) (of_nat clientLen);
         if willMessageLen > USHRT_MAX \<or> willTopicLen > USHRT_MAX \<or> usernameLen > USHRT_MAX \<or>
            passwordLen > USHRT_MAX
         then Some (FAILURE, b\<lparr>buffer := Some (fst it)\<rparr>)
         else do {
           it \<leftarrow> write_conn_strings opts it;
           Some (0, b\<lparr>buffer := Some (fst it)\<rparr>)
         }
       }
     }
   }"

section \<open>Packet builders\<close>

text \<open>The failure exit the builders share: the buffer is released and \<^verbatim>\<open>NULL\<close> returned.\<close>

definition build_failed :: "mqtt_buffer \<Rightarrow> bool \<times> mqtt_buffer" where
  "build_failed b = (False, snd (BUFFER_unbuild b))"

definition mqtt_codec_connect ::
    "(nat \<Rightarrow> bool) \<Rightarrow> mqtt_buffer \<Rightarrow> mqtt_client_options \<Rightarrow> (bool \<times> mqtt_buffer) option" where
  "mqtt_codec_connect alloc b opts = do {
     (r, b) \<leftarrow> constructConnectVariableHeader alloc b opts;
     if r \<noteq> 0 then Some (build_failed b)
     else do {
       (r, b) \<leftarrow> constructConnPayload alloc b opts;
       if r \<noteq> 0 then Some (build_failed b)
       else do {
         (r, b) \<leftarrow> constructFixedHeader alloc b CONNECT_TYPE 0;
         if r \<noteq> 0 then Some (build_failed b) else Some (True, b)
       }
     }
   }"

text \<open>Stores a type byte and a zero length at the start of the block: \<^verbatim>\<open>DISCONNECT\<close> and \<^verbatim>\<open>PINGREQ\<close>.\<close>

definition write_bare_packet :: "block \<Rightarrow> c_enum \<Rightarrow> block option" where
  "write_bare_packet m type = do { m \<leftarrow> poke m 0 (ucast type); poke m 1 0 }"

text \<open>\<^verbatim>\<open>mqtt_codec_disconnect\<close> makes a buffer when it is given none, and deletes it on failure.\<close>

definition mqtt_codec_disconnect ::
    "(nat \<Rightarrow> bool) \<Rightarrow> mqtt_buffer option \<Rightarrow> mqtt_buffer option option" where
  "mqtt_codec_disconnect alloc result =
     (case (if result = None then BUFFER_new alloc else result) of
        None \<Rightarrow> Some None
      | Some b \<Rightarrow> do {
          (r, b) \<leftarrow> BUFFER_enlarge alloc b 2;
          if r \<noteq> 0 then Some (BUFFER_delete (Some b))
          else case BUFFER_u_char (Some b) of
                 None \<Rightarrow> Some (BUFFER_delete (Some b))
               | Some m \<Rightarrow> do {
                   m \<leftarrow> write_bare_packet m DISCONNECT_TYPE;
                   Some (Some (b\<lparr>buffer := Some m\<rparr>))
                 }
        })"

definition PUBLISH_QOS_RETAIN :: u8 where "PUBLISH_QOS_RETAIN = 0x1"
definition PUBLISH_QOS_AT_LEAST_ONCE :: u8 where "PUBLISH_QOS_AT_LEAST_ONCE = 0x2"
definition PUBLISH_QOS_EXACTLY_ONCE :: u8 where "PUBLISH_QOS_EXACTLY_ONCE = 0x4"
definition PUBLISH_DUP_FLAG :: u8 where "PUBLISH_DUP_FLAG = 0x8"

lemmas publish_flag_defs =
  PUBLISH_QOS_RETAIN_def PUBLISH_QOS_AT_LEAST_ONCE_def PUBLISH_QOS_EXACTLY_ONCE_def PUBLISH_DUP_FLAG_def

definition MAX_SEND_SIZE :: nat where "MAX_SEND_SIZE = 0xFFFFFF7F"

definition publish_flags :: "publish_msg \<Rightarrow> u8" where
  "publish_flags msg =
     (let headerFlags = 0;
          headerFlags = (if isDuplicate msg then headerFlags OR PUBLISH_DUP_FLAG else headerFlags);
          headerFlags = (if isRetained msg then headerFlags OR PUBLISH_QOS_RETAIN else headerFlags)
      in if qosInfo msg \<noteq> DELIVER_AT_MOST_ONCE
         then if qosInfo msg = DELIVER_AT_LEAST_ONCE then headerFlags OR PUBLISH_QOS_AT_LEAST_ONCE
              else headerFlags OR PUBLISH_QOS_EXACTLY_ONCE
         else headerFlags)"

definition write_publish_payload :: "(nat \<Rightarrow> bool) \<Rightarrow> mqtt_buffer \<Rightarrow> publish_msg \<Rightarrow> (int \<times> mqtt_buffer) option" where
  "write_publish_payload alloc b msg =
     (let payloadOffset = BUFFER_length (Some b)
      in if msg_length msg > 0
         then do {
           (r, b) \<leftarrow> BUFFER_enlarge alloc b (msg_length msg);
           if r \<noteq> 0 then Some (FAILURE, b)
           else do {
             m \<leftarrow> BUFFER_u_char (Some b);
             cells \<leftarrow> block_at (message msg) (msg_length msg);
             m \<leftarrow> copy_in m payloadOffset cells;
             Some (0, b\<lparr>buffer := Some m\<rparr>)
           }
         }
         else Some (0, b))"

definition mqtt_codec_publish ::
    "(nat \<Rightarrow> bool) \<Rightarrow> mqtt_buffer \<Rightarrow> publish_msg \<Rightarrow> (bool \<times> mqtt_buffer) option" where
  "mqtt_codec_publish alloc b msg =
     (if topicName msg = None then Some (False, b)
      else if msg_length msg > MAX_SEND_SIZE then Some (False, b)
      else do {
        let headerFlags = publish_flags msg;
        (r, b) \<leftarrow> constructPublishVariableHeader alloc b msg;
        if r \<noteq> 0 then Some (build_failed b)
        else do {
          (r, b) \<leftarrow> write_publish_payload alloc b msg;
          if r \<noteq> 0 then Some (build_failed b)
          else do {
            (r, b) \<leftarrow> constructFixedHeader alloc b PUBLISH_TYPE headerFlags;
            if r \<noteq> 0 then Some (build_failed b) else Some (True, b)
          }
        }
      })"

definition mqtt_codec_publishAck where
  "mqtt_codec_publishAck alloc b pid = constructPublishReply alloc b PUBACK_TYPE 0 pid"

definition mqtt_codec_publishReceived where
  "mqtt_codec_publishReceived alloc b pid = constructPublishReply alloc b PUBREC_TYPE 0 pid"

definition mqtt_codec_publishRelease where
  "mqtt_codec_publishRelease alloc b pid = constructPublishReply alloc b PUBREL_TYPE 2 pid"

definition mqtt_codec_publishComplete where
  "mqtt_codec_publishComplete alloc b pid = constructPublishReply alloc b PUBCOMP_TYPE 0 pid"

definition mqtt_codec_ping :: "(nat \<Rightarrow> bool) \<Rightarrow> mqtt_buffer \<Rightarrow> (bool \<times> mqtt_buffer) option" where
  "mqtt_codec_ping alloc b = do {
     (r, b) \<leftarrow> BUFFER_enlarge alloc b 2;
     if r \<noteq> 0 then Some (build_failed b)
     else case BUFFER_u_char (Some b) of
            None \<Rightarrow> Some (build_failed b)
          | Some m \<Rightarrow> do {
              m \<leftarrow> write_bare_packet m PINGREQ_TYPE;
              Some (True, b\<lparr>buffer := Some m\<rparr>)
            }
   }"

definition SUBSCRIBE_FIXED_HEADER_FLAG :: u8 where "SUBSCRIBE_FIXED_HEADER_FLAG = 0x2"
definition UNSUBSCRIBE_FIXED_HEADER_FLAG :: u8 where "UNSUBSCRIBE_FIXED_HEADER_FLAG = 0x2"

text \<open>The list pointer is \<open>None\<close> when it is \<^verbatim>\<open>NULL\<close>; its \<open>count\<close> elements are the list.\<close>

definition mqtt_codec_subscribe ::
    "(nat \<Rightarrow> bool) \<Rightarrow> mqtt_buffer \<Rightarrow> u16 \<Rightarrow> (cstring option \<times> c_enum) list option \<Rightarrow> (bool \<times> mqtt_buffer) option" where
  "mqtt_codec_subscribe alloc b pid subscribeList =
     (case subscribeList of
        None \<Rightarrow> Some (False, b)
      | Some subs \<Rightarrow>
          if length subs = 0 then Some (False, b)
          else do {
            (r, b) \<leftarrow> constructSubscibeTypeVariableHeader alloc b pid;
            if r \<noteq> 0 then Some (build_failed b)
            else do {
              (r, b) \<leftarrow> addListItemsToSubscribePacket alloc b subs;
              if r \<noteq> 0 then Some (build_failed b)
              else do {
                (r, b) \<leftarrow> constructFixedHeader alloc b SUBSCRIBE_TYPE SUBSCRIBE_FIXED_HEADER_FLAG;
                if r \<noteq> 0 then Some (build_failed b) else Some (True, b)
              }
            }
          })"

definition mqtt_codec_unsubscribe ::
    "(nat \<Rightarrow> bool) \<Rightarrow> mqtt_buffer \<Rightarrow> u16 \<Rightarrow> cstring option list option \<Rightarrow> (bool \<times> mqtt_buffer) option" where
  "mqtt_codec_unsubscribe alloc b pid unsubscribeList =
     (case unsubscribeList of
        None \<Rightarrow> Some (False, b)
      | Some topics \<Rightarrow>
          if length topics = 0 then Some (False, b)
          else do {
            (r, b) \<leftarrow> constructSubscibeTypeVariableHeader alloc b pid;
            if r \<noteq> 0 then Some (build_failed b)
            else do {
              (r, b) \<leftarrow> addListItemsToUnsubscribePacket alloc b topics;
              if r \<noteq> 0 then Some (build_failed b)
              else do {
                (r, b) \<leftarrow> constructFixedHeader alloc b UNSUBSCRIBE_TYPE UNSUBSCRIBE_FIXED_HEADER_FLAG;
                if r \<noteq> 0 then Some (build_failed b) else Some (True, b)
              }
            }
          })"

end
