(* ===== verification/Mqtt_Wire.thy ===== *)
theory Mqtt_Wire
  imports Mqtt_Codec
begin

text \<open>
  The wire format of the packets the codec builds, and the proof that the builders of
  \<^verbatim>\<open>iot/mqtt_codec.c\<close> produce it.  The format is stated on byte lists (\<open>rl_encode\<close>, \<open>utf\<close>,
  \<open>packet\<close>); the proofs move a growing written prefix through the block (\<open>filled\<close>), so they show
  at the same time that every byte of a packet is initialised and no write leaves the block.
\<close>

unbundle bit_operations_syntax

section \<open>Format\<close>

definition be16 :: "u16 \<Rightarrow> u8 list" where
  "be16 v = [ucast (v div 256), ucast (v mod 256)]"

definition utf :: "cstring \<Rightarrow> u8 list" where
  "utf s = be16 (of_nat (length s)) @ s"

fun rl_encode :: "nat \<Rightarrow> u8 list" where
  "rl_encode n = (if n < 128 then [of_nat n] else of_nat (n mod 128 + 128) # rl_encode (n div 128))"

declare rl_encode.simps [simp del]

definition packet :: "c_enum \<Rightarrow> u8 \<Rightarrow> u8 list \<Rightarrow> u8 list" where
  "packet type flags body = (ucast type OR flags) # rl_encode (length body) @ body"

definition empty_buffer :: mqtt_buffer where
  "empty_buffer = \<lparr>buffer = None, bsize = 0\<rparr>"

lemma length_be16 [simp]: "length (be16 v) = 2"
  by (simp add: be16_def)

lemma length_utf [simp]: "length (utf s) = 2 + length s"
  by (simp add: utf_def)

lemma rl_encode_ne [simp]: "rl_encode n \<noteq> []"
  by (subst rl_encode.simps) simp

lemma length_rl_encode_le: "0 < k \<Longrightarrow> n < 128 ^ k \<Longrightarrow> length (rl_encode n) \<le> k"
proof (induction k arbitrary: n)
  case (Suc k)
  show ?case
  proof (cases "n < 128")
    case True
    then show ?thesis by (subst rl_encode.simps) simp
  next
    case False
    with Suc.prems have k: "0 < k" by (cases k) auto
    have "n div 128 < 128 ^ k" using Suc.prems by (simp add: less_mult_imp_div_less)
    then have "length (rl_encode (n div 128)) \<le> k" by (rule Suc.IH[OF k])
    with False show ?thesis by (subst rl_encode.simps) simp
  qed
qed simp

lemma length_packet: "length (packet type flags body) = 1 + length (rl_encode (length body)) + length body"
  by (simp add: packet_def)

section \<open>Writing into a partly filled block\<close>

definition filled :: "u8 list \<Rightarrow> nat \<Rightarrow> block" where
  "filled bs n = map Some bs @ fresh n"

named_theorems filled_simps "writes at the end of the filled part"

lemma filled_full [filled_simps]: "filled bs 0 = map Some bs"
  by (simp add: filled_def)

lemma length_filled [simp]: "length (filled bs n) = length bs + n"
  by (simp add: filled_def)

lemma filled_nonempty: "0 < n \<Longrightarrow> filled bs n \<noteq> []"
  by (metis length_filled length_0_conv add_is_0 less_numeral_extra(3))

lemma map_fresh_filled: "map Some bs @ fresh n = filled bs n"
  by (simp add: filled_def)

lemma fresh_filled: "fresh n = filled [] n"
  by (simp add: filled_def)

lemma poke_filled [filled_simps]:
  "i = length bs \<Longrightarrow> 0 < n \<Longrightarrow> poke (filled bs n) i b = Some (filled (bs @ [b]) (n - 1))"
  using poke_at[of i "map Some bs" None "fresh (n - 1)" b]
  by (cases n) (simp_all add: filled_def fresh_Suc)

lemma copy_in_filled [filled_simps]:
  "i = length bs \<Longrightarrow> length s \<le> n \<Longrightarrow>
   copy_in (filled bs n) i (map Some s) = Some (filled (bs @ s) (n - length s))"
  using copy_in_at[of i "map Some bs" "map Some s" "fresh n"] by (simp add: filled_def)

lemma writeByte_filled [filled_simps]:
  "i = length bs \<Longrightarrow> 0 < n \<Longrightarrow>
   byteutil_writeByte (filled bs n, i) v = Some (filled (bs @ [v]) (n - 1), i + 1)"
  by (simp add: byteutil_writeByte_def poke_filled)

lemma write_uint16_filled [filled_simps]:
  "i = length bs \<Longrightarrow> 2 \<le> n \<Longrightarrow>
   byteutil_write_uint16 (filled bs n, i) v = Some (filled (bs @ be16 v) (n - 2), i + 2)"
  by (simp add: byteutil_write_uint16_def poke_filled be16_def numeral_2_eq_2)

lemma block_at_string: "n = length s \<Longrightarrow> block_at (string_cells (Some s)) n = Some (map Some s)"
  by (auto simp: block_at_def string_cells_def copy_out_def)

lemma writeUTF_filled [filled_simps]:
  assumes "i = length bs" and "2 + length s \<le> n" and "k = length s" and "k \<le> USHRT_MAX"
  shows "byteutil_writeUTF (filled bs n, i) (Some s) (of_nat k) =
    Some (filled (bs @ utf s) (n - 2 - length s), i + 2 + length s)"
proof -
  have "unat (of_nat k :: u16) = k" using assms(4) by (simp add: unat_of_nat USHRT_MAX_def)
  with assms show ?thesis
    by (simp add: byteutil_writeUTF_def write_uint16_filled block_at_string copy_in_filled utf_def)
qed

lemma or_conn_flag_filled [filled_simps]:
  "CONN_FLAG_BYTE_OFFSET < length bs \<Longrightarrow>
   or_conn_flag (filled bs n, i) f =
     Some (filled (bs[CONN_FLAG_BYTE_OFFSET := bs ! CONN_FLAG_BYTE_OFFSET OR f]) n, i)"
  by (simp add: or_conn_flag_def peek_def poke_def filled_def nth_append list_update_append map_update)

section \<open>The fixed header\<close>

lemma continuation_byte: "m < 128 \<Longrightarrow> (of_nat m :: u8) OR 0x80 = of_nat (m + 128)"
proof -
  have "\<forall>m \<in> set [0..<128]. (of_nat m :: u8) OR 0x80 = of_nat (m + 128)"
    by code_simp
  then show "m < 128 \<Longrightarrow> (of_nat m :: u8) OR 0x80 = of_nat (m + 128)" by simp
qed

text \<open>The loop writes \<open>rl_encode\<close>; when the array is too short for it, it writes past its end.\<close>

lemma write_packet_length_filled:
  "i = length bs \<Longrightarrow>
   write_packet_length (filled bs k) i n =
     (if length (rl_encode n) \<le> k
      then Some (filled (bs @ rl_encode n) (k - length (rl_encode n)), i + length (rl_encode n))
      else None)"
proof (induction n arbitrary: bs k i rule: rl_encode.induct)
  case (1 n)
  show ?case
  proof (cases k)
    case 0
    have "poke (filled bs k) i b = None" for b using 0 "1.prems" by (simp add: poke_def)
    then show ?thesis using 0 by (subst write_packet_length.simps) (simp add: Let_def)
  next
    case (Suc k')
    show ?thesis
    proof (cases "n < 128")
      case True
      then have "rl_encode n = [of_nat n]" by (subst rl_encode.simps) simp
      with True Suc "1.prems" show ?thesis
        by (subst write_packet_length.simps) (simp add: poke_filled Let_def)
    next
      case False
      let ?b = "of_nat (n mod 128 + 128) :: u8"
      have rl: "rl_encode n = ?b # rl_encode (n div 128)" using False by (subst rl_encode.simps) simp
      have b: "(of_nat (n mod 128) :: u8) OR 0x80 = ?b" by (rule continuation_byte) simp
      have pos: "n div 128 > 0" using False by (simp add: div_greater_zero_iff)
      have "write_packet_length (filled bs k) i n =
          write_packet_length (filled (bs @ [?b]) k') (i + 1) (n div 128)"
        using b pos Suc "1.prems" by (subst write_packet_length.simps) (simp add: poke_filled Let_def)
      then show ?thesis
        using "1.IH"[OF False, of "i + 1" "bs @ [?b]" k'] "1.prems" Suc rl by simp
    qed
  qed
qed

lemma packet_length_bound: "n < 2 ^ 35 \<Longrightarrow> length (rl_encode n) \<le> 5"
  by (rule length_rl_encode_le) simp_all

lemma constructFixedHeader_cells:
  assumes b: "buf_repr b m" and n: "length m < 2 ^ 35"
  shows "constructFixedHeader alloc b type flags =
    (if alloc (1 + length (rl_encode (length m)) + length m)
     then Some (0, buf_set b (map Some ((ucast type OR flags) # rl_encode (length m)) @ m))
     else Some (FAILURE, b))"
proof -
  let ?x = "ucast type OR flags" and ?rl = "rl_encode (length m)"
  have rl: "length ?rl \<le> 5" using n by (rule packet_length_bound)
  have p: "poke (fresh 6) 0 ?x = Some (filled [?x] 5)"
    by (simp add: fresh_filled poke_filled)
  have w: "write_packet_length (filled [?x] 5) 1 (length m) =
      Some (filled (?x # ?rl) (5 - length ?rl), 1 + length ?rl)"
    using rl write_packet_length_filled[of 1 "[?x]" 5 "length m"] by simp
  have t: "take (1 + length ?rl) (filled (?x # ?rl) (5 - length ?rl)) = map Some (?x # ?rl)"
    by (simp add: filled_def)
  have "length m + (1 + length ?rl) < size_mod" using rl n by (simp add: size_mod_eq)
  then show ?thesis
    using BUFFER_prepend_repr[OF b, of "1 + length ?rl" "filled (?x # ?rl) (5 - length ?rl)" alloc] p w t
    by (simp add: constructFixedHeader_def buf_repr_length[OF b] add.commute)
qed

lemma constructFixedHeader_repr:
  assumes b: "buf_repr b (map Some body)" and n: "length body < 2 ^ 35"
  shows "constructFixedHeader alloc b type flags =
    (if alloc (length (packet type flags body))
     then Some (0, buf_set b (map Some (packet type flags body)))
     else Some (FAILURE, b))"
  using constructFixedHeader_cells[OF b] n by (simp add: length_packet packet_def)

text \<open>A body of \<open>2 ^ 35\<close> bytes or more overruns the six bytes of \<^verbatim>\<open>fixedHeader\<close>.\<close>

lemma length_rl_encode_gt: "128 ^ k \<le> n \<Longrightarrow> k < length (rl_encode n)"
proof (induction k arbitrary: n)
  case 0
  then show ?case by simp
next
  case (Suc k)
  have "128 * 128 ^ k \<le> n" using Suc.prems by simp
  then have "128 ^ k \<le> n div 128" by (simp add: less_eq_div_iff_mult_less_eq mult.commute)
  then have "k < length (rl_encode (n div 128))" by (rule Suc.IH)
  moreover have "(1::nat) \<le> 128 ^ k" by simp
  then have "\<not> n < 128" using \<open>128 * 128 ^ k \<le> n\<close> by linarith
  ultimately show ?case by (subst rl_encode.simps) simp
qed

section \<open>The builders\<close>

lemma enlarge_filled:
  assumes "buf_repr b (map Some bs)" and "0 < n" and "length bs + n < size_mod"
  shows "BUFFER_enlarge alloc b n =
    (if alloc (length bs + n) then Some (0, buf_set b (filled bs n)) else Some (FAILURE, b))"
  using BUFFER_enlarge_repr[OF assms(1,2), of alloc] assms(3) by (simp add: map_fresh_filled)

lemma buf_repr_empty_buffer [simp]: "buf_repr empty_buffer (map Some [])"
  by (simp add: empty_buffer_def)

lemma enlarge_empty:
  "0 < n \<Longrightarrow> n < size_mod \<Longrightarrow> BUFFER_enlarge alloc empty_buffer n =
    (if alloc n then Some (0, buf_set empty_buffer (filled [] n)) else Some (FAILURE, empty_buffer))"
  using enlarge_filled[OF buf_repr_empty_buffer, of n alloc] by simp

lemma unbuild_set [simp]: "snd (BUFFER_unbuild (buf_set empty_buffer m)) = empty_buffer"
  by (simp add: BUFFER_unbuild_def empty_buffer_def buf_set_def)

lemma unbuild_empty [simp]: "snd (BUFFER_unbuild empty_buffer) = empty_buffer"
  by (simp add: BUFFER_unbuild_def empty_buffer_def)

subsection \<open>Publish\<close>

definition publish_header :: "cstring \<Rightarrow> publish_msg \<Rightarrow> u8 list" where
  "publish_header t msg = utf t @ (if qosInfo msg \<noteq> DELIVER_AT_MOST_ONCE then be16 (packetId msg) else [])"

text \<open>The first byte, as the protocol lays it out: type 3, then DUP, two bits of QoS, RETAIN.\<close>

definition publish_first_byte :: "publish_msg \<Rightarrow> u8" where
  "publish_first_byte msg =
     of_nat (3 * 16 + of_bool (isDuplicate msg) * 8 + unat (qosInfo msg) * 2 + of_bool (isRetained msg))"

definition publish_packet :: "cstring \<Rightarrow> u8 list \<Rightarrow> publish_msg \<Rightarrow> u8 list" where
  "publish_packet t p msg =
     (let body = publish_header t msg @ p in publish_first_byte msg # rl_encode (length body) @ body)"

lemma publish_first_byte_flags:
  assumes "qosInfo msg \<in> {0, 1, 2}"
  shows "publish_first_byte msg = ucast PUBLISH_TYPE OR publish_flags msg"
  using assms
  by (cases "isDuplicate msg"; cases "isRetained msg")
    (auto simp: publish_first_byte_def publish_flags_def publish_flag_defs mqtt_consts)

lemma publish_packet_eq:
  "qosInfo msg \<in> {0, 1, 2} \<Longrightarrow>
   publish_packet t p msg = packet PUBLISH_TYPE (publish_flags msg) (publish_header t msg @ p)"
  by (simp add: publish_packet_def packet_def publish_first_byte_flags Let_def)

lemma constructPublishVariableHeader_empty:
  assumes t: "topicName msg = Some t" and len: "length t \<le> USHRT_MAX"
  shows "constructPublishVariableHeader alloc empty_buffer msg =
    (if alloc (length (publish_header t msg))
     then Some (0, buf_set empty_buffer (map Some (publish_header t msg))) else Some (FAILURE, empty_buffer))"
proof -
  let ?id = "if qosInfo msg \<noteq> DELIVER_AT_MOST_ONCE then 2 else (0 :: nat)"
  have n: "length (publish_header t msg) = length t + ?id + 2" by (simp add: publish_header_def)
  have e: "BUFFER_enlarge alloc empty_buffer (length t + ?id + 2) =
      (if alloc (length t + ?id + 2) then Some (0, buf_set empty_buffer (filled [] (length t + ?id + 2)))
       else Some (FAILURE, empty_buffer))"
    using enlarge_filled[OF buf_repr_empty_buffer, of "length t + ?id + 2" alloc] len
    by (simp add: USHRT_MAX_def size_mod_eq)
  have len0: "BUFFER_length (Some empty_buffer) = 0" by (simp add: BUFFER_length_def empty_buffer_def)
  have u: "byteutil_writeUTF (filled [] (length t + ?id + 2), 0) (Some t) (of_nat (length t)) =
      Some (filled (utf t) ?id, 2 + length t)"
    using len writeUTF_filled[of 0 "[]" t "length t + ?id + 2" "length t"] by simp
  show ?thesis
  proof (cases "qosInfo msg \<noteq> DELIVER_AT_MOST_ONCE")
    case True
    then have "byteutil_write_uint16 (filled (utf t) ?id, 2 + length t) (packetId msg) =
        Some (map Some (publish_header t msg), 2 + length t + 2)"
      by (simp add: write_uint16_filled filled_full publish_header_def)
    with True show ?thesis
      using e u len t len0 n by (simp add: constructPublishVariableHeader_def c_strlen_def)
  next
    case False
    then show ?thesis
      using e u len t len0 n
      by (simp add: constructPublishVariableHeader_def c_strlen_def filled_full publish_header_def)
  qed
qed

lemma write_publish_payload_repr:
  assumes b: "buf_repr b (map Some bs)" and p: "block_at (message msg) (msg_length msg) = Some (map Some p)"
    and n: "length bs + length p < size_mod"
  shows "write_publish_payload alloc b msg =
    (if p = [] then Some (0, b)
     else if alloc (length bs + length p) then Some (0, buf_set b (map Some (bs @ p))) else Some (FAILURE, b))"
proof -
  have len: "msg_length msg = length p" using block_at_Some_length[OF p] by simp
  have "copy_in (filled bs (length p)) (length bs) (map Some p) = Some (map Some (bs @ p))"
    by (simp add: copy_in_filled filled_full)
  with b p n len show ?thesis
    by (auto simp: write_publish_payload_def enlarge_filled[OF b] buf_repr_length[OF b])
qed



subsection \<open>Acknowledgements, ping and disconnect\<close>

lemma constructPublishReply_empty:
  "constructPublishReply alloc empty_buffer type flags pid =
    (if alloc 4 then Some (True, buf_set empty_buffer (map Some (packet type flags (be16 pid))))
     else Some (False, empty_buffer))"
proof -
  have pre: "BUFFER_pre_build alloc empty_buffer 4 =
      (if alloc 4 then (0, buf_set empty_buffer (filled [] 4)) else (FAILURE, empty_buffer))"
    by (simp add: BUFFER_pre_build_def empty_buffer_def buf_set_def filled_def)
  have pk: "packet type flags (be16 pid) = [ucast type OR flags, 2] @ be16 pid"
    by (simp add: packet_def rl_encode.simps)
  show ?thesis
    unfolding pk by (simp add: constructPublishReply_def pre filled_simps be16_def)
qed

lemma write_bare_packet_fresh: "write_bare_packet (filled [] 2) type = Some (map Some [ucast type, 0])"
  by (simp add: write_bare_packet_def poke_filled filled_full)

text \<open>
  Each of the four acknowledgement builders, given an empty buffer, produces the four-byte
  packet of its type with the packet id in network order (PUBREL with flag bits 0010), or
  returns \<^verbatim>\<open>NULL\<close> with the buffer empty when its allocation fails.
\<close>

theorem mqtt_codec_replies:
  "mqtt_codec_publishAck alloc empty_buffer pid =
     Some (if alloc 4 then (True, buf_set empty_buffer (map Some ([0x40, 2] @ be16 pid))) else (False, empty_buffer)) \<and>
   mqtt_codec_publishReceived alloc empty_buffer pid =
     Some (if alloc 4 then (True, buf_set empty_buffer (map Some ([0x50, 2] @ be16 pid))) else (False, empty_buffer)) \<and>
   mqtt_codec_publishRelease alloc empty_buffer pid =
     Some (if alloc 4 then (True, buf_set empty_buffer (map Some ([0x62, 2] @ be16 pid))) else (False, empty_buffer)) \<and>
   mqtt_codec_publishComplete alloc empty_buffer pid =
     Some (if alloc 4 then (True, buf_set empty_buffer (map Some ([0x70, 2] @ be16 pid))) else (False, empty_buffer))"
  by (simp add: mqtt_codec_publishAck_def mqtt_codec_publishReceived_def mqtt_codec_publishRelease_def
      mqtt_codec_publishComplete_def constructPublishReply_empty packet_def rl_encode.simps mqtt_consts)

lemma mqtt_codec_ping_empty:
  "mqtt_codec_ping alloc empty_buffer =
    Some (if alloc 2 then (True, buf_set empty_buffer (map Some [0xC0, 0])) else (False, empty_buffer))"
  using enlarge_empty[of 2 alloc]
  by (simp add: mqtt_codec_ping_def build_failed_def write_bare_packet_fresh size_mod_eq PINGREQ_TYPE_def
      filled_nonempty)

lemma mqtt_codec_disconnect_empty:
  "mqtt_codec_disconnect alloc (Some empty_buffer) =
    Some (if alloc 2 then Some (buf_set empty_buffer (map Some [0xE0, 0])) else None)"
  using enlarge_empty[of 2 alloc]
  by (simp add: mqtt_codec_disconnect_def BUFFER_delete_def write_bare_packet_fresh size_mod_eq DISCONNECT_TYPE_def)

subsection \<open>Subscribe and unsubscribe\<close>

definition sub_items :: "(cstring \<times> c_enum) list \<Rightarrow> u8 list" where
  "sub_items subs = concat (map (\<lambda>(t, q). utf t @ [ucast q]) subs)"

definition unsub_items :: "cstring list \<Rightarrow> u8 list" where
  "unsub_items topics = concat (map utf topics)"

lemma enlarge_ok:
  assumes "buf_repr b (map Some bs)" and "0 < n" and "length bs + n < size_mod" and "\<And>k. alloc k"
  shows "BUFFER_enlarge alloc b n = Some (0, buf_set b (filled bs n))"
  using enlarge_filled[OF assms(1-3), of alloc] assms(4) by simp

lemma addListItemsToSubscribePacket_set:
  assumes "\<forall>(t, q) \<in> set subs. length t \<le> USHRT_MAX"
    and "length bs + length (sub_items subs) < size_mod" and alloc: "\<And>k. alloc k"
  shows "addListItemsToSubscribePacket alloc (buf_set b (map Some bs)) (map (\<lambda>(t, q). (Some t, q)) subs) =
    Some (0, buf_set b (map Some (bs @ sub_items subs)))"
  using assms(1,2)
proof (induction subs arbitrary: bs)
  case Nil
  then show ?case by (simp add: sub_items_def)
next
  case (Cons s subs)
  obtain t q where s: "s = (t, q)" by fastforce
  let ?k = "length t + 2 + 1" and ?bs = "bs @ utf t @ [ucast q]"
  have t: "length t \<le> USHRT_MAX" using Cons.prems(1) s by simp
  have items: "sub_items (s # subs) = utf t @ [ucast q] @ sub_items subs" by (simp add: sub_items_def s)
  have e: "BUFFER_enlarge alloc (buf_set b (map Some bs)) ?k = Some (0, buf_set b (filled bs ?k))"
    using enlarge_ok[OF buf_repr_set, of ?k bs alloc b] Cons.prems(2) items alloc by simp
  have w: "byteutil_writeUTF (filled bs ?k, length bs) (Some t) (of_nat (length t)) =
      Some (filled (bs @ utf t) 1, length bs + 2 + length t)"
    using t by (simp add: writeUTF_filled)
  have p: "poke (filled (bs @ utf t) 1) (length bs + 2 + length t) (ucast q) = Some (map Some ?bs)"
    by (simp add: poke_filled filled_full)
  have "addListItemsToSubscribePacket alloc (buf_set b (map Some ?bs)) (map (\<lambda>(t, q). (Some t, q)) subs) =
      Some (0, buf_set b (map Some (?bs @ sub_items subs)))"
    by (rule Cons.IH) (use Cons.prems items in auto)
  with t s e w p items show ?case by (simp add: c_strlen_def)
qed

lemma addListItemsToUnsubscribePacket_set:
  assumes "\<forall>t \<in> set topics. length t \<le> USHRT_MAX"
    and "length bs + length (unsub_items topics) < size_mod" and alloc: "\<And>k. alloc k"
  shows "addListItemsToUnsubscribePacket alloc (buf_set b (map Some bs)) (map Some topics) =
    Some (0, buf_set b (map Some (bs @ unsub_items topics)))"
  using assms(1,2)
proof (induction topics arbitrary: bs)
  case Nil
  then show ?case by (simp add: unsub_items_def)
next
  case (Cons t topics)
  let ?k = "length t + 2" and ?bs = "bs @ utf t"
  have t: "length t \<le> USHRT_MAX" using Cons.prems(1) by simp
  have items: "unsub_items (t # topics) = utf t @ unsub_items topics" by (simp add: unsub_items_def)
  have e: "BUFFER_enlarge alloc (buf_set b (map Some bs)) ?k = Some (0, buf_set b (filled bs ?k))"
    using enlarge_ok[OF buf_repr_set, of ?k bs alloc b] Cons.prems(2) items alloc by simp
  have w: "byteutil_writeUTF (filled bs ?k, length bs) (Some t) (of_nat (length t)) =
      Some (map Some ?bs, length bs + 2 + length t)"
    using t by (simp add: writeUTF_filled filled_full)
  have "addListItemsToUnsubscribePacket alloc (buf_set b (map Some ?bs)) (map Some topics) =
      Some (0, buf_set b (map Some (?bs @ unsub_items topics)))"
    by (rule Cons.IH) (use Cons.prems items in auto)
  with t e w items show ?case by (simp add: c_strlen_def)
qed

lemma constructSubscibeTypeVariableHeader_empty:
  "constructSubscibeTypeVariableHeader alloc empty_buffer pid =
    (if alloc 2 then Some (0, buf_set empty_buffer (map Some (be16 pid))) else Some (FAILURE, empty_buffer))"
  using enlarge_empty[of 2 alloc] write_uint16_filled[of 0 "[]" 2 pid]
  by (simp add: constructSubscibeTypeVariableHeader_def size_mod_eq filled_full)

text \<open>
  A SUBSCRIBE packet holds the packet id followed by every topic filter with its requested
  quality of service, an UNSUBSCRIBE packet the packet id and every topic filter, both with
  the reserved flag bits 0010 and the exact remaining length.
\<close>

theorem mqtt_codec_subscribe_packet:
  assumes "subs \<noteq> []" and "\<forall>(t, q) \<in> set subs. length t \<le> USHRT_MAX"
    and "length (sub_items subs) + 2 < 2 ^ 35" and "\<And>k. alloc k"
  shows "mqtt_codec_subscribe alloc empty_buffer pid (Some (map (\<lambda>(t, q). (Some t, q)) subs)) =
      Some (True, buf_set empty_buffer (map Some (packet SUBSCRIBE_TYPE 2 (be16 pid @ sub_items subs)))) \<and>
    mqtt_codec_unsubscribe alloc empty_buffer pid (Some (map (Some \<circ> fst) subs)) =
      Some (True, buf_set empty_buffer (map Some (packet UNSUBSCRIBE_TYPE 2 (be16 pid @ unsub_items (map fst subs)))))"
proof
  have h: "constructSubscibeTypeVariableHeader alloc empty_buffer pid =
      Some (0, buf_set empty_buffer (map Some (be16 pid)))"
    using constructSubscibeTypeVariableHeader_empty[of alloc] assms(4) by simp
  have s: "addListItemsToSubscribePacket alloc (buf_set empty_buffer (map Some (be16 pid)))
        (map (\<lambda>(t, q). (Some t, q)) subs) =
      Some (0, buf_set empty_buffer (map Some (be16 pid @ sub_items subs)))"
    using addListItemsToSubscribePacket_set[OF assms(2) _ assms(4)] assms(3) by (simp add: size_mod_eq)
  have l: "length (be16 pid @ sub_items subs) < 2 ^ 35" using assms(3) by simp
  show "mqtt_codec_subscribe alloc empty_buffer pid (Some (map (\<lambda>(t, q). (Some t, q)) subs)) =
      Some (True, buf_set empty_buffer (map Some (packet SUBSCRIBE_TYPE 2 (be16 pid @ sub_items subs))))"
    using constructFixedHeader_repr[OF buf_repr_set l, of alloc] assms(1,4) h s
    by (simp add: mqtt_codec_subscribe_def SUBSCRIBE_FIXED_HEADER_FLAG_def)
  have "length (unsub_items (map fst subs)) \<le> length (sub_items subs)"
    by (induction subs) (auto simp: unsub_items_def sub_items_def)
  with assms(3) have n: "length (be16 pid @ unsub_items (map fst subs)) < 2 ^ 35" by simp
  have "\<forall>t \<in> set (map fst subs). length t \<le> USHRT_MAX" using assms(2) by auto
  then have u: "addListItemsToUnsubscribePacket alloc (buf_set empty_buffer (map Some (be16 pid)))
        (map Some (map fst subs)) =
      Some (0, buf_set empty_buffer (map Some (be16 pid @ unsub_items (map fst subs))))"
    by (rule addListItemsToUnsubscribePacket_set) (use n assms(4) in \<open>simp_all add: size_mod_eq\<close>)
  show "mqtt_codec_unsubscribe alloc empty_buffer pid (Some (map (Some \<circ> fst) subs)) =
      Some (True, buf_set empty_buffer (map Some (packet UNSUBSCRIBE_TYPE 2 (be16 pid @ unsub_items (map fst subs)))))"
    using constructFixedHeader_repr[OF buf_repr_set n, of alloc] assms(1,4) h u
    by (simp add: mqtt_codec_unsubscribe_def UNSUBSCRIBE_FIXED_HEADER_FLAG_def)
qed

theorem mqtt_codec_subscribe_packet_witness:
  "mqtt_codec_subscribe (\<lambda>_. True) empty_buffer 5 (Some [(Some [0x61], 1), (Some [], 0)]) =
    Some (True, buf_set empty_buffer (map Some [0x82, 9, 0, 5, 0, 1, 0x61, 1, 0, 0, 0]))"
proof -
  have "packet SUBSCRIBE_TYPE 2 (be16 5 @ sub_items [([0x61], 1), ([], 0)]) =
      [0x82, 9, 0, 5, 0, 1, 0x61, 1, 0, 0, 0]"
    by (simp add: packet_def sub_items_def utf_def be16_def mqtt_consts rl_encode.simps)
  then show ?thesis
    using mqtt_codec_subscribe_packet[of "[([0x61], 1), ([], 0)]" "\<lambda>_. True" 5]
    by (simp add: USHRT_MAX_def sub_items_def)
qed

end
