(* ===== verification/Mqtt_Connect.thy ===== *)
theory Mqtt_Connect
  imports Mqtt_Wire
begin

text \<open>
  The CONNECT packet: what \<^verbatim>\<open>mqtt_codec_connect\<close> of \<^verbatim>\<open>iot/mqtt_codec.c\<close> produces for options whose
  optional members are absent or not empty, what it rejects, and what it does with the
  options outside that range.
\<close>

unbundle bit_operations_syntax

section \<open>What is written\<close>

definition conn_header :: "u8 \<Rightarrow> u16 \<Rightarrow> u8 list" where
  "conn_header flags ka = utf MQTT_name @ [PROTOCOL_NUMBER, flags] @ be16 ka"

definition opt_utf :: "cstring option \<Rightarrow> u8 list" where
  "opt_utf s = (case s of None \<Rightarrow> [] | Some t \<Rightarrow> utf t)"

definition will_flags :: "mqtt_client_options \<Rightarrow> u8 \<Rightarrow> u8" where
  "will_flags opts f =
     (if willTopic opts = None then f
      else let f = f OR WILL_FLAG_FLAG;
               f = f OR ucast (qualityOfServiceValue opts)
           in if messageRetain opts then f OR WILL_RETAIN_FLAG else f)"

definition conn_flags :: "mqtt_client_options \<Rightarrow> u8" where
  "conn_flags opts =
     (let f = will_flags opts 0;
          f = (if username opts \<noteq> None then f OR USERNAME_FLAG else f);
          f = (if password opts \<noteq> None then f OR PASSWORD_FLAG else f)
      in if useCleanSession opts then f OR CLEAN_SESSION_FLAG else f)"

definition conn_body :: "cstring \<Rightarrow> mqtt_client_options \<Rightarrow> u8 list" where
  "conn_body c opts =
     conn_header (conn_flags opts) (keepAliveInterval opts) @ utf c @ opt_utf (willTopic opts) @
     opt_utf (willMessage opts) @ opt_utf (username opts) @ opt_utf (password opts)"

text \<open>An optional member is absent, or a string that is not empty and fits its length field.\<close>

definition opt_ok :: "cstring option \<Rightarrow> bool" where
  "opt_ok s = (case s of None \<Rightarrow> True | Some t \<Rightarrow> t \<noteq> [] \<and> length t \<le> USHRT_MAX)"

definition conn_ok :: "cstring \<Rightarrow> mqtt_client_options \<Rightarrow> bool" where
  "conn_ok c opts =
     (clientId opts = Some c \<and> length c \<le> USHRT_MAX \<and>
      opt_ok (willTopic opts) \<and> opt_ok (willMessage opts) \<and> opt_ok (username opts) \<and> opt_ok (password opts) \<and>
      (willTopic opts = None \<longleftrightarrow> willMessage opts = None) \<and> (username opts = None \<longrightarrow> password opts = None))"

section \<open>Format\<close>

lemma conn_header_bytes: "conn_header f ka = [0, 4, 0x4D, 0x51, 0x54, 0x54, 4, f] @ be16 ka"
  by (simp add: conn_header_def utf_def be16_def MQTT_name_def PROTOCOL_NUMBER_def)

text \<open>
  The connect flags as the protocol lays them out: user name, password, will retain, two bits for the quality of
  service of the will, will, clean session, and a reserved bit.
\<close>

definition wire_connect_flags :: "mqtt_client_options \<Rightarrow> u8" where
  "wire_connect_flags opts =
     of_nat (128 * of_bool (username opts \<noteq> None) + 64 * of_bool (password opts \<noteq> None) +
       (if willTopic opts = None then 0
        else 32 * of_bool (messageRetain opts) + 8 * unat (qualityOfServiceValue opts) + 4) +
       2 * of_bool (useCleanSession opts))"

definition wire_connect :: "cstring \<Rightarrow> mqtt_client_options \<Rightarrow> u8 list" where
  "wire_connect c opts =
     (let body = [0, 4, 0x4D, 0x51, 0x54, 0x54, 4, wire_connect_flags opts] @ be16 (keepAliveInterval opts) @
            utf c @ opt_utf (willTopic opts) @ opt_utf (willMessage opts) @ opt_utf (username opts) @ opt_utf (password opts)
      in 0x10 # rl_encode (length body) @ body)"

lemma conn_flags_wire:
  assumes "willTopic opts = None \<or> qualityOfServiceValue opts = 0"
  shows "conn_flags opts = wire_connect_flags opts"
  using assms
  by (cases "willTopic opts"; cases "username opts"; cases "password opts"; cases "messageRetain opts"; cases "useCleanSession opts")
    (auto simp: conn_flags_def will_flags_def wire_connect_flags_def conn_flag_defs)

lemma connect_packet_body:
  "packet CONNECT_TYPE 0 (conn_body c opts) =
    0x10 # rl_encode (length (conn_body c opts)) @ conn_header (conn_flags opts) (keepAliveInterval opts) @ utf c @
      opt_utf (willTopic opts) @ opt_utf (willMessage opts) @ opt_utf (username opts) @ opt_utf (password opts)"
  by (simp add: packet_def conn_body_def mqtt_consts)

lemma wire_connect_body:
  "wire_connect c opts =
    0x10 # rl_encode (length (conn_body c opts)) @ conn_header (wire_connect_flags opts) (keepAliveInterval opts) @ utf c @
      opt_utf (willTopic opts) @ opt_utf (willMessage opts) @ opt_utf (username opts) @ opt_utf (password opts)"
  by (simp add: wire_connect_def conn_body_def conn_header_bytes Let_def)

lemma wire_connect_eq:
  "willTopic opts = None \<or> qualityOfServiceValue opts = 0 \<Longrightarrow> wire_connect c opts = packet CONNECT_TYPE 0 (conn_body c opts)"
  by (simp add: wire_connect_body connect_packet_body conn_flags_wire)

lemma length_conn_header [simp]: "length (conn_header f ka) = 10"
  by (simp add: conn_header_def MQTT_name_def)

lemma opt_length: "opt_ok s \<Longrightarrow> length (opt_utf s) = conn_len s + conn_space s"
  by (auto simp: opt_utf_def conn_len_def conn_space_def opt_ok_def split: option.splits)

lemma opt_len_pos: "opt_ok s \<Longrightarrow> (0 < conn_len s) = (s \<noteq> None)"
  by (auto simp: conn_len_def opt_ok_def split: option.splits)

lemma opt_len_le: "opt_ok s \<Longrightarrow> conn_len s \<le> USHRT_MAX"
  by (auto simp: conn_len_def opt_ok_def split: option.splits)

section \<open>The writes\<close>

lemma header_flag_update:
  "(conn_header f ka @ r)[CONN_FLAG_BYTE_OFFSET := (conn_header f ka @ r) ! CONN_FLAG_BYTE_OFFSET OR g] =
    conn_header (f OR g) ka @ r"
  by (simp add: conn_header_def utf_def be16_def MQTT_name_def CONN_FLAG_BYTE_OFFSET_def)

lemma or_conn_flag_header:
  "or_conn_flag (filled (conn_header f ka @ r) n, i) g = Some (filled (conn_header (f OR g) ka @ r) n, i)"
  using or_conn_flag_filled[of "conn_header f ka @ r" n i g]
  by (simp only: header_flag_update) (simp add: CONN_FLAG_BYTE_OFFSET_def)

lemma writeUTF_opt:
  assumes "opt_ok s" and "s \<noteq> None" and "i = length bs" and "length (opt_utf s) \<le> n"
  shows "byteutil_writeUTF (filled bs n, i) s (of_nat (conn_len s)) =
    Some (filled (bs @ opt_utf s) (n - length (opt_utf s)), i + length (opt_utf s))"
proof -
  obtain t where "s = Some t" "length t \<le> USHRT_MAX" using assms(1,2) by (auto simp: opt_ok_def)
  with assms(3,4) show ?thesis by (simp add: writeUTF_filled opt_utf_def conn_len_def)
qed

lemma write_credential_header:
  assumes "opt_ok s" and "i = 10 + length r" and "length (opt_utf s) \<le> n"
  shows "write_credential s g (filled (conn_header f ka @ r) n, i) =
    Some (filled (conn_header (if s \<noteq> None then f OR g else f) ka @ r @ opt_utf s) (n - length (opt_utf s)),
          i + length (opt_utf s))"
proof (cases "s = None")
  case True
  then show ?thesis by (simp add: write_credential_def conn_len_def opt_utf_def)
next
  case False
  then show ?thesis
    using writeUTF_opt[OF assms(1) False, of i "conn_header (f OR g) ka @ r" n] assms
    by (simp add: write_credential_def opt_len_pos or_conn_flag_header)
qed

lemma write_will_header:
  assumes ok: "opt_ok (willTopic opts)" "opt_ok (willMessage opts)"
    and both: "willTopic opts = None \<longleftrightarrow> willMessage opts = None"
    and i: "i = 10 + length r" and n: "length (opt_utf (willTopic opts)) + length (opt_utf (willMessage opts)) \<le> n"
  shows "write_will opts (filled (conn_header f ka @ r) n, i) =
    Some (filled (conn_header (will_flags opts f) ka @ r @ opt_utf (willTopic opts) @ opt_utf (willMessage opts))
            (n - length (opt_utf (willTopic opts)) - length (opt_utf (willMessage opts))),
          i + length (opt_utf (willTopic opts)) + length (opt_utf (willMessage opts)))"
proof (cases "willTopic opts = None")
  case True
  with both show ?thesis by (simp add: write_will_def conn_len_def opt_utf_def will_flags_def)
next
  case False
  let ?t = "opt_utf (willTopic opts)"
  let ?q = "f OR WILL_FLAG_FLAG OR ucast (qualityOfServiceValue opts)"
  have m: "willMessage opts \<noteq> None" using False both by simp
  have w1: "byteutil_writeUTF (filled (conn_header (f OR WILL_FLAG_FLAG) ka @ r) n, i)
      (willTopic opts) (of_nat (conn_len (willTopic opts))) =
      Some (filled (conn_header (f OR WILL_FLAG_FLAG) ka @ r @ ?t) (n - length ?t), i + length ?t)"
    using writeUTF_opt[OF ok(1) False, of i "conn_header (f OR WILL_FLAG_FLAG) ka @ r" n] i n by simp
  have w2: "byteutil_writeUTF (filled (conn_header g ka @ r @ ?t) (n - length ?t), i + length ?t)
      (willMessage opts) (of_nat (conn_len (willMessage opts))) =
      Some (filled (conn_header g ka @ r @ ?t @ opt_utf (willMessage opts))
              (n - length ?t - length (opt_utf (willMessage opts))),
            i + length ?t + length (opt_utf (willMessage opts)))" for g
    using writeUTF_opt[OF ok(2) m, of "i + length ?t" "conn_header g ka @ r @ ?t" "n - length ?t"] i n by simp
  show ?thesis
    using False m w1 w2
    by (auto simp: write_will_def opt_len_pos[OF ok(1)] opt_len_pos[OF ok(2)] or_conn_flag_header will_flags_def Let_def)
qed

lemma constructConnectVariableHeader_empty:
  "constructConnectVariableHeader alloc empty_buffer opts =
    (if alloc 10 then Some (0, buf_set empty_buffer (map Some (conn_header 0 (keepAliveInterval opts))))
     else Some (FAILURE, empty_buffer))"
proof -
  have "byteutil_writeUTF (filled [] 10, 0) (Some MQTT_name) (of_nat 4) = Some (filled (utf MQTT_name) 4, 6)"
    by (subst writeUTF_filled) (simp_all add: MQTT_name_def USHRT_MAX_def)
  then have "byteutil_writeUTF (filled [] 10, 0) (Some MQTT_name) 4 = Some (filled (utf MQTT_name) 4, 6)"
    by simp
  then show ?thesis
    using enlarge_empty[of 10 alloc]
    by (simp add: constructConnectVariableHeader_def CONNECT_VARIABLE_HEADER_SIZE_def size_mod_eq
        writeByte_filled write_uint16_filled filled_full conn_header_def MQTT_name_def)
qed

section \<open>The payload and the packet\<close>

definition conn_strings :: "cstring \<Rightarrow> mqtt_client_options \<Rightarrow> u8 list" where
  "conn_strings c opts =
     utf c @ opt_utf (willTopic opts) @ opt_utf (willMessage opts) @ opt_utf (username opts) @ opt_utf (password opts)"

lemma conn_body_strings:
  "conn_body c opts = conn_header (conn_flags opts) (keepAliveInterval opts) @ conn_strings c opts"
  by (simp add: conn_body_def conn_strings_def)

lemma length_conn_strings:
  assumes "conn_ok c opts"
  shows "length (conn_strings c opts) =
    conn_len (clientId opts) + conn_len (username opts) + conn_len (password opts) + conn_len (willMessage opts) +
    conn_len (willTopic opts) +
    (conn_space (clientId opts) + conn_space (username opts) + conn_space (password opts) +
     conn_space (willMessage opts) + conn_space (willTopic opts))"
proof -
  have "length (utf c) = conn_len (clientId opts) + conn_space (clientId opts)"
    using assms by (simp add: conn_ok_def conn_len_def conn_space_def)
  then show ?thesis using assms by (simp add: conn_strings_def conn_ok_def opt_length)
qed

lemma opt_utf_bound: "opt_ok s \<Longrightarrow> length (opt_utf s) \<le> 65537"
  by (auto simp: opt_ok_def opt_utf_def USHRT_MAX_def split: option.splits)

lemma conn_strings_bound:
  assumes "conn_ok c opts"
  shows "length (conn_strings c opts) \<le> 5 * 65537"
proof -
  have "length (utf c) \<le> 65537" using assms by (simp add: conn_ok_def USHRT_MAX_def)
  then show ?thesis
    using assms opt_utf_bound[of "willTopic opts"] opt_utf_bound[of "willMessage opts"]
      opt_utf_bound[of "username opts"] opt_utf_bound[of "password opts"]
    by (simp add: conn_strings_def conn_ok_def)
qed

lemma write_conn_strings_header:
  assumes ok: "conn_ok c opts"
  shows "\<exists>i. write_conn_strings opts
      (filled (conn_header 0 ka @ utf c) (length (conn_strings c opts) - 2 - length c), 12 + length c) =
    Some (filled (conn_header (conn_flags opts) ka @ conn_strings c opts) 0, i)"
proof -
  let ?w = "length (opt_utf (willTopic opts)) + length (opt_utf (willMessage opts))"
  let ?u = "length (opt_utf (username opts))" and ?p = "length (opt_utf (password opts))"
  let ?s = "utf c @ opt_utf (willTopic opts) @ opt_utf (willMessage opts)"
  note [simp] = ok[unfolded conn_ok_def]
  have n: "length (conn_strings c opts) - 2 - length c = ?w + ?u + ?p" by (simp add: conn_strings_def)
  have w1: "write_will opts (filled (conn_header 0 ka @ utf c) (?w + ?u + ?p), 12 + length c) =
      Some (filled (conn_header (will_flags opts 0) ka @ ?s) (?u + ?p), 12 + length c + ?w)"
    by (subst write_will_header) simp_all
  have w2: "write_credential (username opts) USERNAME_FLAG
      (filled (conn_header f ka @ ?s) (?u + ?p), 12 + length c + ?w) =
      Some (filled (conn_header (if username opts \<noteq> None then f OR USERNAME_FLAG else f) ka @
              ?s @ opt_utf (username opts)) ?p, 12 + length c + ?w + ?u)" for f
    by (subst write_credential_header) simp_all
  have w3: "write_credential (password opts) PASSWORD_FLAG
      (filled (conn_header f ka @ ?s @ opt_utf (username opts)) ?p, 12 + length c + ?w + ?u) =
      Some (filled (conn_header (if password opts \<noteq> None then f OR PASSWORD_FLAG else f) ka @ conn_strings c opts) 0,
            12 + length c + ?w + ?u + ?p)" for f
    by (subst write_credential_header) (simp_all add: conn_strings_def)
  show ?thesis
    unfolding n write_conn_strings_def
    using w1 w2 w3 by (simp add: or_conn_flag_header conn_flags_def Let_def)
qed

lemma constructConnPayload_header:
  assumes ok: "conn_ok c opts"
  shows "constructConnPayload alloc (buf_set empty_buffer (map Some (conn_header 0 ka))) opts =
    (if alloc (10 + length (conn_strings c opts))
     then Some (0, buf_set empty_buffer (map Some (conn_header (conn_flags opts) ka @ conn_strings c opts)))
     else Some (FAILURE, buf_set empty_buffer (map Some (conn_header 0 ka))))"
proof -
  let ?b = "buf_set empty_buffer (map Some (conn_header 0 ka))"
  let ?n = "length (conn_strings c opts)"
  have c: "clientId opts = Some c" "length c \<le> USHRT_MAX" using ok by (simp_all add: conn_ok_def)
  have n: "2 + length c \<le> ?n" by (simp add: conn_strings_def)
  have small: "10 + ?n < size_mod" using conn_strings_bound[OF ok] by (simp add: size_mod_eq)
  have total: "(conn_len (clientId opts) + conn_len (username opts) + conn_len (password opts) +
      conn_len (willMessage opts) + conn_len (willTopic opts) +
      (conn_space (clientId opts) + conn_space (username opts) + conn_space (password opts) +
       conn_space (willMessage opts) + conn_space (willTopic opts))) mod size_mod = ?n"
    using length_conn_strings[OF ok] small by simp
  have e: "BUFFER_enlarge alloc ?b ?n =
      (if alloc (10 + ?n) then Some (0, buf_set empty_buffer (filled (conn_header 0 ka) ?n)) else Some (FAILURE, ?b))"
    using enlarge_filled[of ?b "conn_header 0 ka" ?n alloc] small n by force
  have w0: "byteutil_writeUTF (filled (conn_header 0 ka) ?n, 10) (clientId opts) (of_nat (conn_len (clientId opts))) =
      Some (filled (conn_header 0 ka @ utf c) (?n - 2 - length c), 12 + length c)"
    using writeUTF_filled[of 10 "conn_header 0 ka" c ?n "length c"] c n by (simp add: conn_len_def)
  obtain i where w: "write_conn_strings opts (filled (conn_header 0 ka @ utf c) (?n - 2 - length c), 12 + length c) =
      Some (filled (conn_header (conn_flags opts) ka @ conn_strings c opts) 0, i)"
    using write_conn_strings_header[OF ok] by blast
  have okd: "opt_ok (willTopic opts)" "opt_ok (willMessage opts)" "opt_ok (username opts)" "opt_ok (password opts)"
    using ok by (simp_all add: conn_ok_def)
  have guards: "\<not> conn_len (clientId opts) > USHRT_MAX"
    "\<not> (conn_len (username opts) = 0 \<and> 0 < conn_len (password opts))"
    "\<not> (0 < conn_len (willMessage opts) \<and> conn_len (willTopic opts) = 0 \<or>
        0 < conn_len (willTopic opts) \<and> conn_len (willMessage opts) = 0)"
    "\<not> (conn_len (willMessage opts) > USHRT_MAX \<or> conn_len (willTopic opts) > USHRT_MAX \<or>
        conn_len (username opts) > USHRT_MAX \<or> conn_len (password opts) > USHRT_MAX)"
    using okd[THEN opt_len_pos] okd[THEN opt_len_le] ok c by (auto simp: conn_ok_def conn_len_def not_less)
  have u: "BUFFER_u_char (Some (buf_set empty_buffer (filled (conn_header 0 ka) ?n))) =
      Some (filled (conn_header 0 ka) ?n)" by simp
  show ?thesis
    unfolding constructConnPayload_def Let_def total if_not_P[OF guards(1)] if_not_P[OF guards(2)]
      if_not_P[OF guards(3)] if_not_P[OF guards(4)]
    using e u w0 w by (simp add: filled_full map_append[symmetric] del: map_append)
qed

lemma connect_written:
  assumes "conn_ok c opts"
  shows "mqtt_codec_connect alloc empty_buffer opts =
    (if alloc 10 \<and> alloc (length (conn_body c opts)) \<and> alloc (length (packet CONNECT_TYPE 0 (conn_body c opts)))
     then Some (True, buf_set empty_buffer (map Some (packet CONNECT_TYPE 0 (conn_body c opts))))
     else Some (False, empty_buffer))"
proof -
  have small: "length (conn_body c opts) < 2 ^ 35"
    using conn_strings_bound[OF assms] by (simp add: conn_body_strings)
  have f: "constructFixedHeader alloc (buf_set empty_buffer (map Some (conn_body c opts))) CONNECT_TYPE 0 =
      (if alloc (length (packet CONNECT_TYPE 0 (conn_body c opts)))
       then Some (0, buf_set empty_buffer (map Some (packet CONNECT_TYPE 0 (conn_body c opts))))
       else Some (FAILURE, buf_set empty_buffer (map Some (conn_body c opts))))"
    using constructFixedHeader_repr[OF buf_repr_set small, of alloc empty_buffer CONNECT_TYPE 0] by simp
  have p: "constructConnPayload alloc (buf_set empty_buffer (map Some (conn_header 0 (keepAliveInterval opts)))) opts =
      (if alloc (length (conn_body c opts))
       then Some (0, buf_set empty_buffer (map Some (conn_body c opts)))
       else Some (FAILURE, buf_set empty_buffer (map Some (conn_header 0 (keepAliveInterval opts)))))"
    using constructConnPayload_header[OF assms] by (simp add: conn_body_strings)
  show ?thesis
    by (simp add: mqtt_codec_connect_def constructConnectVariableHeader_empty p f build_failed_def)
qed

text \<open>
  C32: for options whose members are absent or not empty (a will with topic, message and quality of service 0, a
  password only with a user name), \<^verbatim>\<open>mqtt_codec_connect\<close> produces the CONNECT packet of the protocol: name and level,
  the connect flags, the keep-alive time and the strings in the order
  client id, will topic, will message, user name, password; or \<^verbatim>\<open>NULL\<close> with the buffer released
  when one of its three allocations fails.
\<close>

theorem mqtt_codec_connect_packet:
  assumes "conn_ok c opts" and "willTopic opts = None \<or> qualityOfServiceValue opts = 0"
  shows "mqtt_codec_connect alloc empty_buffer opts =
    (if alloc 10 \<and> alloc (length (conn_body c opts)) \<and> alloc (length (wire_connect c opts))
     then Some (True, buf_set empty_buffer (map Some (wire_connect c opts)))
     else Some (False, empty_buffer))"
  unfolding wire_connect_eq[OF assms(2)] using assms(1) by (rule connect_written)

text \<open>
  With a will of another quality of service the packet is not the one of the protocol: its two bits stay zero, and
  the value is in the bits for the clean session and in the reserved bit.
\<close>

theorem mqtt_codec_connect_will_qos:
  assumes "conn_ok c opts" and "willTopic opts \<noteq> None" and "qualityOfServiceValue opts \<in> {1, 2}" and "\<And>n. alloc n"
  shows "\<exists>m. mqtt_codec_connect alloc empty_buffer opts = Some (True, buf_set empty_buffer (map Some m)) \<and>
    m \<noteq> wire_connect c opts"
proof -
  have "conn_flags opts AND 0x18 = 0" "wire_connect_flags opts AND 0x18 \<noteq> 0"
    using assms(2,3)
    by (cases "username opts"; cases "password opts"; cases "messageRetain opts"; cases "useCleanSession opts";
        auto simp: conn_flags_def will_flags_def wire_connect_flags_def conn_flag_defs)+
  then have "conn_flags opts \<noteq> wire_connect_flags opts" by metis
  then have "packet CONNECT_TYPE 0 (conn_body c opts) \<noteq> wire_connect c opts"
    by (simp add: wire_connect_body connect_packet_body conn_header_bytes)
  then show ?thesis using connect_written[OF assms(1), of alloc] assms(4) by auto
qed

definition no_options :: mqtt_client_options where
  "no_options = \<lparr>clientId = None, willTopic = None, willMessage = None, username = None, password = None,
     keepAliveInterval = 10, messageRetain = False, useCleanSession = True, qualityOfServiceValue = 0,
     log_trace = False\<rparr>"

theorem mqtt_codec_connect_packet_witness:
  "mqtt_codec_connect (\<lambda>_. True) empty_buffer
     (no_options\<lparr>clientId := Some [0x63], username := Some [0x75], password := Some [0x70]\<rparr>) =
   Some (True, buf_set empty_buffer (map Some
     [0x10, 19, 0, 4, 0x4D, 0x51, 0x54, 0x54, 4, 0xC2, 0, 10, 0, 1, 0x63, 0, 1, 0x75, 0, 1, 0x70]))"
proof -
  let ?o = "no_options\<lparr>clientId := Some [0x63], username := Some [0x75], password := Some [0x70]\<rparr>"
  have "conn_ok [0x63] ?o" "willTopic ?o = None \<or> qualityOfServiceValue ?o = 0"
    by (simp_all add: conn_ok_def opt_ok_def no_options_def USHRT_MAX_def)
  note mqtt_codec_connect_packet[OF this, of "\<lambda>_. True"]
  moreover have "wire_connect [0x63] ?o =
      [0x10, 19, 0, 4, 0x4D, 0x51, 0x54, 0x54, 4, 0xC2, 0, 10, 0, 1, 0x63, 0, 1, 0x75, 0, 1, 0x70]"
    by (simp add: wire_connect_def wire_connect_flags_def utf_def be16_def opt_utf_def no_options_def rl_encode.simps)
  ultimately show ?thesis by simp
qed

text \<open>
  C38: options that would need a malformed packet are rejected before anything is sent: a client
  id longer than 65535 bytes, a password without a user name, a will topic without a message or
  the reverse all give \<^verbatim>\<open>NULL\<close>, and the buffer is released.
\<close>

theorem mqtt_codec_connect_rejects:
  assumes "conn_len (clientId opts) > USHRT_MAX \<or>
      conn_len (username opts) = 0 \<and> conn_len (password opts) > 0 \<or>
      (conn_len (willTopic opts) = 0) \<noteq> (conn_len (willMessage opts) = 0)"
  shows "mqtt_codec_connect alloc empty_buffer opts = Some (False, empty_buffer)"
proof -
  have "constructConnPayload alloc b opts = Some (FAILURE, b)" for b
    using assms unfolding constructConnPayload_def Let_def by auto
  then show ?thesis
    by (simp add: mqtt_codec_connect_def constructConnectVariableHeader_empty build_failed_def)
qed

theorem mqtt_codec_connect_rejects_witness:
  "mqtt_codec_connect (\<lambda>_. True) empty_buffer (no_options\<lparr>clientId := Some [0x63], password := Some [0x70]\<rparr>) =
    Some (False, empty_buffer)"
  by (rule mqtt_codec_connect_rejects) (simp add: conn_len_def no_options_def)

text \<open>
  With no client id and no other string the payload step reserves no byte, but still writes
  the two bytes of the client id's length: the write is outside the block.
\<close>

theorem mqtt_codec_connect_no_client_id:
  assumes "clientId opts = None" and "willTopic opts = None" and "willMessage opts = None"
    and "username opts = None" and "password opts = None" and "alloc 10"
  shows "mqtt_codec_connect alloc empty_buffer opts = None"
proof -
  let ?h = "conn_header 0 (keepAliveInterval opts)"
  have "byteutil_writeUTF (map Some ?h, 10) None 0 = None"
    by (simp add: byteutil_writeUTF_def byteutil_write_uint16_def poke_def)
  then have "constructConnPayload alloc (buf_set empty_buffer (map Some ?h)) opts = None"
    using assms by (simp add: constructConnPayload_def conn_len_def conn_space_def BUFFER_enlarge_def)
  with assms show ?thesis
    by (simp add: mqtt_codec_connect_def constructConnectVariableHeader_empty)
qed

theorem mqtt_codec_connect_no_client_id_witness:
  "mqtt_codec_connect (\<lambda>_. True) empty_buffer no_options = None"
  by (rule mqtt_codec_connect_no_client_id) (simp_all add: no_options_def)

text \<open>
  An empty user name makes the payload step reserve two bytes that it never writes: the
  packet returned ends with two indeterminate bytes.
\<close>

theorem mqtt_codec_connect_empty_username:
  assumes c: "clientId opts = Some c" "length c \<le> USHRT_MAX" and u: "username opts = Some []"
    and none: "willTopic opts = None" "willMessage opts = None" "password opts = None"
    and alloc: "\<And>n. alloc n"
  shows "\<exists>bs. mqtt_codec_connect alloc empty_buffer opts =
    Some (True, buf_set empty_buffer (map Some bs @ [None, None]))"
proof -
  let ?f = "if useCleanSession opts then 0 OR CLEAN_SESSION_FLAG else 0"
  let ?h = "\<lambda>f. conn_header f (keepAliveInterval opts)" and ?n = "length c + 4"
  let ?m = "filled (?h ?f @ utf c) 2"
  have e: "BUFFER_enlarge alloc (buf_set empty_buffer (map Some (?h 0))) ?n =
      Some (0, buf_set empty_buffer (filled (?h 0) ?n))"
    using enlarge_ok[OF buf_repr_set, of ?n "?h 0" alloc empty_buffer] c alloc
    by (simp add: USHRT_MAX_def size_mod_eq)
  have w: "byteutil_writeUTF (filled (?h 0) ?n, 10) (Some c) (of_nat (length c)) =
      Some (filled (?h 0 @ utf c) 2, 12 + length c)"
    using writeUTF_filled[of 10 "?h 0" c ?n "length c"] c by simp
  have p: "constructConnPayload alloc (buf_set empty_buffer (map Some (?h 0))) opts = Some (0, buf_set empty_buffer ?m)"
    using c u none e w
    by (simp add: constructConnPayload_def conn_len_def conn_space_def write_will_def write_credential_def
        write_conn_strings_def or_conn_flag_header USHRT_MAX_def size_mod_eq)
  have "length ?m < 2 ^ 35" using c by (simp add: USHRT_MAX_def)
  from constructFixedHeader_cells[OF buf_repr_set this, of alloc empty_buffer CONNECT_TYPE 0] alloc
  have "constructFixedHeader alloc (buf_set empty_buffer ?m) CONNECT_TYPE 0 =
      Some (0, buf_set empty_buffer (map Some (ucast CONNECT_TYPE # rl_encode (length ?m)) @ ?m))"
    by simp
  moreover have "?m = map Some (?h ?f @ utf c) @ [None, None]"
    by (simp add: filled_def fresh_def numeral_2_eq_2)
  ultimately have "constructFixedHeader alloc (buf_set empty_buffer ?m) CONNECT_TYPE 0 =
      Some (0, buf_set empty_buffer
        (map Some ((ucast CONNECT_TYPE # rl_encode (length ?m)) @ ?h ?f @ utf c) @ [None, None]))"
    by (metis append.assoc map_append)
  with p alloc have "mqtt_codec_connect alloc empty_buffer opts = Some (True, buf_set empty_buffer
      (map Some ((ucast CONNECT_TYPE # rl_encode (length ?m)) @ ?h ?f @ utf c) @ [None, None]))"
    by (simp add: mqtt_codec_connect_def constructConnectVariableHeader_empty)
  then show ?thesis by blast
qed

theorem mqtt_codec_connect_empty_username_witness:
  "\<exists>bs. mqtt_codec_connect (\<lambda>_. True) empty_buffer (no_options\<lparr>clientId := Some [0x63], username := Some []\<rparr>) =
    Some (True, buf_set empty_buffer (map Some bs @ [None, None]))"
  by (rule mqtt_codec_connect_empty_username[where c = "[0x63]"]) (simp_all add: no_options_def USHRT_MAX_def)

end
