(* ===== verification/Mqtt_Decoder.thy ===== *)
theory Mqtt_Decoder
  imports Mqtt_Wire
begin

text \<open>
  The decoding half of \<^verbatim>\<open>iot/mqtt_codec.c\<close>: the byte-wise state machine
  \<^verbatim>\<open>mqtt_codec_bytesReceived\<close> and the dispatch of a complete packet.  The calls of the
  \<^verbatim>\<open>packetComplete\<close> callback are recorded as a list of events in the order they are made; the
  callback of this program (\<^verbatim>\<open>MQTTClient::on_packet\<close>) does not touch the codec.
\<close>

unbundle bit_operations_syntax

section \<open>State and events\<close>

datatype codec_state = CODEC_STATE_FIXED_HEADER | CODEC_STATE_VAR_HEADER | CODEC_STATE_PAYLOAD

record mqtt_codec =
  currPacket :: c_enum
  codecState :: codec_state
  bufferOffset :: nat
  headerFlags :: u8
  headerData :: mqtt_buffer
  storeRemainLen :: "u8 list"
  remainLenIndex :: nat

text \<open>
  The structure \<^verbatim>\<open>packetTag\<close> points to.  The quality-of-service bytes of a SUBACK are given as the
  rest of the block they point into and their count; the topic of a PUBLISH is the copied bytes.
\<close>

datatype packet_tag =
    Tag_null
  | Tag_connack bool c_enum
  | Tag_publish publish_msg
  | Tag_publish_ack u16
  | Tag_suback u16 block nat
  | Tag_unsuback u16

record mqtt_event =
  ev_packet :: c_enum
  ev_flags :: u8
  ev_header :: "block option"
  ev_tag :: packet_tag

section \<open>Readers\<close>

text \<open>An iterator may be \<^verbatim>\<open>NULL\<close>; reading through it then is undefined.\<close>

type_synonym riter = "block option \<times> nat"

definition deref :: "riter \<Rightarrow> nat \<Rightarrow> u8 option" where
  "deref it k = (case fst it of None \<Rightarrow> None | Some m \<Rightarrow> peek m (snd it + k))"

definition byteutil_readByte :: "riter \<Rightarrow> (u8 \<times> riter) option" where
  "byteutil_readByte it = do { b \<leftarrow> deref it 0; Some (b, (fst it, snd it + 1)) }"

definition byteutil_read_uint16 :: "riter \<Rightarrow> nat \<Rightarrow> (u16 \<times> riter) option" where
  "byteutil_read_uint16 it len =
     (if len \<ge> 2
      then do {
        a \<leftarrow> deref it 0;
        b \<leftarrow> deref it 1;
        Some (256 * ucast a + ucast b, (fst it, snd it + 2))
      }
      else Some (0, it))"

definition byteutil_readUTF :: "(nat \<Rightarrow> bool) \<Rightarrow> riter \<Rightarrow> (cstring option \<times> u16 \<times> riter) option" where
  "byteutil_readUTF alloc it = do {
     (len, it) \<leftarrow> byteutil_read_uint16 it 2;
     if len > 0 \<and> alloc (unat len + 1)
     then do {
       m \<leftarrow> fst it;
       cells \<leftarrow> copy_out m (snd it) (unat len);
       bs \<leftarrow> bytes_of cells;
       Some (Some bs, len, (fst it, snd it + unat len))
     }
     else Some (None, len, it)
   }"

definition PACKET_TYPE_BYTE :: "u8 \<Rightarrow> u8" where "PACKET_TYPE_BYTE p = p AND 0xf0"
definition FLAG_VALUE_BYTE :: "u8 \<Rightarrow> u8" where "FLAG_VALUE_BYTE p = p AND 0xf"

definition processControlPacketType :: "u8 \<Rightarrow> c_enum \<times> u8" where
  "processControlPacketType pktByte = (ucast (PACKET_TYPE_BYTE pktByte), FLAG_VALUE_BYTE pktByte)"

section \<open>The remaining length\<close>

text \<open>The do-while loop over \<^verbatim>\<open>storeRemainLen\<close>; it breaks with a failure on the fourth byte.\<close>

function decode_remain_len :: "u8 list \<Rightarrow> nat \<Rightarrow> nat \<Rightarrow> nat \<Rightarrow> (int \<times> nat) option" where
  "decode_remain_len store index multiplier totalLen =
     (if index < length store
      then let encodeByte = store ! index;
               totalLen = totalLen + unat (encodeByte AND 0x7f) * multiplier;
               multiplier = multiplier * 128
           in if multiplier > 128 * 128 * 128 then Some (FAILURE, totalLen)
              else if encodeByte AND 0x80 \<noteq> 0
              then decode_remain_len store (index + 1) multiplier totalLen
              else Some (0, totalLen)
      else None)"
  by pat_completeness auto
termination by (relation "measure (\<lambda>(s, i, _, _). length s - i)") auto

declare decode_remain_len.simps [simp del]

definition prepareheaderDataInfo :: "(nat \<Rightarrow> bool) \<Rightarrow> mqtt_codec \<Rightarrow> u8 \<Rightarrow> (int \<times> mqtt_codec) option" where
  "prepareheaderDataInfo alloc c remainLen =
     (if remainLenIndex c \<ge> 4 then Some (FAILURE, c)
      else let c = c\<lparr>storeRemainLen := (storeRemainLen c)[remainLenIndex c := remainLen],
                     remainLenIndex := remainLenIndex c + 1\<rparr>
           in if remainLen < 0x7f
              then do {
                (result, totalLen) \<leftarrow> decode_remain_len (storeRemainLen c) 0 1 0;
                let c = (if totalLen > 0
                         then c\<lparr>headerData := snd (BUFFER_pre_build alloc (headerData c) totalLen),
                                bufferOffset := 0\<rparr>
                         else c);
                Some (result, c\<lparr>codecState := CODEC_STATE_VAR_HEADER, remainLenIndex := 0,
                                storeRemainLen := replicate 4 0\<rparr>)
              }
              else Some (0, c))"

section \<open>A complete packet\<close>

definition publish_qos_of_flags :: "u8 \<Rightarrow> c_enum" where
  "publish_qos_of_flags flags =
     (if flags = 0 then DELIVER_AT_MOST_ONCE
      else if flags AND PUBLISH_QOS_AT_LEAST_ONCE \<noteq> 0 then DELIVER_AT_LEAST_ONCE
      else DELIVER_EXACTLY_ONCE)"

definition decode_publish :: "(nat \<Rightarrow> bool) \<Rightarrow> u8 \<Rightarrow> riter \<Rightarrow> nat \<Rightarrow> packet_tag option" where
  "decode_publish alloc flags it len = do {
     let initialPos = snd it;
     let qos = publish_qos_of_flags flags;
     (topic, tlen, it) \<leftarrow> byteutil_readUTF alloc it;
     case topic of
       None \<Rightarrow> Some Tag_null
     | Some t \<Rightarrow> do {
         (pid, it) \<leftarrow> (if qos \<noteq> DELIVER_AT_MOST_ONCE
                       then byteutil_read_uint16 it (size_sub len (snd it - initialPos))
                       else Some (0, it));
         Some (Tag_publish \<lparr>packetId = pid, topicLen = Some tlen, topicName = Some t, qosInfo = qos,
                            message = map_option (drop (snd it)) (fst it),
                            msg_length = size_sub len (snd it - initialPos),
                            isDuplicate = (flags AND PUBLISH_DUP_FLAG \<noteq> 0),
                            isRetained = (flags AND PUBLISH_QOS_RETAIN \<noteq> 0)\<rparr>)
       }
   }"

definition VARIABLE_HEADER_OFFSET :: nat where "VARIABLE_HEADER_OFFSET = 2"

definition decode_tag :: "(nat \<Rightarrow> bool) \<Rightarrow> mqtt_codec \<Rightarrow> packet_tag option" where
  "decode_tag alloc c =
     (let len = BUFFER_length (Some (headerData c));
          it = (BUFFER_u_char (Some (headerData c)), 0);
          p = currPacket c
      in if p = CONNACK_TYPE
         then do {
           (sp, it) \<leftarrow> byteutil_readByte it;
           (code, it) \<leftarrow> byteutil_readByte it;
           Some (Tag_connack (sp = 1) (ucast code))
         }
         else if p = PUBLISH_TYPE then decode_publish alloc (headerFlags c) it len
         else if p = PUBACK_TYPE \<or> p = PUBREC_TYPE \<or> p = PUBREL_TYPE \<or> p = PUBCOMP_TYPE
         then do {
           (pid, it) \<leftarrow> byteutil_read_uint16 it len;
           Some (Tag_publish_ack pid)
         }
         else if p = SUBACK_TYPE
         then do {
           (pid, it) \<leftarrow> byteutil_read_uint16 it len;
           Some (Tag_suback pid (case fst it of None \<Rightarrow> [] | Some m \<Rightarrow> drop (snd it) m) (size_sub len 2))
         }
         else if p = UNSUBACK_TYPE
         then do {
           let it = (fst it, snd it + VARIABLE_HEADER_OFFSET);
           (pid, it) \<leftarrow> byteutil_read_uint16 it len;
           Some (Tag_unsuback pid)
         }
         else Some Tag_null)"

definition codec_reset :: "mqtt_codec \<Rightarrow> mqtt_codec" where
  "codec_reset c = c\<lparr>currPacket := UNKNOWN_TYPE, codecState := CODEC_STATE_FIXED_HEADER, headerFlags := 0,
     headerData := snd (BUFFER_unbuild (headerData c))\<rparr>"

definition completePacketData :: "(nat \<Rightarrow> bool) \<Rightarrow> mqtt_codec \<Rightarrow> (mqtt_event \<times> mqtt_codec) option" where
  "completePacketData alloc c = do {
     tag \<leftarrow> decode_tag alloc c;
     Some (\<lparr>ev_packet = currPacket c, ev_flags = headerFlags c, ev_header = buffer (headerData c), ev_tag = tag\<rparr>,
           codec_reset c)
   }"

section \<open>The codec\<close>

definition mqtt_codec_init :: mqtt_codec where
  "mqtt_codec_init = \<lparr>currPacket = UNKNOWN_TYPE, codecState = CODEC_STATE_FIXED_HEADER, bufferOffset = 0,
     headerFlags = 0, headerData = \<lparr>buffer = None, bsize = 0\<rparr>, storeRemainLen = replicate 4 0, remainLenIndex = 0\<rparr>"

text \<open>\<open>mqtt_codec_exit\<close> frees the header block and initialises the codec again, keeping the callback.\<close>

definition mqtt_codec_exit :: "mqtt_codec \<Rightarrow> mqtt_codec" where
  "mqtt_codec_exit c = mqtt_codec_init"

definition codec_error :: "mqtt_codec \<Rightarrow> mqtt_codec" where
  "codec_error c = c\<lparr>currPacket := PACKET_TYPE_ERROR\<rparr>"

text \<open>The body of the loop for one byte: its result, the events and the codec afterwards.\<close>

definition codec_byte :: "(nat \<Rightarrow> bool) \<Rightarrow> mqtt_codec \<Rightarrow> u8 \<Rightarrow> (int \<times> mqtt_event list \<times> mqtt_codec) option" where
  "codec_byte alloc c iterator =
     (case codecState c of
        CODEC_STATE_FIXED_HEADER \<Rightarrow>
          if currPacket c = UNKNOWN_TYPE
          then let (type, flags) = processControlPacketType iterator
               in Some (0, [], c\<lparr>currPacket := type, headerFlags := flags\<rparr>)
          else do {
            (r, c) \<leftarrow> prepareheaderDataInfo alloc c iterator;
            let (result, c) = (if r \<noteq> 0 then (FAILURE, codec_error c) else (0, c));
            if currPacket c = PINGRESP_TYPE
            then do {
              (ev, c) \<leftarrow> completePacketData alloc c;
              Some (result, [ev], c)
            }
            else Some (result, [], c)
          }
      | CODEC_STATE_VAR_HEADER \<Rightarrow>
          (case BUFFER_u_char (Some (headerData c)) of
             None \<Rightarrow> Some (FAILURE, [], codec_error c)
           | Some dataBytes \<Rightarrow> do {
               let totalLen = BUFFER_length (Some (headerData c));
               m \<leftarrow> poke dataBytes (bufferOffset c) iterator;
               let c = c\<lparr>headerData := (headerData c)\<lparr>buffer := Some m\<rparr>, bufferOffset := bufferOffset c + 1\<rparr>;
               if bufferOffset c \<ge> totalLen
               then do {
                 (ev, c) \<leftarrow> completePacketData alloc c;
                 Some (0, [ev], c)
               }
               else Some (0, [], c)
             })
      | CODEC_STATE_PAYLOAD \<Rightarrow> Some (FAILURE, [], codec_error c))"

fun mqtt_codec_bytesReceived ::
    "(nat \<Rightarrow> bool) \<Rightarrow> mqtt_codec \<Rightarrow> u8 list \<Rightarrow> (int \<times> mqtt_event list \<times> mqtt_codec) option" where
  "mqtt_codec_bytesReceived alloc c [] = Some (0, [], c)"
| "mqtt_codec_bytesReceived alloc c (b # bs) = do {
     (r, evs, c) \<leftarrow> codec_byte alloc c b;
     if r \<noteq> 0 then Some (r, evs, c)
     else do {
       (r, evs', c) \<leftarrow> mqtt_codec_bytesReceived alloc c bs;
       Some (r, evs @ evs', c)
     }
   }"

end
