(* ===== verification/Mqtt_Framing.thy ===== *)
theory Mqtt_Framing
  imports Mqtt_Decoder
begin

text \<open>
  What the byte-wise decoder of \<^verbatim>\<open>iot/mqtt_codec.c\<close> does with a stream: splitting the stream does
  not matter, its own state keeps an invariant under every byte, the remaining-length loop
  inverts the encoder's, and an idle codec fed with one packet delivers exactly that packet.
\<close>

unbundle bit_operations_syntax

section \<open>Splitting the stream\<close>

lemma bytesReceived_append:
  "mqtt_codec_bytesReceived alloc c (xs @ ys) = do {
     (r, evs, c) \<leftarrow> mqtt_codec_bytesReceived alloc c xs;
     if r \<noteq> 0 then Some (r, evs, c)
     else do {
       (r, evs', c) \<leftarrow> mqtt_codec_bytesReceived alloc c ys;
       Some (r, evs @ evs', c)
     }
   }"
proof (induction xs arbitrary: c)
  case Nil
  show ?case by (cases "mqtt_codec_bytesReceived alloc c ys") auto
next
  case (Cons x xs)
  show ?case
  proof (cases "codec_byte alloc c x")
    case None
    then show ?thesis by simp
  next
    case (Some s)
    obtain r e d where s: "s = (r, e, d)" by (cases s)
    show ?thesis
    proof (cases "mqtt_codec_bytesReceived alloc d xs")
      case None
      then show ?thesis using Some s Cons by simp
    next
      case (Some t)
      obtain r' e' d' where t: "t = (r', e', d')" by (cases t)
      then show ?thesis
        using Cons Some \<open>codec_byte alloc c x = Some s\<close> s
        by (cases "mqtt_codec_bytesReceived alloc d' ys") auto
    qed
  qed
qed

section \<open>The remaining length\<close>

text \<open>The last byte the encoder writes; the decoder only stops on one below \<open>0x7f\<close>.\<close>

fun top_digit :: "nat \<Rightarrow> nat" where
  "top_digit n = (if n < 128 then n else top_digit (n div 128))"

declare top_digit.simps [simp del]

lemma top_digit_less: "top_digit n < 128"
  by (induction n rule: top_digit.induct) (simp add: top_digit.simps)

lemma top_digit_small: "n < 128 \<Longrightarrow> top_digit n = n"
  by (simp add: top_digit.simps)

lemma top_digit_step: "128 \<le> n \<Longrightarrow> top_digit n = top_digit (n div 128)"
  by (simp add: top_digit.simps[of n])

lemma rl_encode_small: "n < 128 \<Longrightarrow> rl_encode n = [of_nat n]"
  by (subst rl_encode.simps) simp

lemma rl_encode_step: "128 \<le> n \<Longrightarrow> rl_encode n = of_nat (n mod 128 + 128) # rl_encode (n div 128)"
  by (subst rl_encode.simps) simp

lemma length_byte_digit: "m < 128 \<Longrightarrow> unat ((of_nat m :: u8) AND 0x7f) = m \<and> (of_nat m :: u8) AND 0x80 = 0"
proof -
  have "\<forall>m \<in> set [0..<128]. unat ((of_nat m :: u8) AND 0x7f) = m \<and> (of_nat m :: u8) AND 0x80 = 0"
    by code_simp
  then show "m < 128 \<Longrightarrow> unat ((of_nat m :: u8) AND 0x7f) = m \<and> (of_nat m :: u8) AND 0x80 = 0" by simp
qed

lemma length_byte_continued:
  "m < 128 \<Longrightarrow> unat ((of_nat (m + 128) :: u8) AND 0x7f) = m \<and> (of_nat (m + 128) :: u8) AND 0x80 \<noteq> 0"
proof -
  have "\<forall>m \<in> set [0..<128]. unat ((of_nat (m + 128) :: u8) AND 0x7f) = m \<and> (of_nat (m + 128) :: u8) AND 0x80 \<noteq> 0"
    by code_simp
  then show "m < 128 \<Longrightarrow> unat ((of_nat (m + 128) :: u8) AND 0x7f) = m \<and> (of_nat (m + 128) :: u8) AND 0x80 \<noteq> 0"
    by simp
qed

lemma decode_rl_encode:
  assumes "length pre = i" and "i + length (rl_encode n) \<le> 3"
  shows "decode_remain_len (pre @ rl_encode n @ rest) i (128 ^ i) t = Some (0, t + n * 128 ^ i)"
  using assms
proof (induction n arbitrary: pre i t rule: rl_encode.induct)
  case (1 n)
  have i: "i = 0 \<or> i = 1 \<or> i = 2" using "1.prems"(2) by (cases "rl_encode n") auto
  show ?case
  proof (cases "n < 128")
    case True
    then have "(pre @ rl_encode n @ rest) ! i = of_nat n"
      using "1.prems"(1) by (simp add: rl_encode_small nth_append)
    with True i "1.prems"(1) length_byte_digit[OF True] show ?thesis
      by (subst decode_remain_len.simps) (auto simp: rl_encode_small Let_def)
  next
    case False
    let ?b = "of_nat (n mod 128 + 128) :: u8"
    have rl: "rl_encode n = ?b # rl_encode (n div 128)" using False by (simp add: rl_encode_step)
    have i: "i = 0 \<or> i = 1" using "1.prems"(2) rl by (cases "rl_encode (n div 128)") auto
    have nth: "(pre @ rl_encode n @ rest) ! i = ?b" using "1.prems"(1) by (simp add: rl nth_append)
    have d: "unat (?b AND 0x7f) = n mod 128" "?b AND 0x80 \<noteq> 0"
      using length_byte_continued[of "n mod 128"] by simp_all
    have "decode_remain_len (pre @ rl_encode n @ rest) i (128 ^ i) t =
        decode_remain_len ((pre @ [?b]) @ rl_encode (n div 128) @ rest) (i + 1) (128 ^ (i + 1)) (t + n mod 128 * 128 ^ i)"
      using i nth d "1.prems"(1) rl by (subst decode_remain_len.simps) (auto simp: Let_def)
    also have "\<dots> = Some (0, t + n mod 128 * 128 ^ i + n div 128 * 128 ^ (i + 1))"
      by (rule "1.IH"[OF False]) (use "1.prems" rl in auto)
    also have "t + n mod 128 * 128 ^ i + n div 128 * 128 ^ (i + 1) = t + n * 128 ^ i"
    proof -
      have "n mod 128 * 128 ^ i + n div 128 * 128 ^ (i + 1) = (n mod 128 + n div 128 * 128) * 128 ^ i"
        by (simp only: power_add power_one_right distrib_right mult.assoc mult.commute[of "128 ^ i"])
      then show ?thesis by (simp only: mod_div_mult_eq add.assoc)
    qed
    finally show ?thesis .
  qed
qed


section \<open>The state between two bytes\<close>

definition codec_idle :: "mqtt_codec \<Rightarrow> bool" where
  "codec_idle c = (codecState c = CODEC_STATE_FIXED_HEADER \<and> currPacket c = UNKNOWN_TYPE \<and>
     headerData c = empty_buffer \<and> storeRemainLen c = replicate 4 0 \<and> remainLenIndex c = 0)"

text \<open>The codec after the bytes \<open>pre\<close> of a remaining length.\<close>

definition in_length :: "u8 list \<Rightarrow> mqtt_codec \<Rightarrow> bool" where
  "in_length pre c = (codecState c = CODEC_STATE_FIXED_HEADER \<and>
     currPacket c \<notin> {UNKNOWN_TYPE, PINGRESP_TYPE, PACKET_TYPE_ERROR} \<and> headerData c = empty_buffer \<and>
     storeRemainLen c = pre @ replicate (4 - length pre) 0 \<and> remainLenIndex c = length pre \<and> length pre \<le> 4)"

text \<open>The codec after the bytes \<open>got\<close> of a body of \<open>n\<close> bytes.\<close>

definition in_body :: "mqtt_codec \<Rightarrow> u8 list \<Rightarrow> nat \<Rightarrow> mqtt_codec" where
  "in_body c got n = c\<lparr>codecState := CODEC_STATE_VAR_HEADER, remainLenIndex := 0, storeRemainLen := replicate 4 0,
     headerData := buf_set empty_buffer (filled got (n - length got)), bufferOffset := length got\<rparr>"

lemma codec_idle_init [simp]: "codec_idle mqtt_codec_init"
  by (simp add: codec_idle_def mqtt_codec_init_def empty_buffer_def)

lemma codec_idle_reset: "codec_idle (codec_reset (in_body c got n))"
  by (simp add: codec_idle_def codec_reset_def in_body_def)

text \<open>The bytes of a remaining length that the decoder takes as its end or not.\<close>

lemma length_byte_less: "m < 256 \<Longrightarrow> ((of_nat m :: u8) < 0x7f) = (m < 127)"
  by (simp add: word_less_nat_alt unat_of_nat)

lemma codec_byte_length_more:
  assumes "in_length pre c" and "length pre < 4" and "\<not> b < 0x7f"
  shows "\<exists>c'. codec_byte alloc c b = Some (0, [], c') \<and> in_length (pre @ [b]) c' \<and>
    (\<forall>got n. in_body c' got n = in_body c got n)"
proof -
  let ?c = "c\<lparr>storeRemainLen := (storeRemainLen c)[remainLenIndex c := b], remainLenIndex := remainLenIndex c + 1\<rparr>"
  have up: "(pre @ replicate (4 - length pre) 0)[length pre := b] = (pre @ [b]) @ replicate (4 - length (pre @ [b])) 0"
    using assms(2) by (cases "4 - length pre") (auto simp: list_update_append)
  have "codec_byte alloc c b = Some (0, [], ?c)"
    using assms by (simp add: codec_byte_def in_length_def prepareheaderDataInfo_def)
  moreover have "in_length (pre @ [b]) ?c"
    using assms up by (simp add: in_length_def)
  moreover have "\<forall>got n. in_body ?c got n = in_body c got n"
    by (simp add: in_body_def)
  ultimately show ?thesis by blast
qed

lemma codec_byte_length_last:
  assumes c: "in_length pre c" and "length pre < 3" and b: "b < 0x7f"
    and d: "decode_remain_len (pre @ [b] @ replicate (3 - length pre) 0) 0 1 0 = Some (0, n)"
    and n: "0 < n" "alloc n"
  shows "codec_byte alloc c b = Some (0, [], in_body c [] n)"
proof -
  have up: "(pre @ replicate (4 - length pre) 0)[length pre := b] = pre @ [b] @ replicate (3 - length pre) 0"
    using assms(2) by (cases "4 - length pre") (auto simp: list_update_append)
  have pb: "BUFFER_pre_build alloc empty_buffer n = (0, buf_set empty_buffer (filled [] n))"
    using n by (simp add: BUFFER_pre_build_def empty_buffer_def buf_set_def filled_def)
  have "prepareheaderDataInfo alloc c b = Some (0, in_body c [] n)"
    using assms up d pb by (simp add: in_length_def prepareheaderDataInfo_def in_body_def)
  with c show ?thesis
    by (simp add: codec_byte_def in_length_def in_body_def)
qed

lemma feed_length:
  assumes "in_length pre c" and "length pre + length (rl_encode m) \<le> 3" and "top_digit m < 127"
    and "pre @ rl_encode m = rl_encode n" and "0 < n" and "alloc n"
  shows "mqtt_codec_bytesReceived alloc c (rl_encode m) = Some (0, [], in_body c [] n)"
  using assms(1-4)
proof (induction m arbitrary: pre c rule: rl_encode.induct)
  case (1 m)
  show ?case
  proof (cases "m < 128")
    case True
    then have m: "m < 127" using "1.prems"(3) by (simp add: top_digit_small)
    have rl: "rl_encode m = [of_nat m]" using True by (rule rl_encode_small)
    have "decode_remain_len (pre @ [of_nat m] @ replicate (3 - length pre) 0) 0 1 0 = Some (0, n)"
      using decode_rl_encode[of "[]" 0 n "replicate (3 - length pre) 0" 0] "1.prems"(2,4) rl
      by (metis append.assoc append_Nil add_0 length_append list.size(3) power_0 mult_1_right)
    then have "codec_byte alloc c (of_nat m) = Some (0, [], in_body c [] n)"
      using codec_byte_length_last[OF "1.prems"(1), of "of_nat m" n alloc] "1.prems"(2) rl m assms(5,6)
      by (simp add: length_byte_less)
    then show ?thesis by (simp add: rl)
  next
    case False
    let ?b = "of_nat (m mod 128 + 128) :: u8"
    have rl: "rl_encode m = ?b # rl_encode (m div 128)" using False by (simp add: rl_encode_step)
    have b: "\<not> ?b < 0x7f" by (subst length_byte_less) simp_all
    obtain c' where c': "codec_byte alloc c ?b = Some (0, [], c')" "in_length (pre @ [?b]) c'"
        "in_body c' [] n = in_body c [] n"
      using codec_byte_length_more[OF "1.prems"(1) _ b, of alloc] "1.prems"(2) rl by auto
    have "mqtt_codec_bytesReceived alloc c' (rl_encode (m div 128)) = Some (0, [], in_body c' [] n)"
      by (rule "1.IH"[OF False c'(2)]) (use "1.prems" rl False in \<open>auto simp: top_digit_step\<close>)
    with c' show ?thesis by (simp add: rl)
  qed
qed

lemma bind_event: "x \<bind> (\<lambda>(ev, c). Some (0, [ev], c)) = map_option (\<lambda>(ev, c). (0, [ev], c)) x"
  by (cases x) auto

lemma codec_byte_body:
  assumes "length got < n"
  shows "codec_byte alloc (in_body c got n) b =
    (if length got + 1 < n then Some (0, [], in_body c (got @ [b]) n)
     else map_option (\<lambda>(ev, c). (0, [ev], c)) (completePacketData alloc (in_body c (got @ [b]) n)))"
proof -
  let ?m = "filled got (n - length got)"
  have p: "poke ?m (length got) b = Some (filled (got @ [b]) (n - length (got @ [b])))"
    using assms by (simp add: poke_filled)
  have u: "BUFFER_u_char (Some (buf_set empty_buffer ?m)) = Some ?m"
    using assms by (simp add: filled_def)
  have s: "(buf_set empty_buffer ?m)\<lparr>buffer := Some (filled (got @ [b]) (n - length (got @ [b])))\<rparr> =
      buf_set empty_buffer (filled (got @ [b]) (n - length (got @ [b])))"
    using assms by (intro buf_set_update) simp
  show ?thesis
    using assms p u s
    by (auto simp: codec_byte_def in_body_def bind_event split: option.splits)
qed

lemma feed_body:
  "length got + length bs = n \<Longrightarrow> bs \<noteq> [] \<Longrightarrow>
   mqtt_codec_bytesReceived alloc (in_body c got n) bs =
     map_option (\<lambda>(ev, c). (0, [ev], c)) (completePacketData alloc (in_body c (got @ bs) n))"
proof (induction bs arbitrary: got)
  case (Cons b bs)
  show ?case
  proof (cases "bs = []")
    case True
    with Cons.prems show ?thesis
      by (cases "completePacketData alloc (in_body c (got @ [b]) n)") (auto simp: codec_byte_body)
  next
    case False
    then have "0 < length bs" by simp
    then have "length got + 1 < n" using Cons.prems(1) by (simp del: length_greater_0_conv)
    then show ?thesis
      using Cons.IH[of "got @ [b]"] Cons.prems False
      by (cases "completePacketData alloc (in_body c (got @ b # bs) n)") (auto simp: codec_byte_body)
  qed
qed simp


lemma feed_body_partial:
  "length got + length bs < n \<Longrightarrow>
   mqtt_codec_bytesReceived alloc (in_body c got n) bs = Some (0, [], in_body c (got @ bs) n)"
proof (induction bs arbitrary: got)
  case (Cons b bs)
  then have "length got + 1 < n" by simp
  then show ?case using Cons.IH[of "got @ [b]"] Cons.prems by (simp add: codec_byte_body)
qed simp

section \<open>One packet\<close>

definition started :: "mqtt_codec \<Rightarrow> u8 \<Rightarrow> mqtt_codec" where
  "started c h = c\<lparr>currPacket := ucast (h AND 0xf0), headerFlags := h AND 0xf\<rparr>"

lemma codec_byte_start: "codec_idle c \<Longrightarrow> codec_byte alloc c h = Some (0, [], started c h)"
  by (simp add: codec_byte_def codec_idle_def processControlPacketType_def PACKET_TYPE_BYTE_def FLAG_VALUE_BYTE_def
      started_def)

lemma unat_high_nibble: "unat (h AND 0xf0 :: u8) \<in> set (map ((*) 16) [0..<16])"
proof -
  have "\<forall>k \<in> set [0..<256]. unat ((of_nat k :: u8) AND 0xf0) \<in> set (map ((*) 16) [0..<16])"
    by code_simp
  moreover have "unat h < 2 ^ LENGTH(8)" by (rule unsigned_less)
  then have "unat h \<in> set [0..<256]" by simp
  ultimately have "unat ((of_nat (unat h) :: u8) AND 0xf0) \<in> set (map ((*) 16) [0..<16])" by blast
  then show ?thesis by simp
qed

lemma unat_ucast_u32: "unat (ucast (b :: u8) :: u32) = unat b"
proof -
  have "unat b < 2 ^ LENGTH(8)" by (rule unsigned_less)
  then have "unat b < 2 ^ 32" by simp
  then show ?thesis by (simp add: unsigned_ucast_eq take_bit_nat_eq_self)
qed

lemma started_type:
  assumes "h AND 0xf0 \<noteq> 0xD0"
  shows "currPacket (started c h) \<notin> {UNKNOWN_TYPE, PINGRESP_TYPE, PACKET_TYPE_ERROR}"
proof -
  have k: "unat (ucast (h AND 0xf0) :: u32) = unat (h AND 0xf0)"
    by (rule unat_ucast_u32)
  have "unat (h AND 0xf0) \<noteq> unat (0xD0 :: u8)" using assms by (metis unsigned_word_eqI)
  then have "unat (h AND 0xf0) \<noteq> 0xD0" by simp
  then have "unat (currPacket (started c h)) \<notin> {0xE2, 0xD0, 0xE1}"
    using unat_high_nibble[of h] k by (auto simp: started_def) presburger+
  then show ?thesis by (auto simp: mqtt_consts)
qed

lemma receive_frame:
  assumes "codec_idle c" and "body \<noteq> []" and "length body < 128 ^ 3" and "top_digit (length body) \<noteq> 127"
    and "h AND 0xf0 \<noteq> 0xD0" and "alloc (length body)"
  shows "mqtt_codec_bytesReceived alloc c (h # rl_encode (length body) @ body) =
    map_option (\<lambda>(ev, c). (0, [ev], c)) (completePacketData alloc (in_body (started c h) body (length body)))"
proof -
  let ?d = "started c h" and ?n = "length body"
  have top: "top_digit ?n < 127" using top_digit_less[of ?n] assms(4) by linarith
  have "in_length [] ?d"
    using assms(1) started_type[OF assms(5), of c] by (simp add: in_length_def codec_idle_def started_def)
  then have l: "mqtt_codec_bytesReceived alloc ?d (rl_encode ?n) = Some (0, [], in_body ?d [] ?n)"
    using feed_length[of "[]" ?d ?n ?n alloc] length_rl_encode_le[of 3 ?n] assms top by simp
  have b: "mqtt_codec_bytesReceived alloc (in_body ?d [] ?n) body =
      map_option (\<lambda>(ev, c). (0, [ev], c)) (completePacketData alloc (in_body ?d body ?n))"
    using feed_body[of "[]" body ?n alloc ?d] assms(2) by simp
  show ?thesis
    using l b
    by (cases "completePacketData alloc (in_body ?d body ?n)")
      (auto simp: codec_byte_start[OF assms(1)] bytesReceived_append)
qed

lemma in_length_started:
  "codec_idle c \<Longrightarrow> h AND 0xf0 \<noteq> 0xD0 \<Longrightarrow> in_length [] (started c h)"
  using started_type[of h c] by (simp add: in_length_def codec_idle_def started_def)

text \<open>
  A packet with a remaining length of exactly 127 is not recognised: \<^verbatim>\<open>0x7f\<close> is not taken as
  the last length byte, the first byte of the body is, so the decoder still waits for a body
  byte when the packet ends, and has delivered nothing.
\<close>

theorem mqtt_codec_length_127_lost:
  assumes "codec_idle c" and "h AND 0xf0 \<noteq> 0xD0" and "length body = 127" and "hd body < 0x7f" and "alloc 127"
  shows "mqtt_codec_bytesReceived alloc c (h # rl_encode (length body) @ body) =
    Some (0, [], in_body (started c h) (tl body) 127)"
proof -
  obtain b rest where body: "body = b # rest" using assms(3) by (cases body) auto
  have s: "in_length [] (started c h)" using assms(1,2) by (rule in_length_started)
  obtain d where d: "codec_byte alloc (started c h) 0x7f = Some (0, [], d)" "in_length [0x7f] d"
      "\<forall>got n. in_body d got n = in_body (started c h) got n"
    using codec_byte_length_more[OF s, of "0x7f" alloc] by auto
  have "decode_remain_len ([0x7f] @ [b] @ replicate (3 - length [0x7f :: u8]) 0) 0 1 0 = Some (0, 127)"
    by (subst decode_remain_len.simps) (simp add: Let_def)
  then have l: "codec_byte alloc d b = Some (0, [], in_body d [] 127)"
    using codec_byte_length_last[OF d(2), of b 127 alloc] assms(4,5) body by simp
  have "mqtt_codec_bytesReceived alloc (in_body (started c h) [] 127) rest = Some (0, [], in_body (started c h) rest 127)"
    using feed_body_partial[of "[]" rest 127 alloc] assms(3) body by simp
  then show ?thesis
    using assms(3) body d l by (simp add: codec_byte_start[OF assms(1)] rl_encode_small)
qed

theorem mqtt_codec_length_127_lost_witness:
  "mqtt_codec_bytesReceived (\<lambda>_. True) mqtt_codec_init (0x30 # rl_encode 127 @ replicate 127 0) =
    Some (0, [], in_body (started mqtt_codec_init 0x30) (replicate 126 0) 127)"
proof -
  define body where "body = replicate 127 (0 :: u8)"
  have b: "length body = 127" "hd body < 0x7f" by (simp_all add: body_def)
  have t: "tl body = replicate 126 0" by (simp add: body_def)
  have "(0x30 :: u8) AND 0xf0 \<noteq> 0xD0" by simp
  then show ?thesis
    using mqtt_codec_length_127_lost[of mqtt_codec_init "0x30" body "\<lambda>_. True"] b
    unfolding body_def[symmetric] t[symmetric] by simp
qed

end
