(* ===== verification/Mqtt_Delivery.thy ===== *)
theory Mqtt_Delivery
  imports Mqtt_Framing
begin

text \<open>
  What the decoder of \<^verbatim>\<open>iot/mqtt_codec.c\<close> delivers: packets the encoder built come back as the
  message they were built from, and the packets that are not read back, or make the decoder
  leave its block, are described exactly.
\<close>

unbundle bit_operations_syntax

section \<open>Reading a complete body\<close>

lemma be16_read: "256 * ucast (ucast (v div 256) :: u8) + ucast (ucast (v mod 256) :: u8) = (v :: u16)"
proof -
  have h: "256 * ucast (ucast (v div 256) :: u8) = push_bit 8 (ucast (ucast (drop_bit 8 v) :: u8) :: u16)"
    by (simp add: push_bit_eq_mult drop_bit_eq_div)
  have l: "v mod 256 = take_bit 8 v" by (simp add: take_bit_eq_mod)
  have d: "push_bit 8 (ucast (ucast (drop_bit 8 v) :: u8) :: u16) AND ucast (ucast (take_bit 8 v) :: u8) = 0"
    by (rule bit_word_eqI) (auto simp: bit_simps)
  have "256 * ucast (ucast (v div 256) :: u8) + ucast (ucast (v mod 256) :: u8) =
      (push_bit 8 (ucast (ucast (drop_bit 8 v) :: u8) :: u16)) OR ucast (ucast (take_bit 8 v) :: u8)"
    unfolding h l using d by (simp add: disjunctive_add_eq_or)
  also have "\<dots> = v"
    by (rule bit_word_eqI) (auto simp: bit_simps)
  finally show ?thesis .
qed

lemma read_uint16_at:
  assumes "i = length pre" and "2 \<le> n"
  shows "byteutil_read_uint16 (Some (map Some (pre @ be16 v @ rest)), i) n =
    Some (v, (Some (map Some (pre @ be16 v @ rest)), i + 2))"
proof -
  have a: "deref (Some (map Some (pre @ be16 v @ rest)), i) 0 = Some (ucast (v div 256))"
    using assms by (simp add: deref_def peek_def be16_def nth_append)
  have b: "deref (Some (map Some (pre @ be16 v @ rest)), i) 1 = Some (ucast (v mod 256))"
    using assms by (simp add: deref_def peek_def be16_def nth_append)
  show ?thesis
    unfolding byteutil_read_uint16_def if_P[OF assms(2)] a b by (simp add: be16_read)
qed

lemma readUTF_at:
  assumes t: "t \<noteq> []" "length t \<le> USHRT_MAX" and a: "alloc (length t + 1)"
  shows "byteutil_readUTF alloc (Some (map Some (utf t @ rest)), 0) =
    Some (Some t, of_nat (length t), (Some (map Some (utf t @ rest)), 2 + length t))"
proof -
  let ?n = "of_nat (length t) :: u16"
  have n: "unat ?n = length t" using t(2) by (simp add: unat_of_nat USHRT_MAX_def)
  then have pos: "0 < ?n" using t(1) by (simp add: word_greater_zero_iff unat_eq_0[symmetric])
  have "byteutil_read_uint16 (Some (map Some (utf t @ rest)), 0) 2 = Some (?n, (Some (map Some (utf t @ rest)), 2))"
    using read_uint16_at[of 0 "[]" 2 ?n "t @ rest"] by (simp add: utf_def)
  moreover have "copy_out (map Some (utf t @ rest)) 2 (length t) = Some (map Some t)"
    using t(1) by (auto simp: copy_out_def utf_def)
  ultimately show ?thesis using n pos a by (simp add: byteutil_readUTF_def)
qed

lemma full_length [simp]: "BUFFER_length (Some (headerData (in_body c body (length body)))) = length body"
  by (simp add: in_body_def)

lemma full_u_char [simp]:
  "body \<noteq> [] \<Longrightarrow> BUFFER_u_char (Some (headerData (in_body c body (length body)))) = Some (map Some body)"
  by (simp add: in_body_def filled_full)

lemma in_body_fields [simp]:
  "currPacket (in_body c got n) = currPacket c" "headerFlags (in_body c got n) = headerFlags c"
  by (simp_all add: in_body_def)

lemma decode_tag_publish:
  "body \<noteq> [] \<Longrightarrow> currPacket c = PUBLISH_TYPE \<Longrightarrow>
   decode_tag alloc (in_body c body (length body)) =
     decode_publish alloc (headerFlags c) (Some (map Some body), 0) (length body)"
  by (simp add: decode_tag_def Let_def) (simp add: mqtt_consts)

lemma decode_tag_unsuback:
  "body \<noteq> [] \<Longrightarrow> currPacket c = UNSUBACK_TYPE \<Longrightarrow>
   decode_tag alloc (in_body c body (length body)) =
     byteutil_read_uint16 (Some (map Some body), 2) (length body) \<bind> (\<lambda>(pid, it). Some (Tag_unsuback pid))"
  by (simp add: decode_tag_def Let_def VARIABLE_HEADER_OFFSET_def del: add_2_eq_Suc add_2_eq_Suc')
    (simp add: mqtt_consts)

lemma decode_tag_cong:
  "currPacket c = currPacket d \<Longrightarrow> headerFlags c = headerFlags d \<Longrightarrow> headerData c = headerData d \<Longrightarrow>
   decode_tag alloc c = decode_tag alloc d"
  by (simp add: decode_tag_def Let_def)

section \<open>Publish\<close>

lemma decode_publish_at:
  assumes t: "t \<noteq> []" "length t \<le> USHRT_MAX" and a: "alloc (length t + 1)"
    and i: "ids = (if publish_qos_of_flags fl \<noteq> DELIVER_AT_MOST_ONCE then be16 pid else [])"
    and n: "length (utf t @ ids @ p) < size_mod"
  shows "decode_publish alloc fl (Some (map Some (utf t @ ids @ p)), 0) (length (utf t @ ids @ p)) =
    Some (Tag_publish \<lparr>packetId = (if publish_qos_of_flags fl \<noteq> DELIVER_AT_MOST_ONCE then pid else 0),
      topicLen = Some (of_nat (length t)), topicName = Some t, qosInfo = publish_qos_of_flags fl,
      message = Some (map Some p), msg_length = length p,
      isDuplicate = (fl AND PUBLISH_DUP_FLAG \<noteq> 0), isRetained = (fl AND PUBLISH_QOS_RETAIN \<noteq> 0)\<rparr>)"
proof -
  let ?m = "map Some (utf t @ ids @ p)" and ?len = "length (utf t @ ids @ p)"
  note u = readUTF_at[OF t, of alloc "ids @ p", OF a]
  have s1: "size_sub ?len (2 + length t) = length ids + length p" using n by (simp add: size_sub_le)
  have s2: "size_sub ?len (2 + length t + length ids) = length p" using n by (simp add: size_sub_le)
  have d: "drop (2 + length t + length ids) ?m = map Some p" by simp
  show ?thesis
  proof (cases "publish_qos_of_flags fl = DELIVER_AT_MOST_ONCE")
    case True
    then show ?thesis using u s2 d i unfolding decode_publish_def by simp
  next
    case False
    then have ids: "ids = be16 pid" using i by simp
    have r: "byteutil_read_uint16 (Some ?m, 2 + length t) (length ids + length p) =
        Some (pid, (Some ?m, 2 + length t + 2))"
      using read_uint16_at[of "2 + length t" "utf t" "length ids + length p" pid p] ids by simp
    show ?thesis
      using False u r s1 s2 d ids unfolding decode_publish_def by simp
  qed
qed

text \<open>The flags that the encoder writes for a message and what the decoder makes of them.\<close>

definition qos_kept :: "publish_msg \<Rightarrow> bool" where
  "qos_kept msg = (qosInfo msg = DELIVER_AT_LEAST_ONCE \<or> qosInfo msg = DELIVER_EXACTLY_ONCE \<or>
     qosInfo msg = DELIVER_AT_MOST_ONCE \<and> \<not> isDuplicate msg \<and> \<not> isRetained msg)"

lemma publish_flags_low: "publish_flags msg AND 0xf = publish_flags msg"
  by (simp add: publish_flags_def Let_def publish_flag_defs)

lemma publish_flags_read:
  assumes "qos_kept msg"
  shows "publish_qos_of_flags (publish_flags msg) = qosInfo msg"
    and "(publish_flags msg AND PUBLISH_DUP_FLAG \<noteq> 0) = isDuplicate msg"
    and "(publish_flags msg AND PUBLISH_QOS_RETAIN \<noteq> 0) = isRetained msg"
proof -
  show "publish_qos_of_flags (publish_flags msg) = qosInfo msg"
    using assms
    by (cases "isDuplicate msg"; cases "isRetained msg";
        auto simp: qos_kept_def publish_qos_of_flags_def publish_flags_def publish_flag_defs mqtt_consts)
  show "(publish_flags msg AND PUBLISH_DUP_FLAG \<noteq> 0) = isDuplicate msg"
    by (simp add: publish_flags_def Let_def publish_flag_defs)
  show "(publish_flags msg AND PUBLISH_QOS_RETAIN \<noteq> 0) = isRetained msg"
    by (simp add: publish_flags_def Let_def publish_flag_defs)
qed


section \<open>Packets of the encoder\<close>

lemma header_byte_split:
  fixes ty fl :: u8
  assumes "ty AND 0xf0 = ty" and "fl AND 0xf = fl"
  shows "(ty OR fl) AND 0xf0 = ty \<and> (ty OR fl) AND 0xf = fl"
proof -
  have "fl AND 0xf0 = fl AND (0xf AND 0xf0)" using assms(2) by (metis and.assoc)
  moreover have "ty AND 0xf = ty AND (0xf0 AND 0xf)" using assms(1) by (metis and.assoc)
  ultimately show ?thesis using assms by (simp add: bit.conj_disj_distrib2)
qed

lemma started_header:
  assumes "ucast type AND 0xf0 = (ucast type :: u8)" and "ucast (ucast type :: u8) = type" and "fl AND 0xf = fl"
  shows "started c (ucast type OR fl) = c\<lparr>currPacket := type, headerFlags := fl\<rparr>"
  using header_byte_split[OF assms(1,3)] assms(2) by (simp add: started_def)

text \<open>The rule for a packet whose type the completion routine knows how to read.\<close>

lemma receive_packet:
  assumes c: "codec_idle c" and b: "body \<noteq> []" "length body < 128 ^ 3" "top_digit (length body) \<noteq> 127" "alloc (length body)"
    and ty: "ucast type AND 0xf0 = (ucast type :: u8)" "ucast (ucast type :: u8) = type" "type \<noteq> PINGRESP_TYPE"
    and fl: "fl AND 0xf = fl"
    and d: "decode_tag alloc (in_body (c\<lparr>currPacket := type, headerFlags := fl\<rparr>) body (length body)) = Some tag"
  shows "\<exists>c'. mqtt_codec_bytesReceived alloc c (packet type fl body) =
      Some (0, [\<lparr>ev_packet = type, ev_flags = fl, ev_header = Some (map Some body), ev_tag = tag\<rparr>], c') \<and> codec_idle c'"
proof -
  let ?d = "in_body (c\<lparr>currPacket := type, headerFlags := fl\<rparr>) body (length body)"
  have h: "(ucast type OR fl) AND 0xf0 \<noteq> (0xD0 :: u8)"
  proof
    assume "(ucast type OR fl) AND 0xf0 = (0xD0 :: u8)"
    then have "(ucast type :: u8) = 0xD0" using header_byte_split[OF ty(1) fl] by simp
    then have "type = ucast (0xD0 :: u8)" using ty(2) by metis
    then show False using ty(3) by (simp add: PINGRESP_TYPE_def)
  qed
  have "completePacketData alloc ?d =
      Some (\<lparr>ev_packet = type, ev_flags = fl, ev_header = Some (map Some body), ev_tag = tag\<rparr>, codec_reset ?d)"
    using d b(1) by (simp add: completePacketData_def in_body_def filled_full)
  then show ?thesis
    using receive_frame[OF c b(1-3) h, of alloc, OF b(4)] codec_idle_reset started_header[OF ty(1,2) fl, of c]
    by (simp add: packet_def)
qed

lemma packet_type_byte:
  "type \<in> {CONNACK_TYPE, PUBLISH_TYPE, PUBACK_TYPE, PUBREC_TYPE, PUBREL_TYPE, PUBCOMP_TYPE, SUBACK_TYPE, UNSUBACK_TYPE} \<Longrightarrow>
   ucast type AND 0xf0 = (ucast type :: u8) \<and> ucast (ucast type :: u8) = type \<and> type \<noteq> PINGRESP_TYPE"
  by (auto simp: mqtt_consts)




lemma publish_flags_retained:
  "qosInfo msg = DELIVER_AT_MOST_ONCE \<Longrightarrow> isRetained msg \<Longrightarrow>
   publish_qos_of_flags (publish_flags msg) = DELIVER_EXACTLY_ONCE"
  by (cases "isDuplicate msg") (simp_all add: publish_qos_of_flags_def publish_flags_def publish_flag_defs mqtt_consts)

text \<open>
  A retained message with quality of service 0 does not come back as it was sent: the
  decoder takes it for quality of service 2 and the first two payload bytes for its packet id,
  so the payload delivered is two bytes short.
\<close>

theorem mqtt_publish_retained_misread:
  assumes "codec_idle c" and t: "t \<noteq> []" "length t \<le> USHRT_MAX"
    and m: "qosInfo msg = DELIVER_AT_MOST_ONCE" "isRetained msg"
    and n: "length (publish_header t msg @ be16 x @ p) < 128 ^ 3"
      "top_digit (length (publish_header t msg @ be16 x @ p)) \<noteq> 127"
    and a: "\<And>k. alloc k"
  shows "\<exists>c' ev pub. mqtt_codec_bytesReceived alloc c (publish_packet t (be16 x @ p) msg) = Some (0, [ev], c') \<and>
    ev_tag ev = Tag_publish pub \<and> qosInfo pub = DELIVER_EXACTLY_ONCE \<and> packetId pub = x \<and>
    message pub = Some (map Some p) \<and> msg_length pub = length p"
proof -
  define body where "body = utf t @ be16 x @ p"
  have h: "publish_header t msg @ be16 x @ p = body" using m(1) by (simp add: publish_header_def body_def)
  have ne: "body \<noteq> []" by (simp add: body_def utf_def be16_def)
  have q: "publish_qos_of_flags (publish_flags msg) = DELIVER_EXACTLY_ONCE" using m by (rule publish_flags_retained)
  have ids: "be16 x = (if publish_qos_of_flags (publish_flags msg) \<noteq> DELIVER_AT_MOST_ONCE then be16 x else [])"
    by (simp add: q mqtt_consts)
  have sz: "length body < size_mod" using n(1) h by (simp add: size_mod_eq)
  note d = decode_publish_at[OF t, of alloc "be16 x" "publish_flags msg" x p, OF a ids, folded body_def, OF sz, unfolded q]
  obtain tag where tag: "decode_publish alloc (publish_flags msg) (Some (map Some body), 0) (length body) = Some tag"
    and pub: "\<exists>pub. tag = Tag_publish pub \<and> qosInfo pub = DELIVER_EXACTLY_ONCE \<and> packetId pub = x \<and>
      message pub = Some (map Some p) \<and> msg_length pub = length p"
    using d by (auto simp: mqtt_consts)
  have "\<exists>c'. mqtt_codec_bytesReceived alloc c (packet PUBLISH_TYPE (publish_flags msg) body) =
      Some (0, [\<lparr>ev_packet = PUBLISH_TYPE, ev_flags = publish_flags msg, ev_header = Some (map Some body), ev_tag = tag\<rparr>], c')
      \<and> codec_idle c'"
    by (rule receive_packet[OF assms(1) ne])
      (use n a h publish_flags_low[of msg] packet_type_byte[of PUBLISH_TYPE] tag decode_tag_publish[OF ne] in simp_all)
  with pub show ?thesis
    using publish_packet_eq[of msg t "be16 x @ p"] m(1) h by (auto simp: mqtt_consts)
qed

theorem mqtt_publish_retained_misread_witness:
  "\<exists>c' ev pub msg. qosInfo msg = DELIVER_AT_MOST_ONCE \<and>
    mqtt_codec_bytesReceived (\<lambda>_. True) mqtt_codec_init (publish_packet [0x61] (be16 0x6869) msg) = Some (0, [ev], c') \<and>
    ev_tag ev = Tag_publish pub \<and> qosInfo pub = DELIVER_EXACTLY_ONCE \<and> packetId pub = 0x6869 \<and>
    message pub = Some [] \<and> msg_length pub = 0"
proof -
  define m where "m = \<lparr>packetId = 0, topicLen = None, topicName = Some [0x61], qosInfo = DELIVER_AT_MOST_ONCE,
    message = Some [], msg_length = 0, isDuplicate = False, isRetained = True\<rparr>"
  have m: "qosInfo m = DELIVER_AT_MOST_ONCE" "isRetained m" by (simp_all add: m_def)
  have l: "length (publish_header [0x61] m @ be16 0x6869 @ []) = 5"
    using m by (simp add: publish_header_def)
  have "\<exists>c' ev pub. mqtt_codec_bytesReceived (\<lambda>_. True) mqtt_codec_init (publish_packet [0x61] (be16 0x6869 @ []) m) =
      Some (0, [ev], c') \<and>
    ev_tag ev = Tag_publish pub \<and> qosInfo pub = DELIVER_EXACTLY_ONCE \<and> packetId pub = 0x6869 \<and>
    message pub = Some (map Some []) \<and> msg_length pub = length ([] :: u8 list)"
    by (rule mqtt_publish_retained_misread) (unfold l, simp_all add: m USHRT_MAX_def top_digit_small)
  with m(1) show ?thesis by auto
qed

section \<open>Acknowledgements of a broker\<close>

lemma top_digit_2: "top_digit 2 = 2"
  by (simp add: top_digit_small)

lemma decode_tag_ack:
  assumes "type \<in> {PUBACK_TYPE, PUBREC_TYPE, PUBREL_TYPE, PUBCOMP_TYPE}" and "currPacket c = type"
  shows "decode_tag alloc (in_body c (be16 pid) (length (be16 pid))) = Some (Tag_publish_ack pid)"
proof -
  have "be16 pid \<noteq> []" by (simp add: be16_def)
  then show ?thesis
    using assms read_uint16_at[of 0 "[]" 2 pid "[]"] full_u_char[of "be16 pid" c] full_length[of c "be16 pid"]
    unfolding decode_tag_def Let_def by (auto simp: mqtt_consts)
qed

lemma decode_tag_suback:
  assumes "currPacket c = SUBACK_TYPE" and "length qs + 2 < size_mod"
  shows "decode_tag alloc (in_body c (be16 pid @ qs) (length (be16 pid @ qs))) =
    Some (Tag_suback pid (map Some qs) (length qs))"
proof -
  have "be16 pid @ qs \<noteq> []" by (simp add: be16_def)
  moreover have "size_sub (length (be16 pid @ qs)) 2 = length qs" using assms(2) by (simp add: size_sub_le)
  ultimately show ?thesis
    using assms(1) read_uint16_at[of 0 "[]" "length (be16 pid @ qs)" pid qs]
      full_u_char[of "be16 pid @ qs" c] full_length[of c "be16 pid @ qs"]
    unfolding decode_tag_def Let_def by (simp add: mqtt_consts)
qed

lemma decode_tag_connack:
  "currPacket c = CONNACK_TYPE \<Longrightarrow>
   decode_tag alloc (in_body c [sp, code] (length [sp, code])) = Some (Tag_connack (sp = 1) (ucast code))"
  using full_u_char[of "[sp, code]" c] full_length[of c "[sp, code]"]
  unfolding decode_tag_def Let_def by (simp add: byteutil_readByte_def deref_def peek_def)

text \<open>The packets as they are on the wire: the type in the upper half of the first byte, the flags in the lower half.\<close>

definition wire_packet :: "nat \<Rightarrow> u8 \<Rightarrow> u8 list \<Rightarrow> u8 list" where
  "wire_packet type fl body = (of_nat (16 * type) + fl) # rl_encode (length body) @ body"

lemma wire_packet_eq:
  assumes "fl AND 0xf = fl" and "ucast code = (of_nat (16 * type) :: u8)"
  shows "wire_packet type fl body = packet code fl body"
proof -
  have "(of_nat (16 * type) :: u8) = push_bit 4 (of_nat type)" by (simp add: push_bit_eq_mult)
  then have "(of_nat (16 * type) :: u8) AND fl = (push_bit 4 (of_nat type) AND 0xf) AND fl"
    using assms(1) by (metis and.assoc and.commute)
  moreover have "push_bit 4 (of_nat type :: u8) AND mask 4 = 0" by (rule bit_word_eqI) (auto simp: bit_simps)
  then have "push_bit 4 (of_nat type :: u8) AND 0xf = 0" by (simp add: mask_eq_exp_minus_1)
  ultimately have "(of_nat (16 * type) :: u8) AND fl = 0" by simp
  then have "(of_nat (16 * type) :: u8) + fl = of_nat (16 * type) OR fl" by (simp add: disjunctive_add_eq_or)
  then show ?thesis by (simp add: wire_packet_def packet_def assms(2))
qed

lemma wire_packet_codes:
  assumes "fl AND 0xf = fl"
  shows "wire_packet 2 fl body = packet CONNACK_TYPE fl body" "wire_packet 4 fl body = packet PUBACK_TYPE fl body"
    "wire_packet 5 fl body = packet PUBREC_TYPE fl body" "wire_packet 6 fl body = packet PUBREL_TYPE fl body"
    "wire_packet 7 fl body = packet PUBCOMP_TYPE fl body" "wire_packet 9 fl body = packet SUBACK_TYPE fl body"
  by (rule wire_packet_eq[OF assms]; simp add: mqtt_consts)+

text \<open>
  C31: an idle decoder that is given a CONNACK with two bytes, a PUBACK, PUBREC, PUBREL or PUBCOMP with a packet id,
  or a SUBACK with a packet id and any number of return codes, delivers one event with the type, the flags, the whole body
  and what is in it (the session flag and return code, the packet id, the packet id and the return codes), reports no
  error and is idle again.  For the SUBACK its remaining length has to be one that the decoder reads: below \<open>128 ^ 3\<close>,
  and its last digit to the base 128 is not 127.
\<close>

theorem mqtt_codec_receives_replies:
  assumes c: "codec_idle c" and a: "\<And>k. alloc k" and fl: "fl AND 0xf = fl"
    and ty: "(n, type) \<in> {(4, PUBACK_TYPE), (5, PUBREC_TYPE), (6, PUBREL_TYPE), (7, PUBCOMP_TYPE)}"
    and q: "length qs + 2 < 128 ^ 3" "top_digit (length qs + 2) \<noteq> 127"
  shows "(\<exists>c'. mqtt_codec_bytesReceived alloc c (wire_packet n fl (be16 pid)) =
      Some (0, [\<lparr>ev_packet = type, ev_flags = fl, ev_header = Some (map Some (be16 pid)), ev_tag = Tag_publish_ack pid\<rparr>], c')
      \<and> codec_idle c') \<and>
    (\<exists>c'. mqtt_codec_bytesReceived alloc c (wire_packet 2 fl [sp, code]) =
      Some (0, [\<lparr>ev_packet = CONNACK_TYPE, ev_flags = fl, ev_header = Some (map Some [sp, code]),
                ev_tag = Tag_connack (sp = 1) (ucast code)\<rparr>], c') \<and> codec_idle c') \<and>
    (\<exists>c'. mqtt_codec_bytesReceived alloc c (wire_packet 9 fl (be16 pid @ qs)) =
      Some (0, [\<lparr>ev_packet = SUBACK_TYPE, ev_flags = fl, ev_header = Some (map Some (be16 pid @ qs)),
                ev_tag = Tag_suback pid (map Some qs) (length qs)\<rparr>], c') \<and> codec_idle c')"
proof -
  have ne: "be16 pid \<noteq> []" "be16 pid @ qs \<noteq> []" by (simp_all add: be16_def)
  have t: "ucast type AND 0xf0 = (ucast type :: u8) \<and> ucast (ucast type :: u8) = type \<and> type \<noteq> PINGRESP_TYPE"
    using ty by (intro packet_type_byte) auto
  have ack: "type \<in> {PUBACK_TYPE, PUBREC_TYPE, PUBREL_TYPE, PUBCOMP_TYPE}" using ty by auto
  have w: "wire_packet n fl (be16 pid) = packet type fl (be16 pid)" using ty wire_packet_codes[OF fl] by auto
  show ?thesis
    unfolding w wire_packet_codes(1,6)[OF fl]
  proof (intro conjI)
    show "\<exists>c'. mqtt_codec_bytesReceived alloc c (packet type fl (be16 pid)) =
        Some (0, [\<lparr>ev_packet = type, ev_flags = fl, ev_header = Some (map Some (be16 pid)), ev_tag = Tag_publish_ack pid\<rparr>], c')
        \<and> codec_idle c'"
      by (rule receive_packet[OF c ne(1)]) (use a fl t decode_tag_ack[OF ack] in \<open>simp_all add: top_digit_2\<close>)
    show "\<exists>c'. mqtt_codec_bytesReceived alloc c (packet CONNACK_TYPE fl [sp, code]) =
        Some (0, [\<lparr>ev_packet = CONNACK_TYPE, ev_flags = fl, ev_header = Some (map Some [sp, code]),
                  ev_tag = Tag_connack (sp = 1) (ucast code)\<rparr>], c') \<and> codec_idle c'"
      by (rule receive_packet[OF c])
        (use a fl packet_type_byte[of CONNACK_TYPE] decode_tag_connack in \<open>simp_all add: top_digit_2 numeral_2_eq_2[symmetric]\<close>)
    show "\<exists>c'. mqtt_codec_bytesReceived alloc c (packet SUBACK_TYPE fl (be16 pid @ qs)) =
        Some (0, [\<lparr>ev_packet = SUBACK_TYPE, ev_flags = fl, ev_header = Some (map Some (be16 pid @ qs)),
                  ev_tag = Tag_suback pid (map Some qs) (length qs)\<rparr>], c') \<and> codec_idle c'"
      by (rule receive_packet[OF c ne(2)])
        (use a fl packet_type_byte[of SUBACK_TYPE] decode_tag_suback q in \<open>simp_all add: size_mod_eq add.commute\<close>)
  qed
qed

theorem mqtt_codec_receives_replies_witness:
  "\<exists>c'. mqtt_codec_bytesReceived (\<lambda>_. True) mqtt_codec_init (wire_packet 9 0 (be16 5 @ [1, 0x80])) =
      Some (0, [\<lparr>ev_packet = SUBACK_TYPE, ev_flags = 0, ev_header = Some (map Some (be16 5 @ [1, 0x80])),
                ev_tag = Tag_suback 5 [Some 1, Some 0x80] 2\<rparr>], c') \<and> codec_idle c'"
  using mqtt_codec_receives_replies[where c = mqtt_codec_init and alloc = "\<lambda>_. True" and fl = 0 and type = PUBACK_TYPE and n = 4
    and qs = "[1, 0x80]" and pid = 5 and sp = 0 and code = 0]
  by (simp add: top_digit_small numeral_2_eq_2)

section \<open>Memory safety of the decoder\<close>

text \<open>The bodies that can be read without leaving the block.\<close>

definition body_ok :: "c_enum \<Rightarrow> u8 list \<Rightarrow> bool" where
  "body_ok type body =
     (if type = CONNACK_TYPE then 2 \<le> length body
      else if type = PUBLISH_TYPE
      then 2 \<le> length body \<and> 2 + unat (256 * ucast (body ! 0) + ucast (body ! 1) :: u16) \<le> length body
      else if type = UNSUBACK_TYPE then length body = 1 \<or> 4 \<le> length body
      else True)"

lemma deref_full: "deref (Some (map Some body), i) k = (if i + k < length body then Some (body ! (i + k)) else None)"
  by (simp add: deref_def peek_def)

lemma read_uint16_full:
  "byteutil_read_uint16 (Some (map Some body), i) n =
     (if n < 2 then Some (0, (Some (map Some body), i))
      else if i + 2 \<le> length body
      then Some (256 * ucast (body ! i) + ucast (body ! (i + 1)), (Some (map Some body), i + 2)) else None)"
  by (auto simp: byteutil_read_uint16_def deref_full)

lemma readUTF_full:
  "byteutil_readUTF (\<lambda>_. True) (Some (map Some body), 0) =
     (let len = 256 * ucast (body ! 0) + ucast (body ! 1) :: u16
      in if length body < 2 \<or> length body < 2 + unat len then None
         else if len = 0 then Some (None, 0, (Some (map Some body), 2))
         else Some (Some (take (unat len) (drop 2 body)), len, (Some (map Some body), 2 + unat len)))"
proof (cases "length body < 2")
  case True
  then show ?thesis by (simp add: byteutil_readUTF_def read_uint16_full)
next
  case False
  define len where "len = (256 * ucast (body ! 0) + ucast (body ! 1) :: u16)"
  have r: "byteutil_read_uint16 (Some (map Some body), 0) 2 = Some (len, (Some (map Some body), 2))"
    using False by (simp add: read_uint16_full len_def)
  have z: "(0 < len) = (len \<noteq> 0)" by (simp add: word_greater_zero_iff)
  have "copy_out (map Some body) 2 (unat len) =
      (if len = 0 then Some [] else if 2 + unat len \<le> length body then Some (map Some (take (unat len) (drop 2 body))) else None)"
    by (simp add: copy_out_map_Some unat_eq_0)
  then show ?thesis
    using False unfolding byteutil_readUTF_def r Let_def len_def[symmetric] by (auto simp: z)
qed

lemma decode_publish_full:
  assumes "length body < size_mod"
  shows "decode_publish (\<lambda>_. True) fl (Some (map Some body), 0) (length body) \<noteq> None \<longleftrightarrow>
    2 \<le> length body \<and> 2 + unat (256 * ucast (body ! 0) + ucast (body ! 1) :: u16) \<le> length body"
proof -
  define len where "len = (256 * ucast (body ! 0) + ucast (body ! 1) :: u16)"
  have s: "2 + unat len \<le> length body \<Longrightarrow> size_sub (length body) (2 + unat len) = length body - (2 + unat len)"
    using assms by (simp add: size_sub_le)
  show ?thesis
    unfolding decode_publish_def readUTF_full len_def[symmetric] Let_def
    using s by (auto simp: read_uint16_full)
qed

lemma tag_in_bounds:
  assumes "body \<noteq> []" and "length body < size_mod"
  shows "decode_tag (\<lambda>_. True) (in_body c body (length body)) \<noteq> None \<longleftrightarrow> body_ok (currPacket c) body"
proof -
  have "0 < length body" using assms(1) by simp
  then have l: "length body = 1 \<or> 2 \<le> length body" by linarith
  note f = full_u_char[OF assms(1), of c] full_length[of c body]
  consider (connack) "currPacket c = CONNACK_TYPE" | (publish) "currPacket c = PUBLISH_TYPE"
    | (ack) "currPacket c \<in> {PUBACK_TYPE, PUBREC_TYPE, PUBREL_TYPE, PUBCOMP_TYPE}"
    | (suback) "currPacket c = SUBACK_TYPE" | (unsuback) "currPacket c = UNSUBACK_TYPE"
    | (other) "currPacket c \<notin> {CONNACK_TYPE, PUBLISH_TYPE, PUBACK_TYPE, PUBREC_TYPE, PUBREL_TYPE, PUBCOMP_TYPE,
        SUBACK_TYPE, UNSUBACK_TYPE}" by blast
  then show ?thesis
  proof cases
    case connack
    then show ?thesis using f l by (auto simp: decode_tag_def body_ok_def byteutil_readByte_def deref_full)
  next
    case publish
    then show ?thesis
      using decode_publish_full[OF assms(2), of "headerFlags c"] decode_tag_publish[OF assms(1) publish]
      by (simp add: body_ok_def) (simp add: mqtt_consts)
  next
    case ack
    then have "body_ok (currPacket c) body" by (auto simp: body_ok_def mqtt_consts)
    moreover have "byteutil_read_uint16 (Some (map Some body), 0) (length body) \<noteq> None"
      using l by (auto simp: read_uint16_full)
    ultimately show ?thesis
      using ack f unfolding decode_tag_def Let_def by (auto simp: mqtt_consts)
  next
    case suback
    then have "body_ok (currPacket c) body" by (simp add: body_ok_def mqtt_consts)
    moreover have "byteutil_read_uint16 (Some (map Some body), 0) (length body) \<noteq> None"
      using l by (auto simp: read_uint16_full)
    ultimately show ?thesis
      using suback f unfolding decode_tag_def Let_def by (auto simp: mqtt_consts)
  next
    case unsuback
    then have "body_ok (currPacket c) body = (length body = 1 \<or> 4 \<le> length body)"
      by (simp add: body_ok_def mqtt_consts)
    moreover have "byteutil_read_uint16 (Some (map Some body), 2) (length body) \<noteq> None \<longleftrightarrow>
        length body = 1 \<or> 4 \<le> length body"
      using l by (auto simp: read_uint16_full)
    ultimately show ?thesis
      unfolding decode_tag_unsuback[OF assms(1) unsuback]
      by (cases "byteutil_read_uint16 (Some (map Some body), 2) (length body)") auto
  next
    case other
    then show ?thesis using f by (simp add: decode_tag_def body_ok_def)
  qed
qed

text \<open>
  Reading a complete packet stays inside the received block exactly when the body is long
  enough for its type: two bytes for a CONNACK, the whole announced topic for a PUBLISH, and
  for an UNSUBACK four bytes (or one), although the two bytes of a valid one are not enough.
\<close>

theorem decode_tag_in_bounds:
  assumes "body \<noteq> []" and "length body < size_mod"
  shows "decode_tag (\<lambda>_. True) (in_body c body (length body)) \<noteq> None \<longleftrightarrow> body_ok (currPacket c) body"
  using assms by (rule tag_in_bounds)

theorem decode_tag_in_bounds_witness:
  "decode_tag (\<lambda>_. True) (in_body (mqtt_codec_init\<lparr>currPacket := UNSUBACK_TYPE\<rparr>) [0, 9] 2) = None"
  using decode_tag_in_bounds[of "[0, 9]" "mqtt_codec_init\<lparr>currPacket := UNSUBACK_TYPE\<rparr>"]
  by (simp add: body_ok_def size_mod_eq numeral_2_eq_2) (simp add: mqtt_consts)

text \<open>The invariant of the codec, in every state that it can be in between two bytes.\<close>

definition codec_inv :: "mqtt_codec \<Rightarrow> bool" where
  "codec_inv c = (length (storeRemainLen c) = 4 \<and> remainLenIndex c \<le> 4 \<and>
     (case codecState c of
        CODEC_STATE_FIXED_HEADER \<Rightarrow> headerData c = empty_buffer
      | CODEC_STATE_VAR_HEADER \<Rightarrow> headerData c = empty_buffer \<or>
          (\<exists>got n. length got < n \<and> n < 128 ^ 4 \<and> headerData c = buf_set empty_buffer (filled got (n - length got)) \<and>
             bufferOffset c = length got)
      | CODEC_STATE_PAYLOAD \<Rightarrow> False))"

lemma codec_inv_error [simp]: "codec_inv (codec_error c) = codec_inv c"
  by (cases "codecState c") (simp_all add: codec_inv_def codec_error_def)

lemma codec_inv_reset:
  "length (storeRemainLen c) = 4 \<Longrightarrow> remainLenIndex c \<le> 4 \<Longrightarrow> headerData c = empty_buffer \<or> (\<exists>m. headerData c = buf_set empty_buffer m) \<Longrightarrow>
   codec_inv (codec_reset c)"
  by (auto simp: codec_inv_def codec_reset_def)

lemma decode_remain_len_defined:
  assumes "length store = 4" and "i \<in> {0, 1, 2, 3}"
  shows "decode_remain_len store i (128 ^ i) t \<noteq> None"
proof -
  have d3: "decode_remain_len store (Suc (Suc (Suc 0))) (128 ^ 3) t \<noteq> None" for t
    using assms(1) by (subst decode_remain_len.simps) (simp add: Let_def)
  have d2: "decode_remain_len store (Suc (Suc 0)) (128 ^ 2) t \<noteq> None" for t
    using assms(1) d3 by (subst decode_remain_len.simps) (simp add: Let_def)
  have d1: "decode_remain_len store (Suc 0) (128 ^ 1) t \<noteq> None" for t
    using assms(1) d2 by (subst decode_remain_len.simps) (simp add: Let_def)
  have d0: "decode_remain_len store 0 (128 ^ 0) t \<noteq> None" for t
    using assms(1) d1 by (subst decode_remain_len.simps) (simp add: Let_def)
  show ?thesis using assms(2) d0 d1 d2 d3 by (auto simp: numeral_2_eq_2 numeral_3_eq_3)
qed

lemma decode_remain_len_bound:
  "decode_remain_len store i m t = Some (r, n) \<Longrightarrow> m = 128 ^ i \<Longrightarrow> t < 128 ^ i \<Longrightarrow> i \<le> 3 \<Longrightarrow> n < 128 ^ 4"
proof (induction store i m t rule: decode_remain_len.induct)
  case (1 store i m t)
  let ?d = "unat (store ! i AND 0x7f)" and ?t = "t + unat (store ! i AND 0x7f) * m"
  have "store ! i AND 0x7f \<le> (0x7f :: u8)" by (rule word_and_le1)
  then have "?d \<le> 127" by (simp add: word_le_nat_alt)
  then have "?d * 128 ^ i \<le> 127 * 128 ^ i" by (rule mult_le_mono1)
  then have "t + ?d * 128 ^ i < 128 * 128 ^ i" using "1.prems"(3) by linarith
  then have t: "?t < 128 ^ Suc i" using "1.prems"(2) by simp
  have le: "(128 :: nat) ^ Suc i \<le> 128 ^ 4" using "1.prems"(4) by (intro power_increasing) auto
  have i: "i < length store" using "1.prems"(1) by (subst (asm) decode_remain_len.simps) (simp split: if_splits)
  show ?case
  proof (cases "\<not> m * 128 > 128 * 128 * 128 \<and> store ! i AND 0x80 \<noteq> 0")
    case True
    then have "decode_remain_len store (i + 1) (m * 128) ?t = Some (r, n)"
      using "1.prems"(1) i by (subst (asm) decode_remain_len.simps) (simp add: Let_def)
    moreover have "i + 1 \<le> 3"
    proof (rule ccontr)
      assume "\<not> i + 1 \<le> 3"
      then have "i = 3" using "1.prems"(4) by simp
      then show False using True "1.prems"(2) by simp
    qed
    ultimately show ?thesis
      using "1.IH"[OF i refl refl refl] True t "1.prems"(2) by (simp add: mult.commute)
  next
    case False
    then have "n = ?t" using "1.prems"(1) i by (subst (asm) decode_remain_len.simps) (auto simp: Let_def split: if_splits)
    then show ?thesis using t le by simp
  qed
qed

lemma prepareheaderDataInfo_inv:
  assumes c: "codec_inv c" "codecState c = CODEC_STATE_FIXED_HEADER"
  shows "\<exists>r c'. prepareheaderDataInfo alloc c b = Some (r, c') \<and> codec_inv c' \<and> currPacket c' = currPacket c \<and>
    (headerData c' = empty_buffer \<or> (\<exists>m. headerData c' = buf_set empty_buffer m)) \<and>
    length (storeRemainLen c') = 4 \<and> remainLenIndex c' \<le> 4"
proof (cases "remainLenIndex c \<ge> 4")
  case True
  then show ?thesis using c by (auto simp: prepareheaderDataInfo_def codec_inv_def)
next
  case False
  let ?s = "(storeRemainLen c)[remainLenIndex c := b]"
  show ?thesis
  proof (cases "b < 0x7f")
    case True
    have "length ?s = 4" using c by (simp add: codec_inv_def)
    then have "decode_remain_len ?s 0 (128 ^ 0) 0 \<noteq> None" by (rule decode_remain_len_defined) simp
    then obtain r n where d: "decode_remain_len ?s 0 1 0 = Some (r, n)" by auto
    have h: "headerData c = empty_buffer" using c by (simp add: codec_inv_def)
    have n4: "n < 128 ^ 4" by (rule decode_remain_len_bound[OF d]) simp_all
    then have ne: "\<exists>got k. length got < k \<and> k < 128 ^ 4 \<and> buf_set empty_buffer (filled [] n) = buf_set empty_buffer (filled got (k - length got)) \<and>
        length got = 0" if "0 < n"
      using that by (intro exI[of _ "[]"] exI[of _ n]) simp
    have pb: "snd (BUFFER_pre_build alloc empty_buffer n) =
        (if alloc n then buf_set empty_buffer (filled [] n) else empty_buffer)" if "0 < n"
      using that by (simp add: BUFFER_pre_build_def empty_buffer_def buf_set_def filled_def)
    show ?thesis
      using False True d c h pb n4 by (cases "0 < n") (auto simp: prepareheaderDataInfo_def codec_inv_def)
  next
    case b: False
    then show ?thesis using False c by (simp add: prepareheaderDataInfo_def codec_inv_def)
  qed
qed

text \<open>The byte at which the decoder leaves its block: the last one of a body that is too short for its type.\<close>

definition bad_end :: "mqtt_codec \<Rightarrow> u8 \<Rightarrow> bool" where
  "bad_end c b = (\<exists>got. codecState c = CODEC_STATE_VAR_HEADER \<and> headerData c = buf_set empty_buffer (filled got 1) \<and>
     \<not> body_ok (currPacket c) (got @ [b]))"

lemma codec_byte_fixed:
  assumes "codec_inv c" and "codecState c = CODEC_STATE_FIXED_HEADER"
  shows "\<exists>r evs c'. codec_byte alloc c b = Some (r, evs, c') \<and> codec_inv c'"
proof (cases "currPacket c = UNKNOWN_TYPE")
  case True
  then show ?thesis using assms by (simp add: codec_byte_def processControlPacketType_def codec_inv_def)
next
  case False
  obtain r c' where p: "prepareheaderDataInfo alloc c b = Some (r, c')" and i: "codec_inv c'"
    and cp: "currPacket c' = currPacket c"
    and h: "headerData c' = empty_buffer \<or> (\<exists>m. headerData c' = buf_set empty_buffer m)"
      "length (storeRemainLen c') = 4" "remainLenIndex c' \<le> 4"
    using prepareheaderDataInfo_inv[OF assms, of alloc b] by blast
  have e: "currPacket (codec_error c') \<noteq> PINGRESP_TYPE" by (simp add: codec_error_def mqtt_consts)
  have d: "decode_tag alloc c' = Some Tag_null" if "currPacket c' = PINGRESP_TYPE"
    using that by (simp add: decode_tag_def Let_def mqtt_consts)
  have rs: "codec_inv (codec_reset c')" by (rule codec_inv_reset[OF h(2,3,1)])
  show ?thesis
    using assms(2) False p i cp e d rs by (auto simp: codec_byte_def completePacketData_def)
qed

lemma codec_byte_var:
  assumes "codec_inv c" and v: "codecState c = CODEC_STATE_VAR_HEADER"
  shows "bad_end c b \<or> (\<exists>r evs c'. codec_byte (\<lambda>_. True) c b = Some (r, evs, c') \<and> codec_inv c')"
proof (cases "headerData c = empty_buffer")
  case True
  then have "codec_byte (\<lambda>_. True) c b = Some (FAILURE, [], codec_error c)"
    using v by (simp add: codec_byte_def BUFFER_u_char_def empty_buffer_def)
  then show ?thesis using assms(1) by simp
next
  case False
  then obtain got n where n: "length got < n" and n4: "n < 128 ^ 4" and h: "headerData c = buf_set empty_buffer (filled got (n - length got))"
    and o: "bufferOffset c = length got" using assms(1) v by (auto simp: codec_inv_def)
  define d where "d = c\<lparr>headerData := buf_set empty_buffer (filled (got @ [b]) (n - length (got @ [b]))),
    bufferOffset := length got + 1\<rparr>"
  have p: "poke (filled got (n - length got)) (length got) b = Some (filled (got @ [b]) (n - length (got @ [b])))"
    using n by (simp add: poke_filled)
  have u: "BUFFER_u_char (Some (buf_set empty_buffer (filled got (n - length got)))) = Some (filled got (n - length got))"
    using n by (simp add: filled_def)
  have s: "(buf_set empty_buffer (filled got (n - length got)))\<lparr>buffer := Some (filled (got @ [b]) (n - length (got @ [b])))\<rparr> =
      buf_set empty_buffer (filled (got @ [b]) (n - length (got @ [b])))"
    using n by (intro buf_set_update) simp
  have step: "codec_byte (\<lambda>_. True) c b =
      (if length got + 1 < n then Some (0, [], d)
       else map_option (\<lambda>(ev, c). (0, [ev], c)) (completePacketData (\<lambda>_. True) d))"
    using v h o p u s n by (auto simp: codec_byte_def bind_event d_def)
  show ?thesis
  proof (cases "length got + 1 < n")
    case True
    then have "codec_inv d"
      using assms(1) v n4 unfolding codec_inv_def d_def by (auto intro!: exI[of _ "got @ [b]"] exI[of _ n])
    with True step show ?thesis by auto
  next
    case full: False
    then have n1: "n = length (got @ [b])" using n by simp
    have same: "decode_tag (\<lambda>_. True) d = decode_tag (\<lambda>_. True) (in_body c (got @ [b]) (length (got @ [b])))"
      using n1 by (intro decode_tag_cong) (simp_all add: d_def in_body_def)
    have sz: "length (got @ [b]) < size_mod" using n4 n1 by (simp add: size_mod_eq)
    have rs: "codec_inv (codec_reset d)"
      by (rule codec_inv_reset) (use assms(1) in \<open>auto simp: d_def codec_inv_def\<close>)
    show ?thesis
    proof (cases "body_ok (currPacket c) (got @ [b])")
      case True
      then have "decode_tag (\<lambda>_. True) d \<noteq> None" using same tag_in_bounds[of "got @ [b]" c] sz by simp
      then show ?thesis using step full rs by (auto simp: completePacketData_def)
    next
      case False
      then show ?thesis using v h n1 unfolding bad_end_def by (auto intro!: exI[of _ got])
    qed
  qed
qed


lemma codec_byte_safe:
  "codec_inv c \<Longrightarrow> bad_end c b \<or> (\<exists>r evs c'. codec_byte (\<lambda>_. True) c b = Some (r, evs, c') \<and> codec_inv c')"
  using codec_byte_fixed[of c "\<lambda>_. True" b] codec_byte_var[of c b]
  by (cases "codecState c") (auto simp: codec_inv_def)

lemma codec_inv_init [simp]: "codec_inv mqtt_codec_init"
  by (simp add: codec_inv_def mqtt_codec_init_def empty_buffer_def)

text \<open>
  C15: whatever bytes arrive, the decoder keeps its invariant (four length bytes at most, the
  write offset inside the header block, the bytes before it initialised) and does not access
  memory outside its blocks, unless some received packet is too short for its type.
\<close>

theorem mqtt_codec_bytesReceived_safe:
  assumes "codec_inv c"
  shows "(\<exists>r evs c'. mqtt_codec_bytesReceived (\<lambda>_. True) c bs = Some (r, evs, c') \<and> codec_inv c') \<or>
    (\<exists>pre b post evs c'. bs = pre @ b # post \<and> mqtt_codec_bytesReceived (\<lambda>_. True) c pre = Some (0, evs, c') \<and>
      codec_inv c' \<and> bad_end c' b)"
  using assms
proof (induction bs arbitrary: c)
  case Nil
  then show ?case by simp
next
  case (Cons b bs)
  consider (bad) "bad_end c b"
    | (step) r evs d where "codec_byte (\<lambda>_. True) c b = Some (r, evs, d)" "codec_inv d"
    using codec_byte_safe[OF Cons.prems, of b] by blast
  then show ?case
  proof cases
    case bad
    then show ?thesis using Cons.prems by (intro disjI2 exI[of _ "[]"] exI[of _ b] exI[of _ bs]) simp
  next
    case step
    show ?thesis
    proof (cases "r = 0")
      case False
      then show ?thesis using step by simp
    next
      case True
      show ?thesis
        using Cons.IH[OF step(2)]
      proof
        assume "\<exists>r evs c'. mqtt_codec_bytesReceived (\<lambda>_. True) d bs = Some (r, evs, c') \<and> codec_inv c'"
        then show ?thesis using step True by auto
      next
        assume "\<exists>pre b post evs c'. bs = pre @ b # post \<and>
          mqtt_codec_bytesReceived (\<lambda>_. True) d pre = Some (0, evs, c') \<and> codec_inv c' \<and> bad_end c' b"
        then obtain pre x post es c' where "bs = pre @ x # post"
          "mqtt_codec_bytesReceived (\<lambda>_. True) d pre = Some (0, es, c')" "codec_inv c'" "bad_end c' x" by blast
        then show ?thesis
          using step True by (intro disjI2 exI[of _ "b # pre"] exI[of _ x] exI[of _ post]) simp
      qed
    qed
  qed
qed

theorem mqtt_codec_bytesReceived_safe_witness:
  "(\<exists>r evs c'. mqtt_codec_bytesReceived (\<lambda>_. True) mqtt_codec_init [0xC0, 0xff, 0xff] = Some (r, evs, c') \<and> codec_inv c') \<or>
    (\<exists>pre b post evs c'. [0xC0, 0xff, 0xff] = pre @ b # post \<and>
      mqtt_codec_bytesReceived (\<lambda>_. True) mqtt_codec_init pre = Some (0, evs, c') \<and> codec_inv c' \<and> bad_end c' b)"
  by (rule mqtt_codec_bytesReceived_safe) simp

text \<open>
  The UNSUBACK packet of the protocol, two bytes of packet id and nothing else, makes the
  decoder read two bytes past the end of its header block, because it skips two bytes before it
  reads the packet id.
\<close>

theorem mqtt_codec_unsuback_overread:
  "mqtt_codec_bytesReceived (\<lambda>_. True) mqtt_codec_init (packet UNSUBACK_TYPE 0 (be16 pid)) = None"
proof -
  have ne: "be16 pid \<noteq> []" by (simp add: be16_def)
  have h: "(ucast UNSUBACK_TYPE OR 0) AND 0xf0 \<noteq> (0xD0 :: u8)" by (simp add: mqtt_consts)
  let ?d = "started mqtt_codec_init (ucast UNSUBACK_TYPE OR 0)"
  have ty: "currPacket ?d = UNSUBACK_TYPE" by (simp add: started_def mqtt_consts)
  have "\<not> body_ok (currPacket ?d) (be16 pid)" unfolding ty by (simp add: body_ok_def) (simp add: mqtt_consts)
  then have "decode_tag (\<lambda>_. True) (in_body ?d (be16 pid) (length (be16 pid))) = None"
    using tag_in_bounds[OF ne, of ?d] by (simp add: size_mod_eq)
  then have "completePacketData (\<lambda>_. True) (in_body ?d (be16 pid) (length (be16 pid))) = None"
    by (simp add: completePacketData_def)
  then show ?thesis
    using receive_frame[where c = mqtt_codec_init and body = "be16 pid" and h = "ucast UNSUBACK_TYPE OR 0"
        and alloc = "\<lambda>_. True"] ne h unfolding packet_def
    by (simp add: top_digit_2)
qed

end
