(* ===== verification/Entity.thy ===== *)
theory Entity
  imports List_Head C_String
begin

text \<open>
  Objects with reference counts (\<^verbatim>\<open>AObject\<close> of \<^verbatim>\<open>base/AModule.h\<close>) and entities with their lists of
  components (\<^verbatim>\<open>AComponent\<close>, \<^verbatim>\<open>AEntity\<close> of \<^verbatim>\<open>ecs/AEntity.h\<close>).  The list head of an entity and the list
  entry of a component are the nodes at their addresses in the heap of links.  \<^verbatim>\<open>assert\<close> is empty in
  the builds without \<^verbatim>\<open>_DEBUG\<close> (\<^verbatim>\<open>base/base.h\<close>), and so it is here.
\<close>

section \<open>Reference counts\<close>

text \<open>\<open>freed\<close> lists the objects whose release function was called, in order.\<close>

record aobjects =
  refcount :: "addr \<Rightarrow> int"
  freed :: "addr list"

definition AObject_init :: "addr \<Rightarrow> aobjects \<Rightarrow> aobjects" where
  "AObject_init a s = s\<lparr>refcount := (refcount s)(a := 1)\<rparr>"

definition addref :: "addr \<Rightarrow> aobjects \<Rightarrow> aobjects" where
  "addref a s = s\<lparr>refcount := (refcount s)(a := refcount s a + 1)\<rparr>"

definition release :: "addr \<Rightarrow> aobjects \<Rightarrow> aobjects" where
  "release a s =
     (let result = refcount s a - 1;
          s = s\<lparr>refcount := (refcount s)(a := result)\<rparr>
      in if result \<le> 0 then s\<lparr>freed := freed s @ [a]\<rparr> else s)"

lemma refcount_addref [simp]: "refcount (addref a s) b = refcount s b + (if b = a then 1 else 0)"
  by (simp add: addref_def)

lemma refcount_release [simp]: "refcount (release a s) b = refcount s b - (if b = a then 1 else 0)"
  by (simp add: release_def Let_def)

lemma freed_addref [simp]: "freed (addref a s) = freed s"
  by (simp add: addref_def)

lemma freed_release: "freed (release a s) = freed s @ (if refcount s a \<le> 1 then [a] else [])"
  by (simp add: release_def Let_def)

section \<open>Components of an entity\<close>

record components =
  entry :: list_head
  com_name :: "addr \<Rightarrow> string"
  com_index :: "addr \<Rightarrow> int"
  com_dynmng :: "addr \<Rightarrow> bool"
  com_entity :: "addr \<Rightarrow> addr"
  com_count :: "addr \<Rightarrow> int"
  head_manager :: "addr \<Rightarrow> addr"
  head_entity :: "addr \<Rightarrow> addr"
  head_module :: "addr \<Rightarrow> addr"
  com_freed :: "(addr \<times> addr) list"

text \<open>
  The last members are \<^verbatim>\<open>EMComHead\<close>, which the manager stores in front of a component it allocates,
  and the log of the components it gave back: the module whose release function ran, and the block.
\<close>

text \<open>\<^verbatim>\<open>AComponent::init\<close>; the index is a signed bit field of 16 bits.\<close>

definition index16 :: "int \<Rightarrow> int" where
  "index16 i = sint (word_of_int i :: 16 word)"

definition AComponent_init :: "addr \<Rightarrow> string \<Rightarrow> int \<Rightarrow> components \<Rightarrow> components" where
  "AComponent_init c n i s = s\<lparr>
     com_name := (com_name s)(c := n),
     com_index := (com_index s)(c := index16 i),
     com_dynmng := (com_dynmng s)(c := False),
     com_entity := (com_entity s)(c := NULL),
     entry := INIT_LIST_HEAD c (entry s)\<rparr>"

definition AEntity_push :: "addr \<Rightarrow> addr \<Rightarrow> components \<Rightarrow> bool \<times> components" where
  "AEntity_push e c s =
     (let valid = (com_entity s c = NULL \<and> list_empty (entry s) c)
      in if valid
         then (True, s\<lparr>com_entity := (com_entity s)(c := e),
                       entry := list_add_tail c e (entry s),
                       com_count := (com_count s)(e := com_count s e + 1)\<rparr>)
         else (False, s))"

definition AEntity_pop :: "addr \<Rightarrow> addr \<Rightarrow> components \<Rightarrow> bool \<times> components" where
  "AEntity_pop e c s =
     (let valid = (com_entity s c = e \<and> \<not> list_empty (entry s) c)
      in if valid
         then (True, s\<lparr>entry := list_del_init c (entry s),
                       com_count := (com_count s)(e := com_count s e - 1)\<rparr>)
         else (False, s))"

definition com_matches :: "components \<Rightarrow> string \<Rightarrow> int \<Rightarrow> addr \<Rightarrow> bool" where
  "com_matches s name index c = (same_name (com_name s c) name \<and> (index = -1 \<or> index = com_index s c))"

definition AEntity_get :: "addr \<Rightarrow> string \<Rightarrow> int \<Rightarrow> components \<Rightarrow> addr option" where
  "AEntity_get e name index s = list_search (com_matches s name index) (entry s) e (nxt (entry s) e)"

section \<open>Components of the manager\<close>

text \<open>
  \<open>c\<close> is the block \<^verbatim>\<open>malloc\<close> returned behind its header, and \<open>create\<close> the create function of the
  module, with its effect on the components.
\<close>

definition EM_del_com :: "addr \<Rightarrow> components \<Rightarrow> components" where
  "EM_del_com c s = s\<lparr>com_freed := com_freed s @ [(head_module s c, c)]\<rparr>"

definition EM_add_com ::
    "addr \<Rightarrow> addr \<Rightarrow> addr \<Rightarrow> string \<Rightarrow> (addr \<Rightarrow> addr \<Rightarrow> components \<Rightarrow> int \<times> components) \<Rightarrow> addr \<Rightarrow>
     components \<Rightarrow> addr \<times> components" where
  "EM_add_com em e com_module module_name create c s =
     (if c = NULL then (NULL, s)
      else
        let s = s\<lparr>head_manager := (head_manager s)(c := em),
                  head_entity := (head_entity s)(c := e),
                  head_module := (head_module s)(c := com_module)\<rparr>;
            s = AComponent_init c module_name 0 s;
            (result, s) = create c e s
        in if result < 0 then (NULL, EM_del_com c s)
           else
             let s = s\<lparr>com_dynmng := (com_dynmng s)(c := True)\<rparr>;
                 s = (if list_empty (entry s) c then snd (AEntity_push e c s) else s)
             in (c, s))"

section \<open>The list of an entity\<close>

text \<open>The invariant: the components of \<open>e\<close> are \<open>cs\<close>, in the order they were pushed.\<close>

definition has_components :: "components \<Rightarrow> addr \<Rightarrow> addr list \<Rightarrow> bool" where
  "has_components s e cs = (ring (entry s) e cs \<and> com_count s e = int (length cs) \<and>
     (\<forall>c \<in> set cs. com_entity s c = e \<and> c \<noteq> NULL))"

text \<open>A component that is in no list.\<close>

definition loose :: "components \<Rightarrow> addr \<Rightarrow> bool" where
  "loose s c = (com_entity s c = NULL \<and> ring (entry s) c [] \<and> c \<noteq> NULL)"

lemma AEntity_get_first:
  "has_components s e cs \<Longrightarrow> AEntity_get e name index s = Some (hd_node (filter (com_matches s name index) cs))"
  by (simp add: AEntity_get_def has_components_def list_search_ring)

lemma AEntity_push_components:
  assumes "has_components s e cs" and "loose s c" and "e \<noteq> NULL" and "c \<noteq> e"
  shows "fst (AEntity_push e c s) \<and> has_components (snd (AEntity_push e c s)) e (cs @ [c])"
proof -
  have fresh: "c \<notin> set cs" using assms(1,2,3) by (auto simp: has_components_def loose_def)
  have "ring (list_add_tail c e (entry s)) e (cs @ [c])"
    using assms fresh by (intro list_add_tail_ring) (auto simp: has_components_def)
  then show ?thesis using assms fresh
    by (auto simp: AEntity_push_def has_components_def loose_def ring_empty_iff)
qed

lemma AEntity_pop_components:
  assumes "has_components s e (as @ c # bs)"
  shows "fst (AEntity_pop e c s) \<and> has_components (snd (AEntity_pop e c s)) e (as @ bs)"
proof -
  have r: "ring (entry s) e (as @ c # bs)" using assms by (simp add: has_components_def)
  have "nxt (entry s) c \<in> set (bs @ [e])" unfolding ring_mid(2)[OF r] by (rule hd_in_set) simp
  then have "\<not> list_empty (entry s) c" using ring_distinct[OF r] by (auto simp: list_empty_def)
  then show ?thesis using assms list_del_init_ring(1)[OF r] by (auto simp: AEntity_pop_def has_components_def)
qed

lemma AComponent_init_components:
  assumes "has_components s e cs" and "c \<notin> set (e # cs)" and "c \<noteq> NULL"
  shows "has_components (AComponent_init c n i s) e cs" and "loose (AComponent_init c n i s) c"
  using assms by (auto simp: AComponent_init_def has_components_def loose_def ring_INIT_other INIT_LIST_HEAD_ring)

lemma has_components_cong:
  "entry s' = entry s \<Longrightarrow> com_count s' e = com_count s e \<Longrightarrow> com_entity s' = com_entity s \<Longrightarrow>
     has_components s' e cs = has_components s e cs"
  by (simp add: has_components_def)

section \<open>Entities and components together\<close>

text \<open>
  \<open>E\<close> are the initialised entities, \<open>C\<close> the initialised components and \<open>cs e\<close> the components that the entity \<open>e\<close>
  holds; the other components are in no list.
\<close>

definition held :: "components \<Rightarrow> addr set \<Rightarrow> addr set \<Rightarrow> (addr \<Rightarrow> addr list) \<Rightarrow> bool" where
  "held s E C cs = (E \<inter> C = {} \<and> NULL \<notin> E \<union> C \<and> (\<forall>e \<in> E. has_components s e (cs e) \<and> set (cs e) \<subseteq> C) \<and>
     (\<forall>c \<in> C. c \<notin> (\<Union>e \<in> E. set (cs e)) \<longrightarrow> ring (entry s) c []))"

lemma heldD:
  assumes "held s E C cs"
  shows "E \<inter> C = {}" and "NULL \<notin> E \<union> C"
    and "e \<in> E \<Longrightarrow> has_components s e (cs e)" and "e \<in> E \<Longrightarrow> ring (entry s) e (cs e)"
    and "e \<in> E \<Longrightarrow> c \<in> set (cs e) \<Longrightarrow> c \<in> C \<and> c \<notin> E \<and> com_entity s c = e"
    and "c \<in> C \<Longrightarrow> (\<And>e. e \<in> E \<Longrightarrow> c \<notin> set (cs e)) \<Longrightarrow> ring (entry s) c []"
  using assms by (auto simp: held_def has_components_def)

lemma heldI:
  assumes "E \<inter> C = {}" and "NULL \<notin> E \<union> C"
    and "\<And>e. e \<in> E \<Longrightarrow> has_components s e (cs e) \<and> set (cs e) \<subseteq> C"
    and "\<And>c. c \<in> C \<Longrightarrow> (\<forall>e \<in> E. c \<notin> set (cs e)) \<Longrightarrow> ring (entry s) c []"
  shows "held s E C cs"
  using assms by (auto simp: held_def)

lemma held_cong:
  "entry s' = entry s \<Longrightarrow> com_count s' = com_count s \<Longrightarrow> com_entity s' = com_entity s \<Longrightarrow> held s' E C cs = held s E C cs"
  by (simp add: held_def has_components_def)

lemma held_create:
  assumes held: "held s E C cs" and new: "e \<notin> E \<union> C" "e \<noteq> NULL"
  shows "held (s\<lparr>entry := INIT_LIST_HEAD e (entry s), com_count := (com_count s)(e := 0)\<rparr>) (insert e E) C (cs(e := []))"
    (is "held ?t _ _ _")
proof (rule heldI)
  show "has_components ?t x ((cs(e := [])) x) \<and> set ((cs(e := [])) x) \<subseteq> C" if "x \<in> insert e E" for x
  proof (cases "x = e")
    case True
    then show ?thesis by (simp add: has_components_def INIT_LIST_HEAD_ring)
  next
    case False
    then have x: "x \<in> E" using that by simp
    have "e \<notin> set (x # cs x)" using False new heldD(5)[OF held x, of e] by auto
    then show ?thesis using heldD(3)[OF held x] heldD(5)[OF held x] False ring_INIT_other[of e x "cs x" "entry s"]
      by (auto simp: has_components_def)
  qed
  show "ring (entry ?t) c []" if "c \<in> C" "\<forall>x \<in> insert e E. c \<notin> set ((cs(e := [])) x)" for c
  proof -
    have "c \<noteq> e" using that new by auto
    moreover have "c \<notin> set (cs x)" if "x \<in> E" for x using \<open>\<forall>x \<in> insert e E. _\<close> that new by (metis UnI1 fun_upd_other insertI2)
    then have "ring (entry s) c []" using heldD(6)[OF held \<open>c \<in> C\<close>] by blast
    ultimately show ?thesis using ring_INIT_other[of e c "[]" "entry s"] by simp
  qed
qed (use heldD(1,2)[OF held] new in auto)

lemma held_init:
  assumes held: "held s E C cs" and new: "c \<notin> E \<union> C" "c \<noteq> NULL"
  shows "held (AComponent_init c n i s) E (insert c C) cs" and "loose (AComponent_init c n i s) c"
proof -
  show "held (AComponent_init c n i s) E (insert c C) cs" (is "held ?t _ _ _")
  proof (rule heldI)
    show "has_components ?t e (cs e) \<and> set (cs e) \<subseteq> insert c C" if e: "e \<in> E" for e
    proof -
      have "c \<notin> set (e # cs e)" using new e heldD(5)[OF held e, of c] by auto
      from AComponent_init_components(1)[OF heldD(3)[OF held e] this new(2)] show ?thesis
        using heldD(5)[OF held e] by blast
    qed
    show "ring (entry ?t) x []" if "x \<in> insert c C" "\<forall>e \<in> E. x \<notin> set (cs e)" for x
    proof (cases "x = c")
      case False
      then have "ring (entry s) x []" using heldD(6)[OF held, of x] that by blast
      then show ?thesis using False ring_INIT_other[of c x "[]" "entry s"] by (simp add: AComponent_init_def)
    qed (simp add: AComponent_init_def INIT_LIST_HEAD_ring)
  qed (use heldD(1,2)[OF held] new in auto)
  show "loose (AComponent_init c n i s) c" using new(2) by (simp add: loose_def AComponent_init_def INIT_LIST_HEAD_ring)
qed

text \<open>The list of another entity has no node in common with that of \<open>e\<close>.\<close>

lemma held_apart:
  assumes held: "held s E C cs" and e: "e \<in> E" and x: "x \<in> E" "x \<noteq> e"
  shows "set (x # cs x) \<inter> set (e # cs e) = {}"
proof -
  have "c \<notin> set (cs e)" if "c \<in> set (cs x)" for c using heldD(5)[OF held e, of c] heldD(5)[OF held x(1) that] x(2) by auto
  moreover have "x \<notin> set (cs e)" "e \<notin> set (cs x)"
    using heldD(5)[OF held e, of x] heldD(5)[OF held x(1), of e] x(1) e by auto
  ultimately show ?thesis using x(2) by auto
qed

lemma held_push:
  assumes held: "held s E C cs" and e: "e \<in> E" and c: "c \<in> C"
  shows "held (snd (AEntity_push e c s)) E C (if fst (AEntity_push e c s) then cs(e := cs e @ [c]) else cs)"
proof (cases "com_entity s c = NULL \<and> list_empty (entry s) c")
  case False
  then show ?thesis using held by (auto simp: AEntity_push_def)
next
  case True
  have null: "e \<noteq> NULL" "c \<noteq> NULL" "c \<noteq> e" "c \<notin> E" using heldD(1,2)[OF held] e c by auto
  have out: "c \<notin> set (cs x)" if "x \<in> E" for x using heldD(2)[OF held] heldD(5)[OF held that, of c] that True by auto
  have "loose s c" using heldD(6)[OF held c out] True null by (simp add: loose_def)
  note ok = AEntity_push_components[OF heldD(3)[OF held e] this null(1,3)]
  have t: "entry (snd (AEntity_push e c s)) = list_add_tail c e (entry s)"
    "com_count (snd (AEntity_push e c s)) = (com_count s)(e := com_count s e + 1)"
    "com_entity (snd (AEntity_push e c s)) = (com_entity s)(c := e)"
    using True by (simp_all add: AEntity_push_def)
  have "held (snd (AEntity_push e c s)) E C (cs(e := cs e @ [c]))" (is "held ?t _ _ _")
  proof (rule heldI)
    show "has_components ?t x ((cs(e := cs e @ [c])) x) \<and> set ((cs(e := cs e @ [c])) x) \<subseteq> C" if x: "x \<in> E" for x
    proof (cases "x = e")
      case True
      then show ?thesis using ok heldD(5)[OF held e] c by auto
    next
      case False
      have "x \<noteq> c" using x null by blast
      then have "set (x # cs x) \<inter> set (c # e # cs e) = {}" using held_apart[OF held e x False] out[OF x] by auto
      from list_add_tail_other[OF heldD(4)[OF held e] heldD(4)[OF held x] this] show ?thesis
        using heldD(3)[OF held x] heldD(5)[OF held x] False out[OF x] by (auto simp: has_components_def t)
    qed
    show "ring (entry ?t) x []" if "x \<in> C" "\<forall>y \<in> E. x \<notin> set ((cs(e := cs e @ [c])) y)" for x
    proof -
      have in_e: "x \<notin> set (cs e @ [c])" using that(2) e by auto
      have "x \<notin> set (cs y)" if "y \<in> E" for y using \<open>\<forall>y \<in> E. _\<close> that in_e by (cases "y = e") auto
      then have "ring (entry s) x []" using heldD(6)[OF held \<open>x \<in> C\<close>] by blast
      moreover have "set [x] \<inter> set (c # e # cs e) = {}" using in_e heldD(1)[OF held] that(1) e by auto
      ultimately show ?thesis unfolding t using list_add_tail_other[OF heldD(4)[OF held e]] by blast
    qed
  qed (use heldD(1,2)[OF held] in auto)
  then show ?thesis using ok by simp
qed

lemma held_pop:
  assumes held: "held s E C cs" and e: "e \<in> E" and c: "c \<in> C"
  shows "\<exists>cs'. held (snd (AEntity_pop e c s)) E C cs'"
proof (cases "com_entity s c = e \<and> \<not> list_empty (entry s) c")
  case False
  then show ?thesis using held by (auto simp: AEntity_pop_def)
next
  case True
  have "\<not> ring (entry s) c []" using True ring_empty_iff by blast
  then obtain y where "y \<in> E" "c \<in> set (cs y)" using heldD(6)[OF held c] by blast
  then have "c \<in> set (cs e)" using heldD(5)[OF held, of y c] True by simp
  then obtain us vs where split: "cs e = us @ c # vs" by (meson split_list)
  note r = heldD(4)[OF held e, unfolded split]
  have t: "entry (snd (AEntity_pop e c s)) = list_del_init c (entry s)"
    "com_count (snd (AEntity_pop e c s)) = (com_count s)(e := com_count s e - 1)"
    "com_entity (snd (AEntity_pop e c s)) = com_entity s"
    using True by (simp_all add: AEntity_pop_def)
  have "held (snd (AEntity_pop e c s)) E C (cs(e := us @ vs))" (is "held ?t _ _ _")
  proof (rule heldI)
    show "has_components ?t x ((cs(e := us @ vs)) x) \<and> set ((cs(e := us @ vs)) x) \<subseteq> C" if x: "x \<in> E" for x
    proof (cases "x = e")
      case True
      then show ?thesis using AEntity_pop_components[OF heldD(3)[OF held e, unfolded split]] heldD(5)[OF held e] split by auto
    next
      case False
      have "set (x # cs x) \<inter> set (e # us @ c # vs) = {}" using held_apart[OF held e x False] unfolding split .
      from list_del_init_other[OF r heldD(4)[OF held x] this] show ?thesis
        using heldD(3)[OF held x] heldD(5)[OF held x] False by (auto simp: has_components_def t)
    qed
    show "ring (entry ?t) x []" if "x \<in> C" "\<forall>y \<in> E. x \<notin> set ((cs(e := us @ vs)) y)" for x
    proof (cases "x = c")
      case True
      then show ?thesis unfolding t using list_del_init_ring(2)[OF r] by simp
    next
      case False
      have in_e: "x \<notin> set (us @ vs)" using that(2) e by auto
      have "x \<notin> set (cs y)" if "y \<in> E" for y using \<open>\<forall>y \<in> E. _\<close> that in_e False split by (cases "y = e") auto
      then have "ring (entry s) x []" using heldD(6)[OF held \<open>x \<in> C\<close>] by blast
      moreover have "set [x] \<inter> set (e # us @ c # vs) = {}" using in_e False heldD(1)[OF held] that(1) e by auto
      ultimately show ?thesis unfolding t using list_del_init_other[OF r] by blast
    qed
  qed (use heldD(1,2)[OF held] in auto)
  then show ?thesis by blast
qed

text \<open>
  What the create functions of the modules do with a component, as far as its entity goes: nothing, or push it, and a
  component that is pushed was created.
\<close>

definition creates :: "(addr \<Rightarrow> addr \<Rightarrow> components \<Rightarrow> int \<times> components) \<Rightarrow> bool" where
  "creates create = (\<forall>c e s. \<exists>r. create c e s = (r, s) \<or> create c e s = (r, snd (AEntity_push e c s)) \<and> 0 \<le> r)"

text \<open>The component that \<open>EM_add_com\<close> gives to the create function.\<close>

definition fresh_com :: "addr \<Rightarrow> addr \<Rightarrow> addr \<Rightarrow> string \<Rightarrow> addr \<Rightarrow> components \<Rightarrow> components" where
  "fresh_com em e m n c s = AComponent_init c n 0 (s\<lparr>head_manager := (head_manager s)(c := em),
     head_entity := (head_entity s)(c := e), head_module := (head_module s)(c := m)\<rparr>)"

lemma fresh_com_held:
  assumes "held s E C cs" and "c \<notin> E \<union> C" and "c \<noteq> NULL"
  shows "held (fresh_com em e m n c s) E (insert c C) cs" and "loose (fresh_com em e m n c s) c"
proof -
  let ?h = "s\<lparr>head_manager := (head_manager s)(c := em), head_entity := (head_entity s)(c := e),
    head_module := (head_module s)(c := m)\<rparr>"
  have "held ?h E C cs" using assms(1) held_cong[of ?h s] by simp
  from held_init[OF this assms(2,3)] show "held (fresh_com em e m n c s) E (insert c C) cs"
    "loose (fresh_com em e m n c s) c" unfolding fresh_com_def by blast+
qed

lemma EM_add_com_created:
  assumes created: "create c e t = (r, t) \<or> create c e t = (r, snd (AEntity_push e c t)) \<and> 0 \<le> r"
    and "c \<noteq> NULL" and "c \<noteq> e" and "e \<noteq> NULL"
    and fresh: "t = fresh_com em e m n c s" and loose: "loose t c" and own: "has_components t e cs"
  shows "EM_add_com em e m n create c s =
    (if r < 0 then (NULL, EM_del_com c t)
     else (c, (snd (AEntity_push e c t))\<lparr>com_dynmng := (com_dynmng t)(c := True)\<rparr>))"
proof -
  have "list_empty (entry t) c" using loose ring_empty_iff[of "entry t" c "[]"] by (simp add: loose_def)
  moreover have "\<not> list_empty (entry (snd (AEntity_push e c t))) c"
  proof -
    have "ring (entry (snd (AEntity_push e c t))) e (cs @ [c])"
      using AEntity_push_components[OF own loose assms(4,3)] by (simp add: has_components_def)
    from ring_mid(2)[of _ e cs c "[]", OF this] assms(3) show ?thesis by (auto simp: list_empty_def)
  qed
  moreover have "EM_add_com em e m n create c s = (case create c e t of (r, s) \<Rightarrow>
      if r < 0 then (NULL, EM_del_com c s)
      else (c, if list_empty (entry s) c then snd (AEntity_push e c (s\<lparr>com_dynmng := (com_dynmng s)(c := True)\<rparr>))
               else s\<lparr>com_dynmng := (com_dynmng s)(c := True)\<rparr>))"
    using assms(2) by (auto simp: EM_add_com_def fresh fresh_com_def Let_def split: prod.splits)
  ultimately show ?thesis using created by (auto simp: AEntity_push_def)
qed

end
