(* ===== verification/Rb_Tree.thy ===== *)
theory Rb_Tree
  imports Prelude
begin

text \<open>
  \<^verbatim>\<open>base/rbtree.c\<close> and \<^verbatim>\<open>base/rbtree.h\<close>: red-black trees of nodes with parent pointers, as the
  timers, the entity, event and device managers and the logger use them.  The heap holds the
  members of every node; dereferencing \<^verbatim>\<open>NULL\<close> is undefined (\<open>None\<close>), and a loop that does not
  end has no value either, so a result \<open>Some h\<close> excludes both.
\<close>

unbundle bit_operations_syntax

section \<open>The packed member\<close>

text \<open>
  \<^verbatim>\<open>rb_parent_color\<close> is the parent's address with the colour in its lowest bit.  The macros and
  setters on the packed word are these; for addresses that are multiples of four they behave as
  two independent members, which is how the heap below keeps them.
\<close>

type_synonym ulong = "64 word"

definition pc_parent :: "ulong \<Rightarrow> ulong" where "pc_parent pc = pc AND NOT 3"
definition pc_black :: "ulong \<Rightarrow> bool" where "pc_black pc = (pc AND 1 \<noteq> 0)"
definition pc_set_red :: "ulong \<Rightarrow> ulong" where "pc_set_red pc = pc AND NOT 1"
definition pc_set_black :: "ulong \<Rightarrow> ulong" where "pc_set_black pc = pc OR 1"
definition pc_set_parent :: "ulong \<Rightarrow> ulong \<Rightarrow> ulong" where "pc_set_parent p pc = (pc AND 3) OR p"
definition pc_set_color :: "bool \<Rightarrow> ulong \<Rightarrow> ulong" where
  "pc_set_color black pc = (pc AND NOT 1) OR (if black then 1 else 0)"

section \<open>Nodes\<close>

record rb_node =
  rb_left :: "addr \<Rightarrow> addr"
  rb_right :: "addr \<Rightarrow> addr"
  rb_parent :: "addr \<Rightarrow> addr"
  rb_black :: "addr \<Rightarrow> bool"
  rb_root :: addr

definition get :: "(rb_node \<Rightarrow> addr \<Rightarrow> 'a) \<Rightarrow> rb_node \<Rightarrow> addr \<Rightarrow> 'a option" where
  "get member h a = (if a = NULL then None else Some (member h a))"

definition set_left :: "addr \<Rightarrow> addr \<Rightarrow> rb_node \<Rightarrow> rb_node option" where
  "set_left a v h = (if a = NULL then None else Some (h\<lparr>rb_left := (rb_left h)(a := v)\<rparr>))"

definition set_right :: "addr \<Rightarrow> addr \<Rightarrow> rb_node \<Rightarrow> rb_node option" where
  "set_right a v h = (if a = NULL then None else Some (h\<lparr>rb_right := (rb_right h)(a := v)\<rparr>))"

definition rb_set_parent :: "addr \<Rightarrow> addr \<Rightarrow> rb_node \<Rightarrow> rb_node option" where
  "rb_set_parent a p h = (if a = NULL then None else Some (h\<lparr>rb_parent := (rb_parent h)(a := p)\<rparr>))"

definition rb_set_color :: "addr \<Rightarrow> bool \<Rightarrow> rb_node \<Rightarrow> rb_node option" where
  "rb_set_color a c h = (if a = NULL then None else Some (h\<lparr>rb_black := (rb_black h)(a := c)\<rparr>))"

definition rb_set_black :: "addr \<Rightarrow> rb_node \<Rightarrow> rb_node option" where
  "rb_set_black a h = rb_set_color a True h"

definition rb_set_red :: "addr \<Rightarrow> rb_node \<Rightarrow> rb_node option" where
  "rb_set_red a h = rb_set_color a False h"

text \<open>\<^verbatim>\<open>a && rb_is_red(a)\<close> and \<^verbatim>\<open>!a || rb_is_black(a)\<close>.\<close>

definition some_red :: "rb_node \<Rightarrow> addr \<Rightarrow> bool" where
  "some_red h a = (a \<noteq> NULL \<and> \<not> rb_black h a)"

definition none_or_black :: "rb_node \<Rightarrow> addr \<Rightarrow> bool" where
  "none_or_black h a = (a = NULL \<or> rb_black h a)"

definition rb_rotate_left :: "addr \<Rightarrow> rb_node \<Rightarrow> rb_node option" where
  "rb_rotate_left node h = do {
     right \<leftarrow> get rb_right h node;
     parent \<leftarrow> get rb_parent h node;
     rl \<leftarrow> get rb_left h right;
     h \<leftarrow> set_right node rl h;
     h \<leftarrow> (if rl \<noteq> NULL then rb_set_parent rl node h else Some h);
     h \<leftarrow> set_left right node h;
     h \<leftarrow> rb_set_parent right parent h;
     h \<leftarrow> (if parent \<noteq> NULL
           then if node = rb_left h parent then set_left parent right h else set_right parent right h
           else Some (h\<lparr>rb_root := right\<rparr>));
     rb_set_parent node right h
   }"

definition rb_rotate_right :: "addr \<Rightarrow> rb_node \<Rightarrow> rb_node option" where
  "rb_rotate_right node h = do {
     left \<leftarrow> get rb_left h node;
     parent \<leftarrow> get rb_parent h node;
     lr \<leftarrow> get rb_right h left;
     h \<leftarrow> set_left node lr h;
     h \<leftarrow> (if lr \<noteq> NULL then rb_set_parent lr node h else Some h);
     h \<leftarrow> set_right left node h;
     h \<leftarrow> rb_set_parent left parent h;
     h \<leftarrow> (if parent \<noteq> NULL
           then if node = rb_right h parent then set_right parent left h else set_left parent left h
           else Some (h\<lparr>rb_root := left\<rparr>));
     rb_set_parent node left h
   }"

section \<open>Insertion\<close>

partial_function (option) rb_insert_color_loop :: "addr \<Rightarrow> rb_node \<Rightarrow> rb_node option" where
  "rb_insert_color_loop node h = do {
     parent \<leftarrow> get rb_parent h node;
     if \<not> some_red h parent then Some h
     else do {
       gparent \<leftarrow> get rb_parent h parent;
       gl \<leftarrow> get rb_left h gparent;
       if parent = gl
       then do {
         uncle \<leftarrow> get rb_right h gparent;
         if some_red h uncle
         then do {
           h \<leftarrow> rb_set_black uncle h;
           h \<leftarrow> rb_set_black parent h;
           h \<leftarrow> rb_set_red gparent h;
           rb_insert_color_loop gparent h
         }
         else do {
           pr \<leftarrow> get rb_right h parent;
           (node, parent, h) \<leftarrow> (if pr = node
                                 then do { h \<leftarrow> rb_rotate_left parent h; Some (parent, node, h) }
                                 else Some (node, parent, h));
           h \<leftarrow> rb_set_black parent h;
           h \<leftarrow> rb_set_red gparent h;
           h \<leftarrow> rb_rotate_right gparent h;
           rb_insert_color_loop node h
         }
       }
       else do {
         uncle \<leftarrow> get rb_left h gparent;
         if some_red h uncle
         then do {
           h \<leftarrow> rb_set_black uncle h;
           h \<leftarrow> rb_set_black parent h;
           h \<leftarrow> rb_set_red gparent h;
           rb_insert_color_loop gparent h
         }
         else do {
           pl \<leftarrow> get rb_left h parent;
           (node, parent, h) \<leftarrow> (if pl = node
                                 then do { h \<leftarrow> rb_rotate_right parent h; Some (parent, node, h) }
                                 else Some (node, parent, h));
           h \<leftarrow> rb_set_black parent h;
           h \<leftarrow> rb_set_red gparent h;
           h \<leftarrow> rb_rotate_left gparent h;
           rb_insert_color_loop node h
         }
       }
     }
   }"

definition rb_insert_color :: "addr \<Rightarrow> rb_node \<Rightarrow> rb_node option" where
  "rb_insert_color node h = do {
     h \<leftarrow> rb_insert_color_loop node h;
     rb_set_black (rb_root h) h
   }"

text \<open>
  \<open>rb_link_node\<close> stores the node through a pointer to a link: the root (\<open>None\<close>), or the left
  (\<open>True\<close>) or right member of the parent.
\<close>

definition rb_link_node :: "addr \<Rightarrow> addr \<Rightarrow> bool option \<Rightarrow> rb_node \<Rightarrow> rb_node option" where
  "rb_link_node node parent link h = do {
     h \<leftarrow> rb_set_parent node parent h;
     h \<leftarrow> rb_set_color node False h;
     h \<leftarrow> set_right node NULL h;
     h \<leftarrow> set_left node NULL h;
     case link of
       None \<Rightarrow> Some (h\<lparr>rb_root := node\<rparr>)
     | Some True \<Rightarrow> set_left parent node h
     | Some False \<Rightarrow> set_right parent node h
   }"

text \<open>
  The functions that \<^verbatim>\<open>rb_tree_define\<close> expands to, for a comparison \<open>cmp\<close> of the searched key with
  the entry of a node.  \<open>rb_insert_at\<close> is the descent: the node found, or the parent and link.
\<close>

partial_function (option) rb_find :: "(addr \<Rightarrow> int) \<Rightarrow> rb_node \<Rightarrow> addr \<Rightarrow> addr option" where
  "rb_find cmp h node =
     (if node \<noteq> NULL
      then let result = cmp node
           in if result < 0 then rb_find cmp h (rb_left h node)
              else if result > 0 then rb_find cmp h (rb_right h node)
              else Some node
      else Some NULL)"

partial_function (option) rb_insert_at ::
    "(addr \<Rightarrow> int) \<Rightarrow> rb_node \<Rightarrow> addr \<Rightarrow> addr \<Rightarrow> bool option \<Rightarrow> (addr \<times> addr \<times> bool option) option" where
  "rb_insert_at cmp h node parent link =
     (if node \<noteq> NULL
      then let result = cmp node
           in if result < 0 then rb_insert_at cmp h (rb_left h node) node (Some True)
              else if result > 0 then rb_insert_at cmp h (rb_right h node) node (Some False)
              else Some (node, parent, link)
      else Some (NULL, parent, link))"

definition rb_insert :: "(addr \<Rightarrow> int) \<Rightarrow> addr \<Rightarrow> rb_node \<Rightarrow> (addr \<times> rb_node) option" where
  "rb_insert cmp data h = do {
     (found, parent, link) \<leftarrow> rb_insert_at cmp h (rb_root h) NULL None;
     if found \<noteq> NULL then Some (found, h)
     else do {
       h \<leftarrow> rb_link_node data parent link h;
       h \<leftarrow> rb_insert_color data h;
       Some (NULL, h)
     }
   }"

partial_function (option) rb_upper_from :: "(addr \<Rightarrow> int) \<Rightarrow> rb_node \<Rightarrow> addr \<Rightarrow> addr \<Rightarrow> addr option" where
  "rb_upper_from cmp h node it =
     (if node \<noteq> NULL
      then if cmp node < 0 then rb_upper_from cmp h (rb_left h node) node
           else rb_upper_from cmp h (rb_right h node) it
      else Some it)"

definition rb_upper :: "(addr \<Rightarrow> int) \<Rightarrow> rb_node \<Rightarrow> addr option" where
  "rb_upper cmp h = rb_upper_from cmp h (rb_root h) NULL"

partial_function (option) rb_lower_from :: "(addr \<Rightarrow> int) \<Rightarrow> rb_node \<Rightarrow> addr \<Rightarrow> addr \<Rightarrow> addr option" where
  "rb_lower_from cmp h node it =
     (if node \<noteq> NULL
      then if cmp node \<le> 0 then rb_lower_from cmp h (rb_left h node) node
           else rb_lower_from cmp h (rb_right h node) it
      else Some it)"

definition rb_lower :: "(addr \<Rightarrow> int) \<Rightarrow> rb_node \<Rightarrow> addr option" where
  "rb_lower cmp h = rb_lower_from cmp h (rb_root h) NULL"

section \<open>Deletion\<close>

text \<open>
  One round for a left child: the sibling, made black by a rotation when it is red; then either
  the sibling is painted red and the loop goes up (\<open>True\<close>), or the tree is balanced and the loop
  ends (\<open>False\<close>).  The same for a right child.
\<close>

definition rb_sibling_right :: "addr \<Rightarrow> rb_node \<Rightarrow> (addr \<times> rb_node) option" where
  "rb_sibling_right parent h = do {
     other \<leftarrow> get rb_right h parent;
     black \<leftarrow> get rb_black h other;
     if \<not> black
     then do {
       h \<leftarrow> rb_set_black other h;
       h \<leftarrow> rb_set_red parent h;
       h \<leftarrow> rb_rotate_left parent h;
       other \<leftarrow> get rb_right h parent;
       Some (other, h)
     }
     else Some (other, h)
   }"

definition rb_balance_left :: "addr \<Rightarrow> addr \<Rightarrow> rb_node \<Rightarrow> (bool \<times> rb_node) option" where
  "rb_balance_left parent other h = do {
     ol \<leftarrow> get rb_left h other;
     or \<leftarrow> get rb_right h other;
     if none_or_black h ol \<and> none_or_black h or
     then do {
       h \<leftarrow> rb_set_red other h;
       Some (True, h)
     }
     else do {
       (other, h) \<leftarrow> (if none_or_black h or
          then do {
            h \<leftarrow> rb_set_black ol h;
            h \<leftarrow> rb_set_red other h;
            h \<leftarrow> rb_rotate_right other h;
            other \<leftarrow> get rb_right h parent;
            Some (other, h)
          }
          else Some (other, h));
       c \<leftarrow> get rb_black h parent;
       h \<leftarrow> rb_set_color other c h;
       h \<leftarrow> rb_set_black parent h;
       or \<leftarrow> get rb_right h other;
       h \<leftarrow> rb_set_black or h;
       h \<leftarrow> rb_rotate_left parent h;
       Some (False, h)
     }
   }"

definition rb_sibling_left :: "addr \<Rightarrow> rb_node \<Rightarrow> (addr \<times> rb_node) option" where
  "rb_sibling_left parent h = do {
     other \<leftarrow> get rb_left h parent;
     black \<leftarrow> get rb_black h other;
     if \<not> black
     then do {
       h \<leftarrow> rb_set_black other h;
       h \<leftarrow> rb_set_red parent h;
       h \<leftarrow> rb_rotate_right parent h;
       other \<leftarrow> get rb_left h parent;
       Some (other, h)
     }
     else Some (other, h)
   }"

definition rb_balance_right :: "addr \<Rightarrow> addr \<Rightarrow> rb_node \<Rightarrow> (bool \<times> rb_node) option" where
  "rb_balance_right parent other h = do {
     ol \<leftarrow> get rb_left h other;
     or \<leftarrow> get rb_right h other;
     if none_or_black h ol \<and> none_or_black h or
     then do {
       h \<leftarrow> rb_set_red other h;
       Some (True, h)
     }
     else do {
       (other, h) \<leftarrow> (if none_or_black h ol
          then do {
            h \<leftarrow> rb_set_black or h;
            h \<leftarrow> rb_set_red other h;
            h \<leftarrow> rb_rotate_left other h;
            other \<leftarrow> get rb_left h parent;
            Some (other, h)
          }
          else Some (other, h));
       c \<leftarrow> get rb_black h parent;
       h \<leftarrow> rb_set_color other c h;
       h \<leftarrow> rb_set_black parent h;
       ol \<leftarrow> get rb_left h other;
       h \<leftarrow> rb_set_black ol h;
       h \<leftarrow> rb_rotate_right parent h;
       Some (False, h)
     }
   }"

partial_function (option) rb_erase_color_loop :: "addr \<Rightarrow> addr \<Rightarrow> rb_node \<Rightarrow> (addr \<times> rb_node) option" where
  "rb_erase_color_loop node parent h =
     (if \<not> (none_or_black h node \<and> node \<noteq> rb_root h) then Some (node, h)
      else do {
        pl \<leftarrow> get rb_left h parent;
        (up, h) \<leftarrow> (if pl = node
           then do { (other, h) \<leftarrow> rb_sibling_right parent h; rb_balance_left parent other h }
           else do { (other, h) \<leftarrow> rb_sibling_left parent h; rb_balance_right parent other h });
        if up then do {
          gparent \<leftarrow> get rb_parent h parent;
          rb_erase_color_loop parent gparent h
        }
        else Some (rb_root h, h)
      })"

definition rb_erase_color :: "addr \<Rightarrow> addr \<Rightarrow> rb_node \<Rightarrow> rb_node option" where
  "rb_erase_color node parent h = do {
     (node, h) \<leftarrow> rb_erase_color_loop node parent h;
     if node \<noteq> NULL then rb_set_black node h else Some h
   }"

partial_function (option) leftmost :: "rb_node \<Rightarrow> addr \<Rightarrow> addr option" where
  "leftmost h n = do {
     left \<leftarrow> get rb_left h n;
     if left \<noteq> NULL then leftmost h left else Some n
   }"

partial_function (option) rightmost :: "rb_node \<Rightarrow> addr \<Rightarrow> addr option" where
  "rightmost h n = do {
     right \<leftarrow> get rb_right h n;
     if right \<noteq> NULL then rightmost h right else Some n
   }"

text \<open>Storing a child into the link of a parent that leads to \<open>old\<close>, or into the root.\<close>

definition relink :: "addr \<Rightarrow> addr \<Rightarrow> addr \<Rightarrow> rb_node \<Rightarrow> rb_node option" where
  "relink parent old child h =
     (if parent \<noteq> NULL
      then if rb_left h parent = old then set_left parent child h else set_right parent child h
      else Some (h\<lparr>rb_root := child\<rparr>))"

text \<open>The case of two children: the successor is moved to the place of \<open>old\<close>.\<close>

definition rb_erase_two :: "addr \<Rightarrow> rb_node \<Rightarrow> rb_node option" where
  "rb_erase_two old h = do {
     r \<leftarrow> get rb_right h old;
     node \<leftarrow> leftmost h r;
     oldparent \<leftarrow> get rb_parent h old;
     h \<leftarrow> relink oldparent old node h;
     child \<leftarrow> get rb_right h node;
     parent \<leftarrow> get rb_parent h node;
     color \<leftarrow> get rb_black h node;
     (parent, h) \<leftarrow> (if parent = old then Some (node, h)
        else do {
          h \<leftarrow> (if child \<noteq> NULL then rb_set_parent child parent h else Some h);
          h \<leftarrow> set_left parent child h;
          oldright \<leftarrow> get rb_right h old;
          h \<leftarrow> set_right node oldright h;
          h \<leftarrow> rb_set_parent oldright node h;
          Some (parent, h)
        });
     oldparent \<leftarrow> get rb_parent h old;
     oldcolor \<leftarrow> get rb_black h old;
     h \<leftarrow> rb_set_parent node oldparent h;
     h \<leftarrow> rb_set_color node oldcolor h;
     oldleft \<leftarrow> get rb_left h old;
     h \<leftarrow> set_left node oldleft h;
     h \<leftarrow> rb_set_parent oldleft node h;
     if color then rb_erase_color child parent h else Some h
   }"

definition rb_erase_one :: "addr \<Rightarrow> addr \<Rightarrow> rb_node \<Rightarrow> rb_node option" where
  "rb_erase_one node child h = do {
     parent \<leftarrow> get rb_parent h node;
     color \<leftarrow> get rb_black h node;
     h \<leftarrow> (if child \<noteq> NULL then rb_set_parent child parent h else Some h);
     h \<leftarrow> relink parent node child h;
     if color then rb_erase_color child parent h else Some h
   }"

definition rb_erase :: "addr \<Rightarrow> rb_node \<Rightarrow> rb_node option" where
  "rb_erase node h = do {
     l \<leftarrow> get rb_left h node;
     r \<leftarrow> get rb_right h node;
     if l = NULL then rb_erase_one node r h
     else if r = NULL then rb_erase_one node l h
     else rb_erase_two node h
   }"

section \<open>Traversal and replacement\<close>

definition rb_first :: "rb_node \<Rightarrow> addr option" where
  "rb_first h = (if rb_root h = NULL then Some NULL else leftmost h (rb_root h))"

definition rb_last :: "rb_node \<Rightarrow> addr option" where
  "rb_last h = (if rb_root h = NULL then Some NULL else rightmost h (rb_root h))"

partial_function (option) climb_right :: "rb_node \<Rightarrow> addr \<Rightarrow> addr option" where
  "climb_right h node = do {
     parent \<leftarrow> get rb_parent h node;
     if parent \<noteq> NULL \<and> node = rb_right h parent then climb_right h parent else Some parent
   }"

partial_function (option) climb_left :: "rb_node \<Rightarrow> addr \<Rightarrow> addr option" where
  "climb_left h node = do {
     parent \<leftarrow> get rb_parent h node;
     if parent \<noteq> NULL \<and> node = rb_left h parent then climb_left h parent else Some parent
   }"

definition rb_next :: "rb_node \<Rightarrow> addr \<Rightarrow> addr option" where
  "rb_next h node = do {
     parent \<leftarrow> get rb_parent h node;
     if parent = node then Some NULL
     else if rb_right h node \<noteq> NULL then leftmost h (rb_right h node)
     else climb_right h node
   }"

definition rb_prev :: "rb_node \<Rightarrow> addr \<Rightarrow> addr option" where
  "rb_prev h node = do {
     parent \<leftarrow> get rb_parent h node;
     if parent = node then Some NULL
     else if rb_left h node \<noteq> NULL then rightmost h (rb_left h node)
     else climb_left h node
   }"

definition rb_replace_node :: "addr \<Rightarrow> addr \<Rightarrow> rb_node \<Rightarrow> rb_node option" where
  "rb_replace_node victim new h = do {
     parent \<leftarrow> get rb_parent h victim;
     h \<leftarrow> relink parent victim new h;
     l \<leftarrow> get rb_left h victim;
     h \<leftarrow> (if l \<noteq> NULL then rb_set_parent l new h else Some h);
     r \<leftarrow> get rb_right h victim;
     h \<leftarrow> (if r \<noteq> NULL then rb_set_parent r new h else Some h);
     p \<leftarrow> get rb_parent h victim;
     c \<leftarrow> get rb_black h victim;
     h \<leftarrow> rb_set_parent new p h;
     h \<leftarrow> rb_set_color new c h;
     h \<leftarrow> set_left new l h;
     set_right new r h
   }"

end
