(* ===== verification/Rb_Frame.thy ===== *)
theory Rb_Frame
  imports Rb_Tree
begin

text \<open>
  What the tree operations leave alone: a set of nodes that is closed under the links of the
  heap stays closed, and no node outside of it is written.  Clients use it for
  \<^verbatim>\<open>RB_EMPTY_NODE\<close>, which reads a node that is not in the tree.
\<close>

section \<open>A postcondition of an optional result\<close>

definition runs :: "'a option \<Rightarrow> ('a \<Rightarrow> bool) \<Rightarrow> bool" where
  "runs m P = (\<forall>r. m = Some r \<longrightarrow> P r)"

named_theorems runs_intros "rules for postconditions of the tree operations"

lemma runs_bind [runs_intros]: "runs m (\<lambda>x. runs (f x) P) \<Longrightarrow> runs (Option.bind m f) P"
  by (cases m) (auto simp: runs_def)

lemma runs_if [runs_intros]: "(b \<Longrightarrow> runs m P) \<Longrightarrow> (\<not> b \<Longrightarrow> runs m' P) \<Longrightarrow> runs (if b then m else m') P"
  by simp

lemma runs_Some [runs_intros]: "P x \<Longrightarrow> runs (Some x) P"
  by (simp add: runs_def)

lemma runs_None [runs_intros]: "runs None P"
  by (simp add: runs_def)

lemma runs_mono: "runs m Q \<Longrightarrow> (\<And>x. Q x \<Longrightarrow> P x) \<Longrightarrow> runs m P"
  by (auto simp: runs_def)

lemma runs_pair [runs_intros]: "runs (f (fst p) (snd p)) P \<Longrightarrow> runs (case p of (a, b) \<Rightarrow> f a b) P"
  by (cases p) simp

lemma runs_result: "runs m P \<Longrightarrow> m = Some r \<Longrightarrow> P r"
  by (simp add: runs_def)

section \<open>Closed sets of nodes\<close>

definition inside :: "addr set \<Rightarrow> rb_node \<Rightarrow> rb_node \<Rightarrow> bool" where
  "inside W g h =
     (rb_root h \<in> insert NULL W \<and>
      (\<forall>a \<in> W. rb_left h a \<in> insert NULL W \<and> rb_right h a \<in> insert NULL W \<and> rb_parent h a \<in> insert NULL W) \<and>
      (\<forall>a. a \<notin> W \<longrightarrow> rb_left h a = rb_left g a \<and> rb_right h a = rb_right g a \<and>
         rb_parent h a = rb_parent g a \<and> rb_black h a = rb_black g a))"

lemma inside_get:
  assumes "inside W g h" and "a \<in> insert NULL W"
  shows "runs (get rb_left h a) (\<lambda>v. v \<in> insert NULL W \<and> a \<in> W)"
    and "runs (get rb_right h a) (\<lambda>v. v \<in> insert NULL W \<and> a \<in> W)"
    and "runs (get rb_parent h a) (\<lambda>v. v \<in> insert NULL W \<and> a \<in> W)"
  using assms by (auto simp: runs_def get_def inside_def)

lemma inside_get_black: "runs (get rb_black h a) (\<lambda>_. True)"
  by (simp add: runs_def)

lemma inside_set:
  assumes "inside W g h" and "a \<in> insert NULL W" and "v \<in> insert NULL W"
  shows "runs (set_left a v h) (inside W g)" and "runs (set_right a v h) (inside W g)"
    and "runs (rb_set_parent a v h) (inside W g)"
  using assms by (auto simp: runs_def set_left_def set_right_def rb_set_parent_def inside_def)

lemma inside_color:
  assumes "inside W g h" and "a \<in> insert NULL W"
  shows "runs (rb_set_color a c h) (inside W g)" and "runs (rb_set_black a h) (inside W g)"
    and "runs (rb_set_red a h) (inside W g)"
  using assms by (auto simp: runs_def rb_set_color_def rb_set_black_def rb_set_red_def inside_def)

lemmas inside_steps = inside_get[THEN runs_mono] inside_set[THEN runs_mono] inside_color[THEN runs_mono]

declare inside_get_black[THEN runs_mono, runs_intros]

lemma inside_root: "inside W g h \<Longrightarrow> v \<in> insert NULL W \<Longrightarrow> inside W g (h\<lparr>rb_root := v\<rparr>)"
  by (auto simp: inside_def)

lemma inside_fields:
  assumes "inside W g h"
  shows "rb_root h \<in> insert NULL W"
    and "a \<in> W \<Longrightarrow> rb_left h a \<in> insert NULL W" and "a \<in> W \<Longrightarrow> rb_right h a \<in> insert NULL W"
    and "a \<in> W \<Longrightarrow> rb_parent h a \<in> insert NULL W"
  using assms by (auto simp: inside_def)

section \<open>The operations stay inside\<close>

lemma inside_rotate:
  assumes "inside W g h" and "a \<in> insert NULL W"
  shows "runs (rb_rotate_left a h) (inside W g)" and "runs (rb_rotate_right a h) (inside W g)"
  unfolding rb_rotate_left_def rb_rotate_right_def
  using assms by - (intro runs_intros inside_steps[where W=W and g=g]; auto intro: inside_root)+

lemmas inside_moves = inside_steps inside_rotate[THEN runs_mono]

lemma inside_relink:
  assumes "inside W g h" and "parent \<in> insert NULL W" and "child \<in> insert NULL W"
  shows "runs (relink parent old child h) (inside W g)"
  unfolding relink_def
  using assms by (intro runs_intros inside_steps[where W=W and g=g]; auto intro: inside_root)

lemma inside_balance:
  assumes "inside W g h" and "parent \<in> insert NULL W" and "other \<in> insert NULL W"
  shows "runs (rb_balance_left parent other h) (\<lambda>(up, h). inside W g h)"
    and "runs (rb_balance_right parent other h) (\<lambda>(up, h). inside W g h)"
  unfolding rb_balance_left_def rb_balance_right_def
  using assms by - (intro runs_intros inside_moves[where W=W and g=g]; auto)+

lemma inside_sibling:
  assumes "inside W g h" and "parent \<in> insert NULL W"
  shows "runs (rb_sibling_right parent h) (\<lambda>(other, h). other \<in> insert NULL W \<and> inside W g h)"
    and "runs (rb_sibling_left parent h) (\<lambda>(other, h). other \<in> insert NULL W \<and> inside W g h)"
  unfolding rb_sibling_right_def rb_sibling_left_def
  using assms by - (intro runs_intros inside_moves[where W=W and g=g]; auto)+

lemma inside_insert_color_loop:
  "inside W g h \<Longrightarrow> node \<in> insert NULL W \<Longrightarrow> runs (rb_insert_color_loop node h) (inside W g)"
proof -
  have "inside W g h \<longrightarrow> node \<in> insert NULL W \<longrightarrow> inside W g r" if r: "rb_insert_color_loop node h = Some r" for r
  proof (rule rb_insert_color_loop.raw_induct[OF _ r, where P = "\<lambda>node h r. inside W g h \<longrightarrow> node \<in> insert NULL W \<longrightarrow> inside W g r"], goal_cases)
    case (1 loop node h r)
    have rec: "runs (loop n k) (inside W g)" if "inside W g k" and "n \<in> insert NULL W" for n k
      using 1(1)[of n k] that by (auto simp: runs_def)
    show ?case
    proof (intro impI)
      assume a: "inside W g h" "node \<in> insert NULL W"
      show "inside W g r"
        using 1(2)
        by (rule runs_result[rotated])
          (use a in \<open>intro runs_intros inside_moves[where W=W and g=g] rec[THEN runs_mono]; auto simp: some_red_def dest: inside_fields\<close>)
    qed
  qed
  then show "inside W g h \<Longrightarrow> node \<in> insert NULL W \<Longrightarrow> runs (rb_insert_color_loop node h) (inside W g)"
    by (auto simp: runs_def)
qed

lemma inside_erase_color_loop:
  "inside W g h \<Longrightarrow> node \<in> insert NULL W \<Longrightarrow> parent \<in> insert NULL W \<Longrightarrow>
     runs (rb_erase_color_loop node parent h) (\<lambda>(n, h). n \<in> insert NULL W \<and> inside W g h)"
proof -
  have "inside W g h \<longrightarrow> node \<in> insert NULL W \<longrightarrow> parent \<in> insert NULL W \<longrightarrow>
      fst r \<in> insert NULL W \<and> inside W g (snd r)" if r: "rb_erase_color_loop node parent h = Some r" for r
  proof (rule rb_erase_color_loop.raw_induct[OF _ r, where P = "\<lambda>node parent h r. inside W g h \<longrightarrow>
      node \<in> insert NULL W \<longrightarrow> parent \<in> insert NULL W \<longrightarrow> fst r \<in> insert NULL W \<and> inside W g (snd r)"], goal_cases)
    case (1 loop node parent h r)
    have rec: "runs (loop n p k) (\<lambda>r. fst r \<in> insert NULL W \<and> inside W g (snd r))"
      if "inside W g k" and "n \<in> insert NULL W" and "p \<in> insert NULL W" for n p k
      using 1(1)[of n p k] that by (cases "loop n p k") (auto simp: runs_def)
    show ?case
    proof (intro impI)
      assume a: "inside W g h" "node \<in> insert NULL W" "parent \<in> insert NULL W"
      show "fst r \<in> insert NULL W \<and> inside W g (snd r)"
        using 1(2)
        by (rule runs_result[rotated])
          (use a in \<open>intro runs_intros inside_moves[where W=W and g=g] rec[THEN runs_mono]
              inside_sibling[THEN runs_mono, where W1=W and g1=g]
              inside_balance[THEN runs_mono, where W1=W and g1=g];
             auto dest: inside_fields(1)\<close>)
    qed
  qed
  then show "inside W g h \<Longrightarrow> node \<in> insert NULL W \<Longrightarrow> parent \<in> insert NULL W \<Longrightarrow>
     runs (rb_erase_color_loop node parent h) (\<lambda>(n, h). n \<in> insert NULL W \<and> inside W g h)"
    by (auto simp: runs_def)
qed

lemma inside_erase_color:
  assumes "inside W g h" and "node \<in> insert NULL W" and "parent \<in> insert NULL W"
  shows "runs (rb_erase_color node parent h) (inside W g)"
  unfolding rb_erase_color_def
  by (intro runs_intros inside_steps[where W=W and g=g] inside_erase_color_loop[THEN runs_mono, where W1=W and g1=g])
    (use assms in auto)

lemma inside_leftmost: "inside W g h \<Longrightarrow> n \<in> insert NULL W \<Longrightarrow> runs (leftmost h n) (\<lambda>v. v \<in> W)"
proof -
  have "inside W g h \<longrightarrow> n \<in> insert NULL W \<longrightarrow> r \<in> W" if r: "leftmost h n = Some r" for r
  proof (rule leftmost.raw_induct[OF _ r, where P = "\<lambda>h n r. inside W g h \<longrightarrow> n \<in> insert NULL W \<longrightarrow> r \<in> W"], goal_cases)
    case (1 loop k n y)
    then show ?case by (auto simp: get_def inside_def bind_eq_Some_conv split: if_splits)
  qed
  then show "inside W g h \<Longrightarrow> n \<in> insert NULL W \<Longrightarrow> runs (leftmost h n) (\<lambda>v. v \<in> W)"
    by (auto simp: runs_def)
qed

lemma inside_erase:
  assumes "inside W g h" and "node \<in> W"
  shows "runs (rb_erase node h) (inside W g)"
proof -
  have one: "runs (rb_erase_one node child k) (inside W g)"
    if "inside W g k" and "child \<in> insert NULL W" for child k
    unfolding rb_erase_one_def
    by (intro runs_intros inside_steps[where W=W and g=g] inside_relink[THEN runs_mono, where W1=W and g1=g]
        inside_erase_color[where W=W and g=g]) (use that assms in auto)
  have two: "runs (rb_erase_two node k) (inside W g)" if "inside W g k" for k
    unfolding rb_erase_two_def
    by (intro runs_intros inside_steps[where W=W and g=g] inside_relink[THEN runs_mono, where W1=W and g1=g]
        inside_leftmost[THEN runs_mono, where W1=W and g1=g]
        inside_erase_color[where W=W and g=g]) (use that assms in auto)
  show ?thesis unfolding rb_erase_def
    by (intro runs_intros inside_steps[where W=W and g=g] one two) (use assms in auto)
qed

lemma inside_insert_at:
  assumes "inside W g h" and "node \<in> insert NULL W" and "parent \<in> insert NULL W"
  shows "runs (rb_insert_at cmp h node parent link) (\<lambda>(x, p, l). x \<in> insert NULL W \<and> p \<in> insert NULL W)"
proof -
  have "inside W g h \<longrightarrow> node \<in> insert NULL W \<longrightarrow> parent \<in> insert NULL W \<longrightarrow>
      fst r \<in> insert NULL W \<and> fst (snd r) \<in> insert NULL W"
    if r: "rb_insert_at cmp h node parent link = Some r" for r
  proof (rule rb_insert_at.raw_induct[OF _ r, where P = "\<lambda>cmp h node parent link r. inside W g h \<longrightarrow>
      node \<in> insert NULL W \<longrightarrow> parent \<in> insert NULL W \<longrightarrow>
      fst r \<in> insert NULL W \<and> fst (snd r) \<in> insert NULL W"], goal_cases)
    case (1 loop cmp h node parent link r)
    have rec: "fst s \<in> insert NULL W \<and> fst (snd s) \<in> insert NULL W"
      if "loop cmp h m q l = Some s" and "inside W g h" and "m \<in> insert NULL W" and "q \<in> insert NULL W" for m q l s
      using 1(1)[of cmp h m q l s] that by blast
    show ?case
    proof (intro impI)
      assume a: "inside W g h" "node \<in> insert NULL W" "parent \<in> insert NULL W"
      show "fst r \<in> insert NULL W \<and> fst (snd r) \<in> insert NULL W"
        using 1(2) a rec[of "rb_left h node" node "Some True" r] rec[of "rb_right h node" node "Some False" r]
          inside_fields(2,3)[OF a(1), of node]
        by (auto simp: Let_def split: if_splits)
    qed
  qed
  then show ?thesis using assms by (auto simp: runs_def)
qed

text \<open>A node that is linked in joins the closed set; its old members do not matter.\<close>

lemma inside_link:
  assumes "inside W g h" and "n \<noteq> NULL" and "p \<in> insert NULL W" and "n \<notin> W"
  shows "runs (rb_link_node n p link h) (inside (insert n W) g)"
  using assms by (cases link) (auto simp: runs_def rb_link_node_def rb_set_parent_def rb_set_color_def
      set_left_def set_right_def inside_def split: bool.splits)

lemma inside_insert:
  assumes "inside W g h" and "n \<noteq> NULL" and "n \<notin> W"
  shows "runs (rb_insert cmp n h) (\<lambda>(x, h'). if x = NULL then inside (insert n W) g h' else x \<in> W \<and> h' = h)"
proof -
  let ?W = "insert n W"
  have color: "runs (rb_insert_color n k) (inside ?W g)" if "inside ?W g k" for k
    unfolding rb_insert_color_def
    by (intro runs_intros inside_insert_color_loop[THEN runs_mono, where W1="?W" and g1=g]
        inside_color[where W="?W" and g=g]) (use that in \<open>auto dest: inside_fields(1)\<close>)
  show ?thesis
    unfolding rb_insert_def
    by (intro runs_intros inside_insert_at[THEN runs_mono, where W1=W and g1=g]
        inside_link[THEN runs_mono, where W1=W and g1=g] color[THEN runs_mono])
      (use assms in \<open>auto dest: inside_fields(1)\<close>)
qed

lemma relink_links:
  assumes "relink p x n h = Some k"
  shows "rb_parent k = rb_parent h" and "rb_left k a \<in> {rb_left h a, n}" and "rb_right k a \<in> {rb_right h a, n}"
  using assms by (auto simp: relink_def set_left_def set_right_def split: if_splits)

lemma replace_frame:
  assumes h': "rb_replace_node x n h = Some h'" and i: "inside W g h" and "x \<in> W" and y: "y \<notin> insert n W" "y \<noteq> NULL"
  shows "rb_parent h' y = rb_parent h y"
proof -
  have links: "rb_left h x \<noteq> y" "rb_right h x \<noteq> y" using inside_fields(2,3)[OF i assms(3)] y by auto
  obtain k where k: "relink (rb_parent h x) x n h = Some k"
    using h' by (auto simp: rb_replace_node_def get_def bind_eq_Some_conv split: if_splits)
  have "rb_left k x \<noteq> y" "rb_right k x \<noteq> y" using relink_links(2,3)[OF k, of x] links y by auto
  then show ?thesis
    using h' k relink_links(1)[OF k] y
    by (auto simp: rb_replace_node_def get_def bind_eq_Some_conv rb_set_parent_def rb_set_color_def set_left_def
        set_right_def split: if_splits)
qed

end
