(* ===== verification/Rb_Shape.thy ===== *)
theory Rb_Shape
  imports Rb_Tree
begin

text \<open>
  The abstraction of the heap of \<^verbatim>\<open>base/rbtree.c\<close>: \<open>rep h t\<close> says that the nodes reachable from the
  root form the tree \<open>t\<close>, with all parent pointers and colours as \<open>t\<close> has them.  A position in the
  tree is a list of frames from the focus up to the root (\<open>plug\<close>), so an operation at a node is a
  rewriting of the tree at that position.
\<close>

unbundle bit_operations_syntax

section \<open>The packed member behaves as two members\<close>

text \<open>
  For parent addresses that are multiples of four, the packed word \<^verbatim>\<open>rb_parent_color\<close> behaves as
  two independent members: setting the parent keeps the colour, setting the colour keeps the
  parent, and each is read back as it was set.
\<close>

theorem rb_parent_color_two_members:
  assumes "p AND 3 = 0"
  shows "pc_parent (pc_set_parent p pc) = p \<and> pc_black (pc_set_parent p pc) = pc_black pc \<and>
    pc_parent (pc_set_color c pc) = pc_parent pc \<and> pc_black (pc_set_color c pc) = c \<and>
    pc_set_red pc = pc_set_color False pc \<and> pc_set_black pc = pc_set_color True pc"
proof -
  have low: "p = p AND NOT 3"
  proof -
    have "p = (p AND 3) OR (p AND NOT 3)" by (rule bit_word_eqI) (auto simp: bit_simps)
    with assms show ?thesis by simp
  qed
  have b: "\<not> bit p 0" "\<not> bit p 1" by (subst low, simp add: bit_simps bit_numeral_rec)+
  have one: "(x AND 1 \<noteq> 0) = bit x 0" for x :: ulong
    by (simp add: and_one_eq odd_iff_mod_2_eq_one bit_0)
  have "pc_parent (pc_set_parent p pc) = p"
  proof -
    have "pc_parent (pc_set_parent p pc) = p AND NOT 3"
      unfolding pc_parent_def pc_set_parent_def by (rule bit_word_eqI) (auto simp: bit_simps)
    then show ?thesis using low by simp
  qed
  moreover have "pc_black (pc_set_parent p pc) = pc_black pc"
    using b by (simp add: pc_black_def pc_set_parent_def one bit_simps bit_numeral_rec)
  moreover have "pc_parent (pc_set_color c pc) = pc_parent pc"
    unfolding pc_parent_def pc_set_color_def
    by (rule bit_word_eqI) (auto simp: bit_simps bit_numeral_rec bit_1_iff split: nat.splits)
  moreover have "pc_black (pc_set_color c pc) = c"
    by (simp add: pc_black_def pc_set_color_def one bit_simps)
  moreover have "pc_set_red pc = pc_set_color False pc" by (simp add: pc_set_red_def pc_set_color_def)
  moreover have "pc_set_black pc = pc_set_color True pc"
    unfolding pc_set_black_def pc_set_color_def by (rule bit_word_eqI) (auto simp: bit_simps)
  ultimately show ?thesis by simp
qed

theorem rb_parent_color_two_members_witness:
  "pc_parent (pc_set_parent 0x1000 1) = 0x1000 \<and> pc_black (pc_set_parent 0x1000 1)"
  using rb_parent_color_two_members[of "0x1000" 1 True] by (simp add: pc_black_def)

section \<open>Trees and positions\<close>

datatype rbt = Leaf | Node (lft: rbt) (elt: addr) (blk: bool) (rgt: rbt)

fun ptr :: "rbt \<Rightarrow> addr" where
  "ptr Leaf = NULL"
| "ptr (Node l x c r) = x"

fun nodes :: "rbt \<Rightarrow> addr list" where
  "nodes Leaf = []"
| "nodes (Node l x c r) = nodes l @ x # nodes r"

fun is_red :: "rbt \<Rightarrow> bool" where
  "is_red (Node l x False r) = True"
| "is_red _ = False"

fun blacken :: "rbt \<Rightarrow> rbt" where
  "blacken Leaf = Leaf"
| "blacken (Node l x c r) = Node l x True r"

text \<open>\<open>LF x c r\<close>: the focus is the left child of \<open>x\<close>; \<open>RF l x c\<close>: the right child.\<close>

datatype frame = LF addr bool rbt | RF rbt addr bool

fun plug :: "rbt \<Rightarrow> frame list \<Rightarrow> rbt" where
  "plug t [] = t"
| "plug t (LF x c r # k) = plug (Node t x c r) k"
| "plug t (RF l x c # k) = plug (Node l x c t) k"

fun top :: "frame list \<Rightarrow> addr" where
  "top [] = NULL"
| "top (LF x c r # k) = x"
| "top (RF l x c # k) = x"

fun before :: "frame list \<Rightarrow> addr list" where
  "before [] = []"
| "before (LF x c r # k) = before k"
| "before (RF l x c # k) = before k @ nodes l @ [x]"

fun after :: "frame list \<Rightarrow> addr list" where
  "after [] = []"
| "after (LF x c r # k) = x # nodes r @ after k"
| "after (RF l x c # k) = after k"

lemma nodes_plug [simp]: "nodes (plug t k) = before k @ nodes t @ after k"
  by (induction t k rule: plug.induct) auto

lemma nodes_blacken [simp]: "nodes (blacken t) = nodes t"
  by (cases t) auto

lemma ptr_blacken [simp]: "ptr (blacken t) = ptr t"
  by (cases t) auto

lemma plug_append: "plug t (k @ k') = plug (plug t k) k'"
  by (induction t k rule: plug.induct) auto

section \<open>Representation\<close>

fun shape :: "rb_node \<Rightarrow> addr \<Rightarrow> rbt \<Rightarrow> bool" where
  "shape h p Leaf = True"
| "shape h p (Node l x c r) = (x \<noteq> NULL \<and> rb_parent h x = p \<and> rb_black h x = c \<and>
     rb_left h x = ptr l \<and> rb_right h x = ptr r \<and> shape h x l \<and> shape h x r)"

definition rep :: "rb_node \<Rightarrow> rbt \<Rightarrow> bool" where
  "rep h t = (rb_root h = ptr t \<and> shape h NULL t \<and> distinct (nodes t))"

fun around :: "rb_node \<Rightarrow> addr \<Rightarrow> frame list \<Rightarrow> bool" where
  "around h a [] = (rb_root h = a)"
| "around h a (LF x c r # k) = (x \<noteq> NULL \<and> rb_left h x = a \<and> rb_parent h x = top k \<and> rb_black h x = c \<and>
     rb_right h x = ptr r \<and> shape h x r \<and> around h x k)"
| "around h a (RF l x c # k) = (x \<noteq> NULL \<and> rb_right h x = a \<and> rb_parent h x = top k \<and> rb_black h x = c \<and>
     rb_left h x = ptr l \<and> shape h x l \<and> around h x k)"

lemma shape_plug: "(shape h NULL (plug t k) \<and> rb_root h = ptr (plug t k)) = (shape h (top k) t \<and> around h (ptr t) k)"
  by (induction t k rule: plug.induct) auto

lemma rep_plug: "rep h (plug t k) = (shape h (top k) t \<and> around h (ptr t) k \<and> distinct (before k @ nodes t @ after k))"
  using shape_plug[of h t k] unfolding rep_def by auto

text \<open>Heaps that agree on the nodes of a tree.\<close>

lemma shape_cong:
  "(\<And>x. x \<in> set (nodes t) \<Longrightarrow> rb_left h' x = rb_left h x \<and> rb_right h' x = rb_right h x \<and>
     rb_parent h' x = rb_parent h x \<and> rb_black h' x = rb_black h x) \<Longrightarrow> shape h' p t = shape h p t"
  by (induction t arbitrary: p) auto

lemma ptr_in: "t \<noteq> Leaf \<Longrightarrow> ptr t \<in> set (nodes t)"
  by (cases t) auto

lemma shape_ne_NULL: "shape h p t \<Longrightarrow> NULL \<notin> set (nodes t)"
  by (induction t arbitrary: p) auto

lemma shape_ptr: "shape h p t \<Longrightarrow> (ptr t = NULL) = (t = Leaf)"
  by (cases t) auto

text \<open>A change that does not touch the nodes of a position, nor the root, leaves it as it is.\<close>

lemma around_cong:
  "(\<And>x. x \<in> set (before k @ after k) \<Longrightarrow> rb_left h' x = rb_left h x \<and> rb_right h' x = rb_right h x \<and>
     rb_parent h' x = rb_parent h x \<and> rb_black h' x = rb_black h x) \<Longrightarrow> rb_root h' = rb_root h \<Longrightarrow>
   around h' a k = around h a k"
proof (induction k arbitrary: a)
  case (Cons f k)
  show ?case
  proof (cases f)
    case (LF x c r)
    have "shape h' x r = shape h x r" by (rule shape_cong) (use Cons.prems LF in auto)
    moreover have "around h' x k = around h x k" by (rule Cons.IH) (use Cons.prems LF in auto)
    ultimately show ?thesis using Cons.prems LF by auto
  next
    case (RF l x c)
    have "shape h' x l = shape h x l" by (rule shape_cong) (use Cons.prems RF in auto)
    moreover have "around h' x k = around h x k" by (rule Cons.IH) (use Cons.prems RF in auto)
    ultimately show ?thesis using Cons.prems RF by auto
  qed
qed simp

section \<open>Reading at a position\<close>

lemma rep_at:
  assumes "rep h (plug (Node l x c r) k)"
  shows "x \<noteq> NULL" "rb_left h x = ptr l" "rb_right h x = ptr r" "rb_black h x = c" "rb_parent h x = top k"
  using assms by (auto simp: rep_plug)

lemma rep_left:
  "rep h (plug (Node l x c r) k) \<Longrightarrow> rep h (plug l (LF x c r # k))"
  "rep h (plug (Node l x c r) k) \<Longrightarrow> rep h (plug r (RF l x c # k))"
  by simp_all

lemma top_in: "k \<noteq> [] \<Longrightarrow> top k \<in> set (before k @ after k)"
proof (cases k)
  case (Cons f fs)
  then show ?thesis by (cases f) auto
qed simp

lemma rep_not_NULL: "rep h t \<Longrightarrow> NULL \<notin> set (nodes t)"
  by (auto simp: rep_def dest: shape_ne_NULL)

lemma top_cases: "top k = NULL \<or> top k \<in> set (before k @ after k)"
  using top_in[of k] by (cases "k = []") auto

lemma ptr_cases: "ptr t = NULL \<or> ptr t \<in> set (nodes t)"
  by (cases t) auto

lemma rep_top: "rep h (plug t k) \<Longrightarrow> (top k = NULL) = (k = [])"
proof (cases k)
  case (Cons f fs)
  then show "rep h (plug t k) \<Longrightarrow> (top k = NULL) = (k = [])" by (cases f) (auto simp: rep_plug)
qed simp

lemma rep_ptr: "rep h (plug t k) \<Longrightarrow> (ptr t = NULL) = (t = Leaf)"
  by (auto simp: rep_plug shape_ptr)

lemma rep_some_red: "rep h (plug t k) \<Longrightarrow> some_red h (ptr t) = is_red t"
  by (cases t) (auto simp: rep_plug some_red_def elim: is_red.elims)

lemma rep_none_or_black: "rep h (plug t k) \<Longrightarrow> none_or_black h (ptr t) = (\<not> is_red t)"
  by (cases t) (auto simp: rep_plug none_or_black_def elim: is_red.elims)

section \<open>Setting a colour\<close>

lemma rep_set_color:
  assumes "rep h (plug (Node l x c r) k)"
  shows "\<exists>h'. rb_set_color x d h = Some h' \<and> rep h' (plug (Node l x d r) k)"
proof -
  let ?h = "h\<lparr>rb_black := (rb_black h)(x := d)\<rparr>"
  have d: "distinct (before k @ (nodes l @ x # nodes r) @ after k)" and x: "x \<noteq> NULL"
    using assms by (auto simp: rep_plug)
  have "shape ?h x l = shape h x l" "shape ?h x r = shape h x r"
    by (rule shape_cong; use d in auto)+
  moreover have "around ?h x k = around h x k" by (rule around_cong) (use d in auto)
  ultimately have "rep ?h (plug (Node l x d r) k)" using assms by (auto simp: rep_plug)
  then show ?thesis using x by (simp add: rb_set_color_def)
qed


section \<open>Changing the link to a position\<close>

fun set_link :: "frame list \<Rightarrow> addr \<Rightarrow> rb_node \<Rightarrow> rb_node" where
  "set_link [] b h = h\<lparr>rb_root := b\<rparr>"
| "set_link (LF x c r # k) b h = h\<lparr>rb_left := (rb_left h)(x := b)\<rparr>"
| "set_link (RF l x c # k) b h = h\<lparr>rb_right := (rb_right h)(x := b)\<rparr>"

lemma around_set_link:
  assumes "around h a k" and "distinct (before k @ after k)"
  shows "around (set_link k b h) b k"
proof (cases k)
  case (Cons f fs)
  show ?thesis
  proof (cases f)
    case (LF x c r)
    have "shape (set_link k b h) x r = shape h x r" by (rule shape_cong) (use assms Cons LF in auto)
    moreover have "around (set_link k b h) x fs = around h x fs" by (rule around_cong) (use assms Cons LF in auto)
    ultimately show ?thesis using assms Cons LF by auto
  next
    case (RF l x c)
    have "shape (set_link k b h) x l = shape h x l" by (rule shape_cong) (use assms Cons RF in auto)
    moreover have "around (set_link k b h) x fs = around h x fs" by (rule around_cong) (use assms Cons RF in auto)
    ultimately show ?thesis using assms Cons RF by auto
  qed
qed simp

lemma set_link_fields:
  "rb_parent (set_link k b h) = rb_parent h" "rb_black (set_link k b h) = rb_black h"
  "x \<noteq> top k \<Longrightarrow> rb_left (set_link k b h) x = rb_left h x"
  "x \<noteq> top k \<Longrightarrow> rb_right (set_link k b h) x = rb_right h x"
proof -
  show "rb_parent (set_link k b h) = rb_parent h" "rb_black (set_link k b h) = rb_black h"
    by (induction k b h rule: set_link.induct) auto
  show "x \<noteq> top k \<Longrightarrow> rb_left (set_link k b h) x = rb_left h x" "x \<noteq> top k \<Longrightarrow> rb_right (set_link k b h) x = rb_right h x"
    by (induction k b h rule: set_link.induct) auto
qed

text \<open>\<open>points\<close>: the link at the top of \<open>k\<close> leads to \<open>a\<close>, and only that one; the test of the code finds it.\<close>

definition points :: "rb_node \<Rightarrow> addr \<Rightarrow> frame list \<Rightarrow> bool" where
  "points h a k = (case k of
     [] \<Rightarrow> True
   | LF x c r # _ \<Rightarrow> x \<noteq> NULL \<and> rb_left h x = a \<and> rb_right h x \<noteq> a
   | RF l x c # _ \<Rightarrow> x \<noteq> NULL \<and> rb_right h x = a \<and> rb_left h x \<noteq> a)"

lemma relink_points: "points h a k \<Longrightarrow> relink (top k) a b h = Some (set_link k b h)"
  by (cases k rule: top.cases) (auto simp: points_def relink_def set_left_def set_right_def)

lemma relink_right_points:
  "points h a k \<Longrightarrow> (if top k \<noteq> NULL
     then if a = rb_right h (top k) then set_right (top k) b h else set_left (top k) b h
     else Some (h\<lparr>rb_root := b\<rparr>)) = Some (set_link k b h)"
  by (cases k rule: top.cases) (auto simp: points_def set_left_def set_right_def)

lemma relink_left_points:
  "points h a k \<Longrightarrow> (if top k \<noteq> NULL
     then if a = rb_left h (top k) then set_left (top k) b h else set_right (top k) b h
     else Some (h\<lparr>rb_root := b\<rparr>)) = Some (set_link k b h)"
  by (cases k rule: top.cases) (auto simp: points_def set_left_def set_right_def)

lemma rep_points:
  assumes "rep h (plug (Node l x c r) k)"
  shows "points h x k"
proof (cases k rule: top.cases)
  case (2 y d s k')
  then have "x \<notin> set (nodes s)" "around h x k" using assms by (auto simp: rep_plug)
  then show ?thesis using 2 ptr_in[of s] assms by (cases s) (auto simp: points_def rep_plug)
next
  case (3 s y d k')
  then have "x \<notin> set (nodes s)" "around h x k" using assms by (auto simp: rep_plug)
  then show ?thesis using 3 ptr_in[of s] assms by (cases s) (auto simp: points_def rep_plug)
qed (simp add: points_def)

lemma points_cong:
  "points h a k \<Longrightarrow> (\<And>x. x = top k \<Longrightarrow> x \<noteq> NULL \<Longrightarrow> rb_left h' x = rb_left h x \<and> rb_right h' x = rb_right h x) \<Longrightarrow> points h' a k"
  by (cases k rule: top.cases) (auto simp: points_def)

section \<open>Rotations\<close>

lemma rb_rotate_left_rep:
  assumes r: "rep h (plug (Node a x c (Node b y d e)) k)"
  shows "\<exists>h'. rb_rotate_left x h = Some h' \<and> rep h' (plug (Node (Node a x c b) y d e) k)"
proof -
  have ds: "distinct (before k @ (nodes a @ x # nodes b @ y # nodes e) @ after k)" using r by (simp add: rep_plug)
  have ar: "around h x k" and ne: "x \<noteq> NULL" "y \<noteq> NULL" and sh: "shape h x a" "shape h y b" "shape h y e"
    and f: "rb_parent h x = top k" "rb_left h x = ptr a" "rb_right h x = y" "rb_left h y = ptr b" "rb_right h y = ptr e"
      "rb_black h x = c" "rb_black h y = d"
    using r by (auto simp: rep_plug)
  have nn: "NULL \<notin> set (before k @ (nodes a @ x # nodes b @ y # nodes e) @ after k)"
    using rep_not_NULL[OF r] by simp
  have dj: "x \<noteq> y" "x \<notin> set (nodes b)" "y \<notin> set (nodes b)" "x \<notin> set (before k @ after k)" "y \<notin> set (before k @ after k)"
    "set (nodes b) \<inter> set (before k @ after k) = {}" "distinct (nodes b)" using ds by auto
  have xy: "x \<noteq> y" and tx: "top k \<noteq> x" "top k \<noteq> y" using dj ne top_cases[of k] by metis+
  have tb: "ptr b \<noteq> NULL \<Longrightarrow> ptr b \<noteq> x \<and> ptr b \<noteq> y \<and> ptr b \<noteq> top k"
    using ptr_cases[of b] dj top_cases[of k] by (metis disjoint_iff)
  define h1 where "h1 = h\<lparr>rb_right := (rb_right h)(x := ptr b)\<rparr>"
  define h2 where "h2 = (if ptr b \<noteq> NULL then h1\<lparr>rb_parent := (rb_parent h1)(ptr b := x)\<rparr> else h1)"
  define h3 where "h3 = h2\<lparr>rb_left := (rb_left h2)(y := x)\<rparr>"
  define h4 where "h4 = h3\<lparr>rb_parent := (rb_parent h3)(y := top k)\<rparr>"
  define h5 where "h5 = set_link k y h4"
  define h6 where "h6 = h5\<lparr>rb_parent := (rb_parent h5)(x := y)\<rparr>"
  note defs = h6_def h5_def h4_def h3_def h2_def h1_def
  have p4: "points h4 x k"
    by (rule points_cong[OF rep_points[OF r]]) (use tx in \<open>auto simp: h4_def h3_def h2_def h1_def\<close>)
  have g: "get rb_right h x = Some y" "get rb_parent h x = Some (top k)" "get rb_left h y = Some (ptr b)"
    using f ne by (simp_all add: get_def)
  have s: "set_right x (ptr b) h = Some h1"
      "(if ptr b \<noteq> NULL then rb_set_parent (ptr b) x h1 else Some h1) = Some h2"
      "set_left y x h2 = Some h3" "rb_set_parent y (top k) h3 = Some h4" "rb_set_parent x y h5 = Some h6"
    using ne by (simp_all add: set_right_def set_left_def rb_set_parent_def defs)
  have run: "rb_rotate_left x h = Some h6"
    unfolding rb_rotate_left_def by (simp only: g s bind.bind_lunit relink_left_points[OF p4, of y, folded h5_def])
  have same: "rb_left h6 z = rb_left h z \<and> rb_right h6 z = rb_right h z \<and> rb_parent h6 z = rb_parent h z \<and> rb_black h6 z = rb_black h z"
    if "z \<noteq> x" "z \<noteq> y" "z \<noteq> ptr b" "z \<noteq> top k" for z
    using that by (simp add: defs set_link_fields)
  have out: "z \<noteq> x \<and> z \<noteq> y \<and> z \<noteq> ptr b \<and> z \<noteq> top k" if "z \<in> set (nodes a) \<union> set (nodes e)" for z
  proof -
    have "z \<noteq> x" "z \<noteq> y" "z \<notin> set (nodes b)" "z \<notin> set (before k @ after k)" "z \<noteq> NULL" using that ds nn by auto
    then show ?thesis using ptr_cases[of b] top_cases[of k] by metis
  qed
  have "shape h6 x a = shape h x a" by (rule shape_cong, rule same) (use out in auto)
  moreover have "shape h6 y e = shape h y e" by (rule shape_cong, rule same) (use out in auto)
  moreover have "shape h6 x b"
  proof (cases b)
    case (Node bl z bc br)
    have outb: "w \<noteq> x \<and> w \<noteq> y \<and> w \<noteq> ptr b \<and> w \<noteq> top k" if "w \<in> set (nodes bl) \<union> set (nodes br)" for w
    proof -
      have wb: "w \<in> set (nodes b)" using that Node by auto
      moreover have "w \<noteq> ptr b" using that dj(7) Node by auto
      moreover have "w \<noteq> NULL" using wb nn by auto
      ultimately show ?thesis using top_cases[of k] dj by (metis disjoint_iff)
    qed
    have "shape h6 z bl = shape h z bl" "shape h6 z br = shape h z br"
      by (rule shape_cong, rule same; use outb in auto)+
    then show ?thesis using sh Node tb
      by (simp add: defs set_link_fields)
  qed simp
  moreover have "around h6 y k"
  proof -
    have "around h4 x k = around h x k"
    proof (rule around_cong)
      fix w assume "w \<in> set (before k @ after k)"
      then have "w \<noteq> x" "w \<noteq> y" "w \<notin> set (nodes b)" "w \<noteq> NULL" using ds nn by auto
      moreover from this have "w \<noteq> ptr b" using ptr_cases[of b] by metis
      ultimately show "rb_left h4 w = rb_left h w \<and> rb_right h4 w = rb_right h w \<and>
          rb_parent h4 w = rb_parent h w \<and> rb_black h4 w = rb_black h w"
        by (simp add: h4_def h3_def h2_def h1_def)
    qed (simp add: h4_def h3_def h2_def h1_def)
    then have "around h5 y k" unfolding h5_def using ar ds by (intro around_set_link) auto
    moreover have "around h6 y k = around h5 y k" by (rule around_cong) (use ds in \<open>auto simp: h6_def\<close>)
    ultimately show ?thesis by simp
  qed
  moreover have "rb_parent h6 x = y \<and> rb_parent h6 y = top k \<and> rb_left h6 x = ptr a \<and> rb_right h6 x = ptr b \<and>
      rb_left h6 y = x \<and> rb_right h6 y = ptr e \<and> rb_black h6 x = c \<and> rb_black h6 y = d"
    using f xy tx tb by (auto simp: defs set_link_fields)
  ultimately have "rep h6 (plug (Node (Node a x c b) y d e) k)"
    using sh ne ds by (simp add: rep_plug)
  with run show ?thesis by blast
qed


section \<open>The mirror image\<close>

definition mir :: "rb_node \<Rightarrow> rb_node" where
  "mir h = h\<lparr>rb_left := rb_right h, rb_right := rb_left h\<rparr>"

fun mirror :: "rbt \<Rightarrow> rbt" where
  "mirror Leaf = Leaf"
| "mirror (Node l x c r) = Node (mirror r) x c (mirror l)"

fun mirror_frame :: "frame \<Rightarrow> frame" where
  "mirror_frame (LF x c r) = RF (mirror r) x c"
| "mirror_frame (RF l x c) = LF x c (mirror l)"

lemma mirror_mirror [simp]: "mirror (mirror t) = t"
  by (induction t) auto

lemma mirror_frame_frame [simp]: "mirror_frame (mirror_frame f) = f"
  by (cases f) auto

lemma mirror_plug: "mirror (plug t k) = plug (mirror t) (map mirror_frame k)"
  by (induction t k rule: plug.induct) auto

lemma mir_simps [simp]:
  "rb_left (mir h) = rb_right h" "rb_right (mir h) = rb_left h" "rb_parent (mir h) = rb_parent h"
  "rb_black (mir h) = rb_black h" "rb_root (mir h) = rb_root h" "mir (mir h) = h"
  by (simp_all add: mir_def)

lemma ptr_mirror [simp]: "ptr (mirror t) = ptr t"
  by (cases t) auto

lemma nodes_mirror [simp]: "nodes (mirror t) = rev (nodes t)"
  by (induction t) auto

lemma is_red_mirror [simp]: "is_red (mirror t) = is_red t"
  by (cases t rule: is_red.cases) auto

lemma shape_mir: "shape (mir h) p (mirror t) = shape h p t"
  by (induction t arbitrary: p) auto

lemma rep_mir: "rep (mir h) (mirror t) = rep h t"
  by (simp add: rep_def shape_mir)

lemma set_mir:
  "set_left a v (mir h) = map_option mir (set_right a v h)"
  "set_right a v (mir h) = map_option mir (set_left a v h)"
  "rb_set_parent a v (mir h) = map_option mir (rb_set_parent a v h)"
  "rb_set_color a c (mir h) = map_option mir (rb_set_color a c h)"
  "get rb_left (mir h) a = get rb_right h a" "get rb_right (mir h) a = get rb_left h a"
  "get rb_parent (mir h) a = get rb_parent h a"
  by (simp_all add: set_left_def set_right_def rb_set_parent_def rb_set_color_def get_def mir_def)

lemma root_mir: "(mir h)\<lparr>rb_root := v\<rparr> = mir (h\<lparr>rb_root := v\<rparr>)"
  by (simp add: mir_def)

lemma map_option_bind: "map_option f m \<bind> g = m \<bind> (\<lambda>x. g (f x))"
  by (cases m) auto

lemma bind_map_option: "map_option f (m \<bind> g) = m \<bind> (\<lambda>x. map_option f (g x))"
  by (cases m) auto

lemma rb_rotate_right_mir: "rb_rotate_right x (mir h) = map_option mir (rb_rotate_left x h)"
proof -
  have i: "(if b then map_option mir m else Some (mir h)) = map_option mir (if b then m else Some h)"
    "(if b then map_option mir m else map_option mir m') = map_option mir (if b then m else m')" for b m m' h
    by simp_all
  show ?thesis
    unfolding rb_rotate_right_def rb_rotate_left_def
    by (simp only: set_mir root_mir map_option_bind bind_map_option i mir_simps)
qed


lemma rb_rotate_right_rep:
  assumes r: "rep h (plug (Node (Node a y d b) x c e) k)"
  shows "\<exists>h'. rb_rotate_right x h = Some h' \<and> rep h' (plug (Node a y d (Node b x c e)) k)"
proof -
  have "rep (mir h) (mirror (plug (Node (Node a y d b) x c e) k))" using r by (simp only: rep_mir)
  then have "rep (mir h) (plug (Node (mirror e) x c (Node (mirror b) y d (mirror a))) (map mirror_frame k))"
    by (simp add: mirror_plug)
  then obtain g where g: "rb_rotate_left x (mir h) = Some g"
      "rep g (plug (Node (Node (mirror e) x c (mirror b)) y d (mirror a)) (map mirror_frame k))"
    using rb_rotate_left_rep by blast
  have "rb_rotate_right x (mir (mir h)) = map_option mir (rb_rotate_left x (mir h))" by (rule rb_rotate_right_mir)
  then have "rb_rotate_right x h = Some (mir g)" using g(1) by simp
  moreover have "rep (mir g) (mirror (plug (Node (Node (mirror e) x c (mirror b)) y d (mirror a)) (map mirror_frame k)))"
    using g(2) by (simp only: rep_mir)
  then have "rep (mir g) (plug (Node a y d (Node b x c e)) k)"
    by (simp add: mirror_plug comp_def)
  ultimately show ?thesis by blast
qed

end
