(* ===== verification/Rb_Insert.thy ===== *)
theory Rb_Insert
  imports Rb_Shape
begin

text \<open>
  Insertion into the red-black trees of \<^verbatim>\<open>base/rbtree.c\<close>.  \<open>fixup\<close> is the loop of \<open>rb_insert_color\<close> on
  positions instead of pointers; the heap program refines it, and it keeps the order of the
  nodes and the balance of the tree.
\<close>

section \<open>The loop on positions\<close>

fun fixup :: "rbt \<Rightarrow> frame list \<Rightarrow> rbt" where
  "fixup t (LF p False s # LF g cg u # k) =
     (if is_red u then fixup (Node (Node t p True s) g False (blacken u)) k
      else plug (Node t p True (Node s g False u)) k)"
| "fixup t (RF s p False # LF g cg u # k) =
     (if is_red u then fixup (Node (Node s p True t) g False (blacken u)) k
      else case t of Node a n c b \<Rightarrow> plug (Node (Node s p False a) n True (Node b g False u)) k | Leaf \<Rightarrow> Leaf)"
| "fixup t (RF s p False # RF u g cg # k) =
     (if is_red u then fixup (Node (blacken u) g False (Node s p True t)) k
      else plug (Node (Node u g False s) p True t) k)"
| "fixup t (LF p False s # RF u g cg # k) =
     (if is_red u then fixup (Node (blacken u) g False (Node t p True s)) k
      else case t of Node a n c b \<Rightarrow> plug (Node (Node u g False a) n True (Node b p False s)) k | Leaf \<Rightarrow> Leaf)"
| "fixup t k = plug t k"

fun frame_black :: "frame \<Rightarrow> bool" where
  "frame_black (LF x c r) = c"
| "frame_black (RF l x c) = c"

definition root_black :: "frame list \<Rightarrow> bool" where
  "root_black k = (k = [] \<or> frame_black (last k))"

lemma root_black_tl: "root_black (f # g # k) \<Longrightarrow> root_black k"
  by (auto simp: root_black_def split: if_splits)

lemma plug_red_frame_cases:
  assumes "root_black (f # k)" and "\<not> frame_black f"
  obtains g k' where "k = g # k'" "root_black k'"
  using assms by (cases k) (auto simp: root_black_def split: if_splits)

section \<open>Refinement of the loop\<close>

lemma rep_set_black: "rep h (plug (Node l x c r) k) \<Longrightarrow> \<exists>h'. rb_set_black x h = Some h' \<and> rep h' (plug (Node l x True r) k)"
  unfolding rb_set_black_def by (rule rep_set_color)

lemma rep_set_red: "rep h (plug (Node l x c r) k) \<Longrightarrow> \<exists>h'. rb_set_red x h = Some h' \<and> rep h' (plug (Node l x False r) k)"
  unfolding rb_set_red_def by (rule rep_set_color)

lemma rep_blacken: "rep h (plug t k) \<Longrightarrow> t \<noteq> Leaf \<Longrightarrow> \<exists>h'. rb_set_black (ptr t) h = Some h' \<and> rep h' (plug (blacken t) k)"
  by (cases t) (auto dest: rep_set_black)

text \<open>Reading the node at a position, as the code does.\<close>

lemma rep_get:
  assumes "rep h (plug (Node l x c r) k)"
  shows "get rb_left h x = Some (ptr l)" "get rb_right h x = Some (ptr r)" "get rb_parent h x = Some (top k)"
    "get rb_black h x = Some c"
  using rep_at[OF assms] by (simp_all add: get_def)

lemma loop_stops:
  assumes r: "rep h (plug (Node l x c r) k)" and "k = [] \<or> frame_black (hd k)"
  shows "rb_insert_color_loop x h = Some h"
proof -
  have "\<not> some_red h (top k)"
  proof (cases k)
    case Nil
    then show ?thesis by (simp add: some_red_def)
  next
    case (Cons f fs)
    then show ?thesis using r assms(2) by (cases f) (auto simp: rep_plug some_red_def)
  qed
  then show ?thesis using rep_get(3)[OF r] by (subst rb_insert_color_loop.simps) simp
qed

lemma loop_stops_ex:
  "rep h (plug (Node l x c r) k) \<Longrightarrow> k = [] \<or> frame_black (hd k) \<Longrightarrow>
   \<exists>h'. rb_insert_color_loop x h = Some h' \<and> rep h' (plug (Node l x c r) k)"
  using loop_stops by blast

text \<open>The three recolourings of the case of a red uncle.\<close>

lemma recolour_left:
  assumes "rep h (plug (Node (Node t p False s) g cg u) k)" and "is_red u"
  shows "\<exists>h1 h2 h3. rb_set_black (ptr u) h = Some h1 \<and> rb_set_black p h1 = Some h2 \<and> rb_set_red g h2 = Some h3 \<and>
    rep h3 (plug (Node (Node t p True s) g False (blacken u)) k)"
proof -
  have u: "u \<noteq> Leaf" using assms(2) by auto
  obtain h1 where h1: "rb_set_black (ptr u) h = Some h1" "rep h1 (plug (blacken u) (RF (Node t p False s) g cg # k))"
    using rep_blacken[of h u "RF (Node t p False s) g cg # k"] assms(1) u by auto
  obtain h2 where h2: "rb_set_black p h1 = Some h2" "rep h2 (plug (Node t p True s) (LF g cg (blacken u) # k))"
    using rep_set_black[of h1 t p False s "LF g cg (blacken u) # k"] h1(2) by auto
  obtain h3 where "rb_set_red g h2 = Some h3" "rep h3 (plug (Node (Node t p True s) g False (blacken u)) k)"
    using rep_set_red[of h2 "Node t p True s" g cg "blacken u" k] h2(2) by auto
  with h1 h2 show ?thesis by blast
qed

lemma recolour_right:
  assumes "rep h (plug (Node u g cg (Node t p False s)) k)" and "is_red u"
  shows "\<exists>h1 h2 h3. rb_set_black (ptr u) h = Some h1 \<and> rb_set_black p h1 = Some h2 \<and> rb_set_red g h2 = Some h3 \<and>
    rep h3 (plug (Node (blacken u) g False (Node t p True s)) k)"
proof -
  have u: "u \<noteq> Leaf" using assms(2) by auto
  obtain h1 where h1: "rb_set_black (ptr u) h = Some h1" "rep h1 (plug (blacken u) (LF g cg (Node t p False s) # k))"
    using rep_blacken[of h u "LF g cg (Node t p False s) # k"] assms(1) u by auto
  obtain h2 where h2: "rb_set_black p h1 = Some h2" "rep h2 (plug (Node t p True s) (RF (blacken u) g cg # k))"
    using rep_set_black[of h1 t p False s "RF (blacken u) g cg # k"] h1(2) by auto
  obtain h3 where "rb_set_red g h2 = Some h3" "rep h3 (plug (Node (blacken u) g False (Node t p True s)) k)"
    using rep_set_red[of h2 "blacken u" g cg "Node t p True s" k] h2(2) by auto
  with h1 h2 show ?thesis by blast
qed

text \<open>The final recolouring and rotation at the grandparent.\<close>

lemma finish_left:
  assumes "rep h (plug (Node (Node t p False s) g cg u) k)"
  shows "\<exists>h1 h2 h3. rb_set_black p h = Some h1 \<and> rb_set_red g h1 = Some h2 \<and> rb_rotate_right g h2 = Some h3 \<and>
    rep h3 (plug (Node t p True (Node s g False u)) k)"
proof -
  obtain h1 where h1: "rb_set_black p h = Some h1" "rep h1 (plug (Node t p True s) (LF g cg u # k))"
    using rep_set_black[of h t p False s "LF g cg u # k"] assms by auto
  obtain h2 where h2: "rb_set_red g h1 = Some h2" "rep h2 (plug (Node (Node t p True s) g False u) k)"
    using rep_set_red[of h1 "Node t p True s" g cg u k] h1(2) by auto
  obtain h3 where "rb_rotate_right g h2 = Some h3" "rep h3 (plug (Node t p True (Node s g False u)) k)"
    using rb_rotate_right_rep[OF h2(2)] by blast
  with h1 h2 show ?thesis by blast
qed

lemma finish_right:
  assumes "rep h (plug (Node u g cg (Node s p False t)) k)"
  shows "\<exists>h1 h2 h3. rb_set_black p h = Some h1 \<and> rb_set_red g h1 = Some h2 \<and> rb_rotate_left g h2 = Some h3 \<and>
    rep h3 (plug (Node (Node u g False s) p True t) k)"
proof -
  obtain h1 where h1: "rb_set_black p h = Some h1" "rep h1 (plug (Node s p True t) (RF u g cg # k))"
    using rep_set_black[of h s p False t "RF u g cg # k"] assms by auto
  obtain h2 where h2: "rb_set_red g h1 = Some h2" "rep h2 (plug (Node u g False (Node s p True t)) k)"
    using rep_set_red[of h1 u g cg "Node s p True t" k] h1(2) by auto
  obtain h3 where "rb_rotate_left g h2 = Some h3" "rep h3 (plug (Node (Node u g False s) p True t) k)"
    using rb_rotate_left_rep[OF h2(2)] by blast
  with h1 h2 show ?thesis by blast
qed

lemma rep_distinct: "rep h (plug t k) \<Longrightarrow> distinct (before k @ nodes t @ after k)"
  by (simp add: rep_plug)


text \<open>One round of the loop below a left and below a right child of the grandparent.\<close>

lemma loop_left:
  assumes r: "rep h (plug (Node t p False s) (LF g cg u # k))"
    and x: "x \<noteq> NULL" "rb_parent h x = p"
  shows "rb_insert_color_loop x h =
    (if is_red u then do {
       h \<leftarrow> rb_set_black (ptr u) h;
       h \<leftarrow> rb_set_black p h;
       h \<leftarrow> rb_set_red g h;
       rb_insert_color_loop g h
     }
     else do {
       (node, parent, h) \<leftarrow> (if ptr s = x
                             then do { h \<leftarrow> rb_rotate_left p h; Some (p, x, h) }
                             else Some (x, p, h));
       h \<leftarrow> rb_set_black parent h;
       h \<leftarrow> rb_set_red g h;
       h \<leftarrow> rb_rotate_right g h;
       rb_insert_color_loop node h
     })"
proof -
  have rg: "rep h (plug (Node (Node t p False s) g cg u) k)" using r by simp
  have ru: "rep h (plug u (RF (Node t p False s) g cg # k))" using r by simp
  have "some_red h p" using rep_at[OF r] by (simp add: some_red_def)
  moreover have "get rb_parent h x = Some p" using x by (simp add: get_def)
  ultimately show ?thesis
    using rep_get[OF r] rep_get[OF rg] rep_some_red[OF ru]
    by (subst rb_insert_color_loop.simps) (simp cong: if_cong)
qed

lemma loop_right:
  assumes r: "rep h (plug (Node s p False t) (RF u g cg # k))"
    and x: "x \<noteq> NULL" "rb_parent h x = p"
  shows "rb_insert_color_loop x h =
    (if is_red u then do {
       h \<leftarrow> rb_set_black (ptr u) h;
       h \<leftarrow> rb_set_black p h;
       h \<leftarrow> rb_set_red g h;
       rb_insert_color_loop g h
     }
     else do {
       (node, parent, h) \<leftarrow> (if ptr s = x
                             then do { h \<leftarrow> rb_rotate_right p h; Some (p, x, h) }
                             else Some (x, p, h));
       h \<leftarrow> rb_set_black parent h;
       h \<leftarrow> rb_set_red g h;
       h \<leftarrow> rb_rotate_left g h;
       rb_insert_color_loop node h
     })"
proof -
  have rg: "rep h (plug (Node u g cg (Node s p False t)) k)" using r by simp
  have ru: "rep h (plug u (LF g cg (Node s p False t) # k))" using r by simp
  have "some_red h p" using rep_at[OF r] by (simp add: some_red_def)
  moreover have "get rb_parent h x = Some p" using x by (simp add: get_def)
  moreover have "p \<noteq> ptr u"
    using ptr_cases[of u] rep_distinct[OF rg] rep_not_NULL[OF rg] by auto
  ultimately show ?thesis
    using rep_get[OF r] rep_get[OF rg] rep_some_red[OF ru]
    by (subst rb_insert_color_loop.simps) (simp cong: if_cong)
qed

lemma loop_fixup:
  "rep h (plug (Node l x False r) k) \<Longrightarrow> root_black k \<Longrightarrow>
   \<exists>h'. rb_insert_color_loop x h = Some h' \<and> rep h' (fixup (Node l x False r) k)"
proof (induction "Node l x False r" k arbitrary: l x r h rule: fixup.induct)
  case (1 p s g cg u k)
  let ?t = "Node l x False r"
  have r: "rep h (plug (Node ?t p False s) (LF g cg u # k))" using "1.prems"(1) by simp
  have x: "x \<noteq> NULL" "rb_parent h x = p" using rep_at[OF "1.prems"(1)] by simp_all
  show ?case
  proof (cases "is_red u")
    case True
    have "rep h (plug (Node (Node ?t p False s) g cg u) k)" using r by simp
    then obtain h1 h2 h3 where "rb_set_black (ptr u) h = Some h1" "rb_set_black p h1 = Some h2" "rb_set_red g h2 = Some h3"
      and h3: "rep h3 (plug (Node (Node ?t p True s) g False (blacken u)) k)" using recolour_left True by blast
    moreover have "\<exists>h'. rb_insert_color_loop g h3 = Some h' \<and> rep h' (fixup (Node (Node ?t p True s) g False (blacken u)) k)"
      by (rule "1.hyps"[OF True h3]) (use "1.prems"(2) root_black_tl in blast)
    ultimately show ?thesis using True by (simp add: loop_left[OF r x])
  next
    case False
    have ne: "ptr s \<noteq> x" using ptr_cases[of s] rep_distinct[OF r] x(1) by auto
    obtain h1 h2 h3 where "rb_set_black p h = Some h1" "rb_set_red g h1 = Some h2" "rb_rotate_right g h2 = Some h3"
      and h3: "rep h3 (plug (Node ?t p True (Node s g False u)) k)" using finish_left[of h ?t p s g cg u k] r by auto
    moreover have "rb_insert_color_loop x h3 = Some h3"
      by (rule loop_stops[of _ l _ False r "LF p True (Node s g False u) # k"]) (use h3 in simp_all)
    ultimately show ?thesis using False ne h3 by (simp add: loop_left[OF r x])
  qed
next
  case (2 s p g cg u k)
  let ?t = "Node l x False r"
  have r: "rep h (plug (Node s p False ?t) (LF g cg u # k))" using "2.prems"(1) by simp
  have x: "x \<noteq> NULL" "rb_parent h x = p" using rep_at[OF "2.prems"(1)] by simp_all
  show ?case
  proof (cases "is_red u")
    case True
    have "rep h (plug (Node (Node s p False ?t) g cg u) k)" using r by simp
    then obtain h1 h2 h3 where "rb_set_black (ptr u) h = Some h1" "rb_set_black p h1 = Some h2" "rb_set_red g h2 = Some h3"
      and h3: "rep h3 (plug (Node (Node s p True ?t) g False (blacken u)) k)" using recolour_left True by blast
    moreover have "\<exists>h'. rb_insert_color_loop g h3 = Some h' \<and> rep h' (fixup (Node (Node s p True ?t) g False (blacken u)) k)"
      by (rule "2.hyps"[OF True h3]) (use "2.prems"(2) root_black_tl in blast)
    ultimately show ?thesis using True by (simp add: loop_left[OF r x])
  next
    case False
    obtain h0 where h0: "rb_rotate_left p h = Some h0" "rep h0 (plug (Node (Node s p False l) x False r) (LF g cg u # k))"
      using rb_rotate_left_rep[OF r] by blast
    obtain h1 h2 h3 where "rb_set_black x h0 = Some h1" "rb_set_red g h1 = Some h2" "rb_rotate_right g h2 = Some h3"
      and h3: "rep h3 (plug (Node (Node s p False l) x True (Node r g False u)) k)"
      using finish_left[of h0 "Node s p False l" x r g cg u k] h0(2) by auto
    moreover have "rb_insert_color_loop p h3 = Some h3"
      by (rule loop_stops[of _ s _ False l "LF x True (Node r g False u) # k"]) (use h3 in simp_all)
    ultimately show ?thesis using False h0(1) h3 by (simp add: loop_left[OF r x])
  qed
next
  case (3 s p u g cg k)
  let ?t = "Node l x False r"
  have r: "rep h (plug (Node s p False ?t) (RF u g cg # k))" using "3.prems"(1) by simp
  have x: "x \<noteq> NULL" "rb_parent h x = p" using rep_at[OF "3.prems"(1)] by simp_all
  show ?case
  proof (cases "is_red u")
    case True
    have "rep h (plug (Node u g cg (Node s p False ?t)) k)" using r by simp
    then obtain h1 h2 h3 where "rb_set_black (ptr u) h = Some h1" "rb_set_black p h1 = Some h2" "rb_set_red g h2 = Some h3"
      and h3: "rep h3 (plug (Node (blacken u) g False (Node s p True ?t)) k)" using recolour_right True by blast
    moreover have "\<exists>h'. rb_insert_color_loop g h3 = Some h' \<and> rep h' (fixup (Node (blacken u) g False (Node s p True ?t)) k)"
      by (rule "3.hyps"[OF True h3]) (use "3.prems"(2) root_black_tl in blast)
    ultimately show ?thesis using True by (simp add: loop_right[OF r x])
  next
    case False
    have ne: "ptr s \<noteq> x" using ptr_cases[of s] rep_distinct[OF r] x(1) by auto
    obtain h1 h2 h3 where "rb_set_black p h = Some h1" "rb_set_red g h1 = Some h2" "rb_rotate_left g h2 = Some h3"
      and h3: "rep h3 (plug (Node (Node u g False s) p True ?t) k)" using finish_right[of h u g cg s p ?t k] r by auto
    moreover have "rb_insert_color_loop x h3 = Some h3"
      by (rule loop_stops[of _ l _ False r "RF (Node u g False s) p True # k"]) (use h3 in simp_all)
    ultimately show ?thesis using False ne h3 by (simp add: loop_right[OF r x])
  qed
next
  case (4 p s u g cg k)
  let ?t = "Node l x False r"
  have r: "rep h (plug (Node ?t p False s) (RF u g cg # k))" using "4.prems"(1) by simp
  have x: "x \<noteq> NULL" "rb_parent h x = p" using rep_at[OF "4.prems"(1)] by simp_all
  show ?case
  proof (cases "is_red u")
    case True
    have "rep h (plug (Node u g cg (Node ?t p False s)) k)" using r by simp
    then obtain h1 h2 h3 where "rb_set_black (ptr u) h = Some h1" "rb_set_black p h1 = Some h2" "rb_set_red g h2 = Some h3"
      and h3: "rep h3 (plug (Node (blacken u) g False (Node ?t p True s)) k)" using recolour_right True by blast
    moreover have "\<exists>h'. rb_insert_color_loop g h3 = Some h' \<and> rep h' (fixup (Node (blacken u) g False (Node ?t p True s)) k)"
      by (rule "4.hyps"[OF True h3]) (use "4.prems"(2) root_black_tl in blast)
    ultimately show ?thesis using True by (simp add: loop_right[OF r x])
  next
    case False
    obtain h0 where h0: "rb_rotate_right p h = Some h0" "rep h0 (plug (Node l x False (Node r p False s)) (RF u g cg # k))"
      using rb_rotate_right_rep[OF r] by blast
    obtain h1 h2 h3 where "rb_set_black x h0 = Some h1" "rb_set_red g h1 = Some h2" "rb_rotate_left g h2 = Some h3"
      and h3: "rep h3 (plug (Node (Node u g False l) x True (Node r p False s)) k)"
      using finish_right[of h0 u g cg l x "Node r p False s" k] h0(2) by auto
    moreover have "rb_insert_color_loop p h3 = Some h3"
      by (rule loop_stops[of _ r _ False s "RF (Node u g False l) x True # k"]) (use h3 in simp_all)
    ultimately show ?thesis using False h0(1) h3 by (simp add: loop_right[OF r x])
  qed
qed (auto simp: root_black_def simp del: plug.simps intro!: loop_stops_ex)


lemma rep_blacken_root: "rep h t \<Longrightarrow> t \<noteq> Leaf \<Longrightarrow> \<exists>h'. rb_set_black (rb_root h) h = Some h' \<and> rep h' (blacken t)"
  using rep_blacken[of h t "[]"] by (simp add: rep_def)

lemma nodes_fixup: "t \<noteq> Leaf \<Longrightarrow> nodes (fixup t k) = before k @ nodes t @ after k"
  by (induction t k rule: fixup.induct) (auto split: rbt.splits)

lemma rb_insert_color_rep:
  assumes "rep h (plug (Node l x False r) k)" and "root_black k"
  shows "\<exists>h'. rb_insert_color x h = Some h' \<and> rep h' (blacken (fixup (Node l x False r) k))"
proof -
  obtain h1 where h1: "rb_insert_color_loop x h = Some h1" "rep h1 (fixup (Node l x False r) k)"
    using loop_fixup[OF assms] by blast
  have "nodes (fixup (Node l x False r) k) \<noteq> []" using nodes_fixup[of "Node l x False r" k] by simp
  then have "fixup (Node l x False r) k \<noteq> Leaf" by auto
  then obtain h2 where "rb_set_black (rb_root h1) h1 = Some h2" "rep h2 (blacken (fixup (Node l x False r) k))"
    using rep_blacken_root[OF h1(2)] by blast
  with h1 show ?thesis by (simp add: rb_insert_color_def)
qed

section \<open>Balance\<close>

text \<open>\<open>height t = Some n\<close>: no red node has a red child and every path to a leaf has \<open>n\<close> black nodes.\<close>

fun black_height :: "rbt \<Rightarrow> nat option" where
  "black_height Leaf = Some 0"
| "black_height (Node l x c r) = (case (black_height l, black_height r) of
     (Some m, Some n) \<Rightarrow> if m = n \<and> (\<not> c \<longrightarrow> \<not> is_red l \<and> \<not> is_red r) then Some (if c then Suc n else n) else None
   | _ \<Rightarrow> None)"

definition rbt_ok :: "rbt \<Rightarrow> bool" where
  "rbt_ok t = (\<not> is_red t \<and> black_height t \<noteq> None)"

text \<open>\<open>fits k n red\<close>: a subtree of black height \<open>n\<close>, with a red root only if \<open>red\<close> holds, may be plugged into \<open>k\<close>.\<close>

fun fits :: "frame list \<Rightarrow> nat \<Rightarrow> bool \<Rightarrow> bool" where
  "fits [] n red = (\<not> red)"
| "fits (LF x c r # k) n red = (black_height r = Some n \<and> (\<not> c \<longrightarrow> \<not> is_red r \<and> \<not> red) \<and> fits k (if c then Suc n else n) (\<not> c))"
| "fits (RF l x c # k) n red = (black_height l = Some n \<and> (\<not> c \<longrightarrow> \<not> is_red l \<and> \<not> red) \<and> fits k (if c then Suc n else n) (\<not> c))"

lemma black_height_NodeE:
  "black_height (Node l x c r) = Some n \<longleftrightarrow>
   (\<exists>m. black_height l = Some m \<and> black_height r = Some m \<and> (\<not> c \<longrightarrow> \<not> is_red l \<and> \<not> is_red r) \<and> n = (if c then Suc m else m))"
  by (auto split: option.splits if_splits)

lemma is_red_Node [simp]: "is_red (Node l x c r) = (\<not> c)"
  by (cases c) auto

lemma fits_weaken: "fits k n True \<Longrightarrow> fits k n False"
  by (cases k rule: top.cases) auto

lemma plug_ok_iff: "rbt_ok (plug t k) = (\<exists>n. black_height t = Some n \<and> fits k n (is_red t))"
proof (induction t k rule: plug.induct)
  case (1 t)
  then show ?case by (auto simp: rbt_ok_def)
next
  case (2 t x c r k)
  show ?case unfolding plug.simps 2 by (cases c) (auto simp: black_height_NodeE simp del: black_height.simps(2))
next
  case (3 t l x c k)
  show ?case unfolding plug.simps 3 by (cases c) (auto simp: black_height_NodeE simp del: black_height.simps(2))
qed

lemma is_redE: "is_red u \<Longrightarrow> (\<And>a y b. u = Node a y False b \<Longrightarrow> P) \<Longrightarrow> P"
  by (cases u) auto

lemma black_height_blacken:
  "is_red u \<Longrightarrow> black_height u = Some n \<Longrightarrow> black_height (blacken u) = Some (Suc n)"
  by (elim is_redE) (auto simp: black_height_NodeE simp del: black_height.simps(2))

lemma not_red_blacken [simp]: "\<not> is_red (blacken t)"
  by (cases t) auto

text \<open>
  A subtree with a red root may violate the colours with its parent only; the loop repairs this
  and leaves at most a red root.
\<close>

lemma rbt_ok_blacken: "black_height t = Some n \<Longrightarrow> rbt_ok (blacken t)"
  by (cases t) (auto simp: rbt_ok_def black_height_NodeE simp del: black_height.simps(2))

lemma rbt_ok_of_plug: "rbt_ok (plug t k) \<Longrightarrow> rbt_ok (blacken (plug t k))"
  using rbt_ok_blacken by (auto simp: rbt_ok_def)

lemma fixup_plain:
  assumes "black_height t = Some n" and "fits k n False" and "k = [] \<or> frame_black (hd k)"
  shows "rbt_ok (blacken (plug t k))"
proof (cases k)
  case Nil
  with assms show ?thesis by (simp add: rbt_ok_blacken)
next
  case (Cons f fs)
  with assms have "fits k n True" by (cases f) auto
  then have "fits k n (is_red t)" using assms(2) by (cases "is_red t") auto
  with assms(1) have "rbt_ok (plug t k)" by (auto simp: plug_ok_iff)
  then show ?thesis by (rule rbt_ok_of_plug)
qed

lemma fits_last: "fits [f] n False \<Longrightarrow> frame_black f"
  by (cases f) auto

lemma fixup_ok:
  "black_height t = Some n \<Longrightarrow> is_red t \<Longrightarrow> fits k n False \<Longrightarrow> rbt_ok (blacken (fixup t k))"
proof (induction t k arbitrary: n rule: fixup.induct)
  case (1 t p s g cg u k)
  show ?case
  proof (cases "is_red u")
    case True
    let ?t = "Node (Node t p True s) g False (blacken u)"
    have "rbt_ok (blacken (fixup ?t k))"
      by (rule "1.IH"[OF True, of "Suc n"])
        (use "1.prems" True in \<open>auto simp: black_height_NodeE black_height_blacken fits_weaken simp del: black_height.simps(2)\<close>)
    with True show ?thesis by simp
  next
    case False
    have "rbt_ok (plug (Node t p True (Node s g False u)) k)"
      unfolding plug_ok_iff using "1.prems" False
      by (intro exI[of _ "Suc n"]) (auto simp: black_height_NodeE simp del: black_height.simps(2))
    with False show ?thesis using rbt_ok_of_plug by simp
  qed
next
  case (2 t s p g cg u k)
  show ?case
  proof (cases "is_red u")
    case True
    let ?t = "Node (Node s p True t) g False (blacken u)"
    have "rbt_ok (blacken (fixup ?t k))"
      by (rule "2.IH"[OF True, of "Suc n"])
        (use "2.prems" True in \<open>auto simp: black_height_NodeE black_height_blacken fits_weaken simp del: black_height.simps(2)\<close>)
    with True show ?thesis by simp
  next
    case False
    obtain a x b where t: "t = Node a x False b" using "2.prems"(2) by (rule is_redE)
    have "rbt_ok (plug (Node (Node s p False a) x True (Node b g False u)) k)"
      unfolding plug_ok_iff using "2.prems" False t
      by (intro exI[of _ "Suc n"]) (auto simp: black_height_NodeE simp del: black_height.simps(2))
    with False t show ?thesis using rbt_ok_of_plug by simp
  qed
next
  case (3 t s p u g cg k)
  show ?case
  proof (cases "is_red u")
    case True
    let ?t = "Node (blacken u) g False (Node s p True t)"
    have "rbt_ok (blacken (fixup ?t k))"
      by (rule "3.IH"[OF True, of "Suc n"])
        (use "3.prems" True in \<open>auto simp: black_height_NodeE black_height_blacken fits_weaken simp del: black_height.simps(2)\<close>)
    with True show ?thesis by simp
  next
    case False
    have "rbt_ok (plug (Node (Node u g False s) p True t) k)"
      unfolding plug_ok_iff using "3.prems" False
      by (intro exI[of _ "Suc n"]) (auto simp: black_height_NodeE simp del: black_height.simps(2))
    with False show ?thesis using rbt_ok_of_plug by simp
  qed
next
  case (4 t p s u g cg k)
  show ?case
  proof (cases "is_red u")
    case True
    let ?t = "Node (blacken u) g False (Node t p True s)"
    have "rbt_ok (blacken (fixup ?t k))"
      by (rule "4.IH"[OF True, of "Suc n"])
        (use "4.prems" True in \<open>auto simp: black_height_NodeE black_height_blacken fits_weaken simp del: black_height.simps(2)\<close>)
    with True show ?thesis by simp
  next
    case False
    obtain a x b where t: "t = Node a x False b" using "4.prems"(2) by (rule is_redE)
    have "rbt_ok (plug (Node (Node u g False a) x True (Node b p False s)) k)"
      unfolding plug_ok_iff using "4.prems" False t
      by (intro exI[of _ "Suc n"]) (auto simp: black_height_NodeE simp del: black_height.simps(2))
    with False t show ?thesis using rbt_ok_of_plug by simp
  qed
qed (auto simp del: plug.simps fits.simps intro!: fixup_plain dest: fits_last)

end
