(* ===== verification/Rb_Search.thy ===== *)
theory Rb_Search
  imports Rb_Insert
begin

text \<open>
  The functions that \<^verbatim>\<open>rb_tree_define\<close> of \<^verbatim>\<open>base/rbtree.h\<close> generates: searching for a key, for its
  upper and lower neighbour, and inserting a node at the place the comparison leads to.
\<close>

text \<open>
  \<open>ordered cmp xs\<close>: along the nodes in order, the key is first greater than the entries, then equal
  to at most one, then smaller.
\<close>

definition ordered :: "(addr \<Rightarrow> int) \<Rightarrow> addr list \<Rightarrow> bool" where
  "ordered cmp xs = sorted_wrt (\<lambda>x y. cmp x \<le> 0 \<longrightarrow> cmp y < 0) xs"

fun link_of :: "frame list \<Rightarrow> bool option" where
  "link_of [] = None"
| "link_of (LF x c r # k) = Some True"
| "link_of (RF l x c # k) = Some False"

lemma ordered_append:
  "ordered cmp (xs @ ys) = (ordered cmp xs \<and> ordered cmp ys \<and> (\<forall>x \<in> set xs. \<forall>y \<in> set ys. cmp x \<le> 0 \<longrightarrow> cmp y < 0))"
  by (simp add: ordered_def sorted_wrt_append)

lemma ordered_Cons: "ordered cmp (x # ys) = (ordered cmp ys \<and> (\<forall>y \<in> set ys. cmp x \<le> 0 \<longrightarrow> cmp y < 0))"
  by (auto simp: ordered_def)

lemma ordered_at_neg: "ordered cmp (xs @ x # ys) \<Longrightarrow> cmp x < 0 \<Longrightarrow> \<forall>y \<in> set ys. cmp y < 0"
  by (auto simp: ordered_append ordered_Cons)

lemma ordered_at_pos: "ordered cmp (xs @ x # ys) \<Longrightarrow> cmp x > 0 \<Longrightarrow> \<forall>y \<in> set xs. cmp y > 0"
  by (auto simp: ordered_append ordered_Cons)

section \<open>Descending\<close>

lemma rb_insert_at_plug:
  assumes "rep h (plug t k)" and "ordered cmp (nodes t)"
    and "\<forall>y \<in> set (before k). cmp y > 0" and "\<forall>y \<in> set (after k). cmp y < 0"
  shows "(\<exists>x p l. rb_insert_at cmp h (ptr t) (top k) (link_of k) = Some (x, p, l) \<and> x \<noteq> NULL \<and> x \<in> set (nodes t) \<and> cmp x = 0) \<or>
    (\<exists>k'. rb_insert_at cmp h (ptr t) (top k) (link_of k) = Some (NULL, top k', link_of k') \<and> plug Leaf k' = plug t k \<and>
      (\<forall>y \<in> set (before k'). cmp y > 0) \<and> (\<forall>y \<in> set (after k'). cmp y < 0))"
  using assms
proof (induction t arbitrary: k)
  case Leaf
  then show ?case by (intro disjI2 exI[of _ k]) (subst rb_insert_at.simps, simp)
next
  case (Node l x c r)
  note at = rep_at[OF Node.prems(1)]
  have o: "ordered cmp (nodes l @ x # nodes r)" using Node.prems(2) by simp
  consider "cmp x < 0" | "cmp x > 0" | "cmp x = 0" by linarith
  then show ?case
  proof cases
    case 1
    have "rb_insert_at cmp h (ptr (Node l x c r)) (top k) (link_of k) =
        rb_insert_at cmp h (ptr l) (top (LF x c r # k)) (link_of (LF x c r # k))"
      using 1 at by (subst rb_insert_at.simps) simp
    moreover have "ordered cmp (nodes l)" using o by (simp add: ordered_append)
    moreover have "\<forall>y \<in> set (after (LF x c r # k)). cmp y < 0"
      using Node.prems(4) 1 ordered_at_neg[OF o] by auto
    ultimately show ?thesis
      using Node.IH(1)[of "LF x c r # k"] Node.prems by auto
  next
    case 2
    have "rb_insert_at cmp h (ptr (Node l x c r)) (top k) (link_of k) =
        rb_insert_at cmp h (ptr r) (top (RF l x c # k)) (link_of (RF l x c # k))"
      using 2 at by (subst rb_insert_at.simps) simp
    moreover have "ordered cmp (nodes r)" using o by (simp add: ordered_append ordered_Cons)
    moreover have "\<forall>y \<in> set (before (RF l x c # k)). cmp y > 0"
      using Node.prems(3) 2 ordered_at_pos[OF o] by auto
    ultimately show ?thesis
      using Node.IH(2)[of "RF l x c # k"] Node.prems by auto
  next
    case 3
    have "rb_insert_at cmp h (ptr (Node l x c r)) (top k) (link_of k) = Some (x, top k, link_of k)"
      using 3 at by (subst rb_insert_at.simps) simp
    with 3 at show ?thesis by (intro disjI1) simp
  qed
qed

lemma rb_find_plug:
  assumes "rep h (plug t k)" and "ordered cmp (nodes t)"
  shows "rb_find cmp h (ptr t) = Some (hd_node (filter (\<lambda>x. cmp x = 0) (nodes t)))"
  using assms
proof (induction t arbitrary: k)
  case Leaf
  then show ?case by (subst rb_find.simps) simp
next
  case (Node l x c r)
  note at = rep_at[OF Node.prems(1)]
  have o: "ordered cmp (nodes l @ x # nodes r)" using Node.prems(2) by simp
  have ol: "ordered cmp (nodes l)" "ordered cmp (nodes r)" using o by (simp_all add: ordered_append ordered_Cons)
  consider "cmp x < 0" | "cmp x > 0" | "cmp x = 0" by linarith
  then show ?case
  proof cases
    case 1
    then have "\<forall>y \<in> set (nodes r). cmp y \<noteq> 0" using ordered_at_neg[OF o] by auto
    then show ?thesis
      using 1 at Node.IH(1)[of "LF x c r # k"] Node.prems(1) ol
      by (subst rb_find.simps) (simp add: filter_empty_conv)
  next
    case 2
    then have "filter (\<lambda>x. cmp x = 0) (nodes l) = []" using ordered_at_pos[OF o] by (auto simp: filter_empty_conv)
    then show ?thesis
      using 2 at Node.IH(2)[of "RF l x c # k"] Node.prems(1) ol
      by (subst rb_find.simps) simp
  next
    case 3
    then have "filter (\<lambda>x. cmp x = 0) (nodes l) = []"
      using o by (auto simp: filter_empty_conv ordered_append ordered_Cons)
    then show ?thesis using 3 at by (subst rb_find.simps) simp
  qed
qed

lemma rb_upper_from_plug:
  assumes "rep h (plug t k)" and "sorted_wrt (\<lambda>x y. cmp x < 0 \<longrightarrow> cmp y < 0) (nodes t)"
  shows "rb_upper_from cmp h (ptr t) it =
    Some (if filter (\<lambda>x. cmp x < 0) (nodes t) = [] then it else hd_node (filter (\<lambda>x. cmp x < 0) (nodes t)))"
  using assms
proof (induction t arbitrary: k it)
  case Leaf
  then show ?case by (subst rb_upper_from.simps) simp
next
  case (Node l x c r)
  note at = rep_at[OF Node.prems(1)]
  have o: "sorted_wrt (\<lambda>x y. cmp x < 0 \<longrightarrow> cmp y < 0) (nodes l)" "sorted_wrt (\<lambda>x y. cmp x < 0 \<longrightarrow> cmp y < 0) (nodes r)"
    "\<forall>y \<in> set (nodes l). cmp y < 0 \<longrightarrow> cmp x < 0"
    using Node.prems(2) unfolding nodes.simps sorted_wrt_append sorted_wrt.simps list.set by blast+
  show ?case
  proof (cases "cmp x < 0")
    case True
    then have step: "rb_upper_from cmp h x it = rb_upper_from cmp h (ptr l) x"
      using at by (subst rb_upper_from.simps) simp
    have "rb_upper_from cmp h (ptr l) x =
        Some (if filter (\<lambda>x. cmp x < 0) (nodes l) = [] then x else hd_node (filter (\<lambda>x. cmp x < 0) (nodes l)))"
      by (rule Node.IH(1)[of "LF x c r # k"]) (use Node.prems(1) o(1) in simp_all)
    with step True show ?thesis by (simp only: ptr.simps) (simp add: hd_node_append)
  next
    case False
    then have "filter (\<lambda>x. cmp x < 0) (nodes l) = []" using o(3) by (auto simp: filter_empty_conv)
    moreover have "rb_upper_from cmp h x it = rb_upper_from cmp h (ptr r) it"
      using at False by (subst rb_upper_from.simps) simp
    moreover have "rb_upper_from cmp h (ptr r) it =
        Some (if filter (\<lambda>x. cmp x < 0) (nodes r) = [] then it else hd_node (filter (\<lambda>x. cmp x < 0) (nodes r)))"
      by (rule Node.IH(2)[of "RF l x c # k"]) (use Node.prems(1) o(2) in simp_all)
    ultimately show ?thesis using False by simp
  qed
qed

lemma rb_lower_from_upper:
  assumes "rep h (plug t k)"
  shows "rb_lower_from cmp h (ptr t) it = rb_upper_from (\<lambda>x. cmp x - 1) h (ptr t) it"
  using assms
proof (induction t arbitrary: k it)
  case Leaf
  then show ?case by (subst rb_lower_from.simps, subst rb_upper_from.simps) simp
next
  case (Node l x c r)
  then show ?case
    using rep_at[OF Node.prems] Node.IH(1)[of "LF x c r # k"] Node.IH(2)[of "RF l x c # k"]
    by (subst rb_lower_from.simps, subst rb_upper_from.simps) simp
qed

section \<open>Linking a new node\<close>

lemma rb_link_node_plug:
  assumes r: "rep h (plug Leaf k)" and n: "n \<noteq> NULL" "n \<notin> set (before k @ after k)"
  shows "\<exists>h'. rb_link_node n (top k) (link_of k) h = Some h' \<and> rep h' (plug (Node Leaf n False Leaf) k)"
proof -
  define g where "g = h\<lparr>rb_parent := (rb_parent h)(n := top k), rb_black := (rb_black h)(n := False),
    rb_right := (rb_right h)(n := NULL), rb_left := (rb_left h)(n := NULL)\<rparr>"
  have t: "k \<noteq> [] \<Longrightarrow> top k \<noteq> NULL" using rep_top[OF r] by blast
  have "rb_link_node n (top k) (link_of k) h = Some (set_link k n g)"
    using n(1) t by (cases k rule: top.cases)
      (auto simp: rb_link_node_def rb_set_parent_def rb_set_color_def set_right_def set_left_def g_def)
  moreover have "around g NULL k = around h NULL k"
    by (rule around_cong) (use n in \<open>auto simp: g_def\<close>)
  then have "around (set_link k n g) n k"
    using r by (intro around_set_link[where a = NULL]) (auto simp: rep_plug)
  moreover have "n \<noteq> top k" using top_cases[of k] n by metis
  then have "shape (set_link k n g) (top k) (Node Leaf n False Leaf)"
    using n(1) by (simp add: set_link_fields) (simp add: g_def)
  ultimately show ?thesis
    using r n by (simp add: rep_plug)
qed


section \<open>Insertion\<close>

lemma fits_root_black: "fits k n red \<Longrightarrow> root_black k"
proof (induction k n red rule: fits.induct)
  case (2 x c r k n red)
  then show ?case by (cases k) (auto simp: root_black_def)
next
  case (3 l x c k n red)
  then show ?case by (cases k) (auto simp: root_black_def)
qed (simp add: root_black_def)

lemma rb_insert_rep:
  assumes r: "rep h t" and ok: "rbt_ok t" and o: "ordered cmp (nodes t)" and n: "n \<noteq> NULL" "n \<notin> set (nodes t)"
  shows "(\<exists>x. rb_insert cmp n h = Some (x, h) \<and> x \<in> set (nodes t) \<and> x \<noteq> NULL \<and> cmp x = 0) \<or>
    (\<exists>h' t'. rb_insert cmp n h = Some (NULL, h') \<and> rep h' t' \<and> rbt_ok t' \<and> (\<forall>x \<in> set (nodes t). cmp x \<noteq> 0) \<and>
      nodes t' = filter (\<lambda>x. cmp x > 0) (nodes t) @ n # filter (\<lambda>x. cmp x < 0) (nodes t))"
proof -
  have r0: "rep h (plug t [])" and root: "ptr t = rb_root h" using r by (simp_all add: rep_def)
  consider (found) x p l where "rb_insert_at cmp h (rb_root h) NULL None = Some (x, p, l)" "x \<noteq> NULL" "x \<in> set (nodes t)" "cmp x = 0"
    | (missing) k where "rb_insert_at cmp h (rb_root h) NULL None = Some (NULL, top k, link_of k)" "plug Leaf k = t"
        "\<forall>y \<in> set (before k). cmp y > 0" "\<forall>y \<in> set (after k). cmp y < 0"
    using rb_insert_at_plug[OF r0 o] root by auto
  then show ?thesis
  proof cases
    case found
    then show ?thesis by (intro disjI1 exI[of _ x]) (simp add: rb_insert_def)
  next
    case missing
    have xs: "nodes t = before k @ after k" using missing(2) nodes_plug[of Leaf k] by simp
    have rk: "rep h (plug Leaf k)" using r missing(2) by simp
    obtain h1 where h1: "rb_link_node n (top k) (link_of k) h = Some h1" "rep h1 (plug (Node Leaf n False Leaf) k)"
      using rb_link_node_plug[OF rk n(1)] n(2) xs by auto
    have fit: "fits k 0 False" using ok missing(2) plug_ok_iff[of Leaf k] by auto
    obtain h2 where h2: "rb_insert_color n h1 = Some h2" "rep h2 (blacken (fixup (Node Leaf n False Leaf) k))"
      using rb_insert_color_rep[OF h1(2) fits_root_black[OF fit]] by blast
    have "rbt_ok (blacken (fixup (Node Leaf n False Leaf) k))"
      by (rule fixup_ok[where n = 0]) (use fit in simp_all)
    moreover have "nodes (blacken (fixup (Node Leaf n False Leaf) k)) = before k @ n # after k"
      using nodes_fixup[of "Node Leaf n False Leaf" k] by simp
    moreover have "filter (\<lambda>x. cmp x > 0) (nodes t) = before k" "filter (\<lambda>x. cmp x < 0) (nodes t) = after k"
      using missing(3,4) by (auto simp: xs filter_empty_conv filter_id_conv)
    moreover have "\<forall>x \<in> set (nodes t). cmp x \<noteq> 0" using missing(3,4) xs by auto
    ultimately show ?thesis
      using missing(1) h1(1) h2 by (intro disjI2 exI[of _ h2]) (auto simp: rb_insert_def)
  qed
qed

text \<open>
  C12: inserting a node into a red-black tree whose nodes the comparison orders either finds the node
  that compares equal and changes nothing, or ends with a heap that represents a red-black tree
  again, with the new node between the smaller and the greater ones and all other nodes in their
  old order.
\<close>

theorem rb_insert_correct:
  assumes "rep h t" and "rbt_ok t" and "ordered cmp (nodes t)" and "n \<noteq> NULL" and "n \<notin> set (nodes t)"
  shows "\<exists>x h' t'. rb_insert cmp n h = Some (x, h') \<and> rep h' t' \<and> rbt_ok t' \<and>
    (if \<exists>y \<in> set (nodes t). cmp y = 0
     then x \<in> set (nodes t) \<and> cmp x = 0 \<and> h' = h \<and> t' = t
     else x = NULL \<and> nodes t' = filter (\<lambda>x. cmp x > 0) (nodes t) @ n # filter (\<lambda>x. cmp x < 0) (nodes t))"
  using rb_insert_rep[OF assms] assms(1,2) by auto

text \<open>The empty tree, and the tree of three nodes, for the concrete instances.\<close>

definition empty_heap :: rb_node where
  "empty_heap = \<lparr>rb_left = (\<lambda>_. NULL), rb_right = (\<lambda>_. NULL), rb_parent = (\<lambda>_. NULL), rb_black = (\<lambda>_. False), rb_root = NULL\<rparr>"

lemma rep_empty_heap: "rep empty_heap Leaf" "rbt_ok Leaf"
  by (simp_all add: rep_def empty_heap_def rbt_ok_def)

theorem rb_insert_correct_witness:
  "\<exists>h' t'. rb_insert (\<lambda>_. 1) 5 empty_heap = Some (NULL, h') \<and> rep h' t' \<and> rbt_ok t' \<and> nodes t' = [5]"
  using rb_insert_correct[of empty_heap Leaf "\<lambda>_. 1" 5] rep_empty_heap by (simp add: ordered_def NULL_def) blast

lemma ordered_mono:
  "ordered cmp xs \<Longrightarrow> sorted_wrt (\<lambda>x y. cmp x < 0 \<longrightarrow> cmp y < 0) xs"
  "ordered cmp xs \<Longrightarrow> sorted_wrt (\<lambda>x y. cmp x - 1 < 0 \<longrightarrow> cmp y - 1 < 0) xs"
  unfolding ordered_def by (erule sorted_wrt_mono_rel[rotated], force)+

lemma rb_search_rep:
  assumes "rep h t" and "ordered cmp (nodes t)"
  shows "rb_find cmp h (rb_root h) = Some (hd_node (filter (\<lambda>x. cmp x = 0) (nodes t))) \<and>
    rb_upper cmp h = Some (hd_node (filter (\<lambda>x. cmp x < 0) (nodes t))) \<and>
    rb_lower cmp h = Some (hd_node (filter (\<lambda>x. cmp x \<le> 0) (nodes t)))"
proof -
  have r: "rep h (plug t [])" and root: "rb_root h = ptr t" using assms(1) by (simp_all add: rep_def)
  have le: "(\<lambda>x. cmp x - 1 < 0) = (\<lambda>x. cmp x \<le> 0)" by auto
  have u: "rb_upper_from cmp h (ptr t) NULL = Some (hd_node (filter (\<lambda>x. cmp x < 0) (nodes t)))"
    using rb_upper_from_plug[OF r ordered_mono(1)[OF assms(2)], of NULL] by (simp split: if_splits)
  have l: "rb_upper_from (\<lambda>x. cmp x - 1) h (ptr t) NULL = Some (hd_node (filter (\<lambda>x. cmp x \<le> 0) (nodes t)))"
    using rb_upper_from_plug[OF r ordered_mono(2)[OF assms(2)], of NULL] unfolding le by (simp split: if_splits)
  show ?thesis
    unfolding rb_upper_def rb_lower_def root
    using rb_find_plug[OF r assms(2)] u l rb_lower_from_upper[OF r] by simp
qed

text \<open>
  C37: in a represented tree, \<^verbatim>\<open>rb_find\<close> returns the node that compares equal, \<^verbatim>\<open>rb_upper\<close> the first node
  greater than the key and \<^verbatim>\<open>rb_lower\<close> the first node not smaller than it, in the order of the tree,
  and \<^verbatim>\<open>NULL\<close> when there is none.
\<close>

theorem rb_search_correct:
  assumes "rep h t" and "ordered cmp (nodes t)"
  shows "rb_find cmp h (rb_root h) = Some (hd_node (filter (\<lambda>x. cmp x = 0) (nodes t))) \<and>
    rb_upper cmp h = Some (hd_node (filter (\<lambda>x. cmp x < 0) (nodes t))) \<and>
    rb_lower cmp h = Some (hd_node (filter (\<lambda>x. cmp x \<le> 0) (nodes t)))"
  using assms by (rule rb_search_rep)


theorem rb_search_correct_witness:
  "rb_find (\<lambda>_. 0) (empty_heap\<lparr>rb_root := 5, rb_black := (\<lambda>_. True)\<rparr>) 5 = Some 5"
proof -
  let ?h = "empty_heap\<lparr>rb_root := 5, rb_black := (\<lambda>_. True)\<rparr>"
  have "rep ?h (Node Leaf 5 True Leaf)" by (simp add: rep_def empty_heap_def NULL_def)
  then show ?thesis
    using rb_search_correct[of ?h "Node Leaf 5 True Leaf" "\<lambda>_. 0"] by (simp add: ordered_def)
qed

section \<open>Height\<close>

text \<open>The number of nodes on the longest path from the root: the rounds of a search, at most.\<close>

fun tree_height :: "rbt \<Rightarrow> nat" where
  "tree_height Leaf = 0"
| "tree_height (Node l x c r) = Suc (max (tree_height l) (tree_height r))"

lemma black_height_size: "black_height t = Some n \<Longrightarrow> 2 ^ n \<le> length (nodes t) + 1"
proof (induction t arbitrary: n)
  case (Node l x c r)
  then obtain m where "black_height l = Some m" "black_height r = Some m" "n = (if c then Suc m else m)"
    by (auto simp: black_height_NodeE simp del: black_height.simps(2))
  then show ?case using Node.IH[of m] by (cases c) auto
qed simp

lemma black_height_tree: "black_height t = Some n \<Longrightarrow> tree_height t \<le> 2 * n + (if is_red t then 1 else 0)"
proof (induction t arbitrary: n)
  case (Node l x c r)
  then obtain m where "black_height l = Some m" "black_height r = Some m" "n = (if c then Suc m else m)"
    "\<not> c \<longrightarrow> \<not> is_red l \<and> \<not> is_red r"
    by (auto simp: black_height_NodeE simp del: black_height.simps(2))
  then show ?case using Node.IH(1)[of m] Node.IH(2)[of m] by (cases c) (auto split: if_splits)
qed simp

lemma rb_height_bound:
  assumes "rep h t" and "rbt_ok t"
  shows "2 ^ (tree_height t div 2) \<le> length (nodes t) + 1"
proof -
  obtain n where n: "black_height t = Some n" "\<not> is_red t" using assms(2) by (auto simp: rbt_ok_def)
  have "tree_height t div 2 \<le> n" using black_height_tree[OF n(1)] n(2) by simp
  then have "(2 :: nat) ^ (tree_height t div 2) \<le> 2 ^ n" by (intro power_increasing) auto
  then show ?thesis using black_height_size[OF n(1)] by linarith
qed

end
