(* ===== verification/Rb_Erase.thy ===== *)
theory Rb_Erase
  imports Rb_Search
begin

text \<open>
  Deletion from the red-black trees of \<^verbatim>\<open>base/rbtree.c\<close>: the rebalancing loop on positions
  (\<open>del_left\<close>, \<open>del_right\<close>), its refinement by the heap program, and the relinking of the successor when the
  deleted node has two children.
\<close>

section \<open>One round of the loop\<close>

text \<open>The new subtree: one black node short of what its position needs (\<open>Up\<close>), or balanced (\<open>Done\<close>).\<close>

datatype round = Up rbt | Done rbt

fun del_left :: "rbt \<Rightarrow> addr \<Rightarrow> bool \<Rightarrow> rbt \<Rightarrow> round" where
  "del_left t p c (Node wl w cw wr) =
     (if \<not> is_red wl \<and> \<not> is_red wr then Up (Node t p c (Node wl w False wr))
      else if \<not> is_red wr
      then case wl of Node a v cv b \<Rightarrow> Done (Node (Node t p True a) v c (Node b w True wr)) | Leaf \<Rightarrow> Up Leaf
      else Done (Node (Node t p True wl) w c (blacken wr)))"
| "del_left t p c Leaf = Up Leaf"

definition mirror_round :: "round \<Rightarrow> round" where
  "mirror_round r = (case r of Up t \<Rightarrow> Up (mirror t) | Done t \<Rightarrow> Done (mirror t))"

definition del_right :: "rbt \<Rightarrow> addr \<Rightarrow> bool \<Rightarrow> rbt \<Rightarrow> round" where
  "del_right s p c t = mirror_round (del_left (mirror t) p c (mirror s))"

definition round_rep :: "(bool \<times> rb_node) option \<Rightarrow> round \<Rightarrow> frame list \<Rightarrow> bool" where
  "round_rep res r k = (case r of
     Up t \<Rightarrow> \<exists>h. res = Some (True, h) \<and> rep h (plug t k)
   | Done t \<Rightarrow> \<exists>h. res = Some (False, h) \<and> rep h (plug t k))"

lemma balance_left_finish:
  assumes "rep h (plug (Node t p c (Node wl w True wr)) k)" and "wr \<noteq> Leaf"
  shows "\<exists>h'. do {
      c \<leftarrow> get rb_black h p;
      h \<leftarrow> rb_set_color w c h;
      h \<leftarrow> rb_set_black p h;
      or \<leftarrow> get rb_right h w;
      h \<leftarrow> rb_set_black or h;
      h \<leftarrow> rb_rotate_left p h;
      Some (False, h)
    } = Some (False, h') \<and> rep h' (plug (Node (Node t p True wl) w c (blacken wr)) k)"
proof -
  have g: "get rb_black h p = Some c" using rep_get[OF assms(1)] by simp
  obtain h1 where h1: "rb_set_color w c h = Some h1" "rep h1 (plug (Node wl w c wr) (RF t p c # k))"
    using rep_set_color[of h wl w True wr "RF t p c # k" c] assms(1) by auto
  obtain h2 where h2: "rb_set_black p h1 = Some h2" "rep h2 (plug (Node t p True (Node wl w c wr)) k)"
    using rep_set_black[of h1 t p c "Node wl w c wr" k] h1(2) by auto
  have g2: "get rb_right h2 w = Some (ptr wr)" using rep_get(2)[of h2 wl w c wr "RF t p True # k"] h2(2) by simp
  obtain h3 where h3: "rb_set_black (ptr wr) h2 = Some h3" "rep h3 (plug (blacken wr) (RF wl w c # RF t p True # k))"
    using rep_blacken[of h2 wr "RF wl w c # RF t p True # k"] h2(2) assms(2) by auto
  have "rep h3 (plug (Node t p True (Node wl w c (blacken wr))) k)" using h3(2) by simp
  then obtain h4 where "rb_rotate_left p h3 = Some h4" "rep h4 (plug (Node (Node t p True wl) w c (blacken wr)) k)"
    using rb_rotate_left_rep by blast
  with g h1 h2 g2 h3 show ?thesis by simp
qed

lemma rb_balance_left_rep:
  assumes r: "rep h (plug (Node t p c (Node wl w True wr)) k)"
  shows "round_rep (rb_balance_left p w h) (del_left t p c (Node wl w True wr)) k"
proof -
  have rw: "rep h (plug (Node wl w True wr) (RF t p c # k))" using r by simp
  have rl: "rep h (plug wl (LF w True wr # RF t p c # k))" and rr: "rep h (plug wr (RF wl w True # RF t p c # k))"
    using r by simp_all
  note nb = rep_none_or_black[OF rl] rep_none_or_black[OF rr]
  consider (both) "\<not> is_red wl" "\<not> is_red wr" | (inner) "is_red wl" "\<not> is_red wr" | (outer) "is_red wr" by blast
  then show ?thesis
  proof cases
    case both
    obtain h1 where "rb_set_red w h = Some h1" "rep h1 (plug (Node wl w False wr) (RF t p c # k))"
      using rep_set_red[OF rw] by blast
    with both show ?thesis using rep_get[OF rw] nb by (simp add: round_rep_def rb_balance_left_def)
  next
    case inner
    obtain a v b where wl: "wl = Node a v False b" using inner(1) by (rule is_redE)
    obtain h1 where h1: "rb_set_black v h = Some h1" "rep h1 (plug (Node a v True b) (LF w True wr # RF t p c # k))"
      using rep_set_black[of h a v False b "LF w True wr # RF t p c # k"] rl wl by auto
    obtain h2 where h2: "rb_set_red w h1 = Some h2" "rep h2 (plug (Node (Node a v True b) w False wr) (RF t p c # k))"
      using rep_set_red[of h1 "Node a v True b" w True wr "RF t p c # k"] h1(2) by auto
    obtain h3 where h3: "rb_rotate_right w h2 = Some h3" "rep h3 (plug (Node a v True (Node b w False wr)) (RF t p c # k))"
      using rb_rotate_right_rep[OF h2(2)] by blast
    have g: "get rb_right h3 p = Some v" using rep_get(2)[of h3 t p c "Node a v True (Node b w False wr)" k] h3(2) by simp
    have fin: "rep h3 (plug (Node t p c (Node a v True (Node b w False wr))) k)" using h3(2) by simp
    have "none_or_black h (ptr wr)" "\<not> none_or_black h (ptr wl)" using nb inner by simp_all
    then show ?thesis
      using balance_left_finish[OF fin] rep_get[OF rw] h1(1) h2(1) h3(1) g inner wl
      by (simp add: round_rep_def rb_balance_left_def)
  next
    case outer
    then have "wr \<noteq> Leaf" by auto
    moreover have "\<not> none_or_black h (ptr wr)" using nb outer by simp
    ultimately show ?thesis
      using balance_left_finish[OF r] rep_get[OF rw] outer
      by (simp add: round_rep_def rb_balance_left_def)
  qed
qed

lemma rb_sibling_right_rep:
  assumes r: "rep h (plug (Node t p c (Node a w cw b)) k)"
  shows "\<exists>h'. rb_sibling_right p h = Some (if cw then w else ptr a, h') \<and>
    rep h' (if cw then plug (Node t p c (Node a w True b)) k else plug (Node t p False a) (LF w True b # k))"
proof (cases cw)
  case True
  then show ?thesis
    using rep_get[OF r] rep_get[of h a w cw b "RF t p c # k"] r by (simp add: rb_sibling_right_def)
next
  case False
  have rw: "rep h (plug (Node a w cw b) (RF t p c # k))" using r by simp
  obtain h1 where h1: "rb_set_black w h = Some h1" "rep h1 (plug (Node t p c (Node a w True b)) k)"
    using rep_set_black[OF rw] by auto
  obtain h2 where h2: "rb_set_red p h1 = Some h2" "rep h2 (plug (Node t p False (Node a w True b)) k)"
    using rep_set_red[OF h1(2)] by blast
  obtain h3 where h3: "rb_rotate_left p h2 = Some h3" "rep h3 (plug (Node (Node t p False a) w True b) k)"
    using rb_rotate_left_rep[OF h2(2)] by blast
  have "get rb_right h3 p = Some (ptr a)" using rep_get(2)[of h3 t p False a "LF w True b # k"] h3(2) by simp
  then show ?thesis
    using False rep_get[OF r] rep_get[OF rw] h1(1) h2(1) h3 by (simp add: rb_sibling_right_def)
qed

section \<open>The mirrored round\<close>

lemma set_mir_colour: "rb_set_black a (mir h) = map_option mir (rb_set_black a h)" "rb_set_red a (mir h) = map_option mir (rb_set_red a h)"
  "get rb_black (mir h) a = get rb_black h a" "none_or_black (mir h) a = none_or_black h a"
  by (simp_all add: rb_set_black_def rb_set_red_def set_mir get_def none_or_black_def)

lemma rb_rotate_left_mir: "rb_rotate_left x (mir h) = map_option mir (rb_rotate_right x h)"
proof -
  have "rb_rotate_right x (mir (mir h)) = map_option mir (rb_rotate_left x (mir h))" by (rule rb_rotate_right_mir)
  then have "map_option mir (rb_rotate_right x h) = map_option (mir \<circ> mir) (rb_rotate_left x (mir h))"
    by (simp add: option.map_comp)
  then show ?thesis by (simp add: comp_def option.map_ident)
qed

lemma map_option_Some_pair: "Some (x, mir h) = map_option (apsnd mir) (Some (x, h))"
  by simp

lemma if_map_option: "(if b then map_option f m else map_option f m') = map_option f (if b then m else m')"
  by simp

lemma rb_sibling_left_mir: "rb_sibling_left p (mir h) = map_option (apsnd mir) (rb_sibling_right p h)"
  unfolding rb_sibling_left_def rb_sibling_right_def
  by (simp only: set_mir set_mir_colour rb_rotate_right_mir map_option_bind bind_map_option map_option_Some_pair
      if_map_option) (simp only: if_map_option[symmetric] bind_map_option option.map apsnd_conv)

lemma rb_balance_right_mir: "rb_balance_right p w (mir h) = map_option (apsnd mir) (rb_balance_left p w h)"
proof (cases "w = NULL")
  case True
  then show ?thesis by (simp add: rb_balance_right_def rb_balance_left_def get_def)
next
  case False
  then have g: "get rb_left h w = Some (rb_left h w)" "get rb_right h w = Some (rb_right h w)" by (simp_all add: get_def)
  show ?thesis
  proof (cases "none_or_black h (rb_left h w) \<and> none_or_black h (rb_right h w)")
    case True
    then show ?thesis
      unfolding rb_balance_right_def rb_balance_left_def
      by (simp add: set_mir set_mir_colour map_option_bind bind_map_option g)
  next
    case False
    then have F: "(none_or_black h (rb_left h w) \<and> none_or_black h (rb_right h w)) = False"
       "(none_or_black h (rb_right h w) \<and> none_or_black h (rb_left h w)) = False" by auto
    show ?thesis
      unfolding rb_balance_right_def rb_balance_left_def
      by (simp only: set_mir set_mir_colour g bind.bind_lunit F if_False)
        (simp add: set_mir set_mir_colour rb_rotate_right_mir rb_rotate_left_mir map_option_bind bind_map_option)
  qed
qed


lemma mirror_frames [simp]: "map mirror_frame (map mirror_frame k) = k"
  by (induction k) auto

lemma rep_mir_plug: "rep (mir h) (plug (mirror t) (map mirror_frame k)) = rep h (plug t k)"
  using rep_mir[of h "plug t k"] by (simp add: mirror_plug)

lemma round_rep_mir:
  "round_rep res (del_left (mirror t) p c (mirror s)) (map mirror_frame k) \<Longrightarrow>
   round_rep (map_option (apsnd mir) res) (del_right s p c t) k"
  using rep_mir_plug[of "mir _" "mirror _" "map mirror_frame k"] rep_mir_plug
  by (auto simp: round_rep_def del_right_def mirror_round_def split: round.splits)
    (metis mirror_mirror rep_mir_plug mir_simps(6))+

lemma rb_balance_right_rep:
  assumes "rep h (plug (Node (Node wl w True wr) p c t) k)"
  shows "round_rep (rb_balance_right p w h) (del_right (Node wl w True wr) p c t) k"
proof -
  have "rep (mir h) (plug (Node (mirror t) p c (Node (mirror wr) w True (mirror wl))) (map mirror_frame k))"
    using assms rep_mir_plug[of h "Node (Node wl w True wr) p c t" k] by simp
  then have "round_rep (rb_balance_left p w (mir h)) (del_left (mirror t) p c (mirror (Node wl w True wr))) (map mirror_frame k)"
    unfolding mirror.simps by (rule rb_balance_left_rep)
  then have "round_rep (map_option (apsnd mir) (rb_balance_left p w (mir h))) (del_right (Node wl w True wr) p c t) k"
    by (rule round_rep_mir)
  then show ?thesis using rb_balance_right_mir[of p w "mir h"] by simp
qed

lemma rb_sibling_left_rep:
  assumes "rep h (plug (Node (Node b w cw a) p c t) k)"
  shows "\<exists>h'. rb_sibling_left p h = Some (if cw then w else ptr a, h') \<and>
    rep h' (if cw then plug (Node (Node b w True a) p c t) k else plug (Node a p False t) (RF b w True # k))"
proof -
  have "rep (mir h) (plug (Node (mirror t) p c (Node (mirror a) w cw (mirror b))) (map mirror_frame k))"
    using assms rep_mir_plug[of h "Node (Node b w cw a) p c t" k] by simp
  then obtain g where g: "rb_sibling_right p (mir h) = Some (if cw then w else ptr (mirror a), g)"
    "rep g (if cw then plug (Node (mirror t) p c (Node (mirror a) w True (mirror b))) (map mirror_frame k)
            else plug (Node (mirror t) p False (mirror a)) (LF w True (mirror b) # map mirror_frame k))"
    using rb_sibling_right_rep by blast
  have "rb_sibling_left p h = Some (if cw then w else ptr a, mir g)"
    using g(1) rb_sibling_left_mir[of p "mir h"] by simp
  moreover have "rep (mir g) (if cw then plug (Node (Node b w True a) p c t) k else plug (Node a p False t) (RF b w True # k))"
    using g(2) rep_mir_plug[of "mir g" "Node (Node b w True a) p c t" k] rep_mir_plug[of "mir g" "Node a p False t" "RF b w True # k"]
    by (cases cw) simp_all
  ultimately show ?thesis by blast
qed

section \<open>The loop\<close>

text \<open>The heap program in steps.\<close>

definition paint_root :: "rb_node \<Rightarrow> rb_node option" where
  "paint_root h = (if rb_root h \<noteq> NULL then rb_set_black (rb_root h) h else Some h)"

definition erase_round :: "addr \<Rightarrow> (bool \<times> rb_node) option \<Rightarrow> rb_node option" where
  "erase_round p res = do {
     (up, h) \<leftarrow> res;
     if up then do { g \<leftarrow> get rb_parent h p; rb_erase_color p g h } else paint_root h
   }"

lemma root_of_plug: "ptr (plug t (f # k)) \<in> set (before (f # k) @ after (f # k))"
proof (induction k arbitrary: t f)
  case Nil
  then show ?case by (cases f) auto
next
  case (Cons g k)
  show ?case
  proof (cases f)
    case (LF x c r)
    then show ?thesis using Cons.IH[of "Node t x c r" g] by auto
  next
    case (RF l x c)
    then show ?thesis using Cons.IH[of "Node l x c t" g] by auto
  qed
qed

lemma rep_root_neq: "rep h (plug t (f # k)) \<Longrightarrow> ptr t \<noteq> rb_root h"
  using root_of_plug[of t f k] ptr_cases[of t] rep_not_NULL[of h "plug t (f # k)"]
  by (auto simp: rep_def)

lemma erase_color_stop:
  assumes "rep h (plug t k)" and "k = [] \<or> is_red t"
  shows "\<exists>h'. rb_erase_color (ptr t) (top k) h = Some h' \<and> rep h' (plug (blacken t) k)"
proof -
  have "\<not> (none_or_black h (ptr t) \<and> ptr t \<noteq> rb_root h)"
    using assms rep_none_or_black[OF assms(1)] by (cases "k = []") (auto simp: rep_def)
  then have l: "rb_erase_color_loop (ptr t) (top k) h = Some (ptr t, h)"
    by (subst rb_erase_color_loop.simps) simp
  show ?thesis
  proof (cases "t = Leaf")
    case True
    then show ?thesis using l assms(1) by (simp add: rb_erase_color_def)
  next
    case False
    then show ?thesis using l rep_blacken[OF assms(1)] rep_ptr[OF assms(1)] by (simp add: rb_erase_color_def)
  qed
qed

lemma erase_color_left:
  assumes r: "rep h (plug t (LF p c s # k))" and "\<not> is_red t"
  shows "rb_erase_color (ptr t) p h =
    erase_round p (do { (other, h) \<leftarrow> rb_sibling_right p h; rb_balance_left p other h })"
proof -
  have "none_or_black h (ptr t)" using rep_none_or_black[OF r] assms(2) by simp
  moreover have "get rb_left h p = Some (ptr t)" using rep_get(1)[of h t p c s k] r by simp
  ultimately show ?thesis
    using rep_root_neq[OF r] unfolding rb_erase_color_def
    by (subst rb_erase_color_loop.simps)
      (auto simp: erase_round_def rb_erase_color_def paint_root_def split: Option.bind_splits intro!: arg_cong2[of _ _ _ _ Option.bind])
qed

lemma erase_color_right:
  assumes r: "rep h (plug t (RF s p c # k))" and "\<not> is_red t" and "s \<noteq> Leaf"
  shows "rb_erase_color (ptr t) p h =
    erase_round p (do { (other, h) \<leftarrow> rb_sibling_left p h; rb_balance_right p other h })"
proof -
  have "none_or_black h (ptr t)" using rep_none_or_black[OF r] assms(2) by simp
  moreover have "get rb_left h p = Some (ptr s)" using rep_get(1)[of h s p c t k] r by simp
  moreover have "ptr s \<noteq> ptr t"
    using ptr_cases[of t] ptr_in[OF assms(3)] rep_distinct[OF r] rep_not_NULL[OF r] by auto
  ultimately show ?thesis
    using rep_root_neq[OF r] unfolding rb_erase_color_def
    by (subst rb_erase_color_loop.simps)
      (auto simp: erase_round_def rb_erase_color_def paint_root_def split: Option.bind_splits intro!: arg_cong2[of _ _ _ _ Option.bind])
qed


text \<open>
  \<open>deficit t n\<close>: the subtree has \<open>n\<close> black nodes on every path where its position needs one more,
  or has a red root that may be painted black to supply it.
\<close>

definition deficit :: "rbt \<Rightarrow> nat \<Rightarrow> bool" where
  "deficit t n = (if is_red t then black_height (blacken t) = Some (Suc n) else black_height t = Some n)"

definition round_good :: "round \<Rightarrow> addr \<Rightarrow> bool \<Rightarrow> nat \<Rightarrow> addr list \<Rightarrow> bool" where
  "round_good r p c n xs = (case r of
     Up t \<Rightarrow> (\<exists>a b. t = Node a p c b) \<and> deficit t (if c then Suc n else n) \<and> nodes t = xs
   | Done t \<Rightarrow> black_height t = Some (if c then Suc (Suc n) else Suc n) \<and> is_red t = (\<not> c) \<and> nodes t = xs)"

lemma black_height_Some_blacken: "black_height u = Some n \<Longrightarrow> is_red u \<Longrightarrow> black_height (blacken u) = Some (Suc n)"
  by (rule black_height_blacken)

lemma del_left_good:
  assumes t: "\<not> is_red t" "black_height t = Some n" and s: "black_height (Node wl w True wr) = Some (Suc n)"
  shows "round_good (del_left t p c (Node wl w True wr)) p c n (nodes t @ p # nodes wl @ w # nodes wr)"
proof -
  have b: "black_height wl = Some n" "black_height wr = Some n" using s by (auto simp: black_height_NodeE simp del: black_height.simps(2))
  consider (both) "\<not> is_red wl" "\<not> is_red wr" | (inner) "is_red wl" "\<not> is_red wr" | (outer) "is_red wr" by blast
  then show ?thesis
  proof cases
    case both
    then show ?thesis
      using t b by (cases c) (auto simp: round_good_def deficit_def black_height_NodeE simp del: black_height.simps(2))
  next
    case inner
    obtain x v y where wl: "wl = Node x v False y" using inner(1) by (rule is_redE)
    show ?thesis
      using t b wl inner by (cases c) (auto simp: round_good_def black_height_NodeE simp del: black_height.simps(2))
  next
    case outer
    then show ?thesis
      using t b black_height_blacken[OF outer b(2)]
      by (cases c) (auto simp: round_good_def black_height_NodeE simp del: black_height.simps(2))
  qed
qed

lemma black_height_mirror [simp]: "black_height (mirror t) = black_height t"
  by (induction t) (auto split: option.splits)

lemma blacken_mirror: "blacken (mirror t) = mirror (blacken t)"
  by (cases t) auto

lemma deficit_mirror: "deficit (mirror t) n = deficit t n"
  unfolding deficit_def blacken_mirror black_height_mirror is_red_mirror ..

lemma round_good_mirror:
  assumes "round_good r p c n xs"
  shows "round_good (mirror_round r) p c n (rev xs)"
proof (cases r)
  case (Up t)
  then have d: "deficit t (if c then Suc n else n)" "nodes t = xs" and "\<exists>a b. t = Node a p c b"
    using assms by (simp_all add: round_good_def)
  then have "\<exists>a b. mirror t = Node a p c b" by auto
  moreover have "deficit (mirror t) (if c then Suc n else n)" "nodes (mirror t) = rev xs"
    using d by (simp_all only: deficit_mirror nodes_mirror)
  ultimately show ?thesis using Up by (simp add: round_good_def mirror_round_def)
next
  case (Done t)
  then show ?thesis using assms by (auto simp: round_good_def mirror_round_def)
qed

lemma del_right_good:
  assumes "\<not> is_red t" "black_height t = Some n" and "black_height (Node wl w True wr) = Some (Suc n)"
  shows "round_good (del_right (Node wl w True wr) p c t) p c n ((nodes wl @ w # nodes wr) @ p # nodes t)"
proof -
  have "black_height (mirror (Node wl w True wr)) = Some (Suc n)" using assms(3) by (simp only: black_height_mirror)
  then have "black_height (Node (mirror wr) w True (mirror wl)) = Some (Suc n)" by (simp only: mirror.simps)
  then have "round_good (del_left (mirror t) p c (Node (mirror wr) w True (mirror wl))) p c n
      (nodes (mirror t) @ p # nodes (mirror wr) @ w # nodes (mirror wl))"
    using assms(1,2) by (intro del_left_good) simp_all
  from round_good_mirror[OF this] show ?thesis by (simp add: del_right_def)
qed

lemma paint_root_rep: "rep h t \<Longrightarrow> rbt_ok t \<Longrightarrow> \<exists>h' t'. paint_root h = Some h' \<and> rep h' t' \<and> rbt_ok t' \<and> nodes t' = nodes t"
proof (cases t)
  case Leaf
  then show "rep h t \<Longrightarrow> rbt_ok t \<Longrightarrow> ?thesis" by (auto simp: paint_root_def rep_def intro!: exI[of _ Leaf])
next
  case (Node l x c r)
  assume r: "rep h t" and ok: "rbt_ok t"
  obtain h' where "rb_set_black (rb_root h) h = Some h'" "rep h' (blacken t)" using rep_blacken_root[OF r] Node by blast
  moreover have "rb_root h \<noteq> NULL" using r Node by (auto simp: rep_def)
  moreover have "rbt_ok (blacken t)" using ok rbt_ok_blacken by (auto simp: rbt_ok_def)
  ultimately show ?thesis by (auto simp: paint_root_def intro!: exI[of _ "blacken t"])
qed

lemma erase_round_rep:
  assumes rr: "round_rep res r k" and good: "round_good r p c n xs" and fit: "fits k (if c then Suc (Suc n) else Suc n) (\<not> c)"
    and up: "\<And>t h m. r = Up t \<Longrightarrow> rep h (plug t k) \<Longrightarrow> deficit t m \<Longrightarrow> fits k (Suc m) False \<Longrightarrow>
      \<exists>h' T. rb_erase_color (ptr t) (top k) h = Some h' \<and> rep h' T \<and> rbt_ok T \<and> nodes T = nodes (plug t k)"
  shows "\<exists>h' T. erase_round p res = Some h' \<and> rep h' T \<and> rbt_ok T \<and> nodes T = before k @ xs @ after k"
proof (cases r)
  case (Up t)
  then obtain h where h: "res = Some (True, h)" "rep h (plug t k)" using rr by (auto simp: round_rep_def)
  obtain a b where t: "t = Node a p c b" and d: "deficit t (if c then Suc n else n)" and xs: "nodes t = xs"
    using good Up by (auto simp: round_good_def)
  have "get rb_parent h p = Some (top k)" using rep_get(3) h(2) t by blast
  moreover have "fits k (Suc (if c then Suc n else n)) False" using fit fits_weaken by (cases c) auto
  then have "\<exists>h' T. rb_erase_color (ptr t) (top k) h = Some h' \<and> rep h' T \<and> rbt_ok T \<and> nodes T = nodes (plug t k)"
    by (rule up[OF Up h(2) d])
  moreover have "ptr t = p" by (simp add: t)
  moreover have "nodes (plug t k) = before k @ xs @ after k" by (simp add: xs)
  ultimately show ?thesis using h(1) by (auto simp: erase_round_def)
next
  case (Done t)
  then obtain h where h: "res = Some (False, h)" "rep h (plug t k)" using rr by (auto simp: round_rep_def)
  have t: "black_height t = Some (if c then Suc (Suc n) else Suc n)" "is_red t = (\<not> c)" "nodes t = xs"
    using good Done by (auto simp: round_good_def)
  have "rbt_ok (plug t k)" unfolding plug_ok_iff using t fit by auto
  then obtain h' T where "paint_root h = Some h'" "rep h' T" "rbt_ok T" "nodes T = nodes (plug t k)"
    using paint_root_rep[OF h(2)] by blast
  moreover have "nodes (plug t k) = before k @ xs @ after k" by (simp add: t)
  ultimately show ?thesis using h(1) by (auto simp: erase_round_def)
qed

lemma erase_color_stop_ok:
  assumes "rep h (plug t k)" and "k = [] \<or> is_red t" and "deficit t m" and "fits k (Suc m) False"
  shows "\<exists>h' T. rb_erase_color (ptr t) (top k) h = Some h' \<and> rep h' T \<and> rbt_ok T \<and> nodes T = nodes (plug t k)"
proof -
  obtain h' where "rb_erase_color (ptr t) (top k) h = Some h'" "rep h' (plug (blacken t) k)"
    using erase_color_stop[OF assms(1,2)] by blast
  moreover have "rbt_ok (plug (blacken t) k)"
  proof (cases "is_red t")
    case True
    then show ?thesis unfolding plug_ok_iff using assms(3,4) by (auto simp: deficit_def)
  next
    case False
    then show ?thesis using assms(2,3) rbt_ok_blacken by (simp add: deficit_def)
  qed
  ultimately show ?thesis by (intro exI[of _ h'] exI[of _ "plug (blacken t) k"]) simp
qed

lemma erase_color_rep:
  "rep h (plug t k) \<Longrightarrow> deficit t n \<Longrightarrow> fits k (Suc n) False \<Longrightarrow>
   \<exists>h' T. rb_erase_color (ptr t) (top k) h = Some h' \<and> rep h' T \<and> rbt_ok T \<and> nodes T = nodes (plug t k)"
proof (induction k arbitrary: t h n)
  case Nil
  then show ?case using erase_color_stop_ok[of h t "[]"] by blast
next
  case (Cons f k)
  show ?case
  proof (cases "is_red t")
    case True
    then show ?thesis using erase_color_stop_ok[of h t "f # k"] Cons.prems by blast
  next
    case t: False
    have tn: "black_height t = Some n" using Cons.prems(2) t by (simp add: deficit_def)
    show ?thesis
    proof (cases f)
      case (LF p c s)
      have r: "rep h (plug t (LF p c s # k))" using Cons.prems(1) LF by simp
      have s: "black_height s = Some (Suc n)" "\<not> c \<longrightarrow> \<not> is_red s" "fits k (if c then Suc (Suc n) else Suc n) (\<not> c)"
        using Cons.prems(3) LF by auto
      obtain wl w cw wr where sw: "s = Node wl w cw wr" using s(1) by (cases s) auto
      have r1: "rep h (plug (Node t p c (Node wl w cw wr)) k)" using r sw by simp
      show ?thesis
      proof (cases cw)
        case True
        obtain h1 where h1: "rb_sibling_right p h = Some (w, h1)" "rep h1 (plug (Node t p c (Node wl w True wr)) k)"
          using rb_sibling_right_rep[OF r1] True by auto
        have good: "round_good (del_left t p c (Node wl w True wr)) p c n (nodes t @ p # nodes wl @ w # nodes wr)"
          by (rule del_left_good[OF t tn]) (use s(1) sw True in simp)
        have "\<exists>h' T. erase_round p (rb_balance_left p w h1) = Some h' \<and> rep h' T \<and> rbt_ok T \<and>
            nodes T = before k @ (nodes t @ p # nodes wl @ w # nodes wr) @ after k"
          by (rule erase_round_rep[OF rb_balance_left_rep[OF h1(2)] good s(3)]) (rule Cons.IH)
        then show ?thesis using LF sw erase_color_left[OF r t] h1(1) by simp
      next
        case False
        then have c: "c" using s(2) sw by auto
        have ch: "black_height wl = Some (Suc n)" "black_height wr = Some (Suc n)" "\<not> is_red wl" "\<not> is_red wr"
          using s(1) sw False by (auto simp: black_height_NodeE simp del: black_height.simps(2))
        obtain a v cv b where wl: "wl = Node a v cv b" using ch(1) by (cases wl) auto
        have cv: "cv" using ch(3) wl by simp
        obtain h1 where h1: "rb_sibling_right p h = Some (v, h1)"
          "rep h1 (plug (Node t p False (Node a v True b)) (LF w True wr # k))"
          using rb_sibling_right_rep[OF r1] False wl cv by auto
        have good: "round_good (del_left t p False (Node a v True b)) p False n (nodes t @ p # nodes a @ v # nodes b)"
          by (rule del_left_good[OF t tn]) (use ch(1) wl cv in simp)
        have fit: "fits (LF w True wr # k) (if False then Suc (Suc n) else Suc n) (\<not> False)" using s(3) c ch by simp
        have "\<exists>h' T. erase_round p (rb_balance_left p v h1) = Some h' \<and> rep h' T \<and> rbt_ok T \<and>
            nodes T = before (LF w True wr # k) @ (nodes t @ p # nodes a @ v # nodes b) @ after (LF w True wr # k)"
        proof (rule erase_round_rep[OF rb_balance_left_rep[OF h1(2)] good fit])
          fix u g m assume "del_left t p False (Node a v True b) = Up u" and rep: "rep g (plug u (LF w True wr # k))"
            and d: "deficit u m" "fits (LF w True wr # k) (Suc m) False"
          then have "is_red u" using good by (auto simp: round_good_def)
          then show "\<exists>h' T. rb_erase_color (ptr u) (top (LF w True wr # k)) g = Some h' \<and> rep h' T \<and> rbt_ok T \<and>
              nodes T = nodes (plug u (LF w True wr # k))" by (intro erase_color_stop_ok[OF rep _ d]) simp
        qed
        then show ?thesis using LF sw wl erase_color_left[OF r t] h1(1) by simp
      qed
    next
      case (RF s p c)
      have r: "rep h (plug t (RF s p c # k))" using Cons.prems(1) RF by simp
      have s: "black_height s = Some (Suc n)" "\<not> c \<longrightarrow> \<not> is_red s" "fits k (if c then Suc (Suc n) else Suc n) (\<not> c)"
        using Cons.prems(3) RF by auto
      obtain wl w cw wr where sw: "s = Node wl w cw wr" using s(1) by (cases s) auto
      have sne: "s \<noteq> Leaf" by (simp add: sw)
      have r1: "rep h (plug (Node (Node wl w cw wr) p c t) k)" using r sw by simp
      show ?thesis
      proof (cases cw)
        case True
        obtain h1 where h1: "rb_sibling_left p h = Some (w, h1)" "rep h1 (plug (Node (Node wl w True wr) p c t) k)"
          using rb_sibling_left_rep[OF r1] True by auto
        have good: "round_good (del_right (Node wl w True wr) p c t) p c n ((nodes wl @ w # nodes wr) @ p # nodes t)"
          by (rule del_right_good[OF t tn]) (use s(1) sw True in simp)
        have "\<exists>h' T. erase_round p (rb_balance_right p w h1) = Some h' \<and> rep h' T \<and> rbt_ok T \<and>
            nodes T = before k @ ((nodes wl @ w # nodes wr) @ p # nodes t) @ after k"
          by (rule erase_round_rep[OF rb_balance_right_rep[OF h1(2)] good s(3)]) (rule Cons.IH)
        then show ?thesis using RF sw erase_color_right[OF r t sne] h1(1) by simp
      next
        case False
        then have c: "c" using s(2) sw by auto
        have ch: "black_height wl = Some (Suc n)" "black_height wr = Some (Suc n)" "\<not> is_red wl" "\<not> is_red wr"
          using s(1) sw False by (auto simp: black_height_NodeE simp del: black_height.simps(2))
        obtain a v cv b where wr: "wr = Node a v cv b" using ch(2) by (cases wr) auto
        have cv: "cv" using ch(4) wr by simp
        obtain h1 where h1: "rb_sibling_left p h = Some (v, h1)"
          "rep h1 (plug (Node (Node a v True b) p False t) (RF wl w True # k))"
          using rb_sibling_left_rep[OF r1] False wr cv by auto
        have good: "round_good (del_right (Node a v True b) p False t) p False n ((nodes a @ v # nodes b) @ p # nodes t)"
          by (rule del_right_good[OF t tn]) (use ch(2) wr cv in simp)
        have fit: "fits (RF wl w True # k) (if False then Suc (Suc n) else Suc n) (\<not> False)" using s(3) c ch by simp
        have "\<exists>h' T. erase_round p (rb_balance_right p v h1) = Some h' \<and> rep h' T \<and> rbt_ok T \<and>
            nodes T = before (RF wl w True # k) @ ((nodes a @ v # nodes b) @ p # nodes t) @ after (RF wl w True # k)"
        proof (rule erase_round_rep[OF rb_balance_right_rep[OF h1(2)] good fit])
          fix u g m assume "del_right (Node a v True b) p False t = Up u" and rep: "rep g (plug u (RF wl w True # k))"
            and d: "deficit u m" "fits (RF wl w True # k) (Suc m) False"
          then have "is_red u" using good by (auto simp: round_good_def)
          then show "\<exists>h' T. rb_erase_color (ptr u) (top (RF wl w True # k)) g = Some h' \<and> rep h' T \<and> rbt_ok T \<and>
              nodes T = nodes (plug u (RF wl w True # k))" by (intro erase_color_stop_ok[OF rep _ d]) simp
        qed
        then show ?thesis using RF sw wr erase_color_right[OF r t sne] h1(1) by simp
      qed
    qed
  qed
qed

end
