(* ===== verification/Rb_Delete.thy ===== *)
theory Rb_Delete
  imports Rb_Erase
begin

text \<open>
  \<open>rb_erase\<close> and \<open>rb_replace_node\<close> of \<^verbatim>\<open>base/rbtree.c\<close>: taking a node out of the tree, or putting another
  one in its place.
\<close>

section \<open>Putting a subtree in the place of its parent\<close>

definition raise_heap :: "frame list \<Rightarrow> rbt \<Rightarrow> rb_node \<Rightarrow> rb_node" where
  "raise_heap k s h =
     set_link k (ptr s) (if ptr s \<noteq> NULL then h\<lparr>rb_parent := (rb_parent h)(ptr s := top k)\<rparr> else h)"

lemma shape_new_parent:
  assumes "shape h p s" and "distinct (nodes s)" and "s \<noteq> Leaf \<longrightarrow> rb_parent h' (ptr s) = q"
    and "\<And>x. x \<in> set (nodes s) \<Longrightarrow> rb_left h' x = rb_left h x \<and> rb_right h' x = rb_right h x \<and> rb_black h' x = rb_black h x"
    and "\<And>x. x \<in> set (nodes s) \<Longrightarrow> x \<noteq> ptr s \<Longrightarrow> rb_parent h' x = rb_parent h x"
  shows "shape h' q s"
proof (cases s)
  case (Node l x c r)
  have "shape h' x l = shape h x l" "shape h' x r = shape h x r"
    by (rule shape_cong; use assms Node in auto)+
  then show ?thesis using assms Node by auto
qed simp

lemma raise_rep:
  assumes r: "rep h (plug (Node a x c b) k)" and s: "s = a \<or> s = b"
  shows "rep (raise_heap k s h) (plug s k)"
proof -
  have d: "distinct (before k @ (nodes a @ x # nodes b) @ after k)" using rep_distinct[OF r] by simp
  have nn: "NULL \<notin> set (before k @ (nodes a @ x # nodes b) @ after k)" using rep_not_NULL[OF r] by simp
  have ss: "set (nodes s) \<subseteq> set (nodes a) \<union> set (nodes b)" "x \<notin> set (nodes s)" "distinct (nodes s)"
      "set (nodes s) \<inter> set (before k @ after k) = {}" "NULL \<notin> set (nodes s)" using s d nn by auto
  have ar: "around h x k" and sh: "shape h x s" using r s by (auto simp: rep_plug)
  let ?g = "if ptr s \<noteq> NULL then h\<lparr>rb_parent := (rb_parent h)(ptr s := top k)\<rparr> else h"
  have "around ?g x k = around h x k"
  proof (rule around_cong)
    fix z assume "z \<in> set (before k @ after k)"
    then have "z \<noteq> ptr s \<or> ptr s = NULL" using ptr_cases[of s] ss(4) by auto
    then show "rb_left ?g z = rb_left h z \<and> rb_right ?g z = rb_right h z \<and> rb_parent ?g z = rb_parent h z \<and> rb_black ?g z = rb_black h z"
      by auto
  qed simp
  then have "around (raise_heap k s h) (ptr s) k"
    unfolding raise_heap_def using ar d by (intro around_set_link[where a = x]) auto
  moreover have "shape (raise_heap k s h) (top k) s"
  proof (rule shape_new_parent[OF sh ss(3)])
    show "s \<noteq> Leaf \<longrightarrow> rb_parent (raise_heap k s h) (ptr s) = top k"
      using ptr_in[of s] ss(5) by (auto simp: raise_heap_def set_link_fields)
    fix z assume z: "z \<in> set (nodes s)"
    then have "z \<noteq> top k" using top_cases[of k] ss(4,5) by auto
    then show "rb_left (raise_heap k s h) z = rb_left h z \<and> rb_right (raise_heap k s h) z = rb_right h z \<and>
        rb_black (raise_heap k s h) z = rb_black h z"
      by (simp add: raise_heap_def set_link_fields)
    show "z \<noteq> ptr s \<Longrightarrow> rb_parent (raise_heap k s h) z = rb_parent h z"
      by (simp add: raise_heap_def set_link_fields)
  qed
  moreover have "distinct (before k @ nodes s @ after k)" using d ss by auto
  ultimately show ?thesis by (simp add: rep_plug)
qed

lemma raise_run:
  assumes r: "rep h (plug (Node a x c b) k)" and s: "s = a \<or> s = b"
  shows "do {
      h \<leftarrow> (if ptr s \<noteq> NULL then rb_set_parent (ptr s) (top k) h else Some h);
      relink (top k) x (ptr s) h
    } = Some (raise_heap k s h)"
proof -
  let ?g = "if ptr s \<noteq> NULL then h\<lparr>rb_parent := (rb_parent h)(ptr s := top k)\<rparr> else h"
  have "points ?g x k" by (rule points_cong[OF rep_points[OF r]]) simp
  from relink_points[OF this, of "ptr s"] show ?thesis
    by (simp add: rb_set_parent_def raise_heap_def split: if_splits)
qed

lemma rb_erase_one_rep:
  assumes r: "rep h (plug (Node a x c b) k)" and ok: "rbt_ok (plug (Node a x c b) k)"
    and s: "s = a \<and> b = Leaf \<or> s = b \<and> a = Leaf"
  shows "\<exists>h' T. rb_erase_one x (ptr s) h = Some h' \<and> rep h' T \<and> rbt_ok T \<and> nodes T = before k @ nodes a @ nodes b @ after k"
proof -
  have sab: "s = a \<or> s = b" using s by blast
  have rr: "rep (raise_heap k s h) (plug s k)" by (rule raise_rep[OF r sab])
  have ns: "nodes (plug s k) = before k @ nodes a @ nodes b @ after k" using s by auto
  obtain n where n: "black_height (Node a x c b) = Some n" "fits k n (\<not> c)"
    using ok plug_ok_iff[of "Node a x c b" k] by auto
  then obtain m where m: "black_height s = Some m" "n = (if c then Suc m else m)" "\<not> c \<longrightarrow> \<not> is_red s"
    using sab by (auto simp: black_height_NodeE simp del: black_height.simps(2))
  have run: "rb_erase_one x (ptr s) h =
      (if c then rb_erase_color (ptr s) (top k) (raise_heap k s h) else Some (raise_heap k s h))"
    using raise_run[OF r sab] rep_get[OF r]
    by (auto simp: rb_erase_one_def bind_assoc[symmetric] simp del: bind_assoc split: Option.bind_splits)
  show ?thesis
  proof (cases c)
    case True
    have "deficit s m" using m black_height_blacken[of s m] by (auto simp: deficit_def)
    then show ?thesis using run True erase_color_rep[OF rr, of m] n(2) m(2) ns by simp
  next
    case False
    then have "rbt_ok (plug s k)" unfolding plug_ok_iff using m n(2) fits_weaken by auto
    then show ?thesis using run False rr ns by auto
  qed
qed

section \<open>Putting another node in the place of a node\<close>

definition replace_heap :: "rbt \<Rightarrow> rbt \<Rightarrow> bool \<Rightarrow> frame list \<Rightarrow> addr \<Rightarrow> rb_node \<Rightarrow> rb_node" where
  "replace_heap l r c k y h =
     (let g = set_link k y h;
          g = (if ptr l \<noteq> NULL then g\<lparr>rb_parent := (rb_parent g)(ptr l := y)\<rparr> else g);
          g = (if ptr r \<noteq> NULL then g\<lparr>rb_parent := (rb_parent g)(ptr r := y)\<rparr> else g)
      in g\<lparr>rb_parent := (rb_parent g)(y := top k), rb_black := (rb_black g)(y := c),
           rb_left := (rb_left g)(y := ptr l), rb_right := (rb_right g)(y := ptr r)\<rparr>)"

lemma replace_rep:
  assumes rp: "rep h (plug (Node l x c r) k)" and y: "y \<noteq> NULL" "y \<notin> set (nodes (plug (Node l x c r) k))"
  shows "rep (replace_heap l r c k y h) (plug (Node l y c r) k)"
proof -
  let ?h = "replace_heap l r c k y h"
  have d: "distinct (before k @ (nodes l @ x # nodes r) @ after k)" using rep_distinct[OF rp] by simp
  have nn: "NULL \<notin> set (before k @ (nodes l @ x # nodes r) @ after k)" using rep_not_NULL[OF rp] by simp
  have y': "y \<notin> set (nodes l)" "y \<notin> set (nodes r)" "y \<notin> set (before k @ after k)" "y \<noteq> x" using y by auto
  have dj: "set (nodes l) \<inter> set (before k @ after k) = {}" "set (nodes r) \<inter> set (before k @ after k) = {}"
    "set (nodes l) \<inter> set (nodes r) = {}" "distinct (nodes l)" "distinct (nodes r)" "x \<notin> set (before k @ after k)"
    "x \<notin> set (nodes l)" "x \<notin> set (nodes r)" using d by auto
  have nn': "NULL \<notin> set (nodes l)" "NULL \<notin> set (nodes r)" "NULL \<notin> set (before k @ after k)" using nn by auto
  have ar: "around h x k" and sl: "shape h x l" and sr: "shape h x r" using rp by (auto simp: rep_plug)
  have tk: "z \<in> set (nodes l) \<union> set (nodes r) \<Longrightarrow> z \<noteq> top k" "y \<noteq> top k" for z
    using top_cases[of k] dj nn' y' y(1) by (metis Un_iff disjoint_iff)+
  have pl: "ptr l \<noteq> NULL \<Longrightarrow> ptr l \<in> set (nodes l)" "ptr r \<noteq> NULL \<Longrightarrow> ptr r \<in> set (nodes r)"
    using ptr_cases by blast+
  have fields: "rb_left ?h z = (if z = y then ptr l else rb_left (set_link k y h) z)"
    "rb_right ?h z = (if z = y then ptr r else rb_right (set_link k y h) z)"
    "rb_black ?h z = (if z = y then c else rb_black h z)"
    "rb_parent ?h z = (if z = y then top k else if z = ptr r \<and> z \<noteq> NULL then y else if z = ptr l \<and> z \<noteq> NULL then y else rb_parent h z)"
    "rb_root ?h = rb_root (set_link k y h)" for z
    by (auto simp: replace_heap_def Let_def set_link_fields)
  have "shape ?h y l"
  proof (rule shape_new_parent[OF sl dj(4)])
    show "l \<noteq> Leaf \<longrightarrow> rb_parent ?h (ptr l) = y" using ptr_in[of l] y'(1) dj(3) pl nn'(1) by (auto simp: fields)
    fix z assume z: "z \<in> set (nodes l)"
    then have "z \<noteq> y" "z \<noteq> top k" using y' tk by auto
    then show "rb_left ?h z = rb_left h z \<and> rb_right ?h z = rb_right h z \<and> rb_black ?h z = rb_black h z"
      by (simp add: fields set_link_fields)
    show "z \<noteq> ptr l \<Longrightarrow> rb_parent ?h z = rb_parent h z" using \<open>z \<noteq> y\<close> z dj(3) pl(2) by (auto simp: fields)
  qed
  moreover have "shape ?h y r"
  proof (rule shape_new_parent[OF sr dj(5)])
    show "r \<noteq> Leaf \<longrightarrow> rb_parent ?h (ptr r) = y" using ptr_in[of r] y'(2) nn'(2) by (auto simp: fields)
    fix z assume z: "z \<in> set (nodes r)"
    then have "z \<noteq> y" "z \<noteq> top k" using y' tk by auto
    then show "rb_left ?h z = rb_left h z \<and> rb_right ?h z = rb_right h z \<and> rb_black ?h z = rb_black h z"
      by (simp add: fields set_link_fields)
    show "z \<noteq> ptr r \<Longrightarrow> rb_parent ?h z = rb_parent h z" using \<open>z \<noteq> y\<close> z dj(3) pl(1) by (auto simp: fields)
  qed
  moreover have "around ?h y k"
  proof -
    have "around (set_link k y h) y k" using ar d by (intro around_set_link[where a = x]) auto
    moreover have "around ?h y k = around (set_link k y h) y k"
    proof (rule around_cong)
      fix z assume z: "z \<in> set (before k @ after k)"
      then have "z \<noteq> y" "z \<noteq> ptr l \<or> z = NULL" "z \<noteq> ptr r \<or> z = NULL" using y' dj(1,2) pl by auto
      then show "rb_left ?h z = rb_left (set_link k y h) z \<and> rb_right ?h z = rb_right (set_link k y h) z \<and>
          rb_parent ?h z = rb_parent (set_link k y h) z \<and> rb_black ?h z = rb_black (set_link k y h) z"
        by (auto simp: fields set_link_fields)
    qed (simp add: fields)
    ultimately show ?thesis by simp
  qed
  ultimately show ?thesis
    using y(1) d y' by (simp add: rep_plug fields)
qed


lemma replace_run:
  assumes rp: "rep h (plug (Node l x c r) k)" and y: "y \<noteq> NULL" "y \<notin> set (nodes (plug (Node l x c r) k))"
  shows "rb_replace_node x y h = Some (replace_heap l r c k y h)"
proof -
  have d: "distinct (before k @ (nodes l @ x # nodes r) @ after k)" using rep_distinct[OF rp] by simp
  note at = rep_at[OF rp]
  have xk: "x \<noteq> top k" using top_cases[of k] d at(1) by auto
  have xl: "x \<noteq> ptr l \<or> l = Leaf" "x \<noteq> ptr r \<or> r = Leaf" using ptr_in[of l] ptr_in[of r] d by auto
  have pN: "(ptr l = NULL) = (l = Leaf)" "(ptr r = NULL) = (r = Leaf)"
    using rep_ptr[of h l "LF x c r # k"] rep_ptr[of h r "RF l x c # k"] rp by auto
  define g where "g = set_link k y h"
  define g1 where "g1 = (if ptr l \<noteq> NULL then g\<lparr>rb_parent := (rb_parent g)(ptr l := y)\<rparr> else g)"
  define g2 where "g2 = (if ptr r \<noteq> NULL then g1\<lparr>rb_parent := (rb_parent g1)(ptr r := y)\<rparr> else g1)"
  have s: "relink (top k) x y h = Some g" using relink_points[OF rep_points[OF rp]] by (simp add: g_def)
  have gl: "get rb_left g x = Some (ptr l)" using at xk by (simp add: get_def g_def set_link_fields)
  have s1: "(if ptr l \<noteq> NULL then rb_set_parent (ptr l) y g else Some g) = Some g1"
    by (simp add: g1_def rb_set_parent_def)
  have gr: "get rb_right g1 x = Some (ptr r)" using at xk by (simp add: get_def g1_def g_def set_link_fields)
  have s2: "(if ptr r \<noteq> NULL then rb_set_parent (ptr r) y g1 else Some g1) = Some g2"
    by (simp add: g2_def rb_set_parent_def)
  have gp: "get rb_parent g2 x = Some (top k)" "get rb_black g2 x = Some c"
    using at xl pN by (auto simp: get_def g2_def g1_def g_def set_link_fields)
  have "replace_heap l r c k y h = g2\<lparr>rb_parent := (rb_parent g2)(y := top k), rb_black := (rb_black g2)(y := c),
      rb_left := (rb_left g2)(y := ptr l), rb_right := (rb_right g2)(y := ptr r)\<rparr>"
    by (simp only: replace_heap_def Let_def g_def[symmetric] g1_def[symmetric] g2_def[symmetric])
  then show ?thesis
    using rep_get[OF rp] y(1)
    by (simp add: rb_replace_node_def s gl s1 gr s2 gp rb_set_parent_def rb_set_color_def set_left_def set_right_def)
qed

lemma rb_replace_node_rep:
  assumes "rep h (plug (Node l x c r) k)" and "y \<noteq> NULL" "y \<notin> set (nodes (plug (Node l x c r) k))"
  shows "\<exists>h'. rb_replace_node x y h = Some h' \<and> rep h' (plug (Node l y c r) k)"
  using replace_run[OF assms] replace_rep[OF assms] by blast

section \<open>The least node of a subtree\<close>

lemma leftmost_plug:
  "rep h (plug t k) \<Longrightarrow> t \<noteq> Leaf \<Longrightarrow>
   \<exists>y cy yr ks. leftmost h (ptr t) = Some y \<and> t = plug (Node Leaf y cy yr) ks \<and> before ks = [] \<and>
     (ks = [] \<or> (\<exists>z c s ks'. ks = LF z c s # ks'))"
proof (induction t arbitrary: k)
  case Leaf
  then show ?case by simp
next
  case (Node l x c r)
  note g = rep_get(1)[OF Node.prems(1)]
  show ?case
  proof (cases "l = Leaf")
    case True
    then show ?thesis using g
      by (intro exI[of _ x] exI[of _ c] exI[of _ r] exI[of _ "[]"]) (subst leftmost.simps, simp)
  next
    case False
    have "rep h (plug l (LF x c r # k))" using Node.prems(1) by simp
    from Node.IH(1)[OF this False] obtain y cy yr ks where
      y: "leftmost h (ptr l) = Some y" "l = plug (Node Leaf y cy yr) ks" "before ks = []"
        "ks = [] \<or> (\<exists>z c s ks'. ks = LF z c s # ks')" by blast
    have bf: "before (ks @ [LF x c r]) = []" using y(3) by (induction ks rule: before.induct) auto
    have "ptr l \<noteq> NULL" using False rep_ptr[of h l "LF x c r # k"] Node.prems(1) by simp
    then have "leftmost h x = leftmost h (ptr l)" using g by (subst leftmost.simps) simp
    then show ?thesis using y bf
      by (intro exI[of _ y] exI[of _ cy] exI[of _ yr] exI[of _ "ks @ [LF x c r]"]) (auto simp: plug_append)
  qed
qed

lemma leftmost_node: "rep h (plug t k) \<Longrightarrow> t \<noteq> Leaf \<Longrightarrow> leftmost h (ptr t) = Some (hd_node (nodes t))"
  by (drule (1) leftmost_plug) auto

text \<open>The case of two children, as taking the successor out and putting it in the place of the node.\<close>

lemma before_append: "before (k @ k') = before k' @ before k"
  by (induction k rule: before.induct) auto

lemma after_append: "after (k @ k') = after k @ after k'"
  by (induction k rule: after.induct) auto

lemma top_append: "top (k @ k') = (if k = [] then top k' else top k)"
  by (cases k rule: top.cases) auto

lemma rep_agree:
  assumes "rep h t" and "rb_root g = rb_root h"
    and "\<And>z. z \<in> set (nodes t) \<Longrightarrow> rb_left g z = rb_left h z \<and> rb_right g z = rb_right h z \<and>
      rb_parent g z = rb_parent h z \<and> rb_black g z = rb_black h z"
  shows "rep g t"
proof -
  have "shape g NULL t = shape h NULL t" by (rule shape_cong) (use assms(3) in auto)
  then show ?thesis using assms(1,2) by (simp add: rep_def)
qed


lemma ptr_plug_cong: "k \<noteq> [] \<Longrightarrow> ptr (plug t k) = ptr (plug u k)"
proof (induction t k arbitrary: u rule: plug.induct)
  case (2 t x c r k)
  then show ?case by (cases "k = []") auto
next
  case (3 t l x c k)
  then show ?case by (cases "k = []") auto
qed simp

lemma fits_same: "fits (ks @ RF l x c # k) n red = fits (ks @ RF l y c # k) n red"
proof (induction ks arbitrary: n red)
  case (Cons f ks)
  then show ?case by (cases f) auto
qed simp

definition moved_heap :: "rbt \<Rightarrow> rbt \<Rightarrow> bool \<Rightarrow> frame list \<Rightarrow> frame list \<Rightarrow> rbt \<Rightarrow> addr \<Rightarrow> rb_node \<Rightarrow> rb_node" where
  "moved_heap l r c k ks yr y h =
     (let g = set_link k y h;
          g = (if ks = [] then g
               else let g = (if ptr yr \<noteq> NULL then g\<lparr>rb_parent := (rb_parent g)(ptr yr := top ks)\<rparr> else g);
                        g = g\<lparr>rb_left := (rb_left g)(top ks := ptr yr)\<rparr>;
                        g = g\<lparr>rb_right := (rb_right g)(y := ptr r)\<rparr>
                    in g\<lparr>rb_parent := (rb_parent g)(ptr r := y)\<rparr>);
          g = g\<lparr>rb_parent := (rb_parent g)(y := top k), rb_black := (rb_black g)(y := c),
                rb_left := (rb_left g)(y := ptr l)\<rparr>
      in g\<lparr>rb_parent := (rb_parent g)(ptr l := y)\<rparr>)"

lemma moved_run:
  assumes rp: "rep h (plug (Node l x c r) k)" and ne: "l \<noteq> Leaf" "r \<noteq> Leaf"
    and y: "leftmost h (ptr r) = Some y" "r = plug (Node Leaf y cy yr) ks" "ks = [] \<or> (\<exists>z c s ks'. ks = LF z c s # ks')"
  shows "rb_erase_two x h =
    (if cy then rb_erase_color (ptr yr) (if ks = [] then y else top ks) (moved_heap l r c k ks yr y h)
     else Some (moved_heap l r c k ks yr y h))"
proof -
  have d: "distinct (before k @ (nodes l @ x # nodes r) @ after k)" using rep_distinct[OF rp] by simp
  have nn: "NULL \<notin> set (before k @ (nodes l @ x # nodes r) @ after k)" using rep_not_NULL[OF rp] by simp
  note at = rep_at[OF rp]
  have nr: "nodes r = before ks @ (y # nodes yr) @ after ks" using y(2) by simp
  have ry: "rep h (plug (Node Leaf y cy yr) (ks @ RF l x c # k))" using rp y(2) by (simp add: plug_append)
  note aty = rep_at[OF ry]
  have xk: "x \<noteq> top k" using top_cases[of k] d at(1) by auto
  have yin: "y \<in> set (nodes r)" and xy: "x \<noteq> y" and yk: "y \<noteq> top k"
    using nr d nn top_cases[of k] by auto
  have xl: "ptr l \<noteq> NULL" "ptr r \<noteq> NULL" "ptr l \<in> set (nodes l)" "ptr r \<in> set (nodes r)"
    using rep_ptr[of h l "LF x c r # k"] rep_ptr[of h r "RF l x c # k"] rp ne ptr_in by auto
  then have px: "ptr l \<noteq> x" "ptr r \<noteq> x" using d by auto
  have pyr: "ptr yr \<noteq> x" "ptr yr = NULL \<or> ptr yr \<in> set (nodes yr)" using ptr_cases[of yr] nr d at(1) by auto
  have tks: "ks \<noteq> [] \<Longrightarrow> top ks \<in> set (nodes r) \<and> top ks \<noteq> NULL \<and> top ks \<noteq> x \<and> top ks \<noteq> y"
    using top_in[of ks] nr d nn by auto
  define g where "g = set_link k y h"
  define g1 where "g1 = (if ptr yr \<noteq> NULL then g\<lparr>rb_parent := (rb_parent g)(ptr yr := top ks)\<rparr> else g)"
  define g2 where "g2 = g1\<lparr>rb_left := (rb_left g1)(top ks := ptr yr)\<rparr>"
  define g3 where "g3 = g2\<lparr>rb_right := (rb_right g2)(y := ptr r)\<rparr>"
  define g4 where "g4 = g3\<lparr>rb_parent := (rb_parent g3)(ptr r := y)\<rparr>"
  define g5 where "g5 = (if ks = [] then g else g4)"
  have mh: "moved_heap l r c k ks yr y h =
      (let g = g5\<lparr>rb_parent := (rb_parent g5)(y := top k), rb_black := (rb_black g5)(y := c), rb_left := (rb_left g5)(y := ptr l)\<rparr>
       in g\<lparr>rb_parent := (rb_parent g)(ptr l := y)\<rparr>)"
    by (simp add: moved_heap_def Let_def g5_def g4_def g3_def g2_def g1_def g_def cong: if_cong)
  have s0: "relink (top k) x y h = Some g" using relink_points[OF rep_points[OF rp]] by (simp add: g_def)
  have gy: "get rb_right g y = Some (ptr yr)" "get rb_parent g y = Some (if ks = [] then x else top ks)" "get rb_black g y = Some cy"
    using aty yk by (simp_all add: get_def g_def set_link_fields top_append)
  have s1: "(if ptr yr \<noteq> NULL then rb_set_parent (ptr yr) (top ks) g else Some g) = Some g1"
    by (simp add: g1_def rb_set_parent_def)
  have s2: "ks \<noteq> [] \<Longrightarrow> set_left (top ks) (ptr yr) g1 = Some g2"
    using tks by (simp add: g2_def set_left_def)
  have gr: "ks \<noteq> [] \<Longrightarrow> get rb_right g2 x = Some (ptr r)"
    using at xk by (simp add: get_def g2_def g1_def g_def set_link_fields)
  have s3: "set_right y (ptr r) g2 = Some g3" "rb_set_parent (ptr r) y g3 = Some g4"
    using aty(1) xl by (simp_all add: g3_def g4_def set_right_def rb_set_parent_def)
  have st: "(if (if ks = [] then x else top ks) = x then Some (y, g)
        else do {
          h \<leftarrow> (if ptr yr \<noteq> NULL then rb_set_parent (ptr yr) (if ks = [] then x else top ks) g else Some g);
          h \<leftarrow> set_left (if ks = [] then x else top ks) (ptr yr) h;
          oldright \<leftarrow> get rb_right h x;
          h \<leftarrow> set_right y oldright h;
          h \<leftarrow> rb_set_parent oldright y h;
          Some (if ks = [] then x else top ks, h)
        }) = Some (if ks = [] then y else top ks, g5)"
  proof (cases "ks = []")
    case True
    then show ?thesis by (simp add: g5_def)
  next
    case False
    then have "(top ks = x) = False" using tks by simp
    then show ?thesis
      by (simp only: False if_False s1 s2[OF False] gr[OF False] s3 g5_def bind.bind_lunit)
  qed
  have g5x: "rb_parent g5 x = top k" "rb_black g5 x = c" "rb_left g5 x = ptr l"
    using at xk px pyr tks xy by (auto simp: g5_def g4_def g3_def g2_def g1_def g_def set_link_fields)
  define g6 where "g6 = g5\<lparr>rb_parent := (rb_parent g5)(y := top k)\<rparr>"
  define g7 where "g7 = g6\<lparr>rb_black := (rb_black g6)(y := c)\<rparr>"
  define g8 where "g8 = g7\<lparr>rb_left := (rb_left g7)(y := ptr l)\<rparr>"
  define g9 where "g9 = g8\<lparr>rb_parent := (rb_parent g8)(ptr l := y)\<rparr>"
  have fin: "get rb_parent g5 x = Some (top k)" "get rb_black g5 x = Some c" "rb_set_parent y (top k) g5 = Some g6"
    "rb_set_color y c g6 = Some g7" "get rb_left g7 x = Some (ptr l)" "set_left y (ptr l) g7 = Some g8"
    "rb_set_parent (ptr l) y g8 = Some g9"
    using g5x at(1) aty(1) xl(1) by (simp_all add: get_def g6_def g7_def g8_def g9_def rb_set_parent_def rb_set_color_def set_left_def)
  have m9: "moved_heap l r c k ks yr y h = g9"
    by (simp add: mh Let_def g9_def g8_def g7_def g6_def)
  have gx: "get rb_right h x = Some (ptr r)" "get rb_parent h x = Some (top k)" using rep_get[OF rp] by simp_all
  show ?thesis
    unfolding rb_erase_two_def m9 by (simp only: gx y(1) s0 gy st fin bind.bind_lunit prod.case)
qed

lemma moved_rep:
  assumes rp: "rep h (plug (Node l x c r) k)" and ne: "l \<noteq> Leaf" "r \<noteq> Leaf"
    and y: "r = plug (Node Leaf y cy yr) ks" "before ks = []" "ks = [] \<or> (\<exists>z c s ks'. ks = LF z c s # ks')"
  shows "rep (moved_heap l r c k ks yr y h) (plug yr (ks @ RF l y c # k))"
proof -
  have d: "distinct (before k @ (nodes l @ x # nodes r) @ after k)" using rep_distinct[OF rp] by simp
  have nn: "NULL \<notin> set (before k @ (nodes l @ x # nodes r) @ after k)" using rep_not_NULL[OF rp] by simp
  have nr: "nodes r = y # nodes yr @ after ks" using y(1,2) by simp
  let ?K = "ks @ RF l x c # k"
  have ry: "rep h (plug (Node Leaf y cy yr) ?K)" using rp y(1) by (simp add: plug_append)
  define r' where "r' = plug yr ks"
  have ra: "rep (raise_heap ?K yr h) (plug (Node l x c r') k)"
    using raise_rep[OF ry, of yr] by (simp add: plug_append r'_def)
  have nr': "nodes r' = nodes yr @ after ks" using y(2) by (simp add: r'_def)
  have yn: "y \<noteq> NULL" "y \<notin> set (nodes (plug (Node l x c r') k))" using nr nr' d nn by auto
  note rb = replace_rep[OF ra yn]
  have xl: "ptr l \<noteq> NULL" "ptr l \<in> set (nodes l)" "ptr r \<noteq> NULL" "ptr r \<in> set (nodes r)"
    using rep_ptr[of h l "LF x c r # k"] rep_ptr[of h r "RF l x c # k"] rp ne ptr_in by auto
  have pyr: "ptr yr = NULL \<or> ptr yr \<in> set (nodes yr)" by (rule ptr_cases)
  let ?B = "set (before k @ after k)"
  have nB: "set (nodes l) \<inter> ?B = {}" "set (nodes r) \<inter> ?B = {}" "x \<notin> ?B" "set (nodes l) \<inter> set (nodes r) = {}"
    "x \<notin> set (nodes l)" "x \<notin> set (nodes r)" "NULL \<notin> ?B" "x \<noteq> NULL" using d nn by auto
  have yr: "y \<in> set (nodes r)" "set (nodes yr) \<subseteq> set (nodes r)" "y \<notin> set (nodes yr)" using nr d by auto
  have B: "y \<notin> ?B" "ptr l \<notin> ?B" "ptr r \<notin> ?B" "ptr yr \<notin> ?B" using nB yr xl pyr by auto
  have xk: "x \<noteq> top k" "y \<noteq> top k" "ptr l \<noteq> top k" "ptr r \<noteq> top k" "ptr yr = NULL \<or> ptr yr \<noteq> top k"
    using top_cases[of k] B nB xl yn(1) by metis+
  have "ptr yr \<noteq> y" "ptr yr \<noteq> x" "ptr yr \<noteq> ptr l" using pyr yr nB xl yn(1) by (metis disjoint_iff subsetD)+
  then have ds: "y \<noteq> x" "ptr l \<noteq> y" "ptr l \<noteq> x" "ptr r \<noteq> x" "ptr l \<noteq> ptr r" "ptr yr \<noteq> y" "ptr yr \<noteq> x" "ptr yr \<noteq> ptr l"
    "ptr yr = NULL \<or> ptr yr \<noteq> top k"
    using nB yr xl xk by (metis disjoint_iff)+
  note aty = rep_at[OF ry] and atx = rep_at[OF rp]
  have "rep (moved_heap l r c k ks yr y h) (plug (Node l y c r') k)"
  proof (cases "ks = []")
    case True
    have r: "r = Node Leaf y cy yr" "r' = yr" using y(1) True by (simp_all add: r'_def)
    have f: "rb_parent h y = x" "rb_right h y = ptr yr" "ptr yr \<noteq> NULL \<Longrightarrow> rb_parent h (ptr yr) = y"
      using ry True by (cases yr; auto simp: rep_plug)+
    show ?thesis
    proof (rule rep_agree[OF rb])
      show "rb_root (moved_heap l r c k ks yr y h) = rb_root (replace_heap l r' c k y (raise_heap ?K yr h))"
        using True by (cases k rule: top.cases) (auto simp: moved_heap_def replace_heap_def raise_heap_def Let_def)
      fix z assume "z \<in> set (nodes (plug (Node l y c r') k))"
      then have z: "z \<noteq> x" "z \<noteq> NULL" using d nn nr nr' ds(1) yn(1) by auto
      show "rb_left (moved_heap l r c k ks yr y h) z = rb_left (replace_heap l r' c k y (raise_heap ?K yr h)) z \<and>
          rb_right (moved_heap l r c k ks yr y h) z = rb_right (replace_heap l r' c k y (raise_heap ?K yr h)) z \<and>
          rb_parent (moved_heap l r c k ks yr y h) z = rb_parent (replace_heap l r' c k y (raise_heap ?K yr h)) z \<and>
          rb_black (moved_heap l r c k ks yr y h) z = rb_black (replace_heap l r' c k y (raise_heap ?K yr h)) z"
        using True z ds xl xk f r
        by (cases k rule: top.cases) (auto simp: moved_heap_def replace_heap_def raise_heap_def Let_def)
    qed
  next
    case False
    then obtain w wc ws ks' where ks: "ks = LF w wc ws # ks'" using y(3) by blast
    have w: "w \<in> set (after ks)" "w \<noteq> NULL" "w \<noteq> x" "w \<noteq> y" "w \<noteq> top k" "ptr yr \<noteq> w" "w \<noteq> ptr l"
    proof -
      have aw: "w \<in> set (after ks)" by (simp add: ks)
      then have wr: "w \<in> set (nodes r)" "w \<notin> set (nodes yr)" "w \<noteq> y" using nr d by auto
      show "w \<in> set (after ks)" "w \<noteq> y" by (fact aw, fact wr)
      show "w \<noteq> NULL" "w \<noteq> x" using wr nB nn by auto
      then show "w \<noteq> top k" "ptr yr \<noteq> w" "w \<noteq> ptr l"
        using wr nB top_cases[of k] pyr xl by (metis disjoint_iff)+
    qed
    have pr: "ptr r' = ptr r" using False ptr_plug_cong[of ks yr "Node Leaf y cy yr"] y(1) by (simp add: r'_def)
    have pry: "ptr r \<noteq> y" "ptr r \<noteq> ptr yr"
    proof -
      have "ptr r \<in> set (before ks @ after ks)" using ks root_of_plug[of "Node Leaf y cy yr" "LF w wc ws" ks'] y(1) by simp
      then show "ptr r \<noteq> y" "ptr r \<noteq> ptr yr" using nr d pyr y(2) xl(3) by auto
    qed
    show ?thesis
    proof (rule rep_agree[OF rb])
      show "rb_root (moved_heap l r c k ks yr y h) = rb_root (replace_heap l r' c k y (raise_heap ?K yr h))"
        using ks by (cases k rule: top.cases) (auto simp: moved_heap_def replace_heap_def raise_heap_def Let_def)
      fix z assume "z \<in> set (nodes (plug (Node l y c r') k))"
      then have z: "z \<noteq> x" "z \<noteq> NULL" using d nn nr nr' ds(1) yn(1) by auto
      show "rb_left (moved_heap l r c k ks yr y h) z = rb_left (replace_heap l r' c k y (raise_heap ?K yr h)) z \<and>
          rb_right (moved_heap l r c k ks yr y h) z = rb_right (replace_heap l r' c k y (raise_heap ?K yr h)) z \<and>
          rb_parent (moved_heap l r c k ks yr y h) z = rb_parent (replace_heap l r' c k y (raise_heap ?K yr h)) z \<and>
          rb_black (moved_heap l r c k ks yr y h) z = rb_black (replace_heap l r' c k y (raise_heap ?K yr h)) z"
        using ks w z ds xl xk pr pry
        by (cases k rule: top.cases) (auto simp: moved_heap_def replace_heap_def raise_heap_def Let_def)
    qed
  qed
  then show ?thesis by (simp add: plug_append r'_def)
qed


section \<open>Deletion\<close>

lemma rb_erase_two_rep:
  assumes rp: "rep h (plug (Node l x c r) k)" and ok: "rbt_ok (plug (Node l x c r) k)" and ne: "l \<noteq> Leaf" "r \<noteq> Leaf"
  shows "\<exists>h' T. rb_erase_two x h = Some h' \<and> rep h' T \<and> rbt_ok T \<and> nodes T = before k @ nodes l @ nodes r @ after k"
proof -
  have "rep h (plug r (RF l x c # k))" using rp by simp
  from leftmost_plug[OF this ne(2)] obtain y cy yr ks where y: "leftmost h (ptr r) = Some y" "r = plug (Node Leaf y cy yr) ks"
      "before ks = []" "ks = [] \<or> (\<exists>z c s ks'. ks = LF z c s # ks')" by blast
  let ?h = "moved_heap l r c k ks yr y h" and ?K = "ks @ RF l y c # k"
  have m: "rep ?h (plug yr ?K)" by (rule moved_rep[OF rp ne y(2,3,4)])
  note run = moved_run[OF rp ne y(1,2,4)]
  have ns: "nodes (plug yr ?K) = before k @ nodes l @ nodes r @ after k"
    using y(2,3) by (simp add: before_append after_append)
  have "rbt_ok (plug (Node Leaf y cy yr) (ks @ RF l x c # k))" using ok y(2) by (simp add: plug_append)
  then obtain n where n: "black_height (Node Leaf y cy yr) = Some n" "fits (ks @ RF l x c # k) n (\<not> cy)"
    by (auto simp: plug_ok_iff simp del: black_height.simps(2))
  have n2: "fits ?K n (\<not> cy)" using n(2) fits_same by blast
  from n(1) obtain m' where m': "black_height yr = Some m'" "n = (if cy then Suc m' else m')" "\<not> cy \<longrightarrow> \<not> is_red yr"
    by (auto simp: black_height_NodeE simp del: black_height.simps(2))
  have tp: "(if ks = [] then y else top ks) = top ?K" by (simp add: top_append)
  show ?thesis
  proof (cases cy)
    case True
    have "deficit yr m'" using m' black_height_blacken[of yr m'] by (auto simp: deficit_def)
    moreover have "fits ?K (Suc m') False" using n2 m'(2) True by simp
    ultimately show ?thesis using run True erase_color_rep[OF m] ns tp by simp
  next
    case False
    then have "rbt_ok (plug yr ?K)" unfolding plug_ok_iff using m' n2 fits_weaken by auto
    then show ?thesis using run False m ns by auto
  qed
qed

lemma node_position: "x \<in> set (nodes t) \<Longrightarrow> \<exists>l c r k. t = plug (Node l x c r) k"
proof (induction t)
  case (Node l z c r)
  then consider "x = z" | "x \<in> set (nodes l)" | "x \<in> set (nodes r)" by auto
  then show ?case
  proof cases
    case 1
    then show ?thesis by (intro exI[of _ l] exI[of _ c] exI[of _ r] exI[of _ "[]"]) simp
  next
    case 2
    then obtain l' c' r' k where "l = plug (Node l' x c' r') k" using Node.IH(1) by blast
    then have "Node l z c r = plug (Node l' x c' r') (k @ [LF z c r])" by (simp add: plug_append)
    then show ?thesis by blast
  next
    case 3
    then obtain l' c' r' k where "r = plug (Node l' x c' r') k" using Node.IH(2) by blast
    then have "Node l z c r = plug (Node l' x c' r') (k @ [RF l z c])" by (simp add: plug_append)
    then show ?thesis by blast
  qed
qed simp

lemma rb_erase_rep:
  assumes rp: "rep h t" and ok: "rbt_ok t" and x: "x \<in> set (nodes t)"
  shows "\<exists>h' t'. rb_erase x h = Some h' \<and> rep h' t' \<and> rbt_ok t' \<and> nodes t' = remove1 x (nodes t)"
proof -
  obtain l c r k where t: "t = plug (Node l x c r) k" using node_position[OF x] by blast
  have rp': "rep h (plug (Node l x c r) k)" and ok': "rbt_ok (plug (Node l x c r) k)" using rp ok t by simp_all
  have d: "distinct (before k @ (nodes l @ x # nodes r) @ after k)" using rep_distinct[OF rp'] by simp
  have rm: "remove1 x (nodes t) = before k @ nodes l @ nodes r @ after k"
    using d by (simp add: t remove1_append)
  have p: "(ptr l = NULL) = (l = Leaf)" "(ptr r = NULL) = (r = Leaf)"
    using rep_ptr[of h l "LF x c r # k"] rep_ptr[of h r "RF l x c # k"] rp' by auto
  note g = rep_get[OF rp']
  consider "l = Leaf" | "l \<noteq> Leaf" "r = Leaf" | "l \<noteq> Leaf" "r \<noteq> Leaf" by blast
  then show ?thesis
  proof cases
    case 1
    then show ?thesis using rb_erase_one_rep[OF rp' ok', of r] g p rm by (simp add: rb_erase_def)
  next
    case 2
    then show ?thesis using rb_erase_one_rep[OF rp' ok', of l] g p rm by (simp add: rb_erase_def)
  next
    case 3
    then show ?thesis using rb_erase_two_rep[OF rp' ok'] g p rm by (simp add: rb_erase_def)
  qed
qed

text \<open>
  C1: erasing a node of a red-black tree ends, without a \<^verbatim>\<open>NULL\<close> dereference, in a heap that represents a
  red-black tree of the other nodes in their old order.
\<close>

theorem rb_erase_correct:
  assumes "rep h t" and "rbt_ok t" and "x \<in> set (nodes t)"
  shows "\<exists>h' t'. rb_erase x h = Some h' \<and> rep h' t' \<and> rbt_ok t' \<and> nodes t' = remove1 x (nodes t)"
  using assms by (rule rb_erase_rep)

text \<open>A tree of three nodes.\<close>

definition three_tree :: rbt where
  "three_tree = Node (Node Leaf 1 False Leaf) 2 True (Node Leaf 3 False Leaf)"

definition three_heap :: rb_node where
  "three_heap = \<lparr>rb_left = (\<lambda>_. NULL)(2 := 1), rb_right = (\<lambda>_. NULL)(2 := 3), rb_parent = (\<lambda>_. NULL)(1 := 2, 3 := 2),
     rb_black = (\<lambda>_. False)(2 := True), rb_root = 2\<rparr>"

lemma three_rep: "rep three_heap three_tree" "rbt_ok three_tree" "nodes three_tree = [1, 2, 3]"
  by (simp_all add: rep_def three_heap_def three_tree_def rbt_ok_def NULL_def)

theorem rb_erase_correct_witness:
  "\<exists>h' t'. rb_erase 2 three_heap = Some h' \<and> rep h' t' \<and> rbt_ok t' \<and> nodes t' = [1, 3]"
  using rb_erase_correct[of three_heap three_tree 2] three_rep by simp

section \<open>Traversal\<close>

lemma distinct_split_unique:
  assumes "distinct (xs @ x # ys)" and "xs @ x # ys = us @ x # vs"
  shows "xs = us" and "ys = vs"
proof -
  have "x \<notin> set xs" "x \<notin> set us" using assms(1) assms(1)[unfolded assms(2)] by simp_all
  then have "takeWhile (\<lambda>z. z \<noteq> x) (xs @ x # ys) = xs" "takeWhile (\<lambda>z. z \<noteq> x) (us @ x # vs) = us"
    by (auto simp: takeWhile_append2 takeWhile_tail)
  then show "xs = us" using assms(2) by simp
  then show "ys = vs" using assms(2) by simp
qed

lemma climb_right_plug: "rep h (plug t k) \<Longrightarrow> t \<noteq> Leaf \<Longrightarrow> climb_right h (ptr t) = Some (hd_node (after k))"
proof (induction k arbitrary: t)
  case Nil
  then have "get rb_parent h (ptr t) = Some NULL" by (cases t) (auto simp: rep_def get_def)
  then show ?case by (subst climb_right.simps) simp
next
  case (Cons f k)
  have tN: "ptr t \<noteq> NULL" "ptr t \<in> set (nodes t)" using rep_ptr[OF Cons.prems(1)] Cons.prems(2) ptr_in by auto
  have p: "get rb_parent h (ptr t) = Some (top (f # k))" using Cons.prems by (cases t) (auto simp: rep_plug get_def)
  show ?case
  proof (cases f)
    case (LF x c s)
    have r: "rep h (plug (Node t x c s) k)" using Cons.prems(1) LF by simp
    have "ptr s \<noteq> ptr t" using ptr_cases[of s] rep_distinct[OF r] tN by auto
    then show ?thesis using p LF rep_at[OF r] by (subst climb_right.simps) auto
  next
    case (RF s x c)
    have r: "rep h (plug (Node s x c t) k)" using Cons.prems(1) RF by simp
    then show ?thesis using p RF rep_at[OF r] Cons.IH[of "Node s x c t"] by (subst climb_right.simps) simp
  qed
qed

lemma rb_next_plug:
  assumes r: "rep h (plug (Node l x c s) k)"
  shows "rb_next h x = Some (hd_node (nodes s @ after k))"
proof -
  have "top k \<noteq> x" using top_cases[of k] rep_distinct[OF r] rep_at(1)[OF r] by auto
  moreover have "(ptr s = NULL) = (s = Leaf)" using rep_ptr[of h s "RF l x c # k"] r by simp
  moreover have "s \<noteq> Leaf \<Longrightarrow> leftmost h (ptr s) = Some (hd_node (nodes s))"
    using leftmost_node[of h s "RF l x c # k"] r by simp
  moreover have "climb_right h x = Some (hd_node (after k))" using climb_right_plug[OF r] by simp
  moreover have "s \<noteq> Leaf \<Longrightarrow> nodes s \<noteq> []" by (cases s) auto
  ultimately show ?thesis using rep_get[OF r] rep_at[OF r] by (auto simp: rb_next_def hd_node_append)
qed

lemma rightmost_mir: "rep h (plug t k) \<Longrightarrow> t \<noteq> Leaf \<Longrightarrow> rightmost h (ptr t) = leftmost (mir h) (ptr t)"
proof (induction t arbitrary: k)
  case (Node l x c r)
  have p: "(ptr r = NULL) = (r = Leaf)" using rep_ptr[of h r "RF l x c # k"] Node.prems(1) by simp
  have "get rb_left (mir h) x = Some (ptr r)" using rep_get(2)[OF Node.prems(1)] by (simp add: set_mir)
  then show ?case
    using rep_get(2)[OF Node.prems(1)] Node.IH(2)[of "RF l x c # k"] Node.prems(1) p
    by (subst rightmost.simps, subst leftmost.simps) auto
qed simp

lemma climb_left_mir: "rep h (plug t k) \<Longrightarrow> t \<noteq> Leaf \<Longrightarrow> climb_left h (ptr t) = climb_right (mir h) (ptr t)"
proof (induction k arbitrary: t)
  case Nil
  have "get rb_parent h (ptr t) = Some NULL" using Nil by (cases t) (auto simp: rep_def get_def)
  then show ?case by (subst climb_left.simps, subst climb_right.simps) (simp add: set_mir)
next
  case (Cons f k)
  have p: "get rb_parent h (ptr t) = Some (top (f # k))" using Cons.prems by (cases t) (auto simp: rep_plug get_def)
  have "climb_left h (top (f # k)) = climb_right (mir h) (top (f # k))"
  proof (cases f)
    case (LF x c s)
    then show ?thesis using Cons.IH[of "Node t x c s"] Cons.prems(1) by simp
  next
    case (RF s x c)
    then show ?thesis using Cons.IH[of "Node s x c t"] Cons.prems(1) by simp
  qed
  then show ?case using p by (subst climb_left.simps, subst climb_right.simps) (simp add: set_mir)
qed

lemma rb_prev_mir: "rep h (plug (Node l x c s) k) \<Longrightarrow> rb_prev h x = rb_next (mir h) x"
  using rightmost_mir[of h l "LF x c s # k"] climb_left_mir[of h "Node l x c s" k]
    rep_ptr[of h l "LF x c s # k"] rep_at(2)[of h l x c s k]
    rep_get(3)[of h l x c s k]
  by (cases "l = Leaf") (simp_all add: rb_prev_def rb_next_def set_mir)

lemma rb_traversal_rep:
  assumes "rep h t" and "nodes t = xs @ x # ys"
  shows "rb_first h = Some (hd_node (xs @ x # ys)) \<and> rb_last h = Some (hd_node (rev (xs @ x # ys))) \<and>
    rb_next h x = Some (hd_node ys) \<and> rb_prev h x = Some (hd_node (rev xs))"
proof -
  obtain l c s k where t: "t = plug (Node l x c s) k" using node_position[of x t] assms(2) by auto
  have r: "rep h (plug (Node l x c s) k)" using assms(1) t by simp
  have d: "distinct (nodes t)" using assms(1) by (simp add: rep_def)
  have "nodes t = (before k @ nodes l) @ x # nodes s @ after k" by (simp add: t)
  then have xy: "xs = before k @ nodes l" "ys = nodes s @ after k"
    using d distinct_split_unique[of xs x ys "before k @ nodes l" "nodes s @ after k"] assms(2) by simp_all
  have rm: "rep (mir h) (plug (Node (mirror s) x c (mirror l)) (map mirror_frame k))"
    using rep_mir_plug[of h "Node l x c s" k] r by simp
  have am: "after (map mirror_frame k) = rev (before k)" by (induction k rule: before.induct) auto
  have ne: "t \<noteq> Leaf" "mirror t \<noteq> Leaf" using assms(2) by (cases t; auto)+
  have root: "rb_root h = ptr t" "ptr t \<noteq> NULL" using assms(1) ne rep_ptr[of h t "[]"] by (auto simp: rep_def)
  have "leftmost h (ptr t) = Some (hd_node (nodes t))" using leftmost_node[of h t "[]"] assms(1) ne by simp
  moreover have "leftmost (mir h) (ptr (mirror t)) = Some (hd_node (nodes (mirror t)))"
    using leftmost_node[of "mir h" "mirror t" "[]"] assms(1) ne rep_mir by simp
  then have "rightmost h (ptr t) = Some (hd_node (rev (nodes t)))"
    using rightmost_mir[of h t "[]"] assms(1) ne by simp
  moreover have "rb_next h x = Some (hd_node ys)" using rb_next_plug[OF r] xy by simp
  moreover have "rb_prev h x = Some (hd_node (rev xs))"
    using rb_prev_mir[OF r] rb_next_plug[OF rm] xy am by simp
  ultimately show ?thesis using root assms(2) by (simp add: rb_first_def rb_last_def)
qed

text \<open>
  In a represented tree, \<^verbatim>\<open>rb_first\<close> and \<^verbatim>\<open>rb_last\<close> return the ends of the node order, and \<^verbatim>\<open>rb_next\<close> and
  \<^verbatim>\<open>rb_prev\<close> the neighbours of a node in it, \<^verbatim>\<open>NULL\<close> standing for none.
\<close>

theorem rb_traversal_correct:
  assumes "rep h t" and "nodes t = xs @ x # ys"
  shows "rb_first h = Some (hd_node (xs @ x # ys)) \<and> rb_last h = Some (hd_node (rev (xs @ x # ys))) \<and>
    rb_next h x = Some (hd_node ys) \<and> rb_prev h x = Some (hd_node (rev xs))"
  using assms by (rule rb_traversal_rep)

theorem rb_traversal_correct_witness:
  "rb_first three_heap = Some 1 \<and> rb_last three_heap = Some 3 \<and> rb_next three_heap 2 = Some 3 \<and> rb_prev three_heap 2 = Some 1"
  using rb_traversal_correct[of three_heap three_tree "[1]" 2 "[3]"] three_rep by simp

end
