(* ===== verification/Node_Map.thy ===== *)
theory Node_Map
  imports Rb_Frame Rb_Delete
begin

text \<open>
  The red-black tree as its clients see it: an ordered map whose entries are the nodes
  themselves.  \<open>node_map\<close> is the interface the timers, the entity manager and the event manager
  rely on; the operations of \<^verbatim>\<open>base/rbtree.c\<close> provide it.
\<close>

section \<open>The marker of an unlinked node\<close>

text \<open>\<^verbatim>\<open>RB_CLEAR_NODE\<close> makes a node its own parent and \<^verbatim>\<open>RB_EMPTY_NODE\<close> tests this.\<close>

definition RB_EMPTY_NODE :: "rb_node \<Rightarrow> addr \<Rightarrow> bool" where
  "RB_EMPTY_NODE h node = (rb_parent h node = node)"

definition RB_CLEAR_NODE :: "addr \<Rightarrow> rb_node \<Rightarrow> rb_node" where
  "RB_CLEAR_NODE node h = h\<lparr>rb_parent := (rb_parent h)(node := node)\<rparr>"

definition RB_EMPTY_ROOT :: "rb_node \<Rightarrow> bool" where
  "RB_EMPTY_ROOT h = (rb_root h = NULL)"

definition INIT_RB_ROOT :: "rb_node \<Rightarrow> rb_node" where
  "INIT_RB_ROOT h = h\<lparr>rb_root := NULL\<rparr>"

text \<open>Memory that holds no tree yet; the examples start from it.\<close>

definition raw_tree :: rb_node where
  "raw_tree = \<lparr>rb_left = (\<lambda>_. 77), rb_right = (\<lambda>_. 77), rb_parent = (\<lambda>_. 77), rb_black = (\<lambda>_. False), rb_root = 77\<rparr>"

section \<open>Keys\<close>

text \<open>
  \<open>cmp_sound c k k'\<close>: the result \<open>c\<close> of comparing the searched key \<open>k\<close> with the key \<open>k'\<close> of an entry
  has the right sign.  \<open>keyed\<close> nodes have strictly increasing keys.
\<close>

definition cmp_sound :: "int \<Rightarrow> 'k :: linorder \<Rightarrow> 'k \<Rightarrow> bool" where
  "cmp_sound c k k' = ((c < 0 \<longleftrightarrow> k < k') \<and> (c = 0 \<longleftrightarrow> k = k') \<and> (c > 0 \<longleftrightarrow> k' < k))"

definition keyed :: "(addr \<Rightarrow> 'k :: linorder) \<Rightarrow> addr list \<Rightarrow> bool" where
  "keyed key xs = sorted_wrt (\<lambda>x y. key x < key y) xs"

lemma keyed_Nil [simp]: "keyed key []"
  by (simp add: keyed_def)

lemma keyed_ordered:
  assumes "keyed key xs" and "\<And>x. x \<in> set xs \<Longrightarrow> cmp_sound (cmp x) k0 (key x)"
  shows "ordered cmp xs"
  unfolding ordered_def
proof (rule sorted_wrt_mono_rel[OF _ assms(1)[unfolded keyed_def]])
  fix x y
  assume xy: "x \<in> set xs" "y \<in> set xs" "key x < key y"
  show "cmp x \<le> 0 \<longrightarrow> cmp y < 0" using assms(2)[OF xy(1)] assms(2)[OF xy(2)] xy(3) by (auto simp: cmp_sound_def)
qed

lemma keyed_insort:
  "keyed key xs \<Longrightarrow> key n \<notin> key ` set xs \<Longrightarrow>
     filter (\<lambda>x. key x < key n) xs @ n # filter (\<lambda>x. key n < key x) xs = insort_key key n xs"
proof (induction xs)
  case (Cons x xs)
  have rest: "\<forall>y \<in> set xs. key x < key y" "keyed key xs" using Cons.prems(1) by (auto simp: keyed_def)
  have "filter (\<lambda>x. key x < key n) xs = [] \<and> filter (\<lambda>x. key n < key x) xs = xs" if "key n < key x"
  proof
    have "\<forall>y \<in> set xs. key n < key y" using rest(1) that by auto
    then show "filter (\<lambda>x. key x < key n) xs = []" "filter (\<lambda>x. key n < key x) xs = xs" by (auto simp: filter_empty_conv)
  qed
  then show ?case using Cons.IH[OF rest(2)] Cons.prems(2) by (auto simp: not_le)
qed simp

lemma keyed_insort_key: "keyed key xs \<Longrightarrow> key n \<notin> key ` set xs \<Longrightarrow> keyed key (insort_key key n xs)"
  by (induction xs) (auto simp: keyed_def set_insort_key)

lemma keyed_unique: "keyed key xs \<Longrightarrow> x \<in> set xs \<Longrightarrow> filter (\<lambda>y. key y = key x) xs = [x]"
proof (induction xs)
  case (Cons y ys)
  then show ?case by (auto simp: keyed_def filter_empty_conv)
qed simp

lemma keyed_filter: "keyed key xs \<Longrightarrow> keyed key (filter P xs)"
  unfolding keyed_def by (rule sorted_wrt_filter)

lemma keyed_remove1: "keyed key xs \<Longrightarrow> keyed key (remove1 x xs)"
  by (induction xs) (auto simp: keyed_def dest: notin_set_remove1[THEN contrapos_pn] in_set_remove1[THEN iffD1])

section \<open>The interface\<close>

locale node_map =
  fixes repr :: "'h \<Rightarrow> addr list \<Rightarrow> bool"
    and unlinked :: "'h \<Rightarrow> addr \<Rightarrow> bool"
    and clear :: "addr \<Rightarrow> 'h \<Rightarrow> 'h"
    and is_empty :: "'h \<Rightarrow> bool"
    and insert_node :: "(addr \<Rightarrow> int) \<Rightarrow> addr \<Rightarrow> 'h \<Rightarrow> (addr \<times> 'h) option"
    and erase :: "addr \<Rightarrow> 'h \<Rightarrow> 'h option"
    and replace :: "addr \<Rightarrow> addr \<Rightarrow> 'h \<Rightarrow> 'h option"
    and find :: "(addr \<Rightarrow> int) \<Rightarrow> 'h \<Rightarrow> addr option"
    and upper :: "(addr \<Rightarrow> int) \<Rightarrow> 'h \<Rightarrow> addr option"
    and first :: "'h \<Rightarrow> addr option"
    and next_node :: "'h \<Rightarrow> addr \<Rightarrow> addr option"
  assumes repr_nodes: "repr h xs \<Longrightarrow> distinct xs \<and> NULL \<notin> set xs"
    and repr_linked: "repr h xs \<Longrightarrow> x \<in> set xs \<Longrightarrow> \<not> unlinked h x"
    and repr_is_empty: "repr h xs \<Longrightarrow> is_empty h = (xs = [])"
    and repr_clear: "repr h xs \<Longrightarrow> x \<notin> set xs \<Longrightarrow> repr (clear x h) xs"
    and unlinked_clear: "unlinked (clear x h) y = (y = x \<or> unlinked h y)"
    and repr_insert: "repr h xs \<Longrightarrow> ordered cmp xs \<Longrightarrow> n \<noteq> NULL \<Longrightarrow> n \<notin> set xs \<Longrightarrow>
      (\<exists>x. insert_node cmp n h = Some (x, h) \<and> x \<in> set xs \<and> cmp x = 0) \<or>
      (\<exists>h'. insert_node cmp n h = Some (NULL, h') \<and> (\<forall>x \<in> set xs. cmp x \<noteq> 0) \<and>
         repr h' (filter (\<lambda>x. cmp x > 0) xs @ n # filter (\<lambda>x. cmp x < 0) xs) \<and>
         (\<forall>y. y \<noteq> NULL \<longrightarrow> y \<notin> set (n # xs) \<longrightarrow> unlinked h' y = unlinked h y))"
    and repr_erase: "repr h (xs @ x # ys) \<Longrightarrow> \<exists>h'. erase x h = Some h' \<and> repr h' (xs @ ys) \<and>
      (\<forall>y. y \<noteq> NULL \<longrightarrow> y \<notin> set (xs @ x # ys) \<longrightarrow> unlinked h' y = unlinked h y)"
    and repr_replace: "repr h (xs @ x # ys) \<Longrightarrow> n \<noteq> NULL \<Longrightarrow> n \<notin> set (xs @ x # ys) \<Longrightarrow>
      \<exists>h'. replace x n h = Some h' \<and> repr h' (xs @ n # ys) \<and>
      (\<forall>y. y \<noteq> NULL \<longrightarrow> y \<notin> set (n # xs @ x # ys) \<longrightarrow> unlinked h' y = unlinked h y)"
    and repr_find: "repr h xs \<Longrightarrow> ordered cmp xs \<Longrightarrow> find cmp h = Some (hd_node (filter (\<lambda>x. cmp x = 0) xs))"
    and repr_upper: "repr h xs \<Longrightarrow> ordered cmp xs \<Longrightarrow> upper cmp h = Some (hd_node (filter (\<lambda>x. cmp x < 0) xs))"
    and repr_first: "repr h xs \<Longrightarrow> first h = Some (hd_node xs)"
    and repr_next: "repr h (xs @ x # ys) \<Longrightarrow> next_node h x = Some (hd_node ys)"

begin

text \<open>
  Clients compare keys of a linear order.  A map that holds its nodes in the order of their keys
  keeps doing so, refuses a second node of the same key, and finds nodes by key.
\<close>

lemma insert_keyed:
  fixes key :: "addr \<Rightarrow> 'k :: linorder"
  assumes r: "repr h xs" and k: "keyed key xs" and n: "n \<noteq> NULL" "n \<notin> set xs"
    and cmp: "\<And>x. x \<in> set xs \<Longrightarrow> cmp_sound (cmp x) k0 (key x)" and k0: "key n = k0"
  shows "(\<exists>x. insert_node cmp n h = Some (x, h) \<and> x \<in> set xs \<and> key x = k0) \<or>
    (\<exists>h'. insert_node cmp n h = Some (NULL, h') \<and> k0 \<notin> key ` set xs \<and>
       repr h' (insort_key key n xs) \<and> keyed key (insort_key key n xs) \<and>
       (\<forall>y. y \<noteq> NULL \<longrightarrow> y \<notin> set (n # xs) \<longrightarrow> unlinked h' y = unlinked h y))"
proof -
  have o: "ordered cmp xs" using keyed_ordered[OF k cmp] .
  consider (found) x where "insert_node cmp n h = Some (x, h)" "x \<in> set xs" "cmp x = 0"
    | (added) h' where "insert_node cmp n h = Some (NULL, h')" "\<forall>x \<in> set xs. cmp x \<noteq> 0"
        "repr h' (filter (\<lambda>x. cmp x > 0) xs @ n # filter (\<lambda>x. cmp x < 0) xs)"
        "\<forall>y. y \<noteq> NULL \<longrightarrow> y \<notin> set (n # xs) \<longrightarrow> unlinked h' y = unlinked h y"
    using repr_insert[OF r o n] by blast
  then show ?thesis
  proof cases
    case found
    then show ?thesis using cmp[OF found(2)] by (auto simp: cmp_sound_def)
  next
    case added
    have fresh: "k0 \<notin> key ` set xs" using added(2) cmp by (auto simp: cmp_sound_def)
    have "filter (\<lambda>x. cmp x > 0) xs = filter (\<lambda>x. key x < k0) xs" "filter (\<lambda>x. cmp x < 0) xs = filter (\<lambda>x. k0 < key x) xs"
      using cmp by (auto simp: cmp_sound_def intro!: filter_cong)
    moreover have "filter (\<lambda>x. key x < k0) xs @ n # filter (\<lambda>x. k0 < key x) xs = insort_key key n xs"
      using keyed_insort[OF k, of n] fresh k0 by simp
    ultimately have "repr h' (insort_key key n xs)" using added(3) by simp
    then show ?thesis using added fresh keyed_insort_key[OF k] k0 by auto
  qed
qed

lemma find_keyed:
  assumes "repr h xs" and "keyed key xs" and "\<And>x. x \<in> set xs \<Longrightarrow> cmp_sound (cmp x) k0 (key x)"
  shows "find cmp h = Some (hd_node (filter (\<lambda>x. key x = k0) xs))"
proof -
  have "filter (\<lambda>x. cmp x = 0) xs = filter (\<lambda>x. key x = k0) xs"
    using assms(3) by (auto simp: cmp_sound_def intro!: filter_cong)
  then show ?thesis using repr_find[OF assms(1) keyed_ordered[OF assms(2,3)]] by simp
qed

lemma find_keyed_node:
  assumes "repr h xs" and "keyed key xs" and "x \<in> set xs"
    and "\<And>y. y \<in> set xs \<Longrightarrow> cmp_sound (cmp y) (key x) (key y)"
  shows "find cmp h = Some x"
  using find_keyed[OF assms(1,2,4)] keyed_unique[OF assms(2,3)] by simp

lemma upper_keyed:
  assumes "repr h xs" and "keyed key xs" and "\<And>x. x \<in> set xs \<Longrightarrow> cmp_sound (cmp x) k0 (key x)"
  shows "upper cmp h = Some (hd_node (filter (\<lambda>x. k0 < key x) xs))"
proof -
  have "filter (\<lambda>x. cmp x < 0) xs = filter (\<lambda>x. k0 < key x) xs"
    using assms(3) by (auto simp: cmp_sound_def intro!: filter_cong)
  then show ?thesis using repr_upper[OF assms(1) keyed_ordered[OF assms(2,3)]] by simp
qed

lemma erase_keyed:
  assumes "repr h xs" and "keyed key xs" and "x \<in> set xs"
  shows "\<exists>h'. erase x h = Some h' \<and> repr h' (remove1 x xs) \<and> keyed key (remove1 x xs) \<and>
    (\<forall>y. y \<noteq> NULL \<longrightarrow> y \<notin> set xs \<longrightarrow> unlinked h' y = unlinked h y)"
proof -
  obtain ys zs where xs: "xs = ys @ x # zs" using split_list[OF assms(3)] by blast
  have "x \<notin> set ys" using repr_nodes[OF assms(1)] xs by simp
  then have rm: "remove1 x xs = ys @ zs" by (simp add: xs remove1_append)
  show ?thesis unfolding rm using repr_erase assms(1,2) unfolding xs by (fastforce simp: keyed_def sorted_wrt_append)
qed

end

section \<open>The provider\<close>

definition rb_map :: "rb_node \<Rightarrow> addr list \<Rightarrow> bool" where
  "rb_map h xs = (\<exists>t. rep h t \<and> rbt_ok t \<and> nodes t = xs)"

lemma ptr_nodes: "ptr t \<in> insert NULL (set (nodes t))"
  by (cases t) auto

lemma shape_links:
  "shape h p t \<Longrightarrow> a \<in> set (nodes t) \<Longrightarrow> rb_left h a \<in> insert NULL (set (nodes t)) \<and>
     rb_right h a \<in> insert NULL (set (nodes t)) \<and> rb_parent h a \<in> insert p (set (nodes t))"
proof (induction h p t rule: shape.induct)
  case (2 h p l x c r)
  then show ?case using ptr_nodes[of l] ptr_nodes[of r] by auto
qed simp

lemma rep_inside: "rep h t \<Longrightarrow> inside (set (nodes t)) h h"
  using shape_links[of h NULL t] ptr_nodes[of t] by (auto simp: rep_def inside_def)

lemma shape_no_loop: "shape h p t \<Longrightarrow> distinct (p # nodes t) \<Longrightarrow> a \<in> set (nodes t) \<Longrightarrow> rb_parent h a \<noteq> a"
  by (induction h p t rule: shape.induct) auto

lemma shape_not_NULL: "shape h p t \<Longrightarrow> NULL \<notin> set (nodes t)"
  by (induction h p t rule: shape.induct) auto

lemma shape_clear: "a \<notin> set (nodes t) \<Longrightarrow> shape (RB_CLEAR_NODE a h) p t = shape h p t"
  by (induction t arbitrary: p) (auto simp: RB_CLEAR_NODE_def)

lemma rb_map_empty: "rb_map (INIT_RB_ROOT h) []"
  unfolding rb_map_def by (rule exI[of _ Leaf]) (simp add: rep_def INIT_RB_ROOT_def rbt_ok_def)

lemma rb_map_cong: "rb_map h xs \<Longrightarrow> xs = ys \<Longrightarrow> rb_map h ys"
  by simp

lemma remove1_mid: "distinct (xs @ x # ys) \<Longrightarrow> remove1 x (xs @ x # ys) = xs @ ys"
  by (simp add: remove1_append)

lemma unlinked_frame:
  assumes "inside W h h'" and "y \<notin> W"
  shows "RB_EMPTY_NODE h' y = RB_EMPTY_NODE h y"
  using assms by (simp add: inside_def RB_EMPTY_NODE_def)

lemma rb_map_insert:
  assumes "rb_map h xs" and "ordered cmp xs" and n: "n \<noteq> NULL" "n \<notin> set xs"
  shows "(\<exists>x. rb_insert cmp n h = Some (x, h) \<and> x \<in> set xs \<and> cmp x = 0) \<or>
      (\<exists>h'. rb_insert cmp n h = Some (NULL, h') \<and> (\<forall>x \<in> set xs. cmp x \<noteq> 0) \<and>
         rb_map h' (filter (\<lambda>x. cmp x > 0) xs @ n # filter (\<lambda>x. cmp x < 0) xs) \<and>
         (\<forall>y. y \<noteq> NULL \<longrightarrow> y \<notin> set (n # xs) \<longrightarrow> RB_EMPTY_NODE h' y = RB_EMPTY_NODE h y))"
proof -
  obtain t where t: "rep h t" "rbt_ok t" "nodes t = xs" using assms(1) by (auto simp: rb_map_def)
  have frame: "RB_EMPTY_NODE h' y = RB_EMPTY_NODE h y"
    if "rb_insert cmp n h = Some (NULL, h')" and "y \<notin> set (n # xs)" for h' y
    using runs_result[OF inside_insert[OF rep_inside[OF t(1)] n(1)] that(1)] that(2) n t(3)
      unlinked_frame[of "set (n # xs)" h h' y] by simp
  show ?thesis
    using rb_insert_rep[OF t(1,2), of cmp n] assms(2) n frame unfolding t(3) rb_map_def by blast
qed

lemma rb_map_erase:
  assumes "rb_map h (xs @ x # ys)"
  shows "\<exists>h'. rb_erase x h = Some h' \<and> rb_map h' (xs @ ys) \<and>
    (\<forall>y. y \<noteq> NULL \<longrightarrow> y \<notin> set (xs @ x # ys) \<longrightarrow> RB_EMPTY_NODE h' y = RB_EMPTY_NODE h y)"
proof -
  obtain t where t: "rep h t" "rbt_ok t" "nodes t = xs @ x # ys" using assms by (auto simp: rb_map_def)
  have x: "x \<in> set (nodes t)" using t(3) by simp
  have "distinct (xs @ x # ys)" using t by (metis rep_def)
  then have rm: "remove1 x (nodes t) = xs @ ys" using remove1_mid t(3) by metis
  obtain h' t' where h': "rb_erase x h = Some h'" "rep h' t'" "rbt_ok t'" "nodes t' = xs @ ys"
    using rb_erase_rep[OF t(1,2) x] rm by auto
  have "inside (set (nodes t)) h h'" using runs_result[OF inside_erase[OF rep_inside[OF t(1)] x] h'(1)] .
  then show ?thesis using h' unlinked_frame t(3) unfolding rb_map_def by metis
qed

lemma rb_map_replace:
  assumes "rb_map h (xs @ x # ys)" and n: "n \<noteq> NULL" "n \<notin> set (xs @ x # ys)"
  shows "\<exists>h'. rb_replace_node x n h = Some h' \<and> rb_map h' (xs @ n # ys) \<and>
    (\<forall>y. y \<noteq> NULL \<longrightarrow> y \<notin> set (n # xs @ x # ys) \<longrightarrow> RB_EMPTY_NODE h' y = RB_EMPTY_NODE h y)"
proof -
  obtain t where t: "rep h t" "rbt_ok t" "nodes t = xs @ x # ys" using assms by (auto simp: rb_map_def)
  have x: "x \<in> set (nodes t)" using t(3) by simp
  then obtain l c r k where p: "t = plug (Node l x c r) k" using node_position by blast
  have fresh: "n \<notin> set (nodes (plug (Node l x c r) k))" using n(2) t(3) p by metis
  have r: "rep h (plug (Node l x c r) k)" using t(1) p by metis
  obtain h' where h': "rb_replace_node x n h = Some h'" "rep h' (plug (Node l n c r) k)"
    using rb_replace_node_rep[OF r n(1) fresh] by blast
  have d: "distinct (xs @ x # ys)" using t by (metis rep_def)
  have "nodes t = (before k @ nodes l) @ x # (nodes r @ after k)" using p by simp
  then have xy: "xs = before k @ nodes l" "ys = nodes r @ after k"
    using distinct_split_unique[of xs x ys "before k @ nodes l" "nodes r @ after k"] d t(3) by simp_all
  have "rbt_ok (plug (Node l n c r) k)" using t(2) unfolding p plug_ok_iff by simp
  then have m: "rb_map h' (xs @ n # ys)" using h'(2) xy unfolding rb_map_def by (intro exI[of _ "plug (Node l n c r) k"]) simp
  have "rb_parent h' y = rb_parent h y" if "y \<noteq> NULL" "y \<notin> set (n # xs @ x # ys)" for y
    using replace_frame[OF h'(1) rep_inside[OF t(1)] x _ that(1)] that(2) t(3) by auto
  then show ?thesis using h'(1) m by (auto simp: RB_EMPTY_NODE_def)
qed

lemma rb_map_traversal:
  assumes "rb_map h xs"
  shows "rb_first h = Some (hd_node xs)" and "xs = as @ x # bs \<Longrightarrow> rb_next h x = Some (hd_node bs)"
proof -
  obtain t where t: "rep h t" "rbt_ok t" "nodes t = xs" using assms by (auto simp: rb_map_def)
  show "xs = as @ x # bs \<Longrightarrow> rb_next h x = Some (hd_node bs)"
    using rb_traversal_rep[OF t(1), of as x bs] t(3) by simp
  show "rb_first h = Some (hd_node xs)"
  proof (cases xs)
    case Nil
    then show ?thesis using t by (cases t) (auto simp: rb_first_def rep_def)
  next
    case (Cons y ys)
    then show ?thesis using rb_traversal_rep[OF t(1), of "[]" y ys] t(3) by simp
  qed
qed

lemma rb_map_search:
  assumes "rb_map h xs" and "ordered cmp xs"
  shows "rb_find cmp h (rb_root h) = Some (hd_node (filter (\<lambda>x. cmp x = 0) xs))"
    and "rb_upper cmp h = Some (hd_node (filter (\<lambda>x. cmp x < 0) xs))"
  using assms rb_search_rep by (auto simp: rb_map_def)

lemma rb_map_nodes: "rb_map h xs \<Longrightarrow> distinct xs \<and> NULL \<notin> set xs"
  using shape_not_NULL by (auto simp: rb_map_def rep_def)

lemma rb_map_linked: "rb_map h xs \<Longrightarrow> x \<in> set xs \<Longrightarrow> \<not> RB_EMPTY_NODE h x"
  using shape_no_loop[of h NULL] shape_not_NULL by (auto simp: rb_map_def rep_def RB_EMPTY_NODE_def)

lemma rb_map_is_empty: "rb_map h xs \<Longrightarrow> RB_EMPTY_ROOT h = (xs = [])"
proof -
  assume "rb_map h xs"
  then obtain t where t: "rep h t" "nodes t = xs" by (auto simp: rb_map_def)
  show ?thesis using t shape_not_NULL[of h NULL t] by (cases t) (auto simp: rep_def RB_EMPTY_ROOT_def)
qed

lemma rb_root_clear [simp]: "rb_root (RB_CLEAR_NODE x h) = rb_root h"
  by (simp add: RB_CLEAR_NODE_def)

lemma rb_map_clear: "rb_map h xs \<Longrightarrow> x \<notin> set xs \<Longrightarrow> rb_map (RB_CLEAR_NODE x h) xs"
  using shape_clear by (fastforce simp: rb_map_def rep_def)

interpretation nm: node_map rb_map RB_EMPTY_NODE RB_CLEAR_NODE RB_EMPTY_ROOT rb_insert rb_erase rb_replace_node
  "\<lambda>cmp h. rb_find cmp h (rb_root h)" rb_upper rb_first rb_next
proof
  show "RB_EMPTY_NODE (RB_CLEAR_NODE x h) y = (y = x \<or> RB_EMPTY_NODE h y)" for x h y
    by (simp add: RB_EMPTY_NODE_def RB_CLEAR_NODE_def)
qed (fact rb_map_nodes rb_map_linked rb_map_is_empty rb_map_clear rb_map_insert rb_map_erase rb_map_replace
  rb_map_search rb_map_traversal(1) | rule rb_map_traversal(2)[OF _ refl])+

end
