(* ===== verification/Entity_Manager.thy ===== *)
theory Entity_Manager
  imports Entity Node_Map
begin

text \<open>
  The entity manager (\<^verbatim>\<open>ecs/AEntity.cpp\<close>): entities in a red-black tree ordered by address.  The state
  is the one of a manager \<open>em\<close> with all entities: the map members of the entities and the root of the
  manager, its counter, the manager member of every entity, reference counts and components.
\<close>

section \<open>State and operations\<close>

record entity_manager =
  entity_map :: rb_node
  entity_count :: int
  entity_owner :: "addr \<Rightarrow> addr"
  objects :: aobjects
  coms :: components

definition AEntityCmp :: "addr \<Rightarrow> addr \<Rightarrow> int" where
  "AEntityCmp key data = (if key = data then 0 else if key < data then -1 else 1)"

text \<open>\<^verbatim>\<open>AEntity::init\<close> and \<^verbatim>\<open>AEntityManager::init\<close>.\<close>

definition AEntity_init :: "addr \<Rightarrow> entity_manager \<Rightarrow> entity_manager" where
  "AEntity_init e s = s\<lparr>
     entity_owner := (entity_owner s)(e := NULL),
     entity_map := RB_CLEAR_NODE e (entity_map s),
     coms := (coms s)\<lparr>entry := INIT_LIST_HEAD e (entry (coms s)), com_count := (com_count (coms s))(e := 0)\<rparr>\<rparr>"

definition EM_init :: "entity_manager \<Rightarrow> entity_manager" where
  "EM_init s = s\<lparr>entity_map := INIT_RB_ROOT (entity_map s), entity_count := 0\<rparr>"

definition EM_push :: "addr \<Rightarrow> addr \<Rightarrow> entity_manager \<Rightarrow> (bool \<times> entity_manager) option" where
  "EM_push em e s =
     (if e = NULL then None
      else if (entity_owner s e = NULL \<or> entity_owner s e = em) \<and> RB_EMPTY_NODE (entity_map s) e
      then do {
        (found, m) \<leftarrow> rb_insert (AEntityCmp e) e (entity_map s);
        let s = s\<lparr>entity_map := m\<rparr>;
        Some (if found = NULL
          then (True, s\<lparr>objects := addref e (objects s),
                        entity_owner := (entity_owner s)(e := em),
                        entity_count := entity_count s + 1\<rparr>)
          else (False, s))
      }
      else Some (False, s))"

definition EM_pop :: "addr \<Rightarrow> addr \<Rightarrow> entity_manager \<Rightarrow> (bool \<times> entity_manager) option" where
  "EM_pop em e s =
     (if e = NULL then None
      else if entity_owner s e = em \<and> \<not> RB_EMPTY_NODE (entity_map s) e
      then do {
        m \<leftarrow> rb_erase e (entity_map s);
        Some (True, s\<lparr>entity_map := RB_CLEAR_NODE e m,
                      entity_count := entity_count s - 1,
                      objects := release e (objects s)\<rparr>)
      }
      else Some (False, s))"

definition EM_find :: "addr \<Rightarrow> entity_manager \<Rightarrow> addr option" where
  "EM_find key s = rb_find (AEntityCmp key) (entity_map s) (rb_root (entity_map s))"

definition EM_upper :: "addr \<Rightarrow> entity_manager \<Rightarrow> addr option" where
  "EM_upper key s =
     (if RB_EMPTY_ROOT (entity_map s) then Some NULL
      else if key = NULL then rb_first (entity_map s)
      else rb_upper (AEntityCmp key) (entity_map s))"

definition EM_next :: "addr \<Rightarrow> entity_manager \<Rightarrow> addr option" where
  "EM_next cur s = rb_next (entity_map s) cur"

text \<open>
  The end of an entity goes through its manager, which gives back the components it allocated; there is no result when
  there is such a component and the entity was never in a manager.
\<close>

partial_function (option) AEntity_exit :: "addr \<Rightarrow> entity_manager \<Rightarrow> entity_manager option" where
  "AEntity_exit e s =
     (if list_empty (entry (coms s)) e then Some s
      else
        let (c, h) = list_pop_front e (entry (coms s));
            s = s\<lparr>coms := (coms s)\<lparr>entry := h\<rparr>\<rparr>
        in if com_dynmng (coms s) c
           then if entity_owner s e = NULL then None
                else AEntity_exit e (s\<lparr>coms := EM_del_com c (coms s)\<rparr>)
           else AEntity_exit e s)"

section \<open>Iterations\<close>

text \<open>
  The callback of an iteration is a function of the entity (or component) and a state of its own;
  it does not change the map.
\<close>

partial_function (option) EM_com_from :: "string \<Rightarrow> int \<Rightarrow> entity_manager \<Rightarrow> addr \<Rightarrow> addr option" where
  "EM_com_from name index s cur =
     (if cur = NULL then Some NULL
      else do {
        c \<leftarrow> AEntity_get cur name index (coms s);
        if c \<noteq> NULL then Some c
        else do {
          nxt \<leftarrow> EM_next cur s;
          EM_com_from name index s nxt
        }
      })"

definition EM_upper_com :: "addr \<Rightarrow> string \<Rightarrow> int \<Rightarrow> entity_manager \<Rightarrow> addr option" where
  "EM_upper_com key name index s = do {
     cur \<leftarrow> EM_upper key s;
     EM_com_from name index s cur
   }"

definition EM_next_com :: "addr \<Rightarrow> string \<Rightarrow> int \<Rightarrow> entity_manager \<Rightarrow> addr option" where
  "EM_next_com cur name index s = do {
     nxt \<leftarrow> EM_next cur s;
     EM_com_from name index s nxt
   }"

partial_function (option) EM_each_from ::
    "(addr \<Rightarrow> 'p \<Rightarrow> int \<times> 'p) \<Rightarrow> entity_manager \<Rightarrow> addr \<Rightarrow> int \<Rightarrow> 'p \<Rightarrow> (int \<times> 'p) option" where
  "EM_each_from func s cur result p =
     (if cur = NULL then Some (result, p)
      else let (result, p) = func cur p
           in if result \<noteq> 0 then Some (result, p)
              else do {
                nxt \<leftarrow> EM_next cur s;
                EM_each_from func s nxt result p
              })"

definition EM_upper_each :: "addr \<Rightarrow> (addr \<Rightarrow> 'p \<Rightarrow> int \<times> 'p) \<Rightarrow> entity_manager \<Rightarrow> 'p \<Rightarrow> (int \<times> 'p) option" where
  "EM_upper_each key func s p = do {
     cur \<leftarrow> EM_upper key s;
     EM_each_from func s cur 0 p
   }"

partial_function (option) EM_each_com_from ::
    "string \<Rightarrow> int \<Rightarrow> (addr \<Rightarrow> 'p \<Rightarrow> int \<times> 'p) \<Rightarrow> entity_manager \<Rightarrow> addr \<Rightarrow> int \<Rightarrow> 'p \<Rightarrow> (int \<times> 'p) option" where
  "EM_each_com_from name index func s cur result p =
     (if cur = NULL then Some (result, p)
      else do {
        c \<leftarrow> AEntity_get cur name index (coms s);
        let (result, p) = (if c \<noteq> NULL then func c p else (result, p));
        if c \<noteq> NULL \<and> result \<noteq> 0 then Some (result, p)
        else do {
          nxt \<leftarrow> EM_next cur s;
          EM_each_com_from name index func s nxt result p
        }
      })"

definition EM_upper_each_com ::
    "addr \<Rightarrow> string \<Rightarrow> (addr \<Rightarrow> 'p \<Rightarrow> int \<times> 'p) \<Rightarrow> int \<Rightarrow> entity_manager \<Rightarrow> 'p \<Rightarrow> (int \<times> 'p) option" where
  "EM_upper_each_com key name func index s p = do {
     cur \<leftarrow> EM_upper key s;
     EM_each_com_from name index func s cur 0 p
   }"

text \<open>
  \<^verbatim>\<open>EM_clear\<close> pops every entity and, when asked, shuts down the io object of its
  \<^verbatim>\<open>AInOutComponent\<close>; \<open>io c\<close> is the io object of a component, and the result lists those shut down.
\<close>

partial_function (option) EM_clear_from ::
    "addr \<Rightarrow> bool \<Rightarrow> (addr \<Rightarrow> addr) \<Rightarrow> addr \<Rightarrow> addr list \<Rightarrow> entity_manager \<Rightarrow> (addr list \<times> entity_manager) option" where
  "EM_clear_from em iocom_shutdown io cur down s =
     (if cur = NULL then Some (down, s)
      else do {
        down \<leftarrow> (if iocom_shutdown
          then do {
            iocom \<leftarrow> AEntity_get cur ''AInOutComponent'' (-1) (coms s);
            Some (if iocom \<noteq> NULL \<and> io iocom \<noteq> NULL then down @ [io iocom] else down)
          }
          else Some down);
        nxt \<leftarrow> EM_next cur s;
        (_, s) \<leftarrow> EM_pop em cur s;
        EM_clear_from em iocom_shutdown io nxt down s
      })"

definition EM_clear :: "addr \<Rightarrow> bool \<Rightarrow> (addr \<Rightarrow> addr) \<Rightarrow> entity_manager \<Rightarrow> (addr list \<times> entity_manager) option" where
  "EM_clear em iocom_shutdown io s = do {
     cur \<leftarrow> EM_upper NULL s;
     EM_clear_from em iocom_shutdown io cur [] s
   }"

section \<open>The invariant\<close>

text \<open>
  \<open>E\<close> are the initialised entities and \<open>es\<close> those in the map, in the order of their addresses.
\<close>

definition em_inv :: "addr \<Rightarrow> addr set \<Rightarrow> entity_manager \<Rightarrow> addr list \<Rightarrow> bool" where
  "em_inv em E s es = (rb_map (entity_map s) es \<and> keyed (\<lambda>e. e) es \<and> entity_count s = int (length es) \<and>
     set es \<subseteq> E \<and> NULL \<notin> E \<and> (\<forall>e \<in> E. RB_EMPTY_NODE (entity_map s) e = (e \<notin> set es)) \<and>
     (\<forall>e \<in> E. entity_owner s e = NULL \<or> entity_owner s e = em) \<and> (\<forall>e \<in> set es. entity_owner s e = em))"

lemma AEntityCmp_sound: "cmp_sound (AEntityCmp k x) k x"
  by (auto simp: AEntityCmp_def cmp_sound_def)

lemma em_inv_init: "em_inv em {} (EM_init s) []"
  by (simp add: em_inv_def EM_init_def rb_map_empty)

lemma em_inv_create:
  assumes "em_inv em E s es" and "e \<notin> E" and "e \<noteq> NULL"
  shows "em_inv em (insert e E) (AEntity_init e s) es"
proof -
  have "rb_map (RB_CLEAR_NODE e (entity_map s)) es" using assms nm.repr_clear by (auto simp: em_inv_def)
  moreover have "\<forall>x \<in> insert e E. RB_EMPTY_NODE (RB_CLEAR_NODE e (entity_map s)) x = (x \<notin> set es)"
    using assms by (auto simp: em_inv_def nm.unlinked_clear)
  ultimately show ?thesis using assms by (auto simp: em_inv_def AEntity_init_def)
qed

lemma EM_push_inv:
  assumes inv: "em_inv em E s es" and "e \<in> E" and "em \<noteq> NULL"
  shows "if e \<in> set es then EM_push em e s = Some (False, s)
    else \<exists>s'. EM_push em e s = Some (True, s') \<and> em_inv em E s' (insort e es) \<and>
      objects s' = addref e (objects s) \<and> coms s' = coms s"
proof (cases "e \<in> set es")
  case True
  then show ?thesis using assms by (auto simp: EM_push_def em_inv_def)
next
  case False
  have e: "e \<noteq> NULL" using assms by (auto simp: em_inv_def)
  have r: "rb_map (entity_map s) es" "keyed (\<lambda>e. e) es" using inv by (simp_all add: em_inv_def)
  obtain m where m: "rb_insert (AEntityCmp e) e (entity_map s) = Some (NULL, m)" "rb_map m (insort e es)"
      "keyed (\<lambda>e. e) (insort e es)"
      "\<forall>y. y \<noteq> NULL \<longrightarrow> y \<notin> set (e # es) \<longrightarrow> RB_EMPTY_NODE m y = RB_EMPTY_NODE (entity_map s) y"
    using nm.insert_keyed[OF r e False, of "AEntityCmp e" e] AEntityCmp_sound False by auto
  have "RB_EMPTY_NODE m x = (x \<notin> set (insort e es))" if "x \<in> E" for x
  proof (cases "x \<in> set (insort e es)")
    case True
    then show ?thesis using nm.repr_linked[OF m(2)] by simp
  next
    case False
    moreover have "x \<noteq> NULL" using that inv by (auto simp: em_inv_def)
    ultimately show ?thesis using m(4) that inv by (auto simp: em_inv_def set_insort_key)
  qed
  then show ?thesis
    using assms False e m(1,2,3) by (auto simp: EM_push_def em_inv_def set_insort_key)
qed

lemma EM_pop_inv:
  assumes inv: "em_inv em E s es" and "e \<in> E"
  shows "if e \<in> set es
    then \<exists>s'. EM_pop em e s = Some (True, s') \<and> em_inv em E s' (remove1 e es) \<and>
      objects s' = release e (objects s) \<and> coms s' = coms s
    else EM_pop em e s = Some (False, s)"
proof (cases "e \<in> set es")
  case False
  then show ?thesis using assms by (auto simp: EM_pop_def em_inv_def)
next
  case True
  have r: "rb_map (entity_map s) es" "keyed (\<lambda>e. e) es" using inv by (simp_all add: em_inv_def)
  obtain m where m: "rb_erase e (entity_map s) = Some m" "rb_map m (remove1 e es)" "keyed (\<lambda>e. e) (remove1 e es)"
      "\<forall>y. y \<noteq> NULL \<longrightarrow> y \<notin> set es \<longrightarrow> RB_EMPTY_NODE m y = RB_EMPTY_NODE (entity_map s) y"
    using nm.erase_keyed[OF r True] by blast
  have d: "distinct es" using nm.repr_nodes[OF r(1)] by simp
  have cleared: "rb_map (RB_CLEAR_NODE e m) (remove1 e es)" using nm.repr_clear[OF m(2), of e] d by simp
  have "RB_EMPTY_NODE (RB_CLEAR_NODE e m) x = (x \<notin> set (remove1 e es))" if "x \<in> E" for x
  proof -
    have "x \<noteq> NULL" using that inv by (auto simp: em_inv_def)
    then show ?thesis
      using nm.repr_linked[OF cleared, of x] m(4) that inv d by (auto simp: em_inv_def nm.unlinked_clear)
  qed
  moreover have "int (length (remove1 e es)) = int (length es) - 1"
    using True length_pos_if_in_set[OF True] by (simp add: length_remove1 of_nat_diff Suc_le_eq)
  ultimately show ?thesis
    using assms True cleared m(1,3) d by (auto simp: EM_pop_def em_inv_def)
qed

lemma EM_search_inv:
  assumes "em_inv em E s es"
  shows "EM_find key s = Some (if key \<in> set es then key else NULL)"
    and "EM_upper key s = Some (hd_node (filter (\<lambda>x. key < x) es))"
    and "es = as @ x # bs \<Longrightarrow> EM_next x s = Some (hd_node bs)"
proof -
  have r: "rb_map (entity_map s) es" "keyed (\<lambda>e. e) es" using assms by (simp_all add: em_inv_def)
  have "filter (\<lambda>x. x = key) es = (if key \<in> set es then [key] else [])"
    using keyed_unique[OF r(2), of key] by (auto simp: filter_empty_conv)
  then show "EM_find key s = Some (if key \<in> set es then key else NULL)"
    using nm.find_keyed[OF r, of "AEntityCmp key" key] AEntityCmp_sound by (auto simp: EM_find_def)
  show "EM_next x s = Some (hd_node bs)" if "es = as @ x # bs"
    using nm.repr_next r(1) unfolding that EM_next_def by blast
  have "filter (\<lambda>x. NULL < x) es = es" if "NULL \<notin> set es"
    using that by (auto simp: NULL_def filter_id_conv intro!: gr0I)
  then show "EM_upper key s = Some (hd_node (filter (\<lambda>x. key < x) es))"
    using nm.repr_is_empty[OF r(1)] nm.repr_first[OF r(1)] nm.repr_nodes[OF r(1)]
      nm.upper_keyed[OF r, of "AEntityCmp key" key] AEntityCmp_sound
    by (auto simp: EM_upper_def)
qed

section \<open>Runs\<close>

text \<open>
  What a program does with a manager: it initialises the manager and entities, pushes and pops
  entities in any order, successful or not, and does anything with the components.  \<open>members\<close> is the abstract state, a set.
\<close>

inductive em_run :: "addr \<Rightarrow> entity_manager \<Rightarrow> addr set \<Rightarrow> bool" for em :: addr where
  start: "em_run em (EM_init s) {}"
| create: "em_run em s E \<Longrightarrow> e \<notin> E \<Longrightarrow> e \<noteq> NULL \<Longrightarrow> em_run em (AEntity_init e s) (insert e E)"
| push: "em_run em s E \<Longrightarrow> e \<in> E \<Longrightarrow> EM_push em e s = Some (ok, s') \<Longrightarrow> em_run em s' E"
| pop: "em_run em s E \<Longrightarrow> e \<in> E \<Longrightarrow> EM_pop em e s = Some (ok, s') \<Longrightarrow> em_run em s' E"
| components: "em_run em s E \<Longrightarrow> em_run em (s\<lparr>coms := k\<rparr>) E"

definition members :: "addr set \<Rightarrow> entity_manager \<Rightarrow> addr set" where
  "members E s = {e \<in> E. \<not> RB_EMPTY_NODE (entity_map s) e}"

lemma members_inv: "em_inv em E s es \<Longrightarrow> members E s = set es"
  by (auto simp: members_def em_inv_def)

lemma em_run_inv: "em_run em s E \<Longrightarrow> em \<noteq> NULL \<Longrightarrow> \<exists>es. em_inv em E s es"
proof (induction rule: em_run.induct)
  case (start s)
  then show ?case using em_inv_init by blast
next
  case (create s E e)
  then show ?case using em_inv_create by blast
next
  case (push s E e ok s')
  then obtain es where "em_inv em E s es" by blast
  then show ?case using EM_push_inv[of em E s es e] push by (auto split: if_splits)
next
  case (pop s E e ok s')
  then obtain es where "em_inv em E s es" by blast
  then show ?case using EM_pop_inv[of em E s es e] pop by (auto split: if_splits)
next
  case (components s E k)
  then show ?case by (auto simp: em_inv_def)
qed

text \<open>
  The runs with what is done to the components written out: they are initialised, pushed to and popped from the
  entities, successful or not, and added to an entity by the manager.  \<open>C\<close> are the initialised components.
\<close>

inductive com_run :: "addr \<Rightarrow> entity_manager \<Rightarrow> addr set \<Rightarrow> addr set \<Rightarrow> bool" for em :: addr where
  start: "com_run em (EM_init s) {} {}"
| create: "com_run em s E C \<Longrightarrow> e \<notin> E \<union> C \<Longrightarrow> e \<noteq> NULL \<Longrightarrow> com_run em (AEntity_init e s) (insert e E) C"
| push: "com_run em s E C \<Longrightarrow> e \<in> E \<Longrightarrow> EM_push em e s = Some (ok, s') \<Longrightarrow> com_run em s' E C"
| pop: "com_run em s E C \<Longrightarrow> e \<in> E \<Longrightarrow> EM_pop em e s = Some (ok, s') \<Longrightarrow> com_run em s' E C"
| com_init: "com_run em s E C \<Longrightarrow> c \<notin> E \<union> C \<Longrightarrow> c \<noteq> NULL \<Longrightarrow>
    com_run em (s\<lparr>coms := AComponent_init c n i (coms s)\<rparr>) E (insert c C)"
| com_push: "com_run em s E C \<Longrightarrow> e \<in> E \<Longrightarrow> c \<in> C \<Longrightarrow> com_run em (s\<lparr>coms := snd (AEntity_push e c (coms s))\<rparr>) E C"
| com_pop: "com_run em s E C \<Longrightarrow> e \<in> E \<Longrightarrow> c \<in> C \<Longrightarrow> com_run em (s\<lparr>coms := snd (AEntity_pop e c (coms s))\<rparr>) E C"
| com_add: "com_run em s E C \<Longrightarrow> e \<in> E \<Longrightarrow> c \<notin> E \<union> C \<Longrightarrow> c \<noteq> NULL \<Longrightarrow> creates create \<Longrightarrow>
    EM_add_com em e m n create c (coms s) = (r, k) \<Longrightarrow> com_run em (s\<lparr>coms := k\<rparr>) E (if r = NULL then C else insert c C)"

lemma com_run_em_run: "com_run em s E C \<Longrightarrow> em_run em s E"
  by (induction rule: com_run.induct) (auto intro: em_run.intros)

lemma held_less: "held s E (insert c C) cs \<Longrightarrow> loose s c \<Longrightarrow> c \<notin> C \<Longrightarrow> held s E C cs"
  by (rule heldI) (use heldD(2) in \<open>fastforce simp: held_def has_components_def loose_def\<close>)+

lemma EM_add_com_held:
  assumes held: "held k E C cs" and e: "e \<in> E" and c: "c \<notin> E \<union> C" "c \<noteq> NULL" and "creates create"
    and r: "EM_add_com em e m n create c k = (r, k')"
  shows "\<exists>cs'. held k' E (if r = NULL then C else insert c C) cs'"
proof -
  obtain t where t: "t = fresh_com em e m n c k" by blast
  note fresh = fresh_com_held[OF held c, of em e m n, folded t]
  have null: "c \<noteq> e" "e \<noteq> NULL" using c e heldD(2)[OF held] by auto
  obtain q where "create c e t = (q, t) \<or> create c e t = (q, snd (AEntity_push e c t)) \<and> 0 \<le> q"
    using assms(5) unfolding creates_def by blast
  note add = EM_add_com_created[where create = create and c = c and e = e and t = t and r = q, OF this c(2) null t fresh(2) heldD(3)[OF fresh(1) e]]
  show ?thesis
  proof (cases "q < 0")
    case True
    then have "r = NULL" "k' = EM_del_com c t" using add r by simp_all
    moreover have "held t E C cs" using held_less[OF fresh] c by simp
    ultimately show ?thesis using held_cong[of k' t] by (auto simp: EM_del_com_def)
  next
    case False
    then have "r = c" "k' = (snd (AEntity_push e c t))\<lparr>com_dynmng := (com_dynmng t)(c := True)\<rparr>" using add r by simp_all
    then show ?thesis using held_push[OF fresh(1) e, of c] held_cong[of k' "snd (AEntity_push e c t)"] c by (auto split: if_splits)
  qed
qed

text \<open>In every run the entities hold their components.\<close>

lemma com_run_held: "com_run em s E C \<Longrightarrow> em \<noteq> NULL \<Longrightarrow> \<exists>cs. held (coms s) E C cs"
proof (induction rule: com_run.induct)
  case (start s)
  then show ?case by (auto simp: held_def)
next
  case (create s E C e)
  then show ?case using held_create by (fastforce simp: AEntity_init_def)
next
  case (push s E C e ok s')
  obtain es where "em_inv em E s es" using em_run_inv[OF com_run_em_run] push.hyps(1) push.prems by blast
  then have "coms s' = coms s" using EM_push_inv[of em E s es e] push.hyps push.prems by (auto split: if_splits)
  then show ?case using push by simp
next
  case (pop s E C e ok s')
  obtain es where "em_inv em E s es" using em_run_inv[OF com_run_em_run] pop.hyps(1) pop.prems by blast
  then have "coms s' = coms s" using EM_pop_inv[of em E s es e] pop.hyps pop.prems by (auto split: if_splits)
  then show ?case using pop by simp
next
  case (com_init s E C c n i)
  then show ?case using held_init(1) by fastforce
next
  case (com_push s E C e c)
  then show ?case using held_push by fastforce
next
  case (com_pop s E C e c)
  then show ?case using held_pop by fastforce
next
  case (com_add s E C e c create m n r k)
  then show ?case using EM_add_com_held by fastforce
qed

text \<open>
  C16: after any run, the map of the manager is the set of the entities that were pushed and not
  popped.  Pushing succeeds exactly for an entity that is not in the set, adds it and takes one
  reference; popping succeeds exactly for a member, removes it and gives the reference back; a
  refused operation changes nothing.  The counter is the size of the set, and the lookups return
  the entity itself and the least member above the key.
\<close>

theorem entity_manager_refines_set:
  assumes "em_run em s E" and "em \<noteq> NULL" and "e \<in> E"
  shows "(\<exists>s'. EM_push em e s = Some (e \<notin> members E s, s') \<and> members E s' = insert e (members E s) \<and>
      objects s' = (if e \<in> members E s then objects s else addref e (objects s))) \<and>
    (\<exists>s'. EM_pop em e s = Some (e \<in> members E s, s') \<and> members E s' = members E s - {e} \<and>
      objects s' = (if e \<in> members E s then release e (objects s) else objects s)) \<and>
    finite (members E s) \<and> entity_count s = int (card (members E s)) \<and>
    EM_find e s = Some (if e \<in> members E s then e else NULL) \<and>
    EM_upper e s = Some (if {x \<in> members E s. e < x} = {} then NULL else Min {x \<in> members E s. e < x})"
proof -
  obtain es where inv: "em_inv em E s es" using em_run_inv assms(1,2) by blast
  have m: "members E s = set es" by (rule members_inv[OF inv])
  have push: "\<exists>s'. EM_push em e s = Some (e \<notin> set es, s') \<and> members E s' = insert e (set es) \<and>
      objects s' = (if e \<in> set es then objects s else addref e (objects s))"
    using EM_push_inv[OF inv assms(3,2)] m members_inv by (force simp: set_insort_key split: if_splits)
  have d: "distinct es" using inv rb_map_nodes by (auto simp: em_inv_def)
  have pop: "\<exists>s'. EM_pop em e s = Some (e \<in> set es, s') \<and> members E s' = set es - {e} \<and>
      objects s' = (if e \<in> set es then release e (objects s) else objects s)"
    using EM_pop_inv[OF inv assms(3)] m members_inv d by (force split: if_splits)
  have "sorted es" using inv by (auto simp: em_inv_def keyed_def strict_sorted_iff)
  then have "sorted (filter (\<lambda>x. e < x) es)" by (rule sorted_wrt_filter)
  then have least: "hd_node (filter (\<lambda>x. e < x) es) =
      (if {x \<in> set es. e < x} = {} then NULL else Min {x \<in> set es. e < x})"
    by (cases "filter (\<lambda>x. e < x) es")
      (auto simp: filter_empty_conv simp flip: set_filter intro!: Min_eqI[symmetric])
  show ?thesis
    unfolding m using push pop EM_search_inv(1,2)[OF inv, of e] least inv d
    by (simp add: em_inv_def distinct_card)
qed

text \<open>A manager with uninitialised members.\<close>

definition raw_manager :: entity_manager where
  "raw_manager = \<lparr>entity_map = raw_tree,
     entity_count = 9, entity_owner = (\<lambda>_. 77), objects = \<lparr>refcount = (\<lambda>_. 1), freed = []\<rparr>,
     coms = \<lparr>entry = \<lparr>nxt = id, prv = id\<rparr>, com_name = (\<lambda>_. ''AInOutComponent''), com_index = (\<lambda>_. 0),
       com_dynmng = (\<lambda>_. False), com_entity = (\<lambda>_. NULL), com_count = (\<lambda>_. 0),
       head_manager = (\<lambda>_. NULL), head_entity = (\<lambda>_. NULL), head_module = (\<lambda>_. NULL), com_freed = []\<rparr>\<rparr>"

lemma raw_run: "em_run 1 (AEntity_init 8 (EM_init raw_manager)) {8}"
  by (rule em_run.create[OF em_run.start]) (simp_all add: NULL_def)

lemma raw_members: "members {8} (AEntity_init 8 (EM_init raw_manager)) = {}"
  by (auto simp: members_def AEntity_init_def RB_EMPTY_NODE_def RB_CLEAR_NODE_def)

theorem entity_manager_refines_set_witness:
  "\<exists>s'. EM_push 1 8 (AEntity_init 8 (EM_init raw_manager)) = Some (True, s') \<and> members {8} s' = {8}"
  using entity_manager_refines_set[OF raw_run, of 8] unfolding raw_members by (auto simp: NULL_def)

section \<open>Iterations visit the members in order\<close>

fun each_until :: "('a \<Rightarrow> 'p \<Rightarrow> int \<times> 'p) \<Rightarrow> 'a list \<Rightarrow> int \<Rightarrow> 'p \<Rightarrow> int \<times> 'p" where
  "each_until func [] result p = (result, p)"
| "each_until func (x # xs) result p =
     (let (result, p) = func x p in if result \<noteq> 0 then (result, p) else each_until func xs result p)"

lemma EM_each_from_list:
  assumes "em_inv em E s (as @ bs)"
  shows "EM_each_from func s (hd_node bs) result p = Some (each_until func bs result p)"
  using assms
proof (induction bs arbitrary: as result p)
  case Nil
  then show ?case by (subst EM_each_from.simps) simp
next
  case (Cons x bs)
  have "x \<noteq> NULL" using Cons.prems by (auto simp: em_inv_def)
  then show ?case
    using Cons.IH[of "as @ [x]"] Cons.prems EM_search_inv(3)[OF Cons.prems refl]
    by (subst EM_each_from.simps) (simp split: prod.splits)
qed

lemma EM_com_from_list:
  assumes "em_inv em E s (as @ bs)" and "\<forall>e \<in> E. has_components (coms s) e (cs e)"
  shows "EM_com_from name index s (hd_node bs) =
    Some (hd_node (concat (map (\<lambda>e. filter (com_matches (coms s) name index) (cs e)) bs)))"
  using assms(1)
proof (induction bs arbitrary: as)
  case Nil
  then show ?case by (subst EM_com_from.simps) simp
next
  case (Cons x bs)
  have x: "x \<noteq> NULL" "x \<in> E" using Cons.prems by (auto simp: em_inv_def)
  have hc: "has_components (coms s) x (cs x)" using assms(2) x(2) by simp
  have "hd_node (filter P (cs x)) = NULL \<longleftrightarrow> filter P (cs x) = []" for P
    using hc by (cases "filter P (cs x)") (auto simp: has_components_def dest!: filter_eq_ConsD)
  then show ?case
    using Cons.IH[of "as @ [x]"] Cons.prems EM_search_inv(3)[OF Cons.prems refl] x AEntity_get_first[OF hc]
    by (subst EM_com_from.simps) (simp add: hd_node_append)
qed

lemma EM_each_com_from_list:
  assumes "em_inv em E s (as @ bs)" and "\<forall>e \<in> E. has_components (coms s) e (cs e)"
  shows "EM_each_com_from name index func s (hd_node bs) 0 p =
    Some (each_until func (concat (map (\<lambda>e. take 1 (filter (com_matches (coms s) name index) (cs e))) bs)) 0 p)"
  using assms(1)
proof (induction bs arbitrary: as p)
  case Nil
  then show ?case by (subst EM_each_com_from.simps) simp
next
  case (Cons x bs)
  have x: "x \<noteq> NULL" "x \<in> E" using Cons.prems by (auto simp: em_inv_def)
  have hc: "has_components (coms s) x (cs x)" using assms(2) x(2) by simp
  let ?f = "filter (com_matches (coms s) name index) (cs x)"
  have "hd_node ?f = NULL \<longleftrightarrow> ?f = []"
    using hc by (cases ?f) (auto simp: has_components_def dest!: filter_eq_ConsD)
  then show ?case
    using Cons.IH[of "as @ [x]"] Cons.prems EM_search_inv(3)[OF Cons.prems refl] x AEntity_get_first[OF hc]
    by (subst EM_each_com_from.simps) (cases ?f; auto split: prod.splits)
qed

lemma sorted_members:
  assumes "em_inv em E s es"
  shows "sorted_list_of_set {x \<in> members E s. P x} = filter P es"
proof -
  have "sorted es" "distinct es" using assms by (auto simp: em_inv_def keyed_def strict_sorted_iff)
  then have "sorted (filter P es)" "distinct (filter P es)" by (auto intro: sorted_wrt_filter)
  moreover have "{x \<in> members E s. P x} = set (filter P es)" using members_inv[OF assms] by auto
  ultimately show ?thesis by (simp add: sorted_list_of_set.idem_if_sorted_distinct del: set_filter)
qed

lemma filter_greater_suffix:
  assumes "keyed (\<lambda>e. e) es"
  shows "es = filter (\<lambda>x. \<not> key < x) es @ filter (\<lambda>x. key < x) es"
  using assms
proof (induction es)
  case (Cons y ys)
  have ys: "\<forall>z \<in> set ys. y < z" "keyed (\<lambda>e. e) ys" using Cons.prems by (auto simp: keyed_def)
  show ?case
  proof (cases "key < y")
    case True
    then have "\<forall>z \<in> set ys. key < z" using ys(1) by auto
    then show ?thesis using True by (auto simp: filter_empty_conv filter_id_conv)
  next
    case False
    then show ?thesis using Cons.IH[OF ys(2)] by simp
  qed
qed simp

lemma EM_next_com_list:
  assumes inv: "em_inv em E s es" and "\<forall>e \<in> E. has_components (coms s) e (cs e)" and "cur \<in> set es"
  shows "EM_next_com cur name index s =
    Some (hd_node (concat (map (\<lambda>e. filter (com_matches (coms s) name index) (cs e)) (filter (\<lambda>x. cur < x) es))))"
proof -
  obtain as bs where es: "es = as @ cur # bs" using assms(3) by (meson split_list)
  have "keyed (\<lambda>e. e) es" using inv by (simp add: em_inv_def)
  then have bs: "filter (\<lambda>x. cur < x) es = bs" unfolding es by (auto simp: keyed_def sorted_wrt_append filter_empty_conv)
  have "em_inv em E s ((as @ [cur]) @ bs)" using inv unfolding es by simp
  from EM_com_from_list[OF this assms(2)] show ?thesis
    unfolding bs EM_next_com_def EM_search_inv(3)[OF inv es] by simp
qed

text \<open>
  C34: in every run of a manager with its entities and components, where every entity \<open>e\<close> holds the components \<open>cs e\<close>,
  the iterations visit the members above the key in the order of their addresses: \<^verbatim>\<open>_upper_each\<close> calls
  the function for each until it returns a value other than zero, \<^verbatim>\<open>_upper_com\<close> returns the first component of the
  name and index of the first entity that has one, \<^verbatim>\<open>_next_com\<close> does so behind a member, and \<^verbatim>\<open>_upper_each_com\<close>
  calls the function for the first such component of every entity, until it returns a value other than zero.
\<close>

theorem entity_manager_iterations:
  assumes "com_run em s E C" and "em \<noteq> NULL"
  shows "\<exists>cs. (\<forall>e \<in> E. has_components (coms s) e (cs e)) \<and>
    EM_upper_each key func s p = Some (each_until func (sorted_list_of_set {x \<in> members E s. key < x}) 0 p) \<and>
    EM_upper_com key name index s = Some (hd_node (concat (map (\<lambda>e. filter (com_matches (coms s) name index) (cs e))
      (sorted_list_of_set {x \<in> members E s. key < x})))) \<and>
    (\<forall>cur \<in> members E s. EM_next_com cur name index s = Some (hd_node (concat (map
      (\<lambda>e. filter (com_matches (coms s) name index) (cs e)) (sorted_list_of_set {x \<in> members E s. cur < x}))))) \<and>
    EM_upper_each_com key name func index s p = Some (each_until func (concat (map
      (\<lambda>e. take 1 (filter (com_matches (coms s) name index) (cs e))) (sorted_list_of_set {x \<in> members E s. key < x}))) 0 p)"
proof -
  obtain cs where held: "held (coms s) E C cs" using com_run_held[OF assms] by blast
  have cs: "\<forall>e \<in> E. has_components (coms s) e (cs e)" using heldD(3)[OF held] by blast
  obtain es where inv: "em_inv em E s es" using em_run_inv[OF com_run_em_run[OF assms(1)] assms(2)] by blast
  let ?above = "filter (\<lambda>x. key < x) es"
  have split: "em_inv em E s (filter (\<lambda>x. \<not> key < x) es @ ?above)"
    using filter_greater_suffix[of es key] inv by (metis em_inv_def)
  have nexts: "EM_next_com cur name index s = Some (hd_node (concat (map
      (\<lambda>e. filter (com_matches (coms s) name index) (cs e)) (filter (\<lambda>x. cur < x) es))))" if "cur \<in> members E s" for cur
    using EM_next_com_list[OF inv cs] that members_inv[OF inv] by blast
  show ?thesis
    unfolding sorted_members[OF inv] EM_upper_each_def EM_upper_com_def EM_upper_each_com_def EM_search_inv(2)[OF inv]
    using cs nexts EM_each_from_list[OF split, of func 0 p] EM_com_from_list[OF split cs, of name index]
      EM_each_com_from_list[OF split cs, of name index func p] by auto
qed

text \<open>An entity in the manager with a component.\<close>

lemma sample_run:
  obtains s where "com_run 1 s {8} {16}" and "members {8} s = {8}" and "com_name (coms s) 16 = ''AInOutComponent''"
    and "has_components (coms s) 8 [16]" and "entity_owner s 8 = 1"
proof -
  let ?s = "AEntity_init 8 (EM_init raw_manager)"
  have run: "com_run 1 ?s {8} {}" using com_run.create[OF com_run.start, of 8 1 raw_manager] by (simp add: NULL_def)
  have inv: "em_inv 1 {8} ?s []" using em_inv_create[OF em_inv_init, of 8 1 raw_manager] by (simp add: NULL_def)
  obtain s where s: "EM_push 1 8 ?s = Some (True, s)" "em_inv 1 {8} s [8]" "coms s = coms ?s"
    using EM_push_inv[OF inv, of 8] by (auto simp: NULL_def)
  let ?k = "AComponent_init 16 ''AInOutComponent'' 0 (coms s)"
  let ?t = "s\<lparr>coms := snd (AEntity_push 8 16 ?k)\<rparr>"
  have run_s: "com_run 1 s {8} {}" using com_run.push[OF run _ s(1)] by simp
  have own: "has_components (coms s) 8 []"
    unfolding s(3) by (simp add: has_components_def AEntity_init_def INIT_LIST_HEAD_ring)
  have com: "has_components ?k 8 []" "loose ?k 16"
    using AComponent_init_components[OF own, of 16 "''AInOutComponent''" 0] by (simp_all add: NULL_def)
  then have "has_components (coms ?t) 8 [16]" using AEntity_push_components[OF com] by (simp add: NULL_def)
  moreover have "com_run 1 ?t {8} {16}"
    using com_run.com_push[OF com_run.com_init[OF run_s, of 16 "''AInOutComponent''" 0], of 8 16] by (simp add: NULL_def)
  moreover have "com_name (coms ?t) 16 = ''AInOutComponent''" by (simp add: AEntity_push_def AComponent_init_def)
  moreover have "members {8} ?t = {8}" "entity_owner ?t 8 = 1" using members_inv[OF s(2)] s(2)
    by (simp_all add: members_def em_inv_def)
  ultimately show ?thesis using that[of ?t] by blast
qed

theorem entity_manager_iterations_witness:
  "\<exists>s. com_run 1 s {8} {16} \<and> EM_upper_com 0 ''AInOutComponent'' (-1) s = Some 16 \<and>
     EM_upper_each_com 0 ''AInOutComponent'' (\<lambda>c seen. (0, c # seen)) (-1) s [] = Some (0, [16])"
proof -
  obtain s where s: "com_run 1 s {8} {16}" "members {8} s = {8}" "com_name (coms s) 16 = ''AInOutComponent''"
    "has_components (coms s) 8 [16]" by (rule sample_run)
  have "{x. x = 8 \<and> (0 :: nat) < x} = {8}" by auto
  then have above: "sorted_list_of_set {x \<in> members {8} s. 0 < x} = [8]" by (simp add: s(2) Collect_conv_if)
  obtain cs :: "addr \<Rightarrow> addr list" where cs: "has_components (coms s) 8 (cs 8)"
    "EM_upper_com 0 ''AInOutComponent'' (-1) s = Some (hd_node (filter (com_matches (coms s) ''AInOutComponent'' (-1)) (cs 8)))"
    "EM_upper_each_com 0 ''AInOutComponent'' (\<lambda>c seen. (0, c # seen)) (-1) s [] =
      Some (each_until (\<lambda>c seen. (0, c # seen)) (take 1 (filter (com_matches (coms s) ''AInOutComponent'' (-1)) (cs 8))) 0 [])"
    using entity_manager_iterations[OF s(1), of 0 "\<lambda>c seen. (0, c # seen)" "[]" "''AInOutComponent''" "-1"]
    unfolding above by (auto simp: NULL_def)
  have m: "com_matches (coms s) ''AInOutComponent'' (-1) 16" by (simp add: com_matches_def s(3))
  have first: "hd_node (filter (com_matches (coms s) ''AInOutComponent'' (-1)) (cs 8)) = 16"
    using AEntity_get_first[OF cs(1), of "''AInOutComponent''" "-1"] AEntity_get_first[OF s(4), of "''AInOutComponent''" "-1"] m
    by simp
  then have "take 1 (filter (com_matches (coms s) ''AInOutComponent'' (-1)) (cs 8)) = [16]"
    by (cases "filter (com_matches (coms s) ''AInOutComponent'' (-1)) (cs 8)") (simp_all add: NULL_def)
  then show ?thesis using s(1) cs(2,3) first by auto
qed

section \<open>Clearing\<close>

lemma EM_clear_from_list:
  assumes "em_inv em E s es" and "\<forall>e \<in> E. has_components (coms s) e (cs e)"
  shows "\<exists>s'. EM_clear_from em shut io (hd_node es) down s = Some (down @ (if shut then
      filter (\<lambda>i. i \<noteq> NULL) (concat (map (\<lambda>e. map io (take 1 (filter (com_matches (coms s) ''AInOutComponent'' (-1)) (cs e)))) es))
      else []), s') \<and>
    em_inv em E s' [] \<and> objects s' = fold release es (objects s)"
  using assms
proof (induction es arbitrary: s down)
  case Nil
  then show ?case by (subst EM_clear_from.simps) auto
next
  case (Cons x es)
  have x: "x \<noteq> NULL" "x \<in> E" using Cons.prems(1) by (auto simp: em_inv_def)
  have hc: "has_components (coms s) x (cs x)" using Cons.prems(2) x(2) by simp
  let ?f = "filter (com_matches (coms s) ''AInOutComponent'' (-1)) (cs x)"
  have null: "hd_node ?f = NULL \<longleftrightarrow> ?f = []"
    using hc by (cases ?f) (auto simp: has_components_def dest!: filter_eq_ConsD)
  obtain s1 where s1: "EM_pop em x s = Some (True, s1)" "em_inv em E s1 es" "objects s1 = release x (objects s)" "coms s1 = coms s"
    using EM_pop_inv[OF Cons.prems(1) x(2)] by auto
  have nxt: "EM_next x s = Some (hd_node es)" using EM_search_inv(3)[OF Cons.prems(1), of "[]"] by simp
  have "\<forall>e \<in> E. has_components (coms s1) e (cs e)" using Cons.prems(2) s1(4) by simp
  note ih = Cons.IH[OF s1(2) this, unfolded s1(3,4)]
  show ?case
  proof (cases shut)
    case False
    then show ?thesis using ih[of down] s1(1) nxt x(1) by (subst EM_clear_from.simps) simp
  next
    case True
    show ?thesis
    proof (cases ?f)
      case Nil
      then show ?thesis using True ih[of down] s1(1) nxt x(1) AEntity_get_first[OF hc, of "''AInOutComponent''" "-1"]
        by (subst EM_clear_from.simps) simp
    next
      case (Cons c l)
      then have get: "AEntity_get x ''AInOutComponent'' (-1) (coms s) = Some c" "c \<noteq> NULL"
        using AEntity_get_first[OF hc, of "''AInOutComponent''" "-1"] null by simp_all
      show ?thesis
        using True Cons ih[of "if io c \<noteq> NULL then down @ [io c] else down"] s1(1) nxt x(1) get
        by (subst EM_clear_from.simps) (cases "io c = NULL"; simp)
    qed
  qed
qed

text \<open>
  Clearing a manager always ends, leaves it empty with a counter of zero, gives back one
  reference of every member, and on request shuts down the io object of the first
  \<^verbatim>\<open>AInOutComponent\<close> of every member that has one.
\<close>

theorem entity_manager_clear:
  assumes "em_run em s E" and "em \<noteq> NULL" and "\<forall>e \<in> E. has_components (coms s) e (cs e)"
  shows "\<exists>s'. EM_clear em shut io s = Some (if shut then filter (\<lambda>i. i \<noteq> NULL) (concat (map
      (\<lambda>e. map io (take 1 (filter (com_matches (coms s) ''AInOutComponent'' (-1)) (cs e)))) (sorted_list_of_set (members E s))))
      else [], s') \<and>
    members E s' = {} \<and> entity_count s' = 0 \<and> RB_EMPTY_ROOT (entity_map s') \<and>
    objects s' = fold release (sorted_list_of_set (members E s)) (objects s)"
proof -
  obtain es where inv: "em_inv em E s es" using em_run_inv assms(1,2) by blast
  have above: "filter (\<lambda>x. NULL < x) es = es"
    using inv by (auto simp: em_inv_def NULL_def filter_id_conv intro!: gr0I)
  have "EM_upper NULL s = Some (hd_node es)" using EM_search_inv(2)[OF inv] above by simp
  moreover have "sorted_list_of_set (members E s) = es" using sorted_members[OF inv, of "\<lambda>_. True"] by simp
  moreover note EM_clear_from_list[OF inv assms(3), of shut io "[]"]
  ultimately obtain s' where s': "EM_clear em shut io s = Some (if shut then filter (\<lambda>i. i \<noteq> NULL) (concat (map
      (\<lambda>e. map io (take 1 (filter (com_matches (coms s) ''AInOutComponent'' (-1)) (cs e)))) (sorted_list_of_set (members E s))))
      else [], s')" "em_inv em E s' []" "objects s' = fold release (sorted_list_of_set (members E s)) (objects s)"
    by (auto simp: EM_clear_def)
  have "RB_EMPTY_ROOT (entity_map s')" "entity_count s' = 0"
    using s'(2) nm.repr_is_empty[of "entity_map s'" "[]"] by (auto simp: em_inv_def)
  then show ?thesis using s' members_inv[OF s'(2)] by auto
qed

theorem entity_manager_clear_witness:
  "\<exists>s'. EM_clear 1 True (\<lambda>_. 5) (AEntity_init 8 (EM_init raw_manager)) = Some ([], s') \<and> entity_count s' = 0"
proof -
  have "\<forall>e \<in> {8}. has_components (coms (AEntity_init 8 (EM_init raw_manager))) e []"
    by (simp add: has_components_def AEntity_init_def INIT_LIST_HEAD_ring)
  from entity_manager_clear[OF raw_run _ this, of True "\<lambda>_. 5"] show ?thesis
    by (auto simp: raw_members NULL_def)
qed

section \<open>Component life cycle\<close>

text \<open>
  The end of an entity gives back its dynamic components in order; without a manager it has no result when there is
  one.
\<close>

lemma AEntity_exit_ring:
  "ring (entry (coms s)) e cs \<Longrightarrow>
     if entity_owner s e = NULL \<and> filter (com_dynmng (coms s)) cs \<noteq> [] then AEntity_exit e s = None
     else \<exists>t. AEntity_exit e s = Some t \<and> list_empty (entry (coms t)) e \<and>
       com_freed (coms t) = com_freed (coms s) @ map (\<lambda>c. (head_module (coms s) c, c)) (filter (com_dynmng (coms s)) cs)"
proof (induction cs arbitrary: s)
  case Nil
  then have "list_empty (entry (coms s)) e" by (simp add: ring_empty_iff)
  then show ?case by (subst AEntity_exit.simps) simp
next
  case (Cons c cs)
  note r = Cons.prems
  have c: "nxt (entry (coms s)) e = c" "\<not> list_empty (entry (coms s)) e" using ring_head[OF r] ring_empty_iff[OF r] by auto
  let ?h = "list_del_init c (entry (coms s))"
  have ring: "ring ?h e cs" using list_del_init_ring(1)[of "entry (coms s)" e "[]" c cs] r by simp
  have step: "AEntity_exit e s =
     (if com_dynmng (coms s) c
      then if entity_owner s e = NULL then None
           else AEntity_exit e (s\<lparr>coms := EM_del_com c ((coms s)\<lparr>entry := ?h\<rparr>)\<rparr>)
      else AEntity_exit e (s\<lparr>coms := (coms s)\<lparr>entry := ?h\<rparr>\<rparr>))"
    using c by (subst AEntity_exit.simps) (simp add: list_pop_front_def)
  show ?case
    using Cons.IH[of "s\<lparr>coms := EM_del_com c ((coms s)\<lparr>entry := ?h\<rparr>)\<rparr>"] Cons.IH[of "s\<lparr>coms := (coms s)\<lparr>entry := ?h\<rparr>\<rparr>"]
      ring step by (auto simp: EM_del_com_def split: if_splits)
qed

text \<open>
  C35: adding a component to an entity gives a block of its own that the entity holds behind its
  other components, whether the module's create function pushes the component itself or leaves it to the manager; a
  search by name and index finds the first of the others that matches, and the new one, with the name of its module and
  index 0, when none of them does.  When creation fails, the block goes back through the module and the entity is as
  before.  Destroying the entity gives back the components that were added to it, each once and in order; it needs
  that the entity has been in a manager, and otherwise follows a null pointer.
\<close>

theorem entity_component_life_cycle:
  assumes "has_components (coms s) e cs" and "e \<noteq> NULL" and "c \<noteq> NULL" and "c \<notin> set (e # cs)"
    and "\<And>s. create c e s = (r, s) \<or> create c e s = (r, snd (AEntity_push e c s)) \<and> r \<ge> 0"
  shows "if r < 0
    then \<exists>k. EM_add_com em e m name create c (coms s) = (NULL, k) \<and> has_components k e cs \<and>
      com_freed k = com_freed (coms s) @ [(m, c)]
    else \<exists>k. EM_add_com em e m name create c (coms s) = (c, k) \<and> has_components k e (cs @ [c]) \<and>
      com_freed k = com_freed (coms s) \<and>
      (\<forall>n i. AEntity_get e n i k = Some (hd_node (filter (com_matches (coms s) n i) cs @
         (if same_name name n \<and> (i = -1 \<or> i = 0) then [c] else [])))) \<and>
      (if entity_owner s e = NULL then AEntity_exit e (s\<lparr>coms := k\<rparr>) = None
       else \<exists>t. AEntity_exit e (s\<lparr>coms := k\<rparr>) = Some t \<and> list_empty (entry (coms t)) e \<and>
         com_freed (coms t) = com_freed (coms s) @
           map (\<lambda>x. (head_module (coms s) x, x)) (filter (com_dynmng (coms s)) cs) @ [(m, c)])"
proof -
  let ?k = "coms s"
  obtain t where t: "t = fresh_com em e m name c ?k" by blast
  have own: "has_components t e cs" and loose: "loose t c"
    unfolding t fresh_com_def
    using AComponent_init_components[of "?k\<lparr>head_manager := (head_manager ?k)(c := em), head_entity := (head_entity ?k)(c := e),
      head_module := (head_module ?k)(c := m)\<rparr>" e cs c] assms(1,3,4) by (simp_all add: has_components_def)
  have fields: "com_name t = (com_name ?k)(c := name)" "com_index t = (com_index ?k)(c := 0)"
    "com_dynmng t = (com_dynmng ?k)(c := False)" "head_module t = (head_module ?k)(c := m)" "com_freed t = com_freed ?k"
    by (simp_all add: t fresh_com_def AComponent_init_def index16_def)
  obtain p where p: "p = (snd (AEntity_push e c t))\<lparr>com_dynmng := (com_dynmng t)(c := True)\<rparr>" by blast
  have pushed: "fst (AEntity_push e c t)" "has_components (snd (AEntity_push e c t)) e (cs @ [c])"
    using AEntity_push_components[OF own loose assms(2)] assms(4) by auto
  then have hp: "has_components p e (cs @ [c])" by (simp add: p has_components_def)
  have kept: "com_name p = com_name t" "com_index p = com_index t" "head_module p = head_module t" "com_freed p = com_freed ?k"
    "com_dynmng p = (com_dynmng ?k)(c := True)"
    by (simp_all add: p AEntity_push_def fields)
  have "c \<noteq> e" using assms(4) by simp
  then have add: "EM_add_com em e m name create c ?k = (if r < 0 then (NULL, EM_del_com c t) else (c, p))"
    unfolding p
    using EM_add_com_created[where create = create and c = c and e = e and t = t and r = r, OF _ assms(3) _ assms(2) t loose own]
      assms(5) by blast
  show ?thesis
  proof (cases "r < 0")
    case True
    then show ?thesis using add own fields by (auto simp: EM_del_com_def has_components_def)
  next
    case False
    have others: "filter (com_matches p n i) cs = filter (com_matches ?k n i) cs" for n i
      using assms(4) by (intro filter_cong) (auto simp: com_matches_def kept fields)
    have "com_matches p n i c = (same_name name n \<and> (i = -1 \<or> i = 0))" for n i by (simp add: com_matches_def kept fields)
    then have get: "AEntity_get e n i p = Some (hd_node (filter (com_matches ?k n i) cs @
        (if same_name name n \<and> (i = -1 \<or> i = 0) then [c] else [])))" for n i
      using AEntity_get_first[OF hp, of n i] others[of n i] by auto
    have dyn: "filter (com_dynmng p) (cs @ [c]) = filter (com_dynmng ?k) cs @ [c]"
      using assms(4) by (auto simp: kept intro!: filter_cong split: if_splits)
    have given_back: "map (\<lambda>x. (head_module p x, x)) (filter (com_dynmng ?k) cs @ [c]) =
        map (\<lambda>x. (head_module ?k x, x)) (filter (com_dynmng ?k) cs) @ [(m, c)]"
      using assms(4) by (auto simp: kept fields)
    obtain s' where s': "s' = s\<lparr>coms := p\<rparr>" by blast
    have state: "coms s' = p" "entity_owner s' = entity_owner s" by (simp_all add: s')
    have "ring (entry (coms s')) e (cs @ [c])" using hp by (simp add: has_components_def state)
    from AEntity_exit_ring[OF this, unfolded state dyn given_back kept(4)]
    have "if entity_owner s e = NULL then AEntity_exit e s' = None
       else \<exists>t. AEntity_exit e s' = Some t \<and> list_empty (entry (coms t)) e \<and>
         com_freed (coms t) = com_freed ?k @ map (\<lambda>x. (head_module ?k x, x)) (filter (com_dynmng ?k) cs) @ [(m, c)]"
      by simp
    then show ?thesis using False add hp get kept(4) unfolding s' by auto
  qed
qed

theorem entity_component_life_cycle_witness:
  "\<exists>s k t. com_run 1 s {8} {16} \<and>
    EM_add_com 1 8 40 ''AClientComponent'' (\<lambda>c e s. (1, snd (AEntity_push e c s))) 24 (coms s) = (24, k) \<and>
    AEntity_get 8 ''aclientcomponent'' (-1) k = Some 24 \<and>
    AEntity_exit 8 (s\<lparr>coms := k\<rparr>) = Some t \<and> (40, 24) \<in> set (com_freed (coms t))"
proof -
  obtain s where s: "com_run 1 s {8} {16}" "com_name (coms s) 16 = ''AInOutComponent''"
    "has_components (coms s) 8 [16]" "entity_owner s 8 = 1" by (rule sample_run)
  have "\<not> com_matches (coms s) ''aclientcomponent'' (-1) 16"
    using s(2) by (simp add: com_matches_def same_name_def tolower_def)
  moreover have "same_name ''AClientComponent'' ''aclientcomponent''" by code_simp
  ultimately show ?thesis
    using entity_component_life_cycle[OF s(3), of 24 "\<lambda>c e s. (1, snd (AEntity_push e c s))" 1 1 40 "''AClientComponent''"] s(1,4)
    by (fastforce simp: NULL_def)
qed

end
