(* ===== verification/List_Frame.thy ===== *)
theory List_Frame
  imports List_Head
begin

text \<open>
  What the list operations leave alone: an operation writes links of the nodes of the rings it works
  on only, so rings without these nodes stay as they are.
\<close>

definition agree_off :: "addr set \<Rightarrow> list_head \<Rightarrow> list_head \<Rightarrow> bool" where
  "agree_off T l l' = (\<forall>x. x \<notin> T \<longrightarrow> nxt l' x = nxt l x \<and> prv l' x = prv l x)"

lemma agree_off_refl [simp]: "agree_off T l l"
  by (simp add: agree_off_def)

lemma agree_off_trans: "agree_off T l l' \<Longrightarrow> agree_off T l' l'' \<Longrightarrow> agree_off T l l''"
  by (simp add: agree_off_def)

lemma agree_off_mono: "agree_off T l l' \<Longrightarrow> T \<subseteq> U \<Longrightarrow> agree_off U l l'"
  by (auto simp: agree_off_def)

lemma ring_agree: "agree_off T l l' \<Longrightarrow> set (b # zs) \<inter> T = {} \<Longrightarrow> ring l' b zs = ring l b zs"
  by (rule ring_frame) (auto simp: agree_off_def)

lemma ring_keep:
  assumes "agree_off T l l'" and "ring l b zs" and "T \<inter> set (b # zs) = {}"
  shows "ring l' b zs"
  using ring_agree[OF assms(1), of b zs] assms(2,3) by blast

lemma agree_init: "agree_off {a} l (INIT_LIST_HEAD a l)"
  by (simp add: agree_off_def INIT_LIST_HEAD_def set_next_def set_prev_def)

lemma agree_add_tail: "ring l a xs \<Longrightarrow> agree_off (set (new # a # xs)) l (list_add_tail new a l)"
  using ring_prv_in[of l a xs]
  by (auto simp: agree_off_def list_add_tail_def list_add_between_def set_next_def set_prev_def Let_def)

lemma agree_del_between:
  assumes "ring l a (xs @ e # ys)"
  shows "agree_off (set (a # xs @ ys)) l (list_del_between (prv l e) (nxt l e) l)"
proof -
  have "prv l e \<in> set (a # xs)" "nxt l e \<in> set (ys @ [a])"
    unfolding ring_mid[OF assms] by (rule last_in_set, simp) (rule hd_in_set, simp)
  then show ?thesis by (auto simp: agree_off_def list_del_between_def set_next_def set_prev_def)
qed

lemma agree_del_init:
  assumes "ring l a (xs @ e # ys)"
  shows "agree_off (set (a # xs @ e # ys)) l (list_del_init e l)"
  unfolding list_del_init_def
  by (rule agree_off_trans[OF agree_off_mono[OF agree_del_between[OF assms]] agree_off_mono[OF agree_init]]) auto

lemma list_move_tail_rings:
  assumes a: "ring l a (xs @ e # ys)" and b: "ring l b zs" and dis: "set (a # xs @ e # ys) \<inter> set (b # zs) = {}"
  shows "ring (list_move_tail e b l) a (xs @ ys)" and "ring (list_move_tail e b l) b (zs @ [e])"
    and "agree_off (set (a # xs @ e # ys @ b # zs)) l (list_move_tail e b l)"
proof -
  let ?l = "list_del_between (prv l e) (nxt l e) l"
  have ea: "e \<notin> set (a # xs @ ys)" using ring_distinct[OF a] by auto
  have a1: "ring ?l a (xs @ ys)" using list_del_between_ring[OF a] ring_mid[OF a] by simp
  have b1: "ring ?l b zs" using ring_agree[OF agree_del_between[OF a], of b zs] b dis by auto
  have ag: "agree_off (set (e # b # zs)) ?l (list_add_tail e b ?l)" by (rule agree_add_tail[OF b1])
  show "ring (list_move_tail e b l) b (zs @ [e])"
    unfolding list_move_tail_def by (rule list_add_tail_ring[OF b1]) (use dis in auto)
  show "ring (list_move_tail e b l) a (xs @ ys)"
    unfolding list_move_tail_def using ring_agree[OF ag, of a "xs @ ys"] a1 ea dis by auto
  show "agree_off (set (a # xs @ e # ys @ b # zs)) l (list_move_tail e b l)"
    unfolding list_move_tail_def
    by (rule agree_off_trans[OF agree_off_mono[OF agree_del_between[OF a]] agree_off_mono[OF ag]]) auto
qed

lemma list_splice_init_agree:
  assumes "ring l h ys" and "ring l a xs"
  shows "agree_off (set (h # ys @ a # xs)) l (list_splice_init h a l)"
proof (cases "ys = []")
  case True
  then show ?thesis using ring_empty_iff[OF assms(1)] by (simp add: list_splice_init_def)
next
  case False
  have "nxt l h \<in> set ys" "prv l h \<in> set ys" using False ring_head[OF assms(1)] by auto
  moreover have "nxt l a \<in> set (a # xs)" by (rule ring_nxt_in[OF assms(2)])
  ultimately show ?thesis
    by (auto simp: agree_off_def list_splice_init_def list_splice_between_def INIT_LIST_HEAD_def
        set_next_def set_prev_def Let_def)
qed

end
