(* ===== verification/Group_Map.thy ===== *)
theory Group_Map
  imports Node_Map List_Frame "HOL-Library.Multiset"
begin

text \<open>
  A structure the timers (\<^verbatim>\<open>base/AOperator.cpp\<close>) and the event manager (\<^verbatim>\<open>ecs/AEvent.cpp\<close>) share: a
  red-black tree of leaders with different keys, and behind every leader the ring of its followers,
  the later nodes of the same key.  The lemmas say what adding and removing a node does to the
  groups.
\<close>

section \<open>Groups\<close>

type_synonym groups = "(addr \<times> addr list) list"

definition group_nodes :: "groups \<Rightarrow> addr list" where
  "group_nodes gs = concat (map (\<lambda>(x, ys). x # ys) gs)"

lemma group_nodes_simps [simp]:
  "group_nodes [] = []" "group_nodes ((x, ys) # gs) = x # ys @ group_nodes gs"
  "group_nodes (gs @ hs) = group_nodes gs @ group_nodes hs"
  by (simp_all add: group_nodes_def)

lemma leaders_nodes: "fst ` set gs \<subseteq> set (group_nodes gs)"
  by (auto simp: group_nodes_def)

definition groups_ok :: "(addr \<Rightarrow> 'k :: linorder) \<Rightarrow> rb_node \<Rightarrow> list_head \<Rightarrow> groups \<Rightarrow> bool" where
  "groups_ok key m l gs = (rb_map m (map fst gs) \<and> keyed key (map fst gs) \<and> distinct (group_nodes gs) \<and>
     NULL \<notin> set (group_nodes gs) \<and> (\<forall>(x, ys) \<in> set gs. ring l x ys \<and> (\<forall>y \<in> set ys. key y = key x)))"

fun group_add :: "(addr \<Rightarrow> 'k :: linorder) \<Rightarrow> addr \<Rightarrow> groups \<Rightarrow> groups" where
  "group_add key n [] = [(n, [])]"
| "group_add key n ((x, ys) # gs) =
     (if key n < key x then (n, []) # (x, ys) # gs
      else if key n = key x then (x, ys @ [n]) # gs
      else (x, ys) # group_add key n gs)"

lemma set_group_add: "set (group_nodes (group_add key n gs)) = insert n (set (group_nodes gs))"
  by (induction key n gs rule: group_add.induct) auto

lemma distinct_group_add:
  "distinct (group_nodes gs) \<Longrightarrow> n \<notin> set (group_nodes gs) \<Longrightarrow> distinct (group_nodes (group_add key n gs))"
  by (induction key n gs rule: group_add.induct) (auto simp: set_group_add)

lemma group_add_new:
  "keyed key (map fst gs) \<Longrightarrow> key n \<notin> key ` set (map fst gs) \<Longrightarrow>
     map fst (group_add key n gs) = insort_key key n (map fst gs) \<and> set (group_add key n gs) = insert (n, []) (set gs)"
  by (induction key n gs rule: group_add.induct) (auto simp: keyed_def)

lemma group_add_old:
  "keyed key (map fst (as @ (x, ys) # bs)) \<Longrightarrow> key n = key x \<Longrightarrow>
     group_add key n (as @ (x, ys) # bs) = as @ (x, ys @ [n]) # bs"
  by (induction as) (auto simp: keyed_def)

text \<open>The order in which the clients take the groups apart: the leader of a group last.\<close>

definition fired :: "groups \<Rightarrow> addr list" where
  "fired gs = concat (map (\<lambda>(x, ys). ys @ [x]) gs)"

lemma fired_simps [simp]: "fired [] = []" "fired ((x, ys) # gs) = ys @ x # fired gs"
  by (simp_all add: fired_def)

lemma set_fired [simp]: "set (fired gs) = set (group_nodes gs)"
  by (induction gs) auto

lemma mset_fired: "mset (fired gs) = mset (group_nodes gs)"
  by (induction gs) auto

text \<open>Rings of nodes outside the groups, and the rings of the other groups, are left alone.\<close>

lemma groups_ok_frame:
  assumes "groups_ok key m l gs"
    and "\<And>x ys. (x, ys) \<in> set gs \<Longrightarrow> ring l x ys \<Longrightarrow> ring l' x ys"
  shows "groups_ok key m l' gs"
  using assms by (force simp: groups_ok_def)

text \<open>Replacing one group of many.\<close>

lemma groups_ok_mid:
  assumes "groups_ok key m l (as @ (x, ys) # bs)"
    and "rb_map m' (map fst as @ x' # map fst bs)" and "key x' = key x"
    and "distinct (group_nodes (as @ (x', ys') # bs))" and "NULL \<notin> set (x' # ys')"
    and "ring l' x' ys'" and "\<And>y. y \<in> set ys' \<Longrightarrow> key y = key x"
    and "\<And>z zs. (z, zs) \<in> set (as @ bs) \<Longrightarrow> ring l z zs \<Longrightarrow> ring l' z zs"
  shows "groups_ok key m' l' (as @ (x', ys') # bs)"
proof -
  have "keyed key (map fst as @ x' # map fst bs)"
    using assms(1,3) by (auto simp: groups_ok_def keyed_def sorted_wrt_append)
  moreover have "ring l' z zs \<and> (\<forall>y \<in> set zs. key y = key z)" if "(z, zs) \<in> set (as @ (x', ys') # bs)" for z zs
  proof (cases "(z, zs) = (x', ys')")
    case True
    then show ?thesis using assms(3,6,7) by simp
  next
    case False
    then have in_rest: "(z, zs) \<in> set (as @ bs)" using that by auto
    then have "ring l z zs \<and> (\<forall>y \<in> set zs. key y = key z)" using assms(1) by (fastforce simp: groups_ok_def)
    then show ?thesis using assms(8)[OF in_rest] by blast
  qed
  moreover have "NULL \<notin> set (group_nodes (as @ (x', ys') # bs))" using assms(1,5) by (simp add: groups_ok_def)
  ultimately show ?thesis using assms(2,4) unfolding groups_ok_def by auto
qed

lemma groups_ok_group:
  assumes "groups_ok key m l (as @ (x, ys) # bs)"
  shows "ring l x ys" and "\<And>y. y \<in> set ys \<Longrightarrow> key y = key x" and "rb_map m (map fst as @ x # map fst bs)"
    and "distinct (group_nodes as @ x # ys @ group_nodes bs)" and "NULL \<notin> set (x # ys)"
    and "keyed key (map fst as @ x # map fst bs)"
  using assms by (auto simp: groups_ok_def)

lemma group_subset: "(z, zs) \<in> set gs \<Longrightarrow> set (z # zs) \<subseteq> set (group_nodes gs)"
  by (force simp: group_nodes_def)

lemma other_group:
  assumes "groups_ok key m l (as @ (x, ys) # bs)" and "(z, zs) \<in> set (as @ bs)"
  shows "set (z # zs) \<inter> set (x # ys) = {}"
proof -
  have "set (z # zs) \<subseteq> set (group_nodes (as @ bs))" using assms(2) by (rule group_subset)
  moreover have "set (group_nodes (as @ bs)) \<inter> set (x # ys) = {}" using groups_ok_group(4)[OF assms(1)] by auto
  ultimately show ?thesis by blast
qed

text \<open>Changing the keys or the links of nodes outside the groups.\<close>

lemma groups_ok_key_cong:
  assumes "groups_ok key m l gs" and "\<And>a. a \<in> set (group_nodes gs) \<Longrightarrow> key' a = key a"
  shows "groups_ok key' m l gs"
proof -
  have k: "key' x = key x \<and> (\<forall>y \<in> set ys. key' y = key y)" if "(x, ys) \<in> set gs" for x ys
    using group_subset[OF that] assms(2) by auto
  have leader: "key' x = key x" if "x \<in> set (map fst gs)" for x
    using that leaders_nodes[of gs] assms(2) by auto
  have "keyed key (map fst gs)" using assms(1) by (simp add: groups_ok_def)
  then have "keyed key' (map fst gs)"
    unfolding keyed_def by (rule sorted_wrt_mono_rel[rotated]) (simp add: leader)
  moreover have "ring l x ys \<and> (\<forall>y \<in> set ys. key' y = key' x)" if xy: "(x, ys) \<in> set gs" for x ys
  proof -
    have "ring l x ys \<and> (\<forall>y \<in> set ys. key y = key x)" using assms(1) xy unfolding groups_ok_def by blast
    then show ?thesis using k[OF xy] by simp
  qed
  ultimately show ?thesis using assms(1) unfolding groups_ok_def by blast
qed

lemma groups_ok_links:
  assumes "groups_ok key m l gs" and "agree_off T l l'" and "T \<inter> set (group_nodes gs) = {}"
  shows "groups_ok key m l' gs"
proof (rule groups_ok_frame[OF assms(1)])
  fix x ys
  assume xy: "(x, ys) \<in> set gs" "ring l x ys"
  show "ring l' x ys" using ring_agree[OF assms(2), of x ys] group_subset[OF xy(1)] assms(3) xy(2) by blast
qed

lemma group_insert:
  assumes ok: "groups_ok key m l gs" and n: "n \<noteq> NULL" "n \<notin> set (group_nodes gs)" "ring l n []"
    and cmp: "\<And>x. x \<in> fst ` set gs \<Longrightarrow> cmp_sound (cmp x) k0 (key x)" and k0: "key n = k0"
  shows "\<exists>x m'. rb_insert cmp n m = Some (x, m') \<and>
    (if x = NULL then k0 \<notin> key ` set (map fst gs) else x \<in> fst ` set gs \<and> key x = k0 \<and> m' = m) \<and>
    groups_ok key m' (if x = NULL then l else list_add_tail n x l) (group_add key n gs) \<and>
    (\<forall>y. y \<noteq> NULL \<longrightarrow> y \<notin> insert n (fst ` set gs) \<longrightarrow> RB_EMPTY_NODE m' y = RB_EMPTY_NODE m y)"
proof -
  have r: "rb_map m (map fst gs)" "keyed key (map fst gs)" using ok by (simp_all add: groups_ok_def)
  have fresh: "n \<notin> set (map fst gs)" using n(2) leaders_nodes[of gs] by auto
  consider (old) x where "rb_insert cmp n m = Some (x, m)" "x \<in> set (map fst gs)" "key x = k0"
    | (new) m' where "rb_insert cmp n m = Some (NULL, m')" "k0 \<notin> key ` set (map fst gs)"
        "rb_map m' (insort_key key n (map fst gs))" "keyed key (insort_key key n (map fst gs))"
        "\<forall>y. y \<noteq> NULL \<longrightarrow> y \<notin> set (n # map fst gs) \<longrightarrow> RB_EMPTY_NODE m' y = RB_EMPTY_NODE m y"
    using nm.insert_keyed[OF r n(1) fresh, of cmp k0] cmp k0 by auto
  then show ?thesis
  proof cases
    case old
    obtain ys as bs where gs: "gs = as @ (x, ys) # bs" using old(2) by (auto dest!: split_list)
    note ok' = ok[unfolded gs]
    have x: "x \<noteq> NULL" "ring l x ys" using groups_ok_group(1,5)[OF ok'] by auto
    have n': "n \<notin> set (group_nodes as @ x # ys @ group_nodes bs)" using n(2) by (simp add: gs)
    have rings: "ring (list_add_tail n x l) z zs" if z: "(z, zs) \<in> set (as @ bs)" "ring l z zs" for z zs
    proof -
      have "n \<notin> set (z # zs)" using group_subset[OF z(1)] n' by auto
      then show ?thesis
        using other_group[OF ok' z(1)] by (intro list_add_tail_other[OF x(2) z(2)]) auto
    qed
    have "ring (list_add_tail n x l) x (ys @ [n])" using x(2) n' by (intro list_add_tail_ring) auto
    moreover have "distinct (group_nodes (as @ (x, ys @ [n]) # bs))" using groups_ok_group(4)[OF ok'] n' by auto
    ultimately have "groups_ok key m (list_add_tail n x l) (as @ (x, ys @ [n]) # bs)"
      using groups_ok_group[OF ok'] n(1) k0 old(3) rings by (intro groups_ok_mid[OF ok']) auto
    moreover have "group_add key n gs = as @ (x, ys @ [n]) # bs"
      using group_add_old[of key as x ys bs n] r(2) old(3) k0 by (simp add: gs)
    ultimately show ?thesis using old(1,3) x(1) by (auto simp: gs)
  next
    case new
    then show ?thesis
      using group_add_new[OF r(2), of n] k0 ok n distinct_group_add[of gs n key]
      by (auto simp: groups_ok_def set_group_add)
  qed
qed

lemma group_find:
  assumes ok: "groups_ok key m l gs" and "(x, ys) \<in> set gs" and "e \<in> set (x # ys)"
    and "\<And>x. x \<in> fst ` set gs \<Longrightarrow> cmp_sound (cmp x) (key e) (key x)"
  shows "rb_find cmp m (rb_root m) = Some x"
proof -
  have "key x = key e" using ok assms(2,3) by (auto simp: groups_ok_def)
  then show ?thesis
    using nm.find_keyed_node[of m "map fst gs" key x cmp] assms(1,2,4) by (force simp: groups_ok_def)
qed

section \<open>Removal\<close>

lemma group_del_follower:
  assumes ok: "groups_ok key m l (as @ (x, ys @ e # zs) # bs)"
  shows "groups_ok key m (list_del_init e l) (as @ (x, ys @ zs) # bs)" and "ring (list_del_init e l) e []"
proof -
  have x: "ring l x (ys @ e # zs)" by (rule groups_ok_group(1)[OF ok])
  have "ring (list_del_init e l) z us" if z: "(z, us) \<in> set (as @ bs)" "ring l z us" for z us
    using other_group[OF ok z(1)] by (intro list_del_init_other[OF x z(2)])
  then show "groups_ok key m (list_del_init e l) (as @ (x, ys @ zs) # bs)"
    using groups_ok_group[OF ok] list_del_init_ring(1)[OF x] by (intro groups_ok_mid[OF ok]) auto
  show "ring (list_del_init e l) e []" using list_del_init_ring(2)[OF x] .
qed

lemma keyed_del: "keyed key (xs @ x # ys) \<Longrightarrow> keyed key (xs @ ys)"
  by (auto simp: keyed_def sorted_wrt_append)

lemma group_del_single:
  assumes ok: "groups_ok key m l (as @ (x, []) # bs)"
  shows "\<exists>m'. rb_erase x m = Some m' \<and> groups_ok key m' l (as @ bs) \<and>
    (\<forall>y. y \<noteq> NULL \<longrightarrow> y \<notin> fst ` set (as @ (x, []) # bs) \<longrightarrow> RB_EMPTY_NODE m' y = RB_EMPTY_NODE m y)"
proof -
  have "rb_map m (map fst as @ x # map fst bs)" using ok by (simp add: groups_ok_def)
  from nm.repr_erase[OF this] obtain m' where m': "rb_erase x m = Some m'" "rb_map m' (map fst as @ map fst bs)"
      "\<forall>y. y \<noteq> NULL \<longrightarrow> y \<notin> set (map fst as @ x # map fst bs) \<longrightarrow> RB_EMPTY_NODE m' y = RB_EMPTY_NODE m y"
    by blast
  then have "groups_ok key m' l (as @ bs)" using ok keyed_del[of key "map fst as" x "map fst bs"] by (auto simp: groups_ok_def)
  then show ?thesis using m' by auto
qed

lemma group_del_leader:
  assumes ok: "groups_ok key m l (as @ (x, y # ys) # bs)"
  shows "\<exists>m'. rb_replace_node x y m = Some m' \<and> groups_ok key m' (list_del_init x l) (as @ (y, ys) # bs) \<and>
    (\<forall>z. z \<noteq> NULL \<longrightarrow> z \<notin> insert y (fst ` set (as @ (x, []) # bs)) \<longrightarrow> RB_EMPTY_NODE m' z = RB_EMPTY_NODE m z)"
    and "nxt l x = y" and "ring (list_del_init x l) x []"
proof -
  have x: "ring l x (y # ys)" by (rule groups_ok_group(1)[OF ok])
  then show "nxt l x = y" using ring_head[OF x] by simp
  have rot: "ring l y (ys @ [x])" using ring_rotate[of l x "[]" y ys] x by simp
  then have ry: "ring (list_del_init x l) y ys" using list_del_init_ring(1)[of l y ys x "[]"] by simp
  show "ring (list_del_init x l) x []" using list_del_init_ring(2)[of l y ys x "[]"] rot by simp
  have rings: "ring (list_del_init x l) z us" if z: "(z, us) \<in> set (as @ bs)" "ring l z us" for z us
    using other_group[OF ok z(1)] rot by (intro list_del_init_other[OF _ z(2), of y ys x "[]"]) auto
  note m = groups_ok_group(3)[OF ok]
  have "y \<noteq> NULL" "y \<notin> set (map fst as @ x # map fst bs)"
    using groups_ok_group(4,5)[OF ok] leaders_nodes[of as] leaders_nodes[of bs] by auto
  from nm.repr_replace[OF m this] obtain m' where m': "rb_replace_node x y m = Some m'" "rb_map m' (map fst as @ y # map fst bs)"
      "\<forall>z. z \<noteq> NULL \<longrightarrow> z \<notin> set (y # map fst as @ x # map fst bs) \<longrightarrow> RB_EMPTY_NODE m' z = RB_EMPTY_NODE m z"
    by blast
  have "groups_ok key m' (list_del_init x l) (as @ (y, ys) # bs)"
    using groups_ok_group[OF ok] m'(2) rings ry by (intro groups_ok_mid[OF ok]) auto
  then show "\<exists>m'. rb_replace_node x y m = Some m' \<and> groups_ok key m' (list_del_init x l) (as @ (y, ys) # bs) \<and>
    (\<forall>z. z \<noteq> NULL \<longrightarrow> z \<notin> insert y (fst ` set (as @ (x, []) # bs)) \<longrightarrow> RB_EMPTY_NODE m' z = RB_EMPTY_NODE m z)"
    using m'(1,3) by auto
qed

text \<open>The groups without one node: a leader is followed by its first follower.\<close>

fun group_del :: "addr \<Rightarrow> groups \<Rightarrow> groups" where
  "group_del e [] = []"
| "group_del e ((x, ys) # gs) =
     (if e = x then (case ys of [] \<Rightarrow> gs | y # zs \<Rightarrow> (y, zs) # gs)
      else if e \<in> set ys then (x, remove1 e ys) # gs
      else (x, ys) # group_del e gs)"

lemma group_del_skip: "e \<notin> set (group_nodes as) \<Longrightarrow> group_del e (as @ gs) = as @ group_del e gs"
  by (induction as) auto

lemma nodes_group_del: "group_nodes (group_del e gs) = remove1 e (group_nodes gs)"
proof (induction e gs rule: group_del.induct)
  case (2 e x ys gs)
  then show ?case by (cases ys) (auto simp: remove1_append)
qed simp

lemma group_split:
  assumes "e \<in> set (group_nodes gs)"
  obtains as x ys bs where "gs = as @ (x, ys) # bs" and "e \<in> set (x # ys)"
  using assms by (auto simp: group_nodes_def dest!: split_list)

end
