(* ===== verification/Timer.thy ===== *)
theory Timer
  imports Group_Map
begin

text \<open>
  Operators and their threads (\<^verbatim>\<open>base/AOperator.cpp\<close>, the branches for Linux): a pool of threads shares
  the tree of timers, the list of pending operators and the public list; every thread has a
  private list.  The state is the part the pool's mutex protects; a wakeup of a thread and a call of
  an operator's function are outputs.  Lists are rings in one heap of links, in which the entry of
  an operator is the node at its address.
\<close>

section \<open>State\<close>

type_synonym tick = "32 word"

definition INFINITE :: tick where "INFINITE = 0xFFFFFFFF"

record athread =
  waiting_tree :: rb_node
  links :: list_head
  ao_tick :: "addr \<Rightarrow> tick"
  ao_thread :: "addr \<Rightarrow> addr"
  thread_pool :: "addr \<Rightarrow> addr"
  private_list :: "addr \<Rightarrow> addr"
  public_list :: addr
  pending_list :: addr
  work_thread :: "addr list"
  bind_count :: "addr \<Rightarrow> int"
  ao_events :: "addr \<Rightarrow> 32 word"

datatype ao_output =
  Wakeup addr bool    \<comment> \<open>thread, through the public signal\<close>
| Done addr int       \<comment> \<open>operator, result\<close>

definition AOperatorTimewaitCompare :: "tick \<Rightarrow> tick \<Rightarrow> int" where
  "AOperatorTimewaitCompare t asop_tick = sint (t - asop_tick)"

definition thread_or_default :: "athread \<Rightarrow> addr \<Rightarrow> addr" where
  "thread_or_default s at = (if at = NULL then work_thread s ! 0 else at)"

definition pool_of :: "athread \<Rightarrow> addr \<Rightarrow> addr" where
  "pool_of s at = (if thread_pool s at \<noteq> NULL then thread_pool s at else at)"

definition set_tick :: "addr \<Rightarrow> tick \<Rightarrow> athread \<Rightarrow> athread" where
  "set_tick a t s = s\<lparr>ao_tick := (ao_tick s)(a := t)\<rparr>"

definition set_thread :: "addr \<Rightarrow> addr \<Rightarrow> athread \<Rightarrow> athread" where
  "set_thread a t s = s\<lparr>ao_thread := (ao_thread s)(a := t)\<rparr>"

definition set_links :: "(list_head \<Rightarrow> list_head) \<Rightarrow> athread \<Rightarrow> athread" where
  "set_links f s = s\<lparr>links := f (links s)\<rparr>"

text \<open>\<^verbatim>\<open>AOperator::timer\<close>.\<close>

definition AOperator_timer :: "addr \<Rightarrow> athread \<Rightarrow> athread" where
  "AOperator_timer a s =
     set_links (INIT_LIST_HEAD a) (set_tick a 0 (set_thread a NULL (s\<lparr>waiting_tree := RB_CLEAR_NODE a (waiting_tree s)\<rparr>)))"

section \<open>Posting\<close>

definition AThreadPost :: "addr \<Rightarrow> addr \<Rightarrow> athread \<Rightarrow> ao_output list \<times> athread" where
  "AThreadPost at asop s =
     (let at = thread_or_default s at;
          pool = pool_of s at
      in if asop = NULL then ([Wakeup pool True], s)
         else if ao_thread s asop = at
         then let was_empty = list_empty (links s) (private_list s at);
                  s = set_links (list_add_tail asop (private_list s at)) s
              in (if was_empty then [Wakeup at False] else [], s)
         else ([Wakeup pool True], set_links (list_add_tail asop (public_list s)) s))"

definition AOperatorPost :: "addr \<Rightarrow> addr \<Rightarrow> tick \<Rightarrow> bool \<Rightarrow> athread \<Rightarrow> (ao_output list \<times> athread) option" where
  "AOperatorPost asop at t wakeup s =
     (let s = set_thread asop NULL s
      in if t = 0 then Some (AThreadPost at asop s)
         else
           let at = thread_or_default s at;
               pool = pool_of s at
           in if t = INFINITE
              then Some ([], set_links (list_add_tail asop (pending_list s)) (set_tick asop t s))
              else
                let s = set_tick asop t (set_links (INIT_LIST_HEAD asop) s)
                in do {
                  (node, m) \<leftarrow> rb_insert (\<lambda>x. AOperatorTimewaitCompare t (ao_tick s x)) asop (waiting_tree s);
                  let s = s\<lparr>waiting_tree := m\<rparr>;
                  (t, s) \<leftarrow> (if node \<noteq> NULL
                    then Some (t, set_links (list_add_tail asop node) s)
                    else do {
                      first \<leftarrow> rb_first m;
                      Some (if asop = first then 0 else t, s)
                    });
                  Some (if t = 0 \<and> wakeup then [Wakeup pool True] else [], s)
                })"

text \<open>\<^verbatim>\<open>AOperator::delay\<close>: the time of expiry is never one of the two special values.\<close>

definition delay_tick :: "tick \<Rightarrow> tick \<Rightarrow> tick" where
  "delay_tick timeout now =
     (if timeout \<noteq> 0 \<and> timeout \<noteq> INFINITE
      then let t = timeout + now in if t = 0 \<or> t = INFINITE then t + 2 else t
      else timeout)"

definition AOperator_delay :: "addr \<Rightarrow> addr \<Rightarrow> tick \<Rightarrow> bool \<Rightarrow> tick \<Rightarrow> athread \<Rightarrow> (ao_output list \<times> athread) option" where
  "AOperator_delay asop at timeout wakeup now s = AOperatorPost asop at (delay_tick timeout now) wakeup s"

section \<open>Signalling\<close>

text \<open>\<open>signal_remove\<close> is the part under the mutex that takes the operator out of its list or tree.\<close>

definition signal_remove :: "addr \<Rightarrow> athread \<Rightarrow> (int \<times> athread) option" where
  "signal_remove asop s =
     (let t = ao_tick s asop;
          signal = (if t \<noteq> 0 then 1 else -1)
      in if t = INFINITE then Some (signal, set_links (list_del_init asop) (set_tick asop 0 s))
         else if t \<noteq> 0
         then do {
           node \<leftarrow> rb_find (\<lambda>x. AOperatorTimewaitCompare t (ao_tick s x)) (waiting_tree s) (rb_root (waiting_tree s));
           let s = set_tick asop 0 s;
           if node = NULL then Some (-1, s)
           else if asop \<noteq> node
           then Some (if list_empty (links s) asop then (-1, s)
                      else (signal, set_links (list_del_init asop) s))
           else if list_empty (links s) asop
           then do {
             m \<leftarrow> rb_erase asop (waiting_tree s);
             Some (signal, s\<lparr>waiting_tree := m\<rparr>)
           }
           else do {
             m \<leftarrow> rb_replace_node asop (nxt (links s) asop) (waiting_tree s);
             Some (signal, set_links (list_del_init asop) (s\<lparr>waiting_tree := m\<rparr>))
           }
         }
         else Some (signal, s))"

definition AOperatorSignal :: "addr \<Rightarrow> addr \<Rightarrow> bool \<Rightarrow> athread \<Rightarrow> (int \<times> ao_output list \<times> athread) option" where
  "AOperatorSignal asop at wakeup_or_cancel s =
     (let at = thread_or_default s at;
          pool = pool_of s at
      in do {
        (signal, s) \<leftarrow> signal_remove asop s;
        Some (if signal > 0 \<and> wakeup_or_cancel
          then if ao_thread s asop = at
               then let was_empty = list_empty (links s) (private_list s at)
                    in (0, if was_empty then [Wakeup at False] else [],
                        set_links (list_add_tail asop (private_list s at)) s)
               else (0, [Wakeup pool True], set_links (list_add_tail asop (public_list s)) s)
          else (signal, [], s))
      })"

section \<open>Expiry\<close>

text \<open>
  \<^verbatim>\<open>AThreadCheckTimewait\<close>: under the mutex, the loop over the tree moves the expired operators to a
  local list \<open>timeout\<close> and computes the time to wait; then one operator of the public list and all
  of the private list go to a second local list, and outside the mutex the functions are called.
  \<open>now\<close> is the clock.  The negation of the least 32-bit integer has no value in C.
\<close>

partial_function (option) move_followers :: "addr \<Rightarrow> addr \<Rightarrow> athread \<Rightarrow> athread option" where
  "move_followers asop timeout s =
     (if list_empty (links s) asop then Some s
      else let first = nxt (links s) asop;
               s = set_links (list_move_tail first timeout) (set_tick first 0 s)
           in move_followers asop timeout s)"

definition expire :: "addr \<Rightarrow> addr \<Rightarrow> athread \<Rightarrow> (addr \<times> athread) option" where
  "expire asop timeout s = do {
     s \<leftarrow> move_followers asop timeout s;
     let s = set_links (list_add_tail asop timeout) (set_tick asop 0 s);
     node \<leftarrow> rb_next (waiting_tree s) asop;
     m \<leftarrow> rb_erase asop (waiting_tree s);
     Some (node, s\<lparr>waiting_tree := RB_CLEAR_NODE asop m\<rparr>)
   }"

partial_function (option) timewait_loop ::
    "addr \<Rightarrow> tick \<Rightarrow> addr \<Rightarrow> addr \<Rightarrow> int \<Rightarrow> athread \<Rightarrow> (int \<times> athread) option" where
  "timewait_loop at now timeout asop max_timewait s =
     (if asop = NULL then Some (max_timewait, s)
      else let diff = AOperatorTimewaitCompare now (ao_tick s asop)
           in if diff < -1
              then if ao_thread s asop = NULL \<or> ao_thread s asop = at
                   then if diff = - (2 ^ 31) then None
                        else Some (if - diff < max_timewait then - diff else max_timewait, set_thread asop at s)
                   else do {
                     node \<leftarrow> rb_next (waiting_tree s) asop;
                     timewait_loop at now timeout node max_timewait s
                   }
              else do {
                (node, s) \<leftarrow> expire asop timeout s;
                timewait_loop at now timeout node max_timewait s
              })"

text \<open>Popping a local list and calling the function of every operator with \<open>result\<close>.\<close>

partial_function (option) drain :: "addr \<Rightarrow> int \<Rightarrow> ao_output list \<Rightarrow> athread \<Rightarrow> (ao_output list \<times> athread) option" where
  "drain head result outs s =
     (if list_empty (links s) head then Some (outs, s)
      else let (asop, l) = list_pop_front head (links s)
           in drain head result (outs @ [Done asop result]) (s\<lparr>links := l\<rparr>))"

text \<open>Moving one operator of the public list and all of the private list to \<open>working\<close>.\<close>

definition take_posted :: "addr \<Rightarrow> addr \<Rightarrow> athread \<Rightarrow> athread" where
  "take_posted at working s =
     (let s = (if \<not> list_empty (links s) (public_list s)
               then set_links (list_move_tail (nxt (links s) (public_list s)) working) s else s)
      in set_links (list_splice_init (private_list s at) working) s)"

definition AThreadCheckTimewait ::
    "addr \<Rightarrow> tick \<Rightarrow> int \<Rightarrow> addr \<Rightarrow> addr \<Rightarrow> athread \<Rightarrow> (int \<times> ao_output list \<times> athread) option" where
  "AThreadCheckTimewait at now at_max_timewait timeout working s = do {
     let s = set_links (\<lambda>l. INIT_LIST_HEAD working (INIT_LIST_HEAD timeout l)) s;
     node \<leftarrow> rb_first (waiting_tree s);
     (max_timewait, s) \<leftarrow> timewait_loop at now timeout node at_max_timewait s;
     let s = take_posted at working s;
     (outs, s) \<leftarrow> drain timeout 0 [] s;
     (outs, s) \<leftarrow> drain working 1 outs s;
     Some (max_timewait, outs, s)
   }"

text \<open>One turn of \<^verbatim>\<open>AThreadRun\<close>: how long the thread waits for events, if it does.\<close>

definition run_wait :: "int \<Rightarrow> tick \<Rightarrow> tick \<Rightarrow> int" where
  "run_wait max_timewait cur_timetick new_timetick = sint (word_of_int max_timewait - (new_timetick - cur_timetick))"

section \<open>Termination of a thread\<close>

text \<open>
  \<^verbatim>\<open>AThreadEnd\<close> after the thread was joined: every operator that is still registered is called with
  \<^verbatim>\<open>-EINTR\<close>.  A thread that is not a pool only has its private list.
\<close>

partial_function (option) end_tree :: "addr \<Rightarrow> ao_output list \<Rightarrow> athread \<Rightarrow> (ao_output list \<times> athread) option" where
  "end_tree asop outs s =
     (if asop = NULL then Some (outs, s)
      else do {
        (outs, s) \<leftarrow> drain asop (- EINTR) outs s;
        node \<leftarrow> rb_next (waiting_tree s) asop;
        m \<leftarrow> rb_erase asop (waiting_tree s);
        end_tree node (outs @ [Done asop (- EINTR)]) (s\<lparr>waiting_tree := m\<rparr>)
      })"

definition AThreadEnd :: "addr \<Rightarrow> athread \<Rightarrow> (ao_output list \<times> athread) option" where
  "AThreadEnd at s = do {
     (outs, s) \<leftarrow> drain (private_list s at) (- EINTR) [] s;
     if thread_pool s at \<noteq> NULL then Some (outs, s)
     else do {
       let s = set_links (list_splice_init (public_list s) (pending_list s)) s;
       node \<leftarrow> rb_first (waiting_tree s);
       (outs, s) \<leftarrow> end_tree node outs s;
       drain (pending_list s) (- EINTR) outs s
     }
   }"

section \<open>Binding\<close>

text \<open>\<open>epoll at op fd\<close> is the result of \<^verbatim>\<open>epoll_ctl\<close>.\<close>

datatype epoll_op = EPOLL_CTL_ADD | EPOLL_CTL_DEL | EPOLL_CTL_MOD

definition least_bound :: "athread \<Rightarrow> addr" where
  "least_bound s = fold (\<lambda>t at. if bind_count s t < bind_count s at then t else at)
     (drop 1 (work_thread s)) (work_thread s ! 0)"

definition AThreadBind ::
    "addr \<Rightarrow> addr \<Rightarrow> 32 word \<Rightarrow> (addr \<Rightarrow> epoll_op \<Rightarrow> addr \<Rightarrow> int) \<Rightarrow> athread \<Rightarrow> int \<times> athread" where
  "AThreadBind at asop event epoll s =
     (if event = 0 \<and> ao_events s asop = 0 then (-1, s)
      else
        let (op, at, s) =
              (if event = 0 then (EPOLL_CTL_DEL, ao_thread s asop, s)
               else if ao_events s asop \<noteq> 0 then (EPOLL_CTL_MOD, ao_thread s asop, s)
               else let at = (if at = NULL then least_bound s else at) in (EPOLL_CTL_ADD, at, set_thread asop at s));
            s = s\<lparr>ao_events := (ao_events s)(asop := event)\<rparr>;
            result = epoll at op asop
        in (result,
            if result = 0
            then (case op of
                EPOLL_CTL_ADD \<Rightarrow> s\<lparr>bind_count := (bind_count s)(at := bind_count s at + 1)\<rparr>
              | EPOLL_CTL_DEL \<Rightarrow> s\<lparr>bind_count := (bind_count s)(at := bind_count s at - 1)\<rparr>
              | EPOLL_CTL_MOD \<Rightarrow> s)
            else s))"

end
