(* ===== verification/Timer_Expiry.thy ===== *)
theory Timer_Expiry
  imports Timer List_Frame
begin

text \<open>
  Correctness of the timers: the invariant of a pool as one of its threads sees it, and the check
  for expired operators.
\<close>

section \<open>Clock values\<close>

text \<open>
  Times are compared by the sign of a wrapping difference.  This is an order as long as all times
  are within half the range of the clock above some base; \<open>tick_key\<close> is the distance from the base.
\<close>

definition tick_key :: "tick \<Rightarrow> athread \<Rightarrow> addr \<Rightarrow> nat" where
  "tick_key base s a = unat (ao_tick s a - base)"

lemma sint_small_diff:
  fixes x y :: tick
  assumes "unat x < 2 ^ 31" and "unat y < 2 ^ 31"
  shows "sint (x - y) = int (unat x) - int (unat y)"
proof -
  have "int (unat x) < int (2 ^ 31)" "int (unat y) < int (2 ^ 31)"
    using assms by (simp_all only: of_nat_less_iff)
  then have "uint x < 2 ^ 31" "uint y < 2 ^ 31" by simp_all
  moreover have "uint x \<ge> 0" "uint y \<ge> 0" by simp_all
  ultimately have k: "- (2 ^ 31) \<le> uint x - uint y" "uint x - uint y < 2 ^ 31" by linarith+
  have "sint (x - y) = signed_take_bit 31 (uint x - uint y)"
    unfolding word_sub_wi by (subst sint_sbintrunc') simp
  also have "\<dots> = uint x - uint y" using k by (rule signed_take_bit_int_eq_self)
  finally show ?thesis by simp
qed

lemma timewait_compare:
  assumes "unat (t - base) < 2 ^ 31" and "unat (u - base) < 2 ^ 31"
  shows "AOperatorTimewaitCompare t u = int (unat (t - base)) - int (unat (u - base))"
  using sint_small_diff[OF assms] by (simp add: AOperatorTimewaitCompare_def)

lemma timewait_sound:
  assumes "unat (t - base) < 2 ^ 31" and "tick_key base s x < 2 ^ 31"
  shows "cmp_sound (AOperatorTimewaitCompare t (ao_tick s x)) (unat (t - base)) (tick_key base s x)"
  using timewait_compare[OF assms(1), of "ao_tick s x"] assms(2) unfolding cmp_sound_def tick_key_def by linarith

section \<open>Lists of operators\<close>

lemma drain_ring:
  "ring (links s) h xs \<Longrightarrow> \<exists>l. drain h r outs s = Some (outs @ map (\<lambda>a. Done a r) xs, s\<lparr>links := l\<rparr>) \<and>
     ring l h [] \<and> (\<forall>x \<in> set xs. ring l x []) \<and> agree_off (set (h # xs)) (links s) l"
proof (induction xs arbitrary: s outs)
  case Nil
  then show ?case by (subst drain.simps) (auto simp: ring_empty_iff intro: exI[of _ "links s"])
next
  case (Cons x xs)
  note r = Cons.prems
  have ne: "\<not> list_empty (links s) h" using ring_empty_iff[OF r] by simp
  note pop = list_pop_front_ring[OF r]
  define l1 where "l1 = snd (list_pop_front h (links s))"
  have l1: "ring l1 h xs" "ring l1 x []" using pop by (simp_all add: l1_def)
  have ag1: "agree_off (set (h # x # xs)) (links s) l1"
    using agree_del_init[of "links s" h "[]" x xs] r pop(1) by (simp add: l1_def list_pop_front_def Let_def)
  have pf: "list_pop_front h (links s) = (x, l1)" using pop(1) by (simp add: l1_def prod_eq_iff)
  obtain l where l: "drain h r (outs @ [Done x r]) (s\<lparr>links := l1\<rparr>) =
        Some ((outs @ [Done x r]) @ map (\<lambda>a. Done a r) xs, s\<lparr>links := l1\<rparr>\<lparr>links := l\<rparr>)"
      "ring l h []" "\<forall>y \<in> set xs. ring l y []" "agree_off (set (h # xs)) l1 l"
    using Cons.IH[of "s\<lparr>links := l1\<rparr>" "outs @ [Done x r]"] l1(1) by auto
  have "ring l x []" using ring_agree[OF l(4), of x "[]"] l1(2) ring_distinct[OF r] by auto
  moreover have "agree_off (set (h # x # xs)) (links s) l"
    by (rule agree_off_trans[OF ag1 agree_off_mono[OF l(4)]]) auto
  ultimately show ?case using l ne pf by (subst drain.simps) (auto intro: exI[of _ l])
qed

lemma move_followers_ring:
  "ring (links s) x ys \<Longrightarrow> ring (links s) T ts \<Longrightarrow> set (x # ys) \<inter> set (T # ts) = {} \<Longrightarrow>
     \<exists>l. move_followers x T s = Some (s\<lparr>links := l, ao_tick := (\<lambda>a. if a \<in> set ys then 0 else ao_tick s a)\<rparr>) \<and>
     ring l x [] \<and> ring l T (ts @ ys) \<and> agree_off (set (x # ys @ T # ts)) (links s) l"
proof (induction ys arbitrary: s ts)
  case Nil
  then show ?case by (subst move_followers.simps) (auto simp: ring_empty_iff intro!: exI[of _ "links s"])
next
  case (Cons y ys)
  note r = Cons.prems(1)
  have ne: "\<not> list_empty (links s) x" "nxt (links s) x = y" using ring_empty_iff[OF r] ring_head[OF r] by simp_all
  define l1 where "l1 = list_move_tail y T (links s)"
  have mv: "ring l1 x ys" "ring l1 T (ts @ [y])" "agree_off (set (x # y # ys @ T # ts)) (links s) l1"
    using list_move_tail_rings[of "links s" x "[]" y ys T ts] Cons.prems by (simp_all add: l1_def)
  define s1 where "s1 = set_links (list_move_tail y T) (set_tick y 0 s)"
  have s1: "links s1 = l1" "s1 = s\<lparr>links := l1, ao_tick := (ao_tick s)(y := 0)\<rparr>"
    by (simp_all add: s1_def l1_def set_links_def set_tick_def)
  have y: "y \<notin> set ys" "y \<noteq> x" "x \<notin> set ys" using ring_distinct[OF r] by auto
  obtain l where l: "move_followers x T s1 = Some (s1\<lparr>links := l, ao_tick := (\<lambda>a. if a \<in> set ys then 0 else ao_tick s1 a)\<rparr>)"
      "ring l x []" "ring l T (ts @ y # ys)" "agree_off (set (x # ys @ T # ts @ [y])) l1 l"
    using Cons.IH[of s1 "ts @ [y]"] mv s1(1) Cons.prems(3) y by auto
  have ticks: "(\<lambda>a. if a \<in> set ys then 0 else ao_tick s1 a) = (\<lambda>a. if a \<in> set (y # ys) then 0 else ao_tick s a)"
    by (auto simp: s1(2))
  have "agree_off (set (x # (y # ys) @ T # ts)) (links s) l"
    by (rule agree_off_trans[OF agree_off_mono[OF mv(3)] agree_off_mono[OF l(4)]]) auto
  moreover have "move_followers x T s = move_followers x T s1"
    using ne by (subst move_followers.simps) (simp add: s1_def Let_def)
  ultimately show ?case using l unfolding ticks by (intro exI[of _ l]) (simp add: s1(2))
qed

section \<open>The loop over the tree\<close>

lemma expire_group:
  assumes ok: "groups_ok k (waiting_tree s) (links s) ((x, ys) # gs)" and T: "ring (links s) T ts"
    and dis: "set (T # ts) \<inter> set (group_nodes ((x, ys) # gs)) = {}"
  shows "\<exists>m l. expire x T s = Some (hd_node (map fst gs),
      s\<lparr>waiting_tree := m, links := l, ao_tick := (\<lambda>a. if a \<in> set (x # ys) then 0 else ao_tick s a)\<rparr>) \<and>
    groups_ok k m l gs \<and> ring l T (ts @ ys @ [x]) \<and> agree_off (set (x # ys @ T # ts)) (links s) l"
proof -
  have ok0: "groups_ok k (waiting_tree s) (links s) ([] @ (x, ys) # gs)" using ok by simp
  note g = groups_ok_group[OF ok0]
  have d: "x \<notin> set (ys @ group_nodes gs)" "set ys \<inter> set (group_nodes gs) = {}" using g(4) by auto
  have away: "set (group_nodes gs) \<inter> set (x # ys @ T # ts) = {}" using d dis by auto
  obtain l1 where l1: "move_followers x T s = Some (s\<lparr>links := l1, ao_tick := (\<lambda>a. if a \<in> set ys then 0 else ao_tick s a)\<rparr>)"
      "ring l1 x []" "ring l1 T (ts @ ys)" "agree_off (set (x # ys @ T # ts)) (links s) l1"
    using move_followers_ring[OF g(1) T] dis by auto
  have rings: "ring l1 z zs" if z: "(z, zs) \<in> set ([] @ gs)" "ring (links s) z zs" for z zs
  proof -
    have "set (z # zs) \<subseteq> set (group_nodes gs)" using group_subset[of z zs gs] z(1) by simp
    then have "set (z # zs) \<inter> set (x # ys @ T # ts) = {}" using away by blast
    then show ?thesis using ring_agree[OF l1(4)] z(2) by blast
  qed
  have ok1: "groups_ok k (waiting_tree s) l1 ([] @ (x, []) # gs)"
  proof (rule groups_ok_mid[OF ok0])
    show "rb_map (waiting_tree s) (map fst ([] :: groups) @ x # map fst gs)" by (rule g(3))
    show "distinct (group_nodes ([] @ (x, []) # gs))" "NULL \<notin> set [x]" using g(4,5) by auto
    show "ring l1 x []" by (rule l1(2))
  qed (simp_all add: rings)
  obtain m1 where m1: "rb_erase x (waiting_tree s) = Some m1" "groups_ok k m1 l1 gs"
    using group_del_single[OF ok1] by auto
  define l2 where "l2 = list_add_tail x T l1"
  have xT: "x \<notin> set (T # ts @ ys)" using d dis by auto
  have l2: "ring l2 T (ts @ ys @ [x])" "agree_off (set (x # T # ts @ ys)) l1 l2"
    using list_add_tail_ring[OF l1(3) xT] agree_add_tail[OF l1(3), of x] by (simp_all add: l2_def)
  have "groups_ok k m1 l2 gs" by (rule groups_ok_links[OF m1(2) l2(2)]) (use d dis in auto)
  then have ok2: "groups_ok k (RB_CLEAR_NODE x m1) l2 gs"
    using nm.repr_clear[of m1 "map fst gs" x] leaders_nodes[of gs] d(1) by (auto simp: groups_ok_def)
  have nxt: "rb_next (waiting_tree s) x = Some (hd_node (map fst gs))" using nm.repr_next[of _ "[]"] g(3) by simp
  have "agree_off (set (x # ys @ T # ts)) (links s) l2"
    by (rule agree_off_trans[OF l1(4) agree_off_mono[OF l2(2)]]) auto
  moreover have "(\<lambda>a. if a \<in> set ys then 0 else ao_tick s a)(x := 0) = (\<lambda>a. if a \<in> set (x # ys) then 0 else ao_tick s a)"
    by auto
  ultimately show ?thesis using ok2 l1(1) l2(1) m1(1) nxt
    by (intro exI[of _ "RB_CLEAR_NODE x m1"] exI[of _ l2])
      (simp add: expire_def set_links_def set_tick_def Let_def l2_def[symmetric])
qed

lemma timewait_loop_due:
  assumes "groups_ok k (waiting_tree s) (links s) (due @ rest)" and "ring (links s) T ts"
    and "set (T # ts) \<inter> set (group_nodes (due @ rest)) = {}"
    and "\<And>x. x \<in> fst ` set due \<Longrightarrow> AOperatorTimewaitCompare now (ao_tick s x) \<ge> -1"
  shows "\<exists>m l. timewait_loop at now T (hd_node (map fst (due @ rest))) mx s = timewait_loop at now T (hd_node (map fst rest)) mx
      (s\<lparr>waiting_tree := m, links := l, ao_tick := (\<lambda>a. if a \<in> set (group_nodes due) then 0 else ao_tick s a)\<rparr>) \<and>
    groups_ok k m l rest \<and> ring l T (ts @ fired due) \<and> agree_off (set (group_nodes due @ T # ts)) (links s) l"
  using assms
proof (induction due arbitrary: s ts)
  case Nil
  then show ?case by (intro exI[of _ "waiting_tree s"] exI[of _ "links s"]) auto
next
  case (Cons g due)
  obtain x ys where g: "g = (x, ys)" by (cases g)
  note prems = Cons.prems[unfolded g]
  have ok: "groups_ok k (waiting_tree s) (links s) ((x, ys) # (due @ rest))" using prems(1) by simp
  have x: "x \<noteq> NULL" using ok by (auto simp: groups_ok_def)
  obtain m1 l1 where e: "expire x T s = Some (hd_node (map fst (due @ rest)),
        s\<lparr>waiting_tree := m1, links := l1, ao_tick := (\<lambda>a. if a \<in> set (x # ys) then 0 else ao_tick s a)\<rparr>)"
      "groups_ok k m1 l1 (due @ rest)" "ring l1 T (ts @ ys @ [x])" "agree_off (set (x # ys @ T # ts)) (links s) l1"
    using expire_group[OF ok prems(2)] prems(3) by auto
  define s1 where "s1 = s\<lparr>waiting_tree := m1, links := l1, ao_tick := (\<lambda>a. if a \<in> set (x # ys) then 0 else ao_tick s a)\<rparr>"
  have d: "set (x # ys) \<inter> set (group_nodes (due @ rest)) = {}" using ok by (auto simp: groups_ok_def)
  have "\<not> AOperatorTimewaitCompare now (ao_tick s x) < -1" using prems(4)[of x] by simp
  then have step: "timewait_loop at now T (hd_node (map fst ((x, ys) # due @ rest))) mx s =
      timewait_loop at now T (hd_node (map fst (due @ rest))) mx s1"
    using x e(1) by (subst timewait_loop.simps) (simp add: s1_def)
  have tick: "ao_tick s1 a = ao_tick s a" if "a \<in> set (group_nodes due)" for a
    using d that by (auto simp: s1_def)
  have dis1: "set (T # ts @ ys @ [x]) \<inter> set (group_nodes (due @ rest)) = {}" using prems(3) d by auto
  have cmp1: "AOperatorTimewaitCompare now (ao_tick s1 a) \<ge> -1" if a: "a \<in> fst ` set due" for a
    using prems(4)[of a] tick[of a] a leaders_nodes[of due] by auto
  have s1: "waiting_tree s1 = m1" "links s1 = l1" by (simp_all add: s1_def)
  obtain m l where ml: "timewait_loop at now T (hd_node (map fst (due @ rest))) mx s1 = timewait_loop at now T (hd_node (map fst rest)) mx
        (s1\<lparr>waiting_tree := m, links := l, ao_tick := (\<lambda>a. if a \<in> set (group_nodes due) then 0 else ao_tick s1 a)\<rparr>)"
      "groups_ok k m l rest" "ring l T ((ts @ ys @ [x]) @ fired due)"
      "agree_off (set (group_nodes due @ T # ts @ ys @ [x])) l1 l"
    using Cons.IH[of s1 "ts @ ys @ [x]", unfolded s1, OF e(2,3) dis1 cmp1] by blast
  have "(\<lambda>a. if a \<in> set (group_nodes due) then 0 else ao_tick s1 a) =
      (\<lambda>a. if a \<in> set (group_nodes (g # due)) then 0 else ao_tick s a)"
    by (auto simp: s1_def g)
  moreover have "agree_off (set (group_nodes (g # due) @ T # ts)) (links s) l"
    by (rule agree_off_trans[OF agree_off_mono[OF e(4)] agree_off_mono[OF ml(4)]]) (auto simp: g)
  ultimately show ?case using ml(1-3) step unfolding g by (intro exI[of _ m] exI[of _ l]) (simp add: s1_def)
qed

lemma timewait_loop_rest:
  assumes "rb_map (waiting_tree s) (map fst (as @ bs))"
    and "\<And>x. x \<in> fst ` set bs \<Longrightarrow> AOperatorTimewaitCompare now (ao_tick s x) < -1 \<and>
      AOperatorTimewaitCompare now (ao_tick s x) \<noteq> - (2 ^ 31)"
  shows "timewait_loop at now T (hd_node (map fst bs)) mx s =
    (case find (\<lambda>x. ao_thread s x = NULL \<or> ao_thread s x = at) (map fst bs) of
       None \<Rightarrow> Some (mx, s)
     | Some x \<Rightarrow> Some (min mx (- AOperatorTimewaitCompare now (ao_tick s x)), set_thread x at s))"
  using assms
proof (induction bs arbitrary: as)
  case Nil
  then show ?case by (subst timewait_loop.simps) simp
next
  case (Cons b bs)
  obtain x ys where b: "b = (x, ys)" by (cases b)
  have r: "rb_map (waiting_tree s) (map fst as @ x # map fst bs)" using Cons.prems(1) b by simp
  have x: "x \<noteq> NULL" using nm.repr_nodes[OF r] by auto
  note c = Cons.prems(2)[of x, unfolded b]
  show ?case
  proof (cases "ao_thread s x = NULL \<or> ao_thread s x = at")
    case True
    then show ?thesis using x c b by (subst timewait_loop.simps) (auto simp: min_def Let_def)
  next
    case False
    have "timewait_loop at now T (hd_node (map fst (b # bs))) mx s = timewait_loop at now T (hd_node (map fst bs)) mx s"
      using False x c b nm.repr_next[OF r] by (subst timewait_loop.simps) simp
    also have "\<dots> = (case find (\<lambda>x. ao_thread s x = NULL \<or> ao_thread s x = at) (map fst bs) of
       None \<Rightarrow> Some (mx, s)
     | Some x \<Rightarrow> Some (min mx (- AOperatorTimewaitCompare now (ao_tick s x)), set_thread x at s))"
      by (rule Cons.IH[of "as @ [b]"]) (use Cons.prems in auto)
    finally show ?thesis using False b by simp
  qed
qed

section \<open>The posted operators\<close>

lemma take_posted_rings:
  assumes W: "ring (links s) W []" and P: "ring (links s) (public_list s) pu" and V: "ring (links s) (private_list s at) pv"
    and d: "distinct (W # public_list s # pu @ private_list s at # pv)"
  shows "\<exists>l. take_posted at W s = s\<lparr>links := l\<rparr> \<and> ring l W (pv @ take 1 pu) \<and> ring l (public_list s) (drop 1 pu) \<and>
    ring l (private_list s at) [] \<and> agree_off (set (W # public_list s # pu @ private_list s at # pv)) (links s) l"
proof -
  obtain l1 where l1: "(if \<not> list_empty (links s) (public_list s)
        then set_links (list_move_tail (nxt (links s) (public_list s)) W) s else s) = s\<lparr>links := l1\<rparr>"
      "ring l1 W (take 1 pu)" "ring l1 (public_list s) (drop 1 pu)"
      "agree_off (set (W # public_list s # pu)) (links s) l1"
  proof (cases pu)
    case Nil
    then show ?thesis using that[of "links s"] W P ring_empty_iff[OF P] by simp
  next
    case (Cons p ps)
    have "nxt (links s) (public_list s) = p" "\<not> list_empty (links s) (public_list s)"
      using ring_head[OF P] ring_empty_iff[OF P] Cons by simp_all
    then show ?thesis
      using that[of "list_move_tail p W (links s)"] list_move_tail_rings[of "links s" "public_list s" "[]" p ps W "[]"] P W d Cons
      by (auto simp: set_links_def intro: agree_off_mono)
  qed
  define l2 where "l2 = list_splice_init (private_list s at) W l1"
  have V1: "ring l1 (private_list s at) pv" using ring_agree[OF l1(4)] V d by auto
  have dis: "set (private_list s at # pv) \<inter> set (W # take 1 pu) = {}" using d by (auto dest: in_set_takeD)
  have l2: "ring l2 W (pv @ take 1 pu)" "ring l2 (private_list s at) []"
    using list_splice_init_ring(1,2)[OF V1 l1(2) dis] by (simp_all add: l2_def)
  have ag: "agree_off (set (private_list s at # pv @ W # take 1 pu)) l1 l2"
    using list_splice_init_agree[OF V1 l1(2)] by (simp add: l2_def)
  have "set (public_list s # drop 1 pu) \<inter> set (private_list s at # pv @ W # take 1 pu) = {}"
    using d ring_distinct[OF P] by (cases pu) auto
  then have "ring l2 (public_list s) (drop 1 pu)" using ring_agree[OF ag] l1(3) by blast
  moreover have "agree_off (set (W # public_list s # pu @ private_list s at # pv)) (links s) l2"
    by (rule agree_off_trans[OF agree_off_mono[OF l1(4)] agree_off_mono[OF ag]]) (auto dest: in_set_takeD)
  moreover have "take_posted at W s = s\<lparr>links := l2\<rparr>"
    unfolding take_posted_def l1(1) Let_def by (simp add: set_links_def l2_def)
  ultimately show ?thesis using l2 by blast
qed

section \<open>The invariant of a pool\<close>

text \<open>
  \<open>timers_ok base at s gs ps pu pv\<close>: the tree of timers holds the groups \<open>gs\<close> of operators with the
  same time, all within half the clock's range above \<open>base\<close>; the pending operators are \<open>ps\<close>, those of
  the public list \<open>pu\<close> and those of the private list of thread \<open>at\<close> are \<open>pv\<close>.
\<close>

definition timers_ok :: "tick \<Rightarrow> addr \<Rightarrow> athread \<Rightarrow> groups \<Rightarrow> addr list \<Rightarrow> addr list \<Rightarrow> addr list \<Rightarrow> bool" where
  "timers_ok base at s gs ps pu pv = (at \<noteq> NULL \<and>
     groups_ok (tick_key base s) (waiting_tree s) (links s) gs \<and>
     (\<forall>a \<in> set (group_nodes gs). tick_key base s a < 2 ^ 31 \<and> ao_tick s a \<noteq> 0 \<and> ao_tick s a \<noteq> INFINITE) \<and>
     ring (links s) (pending_list s) ps \<and> ring (links s) (public_list s) pu \<and> ring (links s) (private_list s at) pv \<and>
     distinct (group_nodes gs @ pending_list s # ps @ public_list s # pu @ private_list s at # pv) \<and>
     (\<forall>a \<in> set ps. ao_tick s a = INFINITE) \<and> (\<forall>a \<in> set (pu @ pv). ao_tick s a = 0))"

lemma timers_okD:
  assumes "timers_ok base at s gs ps pu pv"
  shows "groups_ok (tick_key base s) (waiting_tree s) (links s) gs"
    and "\<And>a. a \<in> set (group_nodes gs) \<Longrightarrow> tick_key base s a < 2 ^ 31 \<and> ao_tick s a \<noteq> 0 \<and> ao_tick s a \<noteq> INFINITE"
    and "ring (links s) (pending_list s) ps" and "ring (links s) (public_list s) pu"
    and "ring (links s) (private_list s at) pv"
    and "distinct (group_nodes gs @ pending_list s # ps @ public_list s # pu @ private_list s at # pv)"
    and "\<And>a. a \<in> set ps \<Longrightarrow> ao_tick s a = INFINITE" and "\<And>a. a \<in> set pu \<union> set pv \<Longrightarrow> ao_tick s a = 0"
    and "at \<noteq> NULL"
  using assms by (auto simp: timers_ok_def)

lemma keyed_groups_split:
  assumes "keyed key (map fst gs)"
  shows "gs = filter (\<lambda>g. key (fst g) \<le> c) gs @ filter (\<lambda>g. \<not> key (fst g) \<le> c) gs"
  using assms
proof (induction gs)
  case (Cons g gs)
  have gs: "\<forall>h \<in> set gs. key (fst g) < key (fst h)" "keyed key (map fst gs)" using Cons.prems by (auto simp: keyed_def)
  show ?case
  proof (cases "key (fst g) \<le> c")
    case True
    then show ?thesis using Cons.IH[OF gs(2)] by simp
  next
    case False
    then have "\<forall>h \<in> set gs. \<not> key (fst h) \<le> c" using gs(1) by auto
    then show ?thesis using False by (auto simp: filter_empty_conv filter_id_conv)
  qed
qed simp

end
