(* ===== verification/Timer_Check.thy ===== *)
theory Timer_Check
  imports Timer_Expiry
begin

text \<open>
  The properties of the timers: what a check of the expired operators calls and leaves, what
  posting and signalling do to the registered operators, and which times \<^verbatim>\<open>delay\<close> registers.
\<close>

text \<open>Disjointness of parts of a list without duplicates.\<close>

lemmas apart = Int_Un_distrib Int_Un_distrib2 Int_commute

section \<open>Checking for expired operators\<close>

definition next_wait :: "tick \<Rightarrow> addr \<Rightarrow> tick \<Rightarrow> athread \<Rightarrow> int \<Rightarrow> groups \<Rightarrow> int" where
  "next_wait base at now s max_timewait rest =
     (case find (\<lambda>x. ao_thread s x = NULL \<or> ao_thread s x = at) (map fst rest) of
        None \<Rightarrow> max_timewait
      | Some x \<Rightarrow> min max_timewait (int (tick_key base s x) - int (unat (now - base))))"

lemma timer_check_run:
  assumes inv: "timers_ok base at s gs ps pu pv" and now: "unat (now - base) < 2 ^ 31"
    and TW: "T \<noteq> W" "{T, W} \<inter> set (group_nodes gs @ pending_list s # ps @ public_list s # pu @ private_list s at # pv) = {}"
    and due: "due = filter (\<lambda>g. tick_key base s (fst g) \<le> unat (now - base) + 1) gs"
    and rest: "rest = filter (\<lambda>g. \<not> tick_key base s (fst g) \<le> unat (now - base) + 1) gs"
  shows "\<exists>s'. AThreadCheckTimewait at now mx T W s = Some (next_wait base at now s mx rest,
      map (\<lambda>a. Done a 0) (fired due) @ map (\<lambda>a. Done a 1) (pv @ take 1 pu), s') \<and>
    timers_ok base at s' rest ps (drop 1 pu) [] \<and>
    (\<forall>a \<in> set (fired due @ pv @ take 1 pu). ao_tick s' a = 0 \<and> ring (links s') a [])"
proof -
  note i = timers_okD[OF inv]
  define n where "n = unat (now - base)"
  define k where "k = tick_key base s"
  note due = due[folded k_def n_def] and rest = rest[folded k_def n_def]
  have gs: "gs = due @ rest" unfolding due rest
    by (rule keyed_groups_split) (use i(1) in \<open>simp add: groups_ok_def k_def\<close>)
  have cmp: "AOperatorTimewaitCompare now (ao_tick s x) = int n - int (k x)" if "x \<in> set (group_nodes gs)" for x
    unfolding n_def k_def tick_key_def
    by (rule timewait_compare[OF now]) (use i(2)[OF that] in \<open>simp add: tick_key_def\<close>)
  have due_cmp: "AOperatorTimewaitCompare now (ao_tick s x) \<ge> -1" if "x \<in> fst ` set due" for x
    using that cmp[of x] leaders_nodes[of gs] by (auto simp: due)
  have rest_cmp: "AOperatorTimewaitCompare now (ao_tick s x) = int n - int (k x) \<and> n + 1 < k x \<and> k x < 2 ^ 31"
    if "x \<in> fst ` set rest" for x
  proof -
    have "x \<in> set (group_nodes gs)" "\<not> k x \<le> n + 1" using that leaders_nodes[of gs] by (auto simp: rest)
    then show ?thesis using cmp i(2) by (auto simp: k_def)
  qed
  let ?P = "public_list s" and ?V = "private_list s at" and ?Q = "pending_list s"
  have dist: "distinct (group_nodes due @ group_nodes rest @ T # W # ?Q # ps @ ?P # pu @ ?V # pv)"
    using i(6) TW by (auto simp: gs)
  obtain p1 p2 where p: "take 1 pu = p1" "drop 1 pu = p2" "pu = p1 @ p2" by (metis append_take_drop_id)
  note dist' = dist[unfolded p(3)]
  \<comment> \<open>the two local lists\<close>
  define l0 where "l0 = INIT_LIST_HEAD W (INIT_LIST_HEAD T (links s))"
  define s0 where "s0 = set_links (\<lambda>l. INIT_LIST_HEAD W (INIT_LIST_HEAD T l)) s"
  have s0: "s0 = s\<lparr>links := l0\<rparr>" by (simp add: s0_def l0_def set_links_def)
  have ag0: "agree_off {T, W} (links s) l0"
    unfolding l0_def by (rule agree_off_trans[OF agree_off_mono[OF agree_init] agree_off_mono[OF agree_init]]) auto
  have r0: "ring l0 T []" "ring l0 W []"
    using TW(1) by (auto simp: l0_def INIT_LIST_HEAD_ring ring_INIT_other)
  have ok0: "groups_ok k (waiting_tree s0) (links s0) (due @ rest)"
    using groups_ok_links[OF i(1) ag0] TW(2) by (auto simp: s0 gs k_def)
  have keep0: "ring l0 b zs" if "ring (links s) b zs" "T \<notin> set (b # zs)" "W \<notin> set (b # zs)" for b zs
    using ring_agree[OF ag0, of b zs] that by auto
  have lists0: "ring l0 ?Q ps" "ring l0 ?P pu" "ring l0 ?V pv" using keep0 i(3-5) dist by auto
  \<comment> \<open>the loop\<close>
  obtain m l1 where due_run: "timewait_loop at now T (hd_node (map fst (due @ rest))) mx s0 =
        timewait_loop at now T (hd_node (map fst rest)) mx
          (s0\<lparr>waiting_tree := m, links := l1, ao_tick := (\<lambda>a. if a \<in> set (group_nodes due) then 0 else ao_tick s0 a)\<rparr>)"
      and ok1: "groups_ok k m l1 rest" and T1: "ring l1 T (fired due)"
      and ag1: "agree_off (set (group_nodes due @ [T])) l0 l1"
    using timewait_loop_due[OF ok0, of T "[]" now at mx] r0 dist due_cmp by (auto simp: s0)
  define s1 where "s1 = s0\<lparr>waiting_tree := m, links := l1, ao_tick := (\<lambda>a. if a \<in> set (group_nodes due) then 0 else ao_tick s0 a)\<rparr>"
  have tick1: "ao_tick s1 a = (if a \<in> set (group_nodes due) then 0 else ao_tick s a)" for a by (simp add: s1_def s0)
  have rest1: "x \<in> fst ` set rest \<Longrightarrow> ao_tick s1 x = ao_tick s x" for x
    using dist leaders_nodes[of rest] by (auto simp: tick1)
  obtain th where loop: "timewait_loop at now T (hd_node (map fst gs)) mx s0 =
      Some (next_wait base at now s mx rest, s1\<lparr>ao_thread := th\<rparr>)"
  proof -
    have th: "ao_thread s1 = ao_thread s" by (simp add: s1_def s0)
    have "rb_map (waiting_tree s1) (map fst ([] @ rest))" using ok1 by (simp add: s1_def groups_ok_def)
    note r = timewait_loop_rest[OF this, of now at T mx]
    have "AOperatorTimewaitCompare now (ao_tick s1 x) < -1 \<and> AOperatorTimewaitCompare now (ao_tick s1 x) \<noteq> - (2 ^ 31)"
      if "x \<in> fst ` set rest" for x
      using rest_cmp[OF that] rest1[OF that] by auto
    note r = r[OF this]
    show ?thesis
    proof (cases "find (\<lambda>x. ao_thread s x = NULL \<or> ao_thread s x = at) (map fst rest)")
      case None
      then show ?thesis using that[of "ao_thread s1"] due_run r th by (simp add: gs s1_def[symmetric] next_wait_def)
    next
      case (Some x)
      then have x: "x \<in> fst ` set rest" by (auto simp: find_Some_iff)
      have "- AOperatorTimewaitCompare now (ao_tick s1 x) = int (tick_key base s x) - int (unat (now - base))"
        using rest_cmp[OF x] rest1[OF x] by (simp only: k_def n_def)
      then show ?thesis using that[of "(ao_thread s1)(x := at)"] due_run r th Some
        by (simp add: gs s1_def[symmetric] next_wait_def set_thread_def)
    qed
  qed
  define s2 where "s2 = s1\<lparr>ao_thread := th\<rparr>"
  have s2: "links s2 = l1" "public_list s2 = ?P" "private_list s2 at = ?V" by (simp_all add: s2_def s1_def s0)
  have keep1: "ring l1 b zs" if "ring l0 b zs" "set (b # zs) \<inter> set (group_nodes due @ [T]) = {}" for b zs
    using ring_agree[OF ag1 that(2)] that(1) by blast
  have away1: "set (W # []) \<inter> set (group_nodes due @ [T]) = {}" "set (?Q # ps) \<inter> set (group_nodes due @ [T]) = {}"
    "set (?P # pu) \<inter> set (group_nodes due @ [T]) = {}" "set (?V # pv) \<inter> set (group_nodes due @ [T]) = {}"
    using dist by auto
  note lists1 = keep1[OF r0(2) away1(1)] keep1[OF lists0(1) away1(2)] keep1[OF lists0(2) away1(3)] keep1[OF lists0(3) away1(4)]
  \<comment> \<open>the posted operators, and the calls\<close>
  have distW: "distinct (W # ?P # pu @ ?V # pv)" using dist by simp
  obtain l3 where take: "take_posted at W s2 = s2\<lparr>links := l3\<rparr>"
      and r3: "ring l3 W (pv @ p1)" "ring l3 ?P (p2)" "ring l3 ?V []"
      and ag3: "agree_off (set (W # ?P # (p1 @ p2) @ ?V # pv)) l1 l3"
    using take_posted_rings[of s2 W pu at pv, unfolded s2, OF lists1(1,3,4) distW, unfolded p(1,2)] unfolding p(3) by blast
  have T3: "ring l3 T (fired due)" by (rule ring_keep[OF ag3 T1]) (use dist' in \<open>simp add: apart\<close>)
  obtain l4 where drain1: "drain T 0 [] (s2\<lparr>links := l3\<rparr>) = Some (map (\<lambda>a. Done a 0) (fired due), s2\<lparr>links := l4\<rparr>)"
      and r4: "\<forall>a \<in> set (fired due). ring l4 a []" and ag4: "agree_off (set (T # fired due)) l3 l4"
    using drain_ring[of "s2\<lparr>links := l3\<rparr>" T "fired due" 0 "[]"] T3 by auto
  have W4: "ring l4 W (pv @ p1)" by (rule ring_keep[OF ag4 r3(1)]) (use dist' in \<open>simp add: apart\<close>)
  obtain l5 where drain2: "drain W 1 (map (\<lambda>a. Done a 0) (fired due)) (s2\<lparr>links := l4\<rparr>) =
        Some (map (\<lambda>a. Done a 0) (fired due) @ map (\<lambda>a. Done a 1) (pv @ p1), s2\<lparr>links := l5\<rparr>)"
      and r5: "\<forall>a \<in> set (pv @ p1). ring l5 a []" and ag5: "agree_off (set (W # pv @ p1)) l4 l5"
    using drain_ring[of "s2\<lparr>links := l4\<rparr>" W "pv @ p1" 1 "map (\<lambda>a. Done a 0) (fired due)"] W4 by auto
  define s' where "s' = s2\<lparr>links := l5\<rparr>"
  have "rb_first (waiting_tree s0) = Some (hd_node (map fst gs))"
    using nm.repr_first ok0 by (auto simp: groups_ok_def gs)
  then have run: "AThreadCheckTimewait at now mx T W s = Some (next_wait base at now s mx rest,
      map (\<lambda>a. Done a 0) (fired due) @ map (\<lambda>a. Done a 1) (pv @ p1), s')"
    using loop take drain1 drain2 by (simp add: AThreadCheckTimewait_def s0_def[symmetric] s2_def[symmetric] s'_def)
  \<comment> \<open>what is left\<close>
  have ag15: "agree_off (set (T # group_nodes due @ W # ?P # (p1 @ p2) @ ?V # pv)) l1 l5"
    by (rule agree_off_trans[OF agree_off_mono[OF ag3] agree_off_trans[OF agree_off_mono[OF ag4] agree_off_mono[OF ag5]]])
      (auto simp: p(3))
  have ag35: "agree_off (set (T # group_nodes due @ W # pv @ p1)) l3 l5"
    by (rule agree_off_trans[OF agree_off_mono[OF ag4] agree_off_mono[OF ag5]]) auto
  have tick': "ao_tick s' a = (if a \<in> set (group_nodes due) then 0 else ao_tick s a)" for a
    using tick1 by (simp add: s'_def s2_def)
  have s': "waiting_tree s' = m" "links s' = l5" "public_list s' = ?P" "private_list s' at = ?V" "pending_list s' = ?Q"
    by (simp_all add: s'_def s2_def s1_def s0)
  have split: "set (p1) \<inter> set (p2) = {}" using dist' by auto
  have "groups_ok k m l5 rest" by (rule groups_ok_links[OF ok1 ag15]) (use dist' in \<open>simp add: apart\<close>)
  then have "groups_ok (tick_key base s') m l5 rest"
    by (rule groups_ok_key_cong) (use dist' in \<open>auto simp: k_def tick_key_def tick'\<close>)
  moreover have "ring l5 ?Q ps" by (rule ring_keep[OF ag15 lists1(2)]) (use dist' in \<open>simp add: apart\<close>)
  moreover have "ring l5 ?P (p2)" by (rule ring_keep[OF ag35 r3(2)]) (use dist' in \<open>simp add: apart\<close>)
  moreover have "ring l5 ?V []" by (rule ring_keep[OF ag35 r3(3)]) (use dist' in \<open>simp add: apart\<close>)
  moreover have "\<forall>a \<in> set (group_nodes rest). tick_key base s' a < 2 ^ 31 \<and> ao_tick s' a \<noteq> 0 \<and> ao_tick s' a \<noteq> INFINITE"
    using i(2) dist' by (auto simp: gs tick' tick_key_def)
  moreover have "distinct (group_nodes rest @ ?Q # ps @ ?P # p2 @ ?V # [])" using dist' by auto
  moreover have "\<forall>a \<in> set ps. ao_tick s' a = INFINITE" using i(7) dist' by (auto simp: tick')
  moreover have "\<forall>a \<in> set (p2 @ []). ao_tick s' a = 0" using i(8) by (auto simp: tick' p(3))
  ultimately have inv': "timers_ok base at s' rest ps (p2) []" using i(9) by (simp add: timers_ok_def s')
  have "\<forall>a \<in> set (fired due). ring l5 a []"
  proof
    fix a
    assume "a \<in> set (fired due)"
    then show "ring l5 a []" using r4 dist' by (intro ring_keep[OF ag5]) (auto simp: apart)
  qed
  then have "\<forall>a \<in> set (fired due @ pv @ p1). ao_tick s' a = 0 \<and> ring (links s') a []"
    using r5 i(8) by (auto simp: tick' s' p(3))
  then show ?thesis using run inv' unfolding p(1,2) by blast
qed

section \<open>Posting\<close>

lemma timers_ok_lists:
  assumes inv: "timers_ok base at s gs ps pu pv"
    and g: "groups_ok (tick_key base s') (waiting_tree s') (links s') gs'" "set (group_nodes gs') \<subseteq> insert a (set (group_nodes gs))"
    and a: "a \<notin> set (pending_list s # ps @ public_list s # pu @ private_list s at # pv)"
    and heads: "pending_list s' = pending_list s" "public_list s' = public_list s" "private_list s' = private_list s"
    and ticks: "ao_tick s' = (ao_tick s)(a := t)"
    and t: "a \<in> set (group_nodes gs') \<Longrightarrow> unat (t - base) < 2 ^ 31 \<and> t \<noteq> 0 \<and> t \<noteq> INFINITE"
    and T: "agree_off T (links s) (links s')" "T \<inter> set (pending_list s # ps @ public_list s # pu @ private_list s at # pv) = {}"
  shows "timers_ok base at s' gs' ps pu pv"
proof -
  note i = timers_okD[OF inv]
  have "ring (links s') (pending_list s) ps" "ring (links s') (public_list s) pu" "ring (links s') (private_list s at) pv"
    using T(2) by (auto intro!: ring_keep[OF T(1)] i(3-5))
  moreover have "\<forall>b \<in> set (group_nodes gs'). tick_key base s' b < 2 ^ 31 \<and> ao_tick s' b \<noteq> 0 \<and> ao_tick s' b \<noteq> INFINITE"
    using g(2) i(2) t by (auto simp: ticks tick_key_def)
  moreover have "distinct (group_nodes gs' @ pending_list s # ps @ public_list s # pu @ private_list s at # pv)"
  proof -
    have "set (group_nodes gs') \<inter> set (pending_list s # ps @ public_list s # pu @ private_list s at # pv) = {}"
      using g(2) a i(6) by auto
    then show ?thesis using g(1) i(6) by (simp add: groups_ok_def)
  qed
  ultimately show ?thesis using i(7-9) g(1) a by (auto simp: timers_ok_def heads ticks)
qed

lemma group_add_first:
  assumes "keyed key (map fst gs)" and "key n \<notin> key ` set (map fst gs)"
  shows "n = hd_node (map fst (group_add key n gs)) \<longleftrightarrow> (\<forall>x \<in> fst ` set gs. key n < key x)"
proof (cases gs)
  case (Cons g hs)
  obtain x ys where g: "g = (x, ys)" by (cases g)
  have rest: "\<forall>h \<in> set hs. key x < key (fst h)" using assms(1) by (auto simp: Cons g keyed_def)
  have "n \<noteq> x" "key n \<noteq> key x" using assms(2) by (auto simp: Cons g)
  then show ?thesis using rest by (force simp: Cons g)
qed simp

lemma keyed_leaders_least:
  assumes "groups_ok key m l gs" and "\<forall>x \<in> fst ` set gs. (c :: 'k :: linorder) < key x"
  shows "\<forall>a \<in> set (group_nodes gs). c < key a"
proof
  fix a
  assume "a \<in> set (group_nodes gs)"
  then obtain x ys where xy: "(x, ys) \<in> set gs" "a \<in> set (x # ys)" by (auto simp: group_nodes_def)
  then have "key a = key x" using assms(1) unfolding groups_ok_def by auto
  then show "c < key a" using assms(2) xy(1) by force
qed

definition same_heads :: "athread \<Rightarrow> athread \<Rightarrow> bool" where
  "same_heads s s' = (public_list s' = public_list s \<and> pending_list s' = pending_list s \<and>
     private_list s' = private_list s \<and> thread_pool s' = thread_pool s)"

lemma AOperatorPost_timer:
  assumes inv: "timers_ok base at s gs ps pu pv" and n: "n \<noteq> NULL"
    "n \<notin> set (group_nodes gs @ pending_list s # ps @ public_list s # pu @ private_list s at # pv)"
    and t: "t \<noteq> 0" "t \<noteq> INFINITE" "unat (t - base) < 2 ^ 31"
  shows "\<exists>s'. AOperatorPost n at t wakeup s = Some
      (if wakeup \<and> (\<forall>a \<in> set (group_nodes gs). unat (t - base) < tick_key base s a) then [Wakeup (pool_of s at) True] else [], s') \<and>
    ao_tick s' = (ao_tick s)(n := t) \<and> timers_ok base at s' (group_add (tick_key base s') n gs) ps pu pv \<and> same_heads s s'"
proof -
  note i = timers_okD[OF inv]
  define s1 where "s1 = set_tick n t (set_links (INIT_LIST_HEAD n) (set_thread n NULL s))"
  have s1: "links s1 = INIT_LIST_HEAD n (links s)" "ao_tick s1 = (ao_tick s)(n := t)" "waiting_tree s1 = waiting_tree s"
      "thread_pool s1 = thread_pool s" "pending_list s1 = pending_list s" "public_list s1 = public_list s" "private_list s1 = private_list s"
    by (simp_all add: s1_def set_tick_def set_links_def set_thread_def)
  have n': "n \<notin> set (group_nodes gs)" using n(2) by simp
  let ?k = "tick_key base s1" and ?c = "unat (t - base)"
  have kn: "?k n = ?c" by (simp add: tick_key_def s1(2))
  have kother: "?k a = tick_key base s a" if "a \<noteq> n" for a using that by (simp add: tick_key_def s1(2))
  have "groups_ok (tick_key base s) (waiting_tree s) (links s1) gs"
    unfolding s1(1) by (rule groups_ok_links[OF i(1) agree_init]) (use n' in simp)
  then have ok1: "groups_ok ?k (waiting_tree s) (links s1) gs"
    by (rule groups_ok_key_cong) (metis kother n')
  have cmp: "cmp_sound (AOperatorTimewaitCompare t (ao_tick s1 x)) ?c (?k x)" if "x \<in> fst ` set gs" for x
  proof -
    have "x \<in> set (group_nodes gs)" using that leaders_nodes[of gs] by auto
    moreover from this have "x \<noteq> n" using n' by auto
    ultimately show ?thesis using i(2) kother[of x] by (intro timewait_sound[OF t(3)]) auto
  qed
  have alone: "ring (links s1) n []" by (simp add: s1(1) INIT_LIST_HEAD_ring)
  obtain x m where ins: "rb_insert (\<lambda>x. AOperatorTimewaitCompare t (ao_tick s1 x)) n (waiting_tree s) = Some (x, m)"
      "if x = NULL then ?c \<notin> ?k ` set (map fst gs) else x \<in> fst ` set gs \<and> ?k x = ?c \<and> m = waiting_tree s" "groups_ok ?k m (if x = NULL then links s1 else list_add_tail n x (links s1)) (group_add ?k n gs)"
    using group_insert[OF ok1 n(1) n' alone, of "\<lambda>x. AOperatorTimewaitCompare t (ao_tick s1 x)" ?c, OF cmp kn] by blast
  define s' where "s' = s1\<lparr>waiting_tree := m, links := (if x = NULL then links s1 else list_add_tail n x (links s1))\<rparr>"
  have s': "ao_tick s' = (ao_tick s)(n := t)" by (simp add: s'_def s1(2))
  have kk: "tick_key base s' = ?k" by (rule ext) (simp add: tick_key_def s' s1(2))
  have ag: "agree_off (insert n (set (group_nodes gs))) (links s) (links s')"
  proof (cases "x = NULL")
    case True
    then show ?thesis using agree_off_mono[OF agree_init] by (simp add: s'_def s1(1))
  next
    case False
    then obtain ys where ys: "(x, ys) \<in> set gs" using ins(2) by auto
    then have "ring (links s1) x ys" using ok1 unfolding groups_ok_def by auto
    from agree_add_tail[OF this, of n] have "agree_off (insert n (set (group_nodes gs))) (links s1) (links s')"
      using group_subset[OF ys] False by (auto simp: s'_def intro: agree_off_mono)
    moreover have "agree_off (insert n (set (group_nodes gs))) (links s) (links s1)"
      unfolding s1(1) by (rule agree_off_mono[OF agree_init]) simp
    ultimately show ?thesis by (blast intro: agree_off_trans)
  qed
  have inv': "timers_ok base at s' (group_add (tick_key base s') n gs) ps pu pv"
    unfolding kk
  proof (rule timers_ok_lists[OF inv _ _ _ _ _ _ s' _ ag])
    show "groups_ok (tick_key base s') (waiting_tree s') (links s') (group_add ?k n gs)" using ins(3) by (simp add: kk) (simp add: s'_def)
  qed (use n t i(6) in \<open>auto simp: set_group_add s'_def s1 apart\<close>)
  have first: "rb_first m = Some (hd_node (map fst (group_add ?k n gs)))"
    using nm.repr_first ins(3) by (auto simp: groups_ok_def)
  have least: "(x = NULL \<and> n = hd_node (map fst (group_add ?k n gs))) = (\<forall>a \<in> set (group_nodes gs). ?c < tick_key base s a)"
  proof (cases "x = NULL")
    case False
    then have "x \<in> set (group_nodes gs)" "?k x = ?c" using ins(2) leaders_nodes[of gs] by auto
    then have "\<not> (\<forall>a \<in> set (group_nodes gs). ?c < tick_key base s a)" using kother[of x] n' by fastforce
    then show ?thesis using False by simp
  next
    case True
    have keyed: "keyed ?k (map fst gs)" using ok1 by (simp add: groups_ok_def)
    have new: "?k n \<notin> ?k ` set (map fst gs)" using True ins(2) kn by simp
    have "(x = NULL \<and> n = hd_node (map fst (group_add ?k n gs))) = (\<forall>a \<in> fst ` set gs. ?c < ?k a)"
      using group_add_first[OF keyed new] True kn by simp
    also have "\<dots> = (\<forall>a \<in> set (group_nodes gs). ?c < ?k a)"
      using keyed_leaders_least[OF ok1] leaders_nodes[of gs] by blast
    also have "\<dots> = (\<forall>a \<in> set (group_nodes gs). ?c < tick_key base s a)"
      using kother n' by metis
    finally show ?thesis .
  qed
  have "AOperatorPost n at t wakeup s = Some
      (if wakeup \<and> (x = NULL \<and> n = hd_node (map fst (group_add ?k n gs))) then [Wakeup (pool_of s at) True] else [], s')"
  proof -
    have at: "thread_or_default (set_thread n NULL s) at = at" "pool_of (set_thread n NULL s) at = pool_of s at"
      using i(9) by (simp_all add: thread_or_default_def pool_of_def set_thread_def)
    show ?thesis
      unfolding AOperatorPost_def Let_def at s1_def[symmetric] s1(3) ins(1)
      using t(1,2) first n(1) by (simp add: s'_def set_links_def)
  qed
  moreover have "same_heads s s'" by (simp add: same_heads_def s'_def s1)
  ultimately show ?thesis using inv' s' unfolding least by blast
qed

text \<open>The two special times: the public list and the list of pending operators.\<close>

lemma tick_key_links [simp]: "tick_key base (set_links f s) = tick_key base s" "tick_key base (set_thread n a s) = tick_key base s"
  by (rule ext, simp add: tick_key_def set_links_def set_thread_def)+

lemma timers_ok_set_thread [simp]: "timers_ok base at (set_thread n a s) gs ps pu pv = timers_ok base at s gs ps pu pv"
  unfolding timers_ok_def tick_key_links by (simp add: set_thread_def)

lemma timers_ok_add_public:
  assumes inv: "timers_ok base at s gs ps pu pv"
    and n: "n \<notin> set (group_nodes gs @ pending_list s # ps @ public_list s # pu @ private_list s at # pv)" "ao_tick s n = 0"
  shows "timers_ok base at (set_links (list_add_tail n (public_list s)) s) gs ps (pu @ [n]) pv"
proof -
  note i = timers_okD[OF inv]
  define l where "l = list_add_tail n (public_list s) (links s)"
  have ag: "agree_off (set (n # public_list s # pu)) (links s) l" unfolding l_def by (rule agree_add_tail[OF i(4)])
  have d: "set (n # public_list s # pu) \<inter> set (group_nodes gs) = {}"
      "set (n # public_list s # pu) \<inter> set (pending_list s # ps) = {}"
      "set (n # public_list s # pu) \<inter> set (private_list s at # pv) = {}"
    using i(6) n(1) by auto
  have "ring l (public_list s) (pu @ [n])" unfolding l_def by (rule list_add_tail_ring[OF i(4)]) (use n(1) in auto)
  moreover have "ring l (pending_list s) ps" by (rule ring_keep[OF ag i(3) d(2)])
  moreover have "ring l (private_list s at) pv" by (rule ring_keep[OF ag i(5) d(3)])
  moreover have "groups_ok (tick_key base s) (waiting_tree s) l gs" by (rule groups_ok_links[OF i(1) ag d(1)])
  moreover have "distinct (group_nodes gs @ pending_list s # ps @ public_list s # (pu @ [n]) @ private_list s at # pv)"
    using i(6) n(1) by auto
  ultimately show ?thesis
    using i(2,7-9) n(2) unfolding timers_ok_def tick_key_links by (auto simp: set_links_def l_def)
qed

lemma timers_ok_add_private:
  assumes inv: "timers_ok base at s gs ps pu pv"
    and n: "n \<notin> set (group_nodes gs @ pending_list s # ps @ public_list s # pu @ private_list s at # pv)" "ao_tick s n = 0"
  shows "timers_ok base at (set_links (list_add_tail n (private_list s at)) s) gs ps pu (pv @ [n])"
proof -
  note i = timers_okD[OF inv]
  define l where "l = list_add_tail n (private_list s at) (links s)"
  have ag: "agree_off (set (n # private_list s at # pv)) (links s) l" unfolding l_def by (rule agree_add_tail[OF i(5)])
  have d: "set (n # private_list s at # pv) \<inter> set (group_nodes gs) = {}"
      "set (n # private_list s at # pv) \<inter> set (pending_list s # ps) = {}"
      "set (n # private_list s at # pv) \<inter> set (public_list s # pu) = {}"
    using i(6) n(1) by auto
  have "ring l (private_list s at) (pv @ [n])" unfolding l_def by (rule list_add_tail_ring[OF i(5)]) (use n(1) in auto)
  moreover have "ring l (pending_list s) ps" by (rule ring_keep[OF ag i(3) d(2)])
  moreover have "ring l (public_list s) pu" by (rule ring_keep[OF ag i(4) d(3)])
  moreover have "groups_ok (tick_key base s) (waiting_tree s) l gs" by (rule groups_ok_links[OF i(1) ag d(1)])
  moreover have "distinct (group_nodes gs @ pending_list s # ps @ public_list s # pu @ private_list s at # (pv @ [n]))"
    using i(6) n(1) by auto
  ultimately show ?thesis
    using i(2,7-9) n(2) unfolding timers_ok_def tick_key_links by (auto simp: set_links_def l_def)
qed

lemma AOperatorPost_public:
  assumes inv: "timers_ok base at s gs ps pu pv" and "n \<noteq> NULL"
    and n: "n \<notin> set (group_nodes gs @ pending_list s # ps @ public_list s # pu @ private_list s at # pv)" "ao_tick s n = 0"
  shows "\<exists>s'. AOperatorPost n at 0 wakeup s = Some ([Wakeup (pool_of s at) True], s') \<and> ao_tick s' = ao_tick s \<and>
    timers_ok base at s' gs ps (pu @ [n]) pv \<and> same_heads s s'"
proof -
  let ?s = "set_thread n NULL s"
  have s: "ao_tick ?s = ao_tick s" "public_list ?s = public_list s" "pending_list ?s = pending_list s"
      "private_list ?s = private_list s" "pool_of ?s at = pool_of s at" "ao_thread ?s n = NULL"
    by (simp_all add: set_thread_def pool_of_def)
  have "AOperatorPost n at 0 wakeup s = Some ([Wakeup (pool_of s at) True], set_links (list_add_tail n (public_list s)) ?s)"
    using timers_okD(9)[OF inv] assms(2)
    by (simp add: AOperatorPost_def AThreadPost_def thread_or_default_def Let_def s)
  moreover have "timers_ok base at (set_links (list_add_tail n (public_list ?s)) ?s) gs ps (pu @ [n]) pv"
    by (rule timers_ok_add_public) (use inv n in \<open>simp_all add: s\<close>)
  moreover have "same_heads s (set_links f ?s)" for f by (simp add: same_heads_def set_links_def set_thread_def)
  ultimately show ?thesis by (auto simp: s set_links_def)
qed

lemma AOperatorPost_pending:
  assumes inv: "timers_ok base at s gs ps pu pv"
    and n: "n \<notin> set (group_nodes gs @ pending_list s # ps @ public_list s # pu @ private_list s at # pv)"
  shows "\<exists>s'. AOperatorPost n at INFINITE wakeup s = Some ([], s') \<and> ao_tick s' = (ao_tick s)(n := INFINITE) \<and>
    timers_ok base at s' gs (ps @ [n]) pu pv \<and> same_heads s s'"
proof -
  note i = timers_okD[OF inv]
  define l where "l = list_add_tail n (pending_list s) (links s)"
  define s' where "s' = set_thread n NULL s\<lparr>ao_tick := (ao_tick s)(n := INFINITE), links := l\<rparr>"
  have nz: "INFINITE \<noteq> 0" by (simp add: INFINITE_def)
  have run: "AOperatorPost n at INFINITE wakeup s = Some ([], s')"
    using nz by (simp add: AOperatorPost_def s'_def l_def set_thread_def set_links_def set_tick_def Let_def)
  have s': "ao_tick s' = (ao_tick s)(n := INFINITE)" "waiting_tree s' = waiting_tree s" "links s' = l" "public_list s' = public_list s"
      "pending_list s' = pending_list s" "private_list s' = private_list s"
    by (simp_all add: s'_def set_thread_def)
  have ag: "agree_off (set (n # pending_list s # ps)) (links s) l" unfolding l_def by (rule agree_add_tail[OF i(3)])
  have d: "set (n # pending_list s # ps) \<inter> set (group_nodes gs) = {}"
      "set (n # pending_list s # ps) \<inter> set (public_list s # pu) = {}"
      "set (n # pending_list s # ps) \<inter> set (private_list s at # pv) = {}"
    using i(6) n(1) by auto
  have "ring l (pending_list s) (ps @ [n])" unfolding l_def by (rule list_add_tail_ring[OF i(3)]) (use n(1) in auto)
  moreover have "ring l (public_list s) pu" by (rule ring_keep[OF ag i(4) d(2)])
  moreover have "ring l (private_list s at) pv" by (rule ring_keep[OF ag i(5) d(3)])
  moreover have "groups_ok (tick_key base s') (waiting_tree s) l gs"
    by (rule groups_ok_key_cong[OF groups_ok_links[OF i(1) ag d(1)]]) (use d(1) in \<open>auto simp: tick_key_def s'\<close>)
  moreover have "distinct (group_nodes gs @ pending_list s # (ps @ [n]) @ public_list s # pu @ private_list s at # pv)"
    using i(6) n(1) by auto
  moreover have "tick_key base s' a = tick_key base s a \<and> ao_tick s' a = ao_tick s a" if "a \<noteq> n" for a
    using that by (simp add: tick_key_def s')
  ultimately have "timers_ok base at s' gs (ps @ [n]) pu pv"
    using i(2,7-9) n unfolding timers_ok_def s' by auto
  moreover have "same_heads s s'" by (simp add: same_heads_def s'_def set_thread_def)
  ultimately show ?thesis using run s'(1) by blast
qed

definition finite_tick :: "tick \<Rightarrow> bool" where
  "finite_tick t = (t \<noteq> 0 \<and> t \<noteq> INFINITE)"

section \<open>An example\<close>

text \<open>A thread at address 100 that is its own pool, as \<^verbatim>\<open>AThreadBegin\<close> leaves it, and four posted operators.\<close>

definition idle_pool :: athread where
  "idle_pool = \<lparr>waiting_tree = INIT_RB_ROOT raw_tree,
     links = INIT_LIST_HEAD 101 (INIT_LIST_HEAD 102 (INIT_LIST_HEAD 103 \<lparr>nxt = (\<lambda>_. 0), prv = (\<lambda>_. 0)\<rparr>)),
     ao_tick = (\<lambda>_. 0), ao_thread = (\<lambda>_. NULL), thread_pool = (\<lambda>_. NULL), private_list = (\<lambda>_. 101),
     public_list = 102, pending_list = 103, work_thread = [100], bind_count = (\<lambda>_. 0), ao_events = (\<lambda>_. 0)\<rparr>"

lemma idle_pool_ok: "timers_ok 0 100 idle_pool [] [] [] []"
proof -
  have "rb_map (INIT_RB_ROOT raw_tree) []" by (rule rb_map_empty)
  moreover have "ring (links idle_pool) 101 []" "ring (links idle_pool) 102 []" "ring (links idle_pool) 103 []"
    by (simp_all add: idle_pool_def INIT_LIST_HEAD_ring ring_INIT_other)
  ultimately show ?thesis by (simp add: timers_ok_def groups_ok_def keyed_def idle_pool_def NULL_def)
qed

lemma busy_pool: "\<exists>s. timers_ok 0 100 s [(1, [2]), (3, [])] [] [4] [] \<and>
    ao_tick s 1 = 10 \<and> ao_tick s 2 = 10 \<and> ao_tick s 3 = 30 \<and> ao_tick s 4 = 0 \<and> ao_tick s 5 = 0 \<and>
    pending_list s = 103 \<and> public_list s = 102 \<and> private_list s = (\<lambda>_. 101) \<and> thread_pool s = (\<lambda>_. NULL)"
proof -
  have heads: "pending_list s = 103 \<and> public_list s = 102 \<and> private_list s = (\<lambda>_. 101) \<and> thread_pool s = (\<lambda>_. NULL)" if "same_heads idle_pool s" for s
    using that by (simp add: same_heads_def idle_pool_def)
  have trans: "same_heads s s''" if "same_heads s s'" "same_heads s' s''" for s s' s''
    using that by (simp add: same_heads_def)
  obtain s1 where 1: "ao_tick s1 = (ao_tick idle_pool)(1 := 10)" "timers_ok 0 100 s1 [(1, [])] [] [] []" "same_heads idle_pool s1"
    using AOperatorPost_timer[OF idle_pool_ok, of 1 10 False]
    by (auto simp: idle_pool_def NULL_def INFINITE_def)
  note h1 = heads[OF 1(3)]
  obtain s2 where 2: "ao_tick s2 = (ao_tick s1)(3 := 30)" "timers_ok 0 100 s2 (group_add (tick_key 0 s2) 3 [(1, [])]) [] [] []" "same_heads s1 s2"
    using AOperatorPost_timer[OF 1(2), of 3 30 False] h1 by (auto simp: NULL_def INFINITE_def)
  have g2: "group_add (tick_key 0 s2) 3 [(1, [])] = [(1, []), (3, [])]" by (simp add: tick_key_def 2(1) 1(1))
  note h2 = heads[OF trans[OF 1(3) 2(3)]]
  obtain s3 where 3: "ao_tick s3 = (ao_tick s2)(2 := 10)" "timers_ok 0 100 s3 (group_add (tick_key 0 s3) 2 [(1, []), (3, [])]) [] [] []" "same_heads s2 s3"
    using AOperatorPost_timer[OF 2(2)[unfolded g2], of 2 10 False] h2 by (auto simp: NULL_def INFINITE_def)
  have g3: "group_add (tick_key 0 s3) 2 [(1, []), (3, [])] = [(1, [2]), (3, [])]" by (simp add: tick_key_def 3(1) 2(1) 1(1))
  note h3 = heads[OF trans[OF trans[OF 1(3) 2(3)] 3(3)]]
  have "ao_tick s3 4 = 0" by (simp add: 3(1) 2(1) 1(1) idle_pool_def)
  then obtain s4 where 4: "ao_tick s4 = ao_tick s3" "timers_ok 0 100 s4 [(1, [2]), (3, [])] [] [4] []" "same_heads s3 s4"
    using AOperatorPost_public[OF 3(2)[unfolded g3], of 4 False] h3 by (auto simp: NULL_def)
  show ?thesis using 4(1,2) h3 4(3) by (intro exI[of _ s4]) (simp add: 3(1) 2(1) 1(1) idle_pool_def same_heads_def)
qed

text \<open>
  C25: posting an operator with the time \<open>t\<close> keeps the pool's invariant and puts the operator where the
  time says: \<open>0\<close> to the end of the public list, \<open>INFINITE\<close> to the end of the pending list, any
  other time to the group of its time in the tree of timers, behind the operators posted for that
  time before.  The pool is woken exactly when the operator is immediate, or when waking was
  asked for and it expires before every other timer.
\<close>

theorem timer_post:
  assumes "timers_ok base at s gs ps pu pv" and "n \<noteq> NULL"
    and "n \<notin> set (group_nodes gs @ pending_list s # ps @ public_list s # pu @ private_list s at # pv)"
    and "t = 0 \<Longrightarrow> ao_tick s n = 0" and "finite_tick t \<Longrightarrow> unat (t - base) < 2 ^ 31"
  shows "\<exists>s'. AOperatorPost n at t wakeup s =
      Some (if t = 0 \<or> finite_tick t \<and> wakeup \<and> (\<forall>a \<in> set (group_nodes gs). unat (t - base) < tick_key base s a)
            then [Wakeup (pool_of s at) True] else [], s') \<and>
    ao_tick s' = (ao_tick s)(n := t) \<and>
    timers_ok base at s' (if finite_tick t then group_add (tick_key base s') n gs else gs)
      (if t = INFINITE then ps @ [n] else ps) (if t = 0 then pu @ [n] else pu) pv \<and> same_heads s s'"
proof -
  consider "t = 0" | "t = INFINITE" | "finite_tick t" by (auto simp: finite_tick_def)
  then show ?thesis
  proof cases
    case 1
    then show ?thesis
      using AOperatorPost_public[OF assms(1-3), of wakeup] assms(4) by (auto simp: finite_tick_def INFINITE_def fun_upd_idem)
  next
    case 2
    then show ?thesis
      using AOperatorPost_pending[OF assms(1,3), of wakeup] by (auto simp: finite_tick_def INFINITE_def)
  next
    case 3
    then show ?thesis
      using AOperatorPost_timer[OF assms(1-3), of t wakeup] assms(5) by (auto simp: finite_tick_def)
  qed
qed

theorem timer_post_witness:
  "\<exists>s s'. timers_ok 0 100 s [(1, [2]), (3, [])] [] [4] [] \<and>
     AOperatorPost 5 100 5 True s = Some ([Wakeup (pool_of s 100) True], s') \<and>
     timers_ok 0 100 s' [(5, []), (1, [2]), (3, [])] [] [4] []"
proof -
  obtain s where s: "timers_ok 0 100 s [(1, [2]), (3, [])] [] [4] []" "ao_tick s 1 = 10" "ao_tick s 2 = 10" "ao_tick s 3 = 30"
      "pending_list s = 103" "public_list s = 102" "private_list s = (\<lambda>_. 101)"
    using busy_pool by blast
  have "5 \<noteq> NULL" "5 \<notin> set (group_nodes [(1, [2]), (3, [])] @ pending_list s # [] @ public_list s # [4] @ private_list s 100 # [])"
      "(5 :: tick) = 0 \<Longrightarrow> ao_tick s 5 = 0" "finite_tick 5 \<Longrightarrow> unat (5 - 0 :: tick) < 2 ^ 31" "finite_tick 5" "(5 :: tick) \<noteq> INFINITE"
    by (simp_all add: NULL_def s(5-7) finite_tick_def INFINITE_def)
  from timer_post[OF s(1) this(1-4), of True] this(5,6) s
  show ?thesis by - (rule exI[of _ s], auto simp: tick_key_def)
qed

text \<open>
  C13: a check of a thread at time \<open>now\<close> ends, calls the function of exactly the timers that expire
  by \<open>now + 1\<close>, with result 0, in the order of their times and, of those with one time, the one posted
  first as the last, then all operators of its private list and one of the public list, with result
  1; every other operator stays registered as it was, the called ones are in no list or tree, and
  the returned time to wait does not pass the first timer that is left to this thread.
\<close>

theorem timer_check_expired:
  assumes "timers_ok base at s gs ps pu pv" and "unat (now - base) < 2 ^ 31"
    and "T \<noteq> W" and "{T, W} \<inter> set (group_nodes gs @ pending_list s # ps @ public_list s # pu @ private_list s at # pv) = {}"
  shows "\<exists>s'. AThreadCheckTimewait at now mx T W s = Some (
      next_wait base at now s mx (filter (\<lambda>g. \<not> tick_key base s (fst g) \<le> unat (now - base) + 1) gs),
      map (\<lambda>a. Done a 0) (fired (filter (\<lambda>g. tick_key base s (fst g) \<le> unat (now - base) + 1) gs)) @
      map (\<lambda>a. Done a 1) (pv @ take 1 pu), s') \<and>
    timers_ok base at s' (filter (\<lambda>g. \<not> tick_key base s (fst g) \<le> unat (now - base) + 1) gs) ps (drop 1 pu) [] \<and>
    (\<forall>a \<in> set (fired (filter (\<lambda>g. tick_key base s (fst g) \<le> unat (now - base) + 1) gs) @ pv @ take 1 pu).
       ao_tick s' a = 0 \<and> ring (links s') a [])"
  using timer_check_run[OF assms refl refl] .

theorem timer_check_expired_witness:
  "\<exists>s s'. timers_ok 0 100 s [(1, [2]), (3, [])] [] [4] [] \<and>
     AThreadCheckTimewait 100 20 5 90 91 s = Some (5, [Done 2 0, Done 1 0, Done 4 1], s') \<and>
     timers_ok 0 100 s' [(3, [])] [] [] []"
proof -
  obtain s where s: "timers_ok 0 100 s [(1, [2]), (3, [])] [] [4] []" "ao_tick s 1 = 10" "ao_tick s 2 = 10" "ao_tick s 3 = 30"
      "pending_list s = 103" "public_list s = 102" "private_list s = (\<lambda>_. 101)"
    using busy_pool by blast
  have "unat (20 - 0 :: tick) < 2 ^ 31" "(90 :: addr) \<noteq> 91"
      "{90, 91} \<inter> set (group_nodes [(1, [2]), (3, [])] @ pending_list s # [] @ public_list s # [4] @ private_list s 100 # []) = {}"
    by (simp_all add: s(5-7))
  from timer_check_expired[OF s(1) this, of 5] s
  show ?thesis by - (rule exI[of _ s], auto simp: tick_key_def next_wait_def fired_def)
qed

end
