(* ===== verification/Timer_Signal.thy ===== *)
theory Timer_Signal
  imports Timer_Check
begin

text \<open>
  What signalling an operator does: it leaves the tree of timers or the list of pending operators, and
  is posted to its thread or to the pool when it is to be woken.  Then the time an operator is
  posted for when it is delayed, and the thread an operator is bound to.
\<close>

section \<open>Removal\<close>

lemma timers_ok_without_timer:
  assumes inv: "timers_ok base at s gs ps pu pv"
    and e: "e \<in> set (group_nodes gs)"
    and ok: "groups_ok (tick_key base s) m l (group_del e gs)" and ag: "agree_off (set (group_nodes gs)) (links s) l"
  shows "timers_ok base at (s\<lparr>waiting_tree := m, links := l, ao_tick := (ao_tick s)(e := 0)\<rparr>) (group_del e gs) ps pu pv"
    (is "timers_ok base at ?s _ _ _ _")
proof -
  note i = timers_okD[OF inv]
  have d: "distinct (group_nodes gs)" using i(6) by simp
  then have nodes: "set (group_nodes (group_del e gs)) = set (group_nodes gs) - {e}"
    by (simp add: nodes_group_del)
  have k: "tick_key base ?s a = tick_key base s a" if "a \<noteq> e" for a using that by (simp add: tick_key_def)
  have "groups_ok (tick_key base ?s) m l (group_del e gs)"
    by (rule groups_ok_key_cong[OF ok]) (simp add: nodes k)
  moreover have "ring l (pending_list s) ps" by (rule ring_keep[OF ag i(3)]) (use i(6) in auto)
  moreover have "ring l (public_list s) pu" by (rule ring_keep[OF ag i(4)]) (use i(6) in auto)
  moreover have "ring l (private_list s at) pv" by (rule ring_keep[OF ag i(5)]) (use i(6) in auto)
  moreover have "distinct (group_nodes (group_del e gs) @ pending_list s # ps @ public_list s # pu @ private_list s at # pv)"
    using i(6) nodes by (auto simp: nodes_group_del)
  moreover have "\<forall>a \<in> set (group_nodes (group_del e gs)). tick_key base ?s a < 2 ^ 31 \<and> ao_tick ?s a \<noteq> 0 \<and> ao_tick ?s a \<noteq> INFINITE"
    using i(2) nodes k by auto
  ultimately show ?thesis using i(6-9) e unfolding timers_ok_def by auto
qed

lemma signal_remove_timer:
  assumes inv: "timers_ok base at s gs ps pu pv" and e: "e \<in> set (group_nodes gs)"
  shows "\<exists>m l. signal_remove e s = Some (1, s\<lparr>waiting_tree := m, links := l, ao_tick := (ao_tick s)(e := 0)\<rparr>) \<and>
    groups_ok (tick_key base s) m l (group_del e gs) \<and> agree_off (set (group_nodes gs)) (links s) l"
proof -
  note i = timers_okD[OF inv]
  obtain as x ys bs where gs: "gs = as @ (x, ys) # bs" and ex: "e \<in> set (x # ys)" using group_split[OF e] .
  note ok = i(1)[unfolded gs]
  let ?t = "ao_tick s e" and ?k = "tick_key base s"
  have t: "?t \<noteq> 0" "?t \<noteq> INFINITE" "unat (?t - base) < 2 ^ 31" using i(2)[OF e] by (auto simp: tick_key_def)
  have cmp: "cmp_sound (AOperatorTimewaitCompare ?t (ao_tick s z)) (?k e) (?k z)" if "z \<in> fst ` set gs" for z
  proof -
    have "?k z < 2 ^ 31" using i(2) that leaders_nodes[of gs] by auto
    then show ?thesis using timewait_sound[OF t(3), of s z] by (simp add: tick_key_def)
  qed
  have "(x, ys) \<in> set gs" by (simp add: gs)
  from group_find[OF i(1) this ex cmp]
  have find: "rb_find (\<lambda>z. AOperatorTimewaitCompare ?t (ao_tick s z)) (waiting_tree s) (rb_root (waiting_tree s)) = Some x" .
  have x: "x \<noteq> NULL" using groups_ok_group(5)[OF ok] by simp
  have dist: "distinct (group_nodes as @ x # ys @ group_nodes bs)" by (rule groups_ok_group(4)[OF ok])
  note start = signal_remove_def Let_def
  show ?thesis
  proof (cases "e = x")
    case False
    then obtain us vs where ys: "ys = us @ e # vs" using ex by (auto dest: split_list)
    have new: "group_del e gs = as @ (x, us @ vs) # bs"
      using dist by (auto simp: gs ys group_del_skip remove1_append)
    have ring: "ring (links s) x (us @ e # vs)" using groups_ok_group(1)[OF ok] by (simp add: ys)
    have "\<not> list_empty (links s) e"
    proof -
      have "ring (links s) e (vs @ x # us)" using ring_rotate[OF ring] by simp
      from ring_empty_iff[OF this] show ?thesis by simp
    qed
    then have "signal_remove e s = Some (1, s\<lparr>waiting_tree := waiting_tree s, links := list_del_init e (links s), ao_tick := (ao_tick s)(e := 0)\<rparr>)"
      using t find x False by (simp add: start set_tick_def set_links_def)
    moreover have "groups_ok ?k (waiting_tree s) (list_del_init e (links s)) (group_del e gs)"
      using group_del_follower(1) ok unfolding new ys by blast
    moreover have "agree_off (set (group_nodes gs)) (links s) (list_del_init e (links s))"
      by (rule agree_off_mono[OF agree_del_init[OF ring]]) (auto simp: gs ys)
    ultimately show ?thesis by blast
  next
    case True
    show ?thesis
    proof (cases ys)
      case Nil
      have new: "group_del e gs = as @ bs" using dist by (simp add: gs True Nil group_del_skip)
      have "list_empty (links s) x" using ring_empty_iff[OF groups_ok_group(1)[OF ok]] Nil by simp
      moreover obtain m where "rb_erase x (waiting_tree s) = Some m" "groups_ok ?k m (links s) (as @ bs)"
        using group_del_single ok unfolding Nil by blast
      ultimately show ?thesis
        using t find x True unfolding new
        by (intro exI[of _ m] exI[of _ "links s"]) (simp add: start set_tick_def)
    next
      case (Cons y zs)
      have new: "group_del e gs = as @ (y, zs) # bs" using dist by (simp add: gs True Cons group_del_skip)
      have ring: "ring (links s) x (y # zs)" using groups_ok_group(1)[OF ok] Cons by simp
      then have ne: "\<not> list_empty (links s) x" using ring_empty_iff by blast
      obtain m where m: "rb_replace_node x y (waiting_tree s) = Some m"
          "groups_ok ?k m (list_del_init x (links s)) (as @ (y, zs) # bs)"
        using group_del_leader(1) ok unfolding Cons by blast
      have nx: "nxt (links s) x = y" using group_del_leader(2) ok unfolding Cons by blast
      have "ring (links s) y (zs @ x # [])" using ring_rotate[of "links s" x "[]" y zs] ring by simp
      then have "agree_off (set (group_nodes gs)) (links s) (list_del_init x (links s))"
        by (rule agree_off_mono[OF agree_del_init]) (auto simp: gs Cons)
      then show ?thesis
        using t find x True m nx ne unfolding new
        by (intro exI[of _ m] exI[of _ "list_del_init x (links s)"]) (simp add: start set_tick_def set_links_def)
    qed
  qed
qed

lemma timers_ok_without_pending:
  assumes inv: "timers_ok base at s gs ps pu pv" and e: "e \<in> set ps"
  shows "timers_ok base at (set_links (list_del_init e) (set_tick e 0 s)) gs (remove1 e ps) pu pv"
    (is "timers_ok base at ?s _ _ _ _")
proof -
  note i = timers_okD[OF inv]
  obtain us vs where ps: "ps = us @ e # vs" using e by (auto dest: split_list)
  have d: "distinct (us @ e # vs)" "set us \<inter> set vs = {}" using i(6) by (auto simp: ps)
  then have rem: "remove1 e ps = us @ vs" by (simp add: ps remove1_append)
  have ring: "ring (links s) (pending_list s) (us @ e # vs)" using i(3) by (simp add: ps)
  define l where "l = list_del_init e (links s)"
  have ag: "agree_off (set (pending_list s # us @ e # vs)) (links s) l"
    unfolding l_def by (rule agree_del_init[OF ring])
  have dis: "set (pending_list s # us @ e # vs) \<inter> set (group_nodes gs) = {}"
      "set (pending_list s # us @ e # vs) \<inter> set (public_list s # pu) = {}"
      "set (pending_list s # us @ e # vs) \<inter> set (private_list s at # pv) = {}"
    using i(6) unfolding ps by auto
  have s': "waiting_tree ?s = waiting_tree s" "links ?s = l" "ao_tick ?s = (ao_tick s)(e := 0)" "pending_list ?s = pending_list s"
      "public_list ?s = public_list s" "private_list ?s = private_list s"
    by (simp_all add: set_links_def set_tick_def l_def)
  have en: "e \<notin> set (group_nodes gs)" using dis(1) by auto
  have k: "tick_key base ?s a = tick_key base s a" if "a \<noteq> e" for a
    using that unfolding tick_key_def s' by simp
  have "ring l (pending_list s) (us @ vs)" unfolding l_def by (rule list_del_init_ring(1)[OF ring])
  moreover have "ring l (public_list s) pu" by (rule ring_keep[OF ag i(4) dis(2)])
  moreover have "ring l (private_list s at) pv" by (rule ring_keep[OF ag i(5) dis(3)])
  moreover have "groups_ok (tick_key base ?s) (waiting_tree s) l gs"
    by (rule groups_ok_key_cong[OF groups_ok_links[OF i(1) ag dis(1)]]) (use en k in metis)
  moreover have "\<forall>a \<in> set (group_nodes gs). tick_key base ?s a < 2 ^ 31 \<and> ao_tick ?s a \<noteq> 0 \<and> ao_tick ?s a \<noteq> INFINITE"
    using i(2) en k by (metis fun_upd_other s'(3))
  moreover have "distinct (group_nodes gs @ pending_list s # (us @ vs) @ public_list s # pu @ private_list s at # pv)"
    using i(6) d by (simp add: ps)
  moreover have "\<forall>a \<in> set (us @ vs). ao_tick ?s a = INFINITE"
    using i(7) d by (auto simp: s' ps)
  moreover have "\<forall>a \<in> set (pu @ pv). ao_tick ?s a = 0" using i(8) by (auto simp: s')
  ultimately show ?thesis using i(9) unfolding timers_ok_def s' rem by blast
qed

text \<open>Waking the operator that was removed: the tail of \<open>AOperatorSignal\<close>.\<close>

lemma AOperatorSignal_removed:
  assumes rem: "signal_remove e s = Some (1, s1)" and inv: "timers_ok base at s1 gs ps pu pv"
    and e: "e \<notin> set (group_nodes gs @ pending_list s1 # ps @ public_list s1 # pu @ private_list s1 at # pv)"
    and s1: "ao_tick s1 = (ao_tick s)(e := 0)" "ao_thread s1 = ao_thread s" "public_list s1 = public_list s" "private_list s1 = private_list s"
  shows "\<exists>s'. AOperatorSignal e at wakeup s =
      Some (if wakeup then 0 else 1,
            if \<not> wakeup then [] else if ao_thread s e \<noteq> at then [Wakeup (pool_of s at) True]
            else if pv = [] then [Wakeup at False] else [], s') \<and>
    ao_tick s' = (ao_tick s)(e := 0) \<and>
    timers_ok base at s' gs ps (if wakeup \<and> ao_thread s e \<noteq> at then pu @ [e] else pu)
      (if wakeup \<and> ao_thread s e = at then pv @ [e] else pv)"
proof -
  note i = timers_okD[OF inv]
  have tick: "ao_tick s1 e = 0" by (simp add: s1(1))
  have empty: "list_empty (links s1) (private_list s at) = (pv = [])" using ring_empty_iff[OF i(5)] s1(4) by simp
  have run: "AOperatorSignal e at wakeup s = Some
      (if wakeup then if ao_thread s e = at
         then (0, if pv = [] then [Wakeup at False] else [], set_links (list_add_tail e (private_list s1 at)) s1)
         else (0, [Wakeup (pool_of s at) True], set_links (list_add_tail e (public_list s1)) s1)
       else (1, [], s1))"
    using i(9) by (simp add: AOperatorSignal_def Let_def rem thread_or_default_def empty s1(2-4))
  show ?thesis
    unfolding run
    using timers_ok_add_public[OF inv e tick] timers_ok_add_private[OF inv e tick] inv s1(1)
    by (cases wakeup; cases "ao_thread s e = at") (auto simp: set_links_def)
qed

text \<open>
  C26: signalling an operator that waits, in the tree or in the list of pending operators, takes it
  out, keeps the pool's invariant and reports 1; when it is to be woken it goes to its own thread's
  private list or else to the public list, and the thread is woken unless its private list already
  held something.  Signalling an operator that does not wait reports -1 and changes nothing.
\<close>

theorem timer_signal:
  assumes "timers_ok base at s gs ps pu pv"
  shows "(ao_tick s e = 0 \<longrightarrow> AOperatorSignal e at wakeup s = Some (-1, [], s)) \<and>
    (e \<in> set (group_nodes gs @ ps) \<longrightarrow>
      (\<exists>s'. AOperatorSignal e at wakeup s =
          Some (if wakeup then 0 else 1,
                if \<not> wakeup then [] else if ao_thread s e \<noteq> at then [Wakeup (pool_of s at) True]
                else if pv = [] then [Wakeup at False] else [], s') \<and>
        ao_tick s' = (ao_tick s)(e := 0) \<and>
        timers_ok base at s' (group_del e gs) (remove1 e ps)
          (if wakeup \<and> ao_thread s e \<noteq> at then pu @ [e] else pu)
          (if wakeup \<and> ao_thread s e = at then pv @ [e] else pv)))"
proof (intro conjI impI)
  show "AOperatorSignal e at wakeup s = Some (-1, [], s)" if "ao_tick s e = 0"
    using that by (simp add: AOperatorSignal_def signal_remove_def INFINITE_def Let_def)
next
  note i = timers_okD[OF assms]
  assume "e \<in> set (group_nodes gs @ ps)"
  then consider (timer) "e \<in> set (group_nodes gs)" | (pending) "e \<in> set ps" by auto
  then show "\<exists>s'. AOperatorSignal e at wakeup s =
          Some (if wakeup then 0 else 1,
                if \<not> wakeup then [] else if ao_thread s e \<noteq> at then [Wakeup (pool_of s at) True]
                else if pv = [] then [Wakeup at False] else [], s') \<and>
        ao_tick s' = (ao_tick s)(e := 0) \<and>
        timers_ok base at s' (group_del e gs) (remove1 e ps)
          (if wakeup \<and> ao_thread s e \<noteq> at then pu @ [e] else pu)
          (if wakeup \<and> ao_thread s e = at then pv @ [e] else pv)"
  proof cases
    case timer
    obtain m l where ml: "signal_remove e s = Some (1, s\<lparr>waiting_tree := m, links := l, ao_tick := (ao_tick s)(e := 0)\<rparr>)"
        "groups_ok (tick_key base s) m l (group_del e gs)" "agree_off (set (group_nodes gs)) (links s) l"
      using signal_remove_timer[OF assms timer] by blast
    have "remove1 e ps = ps" using timer i(6) by (auto intro: remove1_idem)
    moreover have "e \<notin> set (group_nodes (group_del e gs) @ pending_list s # ps @ public_list s # pu @ private_list s at # pv)"
      using timer i(6) by (auto simp: nodes_group_del)
    ultimately show ?thesis
      using AOperatorSignal_removed[OF ml(1) timers_ok_without_timer[OF assms timer ml(2,3)], of wakeup] by simp
  next
    case pending
    have rem: "signal_remove e s = Some (1, set_links (list_del_init e) (set_tick e 0 s))"
      using i(7)[OF pending] by (simp add: signal_remove_def INFINITE_def)
    have "e \<notin> set (group_nodes gs)" using pending i(6) by auto
    then have "group_del e gs = gs" using group_del_skip[of e gs "[]"] by simp
    moreover have "e \<notin> set (group_nodes gs @ pending_list s # remove1 e ps @ public_list s # pu @ private_list s at # pv)"
      using pending i(6) by (auto dest: notin_set_remove1)
    ultimately show ?thesis
      using AOperatorSignal_removed[OF rem timers_ok_without_pending[OF assms pending], of wakeup]
      by (simp add: set_links_def set_tick_def)
  qed
qed

theorem timer_signal_witness:
  "\<exists>s s'. timers_ok 0 100 s [(1, [2]), (3, [])] [] [4] [] \<and>
     AOperatorSignal 1 100 False s = Some (1, [], s') \<and> timers_ok 0 100 s' [(2, []), (3, [])] [] [4] []"
proof -
  obtain s where s: "timers_ok 0 100 s [(1, [2]), (3, [])] [] [4] []" using busy_pool by blast
  show ?thesis using timer_signal[OF s, of 1 False] s by - (rule exI[of _ s], auto)
qed

section \<open>Delays\<close>

text \<open>
  The time a delayed operator is posted for: never one of the two special times, and at most two
  ticks after the delay asked for, counted modulo the clock's period.
\<close>

lemma delay_tick_finite:
  "finite_tick timeout \<Longrightarrow> finite_tick (delay_tick timeout now) \<and>
     delay_tick timeout now - (timeout + now) \<in> {0, 2}"
  unfolding finite_tick_def delay_tick_def INFINITE_def Let_def
  by (auto simp: eq_neg_iff_add_eq_0)

end
