(* ===== verification/Timer_Threads.thy ===== *)
theory Timer_Threads
  imports Timer_Signal
begin

text \<open>
  The end of a thread, which calls whatever is still registered, and the choice of the thread an
  operator's file is bound to.
\<close>

section \<open>Ending a thread\<close>

lemma end_tree_groups:
  assumes "groups_ok k (waiting_tree s) (links s) gs"
  shows "\<exists>m l. end_tree (hd_node (map fst gs)) outs s =
      Some (outs @ map (\<lambda>a. Done a (- EINTR)) (fired gs), s\<lparr>waiting_tree := m, links := l\<rparr>) \<and>
    rb_map m [] \<and> agree_off (set (group_nodes gs)) (links s) l"
  using assms
proof (induction gs arbitrary: s outs)
  case Nil
  then show ?case
    by (subst end_tree.simps) (auto simp: groups_ok_def intro!: exI[of _ "waiting_tree s"] exI[of _ "links s"])
next
  case (Cons g gs)
  obtain x ys where g: "g = (x, ys)" by (cases g)
  have ok: "groups_ok k (waiting_tree s) (links s) ([] @ (x, ys) # gs)" using Cons.prems g by simp
  note o = groups_ok_group[OF ok]
  obtain l1 where l1: "drain x (- EINTR) outs s = Some (outs @ map (\<lambda>a. Done a (- EINTR)) ys, s\<lparr>links := l1\<rparr>)"
      "ring l1 x []" "agree_off (set (x # ys)) (links s) l1"
    using drain_ring[OF o(1)] by blast
  have ok1: "groups_ok k (waiting_tree s) l1 ([] @ (x, []) # gs)"
  proof (rule groups_ok_mid[OF ok])
    show "rb_map (waiting_tree s) (map fst ([] :: groups) @ x # map fst gs)" by (rule o(3))
    show "distinct (group_nodes ([] @ (x, []) # gs))" "NULL \<notin> set [x]" using o(4,5) by auto
    show "ring l1 z zs" if "(z, zs) \<in> set ([] @ gs)" "ring (links s) z zs" for z zs
      by (rule ring_keep[OF l1(3) that(2)]) (use other_group[OF ok that(1)] in \<open>simp add: Int_commute\<close>)
  qed (use l1(2) in auto)
  obtain m1 where m1: "rb_erase x (waiting_tree s) = Some m1" "groups_ok k m1 l1 gs"
    using group_del_single[OF ok1] by auto
  have nx: "rb_next (waiting_tree s) x = Some (hd_node (map fst gs))" using nm.repr_next[of _ "[]"] o(3) by simp
  obtain m l where ml: "end_tree (hd_node (map fst gs)) ((outs @ map (\<lambda>a. Done a (- EINTR)) ys) @ [Done x (- EINTR)])
        (s\<lparr>links := l1, waiting_tree := m1\<rparr>) =
        Some (((outs @ map (\<lambda>a. Done a (- EINTR)) ys) @ [Done x (- EINTR)]) @ map (\<lambda>a. Done a (- EINTR)) (fired gs),
          s\<lparr>links := l1, waiting_tree := m1\<rparr>\<lparr>waiting_tree := m, links := l\<rparr>)"
      "rb_map m []" "agree_off (set (group_nodes gs)) l1 l"
    using Cons.IH[of "s\<lparr>links := l1, waiting_tree := m1\<rparr>" "(outs @ map (\<lambda>a. Done a (- EINTR)) ys) @ [Done x (- EINTR)]"] m1(2)
    by auto
  have "x \<noteq> NULL" using o(5) by simp
  then have "end_tree (hd_node (map fst (g # gs))) outs s =
      Some (outs @ map (\<lambda>a. Done a (- EINTR)) (fired (g # gs)), s\<lparr>waiting_tree := m, links := l\<rparr>)"
    using l1(1) m1(1) nx ml(1) by (subst end_tree.simps) (simp add: g)
  moreover have "agree_off (set (group_nodes (g # gs))) (links s) l"
    by (rule agree_off_trans[OF agree_off_mono[OF l1(3)] agree_off_mono[OF ml(3)]]) (auto simp: g)
  ultimately show ?case using ml(2) by blast
qed

lemma AThreadEnd_run:
  assumes inv: "timers_ok base at s gs ps pu pv"
  shows "\<exists>s'. AThreadEnd at s =
    Some (map (\<lambda>a. Done a (- EINTR)) (pv @ (if thread_pool s at = NULL then fired gs @ pu @ ps else [])), s')"
proof -
  note i = timers_okD[OF inv]
  let ?Q = "pending_list s" and ?P = "public_list s" and ?V = "private_list s at"
  let ?d = "map (\<lambda>a. Done a (- EINTR))"
  obtain l1 where d1: "drain ?V (- EINTR) [] s = Some (?d pv, s\<lparr>links := l1\<rparr>)" and ag1: "agree_off (set (?V # pv)) (links s) l1"
    using drain_ring[OF i(5), of "- EINTR" "[]"] by auto
  show ?thesis
  proof (cases "thread_pool s at = NULL")
    case False
    then show ?thesis using d1 by (simp add: AThreadEnd_def)
  next
    case True
    have Q1: "ring l1 ?Q ps" by (rule ring_keep[OF ag1 i(3)]) (use i(6) in auto)
    have P1: "ring l1 ?P pu" by (rule ring_keep[OF ag1 i(4)]) (use i(6) in auto)
    have ok1: "groups_ok (tick_key base s) (waiting_tree s) l1 gs" by (rule groups_ok_links[OF i(1) ag1]) (use i(6) in auto)
    define l2 where "l2 = list_splice_init ?P ?Q l1"
    have "set (?P # pu) \<inter> set (?Q # ps) = {}" using i(6) by auto
    then have Q2: "ring l2 ?Q (pu @ ps)" unfolding l2_def by (rule list_splice_init_ring(1)[OF P1 Q1])
    have ag2: "agree_off (set (?P # pu @ ?Q # ps)) l1 l2" unfolding l2_def by (rule list_splice_init_agree[OF P1 Q1])
    have ok2: "groups_ok (tick_key base s) (waiting_tree s) l2 gs" by (rule groups_ok_links[OF ok1 ag2]) (use i(6) in auto)
    define s2 where "s2 = s\<lparr>links := l2\<rparr>"
    have s2: "waiting_tree s2 = waiting_tree s" "links s2 = l2" by (simp_all add: s2_def)
    obtain m l3 where t: "end_tree (hd_node (map fst gs)) (?d pv) s2 = Some (?d pv @ ?d (fired gs), s2\<lparr>waiting_tree := m, links := l3\<rparr>)"
        and ag3: "agree_off (set (group_nodes gs)) l2 l3"
      using end_tree_groups[of "tick_key base s" s2 gs "?d pv"] ok2 s2 by auto
    have Q3: "ring l3 ?Q (pu @ ps)" by (rule ring_keep[OF ag3 Q2]) (use i(6) in auto)
    obtain l4 where d4: "drain ?Q (- EINTR) (?d pv @ ?d (fired gs)) (s2\<lparr>waiting_tree := m, links := l3\<rparr>) =
        Some ((?d pv @ ?d (fired gs)) @ ?d (pu @ ps), s2\<lparr>waiting_tree := m, links := l3\<rparr>\<lparr>links := l4\<rparr>)"
      using drain_ring[of "s2\<lparr>waiting_tree := m, links := l3\<rparr>" ?Q "pu @ ps" "- EINTR" "?d pv @ ?d (fired gs)"] Q3 by auto
    have "rb_first (waiting_tree s) = Some (hd_node (map fst gs))"
      using nm.repr_first i(1) by (auto simp: groups_ok_def)
    then show ?thesis
      using True d1 t d4 by (simp add: AThreadEnd_def set_links_def s2_def l2_def[symmetric])
  qed
qed



section \<open>Binding an operator to a thread\<close>

text \<open>The counters of the threads are the numbers of operators bound to them.\<close>

definition bound_to :: "athread \<Rightarrow> addr \<Rightarrow> addr set" where
  "bound_to s t = {a. ao_events s a \<noteq> 0 \<and> ao_thread s a = t}"

definition binds_ok :: "athread \<Rightarrow> bool" where
  "binds_ok s = (\<forall>t. finite (bound_to s t) \<and> bind_count s t = int (card (bound_to s t)))"

lemma least_fold:
  "fold (\<lambda>t at. if b t < (b at :: int) then t else at) ts t0 \<in> set (t0 # ts) \<and>
   (\<forall>t \<in> set (t0 # ts). b (fold (\<lambda>t at. if b t < b at then t else at) ts t0) \<le> b t)"
proof (induction ts arbitrary: t0)
  case (Cons t ts)
  show ?case using Cons.IH[of "if b t < b t0 then t else t0"] by (auto split: if_splits)
qed simp

lemma least_bound_least:
  assumes "work_thread s \<noteq> []"
  shows "least_bound s \<in> set (work_thread s)" and "\<And>t. t \<in> set (work_thread s) \<Longrightarrow> bind_count s (least_bound s) \<le> bind_count s t"
proof -
  obtain t0 ts where w: "work_thread s = t0 # ts" using assms by (cases "work_thread s") auto
  note l = least_fold[of "bind_count s" ts t0]
  show "least_bound s \<in> set (work_thread s)" using l by (simp add: least_bound_def w)
  show "bind_count s (least_bound s) \<le> bind_count s t" if "t \<in> set (work_thread s)" for t
    using l that by (auto simp: least_bound_def w)
qed

text \<open>
  When \<^verbatim>\<open>epoll_ctl\<close> succeeds, binding keeps every thread's counter equal to the number of operators
  bound to it; a new operator without a thread goes to a working thread with the least counter, a
  bound one stays with its thread, and unbinding an operator that is not bound is refused.
\<close>

theorem thread_bind_counts:
  assumes "binds_ok s" and "work_thread s \<noteq> []" and "\<And>at op a. epoll at op a = 0"
  shows "binds_ok (snd (AThreadBind at asop event epoll s)) \<and>
    (event \<noteq> 0 \<and> ao_events s asop = 0 \<and> at = NULL \<longrightarrow>
       (\<exists>t \<in> set (work_thread s). (\<forall>u \<in> set (work_thread s). bind_count s t \<le> bind_count s u) \<and>
          ao_thread (snd (AThreadBind at asop event epoll s)) asop = t)) \<and>
    (ao_events s asop \<noteq> 0 \<longrightarrow> ao_thread (snd (AThreadBind at asop event epoll s)) = ao_thread s) \<and>
    (event = 0 \<and> ao_events s asop = 0 \<longrightarrow> AThreadBind at asop event epoll s = (-1, s))"
proof (intro conjI impI)
  let ?s = "snd (AThreadBind at asop event epoll s)"
  consider (none) "event = 0" "ao_events s asop = 0" | (del) "event = 0" "ao_events s asop \<noteq> 0"
    | (upd) "event \<noteq> 0" "ao_events s asop \<noteq> 0" | (add) "event \<noteq> 0" "ao_events s asop = 0" by blast
  then show "binds_ok ?s"
  proof cases
    case none
    then show ?thesis using assms(1) by (simp add: AThreadBind_def)
  next
    case del
    let ?t = "ao_thread s asop"
    have b: "bound_to ?s t = bound_to s t - {asop}" for t
      using del assms(3) by (auto simp: AThreadBind_def Let_def bound_to_def)
    have "asop \<in> bound_to s ?t" using del by (simp add: bound_to_def)
    then have "card (bound_to s ?t) = Suc (card (bound_to s ?t - {asop}))"
      using assms(1) by (intro card.remove) (auto simp: binds_ok_def)
    then have "int (card (bound_to s ?t - {asop})) = int (card (bound_to s ?t)) - 1" by simp
    moreover have "bound_to s t - {asop} = bound_to s t" if "t \<noteq> ?t" for t using that by (auto simp: bound_to_def)
    moreover have "bind_count ?s = (bind_count s)(?t := bind_count s ?t - 1)"
      using del assms(3) by (simp add: AThreadBind_def Let_def)
    ultimately show ?thesis using assms(1) by (auto simp: binds_ok_def b)
  next
    case upd
    have "bound_to ?s t = bound_to s t" for t using upd assms(3) by (auto simp: AThreadBind_def Let_def bound_to_def)
    moreover have "bind_count ?s = bind_count s" using upd assms(3) by (simp add: AThreadBind_def Let_def)
    ultimately show ?thesis using assms(1) by (simp add: binds_ok_def)
  next
    case add
    define t0 where "t0 = (if at = NULL then least_bound s else at)"
    have b: "bound_to ?s t = (if t = t0 then insert asop (bound_to s t) else bound_to s t)" for t
      using add assms(3) by (auto simp: AThreadBind_def Let_def bound_to_def set_thread_def t0_def)
    have "asop \<notin> bound_to s t0" using add by (simp add: bound_to_def)
    moreover have "bind_count ?s = (bind_count s)(t0 := bind_count s t0 + 1)"
      using add assms(3) by (simp add: AThreadBind_def Let_def set_thread_def t0_def)
    ultimately show ?thesis using assms(1) by (auto simp: binds_ok_def b)
  qed
next
  assume "event \<noteq> 0 \<and> ao_events s asop = 0 \<and> at = NULL"
  then have "ao_thread (snd (AThreadBind at asop event epoll s)) asop = least_bound s"
    using assms(3) by (simp add: AThreadBind_def Let_def set_thread_def)
  then show "\<exists>t \<in> set (work_thread s). (\<forall>u \<in> set (work_thread s). bind_count s t \<le> bind_count s u) \<and>
      ao_thread (snd (AThreadBind at asop event epoll s)) asop = t"
    using least_bound_least[OF assms(2)] by blast
next
  assume "ao_events s asop \<noteq> 0"
  then show "ao_thread (snd (AThreadBind at asop event epoll s)) = ao_thread s"
    by (auto simp: AThreadBind_def Let_def)
next
  assume "event = 0 \<and> ao_events s asop = 0"
  then show "AThreadBind at asop event epoll s = (-1, s)" by (simp add: AThreadBind_def)
qed

theorem thread_bind_counts_witness:
  "binds_ok idle_pool \<and> binds_ok (snd (AThreadBind NULL 7 1 (\<lambda>_ _ _. 0) idle_pool)) \<and>
   ao_thread (snd (AThreadBind NULL 7 1 (\<lambda>_ _ _. 0) idle_pool)) 7 = 100"
proof -
  have "binds_ok idle_pool" "work_thread idle_pool \<noteq> []" "ao_events idle_pool 7 = 0" "work_thread idle_pool = [100]"
    by (simp_all add: binds_ok_def bound_to_def idle_pool_def)
  then show ?thesis using thread_bind_counts[of idle_pool "\<lambda>_ _ _. 0" NULL 7 1] by auto
qed

end
