(* ===== verification/Event.thy ===== *)
theory Event
  imports Group_Map Entity "HOL-Library.Word"
begin

text \<open>
  The event manager (\<^verbatim>\<open>ecs/AEvent.h\<close>, \<^verbatim>\<open>ecs/AEvent.cpp\<close>): receivers subscribe to an event by name or by
  number.  Each of the two maps is a red-black tree of the first receiver of every key, whose list
  holds the further ones.  The code is a template over a helper; here the helper is a record of
  the functions it consists of, and the two instances are \<open>HelperByName\<close> and \<open>HelperByIndex\<close>.
  Both maps link the receivers by the same member, so their nodes are one heap \<open>map_nodes\<close> with two
  roots.
\<close>

section \<open>State\<close>

text \<open>
  \<open>recv_self\<close> is the further member of \<^verbatim>\<open>AReceiver2\<close>.  The name and the number of a receiver share
  their memory; a receiver is used by one of the two helpers.
\<close>

record receivers =
  recv_manager :: "addr \<Rightarrow> addr"
  recv_list :: list_head
  recv_name :: "addr \<Rightarrow> string"
  recv_index :: "addr \<Rightarrow> 64 word"
  recv_oneshot :: "addr \<Rightarrow> bool"
  recv_preproc :: "addr \<Rightarrow> bool"
  recv_self :: "addr \<Rightarrow> addr"
  recv_objects :: aobjects

record event_manager =
  map_nodes :: rb_node
  name_root :: addr
  name_count :: int
  index_root :: addr
  index_count :: int
  recv :: receivers

definition set_recv_list :: "(list_head \<Rightarrow> list_head) \<Rightarrow> event_manager \<Rightarrow> event_manager" where
  "set_recv_list f s = s\<lparr>recv := (recv s)\<lparr>recv_list := f (recv_list (recv s))\<rparr>\<rparr>"

definition set_objects :: "(aobjects \<Rightarrow> aobjects) \<Rightarrow> event_manager \<Rightarrow> event_manager" where
  "set_objects f s = s\<lparr>recv := (recv s)\<lparr>recv_objects := f (recv_objects (recv s))\<rparr>\<rparr>"

text \<open>\<^verbatim>\<open>AReceiver::init\<close> and \<^verbatim>\<open>AEventManager::init\<close>.\<close>

definition AReceiver_init :: "addr \<Rightarrow> event_manager \<Rightarrow> event_manager" where
  "AReceiver_init r s = s\<lparr>map_nodes := RB_CLEAR_NODE r (map_nodes s),
     recv := (recv s)\<lparr>recv_objects := AObject_init r (recv_objects (recv s)),
       recv_manager := (recv_manager (recv s))(r := NULL), recv_list := INIT_LIST_HEAD r (recv_list (recv s))\<rparr>\<rparr>"

definition AEventManager_init :: "event_manager \<Rightarrow> event_manager" where
  "AEventManager_init s = s\<lparr>name_root := NULL, name_count := 0, index_root := NULL, index_count := 0\<rparr>"

section \<open>The helpers\<close>

text \<open>\<^verbatim>\<open>strcmp\<close> compares the bytes as unsigned numbers.\<close>

fun strcmp :: "string \<Rightarrow> string \<Rightarrow> int" where
  "strcmp [] [] = 0"
| "strcmp [] (b # bs) = -1"
| "strcmp (a # as) [] = 1"
| "strcmp (a # as) (b # bs) = (if a = b then strcmp as bs else int (of_char a) - int (of_char b))"

definition ARecvCmpName :: "string \<Rightarrow> string \<Rightarrow> int" where
  "ARecvCmpName name r_name = strcmp name r_name"

definition ARecvCmpIndex :: "64 word \<Rightarrow> 64 word \<Rightarrow> int" where
  "ARecvCmpIndex index r_index = sint (ucast (index - r_index) :: 32 word)"

record 'k helper =
  key_of :: "receivers \<Rightarrow> addr \<Rightarrow> 'k"
  compare_key :: "'k \<Rightarrow> 'k \<Rightarrow> int"
  get_map :: "event_manager \<Rightarrow> rb_node"
  set_map :: "rb_node \<Rightarrow> event_manager \<Rightarrow> event_manager"
  get_count :: "event_manager \<Rightarrow> int"
  set_count :: "int \<Rightarrow> event_manager \<Rightarrow> event_manager"

definition HelperByName :: "string helper" where
  "HelperByName = \<lparr>
     key_of = recv_name,
     compare_key = ARecvCmpName,
     get_map = (\<lambda>s. (map_nodes s)\<lparr>rb_root := name_root s\<rparr>),
     set_map = (\<lambda>m s. s\<lparr>map_nodes := m, name_root := rb_root m\<rparr>),
     get_count = name_count,
     set_count = (\<lambda>n s. s\<lparr>name_count := n\<rparr>)\<rparr>"

definition HelperByIndex :: "64 word helper" where
  "HelperByIndex = \<lparr>
     key_of = recv_index,
     compare_key = ARecvCmpIndex,
     get_map = (\<lambda>s. (map_nodes s)\<lparr>rb_root := index_root s\<rparr>),
     set_map = (\<lambda>m s. s\<lparr>map_nodes := m, index_root := rb_root m\<rparr>),
     get_count = index_count,
     set_count = (\<lambda>n s. s\<lparr>index_count := n\<rparr>)\<rparr>"

definition find_recv :: "'k helper \<Rightarrow> 'k \<Rightarrow> event_manager \<Rightarrow> addr option" where
  "find_recv h k s = rb_find (\<lambda>x. compare_key h k (key_of h (recv s) x)) (get_map h s) (rb_root (get_map h s))"

definition insert_recv :: "'k helper \<Rightarrow> addr \<Rightarrow> event_manager \<Rightarrow> (addr \<times> event_manager) option" where
  "insert_recv h r s = do {
     (x, m) \<leftarrow> rb_insert (\<lambda>x. compare_key h (key_of h (recv s) r) (key_of h (recv s) x)) r (get_map h s);
     Some (x, set_map h m s)
   }"

section \<open>Subscribing\<close>

definition EM_subscribe :: "'k helper \<Rightarrow> addr \<Rightarrow> addr \<Rightarrow> event_manager \<Rightarrow> (bool \<times> event_manager) option" where
  "EM_subscribe h em r s =
     (let valid = (recv_manager (recv s) r = NULL \<and> RB_EMPTY_NODE (map_nodes s) r \<and> list_empty (recv_list (recv s)) r)
      in if valid
         then do {
           (first, s) \<leftarrow> insert_recv h r s;
           let s = (if first \<noteq> NULL then set_recv_list (list_add_tail r first) s else s);
           let s = s\<lparr>recv := (recv s)\<lparr>recv_manager := (recv_manager (recv s))(r := em)\<rparr>\<rparr>;
           let s = set_count h (get_count h s + 1) s;
           Some (True, set_objects (addref r) s)
         }
         else Some (False, s))"

definition erase_recv :: "'k helper \<Rightarrow> addr \<Rightarrow> addr \<Rightarrow> event_manager \<Rightarrow> event_manager option" where
  "erase_recv h first r s = do {
     s \<leftarrow> (if first \<noteq> r then Some (set_recv_list (list_del_init r) s)
          else if list_empty (recv_list (recv s)) first
          then do {
            m \<leftarrow> rb_erase first (get_map h s);
            Some (set_map h (RB_CLEAR_NODE first m) s)
          }
          else do {
            let r = nxt (recv_list (recv s)) first;
            m \<leftarrow> rb_replace_node first r (get_map h s);
            Some (set_recv_list (list_del_init first) (set_map h m s))
          });
     Some (set_count h (get_count h s - 1) s)
   }"

definition EM_unsubscribe :: "'k helper \<Rightarrow> addr \<Rightarrow> addr \<Rightarrow> event_manager \<Rightarrow> (bool \<times> event_manager) option" where
  "EM_unsubscribe h em r s =
     (let valid = (recv_manager (recv s) r = em \<and>
            (\<not> RB_EMPTY_NODE (map_nodes s) r \<or> \<not> list_empty (recv_list (recv s)) r))
      in if \<not> valid then Some (False, s)
         else do {
           first \<leftarrow> find_recv h (key_of h (recv s) r) s;
           if first = NULL then Some (False, s)
           else do {
             s \<leftarrow> erase_recv h first r s;
             Some (True, set_objects (release r) s)
           }
         })"

section \<open>Emitting an event\<close>

text \<open>
  \<open>on_event r p preproc\<close> is the receiver's function.  \<open>recvers\<close>, a pool of pointers in the code, is the
  list of the receivers that take the event; they are called with \<open>preproc\<close> false after the lock
  was given back, in the order of the list, and released.
\<close>

definition emit_one ::
    "'k helper \<Rightarrow> (addr \<Rightarrow> 'p \<Rightarrow> bool \<Rightarrow> int) \<Rightarrow> 'p \<Rightarrow> addr \<Rightarrow> addr \<Rightarrow> addr list \<Rightarrow> event_manager \<Rightarrow>
     (addr list \<times> event_manager) option" where
  "emit_one h on_event p first r recvers s =
     (if \<not> recv_preproc (recv s) r \<or> on_event r p True \<ge> 0
      then do {
        s \<leftarrow> (if recv_oneshot (recv s) r then erase_recv h first r s else Some (set_objects (addref r) s));
        Some (recvers @ [r], s)
      }
      else Some (recvers, s))"

partial_function (option) emit_followers ::
    "'k helper \<Rightarrow> (addr \<Rightarrow> 'p \<Rightarrow> bool \<Rightarrow> int) \<Rightarrow> 'p \<Rightarrow> addr \<Rightarrow> addr \<Rightarrow> addr list \<Rightarrow> event_manager \<Rightarrow>
     (addr list \<times> event_manager) option" where
  "emit_followers h on_event p first r recvers s =
     (if r = first then Some (recvers, s)
      else do {
        let next = nxt (recv_list (recv s)) r;
        (recvers, s) \<leftarrow> emit_one h on_event p first r recvers s;
        emit_followers h on_event p first next recvers s
      })"

definition EM_emit_event ::
    "'k helper \<Rightarrow> (addr \<Rightarrow> 'p \<Rightarrow> bool \<Rightarrow> int) \<Rightarrow> 'k \<Rightarrow> 'p \<Rightarrow> event_manager \<Rightarrow> (int \<times> addr list \<times> event_manager) option" where
  "EM_emit_event h on_event k p s = do {
     first \<leftarrow> find_recv h k s;
     if first = NULL then Some (0, [], s)
     else do {
       (recvers, s) \<leftarrow> emit_followers h on_event p first (nxt (recv_list (recv s)) first) [] s;
       (recvers, s) \<leftarrow> emit_one h on_event p first first recvers s;
       Some (int (length recvers), recvers, fold (\<lambda>r. set_objects (release r)) recvers s)
     }
   }"

section \<open>Clearing a map\<close>

text \<open>\<open>recvers\<close> is the local list the receivers are moved to.\<close>

partial_function (option) clear_followers :: "'k helper \<Rightarrow> addr \<Rightarrow> addr \<Rightarrow> event_manager \<Rightarrow> event_manager option" where
  "clear_followers h first recvers s =
     (if list_empty (recv_list (recv s)) first then Some s
      else do {
        let r = nxt (recv_list (recv s)) first;
        s \<leftarrow> erase_recv h first r s;
        clear_followers h first recvers (set_recv_list (list_add_tail r recvers) s)
      })"

partial_function (option) clear_map :: "'k helper \<Rightarrow> addr \<Rightarrow> event_manager \<Rightarrow> event_manager option" where
  "clear_map h recvers s =
     (if RB_EMPTY_ROOT (get_map h s) then Some s
      else do {
        first \<leftarrow> rb_first (get_map h s);
        s \<leftarrow> clear_followers h first recvers s;
        s \<leftarrow> erase_recv h first first s;
        clear_map h recvers (set_recv_list (list_add_tail first recvers) s)
      })"

partial_function (option) release_all :: "addr \<Rightarrow> int \<Rightarrow> event_manager \<Rightarrow> (int \<times> event_manager) option" where
  "release_all recvers n s =
     (if list_empty (recv_list (recv s)) recvers then Some (n, s)
      else let r = nxt (recv_list (recv s)) recvers;
               s = set_objects (release r) (set_recv_list (list_del_init r) s)
           in release_all recvers (n + 1) s)"

definition EM_clear_sub_map :: "'k helper \<Rightarrow> addr \<Rightarrow> event_manager \<Rightarrow> (int \<times> event_manager) option" where
  "EM_clear_sub_map h recvers s = do {
     let s = set_recv_list (INIT_LIST_HEAD recvers) s;
     s \<leftarrow> clear_map h recvers s;
     release_all recvers 0 s
   }"

section \<open>Receivers of events about one object\<close>

definition on_self_event :: "receivers \<Rightarrow> (addr \<Rightarrow> addr \<Rightarrow> bool \<Rightarrow> int) \<Rightarrow> addr \<Rightarrow> addr \<Rightarrow> bool \<Rightarrow> int" where
  "on_self_event rs func r p preproc = (if recv_self rs r \<noteq> p then -1 else func r p preproc)"

definition EM_sub_self :: "addr \<Rightarrow> addr \<Rightarrow> string \<Rightarrow> addr \<Rightarrow> event_manager \<Rightarrow> (addr \<times> event_manager) option" where
  "EM_sub_self em r2 name self s = do {
     let s = AReceiver_init r2 s;
     let s = s\<lparr>recv := (recv s)\<lparr>recv_name := (recv_name (recv s))(r2 := name),
       recv_oneshot := (recv_oneshot (recv s))(r2 := False), recv_preproc := (recv_preproc (recv s))(r2 := True),
       recv_self := (recv_self (recv s))(r2 := self)\<rparr>\<rparr>;
     (valid, s) \<leftarrow> EM_subscribe HelperByName em r2 s;
     Some (r2, s)
   }"

end
