(* ===== verification/Event_Groups.thy ===== *)
theory Event_Groups
  imports Event "HOL-Library.List_Lexorder"
begin

text \<open>
  Correctness of the event manager: both instances of its template keep the groups of receivers with
  the same key.  The locale states what the operations need of a helper; it is interpreted for the
  helper by name and, for numbers less than half the range of an \<^verbatim>\<open>int\<close> apart, for the one by
  number.
\<close>

section \<open>Several receivers\<close>

lemma fold_group_del:
  "distinct (group_nodes (as @ (x, us @ vs) # bs)) \<Longrightarrow>
   fold group_del (filter lv vs) (as @ (x, us @ vs) # bs) = as @ (x, us @ filter (\<lambda>r. \<not> lv r) vs) # bs"
proof (induction vs arbitrary: us)
  case (Cons v vs)
  have del: "group_del v (as @ (x, us @ v # vs) # bs) = as @ (x, us @ vs) # bs"
    using Cons.prems by (auto simp: group_del_skip remove1_append)
  show ?case
  proof (cases "lv v")
    case True
    then show ?thesis using Cons by (simp add: del)
  next
    case False
    then show ?thesis using Cons.IH[of "us @ [v]"] Cons.prems by simp
  qed
qed simp

lemma refcount_fold_addref: "distinct rs \<Longrightarrow> refcount (fold addref rs s) r = refcount s r + (if r \<in> set rs then 1 else 0)"
  by (induction rs arbitrary: s) auto

lemma refcount_fold_release: "distinct rs \<Longrightarrow> refcount (fold release rs s) r = refcount s r - (if r \<in> set rs then 1 else 0)"
  by (induction rs arbitrary: s) auto

lemma fold_set_objects: "fold (\<lambda>r. set_objects (f r)) rs s = set_objects (fold f rs) s"
  by (induction rs arbitrary: s) (simp_all add: set_objects_def)

text \<open>Replacing a node of a tree leaves its own link to its parent.\<close>

lemma replaced_node_linked:
  "rb_replace_node x y m = Some m' \<Longrightarrow> x \<noteq> y \<Longrightarrow> \<not> RB_EMPTY_NODE m x \<Longrightarrow> \<not> RB_EMPTY_NODE m' x"
  unfolding RB_EMPTY_NODE_def rb_replace_node_def relink_def get_def set_left_def set_right_def rb_set_parent_def rb_set_color_def
  by (auto split: if_splits bind_splits)

section \<open>The state between operations\<close>

text \<open>
  The receivers subscribed to the manager \<open>em\<close>: groups of the same key, the first receiver of each in
  the tree.  \<open>rank\<close> orders the keys as the tree does, as far as they are \<open>good\<close>.
\<close>

definition subscriptions ::
    "'k helper \<Rightarrow> ('k \<Rightarrow> 'o :: linorder) \<Rightarrow> ('k \<Rightarrow> bool) \<Rightarrow> addr \<Rightarrow> event_manager \<Rightarrow> groups \<Rightarrow> bool" where
  "subscriptions h rank good em s gs = (em \<noteq> NULL \<and>
     groups_ok (\<lambda>r. rank (key_of h (recv s) r)) (get_map h s) (recv_list (recv s)) gs \<and>
     get_count h s = int (length (group_nodes gs)) \<and>
     (\<forall>r \<in> set (group_nodes gs). good (key_of h (recv s) r) \<and> recv_manager (recv s) r = em))"

text \<open>A receiver that was initialised and never subscribed.\<close>

definition new_receiver :: "event_manager \<Rightarrow> addr \<Rightarrow> bool" where
  "new_receiver s r = (r \<noteq> NULL \<and> recv_manager (recv s) r = NULL \<and> RB_EMPTY_NODE (map_nodes s) r \<and> ring (recv_list (recv s)) r [])"

text \<open>Whether a receiver takes an event.\<close>

definition accepts :: "(addr \<Rightarrow> 'p \<Rightarrow> bool \<Rightarrow> int) \<Rightarrow> 'p \<Rightarrow> receivers \<Rightarrow> addr \<Rightarrow> bool" where
  "accepts on_event p rs r = (\<not> recv_preproc rs r \<or> on_event r p True \<ge> 0)"

section \<open>The interface of a helper\<close>

locale event_helper =
  fixes h :: "'k helper" and rank :: "'k \<Rightarrow> 'o :: linorder" and good :: "'k \<Rightarrow> bool"
  assumes compare_sound: "good a \<Longrightarrow> good b \<Longrightarrow> cmp_sound (compare_key h a b) (rank a) (rank b)"
    and rank_inj: "good a \<Longrightarrow> good b \<Longrightarrow> rank a = rank b \<Longrightarrow> a = b"
    and get_set: "get_map h (set_map h m s) = m" "get_count h (set_map h m s) = get_count h s" "recv (set_map h m s) = recv s"
      "get_count h (set_count h n s) = n" "get_map h (set_count h n s) = get_map h s" "recv (set_count h n s) = recv s"
      "get_map h (recv_update f s) = get_map h s" "get_count h (recv_update f s) = get_count h s"
    and map_nodes: "RB_EMPTY_NODE (map_nodes s) r = RB_EMPTY_NODE (get_map h s) r"
    and key_of: "key_of h (recv_list_update g rs) = key_of h rs" "key_of h (recv_manager_update j rs) = key_of h rs"
      "key_of h (recv_objects_update k rs) = key_of h rs"

begin

lemma set_recv_list [simp]:
  "get_map h (set_recv_list f s) = get_map h s" "get_count h (set_recv_list f s) = get_count h s"
  "recv (set_recv_list f s) = (recv s)\<lparr>recv_list := f (recv_list (recv s))\<rparr>"
  "get_map h (set_objects g s) = get_map h s" "get_count h (set_objects g s) = get_count h s"
  "recv (set_objects g s) = (recv s)\<lparr>recv_objects := g (recv_objects (recv s))\<rparr>"
  by (simp_all add: set_recv_list_def set_objects_def get_set)

lemmas helper_simps [simp] = get_set key_of

abbreviation subscribed :: "addr \<Rightarrow> event_manager \<Rightarrow> groups \<Rightarrow> bool" where
  "subscribed \<equiv> subscriptions h rank good"

lemmas subscribed_def = subscriptions_def[of h rank good]

lemma subscribedD:
  assumes "subscribed em s gs"
  shows "em \<noteq> NULL" and "groups_ok (\<lambda>r. rank (key_of h (recv s) r)) (get_map h s) (recv_list (recv s)) gs"
    and "get_count h s = int (length (group_nodes gs))"
    and "\<And>r. r \<in> set (group_nodes gs) \<Longrightarrow> good (key_of h (recv s) r)"
    and "\<And>r. r \<in> set (group_nodes gs) \<Longrightarrow> recv_manager (recv s) r = em"
  using assms by (auto simp: subscribed_def)

lemma EM_subscribe_groups:
  assumes sub: "subscribed em s gs" and new: "new_receiver s r" and g: "good (key_of h (recv s) r)"
  shows "\<exists>l s'. EM_subscribe h em r s = Some (True, s') \<and>
    subscribed em s' (group_add (\<lambda>r. rank (key_of h (recv s) r)) r gs) \<and>
    recv s' = (recv s)\<lparr>recv_manager := (recv_manager (recv s))(r := em), recv_list := l,
      recv_objects := addref r (recv_objects (recv s))\<rparr> \<and>
    (\<forall>y. y \<noteq> r \<longrightarrow> new_receiver s y \<longrightarrow> new_receiver s' y)"
proof -
  note i = subscribedD[OF sub]
  have r: "r \<noteq> NULL" "recv_manager (recv s) r = NULL" "RB_EMPTY_NODE (map_nodes s) r" "ring (recv_list (recv s)) r []"
    using new by (simp_all add: new_receiver_def)
  let ?key = "\<lambda>r. rank (key_of h (recv s) r)" and ?l = "recv_list (recv s)"
  have fresh: "r \<notin> set (group_nodes gs)" using i(1,5) r(2) by auto
  have cmp: "cmp_sound (compare_key h (key_of h (recv s) r) (key_of h (recv s) x)) (?key r) (?key x)" if "x \<in> fst ` set gs" for x
    using compare_sound[OF g] i(4) that leaders_nodes[of gs] by auto
  obtain x m where ins: "rb_insert (\<lambda>x. compare_key h (key_of h (recv s) r) (key_of h (recv s) x)) r (get_map h s) = Some (x, m)"
      "if x = NULL then ?key r \<notin> ?key ` set (map fst gs) else x \<in> fst ` set gs \<and> ?key x = ?key r \<and> m = get_map h s"
      "groups_ok ?key m (if x = NULL then ?l else list_add_tail r x ?l) (group_add ?key r gs)"
      "\<forall>y. y \<noteq> NULL \<longrightarrow> y \<notin> insert r (fst ` set gs) \<longrightarrow> RB_EMPTY_NODE m y = RB_EMPTY_NODE (get_map h s) y"
    using group_insert[OF i(2) r(1) fresh r(4), of "\<lambda>x. compare_key h (key_of h (recv s) r) (key_of h (recv s) x)", OF cmp refl]
    by blast
  define l where "l = (if x = NULL then ?l else list_add_tail r x ?l)"
  have "list_empty ?l r" using ring_empty_iff[OF r(4)] by simp
  then have run: "EM_subscribe h em r s = Some (True,
      let s = set_map h m s;
          s = (if x \<noteq> NULL then set_recv_list (list_add_tail r x) s else s);
          s = s\<lparr>recv := (recv s)\<lparr>recv_manager := (recv_manager (recv s))(r := em)\<rparr>\<rparr>
      in set_objects (addref r) (set_count h (get_count h s + 1) s))" (is "_ = Some (True, ?s)")
    using r ins(1) by (simp add: EM_subscribe_def insert_recv_def Let_def)
  have "distinct (group_nodes (group_add ?key r gs))" using ins(3) by (simp add: groups_ok_def)
  then have len: "length (group_nodes (group_add ?key r gs)) = Suc (length (group_nodes gs))"
    using fresh i(2) by (simp add: distinct_card[symmetric] set_group_add groups_ok_def)
  have s: "get_map h ?s = m" "get_count h ?s = get_count h s + 1" "key_of h (recv ?s) = key_of h (recv s)"
      "recv_list (recv ?s) = l" "recv_manager (recv ?s) = (recv_manager (recv s))(r := em)"
    by (simp_all add: Let_def l_def)
  have "subscribed em ?s (group_add ?key r gs)"
    unfolding subscribed_def s using i ins(3) len g by (auto simp: set_group_add l_def)
  moreover have "recv ?s = (recv s)\<lparr>recv_manager := (recv_manager (recv s))(r := em), recv_list := l,
      recv_objects := addref r (recv_objects (recv s))\<rparr>"
    by (simp add: Let_def l_def)
  moreover have "new_receiver ?s y" if y: "y \<noteq> r" "new_receiver s y" for y
  proof -
    have y': "y \<noteq> NULL" "y \<notin> set (group_nodes gs)" "ring ?l y []" "RB_EMPTY_NODE (get_map h s) y"
      using y(2) i(1,5) by (auto simp: new_receiver_def map_nodes)
    have "ring l y []"
    proof (cases "x = NULL")
      case False
      then obtain ys where xys: "(x, ys) \<in> set gs" using ins(2) by auto
      then have "ring ?l x ys" using i(2) by (auto simp: groups_ok_def)
      from ring_agree[OF agree_add_tail[OF this, of r], of y "[]"] show ?thesis
        using group_subset[OF xys] y(1) y'(2,3) False by (auto simp: l_def)
    qed (use y' in \<open>simp add: l_def\<close>)
    moreover have "RB_EMPTY_NODE (map_nodes ?s) y"
      unfolding map_nodes s(1) using ins(4) y' y(1) leaders_nodes[of gs] by auto
    moreover have "recv_manager (recv ?s) y = NULL" using y by (simp only: s new_receiver_def fun_upd_other not_False_eq_True)
    ultimately show ?thesis using y'(1) by (simp only: new_receiver_def s) blast
  qed
  ultimately show ?thesis using run by blast
qed

text \<open>Removing a receiver.\<close>

lemma erase_recv_groups:
  assumes sub: "subscribed em s gs" and gs: "gs = as @ (x, ys) # bs" and e: "e \<in> set (x # ys)"
  shows "\<exists>l s'. erase_recv h x e s = Some s' \<and> subscribed em s' (group_del e gs) \<and>
    recv s' = (recv s)\<lparr>recv_list := l\<rparr> \<and> ring l e [] \<and> agree_off (set (x # ys)) (recv_list (recv s)) l"
proof -
  note i = subscribedD[OF sub]
  let ?key = "\<lambda>r. rank (key_of h (recv s) r)" and ?l = "recv_list (recv s)"
  note ok = i(2)[unfolded gs]
  note o = groups_ok_group[OF ok]
  have new: "subscribed em s' (group_del e gs)"
    if "groups_ok ?key (get_map h s') l (group_del e gs)" "recv s' = (recv s)\<lparr>recv_list := l\<rparr>" "get_count h s' = get_count h s - 1" for s' l
  proof -
    have d: "distinct (group_nodes gs)" "e \<in> set (group_nodes gs)" using o(4) e by (auto simp: gs)
    then have "set (group_nodes (group_del e gs)) = set (group_nodes gs) - {e}" by (simp add: nodes_group_del)
    moreover have "int (length (group_nodes (group_del e gs))) = int (length (group_nodes gs)) - 1"
    proof -
      have "length (group_nodes (group_del e gs)) = length (group_nodes gs) - 1" using d(2) by (simp add: nodes_group_del length_remove1)
      then show ?thesis using length_pos_if_in_set[OF d(2)] by linarith
    qed
    ultimately show ?thesis using that i by (auto simp: subscribed_def)
  qed
  show ?thesis
  proof (cases "e = x")
    case False
    then obtain us vs where ys: "ys = us @ e # vs" using e by (auto dest: split_list)
    have del: "group_del e gs = as @ (x, us @ vs) # bs" using o(4) by (auto simp: gs ys group_del_skip remove1_append)
    have ring: "ring ?l x (us @ e # vs)" using o(1) by (simp add: ys)
    have "groups_ok ?key (get_map h s) (list_del_init e ?l) (group_del e gs)" "ring (list_del_init e ?l) e []"
      using group_del_follower[of ?key "get_map h s" ?l as x us e vs bs] ok unfolding del ys by blast+
    moreover have "agree_off (set (x # ys)) ?l (list_del_init e ?l)"
      unfolding ys by (rule agree_del_init[OF ring])
    moreover have "erase_recv h x e s = Some (set_count h (get_count h s - 1) (set_recv_list (list_del_init e) s))"
      using False by (simp add: erase_recv_def)
    ultimately show ?thesis
      by (intro exI[of _ "list_del_init e ?l"] exI[of _ "set_count h (get_count h s - 1) (set_recv_list (list_del_init e) s)"])
        (auto intro!: new)
  next
    case x: True
    show ?thesis
    proof (cases ys)
      case Nil
      have del: "group_del e gs = as @ bs" using o(4) by (simp add: gs x Nil group_del_skip)
      have ring: "ring ?l x []" using o(1) Nil by simp
      obtain m where m: "rb_erase x (get_map h s) = Some m" "groups_ok ?key m ?l (as @ bs)"
        using group_del_single[of ?key "get_map h s" ?l as x bs] ok unfolding Nil by blast
      let ?s = "set_count h (get_count h s - 1) (set_map h (RB_CLEAR_NODE x m) s)"
      have "x \<notin> set (map fst (as @ bs))" using o(4) leaders_nodes[of as] leaders_nodes[of bs] by auto
      then have "groups_ok ?key (RB_CLEAR_NODE x m) ?l (as @ bs)"
        using m(2) nm.repr_clear[of m "map fst (as @ bs)" x] by (auto simp: groups_ok_def)
      moreover have "erase_recv h x e s = Some ?s"
        using ring_empty_iff[OF ring] m(1) by (simp add: erase_recv_def x)
      moreover have "recv ?s = (recv s)\<lparr>recv_list := ?l\<rparr>" by simp
      ultimately show ?thesis
        using new[of ?s ?l] ring unfolding del by (intro exI[of _ ?l] exI[of _ ?s]) (auto simp: x)
    next
      case (Cons y zs)
      have del: "group_del e gs = as @ (y, zs) # bs" using o(4) by (simp add: gs x Cons group_del_skip)
      have ring: "ring ?l x (y # zs)" using o(1) Cons by simp
      obtain m where m: "rb_replace_node x y (get_map h s) = Some m" "groups_ok ?key m (list_del_init x ?l) (as @ (y, zs) # bs)"
        using group_del_leader(1)[of ?key "get_map h s" ?l as x y zs bs] ok unfolding Cons by blast
      have l: "nxt ?l x = y" "ring (list_del_init x ?l) x []"
        using group_del_leader(2,3)[of ?key "get_map h s" ?l as x y zs bs] ok unfolding Cons by blast+
      let ?s = "set_count h (get_count h s - 1) (set_recv_list (list_del_init x) (set_map h m s))"
      have "\<not> list_empty ?l x" using ring ring_empty_iff by blast
      then have "erase_recv h x e s = Some ?s" using m(1) l(1) by (simp add: erase_recv_def x)
      moreover have "ring ?l y (zs @ x # [])" using ring_rotate[of ?l x "[]" y zs] ring by simp
      then have "agree_off (set (x # ys)) ?l (list_del_init x ?l)"
        unfolding Cons by (rule agree_off_mono[OF agree_del_init]) auto
      moreover have "recv ?s = (recv s)\<lparr>recv_list := list_del_init x ?l\<rparr>" by simp
      ultimately show ?thesis
        using new[of ?s "list_del_init x ?l"] m(2) l(2) unfolding del
        by (intro exI[of _ "list_del_init x ?l"] exI[of _ ?s]) (auto simp: x)
    qed
  qed
qed

lemma find_recv_groups:
  assumes sub: "subscribed em s gs" and xy: "(x, ys) \<in> set gs" and e: "e \<in> set (x # ys)"
  shows "find_recv h (key_of h (recv s) e) s = Some x"
proof -
  note i = subscribedD[OF sub]
  have "e \<in> set (group_nodes gs)" using group_subset[OF xy] e by blast
  then have "cmp_sound (compare_key h (key_of h (recv s) e) (key_of h (recv s) z)) (rank (key_of h (recv s) e)) (rank (key_of h (recv s) z))"
    if "z \<in> fst ` set gs" for z
    using that leaders_nodes[of gs] i(4) by (intro compare_sound) auto
  then show ?thesis using group_find[OF i(2) xy e] by (simp add: find_recv_def)
qed

lemma erase_recv_clears:
  assumes "erase_recv h x r s = Some s'"
    and "r \<noteq> x \<and> RB_EMPTY_NODE (map_nodes s) r \<or> r = x \<and> list_empty (recv_list (recv s)) x"
  shows "RB_EMPTY_NODE (map_nodes s') r"
proof -
  have "RB_EMPTY_NODE (RB_CLEAR_NODE r m) r" for m by (simp add: RB_EMPTY_NODE_def RB_CLEAR_NODE_def)
  then show ?thesis using assms unfolding map_nodes by (auto simp: erase_recv_def split: bind_splits if_splits)
qed

lemma EM_unsubscribe_groups:
  assumes sub: "subscribed em s gs" and r: "r \<in> set (group_nodes gs)"
  shows "\<exists>s'. EM_unsubscribe h em r s = Some (True, s') \<and> subscribed em s' (group_del r gs) \<and>
    ring (recv_list (recv s')) r [] \<and> recv_objects (recv s') = release r (recv_objects (recv s)) \<and>
    EM_subscribe h em r s' = Some (False, s') \<and>
    ((r, []) \<in> set gs \<or> RB_EMPTY_NODE (map_nodes s) r \<longrightarrow> EM_unsubscribe h em r s' = Some (False, s'))"
proof -
  note i = subscribedD[OF sub]
  obtain as x ys bs where gs: "gs = as @ (x, ys) # bs" and rx: "r \<in> set (x # ys)" using group_split[OF r] .
  note o = groups_ok_group[OF i(2)[unfolded gs]]
  have linked: "\<not> RB_EMPTY_NODE (map_nodes s) r \<or> \<not> list_empty (recv_list (recv s)) r"
  proof (cases "r = x")
    case True
    then show ?thesis using nm.repr_linked[OF o(3), of x] by (simp add: map_nodes)
  next
    case False
    then obtain us vs where ys: "ys = us @ r # vs" using rx by (auto dest: split_list)
    have "ring (recv_list (recv s)) r (vs @ x # us)" using ring_rotate[of _ x us r vs] o(1) ys by simp
    from ring_empty_iff[OF this] show ?thesis by simp
  qed
  obtain l s1 where e: "erase_recv h x r s = Some s1" "subscribed em s1 (group_del r gs)"
      "recv s1 = (recv s)\<lparr>recv_list := l\<rparr>" "ring l r []"
    using erase_recv_groups[OF sub gs rx] by blast
  have f: "find_recv h (key_of h (recv s) r) s = Some x"
    by (rule find_recv_groups[OF sub _ rx]) (simp add: gs)
  have "x \<noteq> NULL" using o(5) by simp
  then have run: "EM_unsubscribe h em r s = Some (True, set_objects (release r) s1)"
    using linked i(5)[OF r] f e(1) by (simp add: EM_unsubscribe_def)
  have sub1: "subscribed em (set_objects (release r) s1) (group_del r gs)" using e(2) by (simp add: subscribed_def)
  have again: "EM_subscribe h em r (set_objects (release r) s1) = Some (False, set_objects (release r) s1)"
    using i(1) i(5)[OF r] e(3) by (simp add: EM_subscribe_def)
  have "EM_unsubscribe h em r (set_objects (release r) s1) = Some (False, set_objects (release r) s1)"
    if lone: "(r, []) \<in> set gs \<or> RB_EMPTY_NODE (map_nodes s) r"
  proof -
    have "r \<noteq> x \<and> RB_EMPTY_NODE (map_nodes s) r \<or> r = x \<and> list_empty (recv_list (recv s)) x"
    proof (cases "r = x")
      case True
      then have "(r, []) \<in> set gs" using lone nm.repr_linked[OF o(3), of x] by (auto simp: map_nodes)
      then have "ring (recv_list (recv s)) r []" using i(2) by (auto simp: groups_ok_def)
      from ring_empty_iff[OF this] show ?thesis using True by simp
    next
      case False
      have "(r, []) \<notin> set gs" using o(4) rx False group_subset[of r "[]" as] group_subset[of r "[]" bs] by (auto simp: gs)
      then show ?thesis using lone False by simp
    qed
    from erase_recv_clears[OF e(1) this] show ?thesis
      using ring_empty_iff[OF e(4)] e(3) by (simp add: EM_unsubscribe_def map_nodes)
  qed
  then show ?thesis using run sub1 again e(3,4) by auto
qed

text \<open>
  Emitting an event: of the receivers of its key, those that accept it take it, the first of the
  group last; one-shot receivers that take it are unsubscribed.
\<close>

lemma accepts_update [simp]:
  "accepts on_event p (recv_list_update g rs) = accepts on_event p rs"
  "accepts on_event p (recv_objects_update k rs) = accepts on_event p rs"
  by (simp_all add: accepts_def fun_eq_iff)

lemma subscribed_objects [simp]: "subscribed em (set_objects f s) gs = subscribed em s gs"
  by (simp add: subscribed_def)

lemma emit_one_groups:
  fixes on_event :: "addr \<Rightarrow> 'p \<Rightarrow> bool \<Rightarrow> int" and p :: 'p
  assumes sub: "subscribed em s gs" and gs: "gs = as @ (x, ys) # bs" and e: "e \<in> set (x # ys)"
  defines "ok \<equiv> accepts on_event p (recv s) e" and "leaves \<equiv> recv_oneshot (recv s) e"
  shows "\<exists>l s'. emit_one h on_event p x e recvers s = Some (recvers @ (if ok then [e] else []), s') \<and>
    subscribed em s' (if ok \<and> leaves then group_del e gs else gs) \<and>
    recv s' = (recv s)\<lparr>recv_list := l,
      recv_objects := (if ok \<and> \<not> leaves then addref e (recv_objects (recv s)) else recv_objects (recv s))\<rparr>"
proof (cases "ok \<and> leaves")
  case True
  obtain l s1 where "erase_recv h x e s = Some s1" "subscribed em s1 (group_del e gs)" "recv s1 = (recv s)\<lparr>recv_list := l\<rparr>"
    using erase_recv_groups[OF sub gs e] by blast
  then show ?thesis using True by (intro exI[of _ l] exI[of _ s1]) (auto simp: emit_one_def ok_def leaves_def accepts_def)
next
  case False
  then have "emit_one h on_event p x e recvers s = Some (recvers @ (if ok then [e] else []),
      if ok then set_objects (addref e) s else s)"
    by (auto simp: emit_one_def ok_def leaves_def accepts_def)
  then show ?thesis
    using False sub by (intro exI[of _ "recv_list (recv s)"] exI[of _ "if ok then set_objects (addref e) s else s"]) auto
qed

lemma emit_followers_groups:
  assumes "subscribed em s (as @ (x, us @ vs) # bs)"
  shows "\<exists>l s'. emit_followers h on_event p x (hd (vs @ [x])) recvers s =
      Some (recvers @ filter (accepts on_event p (recv s)) vs, s') \<and>
    subscribed em s' (as @ (x, us @ filter (\<lambda>r. \<not> (accepts on_event p (recv s) r \<and> recv_oneshot (recv s) r)) vs) # bs) \<and>
    recv s' = (recv s)\<lparr>recv_list := l,
      recv_objects := fold addref (filter (\<lambda>r. accepts on_event p (recv s) r \<and> \<not> recv_oneshot (recv s) r) vs)
        (recv_objects (recv s))\<rparr>"
  using assms
proof (induction vs arbitrary: us recvers s)
  case Nil
  then show ?case by (subst emit_followers.simps) (auto intro!: exI[of _ "recv_list (recv s)"])
next
  case (Cons v vs)
  let ?gs = "as @ (x, us @ v # vs) # bs"
  note o = groups_ok_group[OF subscribedD(2)[OF Cons.prems]]
  have v: "v \<noteq> x" "v \<notin> set (group_nodes as @ us @ vs)" using o(4) by auto
  have nx: "nxt (recv_list (recv s)) v = hd (vs @ [x])"
    using ring_head[OF ring_rotate[OF o(1)]] by (cases vs) simp_all
  have del: "group_del v ?gs = as @ (x, us @ vs) # bs" using v by (simp add: group_del_skip remove1_append)
  have vin: "v \<in> set (x # us @ v # vs)" by simp
  let ?ok = "accepts on_event p (recv s) v" and ?lv = "recv_oneshot (recv s) v"
  obtain l1 s1 where 1: "emit_one h on_event p x v recvers s = Some (recvers @ (if ?ok then [v] else []), s1)"
      "subscribed em s1 (if ?ok \<and> ?lv then as @ (x, us @ vs) # bs else ?gs)"
      "recv s1 = (recv s)\<lparr>recv_list := l1,
        recv_objects := (if ?ok \<and> \<not> ?lv then addref v (recv_objects (recv s)) else recv_objects (recv s))\<rparr>"
    using emit_one_groups[OF Cons.prems refl vin, of on_event p recvers] unfolding del by blast
  define us' where "us' = (if ?ok \<and> ?lv then us else us @ [v])"
  have sub1: "subscribed em s1 (as @ (x, us' @ vs) # bs)" using 1(2) unfolding us'_def by (auto split: if_splits)
  obtain l s' where 2: "emit_followers h on_event p x (hd (vs @ [x])) (recvers @ (if ?ok then [v] else [])) s1 =
        Some ((recvers @ (if ?ok then [v] else [])) @ filter (accepts on_event p (recv s1)) vs, s')"
      "subscribed em s' (as @ (x, us' @ filter (\<lambda>r. \<not> (accepts on_event p (recv s1) r \<and> recv_oneshot (recv s1) r)) vs) # bs)"
      "recv s' = (recv s1)\<lparr>recv_list := l,
        recv_objects := fold addref (filter (\<lambda>r. accepts on_event p (recv s1) r \<and> \<not> recv_oneshot (recv s1) r) vs)
          (recv_objects (recv s1))\<rparr>"
    using Cons.IH[OF sub1] by blast
  have same: "accepts on_event p (recv s1) = accepts on_event p (recv s)" "recv_oneshot (recv s1) = recv_oneshot (recv s)"
    by (simp_all add: 1(3))
  have "emit_followers h on_event p x (hd ((v # vs) @ [x])) recvers s =
      Some (recvers @ filter (accepts on_event p (recv s)) (v # vs), s')"
    using v(1) 1(1) 2(1) nx by (subst emit_followers.simps) (simp add: Let_def same)
  then show ?case
    using 2(2,3) unfolding same by (intro exI[of _ l] exI[of _ s']) (auto simp: us'_def 1(3))
qed

lemma find_recv_none:
  assumes sub: "subscribed em s gs" and k: "good k" and none: "\<And>r. r \<in> set (group_nodes gs) \<Longrightarrow> key_of h (recv s) r \<noteq> k"
  shows "find_recv h k s = Some NULL"
proof -
  note i = subscribedD[OF sub]
  have x: "x \<in> set (group_nodes gs)" if "x \<in> set (map fst gs)" for x using that leaders_nodes[of gs] by auto
  have "rb_map (get_map h s) (map fst gs)" "keyed (\<lambda>r. rank (key_of h (recv s) r)) (map fst gs)"
    using i(2) by (simp_all add: groups_ok_def)
  moreover have "cmp_sound (compare_key h k (key_of h (recv s) z)) (rank k) (rank (key_of h (recv s) z))" if "z \<in> set (map fst gs)" for z
    using compare_sound[OF k] i(4) x[OF that] by blast
  ultimately have "find_recv h k s = Some (hd_node (filter (\<lambda>z. rank (key_of h (recv s) z) = rank k) (map fst gs)))"
    unfolding find_recv_def by (rule nm.find_keyed)
  moreover have "filter (\<lambda>z. rank (key_of h (recv s) z) = rank k) (map fst gs) = []"
    unfolding filter_empty_conv using rank_inj[OF _ k] i(4) none x by blast
  ultimately show ?thesis by simp
qed

lemma EM_emit_groups:
  fixes on_event :: "addr \<Rightarrow> 'p \<Rightarrow> bool \<Rightarrow> int" and p :: 'p
  assumes sub: "subscribed em s gs" and xy: "(x, ys) \<in> set gs"
    and called: "called = filter (accepts on_event p (recv s)) (ys @ [x])"
  shows "\<exists>s'. EM_emit_event h on_event (key_of h (recv s) x) p s = Some (int (length called), called, s') \<and>
    subscribed em s' (fold group_del (filter (recv_oneshot (recv s)) called) gs) \<and>
    (\<forall>r. refcount (recv_objects (recv s')) r =
      refcount (recv_objects (recv s)) r - (if r \<in> set called \<and> recv_oneshot (recv s) r then 1 else 0))"
proof -
  obtain as bs where gs: "gs = as @ (x, ys) # bs" using xy by (auto dest: split_list)
  note i = subscribedD[OF sub]
  note o = groups_ok_group[OF i(2)[unfolded gs]]
  let ?acc = "accepts on_event p (recv s)" and ?one = "recv_oneshot (recv s)"
  have f: "find_recv h (key_of h (recv s) x) s = Some x" by (rule find_recv_groups[OF sub xy]) simp
  have nx: "nxt (recv_list (recv s)) x = hd (ys @ [x])" by (rule ring_head(1)[OF o(1)])
  have sub0: "subscribed em s (as @ (x, [] @ ys) # bs)" using sub gs by simp
  define ys' where "ys' = filter (\<lambda>r. \<not> (?acc r \<and> ?one r)) ys"
  define keep where "keep = filter (\<lambda>r. ?acc r \<and> \<not> ?one r) ys"
  obtain l1 s1 where 1: "emit_followers h on_event p x (hd (ys @ [x])) [] s = Some (filter ?acc ys, s1)"
      "subscribed em s1 (as @ (x, ys') # bs)" "recv s1 = (recv s)\<lparr>recv_list := l1, recv_objects := fold addref keep (recv_objects (recv s))\<rparr>"
    using emit_followers_groups[OF sub0, of on_event p "[]"] by (auto simp: ys'_def keep_def)
  have same: "accepts on_event p (recv s1) = ?acc" "recv_oneshot (recv s1) = ?one" by (simp_all add: 1(3))
  have xin: "x \<in> set (x # ys')" by simp
  obtain l2 s2 where 2: "emit_one h on_event p x x (filter ?acc ys) s1 = Some (filter ?acc ys @ (if ?acc x then [x] else []), s2)"
      "subscribed em s2 (if ?acc x \<and> ?one x then group_del x (as @ (x, ys') # bs) else as @ (x, ys') # bs)"
      "recv s2 = (recv s1)\<lparr>recv_list := l2,
        recv_objects := (if ?acc x \<and> \<not> ?one x then addref x (recv_objects (recv s1)) else recv_objects (recv s1))\<rparr>"
    using emit_one_groups[OF 1(2) refl xin, of on_event p "filter ?acc ys"] unfolding same by blast
  define s3 where "s3 = fold (\<lambda>r. set_objects (release r)) called s2"
  have called': "filter ?acc ys @ (if ?acc x then [x] else []) = called" by (simp add: called)
  have "x \<noteq> NULL" using o(5) by simp
  then have run: "EM_emit_event h on_event (key_of h (recv s) x) p s = Some (int (length called), called, s3)"
    using f nx 1(1) 2(1) by (simp add: EM_emit_event_def called' s3_def)
  have dist: "distinct (group_nodes (as @ (x, [] @ ys) # bs))" using o(4) by simp
  have "fold group_del (filter ?one (filter ?acc ys)) gs = as @ (x, ys') # bs"
    using fold_group_del[OF dist, of "\<lambda>r. ?acc r \<and> ?one r"] by (simp add: gs ys'_def conj_commute)
  then have "subscribed em s2 (fold group_del (filter ?one called) gs)" using 2(2) by (auto simp: called split: if_splits)
  then have "subscribed em s3 (fold group_del (filter ?one called) gs)" by (simp add: s3_def fold_set_objects)
  moreover have "recv_objects (recv s3) = fold release called (fold addref (filter (\<lambda>r. \<not> ?one r) called) (recv_objects (recv s)))"
    unfolding s3_def fold_set_objects by (simp add: 2(3) 1(3) keep_def called conj_commute)
  moreover have "distinct called" using o(4) by (auto simp: called)
  ultimately show ?thesis
    using run by (auto simp: refcount_fold_addref refcount_fold_release)
qed

text \<open>Clearing: the receivers move to the local list \<open>W\<close>, those behind the first before it.\<close>

lemma subscribed_links:
  assumes "subscribed em s gs" and "agree_off T (recv_list (recv s)) (f (recv_list (recv s)))" and "T \<inter> set (group_nodes gs) = {}"
  shows "subscribed em (set_recv_list f s) gs"
  using assms(1) groups_ok_links[OF subscribedD(2)[OF assms(1)] assms(2,3)] by (simp add: subscribed_def)

lemma clear_step:
  assumes sub: "subscribed em s gs" and gs: "gs = as @ (x, ys) # bs" and e: "e \<in> set (x # ys)"
    and W: "ring (recv_list (recv s)) W ws" "set (W # ws) \<inter> set (group_nodes gs) = {}"
  shows "\<exists>l s1 s2. erase_recv h x e s = Some s1 \<and> s2 = set_recv_list (list_add_tail e W) s1 \<and>
    subscribed em s2 (group_del e gs) \<and> ring (recv_list (recv s2)) W (ws @ [e]) \<and> recv s2 = (recv s)\<lparr>recv_list := l\<rparr>"
proof -
  obtain l s1 where 1: "erase_recv h x e s = Some s1" "subscribed em s1 (group_del e gs)" "recv s1 = (recv s)\<lparr>recv_list := l\<rparr>"
      "ring l e []" "agree_off (set (x # ys)) (recv_list (recv s)) l"
    using erase_recv_groups[OF sub gs e] by blast
  have W1: "ring l W ws" by (rule ring_keep[OF 1(5) W(1)]) (use W(2) gs in auto)
  have eW: "e \<notin> set (W # ws)" using W(2) e by (auto simp: gs)
  have ring: "ring (list_add_tail e W l) W (ws @ [e])" by (rule list_add_tail_ring[OF W1 eW])
  have "distinct (group_nodes gs)" using subscribedD(2)[OF sub] by (simp add: groups_ok_def)
  then have dis: "set (e # W # ws) \<inter> set (group_nodes (group_del e gs)) = {}" using W(2) by (auto simp: nodes_group_del)
  have "subscribed em (set_recv_list (list_add_tail e W) s1) (group_del e gs)"
    by (rule subscribed_links[OF 1(2) _ dis]) (use agree_add_tail[OF W1, of e] 1(3) in simp)
  then show ?thesis using 1(1,3) ring by auto
qed

lemma clear_followers_groups:
  assumes "subscribed em s (as @ (x, ys) # bs)" and "ring (recv_list (recv s)) W ws"
    and "set (W # ws) \<inter> set (group_nodes (as @ (x, ys) # bs)) = {}"
  shows "\<exists>l s'. clear_followers h x W s = Some s' \<and> subscribed em s' (as @ (x, []) # bs) \<and>
    ring (recv_list (recv s')) W (ws @ ys) \<and> recv s' = (recv s)\<lparr>recv_list := l\<rparr>"
  using assms
proof (induction ys arbitrary: s ws)
  case Nil
  then have "list_empty (recv_list (recv s)) x"
    using ring_empty_iff[OF groups_ok_group(1)[OF subscribedD(2)[OF Nil.prems(1)]]] by simp
  then show ?case using Nil.prems by (subst clear_followers.simps) (auto intro!: exI[of _ "recv_list (recv s)"])
next
  case (Cons y ys)
  note o = groups_ok_group[OF subscribedD(2)[OF Cons.prems(1)]]
  have ne: "\<not> list_empty (recv_list (recv s)) x" "nxt (recv_list (recv s)) x = y"
    using ring_empty_iff[OF o(1)] ring_head[OF o(1)] by simp_all
  have del: "group_del y (as @ (x, y # ys) # bs) = as @ (x, ys) # bs" using o(4) by (auto simp: group_del_skip)
  have yin: "y \<in> set (x # y # ys)" by simp
  obtain l1 s1 s2 where 1: "erase_recv h x y s = Some s1" "s2 = set_recv_list (list_add_tail y W) s1"
      "subscribed em s2 (as @ (x, ys) # bs)" "ring (recv_list (recv s2)) W (ws @ [y])" "recv s2 = (recv s)\<lparr>recv_list := l1\<rparr>"
    using clear_step[OF Cons.prems(1) refl yin Cons.prems(2,3)] unfolding del by blast
  have dis: "set (W # ws @ [y]) \<inter> set (group_nodes (as @ (x, ys) # bs)) = {}" using Cons.prems(3) o(4) by auto
  have step: "clear_followers h x W s = clear_followers h x W s2"
    using ne 1(1,2) by (subst clear_followers.simps) (simp add: Let_def)
  show ?case using Cons.IH[OF 1(3,4) dis] 1(5) unfolding step by auto
qed

lemma clear_map_groups:
  assumes "subscribed em s gs" and "ring (recv_list (recv s)) W ws" and "set (W # ws) \<inter> set (group_nodes gs) = {}"
  shows "\<exists>l s'. clear_map h W s = Some s' \<and> subscribed em s' [] \<and>
    ring (recv_list (recv s')) W (ws @ fired gs) \<and> recv s' = (recv s)\<lparr>recv_list := l\<rparr>"
  using assms
proof (induction gs arbitrary: s ws)
  case Nil
  have "rb_map (get_map h s) []" using subscribedD(2)[OF Nil.prems(1)] by (simp add: groups_ok_def)
  from nm.repr_is_empty[OF this] Nil.prems show ?case
    by (subst clear_map.simps) (auto intro!: exI[of _ "recv_list (recv s)"])
next
  case (Cons g gs)
  obtain x ys where g: "g = (x, ys)" by (cases g)
  note prems = Cons.prems[unfolded g]
  have sub0: "subscribed em s ([] @ (x, ys) # gs)" using prems(1) by simp
  note o = groups_ok_group[OF subscribedD(2)[OF sub0]]
  have m: "rb_map (get_map h s) (x # map fst gs)" using o(3) by simp
  obtain l1 s1 where 1: "clear_followers h x W s = Some s1" "subscribed em s1 ((x, []) # gs)"
      "ring (recv_list (recv s1)) W (ws @ ys)" "recv s1 = (recv s)\<lparr>recv_list := l1\<rparr>"
    using clear_followers_groups[OF sub0 prems(2)] prems(3) by auto
  have sub1: "subscribed em s1 ([] @ (x, []) # gs)" using 1(2) by simp
  have dis: "set (W # ws @ ys) \<inter> set (group_nodes ([] @ (x, []) # gs)) = {}"
    "set (W # (ws @ ys) @ [x]) \<inter> set (group_nodes gs) = {}" using prems(3) o(4) by auto
  obtain l2 s2 s3 where 2: "erase_recv h x x s1 = Some s2" "s3 = set_recv_list (list_add_tail x W) s2"
      "subscribed em s3 gs" "ring (recv_list (recv s3)) W ((ws @ ys) @ [x])" "recv s3 = (recv s1)\<lparr>recv_list := l2\<rparr>"
    using clear_step[OF sub1 refl _ 1(3) dis(1), of x] by auto
  have step: "clear_map h W s = clear_map h W s3"
    using nm.repr_is_empty[OF m] nm.repr_first[OF m] 1(1) 2(1,2) by (subst clear_map.simps) simp
  show ?case using Cons.IH[OF 2(3,4) dis(2)] 2(5) 1(4) unfolding step g by auto
qed

lemma release_all_ring:
  "ring (recv_list (recv s)) W ws \<Longrightarrow> \<exists>l. release_all W n s = Some (n + int (length ws),
     set_objects (fold release ws) (set_recv_list (\<lambda>_. l) s)) \<and> ring l W [] \<and>
     agree_off (set (W # ws)) (recv_list (recv s)) l"
proof (induction ws arbitrary: n s)
  case Nil
  then show ?case
    by (subst release_all.simps)
      (auto simp: ring_empty_iff set_objects_def set_recv_list_def intro!: exI[of _ "recv_list (recv s)"])
next
  case (Cons w ws)
  note r = Cons.prems
  let ?s = "set_objects (release w) (set_recv_list (list_del_init w) s)"
  have ne: "\<not> list_empty (recv_list (recv s)) W" "nxt (recv_list (recv s)) W = w"
    using ring_empty_iff[OF r] ring_head[OF r] by simp_all
  have r1: "ring (recv_list (recv ?s)) W ws" using list_del_init_ring(1)[of "recv_list (recv s)" W "[]" w ws] r by simp
  have ag: "agree_off (set (W # w # ws)) (recv_list (recv s)) (recv_list (recv ?s))"
    using agree_del_init[of "recv_list (recv s)" W "[]" w ws] r by simp
  obtain l where l: "release_all W (n + 1) ?s = Some ((n + 1) + int (length ws), set_objects (fold release ws) (set_recv_list (\<lambda>_. l) ?s))"
      "ring l W []" "agree_off (set (W # ws)) (recv_list (recv ?s)) l"
    using Cons.IH[OF r1] by blast
  have "agree_off (set (W # w # ws)) (recv_list (recv s)) l"
    by (rule agree_off_trans[OF ag agree_off_mono[OF l(3)]]) auto
  moreover have "set_objects (fold release ws) (set_recv_list (\<lambda>_. l) ?s) =
      set_objects (fold release (w # ws)) (set_recv_list (\<lambda>_. l) s)"
    by (simp add: set_objects_def set_recv_list_def)
  ultimately show ?case using l(1,2) ne by (subst release_all.simps) (auto simp: Let_def intro!: exI[of _ l])
qed

lemma EM_clear_groups:
  assumes sub: "subscribed em s gs" and W: "W \<notin> set (group_nodes gs)"
  shows "\<exists>s'. EM_clear_sub_map h W s = Some (int (length (group_nodes gs)), s') \<and> subscribed em s' [] \<and>
    recv_objects (recv s') = fold release (fired gs) (recv_objects (recv s))"
proof -
  let ?s0 = "set_recv_list (INIT_LIST_HEAD W) s"
  have sub0: "subscribed em ?s0 gs" by (rule subscribed_links[OF sub, of "{W}"]) (use W agree_init in simp_all)
  have W0: "ring (recv_list (recv ?s0)) W []" by (simp add: INIT_LIST_HEAD_ring)
  obtain l s1 where 1: "clear_map h W ?s0 = Some s1" "subscribed em s1 []" "ring (recv_list (recv s1)) W (fired gs)"
      "recv s1 = (recv ?s0)\<lparr>recv_list := l\<rparr>"
    using clear_map_groups[OF sub0 W0] W by auto
  obtain l2 where 2: "release_all W 0 s1 = Some (int (length (fired gs)), set_objects (fold release (fired gs)) (set_recv_list (\<lambda>_. l2) s1))"
    using release_all_ring[OF 1(3), of 0] by auto
  let ?s2 = "set_objects (fold release (fired gs)) (set_recv_list (\<lambda>_. l2) s1)"
  have "length (fired gs) = length (group_nodes gs)" by (induction gs) auto
  then have "EM_clear_sub_map h W s = Some (int (length (group_nodes gs)), ?s2)" using 1(1) 2 by (simp add: EM_clear_sub_map_def)
  moreover have "subscribed em ?s2 []" using 1(2) by (simp add: subscribed_def groups_ok_def)
  moreover have "recv_objects (recv ?s2) = fold release (fired gs) (recv_objects (recv s))" by (simp add: 1(4))
  ultimately show ?thesis by blast
qed

text \<open>
  Unsubscribing the first receiver of a group leaves its tree node in place, so that unsubscribing it
  again is not noticed: the count is decremented and the receiver released once more.
\<close>

lemma EM_unsubscribe_twice:
  assumes sub: "subscribed em s gs" and xy: "(x, y # ys) \<in> set gs"
  shows "\<exists>s1 s2. EM_unsubscribe h em x s = Some (True, s1) \<and> subscribed em s1 (group_del x gs) \<and>
    EM_unsubscribe h em x s1 = Some (True, s2) \<and> get_count h s2 = get_count h s1 - 1 \<and>
    recv_objects (recv s2) = release x (release x (recv_objects (recv s)))"
proof -
  obtain as bs where gs: "gs = as @ (x, y # ys) # bs" using xy by (auto dest: split_list)
  note i = subscribedD[OF sub]
  note o = groups_ok_group[OF i(2)[unfolded gs]]
  let ?l = "recv_list (recv s)"
  have x: "x \<in> set (group_nodes gs)" "x \<noteq> y" "y \<noteq> NULL" "x \<noteq> NULL" using o(4,5) by (auto simp: gs)
  have del: "group_del x gs = as @ (y, ys) # bs" using o(4) by (simp add: gs group_del_skip)
  have find1: "find_recv h (key_of h (recv s) x) s = Some x" by (rule find_recv_groups[OF sub xy]) simp
  have ne: "\<not> list_empty ?l x" "nxt ?l x = y" using ring_empty_iff[OF o(1)] ring_head[OF o(1)] by simp_all
  obtain l s1 where e: "erase_recv h x x s = Some s1" "subscribed em s1 (group_del x gs)" "recv s1 = (recv s)\<lparr>recv_list := l\<rparr>"
    using erase_recv_groups[OF sub gs, of x] by auto
  obtain m where m: "rb_replace_node x y (get_map h s) = Some m" "get_map h s1 = m"
    using e(1) ne by (auto simp: erase_recv_def split: bind_splits)
  have "\<not> RB_EMPTY_NODE (get_map h s) x" using nm.repr_linked[OF o(3)] by simp
  then have linked: "\<not> RB_EMPTY_NODE (map_nodes s) x" "\<not> RB_EMPTY_NODE (map_nodes s1) x"
    using replaced_node_linked[OF m(1) x(2)] m(2) by (simp_all add: map_nodes)
  let ?s1 = "set_objects (release x) s1"
  have run1: "EM_unsubscribe h em x s = Some (True, ?s1)"
    using i(5)[OF x(1)] linked(1) find1 x(4) e(1) by (simp add: EM_unsubscribe_def)
  have sub1: "subscribed em ?s1 (group_del x gs)" using e(2) by simp
  have "(y, ys) \<in> set (group_del x gs)" by (simp add: del)
  from find_recv_groups[OF sub1 this, of y] have "find_recv h (key_of h (recv ?s1) y) ?s1 = Some y" by simp
  moreover have "key_of h (recv ?s1) y = key_of h (recv ?s1) x"
  proof -
    have "rank (key_of h (recv s) y) = rank (key_of h (recv s) x)" using o(2)[of y] by simp
    then have "key_of h (recv s) y = key_of h (recv s) x" using rank_inj i(4) x(1) by (simp add: gs)
    then show ?thesis by (simp add: e(3))
  qed
  ultimately have find2: "find_recv h (key_of h (recv ?s1) x) ?s1 = Some y" by simp
  have "\<not> RB_EMPTY_NODE (map_nodes ?s1) x" using linked(2) by (simp add: set_objects_def)
  moreover have "recv_manager (recv ?s1) x = em" using i(5)[OF x(1)] by (simp add: e(3))
  moreover have "erase_recv h y x ?s1 = Some (set_count h (get_count h ?s1 - 1) (set_recv_list (list_del_init x) ?s1))"
    using x(2) by (simp add: erase_recv_def)
  ultimately have "EM_unsubscribe h em x ?s1 =
      Some (True, set_objects (release x) (set_count h (get_count h ?s1 - 1) (set_recv_list (list_del_init x) ?s1)))"
    using find2 x(3) by (simp add: EM_unsubscribe_def)
  then show ?thesis using run1 sub1 by (auto simp: e(3))
qed

end

end
