(* ===== verification/Event_Manager.thy ===== *)
theory Event_Manager
  imports Event_Groups
begin

text \<open>
  The two instances of the event manager's template, and the properties of its operations for
  each.
\<close>

section \<open>By name\<close>

lemma strcmp_sound: "cmp_sound (strcmp a b) (map of_char a :: nat list) (map of_char b)"
  by (induction a b rule: strcmp.induct) (auto simp: cmp_sound_def)

interpretation by_name: event_helper HelperByName "map of_char :: string \<Rightarrow> nat list" "\<lambda>_. True"
proof
  show "cmp_sound (compare_key HelperByName a b) (map of_char a :: nat list) (map of_char b)" for a b
    by (simp add: HelperByName_def ARecvCmpName_def strcmp_sound)
  show "a = b" if "map of_char a = (map of_char b :: nat list)" for a b :: string
    using that by (simp add: inj_map_eq_map inj_def)
qed (simp_all add: HelperByName_def RB_EMPTY_NODE_def)

section \<open>By number\<close>

lemma sint_ucast_small:
  fixes i j :: "64 word"
  assumes "- (2 ^ 31) \<le> sint i - sint j" and "sint i - sint j < 2 ^ 31"
  shows "sint (ucast (i - j) :: 32 word) = sint i - sint j"
proof -
  have "i - j = word_of_int (sint i - sint j)" by simp
  then have "(ucast (i - j) :: 32 word) = word_of_int (take_bit 64 (sint i - sint j))"
    by (simp only: unsigned_of_int) simp
  then have "sint (ucast (i - j) :: 32 word) = signed_take_bit 31 (take_bit 64 (sint i - sint j))"
    by (simp add: sint_sbintrunc')
  also have "\<dots> = signed_take_bit 31 (sint i - sint j)" by (simp add: signed_take_bit_take_bit)
  also have "\<dots> = sint i - sint j" using assms by (rule signed_take_bit_int_eq_self)
  finally show ?thesis .
qed

text \<open>The numbers in use lie in one range that is half as wide as an \<^verbatim>\<open>int\<close>.\<close>

definition in_range :: "int \<Rightarrow> 64 word \<Rightarrow> bool" where
  "in_range base i = (base \<le> sint i \<and> sint i < base + 2 ^ 31)"

interpretation by_index: event_helper HelperByIndex "sint :: 64 word \<Rightarrow> int" "in_range base" for base
proof
  show "cmp_sound (compare_key HelperByIndex a b) (sint a) (sint b)" if "in_range base a" "in_range base b" for a b
    using that sint_ucast_small[of a b] by (auto simp: HelperByIndex_def ARecvCmpIndex_def in_range_def cmp_sound_def)
  show "a = b" if "sint a = sint b" for a b :: "64 word"
    using that by (rule signed_word_eqI)
qed (simp_all add: HelperByIndex_def RB_EMPTY_NODE_def)

text \<open>Outside of such a range two different numbers compare equal.\<close>

lemma ARecvCmpIndex_collision: "ARecvCmpIndex 0x100000000 0 = 0"
  by (simp add: ARecvCmpIndex_def)

section \<open>The properties\<close>

abbreviation by_names :: "addr \<Rightarrow> event_manager \<Rightarrow> groups \<Rightarrow> bool" where
  "by_names \<equiv> subscriptions HelperByName (map of_char :: string \<Rightarrow> nat list) (\<lambda>_. True)"

abbreviation by_numbers :: "int \<Rightarrow> addr \<Rightarrow> event_manager \<Rightarrow> groups \<Rightarrow> bool" where
  "by_numbers base \<equiv> subscriptions HelperByIndex sint (in_range base)"

lemma key_of_helpers [simp]: "key_of HelperByName = recv_name" "key_of HelperByIndex = recv_index"
  by (simp_all add: HelperByName_def HelperByIndex_def)

text \<open>An example: a manager with two receivers of one event and one of another.\<close>

definition raw_events :: event_manager where
  "raw_events = \<lparr>map_nodes = raw_tree, name_root = 77, name_count = 5, index_root = 77, index_count = 5,
     recv = \<lparr>recv_manager = (\<lambda>_. 77), recv_list = \<lparr>nxt = (\<lambda>_. 77), prv = (\<lambda>_. 77)\<rparr>,
       recv_name = (\<lambda>r. if r = 3 then ''stop'' else ''start''), recv_index = (\<lambda>r. if r = 3 then -1 else 7),
       recv_oneshot = (\<lambda>r. r = 2), recv_preproc = (\<lambda>_. False), recv_self = (\<lambda>_. 0),
       recv_objects = \<lparr>refcount = (\<lambda>_. 0), freed = []\<rparr>\<rparr>\<rparr>"

definition three_receivers :: event_manager where
  "three_receivers = AEventManager_init (AReceiver_init 1 (AReceiver_init 2 (AReceiver_init 3 raw_events)))"

lemma three_receivers: "new_receiver three_receivers r" if "r \<in> {1, 2, 3}"
  using that unfolding new_receiver_def three_receivers_def raw_events_def raw_tree_def
  by (auto simp: AEventManager_init_def AReceiver_init_def RB_EMPTY_NODE_def RB_CLEAR_NODE_def NULL_def
      INIT_LIST_HEAD_ring ring_INIT_other)

lemma three_receivers_empty: "by_names 9 three_receivers []" "by_numbers (-5) 9 three_receivers []"
proof -
  have m: "map_nodes three_receivers\<lparr>rb_root := NULL\<rparr> = INIT_RB_ROOT (map_nodes three_receivers)"
    by (simp add: INIT_RB_ROOT_def)
  show "by_names 9 three_receivers []" "by_numbers (-5) 9 three_receivers []"
    using rb_map_empty[of "map_nodes three_receivers"]
    unfolding subscriptions_def groups_ok_def keyed_def HelperByName_def HelperByIndex_def
    by (simp_all add: NULL_def three_receivers_def AEventManager_init_def INIT_RB_ROOT_def)
qed

definition example_members :: "event_manager \<Rightarrow> bool" where
  "example_members s = (recv_name (recv s) = recv_name (recv raw_events) \<and> recv_index (recv s) = recv_index (recv raw_events) \<and>
     recv_oneshot (recv s) = (\<lambda>r. r = 2) \<and> recv_preproc (recv s) = (\<lambda>_. False))"

lemma example_members:
  "example_members three_receivers"
  "recv s' = (recv s)\<lparr>recv_manager := f, recv_list := l, recv_objects := k\<rparr> \<Longrightarrow> example_members s' = example_members s"
  by (simp_all add: example_members_def three_receivers_def raw_events_def AEventManager_init_def AReceiver_init_def)

lemma names_example: "\<exists>s. by_names 9 s [(1, [2]), (3, [])] \<and> example_members s"
proof -
  let ?k = "\<lambda>s r. map of_char (recv_name (recv s) r) :: nat list"
  have new: "new_receiver three_receivers 1" "new_receiver three_receivers 2" "new_receiver three_receivers 3"
    by (simp_all add: three_receivers)
  have name: "recv_name (recv s) r = (if r = 3 then ''stop'' else ''start'')" if "example_members s" for s r
    using that by (simp add: example_members_def raw_events_def)
  obtain s1 where 1: "by_names 9 s1 [(1, [])]" "example_members s1" "new_receiver s1 2" "new_receiver s1 3"
    using by_name.EM_subscribe_groups[OF three_receivers_empty(1) new(1)] new(2,3) example_members by auto
  have add3: "group_add (?k s1) 3 [(1, [])] = [(1, []), (3, [])]" using name[OF 1(2)] by simp
  obtain s2 where 2: "by_names 9 s2 [(1, []), (3, [])]" "example_members s2" "new_receiver s2 2"
    using by_name.EM_subscribe_groups[OF 1(1,4)] 1(2,3) add3 example_members(2) by auto
  have add2: "group_add (?k s2) 2 [(1, []), (3, [])] = [(1, [2]), (3, [])]" using name[OF 2(2)] by simp
  show ?thesis using by_name.EM_subscribe_groups[OF 2(1,3)] 2(2) add2 example_members(2) by auto
qed

lemma numbers_example: "\<exists>s. by_numbers (-5) 9 s [(3, []), (1, [])] \<and> example_members s"
proof -
  have new: "new_receiver three_receivers 1" "new_receiver three_receivers 3" by (simp_all add: three_receivers)
  have index: "recv_index (recv s) r = (if r = 3 then -1 else 7)" if "example_members s" for s r
    using that by (simp add: example_members_def raw_events_def)
  have good: "in_range (-5) (recv_index (recv s) r)" if "example_members s" for s r
    by (simp add: index[OF that] in_range_def)
  obtain s1 where 1: "by_numbers (-5) 9 s1 [(1, [])]" "example_members s1" "new_receiver s1 3"
    using by_index.EM_subscribe_groups[OF three_receivers_empty(2) new(1)] new(2) good example_members by auto
  have "group_add (\<lambda>r. sint (recv_index (recv s1) r)) 3 [(1, [])] = [(3, []), (1, [])]" using index[OF 1(2)] by simp
  then show ?thesis using by_index.EM_subscribe_groups[OF 1(1,3)] 1(2) good example_members(2) by auto
qed

text \<open>
  C17: subscribing a receiver that is not subscribed anywhere succeeds, takes a reference to it and adds
  it to the receivers of its name, behind those subscribed before.  A receiver that has a manager, is in a tree or is
  in a list is refused, so one that was ever subscribed is not subscribed again.
  Unsubscribing a subscribed receiver succeeds, removes it from the receivers of its name and gives
  the reference back.  A receiver of another manager, and one that is neither in the tree nor in a list, is refused:
  one that was the only receiver of its name, or was behind the first, is not unsubscribed twice.  (The first of
  several is, see \<open>event_unsubscribe_twice\<close>.)  What is refused changes nothing.
\<close>

theorem event_subscriptions:
  assumes "by_names em s gs"
  shows "(new_receiver s r \<longrightarrow>
      (\<exists>s'. EM_subscribe HelperByName em r s = Some (True, s') \<and>
         by_names em s' (group_add (\<lambda>r. map of_char (recv_name (recv s) r) :: nat list) r gs) \<and>
         recv_objects (recv s') = addref r (recv_objects (recv s)))) \<and>
    (r \<in> set (group_nodes gs) \<longrightarrow> EM_subscribe HelperByName em r s = Some (False, s) \<and>
      (\<exists>s'. EM_unsubscribe HelperByName em r s = Some (True, s') \<and> by_names em s' (group_del r gs) \<and>
         recv_objects (recv s') = release r (recv_objects (recv s)) \<and> EM_subscribe HelperByName em r s' = Some (False, s') \<and>
         ((r, []) \<in> set gs \<or> RB_EMPTY_NODE (map_nodes s) r \<longrightarrow> EM_unsubscribe HelperByName em r s' = Some (False, s')))) \<and>
    (recv_manager (recv s) r \<noteq> NULL \<or> \<not> RB_EMPTY_NODE (map_nodes s) r \<or> \<not> list_empty (recv_list (recv s)) r \<longrightarrow>
      EM_subscribe HelperByName em r s = Some (False, s)) \<and>
    (recv_manager (recv s) r \<noteq> em \<or> RB_EMPTY_NODE (map_nodes s) r \<and> list_empty (recv_list (recv s)) r \<longrightarrow>
      EM_unsubscribe HelperByName em r s = Some (False, s))"
proof (intro conjI impI)
  show "\<exists>s'. EM_subscribe HelperByName em r s = Some (True, s') \<and>
      by_names em s' (group_add (\<lambda>r. map of_char (recv_name (recv s) r) :: nat list) r gs) \<and>
      recv_objects (recv s') = addref r (recv_objects (recv s))" if "new_receiver s r"
    using by_name.EM_subscribe_groups[OF assms that] by auto
  show "\<exists>s'. EM_unsubscribe HelperByName em r s = Some (True, s') \<and> by_names em s' (group_del r gs) \<and>
      recv_objects (recv s') = release r (recv_objects (recv s)) \<and> EM_subscribe HelperByName em r s' = Some (False, s') \<and>
      ((r, []) \<in> set gs \<or> RB_EMPTY_NODE (map_nodes s) r \<longrightarrow> EM_unsubscribe HelperByName em r s' = Some (False, s'))"
    if "r \<in> set (group_nodes gs)"
    using by_name.EM_unsubscribe_groups[OF assms that] by blast
  show "EM_subscribe HelperByName em r s = Some (False, s)" if "r \<in> set (group_nodes gs)"
    using by_name.subscribedD(1,5)[OF assms] that by (simp add: EM_subscribe_def)
  show "EM_subscribe HelperByName em r s = Some (False, s)"
    if "recv_manager (recv s) r \<noteq> NULL \<or> \<not> RB_EMPTY_NODE (map_nodes s) r \<or> \<not> list_empty (recv_list (recv s)) r"
    using that by (auto simp: EM_subscribe_def)
  show "EM_unsubscribe HelperByName em r s = Some (False, s)"
    if "recv_manager (recv s) r \<noteq> em \<or> RB_EMPTY_NODE (map_nodes s) r \<and> list_empty (recv_list (recv s)) r"
    using that by (auto simp: EM_unsubscribe_def)
qed

theorem event_subscriptions_witness:
  "\<exists>s s'. by_names 9 s [(1, [2]), (3, [])] \<and> EM_unsubscribe HelperByName 9 3 s = Some (True, s') \<and>
     by_names 9 s' [(1, [2])] \<and> EM_unsubscribe HelperByName 9 3 s' = Some (False, s')"
proof -
  obtain s where s: "by_names 9 s [(1, [2]), (3, [])]" using names_example by blast
  show ?thesis using event_subscriptions[OF s, of 3] s by - (rule exI[of _ s], auto)
qed

text \<open>
  C4: emitting an event calls, of the receivers of its name and no others, those that accept it,
  once each, in the order of their subscriptions except that the first comes last; a receiver
  without a preprocessing step always accepts.  The one-shot receivers that were called are no
  longer subscribed and lose their reference; nothing else changes.
\<close>

theorem event_emit:
  assumes "by_names em s gs"
  shows "((\<forall>r \<in> set (group_nodes gs). recv_name (recv s) r \<noteq> name) \<longrightarrow>
      EM_emit_event HelperByName on_event name p s = Some (0, [], s)) \<and>
    ((x, ys) \<in> set gs \<and> recv_name (recv s) x = name \<longrightarrow>
      (let called = filter (accepts on_event p (recv s)) (ys @ [x]) in
       \<exists>s'. EM_emit_event HelperByName on_event name p s = Some (int (length called), called, s') \<and>
         by_names em s' (fold group_del (filter (recv_oneshot (recv s)) called) gs) \<and>
         (\<forall>r. refcount (recv_objects (recv s')) r =
            refcount (recv_objects (recv s)) r - (if r \<in> set called \<and> recv_oneshot (recv s) r then 1 else 0))))"
proof (intro conjI impI)
  assume "\<forall>r \<in> set (group_nodes gs). recv_name (recv s) r \<noteq> name"
  then have "find_recv HelperByName name s = Some NULL" by (intro by_name.find_recv_none[OF assms]) auto
  then show "EM_emit_event HelperByName on_event name p s = Some (0, [], s)" by (simp add: EM_emit_event_def)
next
  assume "(x, ys) \<in> set gs \<and> recv_name (recv s) x = name"
  then show "let called = filter (accepts on_event p (recv s)) (ys @ [x]) in
       \<exists>s'. EM_emit_event HelperByName on_event name p s = Some (int (length called), called, s') \<and>
         by_names em s' (fold group_del (filter (recv_oneshot (recv s)) called) gs) \<and>
         (\<forall>r. refcount (recv_objects (recv s')) r =
            refcount (recv_objects (recv s)) r - (if r \<in> set called \<and> recv_oneshot (recv s) r then 1 else 0))"
    using by_name.EM_emit_groups[OF assms, of x ys _ on_event p] unfolding Let_def by auto
qed

theorem event_emit_witness:
  "\<exists>s s'. by_names 9 s [(1, [2]), (3, [])] \<and>
     EM_emit_event HelperByName (\<lambda>_ _ _. 0) ''start'' () s = Some (2, [2, 1], s') \<and> by_names 9 s' [(1, []), (3, [])]"
proof -
  obtain s where s: "by_names 9 s [(1, [2]), (3, [])]" "example_members s" using names_example by blast
  have "recv_name (recv s) 1 = ''start''" "recv_oneshot (recv s) = (\<lambda>r. r = 2)" "accepts (\<lambda>_ _ _. 0) () (recv s) = (\<lambda>_. True)"
    using s(2) by (simp_all add: example_members_def raw_events_def accepts_def fun_eq_iff)
  then show ?thesis using event_emit[OF s(1), where x = 1 and ys = "[2]" and name = "''start''" and on_event = "\<lambda>_ _ _. 0" and p = "()"] s(1)
    by - (rule exI[of _ s], auto)
qed

text \<open>
  Events by number behave the same as long as all numbers in use lie within half the range of
  an \<^verbatim>\<open>int\<close>; the comparison truncates their difference.
\<close>

theorem event_emit_by_number:
  assumes "by_numbers base em s gs" and "in_range base number"
  shows "((\<forall>r \<in> set (group_nodes gs). recv_index (recv s) r \<noteq> number) \<longrightarrow>
      EM_emit_event HelperByIndex on_event number p s = Some (0, [], s)) \<and>
    ((x, ys) \<in> set gs \<and> recv_index (recv s) x = number \<longrightarrow>
      (let called = filter (accepts on_event p (recv s)) (ys @ [x]) in
       \<exists>s'. EM_emit_event HelperByIndex on_event number p s = Some (int (length called), called, s') \<and>
         by_numbers base em s' (fold group_del (filter (recv_oneshot (recv s)) called) gs)))"
proof (intro conjI impI)
  assume "\<forall>r \<in> set (group_nodes gs). recv_index (recv s) r \<noteq> number"
  then have "find_recv HelperByIndex number s = Some NULL"
    by (intro by_index.find_recv_none[OF assms]) auto
  then show "EM_emit_event HelperByIndex on_event number p s = Some (0, [], s)" by (simp add: EM_emit_event_def)
next
  assume "(x, ys) \<in> set gs \<and> recv_index (recv s) x = number"
  then show "let called = filter (accepts on_event p (recv s)) (ys @ [x]) in
       \<exists>s'. EM_emit_event HelperByIndex on_event number p s = Some (int (length called), called, s') \<and>
         by_numbers base em s' (fold group_del (filter (recv_oneshot (recv s)) called) gs)"
    using by_index.EM_emit_groups[OF assms(1), of x ys _ on_event p] unfolding Let_def by auto
qed

theorem event_emit_by_number_witness:
  "\<exists>s s'. by_numbers (-5) 9 s [(3, []), (1, [])] \<and>
     EM_emit_event HelperByIndex (\<lambda>_ _ _. 0) (-1) () s = Some (1, [3], s') \<and> by_numbers (-5) 9 s' [(3, []), (1, [])]"
proof -
  obtain s where s: "by_numbers (-5) 9 s [(3, []), (1, [])]" "example_members s" using numbers_example by blast
  have "recv_index (recv s) 3 = -1" "recv_oneshot (recv s) = (\<lambda>r. r = 2)" "accepts (\<lambda>_ _ _. 0) () (recv s) = (\<lambda>_. True)"
    using s(2) by (simp_all add: example_members_def raw_events_def accepts_def fun_eq_iff)
  moreover have "in_range (-5) (-1)" by (simp add: in_range_def)
  ultimately show ?thesis
    using event_emit_by_number[OF s(1), where x = 3 and ys = "[]" and number = "-1" and on_event = "\<lambda>_ _ _. 0" and p = "()"] s(1)
    by - (rule exI[of _ s], auto)
qed

text \<open>
  Clearing the receivers by name ends, reports their number, leaves none subscribed and releases
  every one exactly once.
\<close>

theorem event_clear:
  assumes "by_names em s gs" and "W \<notin> set (group_nodes gs)"
  shows "\<exists>s'. EM_clear_sub_map HelperByName W s = Some (name_count s, s') \<and> by_names em s' [] \<and>
    recv_objects (recv s') = fold release (fired gs) (recv_objects (recv s)) \<and>
    distinct (fired gs) \<and> set (fired gs) = set (group_nodes gs)"
proof -
  have "distinct (fired gs)"
    using by_name.subscribedD(2)[OF assms(1)] mset_fired[of gs] by (metis groups_ok_def mset_eq_imp_distinct_iff)
  moreover have "name_count s = int (length (group_nodes gs))"
    using by_name.subscribedD(3)[OF assms(1)] by (simp add: HelperByName_def)
  ultimately show ?thesis using by_name.EM_clear_groups[OF assms] by auto
qed

theorem event_clear_witness:
  "\<exists>s s'. by_names 9 s [(1, [2]), (3, [])] \<and> EM_clear_sub_map HelperByName 90 s = Some (name_count s, s') \<and> by_names 9 s' []"
proof -
  obtain s where s: "by_names 9 s [(1, [2]), (3, [])]" using names_example by blast
  show ?thesis using event_clear[OF s, of 90] s by - (rule exI[of _ s], auto)
qed

section \<open>Unsubscribing twice\<close>

theorem event_unsubscribe_twice:
  "by_names em s gs \<Longrightarrow> (x, y # ys) \<in> set gs \<Longrightarrow>
   \<exists>s1 s2. EM_unsubscribe HelperByName em x s = Some (True, s1) \<and> by_names em s1 (group_del x gs) \<and>
     EM_unsubscribe HelperByName em x s1 = Some (True, s2) \<and> name_count s2 = name_count s1 - 1 \<and>
     recv_objects (recv s2) = release x (release x (recv_objects (recv s)))"
  using by_name.EM_unsubscribe_twice[of em s gs x y ys] by (simp add: HelperByName_def)

section \<open>Receivers of events about one object\<close>

text \<open>A receiver made by \<open>EM_sub_self\<close> takes exactly the events about its object, as far as its function does.\<close>

lemma EM_sub_self_accepts:
  assumes sub: "by_names em s gs" and r: "r \<notin> set (group_nodes gs)" "r \<noteq> NULL"
  shows "\<exists>s'. EM_sub_self em r name self s = Some (r, s') \<and>
    by_names em s' (group_add (\<lambda>r. map of_char (recv_name (recv s') r) :: nat list) r gs) \<and> recv_name (recv s') r = name \<and>
    accepts (on_self_event (recv s') func) p (recv s') r = (self = p \<and> func r p True \<ge> 0)"
proof -
  note i = by_name.subscribedD[OF sub]
  let ?k = "\<lambda>s r. map of_char (recv_name (recv s) r) :: nat list"
  define s0 where "s0 = AReceiver_init r s"
  define s1 where "s1 = s0\<lparr>recv := (recv s0)\<lparr>recv_name := (recv_name (recv s0))(r := name),
       recv_oneshot := (recv_oneshot (recv s0))(r := False), recv_preproc := (recv_preproc (recv s0))(r := True),
       recv_self := (recv_self (recv s0))(r := self)\<rparr>\<rparr>"
  have l: "recv_list (recv s1) = INIT_LIST_HEAD r (recv_list (recv s))" "recv_name (recv s1) = (recv_name (recv s))(r := name)"
      "recv_manager (recv s1) = (recv_manager (recv s))(r := NULL)" "map_nodes s1 = RB_CLEAR_NODE r (map_nodes s)"
      "name_root s1 = name_root s" "name_count s1 = name_count s"
    by (simp_all add: s1_def s0_def AReceiver_init_def)
  have m: "get_map HelperByName s1 = RB_CLEAR_NODE r (get_map HelperByName s)"
    by (simp add: HelperByName_def l RB_CLEAR_NODE_def)
  have "r \<notin> set (map fst gs)" using r(1) leaders_nodes[of gs] by auto
  then have "groups_ok (?k s) (get_map HelperByName s1) (recv_list (recv s)) gs"
    using i(2) nm.repr_clear[of "get_map HelperByName s" "map fst gs" r] by (simp add: groups_ok_def m)
  then have "groups_ok (?k s) (get_map HelperByName s1) (recv_list (recv s1)) gs"
    unfolding l(1) by (rule groups_ok_links[OF _ agree_init]) (use r in simp)
  then have "groups_ok (?k s1) (get_map HelperByName s1) (recv_list (recv s1)) gs"
    by (rule groups_ok_key_cong) (use r in \<open>auto simp: l\<close>)
  then have sub1: "by_names em s1 gs"
    using i(1,3,5) r by (auto simp: subscriptions_def l HelperByName_def)
  have new1: "new_receiver s1 r" using r(2) by (simp add: new_receiver_def l RB_EMPTY_NODE_def RB_CLEAR_NODE_def INIT_LIST_HEAD_ring)
  obtain l' s2 where 2: "EM_subscribe HelperByName em r s1 = Some (True, s2)" "by_names em s2 (group_add (?k s1) r gs)"
      "recv s2 = (recv s1)\<lparr>recv_manager := (recv_manager (recv s1))(r := em), recv_list := l',
        recv_objects := addref r (recv_objects (recv s1))\<rparr>"
    using by_name.EM_subscribe_groups[OF sub1 new1] by auto
  have "EM_sub_self em r name self s = Some (r, s2)"
    using 2(1) unfolding s1_def by (simp add: EM_sub_self_def Let_def s0_def)
  moreover have "recv_name (recv s2) = recv_name (recv s1)" "recv_name (recv s1) r = name" "recv_preproc (recv s2) r" "recv_self (recv s2) r = self"
    by (simp_all add: 2(3) l(2)) (simp_all add: s1_def)
  ultimately show ?thesis using 2(2) by (auto simp: accepts_def on_self_event_def)
qed

end
