(* ===== verification/Module.thy ===== *)
theory Module
  imports List_Frame C_String
begin

text \<open>
  The registry of modules (\<^verbatim>\<open>base/AModule.h\<close>, \<^verbatim>\<open>base/AModule.cpp\<close>).  All modules are in one list, in the
  order of their registration; a module that is not the first of its class is also in the list of
  that first one.  The two list entries of a module are the nodes at its address in two heaps of
  links.  The functions of a module are members that may be missing until it is registered.
\<close>

section \<open>State\<close>

text \<open>
  An object is identified by its address; \<open>opt\<close> stands for a pointer to an option or to NULL.
  \<open>module_log\<close> records the calls of the modules' \<open>init\<close> and \<open>exit\<close> functions with their arguments.
\<close>

type_synonym opt = addr

datatype module_call =
  Init addr opt opt bool
| Exit addr int

record modules =
  g_module :: addr
  global_entry :: list_head
  class_entry :: list_head
  mod_class :: "addr \<Rightarrow> string"
  mod_name :: "addr \<Rightarrow> string"
  object_size :: "addr \<Rightarrow> int"
  object_count :: "addr \<Rightarrow> int"
  global_index :: "addr \<Rightarrow> int"
  module_init :: "addr \<Rightarrow> (opt \<Rightarrow> opt \<Rightarrow> bool \<Rightarrow> int) option"
  module_exit :: "addr \<Rightarrow> bool"
  module_probe :: "addr \<Rightarrow> (addr \<Rightarrow> addr \<Rightarrow> addr \<Rightarrow> int) option"
  g_option :: opt
  g_inited :: bool
  g_index :: int
  module_log :: "module_call list"

definition AModuleInitNull :: "opt \<Rightarrow> opt \<Rightarrow> bool \<Rightarrow> int" where
  "AModuleInitNull global_option module_option first = 0"

definition ENOSYS :: int where "ENOSYS = 38"

definition AObjectProbeNull :: "addr \<Rightarrow> addr \<Rightarrow> addr \<Rightarrow> int" where
  "AObjectProbeNull object other msg = - ENOSYS"

definition default_to :: "'a \<Rightarrow> addr \<Rightarrow> (addr \<Rightarrow> 'a option) \<Rightarrow> addr \<Rightarrow> 'a option" where
  "default_to d m f = (if f m = None then f(m := Some d) else f)"

section \<open>Registration\<close>

text \<open>
  The option of a module: \<open>find_option\<close> is the search in the global option by the module's name, and
  \<open>find3\<close> the search by class and module name that follows when there is a global option.  Calling an
  \<open>exit\<close> function is an entry of the log; \<open>module_exit\<close> tells whether it is set.
\<close>

definition option_of ::
    "(opt \<Rightarrow> string \<Rightarrow> opt) \<Rightarrow> (opt \<Rightarrow> string \<Rightarrow> string \<Rightarrow> opt) \<Rightarrow> modules \<Rightarrow> addr \<Rightarrow> opt" where
  "option_of find_option find3 s m =
     (let op = find_option (g_option s) (mod_name s m)
      in if op = NULL \<and> g_option s \<noteq> NULL then find3 (g_option s) (mod_class s m) (mod_name s m) else op)"

definition call_init :: "addr \<Rightarrow> opt \<Rightarrow> bool \<Rightarrow> modules \<Rightarrow> (int \<times> modules) option" where
  "call_init m op first s = (case module_init s m of
     None \<Rightarrow> None
   | Some f \<Rightarrow> Some (f (g_option s) op first, s\<lparr>module_log := module_log s @ [Init m (g_option s) op first]\<rparr>))"

definition call_exit :: "addr \<Rightarrow> int \<Rightarrow> modules \<Rightarrow> modules option" where
  "call_exit m arg s = (if module_exit s m then Some (s\<lparr>module_log := module_log s @ [Exit m arg]\<rparr>) else None)"

definition AModuleRegister ::
    "(opt \<Rightarrow> string \<Rightarrow> opt) \<Rightarrow> (opt \<Rightarrow> string \<Rightarrow> string \<Rightarrow> opt) \<Rightarrow> addr \<Rightarrow> modules \<Rightarrow> (int \<times> modules) option" where
  "AModuleRegister find_option find3 m s = do {
     let s = s\<lparr>module_init := default_to AModuleInitNull m (module_init s),
               module_exit := (module_exit s)(m := True),
               module_probe := default_to AObjectProbeNull m (module_probe s),
               class_entry := INIT_LIST_HEAD m (class_entry s)\<rparr>;
     pos \<leftarrow> list_search (\<lambda>pos. same_name (mod_class s pos) (mod_class s m)) (global_entry s) (g_module s)
              (nxt (global_entry s) (g_module s));
     let s = (if pos \<noteq> NULL then s\<lparr>class_entry := list_add_tail m pos (class_entry s)\<rparr> else s);
     let s = s\<lparr>g_index := g_index s + 1, global_index := (global_index s)(m := g_index s + 1),
               global_entry := list_add_tail m (g_module s) (global_entry s)\<rparr>;
     if \<not> g_inited s then Some (0, s)
     else do {
       (result, s) \<leftarrow> call_init m (option_of find_option find3 s m) True s;
       if result < 0
       then do {
         s \<leftarrow> call_exit m result s;
         let s = s\<lparr>global_entry := list_del_init m (global_entry s)\<rparr>;
         Some (result, if \<not> list_empty (class_entry s) m then s\<lparr>class_entry := list_del_init m (class_entry s)\<rparr> else s)
       }
       else Some (result, s)
     }
   }"

section \<open>Initialisation and exit\<close>

partial_function (option) AModuleInit_from ::
    "(opt \<Rightarrow> string \<Rightarrow> opt) \<Rightarrow> (opt \<Rightarrow> string \<Rightarrow> string \<Rightarrow> opt) \<Rightarrow> bool \<Rightarrow> addr \<Rightarrow> modules \<Rightarrow> modules option" where
  "AModuleInit_from find_option find3 first m s =
     (if m = g_module s then Some s
      else do {
        (result, s) \<leftarrow> call_init m (option_of find_option find3 s m) first s;
        AModuleInit_from find_option find3 first (nxt (global_entry s) m) s
      })"

definition AModuleInit ::
    "(opt \<Rightarrow> string \<Rightarrow> opt) \<Rightarrow> (opt \<Rightarrow> string \<Rightarrow> string \<Rightarrow> opt) \<Rightarrow> opt \<Rightarrow> modules \<Rightarrow> (int \<times> modules) option" where
  "AModuleInit find_option find3 op s = do {
     let first = (\<not> g_inited s);
     let s = s\<lparr>g_option := op, g_inited := True\<rparr>;
     s \<leftarrow> AModuleInit_from find_option find3 first (nxt (global_entry s) (g_module s)) s;
     Some (1, s)
   }"

partial_function (option) AModuleExit_loop :: "modules \<Rightarrow> modules option" where
  "AModuleExit_loop s =
     (if list_empty (global_entry s) (g_module s) then Some s
      else do {
        let (pos, l) = list_pop_front (g_module s) (global_entry s);
        s \<leftarrow> call_exit pos (if g_inited s then 1 else 0) (s\<lparr>global_entry := l\<rparr>);
        AModuleExit_loop s
      })"

definition AModuleExit :: "modules \<Rightarrow> (int \<times> modules) option" where
  "AModuleExit s = do {
     s \<leftarrow> AModuleExit_loop s;
     Some (1, s\<lparr>g_inited := False, g_option := NULL\<rparr>)
   }"

section \<open>Looking modules up\<close>

text \<open>A name that is NULL is \<open>None\<close>.\<close>

definition class_differs :: "string option \<Rightarrow> modules \<Rightarrow> addr \<Rightarrow> bool" where
  "class_differs c s pos = (c \<noteq> None \<and> \<not> same_name (the c) (mod_class s pos))"

partial_function (option) AModuleFind_from :: "string option \<Rightarrow> string option \<Rightarrow> modules \<Rightarrow> addr \<Rightarrow> addr option" where
  "AModuleFind_from c n s pos =
     (if pos = g_module s then Some NULL
      else if class_differs c s pos then AModuleFind_from c n s (nxt (global_entry s) pos)
      else if n = None \<or> same_name (the n) (mod_name s pos) then Some pos
      else if c = None then AModuleFind_from c n s (nxt (global_entry s) pos)
      else list_search (\<lambda>m. same_name (the n) (mod_name s m)) (class_entry s) pos (nxt (class_entry s) pos))"

definition AModuleFind :: "string option \<Rightarrow> string option \<Rightarrow> modules \<Rightarrow> addr option" where
  "AModuleFind c n s =
     (if c = None \<and> n = None then Some NULL
      else AModuleFind_from c n s (nxt (global_entry s) (g_module s)))"

definition AModuleNext :: "addr \<Rightarrow> modules \<Rightarrow> addr" where
  "AModuleNext m s =
     (if m = NULL
      then if list_empty (global_entry s) (g_module s) then NULL else nxt (global_entry s) (g_module s)
      else if list_is_last (global_entry s) m (g_module s) then NULL
      else nxt (global_entry s) m)"

text \<open>\<open>visit\<close> threads the state of its parameter; \<open>Some m\<close> is the end of the enumeration with the result \<open>m\<close>.\<close>

partial_function (option) list_enum ::
    "('p \<Rightarrow> addr \<Rightarrow> int \<times> 'p) \<Rightarrow> list_head \<Rightarrow> addr \<Rightarrow> addr \<Rightarrow> 'p \<Rightarrow> (addr option \<times> 'p) option" where
  "list_enum visit l head pos p =
     (if pos = head then Some (None, p)
      else let (result, p) = visit p pos
           in if result > 0 then Some (Some pos, p)
              else if result < 0 then Some (Some NULL, p)
              else list_enum visit l head (nxt l pos) p)"

partial_function (option) AModuleEnum_from ::
    "string option \<Rightarrow> ('p \<Rightarrow> addr \<Rightarrow> int \<times> 'p) \<Rightarrow> modules \<Rightarrow> addr \<Rightarrow> 'p \<Rightarrow> (addr \<times> 'p) option" where
  "AModuleEnum_from c visit s pos p =
     (if pos = g_module s then Some (NULL, p)
      else if class_differs c s pos then AModuleEnum_from c visit s (nxt (global_entry s) pos) p
      else let (result, p) = visit p pos
           in if result > 0 then Some (pos, p)
              else if result < 0 then Some (NULL, p)
              else if c = None then AModuleEnum_from c visit s (nxt (global_entry s) pos) p
              else do {
                (found, p) \<leftarrow> list_enum visit (class_entry s) pos (nxt (class_entry s) pos) p;
                Some (case found of Some m \<Rightarrow> m | None \<Rightarrow> NULL, p)
              })"

definition AModuleEnum :: "string option \<Rightarrow> ('p \<Rightarrow> addr \<Rightarrow> int \<times> 'p) \<Rightarrow> 'p \<Rightarrow> modules \<Rightarrow> (addr \<times> 'p) option" where
  "AModuleEnum c visit p s = AModuleEnum_from c visit s (nxt (global_entry s) (g_module s)) p"

definition call_probe :: "modules \<Rightarrow> addr \<Rightarrow> addr \<Rightarrow> addr \<Rightarrow> addr \<Rightarrow> int option" where
  "call_probe s object other msg m = map_option (\<lambda>f. f object other msg) (module_probe s m)"

definition better :: "modules \<Rightarrow> addr \<Rightarrow> addr \<Rightarrow> addr \<Rightarrow> addr \<Rightarrow> addr \<times> int \<Rightarrow> (addr \<times> int) option" where
  "better s object other msg pos best = do {
     ret \<leftarrow> call_probe s object other msg pos;
     Some (if ret > snd best then (pos, ret) else best)
   }"

partial_function (option) probe_class ::
    "modules \<Rightarrow> addr \<Rightarrow> addr \<Rightarrow> addr \<Rightarrow> addr \<Rightarrow> addr \<Rightarrow> addr \<times> int \<Rightarrow> (addr \<times> int) option" where
  "probe_class s object other msg head pos best =
     (if pos = head then Some best
      else do {
        best \<leftarrow> better s object other msg pos best;
        probe_class s object other msg head (nxt (class_entry s) pos) best
      })"

partial_function (option) AModuleProbe_from ::
    "string option \<Rightarrow> modules \<Rightarrow> addr \<Rightarrow> addr \<Rightarrow> addr \<Rightarrow> addr \<Rightarrow> addr \<times> int \<Rightarrow> (addr \<times> int) option" where
  "AModuleProbe_from c s object other msg pos best =
     (if pos = g_module s then Some best
      else if class_differs c s pos then AModuleProbe_from c s object other msg (nxt (global_entry s) pos) best
      else do {
        best \<leftarrow> better s object other msg pos best;
        if c = None then AModuleProbe_from c s object other msg (nxt (global_entry s) pos) best
        else probe_class s object other msg pos (nxt (class_entry s) pos) best
      })"

definition AModuleProbe :: "string option \<Rightarrow> addr \<Rightarrow> addr \<Rightarrow> addr \<Rightarrow> modules \<Rightarrow> addr option" where
  "AModuleProbe c object other msg s =
     map_option fst (AModuleProbe_from c s object other msg (nxt (global_entry s) (g_module s)) (NULL, 0))"

section \<open>Objects\<close>

text \<open>
  The objects the modules make: \<open>block\<close> is what \<^verbatim>\<open>malloc\<close> returned, \<open>create\<close> the module's function with
  its effect, which may replace the object, and \<open>obj_released\<close> the calls of the modules' \<open>release\<close>
  functions.
\<close>

definition EINVAL :: int where "EINVAL = 22"
definition ENOMEM :: int where "ENOMEM = 12"

record objects =
  obj_modules :: modules
  obj_refcount :: "addr \<Rightarrow> int"
  obj_module :: "addr \<Rightarrow> addr"
  obj_released :: "(addr \<times> addr) list"
  obj_freed :: "addr list"

definition count_objects :: "addr \<Rightarrow> int \<Rightarrow> objects \<Rightarrow> objects" where
  "count_objects m d s = s\<lparr>obj_modules := (obj_modules s)\<lparr>object_count :=
     (object_count (obj_modules s))(m := object_count (obj_modules s) m + d)\<rparr>\<rparr>"

definition AObjectFree :: "addr \<Rightarrow> objects \<Rightarrow> objects" where
  "AObjectFree a s =
     (let m = obj_module s a;
          s = s\<lparr>obj_released := obj_released s @ [(m, a)]\<rparr>;
          s = count_objects m (-1) s
      in s\<lparr>obj_freed := obj_freed s @ [a]\<rparr>)"

definition release_object :: "addr \<Rightarrow> objects \<Rightarrow> objects" where
  "release_object a s =
     (let result = obj_refcount s a - 1;
          s = s\<lparr>obj_refcount := (obj_refcount s)(a := result)\<rparr>
      in if result \<le> 0 then AObjectFree a s else s)"

definition AObjectCreate ::
    "addr \<Rightarrow> (addr \<Rightarrow> addr \<Rightarrow> objects \<Rightarrow> int \<times> addr \<times> objects) \<Rightarrow> addr \<Rightarrow> string option \<Rightarrow> string option \<Rightarrow> objects \<Rightarrow>
     (int \<times> addr \<times> objects) option" where
  "AObjectCreate block create param_module c n s = do {
     module \<leftarrow> (if param_module = NULL then AModuleFind c n (obj_modules s) else Some param_module);
     if module = NULL then Some (- EINVAL, NULL, s)
     else if object_size (obj_modules s) module > 0 \<and> block = NULL then Some (- ENOMEM, NULL, s)
     else
       let (object, s) = (if object_size (obj_modules s) module > 0
             then (block, count_objects module 1 s\<lparr>obj_refcount := (obj_refcount s)(block := 1), obj_module := (obj_module s)(block := module)\<rparr>)
             else (NULL, s));
           (result, object, s) = create module object s
       in Some (if result < 0 \<and> object \<noteq> NULL then (result, NULL, release_object object s) else (result, object, s))
   }"

end
