(* ===== verification/Module_Registry.thy ===== *)
theory Module_Registry
  imports Module
begin

text \<open>
  Correctness of the registry: it holds the registered modules in order, and looking one up by its
  class' list gives what a search through all modules gives.
\<close>

section \<open>The invariant\<close>

text \<open>The first module of a class holds the ring of the later ones of that class.\<close>

definition same_class :: "modules \<Rightarrow> addr \<Rightarrow> addr \<Rightarrow> bool" where
  "same_class s m x = same_name (mod_class s x) (mod_class s m)"

definition class_rings :: "modules \<Rightarrow> addr list \<Rightarrow> bool" where
  "class_rings s ms = (\<forall>as m bs. ms = as @ m # bs \<longrightarrow> (\<forall>x \<in> set as. \<not> same_class s m x) \<longrightarrow>
     ring (class_entry s) m (filter (same_class s m) bs))"

definition registered :: "modules \<Rightarrow> addr list \<Rightarrow> bool" where
  "registered s ms = (ring (global_entry s) (g_module s) ms \<and> NULL \<notin> set ms \<and> class_rings s ms \<and>
     (\<forall>m \<in> set ms. module_init s m \<noteq> None \<and> module_exit s m \<and> module_probe s m \<noteq> None))"

lemma registeredD:
  assumes "registered s ms"
  shows "ring (global_entry s) (g_module s) ms" and "NULL \<notin> set ms" and "class_rings s ms"
    and "\<And>m. m \<in> set ms \<Longrightarrow> module_init s m \<noteq> None" and "\<And>m. m \<in> set ms \<Longrightarrow> module_exit s m"
    and "\<And>m. m \<in> set ms \<Longrightarrow> module_probe s m \<noteq> None" and "distinct (g_module s # ms)"
  using assms ring_distinct[of "global_entry s" "g_module s" ms] by (auto simp: registered_def)

lemma class_rings_at:
  "class_rings s (as @ m # bs) \<Longrightarrow> \<forall>x \<in> set as. \<not> same_class s m x \<Longrightarrow> ring (class_entry s) m (filter (same_class s m) bs)"
  unfolding class_rings_def by blast

lemma class_rings_cong:
  assumes "class_entry s' = class_entry s" and "mod_class s' = mod_class s"
  shows "class_rings s' ms = class_rings s ms"
proof -
  have "same_class s' = same_class s" by (intro ext) (simp add: same_class_def assms(2))
  then show ?thesis by (simp add: class_rings_def assms(1))
qed

lemma registered_cong:
  assumes "global_entry s' = global_entry s" and "g_module s' = g_module s" and "class_entry s' = class_entry s"
    and "mod_class s' = mod_class s" and "module_init s' = module_init s" and "module_exit s' = module_exit s"
    and "module_probe s' = module_probe s"
  shows "registered s' ms = registered s ms"
  using class_rings_cong[of s' s ms] assms by (simp add: registered_def)

text \<open>The module of a pattern of names, and the first one of a class.\<close>

definition matches :: "string option \<Rightarrow> string option \<Rightarrow> modules \<Rightarrow> addr \<Rightarrow> bool" where
  "matches c n s m = (\<not> class_differs c s m \<and> (n = None \<or> same_name (the n) (mod_name s m)))"

section \<open>Looking modules up\<close>

lemma class_differs_same:
  assumes "\<not> class_differs (Some c) s m"
  shows "class_differs (Some c) s x = (\<not> same_class s m x)"
  using assms by (auto simp: class_differs_def same_class_def same_name_def)

lemma AModuleFind_from_list:
  assumes "registered s (as @ bs)" and "\<And>x. x \<in> set as \<Longrightarrow> \<not> matches c n s x" and "c \<noteq> None \<Longrightarrow> \<forall>x \<in> set as. class_differs c s x"
  shows "AModuleFind_from c n s (hd (bs @ [g_module s])) = Some (hd_node (filter (matches c n s) bs))"
  using assms
proof (induction bs arbitrary: as)
  case Nil
  then show ?case by (subst AModuleFind_from.simps) simp
next
  case (Cons m bs)
  note r = registeredD[OF Cons.prems(1)]
  have m: "m \<noteq> g_module s" using r(7) by auto
  have nx: "nxt (global_entry s) m = hd (bs @ [g_module s])" by (rule ring_mid(2)[OF r(1)])
  have rest: "AModuleFind_from c n s (hd (bs @ [g_module s])) = Some (hd_node (filter (matches c n s) bs))"
    if "\<not> matches c n s m" "c \<noteq> None \<Longrightarrow> class_differs c s m"
    using Cons.IH[of "as @ [m]"] Cons.prems that by auto
  show ?case
  proof (cases "class_differs c s m")
    case True
    then show ?thesis using rest m nx by (subst AModuleFind_from.simps) (simp add: matches_def)
  next
    case same: False
    show ?thesis
    proof (cases "matches c n s m")
      case True
      then show ?thesis using same m by (subst AModuleFind_from.simps) (auto simp: matches_def)
    next
      case False
      then have n: "n \<noteq> None" "\<not> same_name (the n) (mod_name s m)" using same by (auto simp: matches_def)
      show ?thesis
      proof (cases c)
        case None
        then show ?thesis using same n m nx rest False by (subst AModuleFind_from.simps) auto
      next
        case (Some cn)
        have d: "class_differs c s x = (\<not> same_class s m x)" for x
          using class_differs_same same unfolding Some by blast
        have "ring (class_entry s) m (filter (same_class s m) bs)"
          using class_rings_at[OF r(3)] Cons.prems(3) Some d by auto
        note this_search = list_search_ring[OF this, of "\<lambda>x. same_name (the n) (mod_name s x)"]
        have "list_search (\<lambda>x. same_name (the n) (mod_name s x)) (class_entry s) m (nxt (class_entry s) m) =
            Some (hd_node (filter (matches c n s) bs))"
        proof -
          have "matches c n s = (\<lambda>x. same_class s m x \<and> same_name (the n) (mod_name s x))"
            using n(1) by (auto simp: fun_eq_iff matches_def d)
          then show ?thesis using this_search by (simp add: conj_commute)
        qed
        then show ?thesis using same n m False Some by (subst AModuleFind_from.simps) auto
      qed
    qed
  qed
qed

lemma ring_start: "ring h a xs \<Longrightarrow> nxt h a = hd (xs @ [a])"
  by (rule ring_head(1))

lemma AModuleFind_list:
  assumes "registered s ms" and "\<not> (c = None \<and> n = None)"
  shows "AModuleFind c n s = Some (hd_node (filter (matches c n s) ms))"
  using AModuleFind_from_list[of s "[]" ms c n] assms ring_start[OF registeredD(1)[OF assms(1)]]
  by (auto simp: AModuleFind_def)

text \<open>Enumerations and probes go over the same modules.\<close>

fun enum_until :: "('p \<Rightarrow> addr \<Rightarrow> int \<times> 'p) \<Rightarrow> addr list \<Rightarrow> 'p \<Rightarrow> addr \<times> 'p" where
  "enum_until visit [] p = (NULL, p)"
| "enum_until visit (m # ms) p =
     (let (result, p) = visit p m
      in if result > 0 then (m, p) else if result < 0 then (NULL, p) else enum_until visit ms p)"

lemma list_enum_chain:
  assumes "chain l (q # xs @ [a])" and "a \<notin> set xs"
  shows "\<exists>r p'. list_enum visit l a (nxt l q) p = Some (r, p') \<and> (case r of Some m \<Rightarrow> m | None \<Rightarrow> NULL, p') = enum_until visit xs p"
  using assms
proof (induction xs arbitrary: q p)
  case Nil
  then show ?case by (subst list_enum.simps) simp
next
  case (Cons x xs)
  then have "nxt l q = x" "chain l (x # xs @ [a])" "x \<noteq> a" by auto
  then show ?case
    using Cons.IH[of x "snd (visit p x)"] Cons.prems(2) by (subst list_enum.simps) (auto split: prod.splits)
qed

lemma list_enum_ring:
  assumes "ring l a xs"
  shows "\<exists>r p'. list_enum visit l a (nxt l a) p = Some (r, p') \<and> (case r of Some m \<Rightarrow> m | None \<Rightarrow> NULL, p') = enum_until visit xs p"
  using list_enum_chain[of l a xs a visit p] assms by (auto simp: ring_def)

lemma AModuleEnum_from_list:
  assumes "registered s (as @ bs)" and "c \<noteq> None \<Longrightarrow> \<forall>x \<in> set as. class_differs c s x"
  shows "AModuleEnum_from c visit s (hd (bs @ [g_module s])) p = Some (enum_until visit (filter (\<lambda>m. \<not> class_differs c s m) bs) p)"
  using assms
proof (induction bs arbitrary: as p)
  case Nil
  then show ?case by (subst AModuleEnum_from.simps) simp
next
  case (Cons m bs)
  note r = registeredD[OF Cons.prems(1)]
  have m: "m \<noteq> g_module s" using r(7) by auto
  have nx: "nxt (global_entry s) m = hd (bs @ [g_module s])" by (rule ring_mid(2)[OF r(1)])
  have rest: "AModuleEnum_from c visit s (hd (bs @ [g_module s])) p = Some (enum_until visit (filter (\<lambda>m. \<not> class_differs c s m) bs) p)"
    if "c \<noteq> None \<Longrightarrow> class_differs c s m" for p
    using Cons.IH[of "as @ [m]"] Cons.prems that by auto
  show ?case
  proof (cases "class_differs c s m")
    case True
    then show ?thesis using rest m nx by (subst AModuleEnum_from.simps) simp
  next
    case same: False
    show ?thesis
    proof (cases c)
      case None
      then show ?thesis using same m nx rest by (subst AModuleEnum_from.simps) (simp split: prod.splits)
    next
      case (Some cn)
      have d: "class_differs c s x = (\<not> same_class s m x)" for x
        using class_differs_same same unfolding Some by blast
      have ring: "ring (class_entry s) m (filter (same_class s m) bs)"
        using class_rings_at[OF r(3)] Cons.prems(2) Some d by auto
      then show ?thesis
        using same m Some list_enum_ring[OF ring, of visit "snd (visit p m)"]
        by (subst AModuleEnum_from.simps) (auto simp: d[unfolded Some] split: prod.splits)
    qed
  qed
qed

lemma AModuleEnum_list:
  assumes "registered s ms"
  shows "AModuleEnum c visit p s = Some (enum_until visit (filter (\<lambda>m. \<not> class_differs c s m) ms) p)"
  using AModuleEnum_from_list[where s = s and as = "[]" and bs = ms and c = c and visit = visit and p = p] assms ring_start[OF registeredD(1)[OF assms]]
  by (auto simp: AModuleEnum_def)


definition scores :: "modules \<Rightarrow> addr \<Rightarrow> addr \<Rightarrow> addr \<Rightarrow> addr \<Rightarrow> int" where
  "scores s object other msg m = the (module_probe s m) object other msg"

definition best_of :: "(addr \<Rightarrow> int) \<Rightarrow> addr list \<Rightarrow> addr \<times> int \<Rightarrow> addr \<times> int" where
  "best_of score ms best = fold (\<lambda>m best. if score m > snd best then (m, score m) else best) ms best"

lemma best_of_simps [simp]:
  "best_of score [] best = best"
  "best_of score (m # ms) best = best_of score ms (if score m > snd best then (m, score m) else best)"
  by (simp_all add: best_of_def)

lemma better_score: "module_probe s m \<noteq> None \<Longrightarrow> better s object other msg m best =
    Some (if scores s object other msg m > snd best then (m, scores s object other msg m) else best)"
  by (auto simp: better_def call_probe_def scores_def)

lemma probe_class_chain:
  assumes "chain (class_entry s) (q # xs @ [a])" and "a \<notin> set xs" and "\<And>m. m \<in> set xs \<Longrightarrow> module_probe s m \<noteq> None"
  shows "probe_class s object other msg a (nxt (class_entry s) q) best = Some (best_of (scores s object other msg) xs best)"
  using assms
proof (induction xs arbitrary: q best)
  case Nil
  then show ?case by (subst probe_class.simps) simp
next
  case (Cons x xs)
  then have "nxt (class_entry s) q = x" "chain (class_entry s) (x # xs @ [a])" "x \<noteq> a" by auto
  then show ?case using Cons.IH[of x] Cons.prems(2,3) better_score[of s x] by (subst probe_class.simps) simp
qed

lemma AModuleProbe_from_list:
  assumes "registered s (as @ bs)" and "c \<noteq> None \<Longrightarrow> \<forall>x \<in> set as. class_differs c s x"
  shows "AModuleProbe_from c s object other msg (hd (bs @ [g_module s])) best =
    Some (best_of (scores s object other msg) (filter (\<lambda>m. \<not> class_differs c s m) bs) best)"
  using assms
proof (induction bs arbitrary: as best)
  case Nil
  then show ?case by (subst AModuleProbe_from.simps) simp
next
  case (Cons m bs)
  note r = registeredD[OF Cons.prems(1)]
  have m: "m \<noteq> g_module s" using r(7) by auto
  have nx: "nxt (global_entry s) m = hd (bs @ [g_module s])" by (rule ring_mid(2)[OF r(1)])
  have b: "better s object other msg m best = Some (if scores s object other msg m > snd best then (m, scores s object other msg m) else best)"
    for best using better_score r(6)[of m] by simp
  have rest: "AModuleProbe_from c s object other msg (hd (bs @ [g_module s])) best =
      Some (best_of (scores s object other msg) (filter (\<lambda>m. \<not> class_differs c s m) bs) best)"
    if "c \<noteq> None \<Longrightarrow> class_differs c s m" for best
    using Cons.IH[of "as @ [m]"] Cons.prems that by auto
  show ?case
  proof (cases "class_differs c s m")
    case True
    then show ?thesis using rest m nx by (subst AModuleProbe_from.simps) simp
  next
    case same: False
    show ?thesis
    proof (cases c)
      case None
      then show ?thesis using same m nx rest b by (subst AModuleProbe_from.simps) simp
    next
      case (Some cn)
      have d: "class_differs c s x = (\<not> same_class s m x)" for x
        using class_differs_same same unfolding Some by blast
      have ring: "ring (class_entry s) m (filter (same_class s m) bs)"
        using class_rings_at[OF r(3)] Cons.prems(2) Some d by auto
      have "probe_class s object other msg m (nxt (class_entry s) m) best =
          Some (best_of (scores s object other msg) (filter (same_class s m) bs) best)" for best
        by (rule probe_class_chain) (use ring r(6) in \<open>auto simp: ring_def\<close>)
      then show ?thesis
        using same m Some b by (subst AModuleProbe_from.simps) (simp add: d[unfolded Some])
    qed
  qed
qed

lemma AModuleProbe_list:
  assumes "registered s ms"
  shows "AModuleProbe c object other msg s =
    Some (fst (best_of (scores s object other msg) (filter (\<lambda>m. \<not> class_differs c s m) ms) (NULL, 0)))"
  using AModuleProbe_from_list[where s = s and as = "[]" and bs = ms and c = c] assms ring_start[OF registeredD(1)[OF assms]]
  by (auto simp: AModuleProbe_def)

text \<open>The best module: the first of those with the greatest positive score.\<close>

lemma best_of_greatest:
  assumes "best_of score ms (b, k) = (m, v)"
  shows "k \<le> v \<and> (\<forall>x \<in> set ms. score x \<le> v) \<and>
    ((m, v) = (b, k) \<or> (\<exists>as bs. ms = as @ m # bs \<and> v = score m \<and> k < v \<and> (\<forall>a \<in> set as. score a < v)))"
  using assms
proof (induction ms arbitrary: b k)
  case (Cons x ms)
  show ?case
  proof (cases "score x > k")
    case True
    then have "best_of score ms (x, score x) = (m, v)" using Cons.prems by simp
    note ih = Cons.IH[OF this]
    show ?thesis
    proof (cases "(m, v) = (x, score x)")
      case True
      then show ?thesis using ih \<open>score x > k\<close> by (intro conjI disjI2 exI[of _ "[]"] exI[of _ ms]) auto
    next
      case False
      then obtain as bs where p: "ms = as @ m # bs" "v = score m" "score x < v" "\<forall>a \<in> set as. score a < v" using ih by auto
      have "x # ms = (x # as) @ m # bs" "\<forall>a \<in> set (x # as). score a < v" "k < v" "\<forall>y \<in> set (x # ms). score y \<le> v" "k \<le> v"
        using p ih \<open>score x > k\<close> by auto
      then show ?thesis using p(2) by blast
    qed
  next
    case False
    then have "best_of score ms (b, k) = (m, v)" using Cons.prems by simp
    note ih = Cons.IH[OF this]
    show ?thesis
    proof (cases "(m, v) = (b, k)")
      case True
      then show ?thesis using ih False by auto
    next
      case neq: False
      then obtain as bs where p: "ms = as @ m # bs" "v = score m" "k < v" "\<forall>a \<in> set as. score a < v" using ih by auto
      have "x # ms = (x # as) @ m # bs" "\<forall>a \<in> set (x # as). score a < v" "\<forall>y \<in> set (x # ms). score y \<le> v"
        using p ih False by auto
      then show ?thesis using ih p(2,3) by blast
    qed
  qed
qed simp

section \<open>Registering a module\<close>

lemma same_class_refl [simp]: "same_class s m m"
  by (simp add: same_class_def)

lemma same_class_sym: "same_class s a b \<Longrightarrow> same_class s b a"
  by (simp add: same_class_def same_name_sym)

lemma same_class_trans: "same_class s a b \<Longrightarrow> same_class s b c \<Longrightarrow> same_class s a c"
  unfolding same_class_def using same_name_trans by blast

text \<open>The rings of the classes after a module \<open>n\<close> was added behind the first of its class, if there is one.\<close>

lemma class_rings_add:
  assumes rings: "class_rings s ms" and n: "n \<notin> set ms" and dist: "distinct ms"
    and pos: "pos = hd_node (filter (\<lambda>pos. same_name (mod_class s pos) (mod_class s n)) ms)" "NULL \<notin> set ms"
    and s': "mod_class s' = mod_class s"
      "class_entry s' = (if pos \<noteq> NULL then list_add_tail n pos (INIT_LIST_HEAD n (class_entry s)) else INIT_LIST_HEAD n (class_entry s))"
  shows "class_rings s' (ms @ [n])"
proof -
  let ?l = "INIT_LIST_HEAD n (class_entry s)"
  have sc: "same_class s' = same_class s" by (simp add: same_class_def s'(1) fun_eq_iff)
  have old: "ring ?l m (filter (same_class s m) bs)" if "ms = as @ m # bs" "\<forall>x \<in> set as. \<not> same_class s m x" for as m bs
    by (rule ring_keep[OF agree_init]) (use rings that n in \<open>auto simp: class_rings_def\<close>)
  show ?thesis
    unfolding class_rings_def
  proof (intro allI impI)
    fix as m bs
    assume split: "ms @ [n] = as @ m # bs" and first: "\<forall>x \<in> set as. \<not> same_class s' m x"
    show "ring (class_entry s') m (filter (same_class s' m) bs)"
    proof (cases bs rule: rev_cases)
      case Nil
      then have "as = ms" "m = n" using split by simp_all
      then have "filter (\<lambda>pos. same_name (mod_class s pos) (mod_class s n)) ms = []"
        using first by (simp add: sc same_class_def filter_empty_conv)
      then have "pos = NULL" by (simp add: pos(1))
      then show ?thesis using Nil \<open>m = n\<close> by (simp add: s'(2) INIT_LIST_HEAD_ring)
    next
      case (snoc cs y)
      then have ms: "ms = as @ m # cs" "y = n" using split by auto
      have ring: "ring ?l m (filter (same_class s m) cs)" using old[OF ms(1)] first by (simp add: sc)
      show ?thesis
      proof (cases "same_class s m n")
        case True
        then have "same_name (mod_class s x) (mod_class s n) = same_class s m x" for x
          unfolding same_class_def by (metis same_name_sym same_name_trans)
        then have "filter (\<lambda>pos. same_name (mod_class s pos) (mod_class s n)) ms = m # filter (same_class s m) cs"
          using first by (simp add: ms(1) sc filter_empty_conv)
        then have "pos = m" "pos \<noteq> NULL" using pos ms(1) by (simp_all add: pos(1))
        moreover have "ring (list_add_tail n m ?l) m (filter (same_class s m) cs @ [n])"
          by (rule list_add_tail_ring[OF ring]) (use n ms in auto)
        ultimately show ?thesis using True snoc ms(2) by (simp add: s'(2) sc)
      next
        case False
        have "ring (class_entry s') m (filter (same_class s m) cs)"
        proof (cases "pos = NULL")
          case True
          then show ?thesis using ring by (simp add: s'(2))
        next
          case pos_found: False
          let ?P = "\<lambda>pos. same_name (mod_class s pos) (mod_class s n)"
          obtain p ps where p: "filter ?P ms = p # ps" "pos = p"
            using pos_found pos(1) by (cases "filter ?P ms") auto
          then obtain us vs where ms2: "ms = us @ p # vs" "\<forall>u \<in> set us. \<not> ?P u" "?P p"
            unfolding filter_eq_Cons_iff by auto
          have pn: "same_class s n p" using ms2(3) by (simp add: same_class_def)
          have "\<forall>x \<in> set us. \<not> same_class s p x"
            using ms2(2,3) unfolding same_class_def by (metis same_name_sym same_name_trans)
          then have ringp: "ring ?l p (filter (same_class s p) vs)" by (rule old[OF ms2(1)])
          have apart: "set (n # p # filter (same_class s p) vs) \<inter> set (m # filter (same_class s m) cs) = {}"
          proof -
            have "\<not> (same_class s n x \<and> same_class s m x)" for x
              using False same_class_sym same_class_trans by blast
            moreover have "same_class s n x" if "x \<in> set (n # p # filter (same_class s p) vs)" for x
              using that pn same_class_trans by auto
            moreover have "same_class s m x" if "x \<in> set (m # filter (same_class s m) cs)" for x
              using that by auto
            ultimately show ?thesis by blast
          qed
          show ?thesis
            unfolding s'(2) p(2)[symmetric] using pos_found
            using ring_keep[OF agree_add_tail[OF ringp, of n] ring apart] p(2) by simp
        qed
        then show ?thesis using False snoc ms(2) by (simp add: sc)
      qed
    qed
  qed
qed

text \<open>And after the last module was taken out again.\<close>

lemma other_classes_apart:
  assumes "\<not> same_class s m n" and "\<And>x. x \<in> X \<Longrightarrow> same_class s n x" and "\<And>x. x \<in> Y \<Longrightarrow> same_class s m x"
  shows "X \<inter> Y = {}"
  using assms same_class_sym same_class_trans by blast

lemma class_rings_remove_last:
  assumes rings: "class_rings s (ms @ [n])" and s': "mod_class s' = mod_class s"
      "class_entry s' = (if list_empty (class_entry s) n then class_entry s else list_del_init n (class_entry s))"
  shows "class_rings s' ms"
  unfolding class_rings_def
proof (intro allI impI)
  have sc: "same_class s' = same_class s" by (simp add: same_class_def s'(1) fun_eq_iff)
  fix as m bs
  assume ms: "ms = as @ m # bs" and "\<forall>x \<in> set as. \<not> same_class s' m x"
  then have first: "\<forall>x \<in> set as. \<not> same_class s m x" by (simp add: sc)
  have ring: "ring (class_entry s) m (filter (same_class s m) (bs @ [n]))"
    by (rule class_rings_at[OF _ first]) (use rings ms in simp)
  show "ring (class_entry s') m (filter (same_class s' m) bs)"
  proof (cases "same_class s m n")
    case True
    then have r: "ring (class_entry s) m (filter (same_class s m) bs @ [n])" using ring by simp
    have "ring (class_entry s) n ([] @ m # filter (same_class s m) bs)"
      using ring_rotate[of "class_entry s" m _ n "[]"] r by simp
    then have "\<not> list_empty (class_entry s) n" using ring_empty_iff by fastforce
    then show ?thesis using list_del_init_ring(1)[of _ m _ n "[]"] r by (simp add: s'(2) sc)
  next
    case False
    then have r: "ring (class_entry s) m (filter (same_class s m) bs)" using ring by simp
    show ?thesis
    proof (cases "list_empty (class_entry s) n")
      case True
      then show ?thesis using r by (simp add: s'(2) sc)
    next
      case linked: False
      have "\<exists>x \<in> set ms. same_class s n x"
      proof (rule ccontr)
        assume "\<not> (\<exists>x \<in> set ms. same_class s n x)"
        then have "ring (class_entry s) n []" using class_rings_at[of s ms n "[]"] rings by simp
        then show False using linked ring_empty_iff by blast
      qed
      then obtain us p vs where p: "ms = us @ p # vs" "same_class s n p" "\<forall>u \<in> set us. \<not> same_class s n u"
        using split_list_first_prop[of ms "same_class s n"] by blast
      have pn: "same_class s p n" by (rule same_class_sym[OF p(2)])
      have "\<forall>x \<in> set us. \<not> same_class s p x" using p(2,3) same_class_trans by blast
      then have "ring (class_entry s) p (filter (same_class s p) (vs @ [n]))"
        by (rule class_rings_at[rotated]) (use rings p(1) in simp)
      then have rp: "ring (class_entry s) p (filter (same_class s p) vs @ n # [])" using pn by simp
      have apart: "set (p # filter (same_class s p) vs @ n # []) \<inter> set (m # filter (same_class s m) bs) = {}"
        by (rule other_classes_apart[OF False]) (use p(2) same_class_trans in auto)
      show ?thesis
        using ring_keep[OF agree_del_init[OF rp] r apart] linked by (simp add: s'(2) sc)
    qed
  qed
qed

definition init_result :: "(opt \<Rightarrow> string \<Rightarrow> opt) \<Rightarrow> (opt \<Rightarrow> string \<Rightarrow> string \<Rightarrow> opt) \<Rightarrow> modules \<Rightarrow> addr \<Rightarrow> bool \<Rightarrow> int" where
  "init_result fo f3 s m first =
     (case module_init s m of None \<Rightarrow> AModuleInitNull | Some f \<Rightarrow> f) (g_option s) (option_of fo f3 s m) first"

lemma option_of_cong: "g_option s' = g_option s \<Longrightarrow> mod_name s' = mod_name s \<Longrightarrow> mod_class s' = mod_class s \<Longrightarrow>
  option_of fo f3 s' = option_of fo f3 s"
  by (rule ext) (simp add: option_of_def Let_def)

lemma AModuleRegister_list:
  assumes reg: "registered s ms" and m: "m \<notin> set ms" "m \<noteq> NULL" "m \<noteq> g_module s"
    and r_def: "r = (if g_inited s then init_result fo f3 s m True else 0)"
  shows "\<exists>s'. AModuleRegister fo f3 m s = Some (r, s') \<and> registered s' (if r < 0 then ms else ms @ [m]) \<and>
    mod_class s' = mod_class s \<and> mod_name s' = mod_name s \<and>
    global_index s' = (global_index s)(m := g_index s + 1) \<and> g_index s' = g_index s + 1 \<and>
    module_log s' = module_log s @ (if g_inited s then [Init m (g_option s) (option_of fo f3 s m) True] else []) @
      (if r < 0 then [Exit m r] else [])"
proof -
  note i = registeredD[OF reg]
  let ?G = "g_module s" and ?pos = "hd_node (filter (\<lambda>pos. same_name (mod_class s pos) (mod_class s m)) ms)"
  define s1 where "s1 = s\<lparr>module_init := default_to AModuleInitNull m (module_init s), module_exit := (module_exit s)(m := True),
      module_probe := default_to AObjectProbeNull m (module_probe s), class_entry := INIT_LIST_HEAD m (class_entry s)\<rparr>"
  have search: "list_search (\<lambda>pos. same_name (mod_class s1 pos) (mod_class s1 m)) (global_entry s1) (g_module s1)
      (nxt (global_entry s1) (g_module s1)) = Some ?pos"
    using list_search_ring[OF i(1), of "\<lambda>pos. same_name (mod_class s pos) (mod_class s m)"] by (simp add: s1_def)
  define s2 where "s2 = (if ?pos \<noteq> NULL then s1\<lparr>class_entry := list_add_tail m ?pos (class_entry s1)\<rparr> else s1)"
  define s3 where "s3 = s2\<lparr>g_index := g_index s2 + 1, global_index := (global_index s2)(m := g_index s2 + 1),
      global_entry := list_add_tail m (g_module s2) (global_entry s2)\<rparr>"
  have s3: "mod_class s3 = mod_class s" "mod_name s3 = mod_name s" "g_option s3 = g_option s" "g_inited s3 = g_inited s"
      "g_module s3 = ?G" "module_log s3 = module_log s" "global_entry s3 = list_add_tail m ?G (global_entry s)"
      "g_index s3 = g_index s + 1" "global_index s3 = (global_index s)(m := g_index s + 1)"
      "module_init s3 = default_to AModuleInitNull m (module_init s)" "module_exit s3 = (module_exit s)(m := True)"
      "module_probe s3 = default_to AObjectProbeNull m (module_probe s)"
      "class_entry s3 = (if ?pos \<noteq> NULL then list_add_tail m ?pos (INIT_LIST_HEAD m (class_entry s)) else INIT_LIST_HEAD m (class_entry s))"
    by (simp_all add: s3_def s2_def s1_def)
  have start: "AModuleRegister fo f3 m s = (if \<not> g_inited s3 then Some (0, s3)
     else do {
       (result, s) \<leftarrow> call_init m (option_of fo f3 s3 m) True s3;
       if result < 0
       then do {
         s \<leftarrow> call_exit m result s;
         let s = s\<lparr>global_entry := list_del_init m (global_entry s)\<rparr>;
         Some (result, if \<not> list_empty (class_entry s) m then s\<lparr>class_entry := list_del_init m (class_entry s)\<rparr> else s)
       }
       else Some (result, s)
     })"
    unfolding AModuleRegister_def Let_def s1_def[symmetric] search
    by (simp only: bind.bind_lunit s2_def[symmetric] s3_def[symmetric])
  have ring3: "ring (global_entry s3) ?G (ms @ [m])"
    unfolding s3 by (rule list_add_tail_ring[OF i(1)]) (use m in auto)
  have class3: "class_rings s3 (ms @ [m])"
    by (rule class_rings_add[OF i(3) m(1) _ refl i(2)]) (use i(7) s3 in auto)
  have reg3: "registered s3 (ms @ [m])"
    using ring3 class3 i(2,4-6) m(2) by (auto simp: registered_def s3 default_to_def)
  have init: "call_init m (option_of fo f3 s3 m) True s3 =
      Some (init_result fo f3 s m True, s3\<lparr>module_log := module_log s @ [Init m (g_option s) (option_of fo f3 s m) True]\<rparr>)"
    by (auto simp: call_init_def s3 default_to_def init_result_def option_of_cong[OF s3(3,2,1)] split: option.splits)
  show ?thesis
  proof (cases "r < 0")
    case False
    let ?s = "if g_inited s then s3\<lparr>module_log := module_log s @ [Init m (g_option s) (option_of fo f3 s m) True]\<rparr> else s3"
    have "AModuleRegister fo f3 m s = Some (r, ?s)" using False start init by (auto simp: r_def s3)
    moreover have "registered ?s (ms @ [m])" using reg3 registered_cong[of ?s s3] by simp
    ultimately show ?thesis using False by (intro exI[of _ ?s]) (simp add: s3)
  next
    case True
    then have inited: "g_inited s" by (simp add: r_def split: if_splits)
    define s4 where "s4 = s3\<lparr>module_log := module_log s @ [Init m (g_option s) (option_of fo f3 s m) True, Exit m r],
        global_entry := list_del_init m (global_entry s3)\<rparr>"
    define s5 where "s5 = (if \<not> list_empty (class_entry s4) m then s4\<lparr>class_entry := list_del_init m (class_entry s4)\<rparr> else s4)"
    have run: "AModuleRegister fo f3 m s = Some (r, s5)"
      using True inited start init by (simp add: r_def s3 call_exit_def s4_def s5_def)
    have s5: "mod_class s5 = mod_class s" "mod_name s5 = mod_name s" "g_module s5 = ?G" "g_index s5 = g_index s + 1"
        "global_index s5 = (global_index s)(m := g_index s + 1)" "global_entry s5 = list_del_init m (global_entry s3)"
        "module_init s5 = module_init s3" "module_exit s5 = module_exit s3" "module_probe s5 = module_probe s3"
        "module_log s5 = module_log s @ [Init m (g_option s) (option_of fo f3 s m) True, Exit m r]"
      by (simp_all add: s5_def s4_def s3)
    have "class_rings s5 ms"
      by (rule class_rings_remove_last[OF class3]) (simp_all add: s5(1) s3(1), simp add: s5_def s4_def)
    moreover have "ring (global_entry s5) ?G ms"
      using list_del_init_ring(1)[of "global_entry s3" ?G ms m "[]"] ring3 by (simp add: s5)
    ultimately have "registered s5 ms" using reg3 i(2) by (simp add: registered_def s5)
    then show ?thesis using run True inited by (auto simp: s5)
  qed
qed

section \<open>Initialisation and exit\<close>

lemma registered_log: "registered (s\<lparr>module_log := l\<rparr>) ms = registered s ms"
  by (rule registered_cong) simp_all

lemma AModuleInit_from_list:
  assumes "registered s (as @ bs)"
  shows "AModuleInit_from fo f3 first (hd (bs @ [g_module s])) s =
    Some (s\<lparr>module_log := module_log s @ map (\<lambda>m. Init m (g_option s) (option_of fo f3 s m) first) bs\<rparr>)"
  using assms
proof (induction bs arbitrary: as s)
  case Nil
  then show ?case by (subst AModuleInit_from.simps) simp
next
  case (Cons m bs)
  note r = registeredD[OF Cons.prems]
  have m: "m \<noteq> g_module s" using r(7) by auto
  have nx: "nxt (global_entry s) m = hd (bs @ [g_module s])" by (rule ring_mid(2)[OF r(1)])
  let ?s = "s\<lparr>module_log := module_log s @ [Init m (g_option s) (option_of fo f3 s m) first]\<rparr>"
  obtain f where f: "module_init s m = Some f" using r(4)[of m] by auto
  have "registered ?s ((as @ [m]) @ bs)" using Cons.prems by (simp add: registered_log)
  note ih = Cons.IH[OF this]
  have "option_of fo f3 ?s = option_of fo f3 s" by (rule option_of_cong) simp_all
  then show ?case using ih m nx f by (subst AModuleInit_from.simps) (simp add: call_init_def)
qed

lemma AModuleInit_list:
  assumes reg: "registered s ms" and s1_def: "s1 = s\<lparr>g_option := op, g_inited := True\<rparr>"
  shows "AModuleInit fo f3 op s =
    Some (1, s1\<lparr>module_log := module_log s @ map (\<lambda>m. Init m op (option_of fo f3 s1 m) (\<not> g_inited s)) ms\<rparr>)"
proof -
  have reg1: "registered s1 ([] @ ms)" using reg registered_cong[of s1 s] by (simp add: s1_def)
  have "nxt (global_entry s1) (g_module s1) = hd (ms @ [g_module s1])"
    using ring_start[OF registeredD(1)[OF reg1]] by simp
  then show ?thesis
    using AModuleInit_from_list[OF reg1, of fo f3 "\<not> g_inited s"] by (simp add: AModuleInit_def s1_def)
qed

lemma AModuleExit_loop_list:
  assumes "ring (global_entry s) (g_module s) ms" and "\<forall>m \<in> set ms. module_exit s m"
  shows "\<exists>l. AModuleExit_loop s = Some (s\<lparr>global_entry := l,
      module_log := module_log s @ map (\<lambda>m. Exit m (if g_inited s then 1 else 0)) ms\<rparr>) \<and> ring l (g_module s) []"
  using assms
proof (induction ms arbitrary: s)
  case Nil
  then show ?case
    using ring_empty_iff[OF Nil.prems(1)] by (subst AModuleExit_loop.simps) (auto intro!: exI[of _ "global_entry s"])
next
  case (Cons m ms)
  have ne: "\<not> list_empty (global_entry s) (g_module s)" using ring_empty_iff[OF Cons.prems(1)] by simp
  obtain l1 where l1: "list_pop_front (g_module s) (global_entry s) = (m, l1)" "ring l1 (g_module s) ms"
    using list_pop_front_ring(1,2)[OF Cons.prems(1)] by (metis prod.collapse)
  let ?s = "s\<lparr>global_entry := l1, module_log := module_log s @ [Exit m (if g_inited s then 1 else 0)]\<rparr>"
  obtain l where l: "AModuleExit_loop ?s = Some (?s\<lparr>global_entry := l,
      module_log := module_log ?s @ map (\<lambda>m. Exit m (if g_inited ?s then 1 else 0)) ms\<rparr>)" "ring l (g_module s) []"
    using Cons.IH[of ?s] l1(2) Cons.prems(2) by auto
  have "AModuleExit_loop s = AModuleExit_loop ?s"
    using ne l1(1) Cons.prems(2) by (subst AModuleExit_loop.simps) (simp add: call_exit_def)
  then show ?case using l by (intro exI[of _ l]) simp
qed

lemma AModuleExit_list:
  assumes "registered s ms"
  shows "\<exists>s'. AModuleExit s = Some (1, s') \<and> registered s' [] \<and> \<not> g_inited s' \<and>
    module_log s' = module_log s @ map (\<lambda>m. Exit m (if g_inited s then 1 else 0)) ms"
proof -
  obtain l where "AModuleExit_loop s = Some (s\<lparr>global_entry := l,
      module_log := module_log s @ map (\<lambda>m. Exit m (if g_inited s then 1 else 0)) ms\<rparr>)" "ring l (g_module s) []"
    using AModuleExit_loop_list[of s ms] registeredD[OF assms] by blast
  then show ?thesis by (auto simp: AModuleExit_def registered_def class_rings_def)
qed

section \<open>An example\<close>

definition demo_modules :: modules where
  "demo_modules = \<lparr>g_module = 50, global_entry = INIT_LIST_HEAD 50 \<lparr>nxt = (\<lambda>_. 77), prv = (\<lambda>_. 77)\<rparr>,
     class_entry = \<lparr>nxt = (\<lambda>_. 77), prv = (\<lambda>_. 77)\<rparr>,
     mod_class = (\<lambda>m. if m = 2 then ''io'' else ''stream''), mod_name = (\<lambda>m. if m = 3 then ''RTMP'' else ''tcp''),
     object_size = (\<lambda>_. 16), object_count = (\<lambda>_. 0), global_index = (\<lambda>_. 0), module_init = (\<lambda>_. None),
     module_exit = (\<lambda>_. False), module_probe = (\<lambda>_. None), g_option = NULL, g_inited = False, g_index = 0, module_log = []\<rparr>"

lemma demo_registered: "registered demo_modules []"
  by (simp add: registered_def class_rings_def demo_modules_def INIT_LIST_HEAD_ring)

lemma AModuleRegister_heads:
  "AModuleRegister fo f3 m s = Some (r, s') \<Longrightarrow> g_module s' = g_module s \<and> g_inited s' = g_inited s"
  by (auto simp: AModuleRegister_def call_init_def call_exit_def Let_def split: if_splits option.splits bind_splits)

lemma demo_three: "\<exists>s. registered s [1, 2, 3] \<and> mod_class s = mod_class demo_modules \<and> mod_name s = mod_name demo_modules \<and>
    g_module s = 50 \<and> \<not> g_inited s"
proof -
  have step: "\<exists>s'. registered s' (ms @ [m]) \<and> mod_class s' = mod_class s \<and> mod_name s' = mod_name s \<and> g_module s' = 50 \<and> \<not> g_inited s'"
    if "registered s ms" "m \<notin> set ms" "m \<noteq> 0" "m \<noteq> 50" "g_module s = 50" "\<not> g_inited s" for s ms m
  proof -
    note t = that
    obtain s' where "AModuleRegister (\<lambda>_ _. 0) (\<lambda>_ _ _. 0) m s = Some (0, s')" "registered s' (ms @ [m])"
        "mod_class s' = mod_class s" "mod_name s' = mod_name s"
      using AModuleRegister_list[OF t(1), of m 0 "\<lambda>_ _. 0" "\<lambda>_ _ _. 0"] t by (auto simp: NULL_def)
    then show ?thesis using AModuleRegister_heads t(5,6) by metis
  qed
  obtain s1 where 1: "registered s1 [1]" "mod_class s1 = mod_class demo_modules" "mod_name s1 = mod_name demo_modules" "g_module s1 = 50" "\<not> g_inited s1"
    using step[OF demo_registered, of 1] by (auto simp: demo_modules_def)
  obtain s2 where 2: "registered s2 [1, 2]" "mod_class s2 = mod_class demo_modules" "mod_name s2 = mod_name demo_modules" "g_module s2 = 50" "\<not> g_inited s2"
    using step[OF 1(1), of 2] 1(2-5) by auto
  show ?thesis using step[OF 2(1), of 3] 2(2-5) by auto
qed

section \<open>The properties\<close>

text \<open>
  C24: a module that is registered gets the next index and is the last of the registry; when the
  program runs already its \<open>init\<close> function is called with its option, and when that fails, \<open>exit\<close> is
  called and the registry is as before.
\<close>

theorem module_registration:
  assumes "registered s ms" and "m \<notin> set ms" and "m \<noteq> NULL" and "m \<noteq> g_module s"
    and "r = (if g_inited s then init_result fo f3 s m True else 0)"
  shows "\<exists>s'. AModuleRegister fo f3 m s = Some (r, s') \<and> registered s' (if r < 0 then ms else ms @ [m]) \<and>
    mod_class s' = mod_class s \<and> mod_name s' = mod_name s \<and>
    global_index s' = (global_index s)(m := g_index s + 1) \<and> g_index s' = g_index s + 1 \<and>
    module_log s' = module_log s @ (if g_inited s then [Init m (g_option s) (option_of fo f3 s m) True] else []) @
      (if r < 0 then [Exit m r] else [])"
  by (rule AModuleRegister_list[OF assms])

theorem module_registration_witness:
  "\<exists>s s'. registered s [1, 2, 3] \<and> AModuleRegister (\<lambda>_ _. 0) (\<lambda>_ _ _. 0) 4 s = Some (0, s') \<and> registered s' [1, 2, 3, 4]"
proof -
  obtain s where s: "registered s [1, 2, 3]" "g_module s = 50" "\<not> g_inited s" using demo_three by blast
  have "4 \<notin> set [1, 2, 3 :: addr]" "4 \<noteq> NULL" "4 \<noteq> g_module s"
      "(0 :: int) = (if g_inited s then init_result (\<lambda>_ _. 0) (\<lambda>_ _ _. 0) s 4 True else 0)"
    using s by (simp_all add: NULL_def)
  from module_registration[OF s(1) this] s(1) show ?thesis by auto
qed

text \<open>
  Initialising the program calls \<open>init\<close> of every module once in the order of registration, and
  leaving it calls \<open>exit\<close> of every module once in that order and empties the registry.
\<close>

theorem module_init_exit:
  assumes "registered s ms" and "s1 = s\<lparr>g_option := op, g_inited := True\<rparr>"
  shows "\<exists>s2 s3. AModuleInit fo f3 op s = Some (1, s2) \<and> registered s2 ms \<and>
    module_log s2 = module_log s @ map (\<lambda>m. Init m op (option_of fo f3 s1 m) (\<not> g_inited s)) ms \<and>
    AModuleExit s2 = Some (1, s3) \<and> registered s3 [] \<and> \<not> g_inited s3 \<and>
    module_log s3 = module_log s2 @ map (\<lambda>m. Exit m 1) ms"
proof -
  let ?s2 = "s1\<lparr>module_log := module_log s @ map (\<lambda>m. Init m op (option_of fo f3 s1 m) (\<not> g_inited s)) ms\<rparr>"
  have r2: "registered ?s2 ms" using assms registered_cong[of ?s2 s] by simp
  have "g_inited ?s2" using assms(2) by simp
  then show ?thesis using AModuleInit_list[OF assms, of fo f3] AModuleExit_list[OF r2] r2 by auto
qed

theorem module_init_exit_witness:
  "\<exists>s s2 s3. registered s [1, 2, 3] \<and> AModuleInit (\<lambda>_ _. 0) (\<lambda>_ _ _. 0) 9 s = Some (1, s2) \<and> AModuleExit s2 = Some (1, s3) \<and>
     registered s3 []"
proof -
  obtain s where s: "registered s [1, 2, 3]" using demo_three by blast
  from module_init_exit[OF s refl, where op = 9 and fo = "\<lambda>_ _. 0" and ?f3.0 = "\<lambda>_ _ _. 0"] s show ?thesis by blast
qed

text \<open>
  C14: looking a module up through the lists of the classes gives what a search through all modules
  in the order of registration gives: \<open>AModuleFind\<close> the first module with the names, \<open>AModuleEnum\<close> the
  module at which the visits of the class' modules end, \<open>AModuleProbe\<close> the first of those with the
  greatest positive score, and \<open>AModuleNext\<close> the module registered next.
\<close>

theorem module_lookup:
  assumes "registered s ms"
  shows "(c \<noteq> None \<or> n \<noteq> None \<longrightarrow> AModuleFind c n s = Some (hd_node (filter (matches c n s) ms))) \<and>
    AModuleEnum c visit p s = Some (enum_until visit (filter (matches c None s) ms) p) \<and>
    (\<exists>m. AModuleProbe c object other msg s = Some m \<and>
       (m = NULL \<and> (\<forall>x \<in> set (filter (matches c None s) ms). scores s object other msg x \<le> 0) \<or>
        (\<exists>as bs. filter (matches c None s) ms = as @ m # bs \<and> scores s object other msg m > 0 \<and>
           (\<forall>x \<in> set as. scores s object other msg x < scores s object other msg m) \<and>
           (\<forall>x \<in> set bs. scores s object other msg x \<le> scores s object other msg m)))) \<and>
    AModuleNext NULL s = hd_node ms \<and> (\<forall>as m bs. ms = as @ m # bs \<longrightarrow> AModuleNext m s = hd_node bs)"
proof -
  note i = registeredD[OF assms]
  have m: "matches c None s = (\<lambda>m. \<not> class_differs c s m)" by (simp add: matches_def fun_eq_iff)
  let ?ms = "filter (matches c None s) ms" and ?f = "scores s object other msg"
  obtain b v where b: "best_of ?f ?ms (NULL, 0) = (b, v)" by fastforce
  have probe: "AModuleProbe c object other msg s = Some b" using AModuleProbe_list[OF assms, of c] b by (simp add: m)
  have best: "b = NULL \<and> (\<forall>x \<in> set ?ms. ?f x \<le> 0) \<or>
      (\<exists>as bs. ?ms = as @ b # bs \<and> ?f b > 0 \<and> (\<forall>x \<in> set as. ?f x < ?f b) \<and> (\<forall>x \<in> set bs. ?f x \<le> ?f b))"
  proof -
    note g = best_of_greatest[OF b]
    show ?thesis
    proof (cases "(b, v) = (NULL, 0)")
      case True
      then show ?thesis using g by simp
    next
      case False
      then obtain as bs where "?ms = as @ b # bs" "v = ?f b" "0 < v" "\<forall>a \<in> set as. ?f a < v" using g by blast
      moreover from this have "\<forall>x \<in> set bs. ?f x \<le> v" using g by simp
      ultimately show ?thesis by blast
    qed
  qed
  have next_of: "AModuleNext m s = hd_node bs" if "ms = as @ m # bs" for as m bs
    using ring_mid(2)[of "global_entry s" "g_module s" as m bs] i(1,2,7) that
    by (cases bs) (auto simp: AModuleNext_def list_is_last_def)
  show ?thesis
  proof (intro conjI)
    show "c \<noteq> None \<or> n \<noteq> None \<longrightarrow> AModuleFind c n s = Some (hd_node (filter (matches c n s) ms))"
      using AModuleFind_list[OF assms, of c n] by blast
    show "AModuleEnum c visit p s = Some (enum_until visit ?ms p)" unfolding m by (rule AModuleEnum_list[OF assms])
    show "\<exists>m. AModuleProbe c object other msg s = Some m \<and>
       (m = NULL \<and> (\<forall>x \<in> set ?ms. ?f x \<le> 0) \<or>
        (\<exists>as bs. ?ms = as @ m # bs \<and> ?f m > 0 \<and> (\<forall>x \<in> set as. ?f x < ?f m) \<and> (\<forall>x \<in> set bs. ?f x \<le> ?f m)))"
      by (rule exI[of _ b]) (rule conjI[OF probe best])
    show "AModuleNext NULL s = hd_node ms"
      using ring_empty_iff[OF i(1)] ring_head(1)[OF i(1)] by (cases ms) (auto simp: AModuleNext_def)
    show "\<forall>as m bs. ms = as @ m # bs \<longrightarrow> AModuleNext m s = hd_node bs" using next_of by blast
  qed
qed

theorem module_lookup_witness:
  "\<exists>s. registered s [1, 2, 3] \<and> AModuleFind (Some ''STREAM'') (Some ''rtmp'') s = Some 3 \<and>
     AModuleFind None (Some ''tcp'') s = Some 1 \<and> AModuleFind (Some ''IO'') None s = Some 2"
proof -
  obtain s where s: "registered s [1, 2, 3]" "mod_class s = mod_class demo_modules" "mod_name s = mod_name demo_modules"
    using demo_three by blast
  have "same_name ''STREAM'' ''stream''" "\<not> same_name ''STREAM'' ''io''" "same_name ''rtmp'' ''RTMP''" "\<not> same_name ''rtmp'' ''tcp''"
      "same_name ''IO'' ''io''" "\<not> same_name ''IO'' ''stream''"
    by code_simp+
  then have "matches (Some ''STREAM'') (Some ''rtmp'') s 1 = False" "matches (Some ''STREAM'') (Some ''rtmp'') s 2 = False"
      "matches (Some ''STREAM'') (Some ''rtmp'') s 3" "matches None (Some ''tcp'') s 1"
      "matches (Some ''IO'') None s 1 = False" "matches (Some ''IO'') None s 2"
    by (simp_all add: matches_def class_differs_def s demo_modules_def)
  then show ?thesis
    using module_lookup[OF s(1), THEN conjunct1, of "Some ''STREAM''" "Some ''rtmp''"]
      module_lookup[OF s(1), THEN conjunct1, of None "Some ''tcp''"]
      module_lookup[OF s(1), THEN conjunct1, of "Some ''IO''" None] s(1)
    by - (rule exI[of _ s], simp)
qed

section \<open>Objects\<close>

text \<open>
  Creating an object of a module counts it and gives it one reference; releasing that reference
  calls the module's \<open>release\<close> function, gives the memory back and leaves the count as before.  An
  object that cannot be created leaves nothing behind.
\<close>

lemma AObjectCreate_release:
  assumes "object_size (obj_modules s) m > 0" and "m \<noteq> NULL" and "block \<noteq> NULL"
    and "\<And>m a s. create m a s = (r m, a, s)"
  shows "\<exists>s'. AObjectCreate block create m c n s = Some (r m, if r m < 0 then NULL else block, s') \<and>
    (if r m < 0 then object_count (obj_modules s') = object_count (obj_modules s) \<and> obj_freed s' = obj_freed s @ [block]
     else object_count (obj_modules s') m = object_count (obj_modules s) m + 1 \<and> obj_refcount s' block = 1 \<and>
       object_count (obj_modules (release_object block s')) = object_count (obj_modules s) \<and>
       obj_released (release_object block s') = obj_released s @ [(m, block)] \<and>
       obj_freed (release_object block s') = obj_freed s @ [block])"
  using assms by (auto simp: AObjectCreate_def release_object_def AObjectFree_def count_objects_def fun_upd_idem_iff)

end
