(* ===== verification/Client.thy ===== *)
theory Client
  imports List_Frame "HOL-Library.Word"
begin

text \<open>
  The system of clients (\<^verbatim>\<open>ecs/AClientSystem.h\<close>, \<^verbatim>\<open>ecs/AClientSystem.cpp\<close>): a state machine per client
  component, which a check advances by the clock and which runs the functions of the component's
  implementation, \<open>open\<close>, \<open>heart\<close>, \<open>abort\<close> and \<open>close\<close>.  A function that returns 0 is not finished; it
  ends later with \<open>exec_done\<close>.
\<close>

section \<open>State\<close>

datatype client_status = Invalid | Opening | Opened | Closing | Closed

datatype client_heart = HeartNone | HeartChecking | HeartCheckDone

datatype system_status = NotNeed | Pending | Runnable | Aborting

text \<open>
  \<open>entity_refs\<close> is the reference count of the client's entity and \<open>in_manager\<close> tells whether the entity
  manager holds it; \<open>has_heart\<close> and \<open>has_abort\<close> tell whether the two optional functions are set.
\<close>

record client =
  tick_reopen :: int
  tick_heart :: int
  tick_abort :: int
  open_heart :: bool
  auto_reopen :: bool
  auto_remove :: bool
  status :: client_status
  main_tick :: "32 word"
  main_abort :: bool
  last_opened :: bool
  check_heart :: client_heart
  busy_count :: int
  run_status :: system_status
  abort_status :: system_status
  has_heart :: bool
  has_abort :: bool
  entity_refs :: int
  in_manager :: bool

definition init2 :: "client \<Rightarrow> client" where
  "init2 c = c\<lparr>tick_reopen := 30 * 1000, tick_heart := 10 * 1000, tick_abort := 20 * 1000,
     open_heart := True, auto_reopen := True, auto_remove := True,
     status := Invalid, main_tick := 0, main_abort := False,
     last_opened := False, check_heart := HeartNone, busy_count := 0,
     run_status := NotNeed, abort_status := NotNeed, has_heart := False, has_abort := False\<rparr>"

definition client_use :: "int \<Rightarrow> client \<Rightarrow> client" where
  "client_use n c = c\<lparr>busy_count := busy_count c + n\<rparr>"

definition entity_addref :: "client \<Rightarrow> client" where
  "entity_addref c = c\<lparr>entity_refs := entity_refs c + 1\<rparr>"

definition entity_release :: "client \<Rightarrow> client" where
  "entity_release c = c\<lparr>entity_refs := entity_refs c - 1\<rparr>"

text \<open>\<open>_all_entities->_pop\<close> releases the entity when it is in the manager.\<close>

definition manager_pop :: "client \<Rightarrow> client" where
  "manager_pop c = (if in_manager c then entity_release (c\<lparr>in_manager := False\<rparr>) else c)"

section \<open>Checking a client\<close>

text \<open>
  The result to execute, if any; whether the client leaves the list of clients, in which it is
  when \<open>linked\<close>; and the client.
\<close>

datatype exec = Run | Abort

definition tick_diff :: "32 word \<Rightarrow> client \<Rightarrow> int" where
  "tick_diff cur_tick c = (let diff = sint (cur_tick - main_tick c) in if diff < 0 then 0 else diff)"

definition issue_run :: "client \<Rightarrow> client" where
  "issue_run c = (client_use 1 (entity_addref c))\<lparr>run_status := Runnable\<rparr>"

definition issue_abort :: "32 word \<Rightarrow> client \<Rightarrow> exec option \<times> bool \<times> client" where
  "issue_abort cur_tick c =
     (let c = c\<lparr>main_tick := cur_tick, main_abort := True\<rparr>
      in if \<not> has_abort c then (None, False, c)
         else (Some Abort, False, (client_use 1 (entity_addref c))\<lparr>abort_status := Aborting\<rparr>))"

definition check_one :: "32 word \<Rightarrow> bool \<Rightarrow> client \<Rightarrow> exec option \<times> bool \<times> client" where
  "check_one cur_tick linked c =
     (let diff = tick_diff cur_tick c
      in case status c of
        Invalid \<Rightarrow>
          if busy_count c \<noteq> 0 then (None, False, c)
          else if main_tick c \<noteq> 0 \<and> diff < tick_reopen c then (None, False, c)
          else (Some Run, False, issue_run (c\<lparr>main_tick := cur_tick, main_abort := False, check_heart := HeartChecking\<rparr>))
      | Opening \<Rightarrow> if diff > tick_abort c then issue_abort cur_tick c else (None, False, c)
      | Opened \<Rightarrow>
          if diff > tick_abort c then issue_abort cur_tick c
          else if main_abort c
          then if busy_count c \<noteq> 0 then (None, False, c) else (Some Run, False, issue_run (c\<lparr>status := Closing\<rparr>))
          else if diff < tick_heart c \<or> \<not> has_heart c \<or> check_heart c \<noteq> HeartNone then (None, False, c)
          else (Some Run, False, issue_run (c\<lparr>check_heart := HeartChecking\<rparr>))
      | Closing \<Rightarrow>
          if busy_count c = 0 then (Some Run, False, issue_run c)
          else if diff > tick_abort c then issue_abort cur_tick c
          else (None, False, c)
      | Closed \<Rightarrow>
          if busy_count c \<noteq> 0 then (None, False, c)
          else if \<not> auto_reopen c
          then if \<not> auto_remove c then (None, False, c)
               else let c = manager_pop (entity_addref c);
                        c = (if linked then entity_release c else c)
                    in (Some Run, linked, (client_use 1 c)\<lparr>run_status := Runnable\<rparr>)
          else (None, False, c\<lparr>status := Invalid, main_tick := cur_tick, main_abort := False\<rparr>))"

section \<open>Running a client\<close>

text \<open>
  The switch of \<^verbatim>\<open>client_run_internal\<close> falls through from one case to the next; every case is a
  definition that continues with the next one.  The results of the implementation's functions
  and the clock are a record; the calls and the two events are outputs.
\<close>

record implementation =
  open_result :: int
  heart_result :: int
  close_result :: int
  clock :: "32 word"

datatype client_call = Open | Heart | AbortCall | Close | OnClientOpened | OnClientClosed

type_synonym run_result = "int \<times> client_call list \<times> client"

definition run_end :: "int \<Rightarrow> client_call list \<Rightarrow> client \<Rightarrow> run_result" where
  "run_end result calls c = (result, calls, entity_release (client_use (-1) (c\<lparr>run_status := NotNeed\<rparr>)))"

definition run_closed :: "int \<Rightarrow> client_call list \<Rightarrow> client \<Rightarrow> run_result" where
  "run_closed result calls c = run_end result (calls @ [OnClientClosed]) (c\<lparr>last_opened := False\<rparr>)"

definition run_closing :: "implementation \<Rightarrow> client_call list \<Rightarrow> client \<Rightarrow> run_result" where
  "run_closing i calls c =
     (let c = c\<lparr>status := Closed\<rparr>;
          result = close_result i;
          calls = calls @ [Close]
      in if result = 0 then (0, calls, c) else run_closed result calls c)"

definition run_opened_failed :: "implementation \<Rightarrow> int \<Rightarrow> client_call list \<Rightarrow> client \<Rightarrow> run_result" where
  "run_opened_failed i result calls c =
     (let c = c\<lparr>main_abort := True\<rparr>;
          calls = (if has_abort c then calls @ [AbortCall] else calls);
          c = c\<lparr>status := Closing\<rparr>
      in if busy_count c \<noteq> 1 then run_end result calls c else run_closing i calls c)"

definition run_opened_ok :: "implementation \<Rightarrow> int \<Rightarrow> client_call list \<Rightarrow> client \<Rightarrow> run_result" where
  "run_opened_ok i result calls c = run_end result calls (c\<lparr>main_tick := clock i, check_heart := HeartNone\<rparr>)"

definition run_opened :: "implementation \<Rightarrow> int \<Rightarrow> client_call list \<Rightarrow> client \<Rightarrow> run_result" where
  "run_opened i result calls c =
     (if result \<ge> 0 \<and> check_heart c = HeartChecking
      then let c = c\<lparr>check_heart := HeartCheckDone\<rparr>;
               result = heart_result i;
               calls = calls @ [Heart]
           in if result = 0 then (0, calls, c)
              else if result \<ge> 0 then run_opened_ok i result calls c
              else run_opened_failed i result calls c
      else if result \<ge> 0 then run_opened_ok i result calls c
      else run_opened_failed i result calls c)"

definition run_opening :: "implementation \<Rightarrow> int \<Rightarrow> client_call list \<Rightarrow> client \<Rightarrow> run_result" where
  "run_opening i result calls c =
     (if result \<ge> 0
      then let c = c\<lparr>main_tick := clock i, status := Opened\<rparr>;
               calls = calls @ [OnClientOpened];
               c = c\<lparr>last_opened := True\<rparr>
           in if open_heart c \<and> has_heart c
              then run_opened i result calls (c\<lparr>check_heart := HeartChecking\<rparr>)
              else run_end result calls (c\<lparr>check_heart := HeartNone\<rparr>)
      else run_opened i result calls c)"

definition run_invalid :: "implementation \<Rightarrow> client_call list \<Rightarrow> client \<Rightarrow> run_result" where
  "run_invalid i calls c =
     (let c = c\<lparr>status := Opening\<rparr>;
          result = open_result i;
          calls = calls @ [Open]
      in if result = 0 then (0, calls, c) else run_opening i result calls c)"

definition client_run_internal :: "implementation \<Rightarrow> int \<Rightarrow> client \<Rightarrow> run_result" where
  "client_run_internal i result c =
     (case status c of
        Invalid \<Rightarrow> run_invalid i [] c
      | Opening \<Rightarrow> run_opening i result [] c
      | Opened \<Rightarrow> run_opened i result [] c
      | Closing \<Rightarrow> run_closing i [] c
      | Closed \<Rightarrow> run_closed result [] c)"

definition client_abort :: "client \<Rightarrow> client_call list \<times> client" where
  "client_abort c = ([AbortCall], entity_release (client_use (-1) c))"

section \<open>The list of clients\<close>

text \<open>The clients at their addresses, and the list \<^verbatim>\<open>g_com_list\<close> that links some of them.\<close>

record client_system =
  clients :: "addr \<Rightarrow> client"
  sys_node :: list_head
  g_com_list :: addr

definition set_client :: "addr \<Rightarrow> client \<Rightarrow> client_system \<Rightarrow> client_system" where
  "set_client a c s = s\<lparr>clients := (clients s)(a := c)\<rparr>"

definition reg_client :: "addr \<Rightarrow> client_system \<Rightarrow> int \<times> client_system" where
  "reg_client a s =
     (if a = NULL \<or> \<not> list_empty (sys_node s) a then (0, s)
      else (1, (set_client a (entity_addref (clients s a)) s)\<lparr>sys_node := list_add_tail a (g_com_list s) (sys_node s)\<rparr>))"

definition unreg_client :: "addr \<Rightarrow> client_system \<Rightarrow> int \<times> client_system" where
  "unreg_client a s =
     (if a = NULL \<or> list_empty (sys_node s) a then (0, s)
      else (1, (set_client a (entity_release (clients s a)) s)\<lparr>sys_node := list_del_init a (sys_node s)\<rparr>))"

partial_function (option) clear_all :: "bool \<Rightarrow> int \<Rightarrow> addr list \<Rightarrow> client_system \<Rightarrow> (int \<times> addr list \<times> client_system) option" where
  "clear_all abort count aborted s =
     (if list_empty (sys_node s) (g_com_list s) then Some (count, aborted, s)
      else let (a, l) = list_pop_front (g_com_list s) (sys_node s);
               s = s\<lparr>sys_node := l\<rparr>;
               aborted = (if abort \<and> has_abort (clients s a) then aborted @ [a] else aborted)
           in clear_all abort (count + 1) aborted (set_client a (entity_release (clients s a)) s))"

definition check_client :: "32 word \<Rightarrow> addr \<Rightarrow> client_system \<Rightarrow> exec option \<times> client_system" where
  "check_client cur_tick a s =
     (let (r, leave, c) = check_one cur_tick (\<not> list_empty (sys_node s) a) (clients s a);
          s = (if leave then s\<lparr>sys_node := list_del_init a (sys_node s)\<rparr> else s)
      in (r, set_client a c s))"

partial_function (option) check_all_from ::
    "32 word \<Rightarrow> addr \<Rightarrow> (addr \<times> exec) list \<Rightarrow> client_system \<Rightarrow> ((addr \<times> exec) list \<times> client_system) option" where
  "check_all_from cur_tick a results s =
     (if a = g_com_list s then Some (results, s)
      else let (r, s) = check_client cur_tick a s;
               results = (case r of None \<Rightarrow> results | Some e \<Rightarrow> results @ [(a, e)])
           in check_all_from cur_tick (nxt (sys_node s) a) results s)"

definition check_all :: "32 word \<Rightarrow> client_system \<Rightarrow> ((addr \<times> exec) list \<times> client_system) option" where
  "check_all cur_tick s = check_all_from cur_tick (nxt (sys_node s) (g_com_list s)) [] s"

end
