(* ===== verification/Client_Life.thy ===== *)
theory Client_Life
  imports Client
begin

text \<open>
  The life of a client: the invariants of its counters, the order in which the functions of its
  implementation are called, and the check of all clients.
\<close>

section \<open>Runs of one client\<close>

text \<open>
  \<open>client_reach base c linked aborts users log\<close>: the client can be \<open>c\<close> after the calls in \<open>log\<close>, while it
  is in the list of clients when \<open>linked\<close>, \<open>aborts\<close> issued aborts are not executed yet, and \<open>users\<close>
  uses of other parts of the program are not given back; \<open>base\<close> references to the entity are held
  elsewhere.  A run is executed, or continued by \<open>exec_done\<close>, while its status is \<open>Runnable\<close>.
\<close>

inductive client_reach :: "int \<Rightarrow> client \<Rightarrow> bool \<Rightarrow> nat \<Rightarrow> nat \<Rightarrow> client_call list \<Rightarrow> bool" for base :: int where
  start: "status c = Invalid \<Longrightarrow> busy_count c = 0 \<Longrightarrow> run_status c = NotNeed \<Longrightarrow> check_heart c = HeartNone \<Longrightarrow>
    entity_refs c = base + of_bool (in_manager c) \<Longrightarrow> client_reach base c False 0 0 []"
| regist: "client_reach base c False aborts users log \<Longrightarrow> client_reach base (entity_addref c) True aborts users log"
| unregist: "client_reach base c True aborts users log \<Longrightarrow> client_reach base (entity_release c) False aborts users log"
| check: "client_reach base c linked aborts users log \<Longrightarrow> check_one cur_tick linked c = (r, leave, c') \<Longrightarrow>
    client_reach base c' (linked \<and> \<not> leave) (aborts + (if r = Some Abort then 1 else 0)) users log"
| run: "client_reach base c linked aborts users log \<Longrightarrow> run_status c = Runnable \<Longrightarrow>
    client_run_internal i result c = (result', calls, c') \<Longrightarrow> client_reach base c' linked aborts users (log @ calls)"
| abort: "client_reach base c linked (Suc aborts) users log \<Longrightarrow> client_abort c = (calls, c') \<Longrightarrow>
    client_reach base c' linked aborts users (log @ calls)"
| use_client: "client_reach base c linked aborts users log \<Longrightarrow> client_reach base (client_use 1 c) linked aborts (Suc users) log"
| unuse: "client_reach base c linked aborts (Suc users) log \<Longrightarrow> client_reach base (client_use (-1) c) linked aborts users log"

text \<open>
  The calls in order: \<open>connection b calls\<close> is whether the connection is open after the calls when it
  was \<open>b\<close> before, and \<open>None\<close> when one of them comes at the wrong time.
\<close>

fun connection :: "bool \<Rightarrow> client_call list \<Rightarrow> bool option" where
  "connection b [] = Some b"
| "connection b (x # xs) = (case x of
     Open \<Rightarrow> if b then None else connection True xs
   | Close \<Rightarrow> if b then connection False xs else None
   | Heart \<Rightarrow> if b then connection b xs else None
   | OnClientOpened \<Rightarrow> if b then connection b xs else None
   | OnClientClosed \<Rightarrow> if b then None else connection b xs
   | AbortCall \<Rightarrow> connection b xs)"

lemma connection_append: "connection b (xs @ ys) = Option.bind (connection b xs) (\<lambda>b. connection b ys)"
  by (induction b xs rule: connection.induct) (auto split: client_call.splits)

definition is_open :: "client \<Rightarrow> bool" where
  "is_open c = (status c \<in> {Opening, Opened, Closing})"

definition outstanding :: "client \<Rightarrow> int" where
  "outstanding c = of_bool (run_status c = Runnable)"

definition client_inv :: "int \<Rightarrow> client \<Rightarrow> bool \<Rightarrow> nat \<Rightarrow> nat \<Rightarrow> client_call list \<Rightarrow> bool" where
  "client_inv base c linked aborts users log =
     (busy_count c = outstanding c + int aborts + int users \<and>
      entity_refs c = base + of_bool (in_manager c) + of_bool linked + outstanding c + int aborts \<and>
      run_status c \<in> {NotNeed, Runnable} \<and>
      (run_status c = Runnable \<and> status c = Opened \<longrightarrow> check_heart c \<noteq> HeartNone) \<and>
      connection False log = Some (is_open c))"

lemmas client_defs = entity_addref_def entity_release_def client_use_def manager_pop_def issue_run_def issue_abort_def
  outstanding_def is_open_def Let_def

text \<open>A client with the same counters, in the same phase of its connection.\<close>

definition same_counts :: "client \<Rightarrow> client \<Rightarrow> bool" where
  "same_counts c c1 = (busy_count c1 = busy_count c \<and> entity_refs c1 = entity_refs c \<and> in_manager c1 = in_manager c \<and>
     run_status c1 = run_status c \<and> is_open c1 = is_open c)"

lemma same_counts_inv:
  "client_inv base c linked aborts users log \<Longrightarrow> same_counts c c1 \<Longrightarrow>
   status c1 = Opened \<longrightarrow> status c = Opened \<and> check_heart c1 = check_heart c \<Longrightarrow> client_inv base c1 linked aborts users log"
  by (simp add: client_inv_def same_counts_def outstanding_def)

lemma issue_run_inv:
  assumes "client_inv base c linked aborts users log" and "same_counts c c1" and "run_status c \<noteq> Runnable"
    and "status c1 = Opened \<longrightarrow> check_heart c1 \<noteq> HeartNone"
  shows "client_inv base (issue_run c1) linked aborts users log"
  using assms by (simp add: client_inv_def same_counts_def client_defs)

lemma issue_abort_inv:
  assumes "client_inv base c linked aborts users log" and "issue_abort t c = (r, leave, c')"
  shows "client_inv base c' linked (aborts + (if r = Some Abort then 1 else 0)) users log" and "\<not> leave" and "r \<noteq> Some Run"
proof -
  show "client_inv base c' linked (aborts + (if r = Some Abort then 1 else 0)) users log"
  proof (cases "has_abort c")
    case True
    then have "r = Some Abort" "c' = (client_use 1 (entity_addref (c\<lparr>main_tick := t, main_abort := True\<rparr>)))\<lparr>abort_status := Aborting\<rparr>"
      using assms(2) by (auto simp: issue_abort_def Let_def)
    then show ?thesis using assms(1) by (simp add: client_inv_def client_defs)
  next
    case False
    then have "r = None" "c' = c\<lparr>main_tick := t, main_abort := True\<rparr>" using assms(2) by (auto simp: issue_abort_def Let_def)
    then show ?thesis using assms(1) by (simp add: client_inv_def client_defs)
  qed
  show "\<not> leave" "r \<noteq> Some Run" using assms(2) by (auto simp: issue_abort_def Let_def split: if_splits)
qed

lemma idle_not_running: "client_inv base c linked aborts users log \<Longrightarrow> busy_count c = 0 \<Longrightarrow> run_status c \<noteq> Runnable"
  by (auto simp: client_inv_def outstanding_def)

lemma removed_inv:
  assumes "client_inv base c linked aborts users log" and "run_status c \<noteq> Runnable" and "status c = Closed"
  defines "c1 \<equiv> manager_pop (entity_addref c)"
  shows "client_inv base ((client_use 1 (if linked then entity_release c1 else c1))\<lparr>run_status := Runnable\<rparr>) False aborts users log"
  using assms by (auto simp: client_inv_def client_defs)

lemma check_one_inv:
  assumes inv: "client_inv base c linked aborts users log" and check: "check_one t linked c = (r, leave, c')"
  shows "client_inv base c' (linked \<and> \<not> leave) (aborts + (if r = Some Abort then 1 else 0)) users log \<and>
    (r = Some Run \<longrightarrow> run_status c \<noteq> Runnable)"
proof -
  note idle = idle_not_running[OF inv]
  note ab = issue_abort_inv[OF inv]
  have run: "client_inv base (issue_run c1) linked aborts users log"
    if "same_counts c c1" "run_status c \<noteq> Runnable" "status c1 = Opened \<longrightarrow> check_heart c1 \<noteq> HeartNone" for c1
    using issue_run_inv[OF inv that] .
  show ?thesis
  proof (cases "status c")
    case Invalid
    let ?c = "c\<lparr>main_tick := t, main_abort := False, check_heart := HeartChecking\<rparr>"
    have "same_counts c ?c" by (simp add: same_counts_def is_open_def)
    from run[OF this] show ?thesis using Invalid check inv idle by (auto simp: check_one_def Let_def split: if_splits)
  next
    case Opening
    then show ?thesis using check inv ab[of t] by (auto simp: check_one_def Let_def split: if_splits)
  next
    case Opened
    let ?closing = "c\<lparr>status := Closing\<rparr>" and ?heart = "c\<lparr>check_heart := HeartChecking\<rparr>"
    have "same_counts c ?closing" "same_counts c ?heart" using Opened by (simp_all add: same_counts_def is_open_def)
    note runs = run[OF this(1)] run[OF this(2)]
    have "check_heart c = HeartNone \<longrightarrow> run_status c \<noteq> Runnable" using inv Opened by (auto simp: client_inv_def)
    then show ?thesis using Opened check inv idle ab[of t] runs by (auto simp: check_one_def Let_def split: if_splits)
  next
    case Closing
    have "same_counts c c" by (simp add: same_counts_def)
    from run[OF this] show ?thesis using Closing check inv idle ab[of t] by (auto simp: check_one_def Let_def split: if_splits)
  next
    case Closed
    let ?c = "c\<lparr>status := Invalid, main_tick := t, main_abort := False\<rparr>"
    have "same_counts c ?c" using Closed by (simp add: same_counts_def is_open_def)
    from same_counts_inv[OF inv this] show ?thesis
      using Closed check inv idle removed_inv[OF inv _ Closed] by (auto simp: check_one_def Let_def split: if_splits)
  qed
qed

lemma check_one_runnable: "check_one t linked c = (Some Run, leave, c') \<Longrightarrow> run_status c' = Runnable"
  by (cases "status c") (auto simp: check_one_def issue_run_def issue_abort_def Let_def split: if_splits)

text \<open>The state inside a run, after the calls in \<open>log\<close>.\<close>

definition running :: "int \<Rightarrow> client \<Rightarrow> bool \<Rightarrow> nat \<Rightarrow> nat \<Rightarrow> client_call list \<Rightarrow> bool" where
  "running base c linked aborts users log =
     (busy_count c = 1 + int aborts + int users \<and>
      entity_refs c = base + of_bool (in_manager c) + of_bool linked + 1 + int aborts \<and>
      run_status c = Runnable \<and> connection False log = Some (is_open c))"

lemma running_waits:
  "running base c linked aborts users log \<Longrightarrow> status c = Opened \<longrightarrow> check_heart c \<noteq> HeartNone \<Longrightarrow>
     client_inv base c linked aborts users log"
  by (simp add: running_def client_inv_def outstanding_def)

lemma run_end_inv:
  "running base c linked aborts users (log @ calls) \<Longrightarrow> run_end result calls c = (r, calls', c') \<Longrightarrow>
     client_inv base c' linked aborts users (log @ calls')"
  by (auto simp: run_end_def running_def client_inv_def client_defs)

lemma run_closed_inv:
  assumes "running base c linked aborts users (log @ calls)" and "\<not> is_open c" and "run_closed result calls c = (r, calls', c')"
  shows "client_inv base c' linked aborts users (log @ calls')"
proof (rule run_end_inv)
  show "run_end result (calls @ [OnClientClosed]) (c\<lparr>last_opened := False\<rparr>) = (r, calls', c')"
    using assms(3) by (simp add: run_closed_def)
  have "connection False ((log @ calls) @ [OnClientClosed]) = Some False"
    using assms(1,2) by (simp only: connection_append running_def) simp
  then show "running base (c\<lparr>last_opened := False\<rparr>) linked aborts users (log @ calls @ [OnClientClosed])"
    using assms(1,2) by (simp add: running_def is_open_def)
qed

lemma run_closing_inv:
  assumes "running base c linked aborts users (log @ calls)" and "is_open c" and "run_closing i calls c = (r, calls', c')"
  shows "client_inv base c' linked aborts users (log @ calls')"
proof -
  have "connection False ((log @ calls) @ [Close]) = Some False"
    using assms(1,2) by (simp only: connection_append running_def) simp
  then have "running base (c\<lparr>status := Closed\<rparr>) linked aborts users (log @ calls @ [Close])"
    using assms(1) by (simp add: running_def is_open_def)
  moreover have "\<not> is_open (c\<lparr>status := Closed\<rparr>)" by (simp add: is_open_def)
  ultimately show ?thesis
    using assms(3) running_waits run_closed_inv[of base "c\<lparr>status := Closed\<rparr>" linked aborts users log "calls @ [Close]"]
    by (auto simp: run_closing_def Let_def split: if_splits)
qed

lemma run_opened_failed_inv:
  assumes "running base c linked aborts users (log @ calls)" and "is_open c" and "run_opened_failed i result calls c = (r, calls', c')"
  shows "client_inv base c' linked aborts users (log @ calls')"
proof -
  define calls1 where "calls1 = (if has_abort c then calls @ [AbortCall] else calls)"
  define c1 where "c1 = c\<lparr>main_abort := True, status := Closing\<rparr>"
  have "connection False ((log @ calls) @ [AbortCall]) = Some True"
    using assms(1,2) by (simp only: connection_append running_def) simp
  then have "running base c1 linked aborts users (log @ calls1)" "is_open c1"
    using assms(1,2) by (simp_all add: running_def c1_def calls1_def is_open_def)
  then show ?thesis
    using assms(3) run_end_inv[of base c1] run_closing_inv[of base c1]
    by (auto simp: run_opened_failed_def Let_def calls1_def[symmetric] c1_def[symmetric] split: if_splits)
qed

lemma run_opened_ok_inv:
  assumes "running base c linked aborts users (log @ calls)" and "run_opened_ok i result calls c = (r, calls', c')"
  shows "client_inv base c' linked aborts users (log @ calls')"
proof (rule run_end_inv)
  show "run_end result calls (c\<lparr>main_tick := clock i, check_heart := HeartNone\<rparr>) = (r, calls', c')"
    using assms(2) by (simp add: run_opened_ok_def)
  show "running base (c\<lparr>main_tick := clock i, check_heart := HeartNone\<rparr>) linked aborts users (log @ calls)"
    using assms(1) by (simp add: running_def is_open_def)
qed

lemma run_opened_inv:
  assumes "running base c linked aborts users (log @ calls)" and "is_open c" and "run_opened i result calls c = (r, calls', c')"
  shows "client_inv base c' linked aborts users (log @ calls')"
proof (cases "result \<ge> 0 \<and> check_heart c = HeartChecking")
  case True
  define c1 where "c1 = c\<lparr>check_heart := HeartCheckDone\<rparr>"
  have "connection False ((log @ calls) @ [Heart]) = Some True"
    using assms(1,2) by (simp only: connection_append running_def) simp
  then have run: "running base c1 linked aborts users (log @ calls @ [Heart])" and open1: "is_open c1"
    using assms(1,2) by (simp_all add: running_def c1_def is_open_def)
  have "check_heart c1 \<noteq> HeartNone" by (simp add: c1_def)
  then show ?thesis
    using True assms(3) run running_waits[OF run] run_opened_ok_inv[OF run] run_opened_failed_inv[OF run open1]
    by (auto simp: run_opened_def Let_def c1_def[symmetric] split: if_splits)
next
  case False
  then show ?thesis
    using assms(3) run_opened_ok_inv[OF assms(1)] run_opened_failed_inv[OF assms(1,2)]
    by (auto simp: run_opened_def split: if_splits)
qed

lemma run_opening_inv:
  assumes "running base c linked aborts users (log @ calls)" and "is_open c" and "run_opening i result calls c = (r, calls', c')"
  shows "client_inv base c' linked aborts users (log @ calls')"
proof (cases "result \<ge> 0")
  case True
  define c1 where "c1 h = c\<lparr>main_tick := clock i, status := Opened, last_opened := True, check_heart := h\<rparr>" for h
  have "connection False ((log @ calls) @ [OnClientOpened]) = Some True"
    using assms(1,2) by (simp only: connection_append running_def) simp
  then have run: "running base (c1 h) linked aborts users (log @ calls @ [OnClientOpened])" and open1: "is_open (c1 h)" for h
    using assms(1,2) by (simp_all add: running_def c1_def is_open_def)
  show ?thesis
    using True assms(3) run_opened_inv[OF run open1] run_end_inv[OF run]
    by (auto simp: run_opening_def Let_def c1_def[symmetric] split: if_splits)
next
  case False
  then show ?thesis using assms(3) run_opened_inv[OF assms(1,2)] by (simp add: run_opening_def)
qed

lemma client_run_inv:
  assumes inv: "client_inv base c linked aborts users log" and runnable: "run_status c = Runnable"
    and run: "client_run_internal i result c = (result', calls, c')"
  shows "client_inv base c' linked aborts users (log @ calls)"
proof -
  have r: "running base c linked aborts users (log @ [])"
    using inv runnable by (simp add: client_inv_def running_def outstanding_def)
  show ?thesis
  proof (cases "status c")
    case Invalid
    define c1 where "c1 = c\<lparr>status := Opening\<rparr>"
    have "connection False (log @ [Open]) = Some True"
      using r Invalid by (simp only: connection_append running_def is_open_def) simp
    then have "running base c1 linked aborts users (log @ [Open])" "is_open c1"
      using r by (simp_all add: running_def c1_def is_open_def)
    moreover have "status c1 \<noteq> Opened" by (simp add: c1_def)
    ultimately show ?thesis
      using run Invalid running_waits[of base c1] run_opening_inv[of base c1]
      by (auto simp: client_run_internal_def run_invalid_def Let_def c1_def[symmetric] split: if_splits)
  next
    case Opening
    then show ?thesis using run run_opening_inv[OF r] by (simp add: client_run_internal_def is_open_def)
  next
    case Opened
    then show ?thesis using run run_opened_inv[OF r] by (simp add: client_run_internal_def is_open_def)
  next
    case Closing
    then show ?thesis using run run_closing_inv[OF r] by (simp add: client_run_internal_def is_open_def)
  next
    case Closed
    then show ?thesis using run run_closed_inv[OF r] by (simp add: client_run_internal_def is_open_def)
  qed
qed

lemma client_reach_inv: "client_reach base c linked aborts users log \<Longrightarrow> client_inv base c linked aborts users log"
proof (induction rule: client_reach.induct)
  case (check c linked aborts users log cur_tick r leave c')
  then show ?case using check_one_inv by blast
next
  case (run c linked aborts users log i result result' calls c')
  then show ?case using client_run_inv by blast
next
  case (abort c linked aborts users log calls c')
  then show ?case by (auto simp: client_inv_def client_abort_def client_defs connection_append)
qed (auto simp: client_inv_def client_defs)

text \<open>
  C2: whatever the order of checks, runs, aborts and uses of a client: its busy count is the number
  of its results that are executed or still to be executed plus the uses of others, its entity is
  referenced once for each of these results and once by the list of clients while it is in it, a
  check never issues a run while another one is not finished, and the functions of the implementation
  are called in order, \<open>close\<close> once after every \<open>open\<close> and \<open>heart\<close> only in between.
\<close>

theorem client_counts_and_calls:
  assumes "client_reach base c linked aborts users log"
  shows "busy_count c = of_bool (run_status c = Runnable) + int aborts + int users \<and>
    entity_refs c = base + of_bool (in_manager c) + of_bool linked + of_bool (run_status c = Runnable) + int aborts \<and>
    (\<forall>t leave c'. check_one t linked c = (Some Run, leave, c') \<longrightarrow> run_status c \<noteq> Runnable \<and> run_status c' = Runnable) \<and>
    connection False log = Some (status c \<in> {Opening, Opened, Closing})"
proof -
  note inv = client_reach_inv[OF assms]
  show ?thesis
    using inv check_one_inv[OF inv] check_one_runnable by (auto simp: client_inv_def outstanding_def is_open_def)
qed

theorem client_counts_and_calls_witness:
  "\<exists>c. client_reach 0 c True 0 0 [Open, OnClientOpened] \<and> busy_count c = 0 \<and> entity_refs c = 1 \<and>
     connection False [Open, OnClientOpened] = Some True"
proof -
  define c0 where "c0 = init2 \<lparr>tick_reopen = 0, tick_heart = 0, tick_abort = 0, open_heart = False, auto_reopen = False,
    auto_remove = False, status = Closed, main_tick = 5, main_abort = True, last_opened = True, check_heart = HeartNone, busy_count = 3,
    run_status = Pending, abort_status = Pending, has_heart = True, has_abort = True, entity_refs = 0, in_manager = False\<rparr>"
  define i where "i = \<lparr>open_result = 1, heart_result = 1, close_result = 1, clock = 50\<rparr>"
  have "client_reach 0 c0 False 0 0 []" by (rule client_reach.start) (simp_all add: c0_def init2_def)
  then have "client_reach 0 (entity_addref c0) True 0 0 []" by (rule client_reach.regist)
  moreover have "check_one 40 True (entity_addref c0) = (Some Run, False, snd (snd (check_one 40 True (entity_addref c0))))"
    by (simp add: check_one_def tick_diff_def entity_addref_def c0_def init2_def Let_def)
  ultimately have "client_reach 0 (snd (snd (check_one 40 True (entity_addref c0)))) (True \<and> \<not> False)
      (0 + (if Some Run = Some Abort then 1 else 0)) 0 []"
    by (rule client_reach.check)
  then have checked: "client_reach 0 (snd (snd (check_one 40 True (entity_addref c0)))) True 0 0 []" by simp
  obtain r c' where run: "client_run_internal i 0 (snd (snd (check_one 40 True (entity_addref c0)))) = (r, [Open, OnClientOpened], c')"
      "run_status (snd (snd (check_one 40 True (entity_addref c0)))) = Runnable" "run_status c' = NotNeed" "\<not> in_manager c'"
    by (simp add: check_one_def tick_diff_def issue_run_def client_use_def entity_addref_def entity_release_def c0_def init2_def i_def Let_def
        client_run_internal_def run_invalid_def run_opening_def run_end_def)
  have "client_reach 0 c' True 0 0 ([] @ [Open, OnClientOpened])" by (rule client_reach.run[OF checked run(2,1)])
  then have reach: "client_reach 0 c' True 0 0 [Open, OnClientOpened]" by simp
  show ?thesis using client_counts_and_calls[OF reach] reach run(3,4) by (auto intro!: exI[of _ c'])
qed

section \<open>Reopening\<close>

lemma run_hd_calls [simp]:
  "calls \<noteq> [] \<Longrightarrow> hd (fst (snd (run_end result calls c))) = hd calls"
  "calls \<noteq> [] \<Longrightarrow> hd (fst (snd (run_closed result calls c))) = hd calls"
  "calls \<noteq> [] \<Longrightarrow> hd (fst (snd (run_closing i calls c))) = hd calls"
  "calls \<noteq> [] \<Longrightarrow> hd (fst (snd (run_opened_failed i result calls c))) = hd calls"
  "calls \<noteq> [] \<Longrightarrow> hd (fst (snd (run_opened_ok i result calls c))) = hd calls"
  "calls \<noteq> [] \<Longrightarrow> hd (fst (snd (run_opened i result calls c))) = hd calls"
  "calls \<noteq> [] \<Longrightarrow> hd (fst (snd (run_opening i result calls c))) = hd calls"
  by (simp_all add: run_end_def run_closed_def run_closing_def run_opened_failed_def run_opened_ok_def run_opened_def run_opening_def Let_def)

text \<open>
  C28: a client that was closed and reopens by itself is not lost: once its last use is given back,
  the first check makes it \<open>Invalid\<close>, no check issues a run before the time to reopen has passed,
  and the first check after that does, upon which \<open>open\<close> is called again.
\<close>

theorem client_reopens:
  assumes "status c = Closed" and "busy_count c = 0" and "auto_reopen c" and "t \<noteq> 0"
  shows "\<exists>c1. check_one t linked c = (None, False, c1) \<and>
    (\<forall>d. int d < tick_reopen c \<and> d < 2 ^ 31 \<longrightarrow> check_one (t + of_nat d) linked c1 = (None, False, c1)) \<and>
    (\<forall>d. tick_reopen c \<le> int d \<and> d < 2 ^ 31 \<longrightarrow>
       (\<exists>c2. check_one (t + of_nat d) linked c1 = (Some Run, False, c2) \<and>
          (\<forall>i. hd (fst (snd (client_run_internal i 0 c2))) = Open)))"
proof -
  let ?c1 = "c\<lparr>status := Invalid, main_tick := t, main_abort := False\<rparr>"
  have "check_one t linked c = (None, False, ?c1)" using assms by (simp add: check_one_def Let_def)
  moreover have diff: "tick_diff (t + of_nat d) ?c1 = int d" if "d < 2 ^ 31" for d
  proof -
    have "sint (of_nat d :: 32 word) = int d"
    proof -
      have "int d < 2 ^ 31" using that by (metis of_nat_less_iff of_nat_numeral of_nat_power)
      then have "signed_take_bit 31 (int d) = int d" by (intro signed_take_bit_int_eq_self) simp_all
      then show ?thesis using sint_sbintrunc'[where 'a = 32 and bin = "int d"] by simp
    qed
    then show ?thesis by (simp add: tick_diff_def)
  qed
  moreover have "check_one (t + of_nat d) linked ?c1 = (None, False, ?c1)" if "int d < tick_reopen c" "d < 2 ^ 31" for d
    using that assms diff[OF that(2)] by (simp add: check_one_def Let_def)
  moreover have "\<exists>c2. check_one (t + of_nat d) linked ?c1 = (Some Run, False, c2) \<and>
      (\<forall>i. hd (fst (snd (client_run_internal i 0 c2))) = Open)" if "tick_reopen c \<le> int d" "d < 2 ^ 31" for d
  proof -
    let ?c2 = "issue_run (?c1\<lparr>main_tick := t + of_nat d, main_abort := False, check_heart := HeartChecking\<rparr>)"
    have "check_one (t + of_nat d) linked ?c1 = (Some Run, False, ?c2)"
      using that assms diff[OF that(2)] by (simp add: check_one_def Let_def)
    moreover have "status ?c2 = Invalid" by (simp add: issue_run_def client_use_def entity_addref_def)
    then have "hd (fst (snd (client_run_internal i 0 ?c2))) = Open" for i
      by (simp add: client_run_internal_def run_invalid_def Let_def)
    ultimately show ?thesis by blast
  qed
  ultimately show ?thesis by blast
qed

theorem client_reopens_witness:
  "\<exists>c c1. status c = Closed \<and> busy_count c = 0 \<and> auto_reopen c \<and> check_one 7 False c = (None, False, c1) \<and>
     (\<exists>c2. check_one 30007 False c1 = (Some Run, False, c2))"
proof -
  define c where "c = init2 undefined\<lparr>status := Closed\<rparr>"
  have c: "status c = Closed" "busy_count c = 0" "auto_reopen c" "tick_reopen c = 30000" by (simp_all add: c_def init2_def)
  obtain c1 where c1: "check_one 7 False c = (None, False, c1)"
      "\<forall>d. tick_reopen c \<le> int d \<and> d < 2 ^ 31 \<longrightarrow> (\<exists>c2. check_one (7 + of_nat d) False c1 = (Some Run, False, c2) \<and>
          (\<forall>i. hd (fst (snd (client_run_internal i 0 c2))) = Open))"
    using client_reopens[OF c(1-3), of 7 False] by auto
  then have "\<exists>c2. check_one (7 + of_nat 30000) False c1 = (Some Run, False, c2)" using c(4) by fastforce
  then show ?thesis using c c1(1) by auto
qed

section \<open>Checking all clients\<close>

text \<open>The clients a check takes out of the list while it goes over it.\<close>

definition removed_by_check :: "client \<Rightarrow> bool" where
  "removed_by_check c = (status c = Closed \<and> busy_count c = 0 \<and> \<not> auto_reopen c \<and> auto_remove c)"

lemma check_one_leave: "fst (snd (check_one t True c)) = removed_by_check c"
  by (cases "status c") (simp_all add: check_one_def removed_by_check_def issue_abort_def Let_def)

lemma ring_linked: "ring l h (as @ a # bs) \<Longrightarrow> \<not> list_empty l a"
  using ring_rotate[of l h as a bs] ring_empty_iff by fastforce

definition results_of :: "32 word \<Rightarrow> client_system \<Rightarrow> addr list \<Rightarrow> (addr \<times> exec) list" where
  "results_of t s as = List.map_filter (\<lambda>a. map_option (Pair a) (fst (check_one t True (clients s a)))) as"

lemma check_client_stays:
  assumes "ring (sys_node s) (g_com_list s) (as @ a # bs)" and "\<not> removed_by_check (clients s a)"
  shows "check_client t a s = (fst (check_one t True (clients s a)), set_client a (snd (snd (check_one t True (clients s a)))) s)"
  using ring_linked[OF assms(1)] assms(2) check_one_leave[of t "clients s a"]
  by (auto simp: check_client_def split: prod.splits)

lemma check_all_from_list:
  assumes "ring (sys_node s) (g_com_list s) (as @ bs)" and "\<forall>a \<in> set bs. \<not> removed_by_check (clients s a)"
  shows "check_all_from t (hd (bs @ [g_com_list s])) results s = Some (results @ results_of t s bs,
    s\<lparr>clients := (\<lambda>a. if a \<in> set bs then snd (snd (check_one t True (clients s a))) else clients s a)\<rparr>)"
  using assms
proof (induction bs arbitrary: as results s)
  case Nil
  then show ?case by (subst check_all_from.simps) (simp add: results_of_def List.map_filter_def)
next
  case (Cons a bs)
  let ?r = "check_one t True (clients s a)"
  let ?s = "set_client a (snd (snd ?r)) s"
  have d: "a \<noteq> g_com_list s" "a \<notin> set bs" using ring_distinct[OF Cons.prems(1)] by auto
  have nx: "nxt (sys_node s) a = hd (bs @ [g_com_list s])" by (rule ring_mid(2)[OF Cons.prems(1)])
  have cl: "check_client t a s = (fst ?r, ?s)" by (rule check_client_stays[OF Cons.prems(1)]) (use Cons.prems(2) in simp)
  have s: "sys_node ?s = sys_node s" "g_com_list ?s = g_com_list s" "clients ?s = (clients s)(a := snd (snd ?r))"
    by (simp_all add: set_client_def)
  define results1 where "results1 = (case fst ?r of None \<Rightarrow> results | Some e \<Rightarrow> results @ [(a, e)])"
  have ih: "check_all_from t (hd (bs @ [g_com_list ?s])) results1 ?s = Some (results1 @ results_of t ?s bs,
      ?s\<lparr>clients := (\<lambda>b. if b \<in> set bs then snd (snd (check_one t True (clients ?s b))) else clients ?s b)\<rparr>)"
    by (rule Cons.IH[of ?s "as @ [a]"]) (use Cons.prems d in \<open>auto simp: s\<close>)
  have "results_of t ?s bs = results_of t s bs"
    using d(2) unfolding results_of_def by (induction bs) (auto simp: List.map_filter_def s)
  then have "results1 @ results_of t ?s bs = results @ results_of t s (a # bs)"
    by (simp add: results1_def results_of_def List.map_filter_def split: option.splits)
  moreover have "?s\<lparr>clients := (\<lambda>b. if b \<in> set bs then snd (snd (check_one t True (clients ?s b))) else clients ?s b)\<rparr> =
      s\<lparr>clients := (\<lambda>b. if b \<in> set (a # bs) then snd (snd (check_one t True (clients s b))) else clients s b)\<rparr>"
    using d(2) by (auto simp: set_client_def fun_eq_iff intro!: client_system.equality)
  moreover have "check_all_from t a results s = check_all_from t (hd (bs @ [g_com_list ?s])) results1 ?s"
    using d(1) nx by (subst check_all_from.simps) (simp add: cl s results1_def)
  ultimately show ?case using ih by simp
qed

text \<open>A client that is its own successor keeps the loop at itself for ever.\<close>

lemma check_all_from_stuck:
  assumes "check_all_from t a results s = Some r"
  shows "\<not> (a \<noteq> g_com_list s \<and> nxt (sys_node s) a = a \<and> status (clients s a) = Closed \<and> busy_count (clients s a) \<noteq> 0)"
proof (rule check_all_from.raw_induct[OF _ assms, where P = "\<lambda>t a results s r. \<not> (a \<noteq> g_com_list s \<and> nxt (sys_node s) a = a \<and>
    status (clients s a) = Closed \<and> busy_count (clients s a) \<noteq> 0)"], goal_cases)
  case (1 f t a results s r)
  show ?case
  proof
    assume stuck: "a \<noteq> g_com_list s \<and> nxt (sys_node s) a = a \<and> status (clients s a) = Closed \<and> busy_count (clients s a) \<noteq> 0"
    then have "check_one t b (clients s a) = (None, False, clients s a)" for b by (simp add: check_one_def)
    then have "check_client t a s = (None, s)" by (simp add: check_client_def set_client_def)
    then have "f t a results s = Some r" using 1(2) stuck by simp
    then show False using 1(1) stuck by blast
  qed
qed

lemma check_all_from_removed:
  assumes "ring (sys_node s) (g_com_list s) (as @ bs)" and "\<exists>a \<in> set bs. removed_by_check (clients s a)"
  shows "check_all_from t (hd (bs @ [g_com_list s])) results s = None"
  using assms
proof (induction bs arbitrary: as results s)
  case (Cons a bs)
  let ?r = "check_one t True (clients s a)"
  have d: "a \<noteq> g_com_list s" "a \<notin> set bs" using ring_distinct[OF Cons.prems(1)] by auto
  show ?case
  proof (cases "removed_by_check (clients s a)")
    case True
    let ?s = "set_client a (snd (snd ?r)) (s\<lparr>sys_node := list_del_init a (sys_node s)\<rparr>)"
    have linked: "\<not> list_empty (sys_node s) a" by (rule ring_linked[OF Cons.prems(1)])
    have leave: "fst (snd ?r)" using True check_one_leave by simp
    have cl: "check_client t a s = (fst ?r, ?s)"
      using linked leave by (simp add: check_client_def split: prod.splits) (cases ?r; simp)
    have "nxt (list_del_init a (sys_node s)) a = a"
      using ring_head(1)[OF list_del_init_ring(2)[OF Cons.prems(1)]] by simp
    then have s: "nxt (sys_node ?s) a = a" "g_com_list ?s = g_com_list s" "clients ?s a = snd (snd ?r)"
      by (simp_all add: set_client_def)
    have "status (snd (snd ?r)) = Closed" "busy_count (snd (snd ?r)) \<noteq> 0"
      using True by (simp_all add: removed_by_check_def check_one_def client_defs)
    then have "check_all_from t a results' ?s = None" for results'
      using check_all_from_stuck[of t a results' ?s] d(1) s by (cases "check_all_from t a results' ?s") auto
    then have "check_all_from t a results s = None"
      using d(1) s(1) by (subst check_all_from.simps) (simp add: cl)
    then show ?thesis by simp
  next
    case False
    let ?s = "set_client a (snd (snd ?r)) s"
    have nx: "nxt (sys_node s) a = hd (bs @ [g_com_list s])" by (rule ring_mid(2)[OF Cons.prems(1)])
    have cl: "check_client t a s = (fst ?r, ?s)" by (rule check_client_stays[OF Cons.prems(1) False])
    have s: "sys_node ?s = sys_node s" "g_com_list ?s = g_com_list s" "clients ?s = (clients s)(a := snd (snd ?r))"
      by (simp_all add: set_client_def)
    have "\<exists>b \<in> set bs. removed_by_check (clients s b)" using Cons.prems(2) False by auto
    then have "\<exists>b \<in> set bs. removed_by_check (clients ?s b)" using d(2) by (auto simp: s)
    then have "check_all_from t (hd (bs @ [g_com_list ?s])) results' ?s = None" for results'
      by (rule Cons.IH[of ?s "as @ [a]", rotated]) (use Cons.prems(1) in \<open>simp add: s\<close>)
    then have "check_all_from t a results s = None"
      using d(1) nx by (subst check_all_from.simps) (simp add: cl s)
    then show ?thesis by simp
  qed
qed simp

text \<open>
  C27: a check of all clients visits every client of the list once, in order, and collects their
  results, provided that none of them is to be removed; if one is, the check takes it out of the
  list while it goes over it and never ends.
\<close>

theorem check_all_clients:
  assumes "ring (sys_node s) (g_com_list s) cs"
  shows "check_all t s = (if \<exists>a \<in> set cs. removed_by_check (clients s a) then None
    else Some (results_of t s cs, s\<lparr>clients := (\<lambda>a. if a \<in> set cs then snd (snd (check_one t True (clients s a))) else clients s a)\<rparr>))"
proof -
  have "nxt (sys_node s) (g_com_list s) = hd (cs @ [g_com_list s])" by (rule ring_head(1)[OF assms])
  then show ?thesis
    using check_all_from_list[of s "[]" cs t "[]"] check_all_from_removed[of s "[]" cs t "[]"] assms
    by (simp add: check_all_def)
qed

theorem check_all_clients_witness:
  "\<exists>s. ring (sys_node s) (g_com_list s) [5] \<and> removed_by_check (clients s 5) \<and> check_all 40 s = None"
proof -
  define s where "s = \<lparr>clients = (\<lambda>_. (init2 undefined)\<lparr>status := Closed, auto_reopen := False\<rparr>),
    sys_node = list_add_tail 5 9 (INIT_LIST_HEAD 9 \<lparr>nxt = (\<lambda>_. 7), prv = (\<lambda>_. 7)\<rparr>), g_com_list = 9\<rparr>"
  have "ring (sys_node s) (g_com_list s) ([] @ [5])"
    unfolding s_def by (simp, rule list_add_tail_ring[of _ _ "[]", simplified]) (simp_all add: INIT_LIST_HEAD_ring)
  then have r: "ring (sys_node s) (g_com_list s) [5]" by simp
  have "removed_by_check (clients s 5)" by (simp add: removed_by_check_def s_def init2_def)
  then show ?thesis using check_all_clients[OF r, of 40] r by auto
qed

end
