(* ===== verification/Option_Tree.thy ===== *)
theory Option_Tree
  imports C_String
begin

text \<open>
  Options (\<^verbatim>\<open>base/AOption.h\<close>, \<^verbatim>\<open>base/AOption.cpp\<close>): the trees of names and values that configure the
  program.  The two character arrays of an option are next to each other, and the name of an
  element of an array runs on from the one into the other, so both are one block of cells.  A tree
  of options is given as a tree; a pointer into it is given as the way to it.
\<close>

section \<open>Strings in cells\<close>

abbreviation nul :: char where "nul \<equiv> CHR 0x00"

text \<open>The string at the front of some cells, up to its terminating zero.\<close>

fun c_string :: "char option list \<Rightarrow> string option" where
  "c_string [] = None"
| "c_string (None # _) = None"
| "c_string (Some c # cs) = (if c = nul then Some [] else map_option ((#) c) (c_string cs))"

text \<open>
  \<open>strncpy_sz m dest n src len\<close> writes to \<open>n\<close> cells from \<open>dest\<close>; the library's \<^verbatim>\<open>strncpy\<close> pads with
  zeros.  \<open>None\<close> as source is \<^verbatim>\<open>NULL\<close>.
\<close>

definition strncpy_sz ::
    "char option list \<Rightarrow> nat \<Rightarrow> nat \<Rightarrow> string option \<Rightarrow> nat \<Rightarrow> char option list option" where
  "strncpy_sz m dest n src len =
     (case src of
        None \<Rightarrow> poke m dest nul
      | Some s \<Rightarrow> do {
          let len = (if len > n - 1 then n - 1 else len);
          m \<leftarrow> copy_in m dest (map Some (take len s @ replicate (len - length s) nul));
          poke m (dest + len) nul
        })"

definition INFINITE :: nat where "INFINITE = 0xffffffff"

definition strcpy_sz :: "char option list \<Rightarrow> nat \<Rightarrow> nat \<Rightarrow> string option \<Rightarrow> char option list option" where
  "strcpy_sz m dest n src = strncpy_sz m dest n src INFINITE"

section \<open>The structure\<close>

datatype option_type =
    AOption_Any | AOption_false | AOption_true | AOption_null | AOption_Number | AOption_Double
  | AOption_String | AOption_StrExt | AOption_Array | AOption_Object

definition NAME_SIZE :: nat where "NAME_SIZE = 32"
definition VALUE_SIZE :: nat where "VALUE_SIZE = 144"

lemmas option_sizes = NAME_SIZE_def VALUE_SIZE_def

text \<open>\<open>chars\<close> are the members \<^verbatim>\<open>name\<close> and \<^verbatim>\<open>value\<close>; \<open>value_i64\<close> is the union.\<close>

record opt_data =
  chars :: "char option list"
  name_len :: nat
  value_len :: nat
  otype :: option_type
  value_i64 :: "64 word"

datatype aoption = AOption (odata: opt_data) (kids: "aoption list")

definition name_at :: "opt_data \<Rightarrow> nat \<Rightarrow> char option" where
  "name_at d i = peek (chars d) i"

definition value_at :: "opt_data \<Rightarrow> nat \<Rightarrow> char option" where
  "value_at d i = peek (chars d) (NAME_SIZE + i)"

definition set_name :: "opt_data \<Rightarrow> nat \<Rightarrow> char \<Rightarrow> opt_data option" where
  "set_name d i c = map_option (\<lambda>m. d\<lparr>chars := m\<rparr>) (poke (chars d) i c)"

definition set_value :: "opt_data \<Rightarrow> nat \<Rightarrow> char \<Rightarrow> opt_data option" where
  "set_value d i c = map_option (\<lambda>m. d\<lparr>chars := m\<rparr>) (poke (chars d) (NAME_SIZE + i) c)"

definition option_name :: "opt_data \<Rightarrow> string option" where
  "option_name d = c_string (chars d)"

definition option_value :: "opt_data \<Rightarrow> string option" where
  "option_value d = c_string (drop NAME_SIZE (chars d))"

section \<open>Creating and releasing\<close>

definition AOptionInit :: "opt_data \<Rightarrow> opt_data option" where
  "AOptionInit d = do {
     d \<leftarrow> set_name d 0 nul;
     d \<leftarrow> set_value d 0 nul;
     Some (d\<lparr>name_len := 0, value_len := 0, otype := AOption_Any, value_i64 := 0\<rparr>)
   }"

text \<open>A block from \<^verbatim>\<open>malloc\<close>: the members that are not arrays are set before they are read.\<close>

definition option_block :: opt_data where
  "option_block = \<lparr>chars = fresh (NAME_SIZE + VALUE_SIZE), name_len = 0, value_len = 0,
     otype = AOption_Any, value_i64 = 0\<rparr>"

text \<open>The result is \<^verbatim>\<open>NULL\<close> when the allocation fails.\<close>

definition AOptionCreate :: "bool \<Rightarrow> string option \<Rightarrow> opt_data option option" where
  "AOptionCreate alloc name =
     (if alloc
      then do {
        d \<leftarrow> AOptionInit option_block;
        m \<leftarrow> strcpy_sz (chars d) 0 NAME_SIZE name;
        Some (Some (d\<lparr>chars := m\<rparr>))
      }
      else Some None)"

text \<open>The options freed, in order: the children of an option are released before it is.\<close>

fun AOptionRelease :: "aoption \<Rightarrow> opt_data list" where
  "AOptionRelease (AOption d cs) = concat (map AOptionRelease cs) @ [d]"

section \<open>Looking up and cloning\<close>

primrec find_child :: "(opt_data \<Rightarrow> bool option) \<Rightarrow> aoption list \<Rightarrow> aoption option option" where
  "find_child p [] = Some None"
| "find_child p (c # cs) = do {
     b \<leftarrow> p (odata c);
     if b then Some (Some c) else find_child p cs
   }"

definition AOptionFind :: "aoption option \<Rightarrow> string \<Rightarrow> aoption option option" where
  "AOptionFind parent name =
     (case parent of
        None \<Rightarrow> Some None
      | Some opt \<Rightarrow> find_child (\<lambda>d. map_option (\<lambda>n. same_name n name) (option_name d)) (kids opt))"

definition AOptionFind3 :: "aoption option \<Rightarrow> string \<Rightarrow> string \<Rightarrow> aoption option option" where
  "AOptionFind3 parent name value =
     (case parent of
        None \<Rightarrow> Some None
      | Some opt \<Rightarrow> find_child (\<lambda>d. do {
            n \<leftarrow> option_name d;
            if same_name n name then map_option (\<lambda>v. same_name v value) (option_value d) else Some False
          }) (kids opt))"

text \<open>The getters: an empty value counts as none.  \<open>number\<close> is the library's \<^verbatim>\<open>atoll\<close>.\<close>

definition getStr :: "aoption \<Rightarrow> string \<Rightarrow> string option \<Rightarrow> string option option" where
  "getStr opt name def_value = do {
     child \<leftarrow> AOptionFind (Some opt) name;
     case child of
       None \<Rightarrow> Some def_value
     | Some c \<Rightarrow> do {
         v \<leftarrow> option_value (odata c);
         Some (if v = [] then def_value else Some v)
       }
   }"

definition getI64 :: "(string \<Rightarrow> int) \<Rightarrow> aoption \<Rightarrow> string \<Rightarrow> int \<Rightarrow> int option" where
  "getI64 number opt name def_value = do {
     child \<leftarrow> AOptionFind (Some opt) name;
     case child of
       None \<Rightarrow> Some def_value
     | Some c \<Rightarrow> do {
         v \<leftarrow> option_value (odata c);
         Some (if v = [] then def_value else number v)
       }
   }"

text \<open>
  The copies of the strings are cut to the sizes of the members.  \<open>alloc\<close> says for every option,
  named by its position, whether its copy can be allocated; without memory the clone so far is
  released and \<^verbatim>\<open>NULL\<close> returned.
\<close>

definition clone_data :: "opt_data \<Rightarrow> opt_data \<Rightarrow> opt_data option" where
  "clone_data current d = do {
     n \<leftarrow> option_name d;
     m \<leftarrow> strcpy_sz (chars current) 0 NAME_SIZE (Some n);
     v \<leftarrow> option_value d;
     m \<leftarrow> strcpy_sz m NAME_SIZE VALUE_SIZE (Some v);
     Some \<lparr>chars = m, name_len = name_len d, value_len = value_len d, otype = otype d,
       value_i64 = value_i64 d\<rparr>
   }"

fun AOptionClone :: "(nat list \<Rightarrow> bool) \<Rightarrow> nat list \<Rightarrow> aoption \<Rightarrow> aoption option option"
and clone_children :: "(nat list \<Rightarrow> bool) \<Rightarrow> nat list \<Rightarrow> nat \<Rightarrow> aoption list \<Rightarrow> aoption list option option"
where
  "AOptionClone alloc at (AOption d cs) = do {
     current \<leftarrow> AOptionCreate (alloc at) None;
     case current of
       None \<Rightarrow> Some None
     | Some current \<Rightarrow> do {
         current \<leftarrow> clone_data current d;
         children \<leftarrow> clone_children alloc at 0 cs;
         case children of
           None \<Rightarrow> Some None
         | Some children \<Rightarrow> Some (Some (AOption current children))
       }
   }"
| "clone_children alloc at i [] = Some (Some [])"
| "clone_children alloc at i (c # cs) = do {
     child \<leftarrow> AOptionClone alloc (at @ [i]) c;
     case child of
       None \<Rightarrow> Some None
     | Some child \<Rightarrow> do {
         children \<leftarrow> clone_children alloc at (Suc i) cs;
         case children of
           None \<Rightarrow> Some None
         | Some children \<Rightarrow> Some (Some (child # children))
       }
   }"

end
