(* ===== verification/Option_Decode.thy ===== *)
theory Option_Decode
  imports Option_Tree
begin

text \<open>
  The reader of options, \<^verbatim>\<open>AOptionDecode\<close> of \<^verbatim>\<open>base/AOption.cpp\<close>: a loop over characters.  The option
  read, \<^verbatim>\<open>current\<close>, is the last child of its parent, this the last child of its own, and so on: the
  tree under construction is the list of these options, the current one first, each with the
  children it has had before.
\<close>

section \<open>State\<close>

type_synonym frame = "opt_data \<times> aoption list"

text \<open>\<open>start\<close> is the pointer \<^verbatim>\<open>name\<close>, as the index of a character.\<close>

record decoder =
  current :: frame
  parents :: "frame list"
  ident :: char
  comment :: char
  keysep :: u8
  slash :: char
  layer :: int
  start :: nat

text \<open>The tree that \<^verbatim>\<open>*option\<close> points to.\<close>

fun close_frames :: "aoption \<Rightarrow> frame list \<Rightarrow> aoption" where
  "close_frames t [] = t"
| "close_frames t ((d, cs) # fs) = close_frames (AOption d (cs @ [t])) fs"

definition frame_tree :: "frame \<Rightarrow> aoption" where
  "frame_tree f = AOption (fst f) (snd f)"

definition decoded :: "decoder \<Rightarrow> aoption" where
  "decoded s = close_frames (frame_tree (current s)) (parents s)"

definition cur :: "decoder \<Rightarrow> opt_data" where
  "cur s = fst (current s)"

definition set_cur :: "opt_data \<Rightarrow> decoder \<Rightarrow> decoder" where
  "set_cur d s = s\<lparr>current := (d, snd (current s))\<rparr>"

section \<open>Characters of a name or a value\<close>

definition in_array :: "decoder \<Rightarrow> bool" where
  "in_array s = (case parents s of [] \<Rightarrow> False | p # _ \<Rightarrow> otype (fst p) = AOption_Array)"

definition max_name :: "bool \<Rightarrow> nat" where
  "max_name arr = (let max_size = NAME_SIZE - 1 in if arr then max_size + VALUE_SIZE else max_size)"

definition AOptionSetKeyOrValue :: "bool \<Rightarrow> char \<Rightarrow> u8 \<Rightarrow> opt_data \<Rightarrow> opt_data option" where
  "AOptionSetKeyOrValue arr sep ks d =
     (if ks = 0
      then if name_len d < max_name arr
           then map_option (\<lambda>d. d\<lparr>name_len := name_len d + 1\<rparr>) (set_name d (name_len d) sep)
           else Some d
      else if ks = 1
      then if value_len d < VALUE_SIZE - 1
           then map_option (\<lambda>d. d\<lparr>value_len := value_len d + 1\<rparr>) (set_value d (value_len d) sep)
           else Some d
      else Some d)"

definition AOptionEndKeyOrValue :: "u8 \<Rightarrow> opt_data \<Rightarrow> opt_data option" where
  "AOptionEndKeyOrValue ks d =
     (if ks = 0 then set_name d (name_len d) nul
      else if ks = 1 then set_value d (value_len d) nul
      else Some d)"

definition AOptionDecodeSlash :: "bool \<Rightarrow> char \<Rightarrow> u8 \<Rightarrow> opt_data \<Rightarrow> opt_data option" where
  "AOptionDecodeSlash arr sep ks d =
     (if sep = CHR ''u'' then Some d
      else AOptionSetKeyOrValue arr
        (if sep = CHR ''b'' then CHR 0x08
         else if sep = CHR ''f'' then CHR 0x0C
         else if sep = CHR ''n'' then CHR 0x0A
         else if sep = CHR ''r'' then CHR 0x0D
         else if sep = CHR ''t'' then CHR 0x09
         else sep) ks d)"

definition put_char :: "char \<Rightarrow> decoder \<Rightarrow> decoder option" where
  "put_char c s = map_option (\<lambda>d. set_cur d s) (AOptionSetKeyOrValue (in_array s) c (keysep s) (cur s))"

definition put_slash :: "char \<Rightarrow> decoder \<Rightarrow> decoder option" where
  "put_slash c s = map_option (\<lambda>d. set_cur d s) (AOptionDecodeSlash (in_array s) c (keysep s) (cur s))"

definition end_part :: "decoder \<Rightarrow> decoder option" where
  "end_part s = map_option (\<lambda>d. set_cur d s) (AOptionEndKeyOrValue (keysep s) (cur s))"

text \<open>\<^verbatim>\<open>if (sep != name) AOptionEndKeyOrValue(current, keysep)\<close>, with \<open>i\<close> the index of \<^verbatim>\<open>sep\<close>.\<close>

definition end_pending :: "nat \<Rightarrow> decoder \<Rightarrow> decoder option" where
  "end_pending i s = (if i \<noteq> start s then end_part s else Some s)"

section \<open>The cases of the loop\<close>

text \<open>
  What the body of the loop does: go on, return with the tree, or release the tree and return.
\<close>

datatype step = Continue decoder | Return int decoder | Failed int

definition mark_container :: "char \<Rightarrow> opt_data \<Rightarrow> opt_data option" where
  "mark_container sep d = do {
     v \<leftarrow> value_at d 0;
     d \<leftarrow> (if sep = CHR ''['' \<and> v = nul
           then do {
             d \<leftarrow> set_value d 0 (CHR ''['');
             d \<leftarrow> set_value d 1 nul;
             Some (d\<lparr>otype := AOption_Array\<rparr>)
           }
           else Some d);
     v \<leftarrow> value_at d 0;
     Some (if sep = CHR ''{'' \<and> v = nul then d\<lparr>otype := AOption_Object\<rparr> else d)
   }"

definition decode_open :: "bool \<Rightarrow> nat \<Rightarrow> char \<Rightarrow> decoder \<Rightarrow> step option" where
  "decode_open alloc i sep s = do {
     s \<leftarrow> end_pending i s;
     d \<leftarrow> mark_container sep (cur s);
     let s = set_cur d s;
     new \<leftarrow> AOptionCreate alloc None;
     case new of
       None \<Rightarrow> Some (Failed (- ENOMEM))
     | Some new \<Rightarrow>
         Some (Continue (s\<lparr>current := (new, []), parents := current s # parents s,
           layer := layer s + 1, keysep := 0, start := i + 1\<rparr>))
   }"

text \<open>An option that stayed empty is taken out and released; its parent is the current one again.\<close>

definition up :: "decoder \<Rightarrow> decoder option" where
  "up s =
     (case parents s of
        [] \<Rightarrow> None
      | (d, cs) # ps \<Rightarrow> do {
          n \<leftarrow> name_at (cur s) 0;
          Some (if n = nul \<and> otype (cur s) = AOption_Any \<and> snd (current s) = []
                then s\<lparr>current := (d, cs), parents := ps\<rparr>
                else s\<lparr>current := (d, cs @ [frame_tree (current s)]), parents := ps\<rparr>)
        })"

definition decode_close :: "nat \<Rightarrow> decoder \<Rightarrow> step option" where
  "decode_close i s = do {
     s \<leftarrow> end_pending i s;
     let s = s\<lparr>layer := layer s - 1\<rparr>;
     if layer s < 0 then Some (Failed (- EINVAL))
     else do {
       s \<leftarrow> up s;
       if layer s = 0 then Some (Return (int i + 1) s)
       else Some (Continue (s\<lparr>keysep := 0, start := i + 1\<rparr>))
     }
   }"

text \<open>A sibling is the next child of the parent; \<open>None\<close> when there is no parent to dereference.\<close>

definition decode_comma :: "bool \<Rightarrow> nat \<Rightarrow> decoder \<Rightarrow> step option" where
  "decode_comma alloc i s = do {
     s \<leftarrow> end_pending i s;
     if layer s = 0 then Some (Failed (- EINVAL))
     else case parents s of
       [] \<Rightarrow> None
     | (d, cs) # ps \<Rightarrow> do {
         new \<leftarrow> AOptionCreate alloc None;
         case new of
           None \<Rightarrow> Some (Failed (- ENOMEM))
         | Some new \<Rightarrow>
             Some (Continue (s\<lparr>current := (new, []), parents := (d, cs @ [frame_tree (current s)]) # ps,
               keysep := 0, start := i + 1\<rparr>))
       }
   }"

definition decode_quote :: "char \<Rightarrow> decoder \<Rightarrow> decoder" where
  "decode_quote sep s =
     (if ident s = nul
      then let s = s\<lparr>ident := sep\<rparr>
           in if keysep s = 1 \<and> otype (cur s) = AOption_Any
              then set_cur ((cur s)\<lparr>otype := AOption_String\<rparr>) s else s
      else s\<lparr>ident := nul\<rparr>)"

definition decode_blank :: "nat \<Rightarrow> char \<Rightarrow> decoder \<Rightarrow> step option" where
  "decode_blank i sep s = do {
     s \<leftarrow> (if i \<noteq> start s then map_option (\<lambda>s. s\<lparr>keysep := keysep s + 1\<rparr>) (end_part s) else Some s);
     let s = s\<lparr>start := i + 1\<rparr>;
     Some (Continue (if sep = CHR ''#'' then s\<lparr>comment := sep\<rparr> else s))
   }"

definition is_quote :: "char \<Rightarrow> bool" where
  "is_quote c = (c = CHR 0x22 \<or> c = CHR 0x27 \<or> c = CHR 0x60)"

definition is_blank :: "char \<Rightarrow> bool" where
  "is_blank c = (c = CHR '' '' \<or> c = CHR 0x09 \<or> c = CHR 0x0A \<or> c = CHR 0x0D \<or> c = CHR '':'' \<or>
     c = CHR ''='' \<or> c = CHR ''#'')"

definition decode_switch :: "bool \<Rightarrow> nat \<Rightarrow> char \<Rightarrow> decoder \<Rightarrow> step option" where
  "decode_switch alloc i sep s =
     (if sep = CHR ''{'' \<or> sep = CHR ''['' then decode_open alloc i sep s
      else if sep = CHR ''}'' \<or> sep = CHR '']'' then decode_close i s
      else if sep = CHR '','' then decode_comma alloc i s
      else if is_quote sep then decode_blank i sep (decode_quote sep s)
      else if is_blank sep then decode_blank i sep s
      else map_option Continue (put_char sep s))"

definition decode_zero :: "nat \<Rightarrow> decoder \<Rightarrow> step option" where
  "decode_zero i s = do {
     s \<leftarrow> end_part s;
     Some (if layer s = 0 then Return (int i) s else Failed (- EINVAL))
   }"

definition decode_comment :: "bool \<Rightarrow> nat \<Rightarrow> char \<Rightarrow> decoder \<Rightarrow> step option" where
  "decode_comment alloc i sep s =
     (if comment s \<noteq> nul
      then if sep \<noteq> CHR 0x0A then Some (Continue (s\<lparr>start := i + 1\<rparr>))
           else decode_switch alloc i sep (s\<lparr>comment := nul\<rparr>)
      else decode_switch alloc i sep s)"

text \<open>The body of the loop for the character \<open>sep\<close> at index \<open>i\<close>.\<close>

definition decode_char :: "bool \<Rightarrow> nat \<Rightarrow> char \<Rightarrow> decoder \<Rightarrow> step option" where
  "decode_char alloc i sep s =
     (if sep = nul then decode_zero i s
      else if ident s \<noteq> nul
      then if slash s \<noteq> nul then map_option (\<lambda>s. Continue (s\<lparr>slash := nul\<rparr>)) (put_slash sep s)
           else if sep = CHR 0x5C then Some (Continue (s\<lparr>slash := sep\<rparr>))
           else if sep \<noteq> ident s then map_option Continue (put_char sep s)
           else decode_comment alloc i sep s
      else decode_comment alloc i sep s)"

section \<open>The loop\<close>

text \<open>
  The loop from index \<open>i\<close>.  \<open>alloc\<close> says whether the allocation for the character at an index
  succeeds; there is at most one.  At \<^verbatim>\<open>_return\<close> the tree is released and \<^verbatim>\<open>*option\<close> is \<^verbatim>\<open>NULL\<close>.
\<close>

fun decode_from ::
    "(nat \<Rightarrow> bool) \<Rightarrow> nat \<Rightarrow> string \<Rightarrow> decoder \<Rightarrow> (int \<times> aoption option) option" where
  "decode_from alloc i [] s = Some (- EINVAL, None)"
| "decode_from alloc i (c # cs) s = do {
     r \<leftarrow> decode_char (alloc i) i c s;
     case r of
       Continue s \<Rightarrow> decode_from alloc (i + 1) cs s
     | Return n s \<Rightarrow> Some (n, Some (decoded s))
     | Failed e \<Rightarrow> Some (e, None)
   }"

definition decoder_init :: "opt_data \<Rightarrow> decoder" where
  "decoder_init d = \<lparr>current = (d, []), parents = [], ident = nul, comment = nul, keysep = 0,
     slash = nul, layer = 0, start = 0\<rparr>"

text \<open>The result and \<^verbatim>\<open>*option\<close>; \<open>alloc_root\<close> is the allocation of the first option.\<close>

definition AOptionDecode ::
    "bool \<Rightarrow> (nat \<Rightarrow> bool) \<Rightarrow> string \<Rightarrow> (int \<times> aoption option) option" where
  "AOptionDecode alloc_root alloc name = do {
     root \<leftarrow> AOptionCreate alloc_root None;
     case root of
       None \<Rightarrow> Some (- ENOMEM, None)
     | Some root \<Rightarrow> decode_from alloc 0 name (decoder_init root)
   }"

end
