(* ===== verification/Option_Safe.thy ===== *)
theory Option_Safe
  imports Option_Decode
begin

text \<open>
  The reader of options is safe on every input: it writes inside its two arrays only, reads no cell it has not
  written, and what it returns is a tree of options whose names and values are strings.
\<close>

section \<open>The cells of an option\<close>

definition written :: "char option list \<Rightarrow> nat \<Rightarrow> bool" where
  "written m i = (m ! i \<noteq> None)"

lemma written_keep [simp, intro]: "written m j \<Longrightarrow> written (m[n := Some c]) j"
  by (cases "n = j"; cases "n < length m") (auto simp: written_def nth_list_update list_update_beyond)

lemma written_new [simp]: "n < length m \<Longrightarrow> written (m[n := Some c]) n"
  by (simp add: written_def)

lemma written_Some: "m ! i = Some c \<Longrightarrow> written m i"
  by (simp add: written_def)

text \<open>A string starts at a cell if a terminating zero follows it before any cell not yet written.\<close>

definition string_from :: "char option list \<Rightarrow> nat \<Rightarrow> bool" where
  "string_from m i = (\<exists>k. i \<le> k \<and> k < length m \<and> m ! k = Some nul \<and> (\<forall>j. i \<le> j \<and> j < k \<longrightarrow> written m j))"

lemma c_string_total:
  assumes "k < length m" and "m ! k = Some nul" and "\<And>j. j < k \<Longrightarrow> written m j"
  shows "c_string m \<noteq> None"
  using assms
proof (induction m arbitrary: k)
  case (Cons c m)
  obtain x where c: "c = Some x"
  proof (cases k)
    case 0 then show ?thesis using Cons.prems(2) that by simp
  next
    case (Suc n) then show ?thesis using Cons.prems(3)[of 0] that by (auto simp: written_def)
  qed
  show ?case
  proof (cases "x = nul")
    case False
    then obtain n where k: "k = Suc n" using Cons.prems(2) c by (cases k) auto
    have "c_string m \<noteq> None"
    proof (rule Cons.IH[of n])
      show "written m j" if "j < n" for j using Cons.prems(3)[of "Suc j"] that k by (simp add: written_def)
    qed (use Cons.prems k in simp_all)
    then show ?thesis using c False by auto
  qed (simp add: c)
qed simp

lemma c_string_from:
  assumes "string_from m i"
  shows "c_string (drop i m) \<noteq> None"
proof -
  obtain k where k: "i \<le> k" "k < length m" "m ! k = Some nul" "\<forall>j. i \<le> j \<and> j < k \<longrightarrow> written m j"
    using assms by (auto simp: string_from_def)
  show ?thesis
    by (rule c_string_total[of "k - i"]) (use k in \<open>auto simp: written_def\<close>)
qed

text \<open>
  \<open>cells_ok\<close>: the lengths stay within the arrays, and the characters counted are written.
  \<open>name_done\<close> and \<open>value_done\<close>: the strings are terminated, or the name runs on into the value.
\<close>

definition cells_ok :: "opt_data \<Rightarrow> bool" where
  "cells_ok d = (length (chars d) = 176 \<and> name_len d \<le> 175 \<and> value_len d \<le> 143 \<and>
     written (chars d) 0 \<and> written (chars d) 32 \<and>
     (\<forall>i<name_len d. written (chars d) i) \<and> (\<forall>i<value_len d. written (chars d) (32 + i)))"

definition name_done :: "opt_data \<Rightarrow> bool" where
  "name_done d = ((\<exists>k<32. chars d ! k = Some nul \<and> (\<forall>j<k. written (chars d) j)) \<or> (\<forall>j<32. written (chars d) j))"

definition value_done :: "opt_data \<Rightarrow> bool" where
  "value_done d = string_from (chars d) 32"

definition quiet :: "opt_data \<Rightarrow> bool" where
  "quiet d = (name_done d \<and> value_done d)"

text \<open>While characters are added to the name (value), the other part is terminated.\<close>

definition pending :: "u8 \<Rightarrow> opt_data \<Rightarrow> bool" where
  "pending ks d =
     (if ks = 0 then value_done d \<or> 32 \<le> name_len d
      else if ks = 1 then name_done d
      else quiet d)"

lemma quiet_pending: "quiet d \<Longrightarrow> pending ks d"
  by (auto simp: quiet_def pending_def)

lemma quiet_strings:
  assumes "cells_ok d" and "quiet d"
  shows "option_name d \<noteq> None" and "option_value d \<noteq> None"
proof -
  have v: "string_from (chars d) 32" and n: "name_done d" and len: "length (chars d) = 176"
    using assms by (auto simp: quiet_def value_done_def cells_ok_def)
  show "option_value d \<noteq> None" using c_string_from[OF v] by (simp add: option_value_def NAME_SIZE_def)
  have "string_from (chars d) 0"
    using n unfolding name_done_def
  proof
    assume "\<exists>k<32. chars d ! k = Some nul \<and> (\<forall>j<k. written (chars d) j)"
    then obtain k where "k < 32" "chars d ! k = Some nul" "\<forall>j<k. written (chars d) j" by blast
    then show ?thesis using len unfolding string_from_def by (intro exI[of _ k]) simp
  next
    assume d: "\<forall>j<32. written (chars d) j"
    obtain k where k: "32 \<le> k" "k < length (chars d)" "chars d ! k = Some nul"
      "\<forall>j. 32 \<le> j \<and> j < k \<longrightarrow> written (chars d) j"
      using v by (auto simp: string_from_def)
    have "written (chars d) j" if "j < k" for j
      using d k(4) that by (cases "j < 32") auto
    then show ?thesis using k unfolding string_from_def by auto
  qed
  then show "option_name d \<noteq> None" using c_string_from[of "chars d" 0] by (simp add: option_name_def)
qed

lemma string_from_poke:
  assumes "string_from m i" and "\<not> (i \<le> n \<and> m ! n = Some nul)"
  shows "string_from (m[n := Some c]) i"
proof -
  obtain k where k: "i \<le> k" "k < length m" "m ! k = Some nul" "\<forall>j. i \<le> j \<and> j < k \<longrightarrow> written m j"
    using assms(1) by (auto simp: string_from_def)
  then have "k \<noteq> n" using assms(2) k by auto
  then show ?thesis unfolding string_from_def
    by (intro exI[of _ k]) (use k in auto)
qed

lemma set_name_eq:
  assumes "length (chars d) = 176" and "n < 176"
  shows "set_name d n c = Some (d\<lparr>chars := (chars d)[n := Some c]\<rparr>)"
  using assms by (simp add: set_name_def poke_def)

lemma set_value_eq:
  assumes "length (chars d) = 176" and "n < 144"
  shows "set_value d n c = Some (d\<lparr>chars := (chars d)[32 + n := Some c]\<rparr>)"
  using assms by (simp add: set_value_def poke_def NAME_SIZE_def)

lemma cells_ok_update [intro]:
  assumes "cells_ok d"
  shows "cells_ok (d\<lparr>chars := (chars d)[n := Some c]\<rparr>)"
  using assms by (simp add: cells_ok_def)

lemma name_done_keep:
  assumes "name_done d" and "32 \<le> n"
  shows "name_done (d\<lparr>chars := (chars d)[n := Some c], value_len := l\<rparr>)"
    and "name_done (d\<lparr>chars := (chars d)[n := Some c]\<rparr>)"
  using assms by (auto simp: name_done_def written_def nth_list_update)

lemma end_key:
  assumes ok: "cells_ok d" and p: "pending ks d"
  obtains d' where "AOptionEndKeyOrValue ks d = Some d'" "cells_ok d'" "quiet d'" "otype d' = otype d"
proof -
  note len = ok[unfolded cells_ok_def]
  consider (name) "ks = 0" | (val) "ks = 1" | (none) "ks \<noteq> 0" "ks \<noteq> 1" by blast
  then show thesis
  proof cases
    case name
    define d' where "d' = d\<lparr>chars := (chars d)[name_len d := Some nul]\<rparr>"
    have "AOptionEndKeyOrValue ks d = Some d'"
      using name len by (simp add: AOptionEndKeyOrValue_def set_name_eq d'_def)
    moreover have "cells_ok d'" using ok by (auto simp: d'_def)
    moreover have "name_done d'"
    proof (cases "name_len d < 32")
      case True
      then show ?thesis using len unfolding name_done_def d'_def
        by (intro disjI1 exI[of _ "name_len d"]) (auto simp: nth_list_update)
    next
      case False
      then show ?thesis using len unfolding name_done_def d'_def
        by (intro disjI2) auto
    qed
    moreover have "value_done d'"
    proof (cases "32 \<le> name_len d")
      case True
      then show ?thesis using len unfolding value_done_def string_from_def d'_def
        by (intro exI[of _ "name_len d"]) (auto simp: nth_list_update)
    next
      case False
      then have "string_from (chars d) 32" using p name by (auto simp: pending_def value_done_def)
      then show ?thesis using False string_from_poke[of "chars d" 32] by (simp add: value_done_def d'_def)
    qed
    ultimately show thesis using that by (auto simp: quiet_def d'_def)
  next
    case val
    define d' where "d' = d\<lparr>chars := (chars d)[32 + value_len d := Some nul]\<rparr>"
    have "AOptionEndKeyOrValue ks d = Some d'"
      using val len by (simp add: AOptionEndKeyOrValue_def set_value_eq d'_def)
    moreover have "cells_ok d'" using ok by (auto simp: d'_def)
    moreover have "name_done d'"
      using p val by (auto simp: pending_def d'_def intro: name_done_keep)
    moreover have "value_done d'" unfolding value_done_def string_from_def d'_def
    proof (intro exI[of _ "32 + value_len d"] conjI allI impI)
      fix j assume "32 \<le> j \<and> j < 32 + value_len d"
      then have "written (chars d) j" using len by (auto dest: spec[of _ "j - 32"])
      then show "written (chars (d\<lparr>chars := (chars d)[32 + value_len d := Some nul]\<rparr>)) j" by simp
    qed (use len in auto)
    ultimately show thesis using that by (auto simp: quiet_def d'_def)
  next
    case none
    then show thesis using that ok p by (auto simp: AOptionEndKeyOrValue_def pending_def)
  qed
qed

lemma set_key:
  assumes ok: "cells_ok d" and p: "pending ks d"
  obtains d' where "AOptionSetKeyOrValue arr c ks d = Some d'" "cells_ok d'" "pending ks d'" "otype d' = otype d"
proof -
  note len = ok[unfolded cells_ok_def]
  have mx: "max_name arr \<le> 175" by (simp add: max_name_def option_sizes)
  consider (name) "ks = 0" "name_len d < max_name arr" | (val) "ks = 1" "value_len d < 143"
    | (full) "\<not> (ks = 0 \<and> name_len d < max_name arr)" "\<not> (ks = 1 \<and> value_len d < 143)"
    by blast
  then show thesis
  proof cases
    case name
    define d' where "d' = d\<lparr>chars := (chars d)[name_len d := Some c], name_len := name_len d + 1\<rparr>"
    have "AOptionSetKeyOrValue arr c ks d = Some d'"
      using name len mx by (simp add: AOptionSetKeyOrValue_def set_name_eq d'_def)
    moreover have "cells_ok d'"
      using ok name mx by (auto simp: d'_def cells_ok_def less_Suc_eq)
    moreover have "pending ks d'"
    proof (cases "32 \<le> name_len d")
      case False
      then have "string_from (chars d) 32" using p name by (auto simp: pending_def value_done_def)
      then show ?thesis using False name string_from_poke[of "chars d" 32]
        by (simp add: pending_def value_done_def d'_def)
    qed (simp add: pending_def d'_def name)
    ultimately show thesis using that by (auto simp: d'_def)
  next
    case val
    define d' where "d' = d\<lparr>chars := (chars d)[32 + value_len d := Some c], value_len := value_len d + 1\<rparr>"
    have "AOptionSetKeyOrValue arr c ks d = Some d'"
      using val len by (simp add: AOptionSetKeyOrValue_def set_value_eq d'_def option_sizes)
    moreover have "cells_ok d'"
      using ok val by (auto simp: d'_def cells_ok_def less_Suc_eq)
    moreover have "pending ks d'"
      using p val by (auto simp: pending_def d'_def intro: name_done_keep)
    ultimately show thesis using that by (auto simp: d'_def)
  next
    case full
    then have "AOptionSetKeyOrValue arr c ks d = Some d"
      by (auto simp: AOptionSetKeyOrValue_def option_sizes)
    then show thesis using that ok p by blast
  qed
qed

section \<open>The tree under construction\<close>

definition option_ok :: "opt_data \<Rightarrow> bool" where
  "option_ok d = (cells_ok d \<and> quiet d)"

fun all_options :: "(opt_data \<Rightarrow> bool) \<Rightarrow> aoption \<Rightarrow> bool" where
  "all_options P (AOption d cs) = (P d \<and> list_all (all_options P) cs)"

definition frame_ok :: "frame \<Rightarrow> bool" where
  "frame_ok f = (option_ok (fst f) \<and> list_all (all_options option_ok) (snd f))"

definition frames_ok :: "decoder \<Rightarrow> bool" where
  "frames_ok s = (layer s = int (length (parents s)) \<and> list_all (all_options option_ok) (snd (current s)) \<and>
     list_all frame_ok (parents s))"

text \<open>The invariant of the loop before the character at index \<open>i\<close>.\<close>

definition decoder_ok :: "nat \<Rightarrow> decoder \<Rightarrow> bool" where
  "decoder_ok i s = (frames_ok s \<and> cells_ok (cur s) \<and> pending (keysep s) (cur s) \<and> start s \<le> i \<and>
     (start s = i \<longrightarrow> quiet (cur s)) \<and> (ident s = nul \<or> is_quote (ident s)) \<and>
     (comment s \<noteq> nul \<longrightarrow> start s = i \<and> ident s = nul))"

definition step_ok :: "bool \<Rightarrow> nat \<Rightarrow> step \<Rightarrow> bool" where
  "step_ok alloc i r =
     (case r of
        Continue s \<Rightarrow> decoder_ok (i + 1) s
      | Return n s \<Rightarrow> 0 \<le> n \<and> n \<le> int i + 1 \<and> all_options option_ok (decoded s)
      | Failed e \<Rightarrow> e = - EINVAL \<or> e = - ENOMEM \<and> \<not> alloc)"

lemma set_cur_simps [simp]:
  "cur (set_cur d s) = d" "parents (set_cur d s) = parents s" "layer (set_cur d s) = layer s"
  "snd (current (set_cur d s)) = snd (current s)" "ident (set_cur d s) = ident s"
  "comment (set_cur d s) = comment s" "keysep (set_cur d s) = keysep s" "slash (set_cur d s) = slash s"
  "start (set_cur d s) = start s" "frames_ok (set_cur d s) = frames_ok s"
  by (simp_all add: set_cur_def cur_def frames_ok_def)

lemma cur_simps [simp]:
  "cur (s\<lparr>keysep := k\<rparr>) = cur s" "cur (s\<lparr>start := n\<rparr>) = cur s" "cur (s\<lparr>comment := c\<rparr>) = cur s"
  "cur (s\<lparr>ident := c\<rparr>) = cur s" "cur (s\<lparr>slash := c\<rparr>) = cur s" "cur (s\<lparr>layer := l\<rparr>) = cur s"
  "cur (s\<lparr>parents := ps\<rparr>) = cur s" "cur (s\<lparr>current := f\<rparr>) = fst f"
  by (simp_all add: cur_def)

lemma frames_ok_simps [simp]:
  "frames_ok (s\<lparr>keysep := k\<rparr>) = frames_ok s" "frames_ok (s\<lparr>start := n\<rparr>) = frames_ok s"
  "frames_ok (s\<lparr>comment := c\<rparr>) = frames_ok s" "frames_ok (s\<lparr>ident := c\<rparr>) = frames_ok s"
  "frames_ok (s\<lparr>slash := c\<rparr>) = frames_ok s"
  by (simp_all add: frames_ok_def)

definition new_option :: opt_data where
  "new_option = option_block\<lparr>chars := (fresh 176)[0 := Some nul, 32 := Some nul]\<rparr>"

lemma AOptionCreate_unnamed: "AOptionCreate alloc None = Some (if alloc then Some new_option else None)"
proof -
  have "(fresh 176 :: char option list)[0 := Some nul, 32 := Some nul, 0 := Some nul] = (fresh 176)[0 := Some nul, 32 := Some nul]"
    by (simp add: list_eq_iff_nth_eq nth_list_update)
  then show ?thesis unfolding fresh_def
    by (simp add: AOptionCreate_def AOptionInit_def set_name_def set_value_def poke_def option_block_def
        option_sizes strcpy_sz_def strncpy_sz_def new_option_def fresh_def)
qed

lemma new_option_ok: "option_ok new_option"
proof -
  let ?m = "(fresh 176 :: char option list)[0 := Some nul, 32 := Some nul]"
  have "name_done new_option" unfolding name_done_def
    by (intro disjI1 exI[of _ 0]) (simp add: new_option_def)
  moreover have "value_done new_option" unfolding value_done_def string_from_def
    by (intro exI[of _ 32]) (auto simp: new_option_def)
  moreover have "written ?m 0" "written ?m 32" by (simp_all add: written_def)
  ultimately show ?thesis
    by (simp add: option_ok_def quiet_def cells_ok_def new_option_def option_block_def)
qed

lemma end_pending_ok:
  assumes "decoder_ok i s"
  obtains d where "end_pending i s = Some (set_cur d s)" "option_ok d"
proof (cases "i = start s")
  case True
  then have "end_pending i s = Some (set_cur (cur s) s)" "option_ok (cur s)"
    using assms by (simp_all add: end_pending_def decoder_ok_def option_ok_def set_cur_def cur_def)
  then show thesis using that by blast
next
  case False
  have "cells_ok (cur s)" "pending (keysep s) (cur s)" using assms by (auto simp: decoder_ok_def)
  then obtain d where "AOptionEndKeyOrValue (keysep s) (cur s) = Some d" "cells_ok d" "quiet d"
    by (rule end_key)
  then show thesis using that False by (simp add: end_pending_def end_part_def option_ok_def)
qed

lemma mark_container_eq:
  assumes len: "length (chars d) = 176" and c: "chars d ! 32 = Some c"
  shows "mark_container sep d = Some
    (if c \<noteq> nul then d
     else if sep = CHR ''['' then d\<lparr>chars := (chars d)[32 := Some (CHR ''[''), 33 := Some nul], otype := AOption_Array\<rparr>
     else if sep = CHR ''{'' then d\<lparr>otype := AOption_Object\<rparr> else d)"
proof -
  have v: "value_at d 0 = Some c" using len c by (simp add: value_at_def peek_def NAME_SIZE_def)
  have w: "value_at (d\<lparr>chars := (chars d)[32 := Some (CHR ''[''), 33 := Some nul], otype := AOption_Array\<rparr>) 0 = Some (CHR ''['')"
    using len by (simp add: value_at_def peek_def NAME_SIZE_def)
  show ?thesis
    by (cases "c = nul"; cases "sep = CHR ''[''")
      (use len v w in \<open>simp_all add: mark_container_def set_value_eq\<close>)
qed

lemma mark_container_ok:
  assumes "option_ok d"
  obtains d' where "mark_container sep d = Some d'" "option_ok d'"
proof -
  have len: "length (chars d) = 176" and w: "chars d ! 32 \<noteq> None"
    using assms by (auto simp: option_ok_def cells_ok_def written_def)
  define d1 where "d1 = d\<lparr>chars := (chars d)[32 := Some (CHR ''[''), 33 := Some nul], otype := AOption_Array\<rparr>"
  have "option_ok d1"
  proof -
    have "name_done (d\<lparr>chars := (chars d)[32 := Some (CHR ''['')]\<rparr>)"
      using assms by (auto simp: option_ok_def quiet_def intro: name_done_keep)
    then have "name_done d1" using name_done_keep(2)[of _ 33 nul] by (auto simp: d1_def name_done_def)
    moreover have "value_done d1" unfolding value_done_def string_from_def
      by (intro exI[of _ 33]) (use len in \<open>auto simp: d1_def le_Suc_eq numeral_eq_Suc written_def nth_list_update\<close>)
    ultimately show ?thesis using assms len by (simp add: option_ok_def quiet_def cells_ok_def d1_def)
  qed
  moreover have "option_ok (d\<lparr>otype := t\<rparr>)" for t
    using assms by (simp add: option_ok_def cells_ok_def quiet_def name_done_def value_done_def)
  moreover obtain c where "chars d ! 32 = Some c" using w by auto
  ultimately show thesis
    using that assms mark_container_eq[OF len] by (auto simp: d1_def split: if_splits)
qed

section \<open>One character\<close>

lemma option_ok_pending: "option_ok d \<Longrightarrow> cells_ok d \<and> quiet d \<and> pending ks d"
  by (simp add: option_ok_def quiet_pending)

lemma decode_open_ok:
  assumes "decoder_ok i s" and "comment s = nul"
  shows "\<exists>r. decode_open alloc i sep s = Some r \<and> step_ok alloc i r"
proof -
  obtain d where d: "end_pending i s = Some (set_cur d s)" "option_ok d" by (rule end_pending_ok[OF assms(1)])
  obtain d' where d': "mark_container sep d = Some d'" "option_ok d'" by (rule mark_container_ok[OF d(2)])
  have "frames_ok (set_cur d' (set_cur d s)\<lparr>current := (new_option, []),
      parents := current (set_cur d' (set_cur d s)) # parents s, layer := layer s + 1, keysep := 0, start := i + 1\<rparr>)"
    using assms d'(2) by (simp add: decoder_ok_def frames_ok_def frame_ok_def set_cur_def)
  then show ?thesis
    using d d' new_option_ok assms option_ok_pending[OF new_option_ok]
    by (simp add: decode_open_def AOptionCreate_unnamed step_ok_def decoder_ok_def Let_def)
qed

lemma decode_close_ok:
  assumes "decoder_ok i s" and "comment s = nul"
  shows "\<exists>r. decode_close i s = Some r \<and> step_ok alloc i r"
proof -
  obtain d where d: "end_pending i s = Some (set_cur d s)" "option_ok d" by (rule end_pending_ok[OF assms(1)])
  have fr: "frames_ok s" using assms by (simp add: decoder_ok_def)
  show ?thesis
  proof (cases "parents s")
    case Nil
    then show ?thesis using d fr by (simp add: decode_close_def frames_ok_def step_ok_def)
  next
    case (Cons f ps)
    obtain pd cs where f: "f = (pd, cs)" by (cases f)
    define t where "t = set_cur d s\<lparr>layer := layer s - 1\<rparr>"
    have "name_at (cur t) 0 \<noteq> None"
      using d(2) by (auto simp: t_def name_at_def peek_def option_ok_def cells_ok_def written_def)
    then obtain u where u: "up t = Some u" and cur: "cur u = pd" "parents u = ps"
      and rest: "layer u = layer s - 1" "ident u = ident s" "comment u = comment s"
      and kids: "snd (current u) = cs \<or> snd (current u) = cs @ [frame_tree (d, snd (current s))]"
      using Cons f by (auto simp: up_def t_def set_cur_def)
    have fok: "frames_ok u" "option_ok pd"
      using fr d(2) Cons f cur rest kids by (auto simp: frames_ok_def frame_ok_def frame_tree_def)
    have "decode_close i s = Some (if layer s = 1 then Return (int i + 1) u
        else Continue (u\<lparr>keysep := 0, start := i + 1\<rparr>))"
      using d u Cons fr rest by (simp add: decode_close_def t_def frames_ok_def)
    moreover have "all_options option_ok (decoded u)" if "layer s = 1"
    proof -
      have "ps = []" using fr that Cons by (simp add: frames_ok_def)
      then show ?thesis using fok cur kids by (simp add: decoded_def frame_tree_def frames_ok_def cur_def)
    qed
    ultimately show ?thesis
      using fok cur rest assms option_ok_pending[of pd] by (auto simp: step_ok_def decoder_ok_def)
  qed
qed

lemma decode_comma_ok:
  assumes "decoder_ok i s" and "comment s = nul"
  shows "\<exists>r. decode_comma alloc i s = Some r \<and> step_ok alloc i r"
proof -
  obtain d where d: "end_pending i s = Some (set_cur d s)" "option_ok d" by (rule end_pending_ok[OF assms(1)])
  have fr: "frames_ok s" using assms by (simp add: decoder_ok_def)
  show ?thesis
  proof (cases "parents s")
    case Nil
    then show ?thesis using d fr by (simp add: decode_comma_def frames_ok_def step_ok_def)
  next
    case (Cons f ps)
    obtain pd cs where f: "f = (pd, cs)" by (cases f)
    have "frames_ok (set_cur d s\<lparr>current := (new_option, []),
        parents := (pd, cs @ [frame_tree (current (set_cur d s))]) # ps, keysep := 0, start := i + 1\<rparr>)"
      using fr d(2) Cons f by (simp add: frames_ok_def frame_ok_def frame_tree_def set_cur_def)
    then show ?thesis
      using d f Cons fr assms option_ok_pending[OF new_option_ok]
      by (simp add: decode_comma_def AOptionCreate_unnamed step_ok_def decoder_ok_def frames_ok_def)
  qed
qed

lemma decode_blank_ok:
  assumes "decoder_ok i s" and "comment s = nul" and "sep = CHR ''#'' \<Longrightarrow> ident s = nul"
  shows "\<exists>r. decode_blank i sep s = Some r \<and> step_ok alloc i r"
proof -
  obtain d where d: "end_pending i s = Some (set_cur d s)" "option_ok d" by (rule end_pending_ok[OF assms(1)])
  have "\<exists>k. (if i \<noteq> start s then map_option (\<lambda>s. s\<lparr>keysep := keysep s + 1\<rparr>) (end_part s) else Some s) =
      Some (set_cur d s\<lparr>keysep := k\<rparr>)"
    using d(1) by (cases "i = start s") (auto simp: end_pending_def intro: exI[of _ "keysep s"])
  then show ?thesis
    using d(2) assms option_ok_pending[of d]
    by (auto simp: decode_blank_def step_ok_def decoder_ok_def Let_def)
qed

lemma decode_quote_ok:
  assumes "decoder_ok i s" and "comment s = nul" and "is_quote sep"
  shows "decoder_ok i (decode_quote sep s)" and "comment (decode_quote sep s) = nul"
proof -
  have "cells_ok (d\<lparr>otype := t\<rparr>) = cells_ok d" "pending k (d\<lparr>otype := t\<rparr>) = pending k d"
    "quiet (d\<lparr>otype := t\<rparr>) = quiet d" for d t k
    by (simp_all add: cells_ok_def quiet_def pending_def name_done_def value_done_def)
  then show "decoder_ok i (decode_quote sep s)"
    using assms by (auto simp: decode_quote_def decoder_ok_def Let_def)
  show "comment (decode_quote sep s) = nul" using assms by (auto simp: decode_quote_def Let_def)
qed

lemma put_char_ok:
  assumes "decoder_ok i s" and "comment s = nul"
  shows "\<exists>t. put_char c s = Some t \<and> decoder_ok (i + 1) t \<and> decoder_ok (i + 1) (t\<lparr>slash := nul\<rparr>)"
    and "\<exists>t. put_slash c s = Some t \<and> decoder_ok (i + 1) t \<and> decoder_ok (i + 1) (t\<lparr>slash := nul\<rparr>)"
proof -
  have "cells_ok (cur s)" "pending (keysep s) (cur s)" using assms by (auto simp: decoder_ok_def)
  note part = set_key[OF this]
  have ok: "decoder_ok (i + 1) (set_cur d s) \<and> decoder_ok (i + 1) (set_cur d s\<lparr>slash := nul\<rparr>)"
    if "cells_ok d" "pending (keysep s) d" for d
    using assms that by (simp add: decoder_ok_def)
  have put: "\<exists>d. AOptionSetKeyOrValue (in_array s) c' (keysep s) (cur s) = Some d \<and>
      decoder_ok (i + 1) (set_cur d s) \<and> decoder_ok (i + 1) (set_cur d s\<lparr>slash := nul\<rparr>)" for c'
    by (rule part[of "in_array s" c']) (use ok in blast)
  then show "\<exists>t. put_char c s = Some t \<and> decoder_ok (i + 1) t \<and> decoder_ok (i + 1) (t\<lparr>slash := nul\<rparr>)"
    unfolding put_char_def by fastforce
  show "\<exists>t. put_slash c s = Some t \<and> decoder_ok (i + 1) t \<and> decoder_ok (i + 1) (t\<lparr>slash := nul\<rparr>)"
  proof (cases "c = CHR ''u''")
    case True
    then show ?thesis using ok[of "cur s"] assms
      by (simp add: put_slash_def AOptionDecodeSlash_def decoder_ok_def)
  next
    case False
    then obtain c' where "AOptionDecodeSlash (in_array s) c (keysep s) (cur s) =
        AOptionSetKeyOrValue (in_array s) c' (keysep s) (cur s)"
      by (simp add: AOptionDecodeSlash_def)
    then show ?thesis using put[of c'] unfolding put_slash_def by fastforce
  qed
qed

lemma decode_switch_ok:
  assumes "decoder_ok i s" and "comment s = nul" and "ident s \<noteq> nul \<Longrightarrow> is_quote sep"
  shows "\<exists>r. decode_switch alloc i sep s = Some r \<and> step_ok alloc i r"
proof -
  have "ident s = nul" if "\<not> is_quote sep" using assms(3) that by blast
  then show ?thesis
    using decode_open_ok[OF assms(1,2)] decode_close_ok[OF assms(1,2)] decode_comma_ok[OF assms(1,2)]
      decode_blank_ok[OF assms(1,2), of sep] put_char_ok(1)[OF assms(1,2), of sep]
      decode_blank_ok[OF decode_quote_ok[OF assms(1,2)], of sep sep]
    by (auto simp: decode_switch_def step_ok_def is_quote_def)
qed

lemma decode_comment_ok:
  assumes "decoder_ok i s" and "ident s \<noteq> nul \<Longrightarrow> is_quote sep"
  shows "\<exists>r. decode_comment alloc i sep s = Some r \<and> step_ok alloc i r"
proof -
  have "decoder_ok i (s\<lparr>comment := nul\<rparr>)" using assms by (simp add: decoder_ok_def)
  then have "\<exists>r. decode_switch alloc i sep (s\<lparr>comment := nul\<rparr>) = Some r \<and> step_ok alloc i r"
    by (rule decode_switch_ok) (use assms in auto)
  then show ?thesis
    using decode_switch_ok[OF assms(1) _ assms(2)] assms
    by (auto simp: decode_comment_def step_ok_def decoder_ok_def)
qed

lemma decode_char_ok:
  assumes ok: "decoder_ok i s"
  shows "\<exists>r. decode_char alloc i sep s = Some r \<and> step_ok alloc i r"
proof (cases "sep = nul")
  case True
  have "cells_ok (cur s)" "pending (keysep s) (cur s)" using ok by (auto simp: decoder_ok_def)
  then obtain d where d: "AOptionEndKeyOrValue (keysep s) (cur s) = Some d" "cells_ok d" "quiet d"
    by (rule end_key)
  have "all_options option_ok (decoded (set_cur d s))" if "layer s = 0"
  proof -
    have "parents s = []" using ok that by (simp add: decoder_ok_def frames_ok_def)
    then show ?thesis using ok d
      by (simp add: decoded_def frame_tree_def option_ok_def decoder_ok_def frames_ok_def set_cur_def)
  qed
  then show ?thesis using d True
    by (simp add: decode_char_def decode_zero_def end_part_def step_ok_def)
next
  case False
  have quote: "is_quote (ident s) \<and> comment s = nul" if "ident s \<noteq> nul" using ok that by (auto simp: decoder_ok_def)
  have "decoder_ok (i + 1) (s\<lparr>slash := c\<rparr>)" if "ident s \<noteq> nul" for c
    using ok quote that by (auto simp: decoder_ok_def)
  then show ?thesis
    using put_char_ok[OF ok, of sep] decode_comment_ok[OF ok, of sep] quote False
    by (auto simp: decode_char_def step_ok_def)
qed

section \<open>The loop\<close>

lemma decode_from_ok:
  assumes "decoder_ok i s"
  shows "case decode_from alloc i cs s of
      None \<Rightarrow> False
    | Some (n, None) \<Rightarrow> n = - EINVAL \<or> n = - ENOMEM \<and> (\<exists>j. \<not> alloc j)
    | Some (n, Some t) \<Rightarrow> 0 \<le> n \<and> n \<le> int (i + length cs) \<and> all_options option_ok t"
  using assms
proof (induction cs arbitrary: i s)
  case (Cons c cs)
  obtain r where r: "decode_char (alloc i) i c s = Some r" "step_ok (alloc i) i r"
    using decode_char_ok[OF Cons.prems] by blast
  show ?case
  proof (cases r)
    case (Continue s')
    then have "decoder_ok (i + 1) s'" using r(2) by (simp add: step_ok_def)
    then show ?thesis using Cons.IH[of "i + 1" s'] r Continue by (auto split: option.splits)
  qed (use r in \<open>auto simp: step_ok_def\<close>)
qed simp

lemma decoder_init_ok: "decoder_ok 0 (decoder_init new_option)"
  using new_option_ok
  by (simp add: decoder_ok_def decoder_init_def frames_ok_def cur_def option_ok_def quiet_pending)

lemma AOptionDecode_ok:
  assumes "AOptionDecode alloc_root alloc cs = Some (n, Some t)"
  shows "all_options option_ok t"
proof (cases alloc_root)
  case True
  then show ?thesis
    using decode_from_ok[OF decoder_init_ok, of alloc cs] assms
    by (simp add: AOptionDecode_def AOptionCreate_unnamed)
next
  case False
  then show ?thesis using assms by (simp add: AOptionDecode_def AOptionCreate_unnamed)
qed

lemma all_options_mono:
  assumes "all_options P t" and "\<And>d. P d \<Longrightarrow> Q d"
  shows "all_options Q t"
  using assms by (induction t) (auto simp: list_all_iff)

text \<open>
  C5: whatever the characters, and whichever allocations fail, \<^verbatim>\<open>AOptionDecode\<close> returns without undefined
  behaviour.  It fails with \<^verbatim>\<open>-EINVAL\<close>, or with \<^verbatim>\<open>-ENOMEM\<close> when an allocation failed, and then leaves no
  tree; or it returns how many characters it took, not more than there are, and a tree in which the name and
  the value of every option are terminated strings inside its two arrays.
\<close>

theorem option_decode_safe:
  "case AOptionDecode alloc_root alloc cs of
     None \<Rightarrow> False
   | Some (n, None) \<Rightarrow> n = - EINVAL \<or> n = - ENOMEM \<and> (\<not> alloc_root \<or> (\<exists>j. \<not> alloc j))
   | Some (n, Some t) \<Rightarrow> 0 \<le> n \<and> n \<le> int (length cs) \<and>
       all_options (\<lambda>d. length (chars d) = NAME_SIZE + VALUE_SIZE \<and> name_len d < NAME_SIZE + VALUE_SIZE \<and>
         value_len d < VALUE_SIZE \<and> option_name d \<noteq> None \<and> option_value d \<noteq> None) t"
proof (cases alloc_root)
  case True
  then have "AOptionDecode alloc_root alloc cs = decode_from alloc 0 cs (decoder_init new_option)"
    by (simp add: AOptionDecode_def AOptionCreate_unnamed)
  moreover have "all_options (\<lambda>d. length (chars d) = NAME_SIZE + VALUE_SIZE \<and> name_len d < NAME_SIZE + VALUE_SIZE \<and>
      value_len d < VALUE_SIZE \<and> option_name d \<noteq> None \<and> option_value d \<noteq> None) t"
    if "all_options option_ok t" for t
  proof (rule all_options_mono[OF that])
    fix d assume ok: "option_ok d"
    then show "length (chars d) = NAME_SIZE + VALUE_SIZE \<and> name_len d < NAME_SIZE + VALUE_SIZE \<and>
      value_len d < VALUE_SIZE \<and> option_name d \<noteq> None \<and> option_value d \<noteq> None"
      using quiet_strings[of d] by (auto simp: option_ok_def cells_ok_def option_sizes)
  qed
  ultimately show ?thesis
    using decode_from_ok[OF decoder_init_ok, of alloc cs]
    by (auto split: option.splits)
next
  case False
  then show ?thesis by (simp add: AOptionDecode_def AOptionCreate_unnamed)
qed

theorem option_decode_safe_witness:
  "case AOptionDecode True (\<lambda>i. i \<noteq> 3) ''{a:[b]}'' of
     None \<Rightarrow> False
   | Some (n, None) \<Rightarrow> n = - EINVAL \<or> n = - ENOMEM
   | Some (n, Some t) \<Rightarrow> 0 \<le> n \<and> n \<le> 7"
  using option_decode_safe[of True "\<lambda>i. i \<noteq> 3" "''{a:[b]}''"] by (auto split: option.splits)

end
