(* ===== verification/Option_Encode.thy ===== *)
theory Option_Encode
  imports Option_Safe
begin

text \<open>
  The writer of options, \<^verbatim>\<open>AOptionEncode\<close> of \<^verbatim>\<open>base/AOption.cpp\<close>: a loop that walks through the tree along
  the links to the first child, the next sibling and the parent.  It hands strings to a callback, and
  ends as soon as the callback returns a negative number.  The loop is proved equal to a recursion over
  the tree.
\<close>

section \<open>Writing\<close>

text \<open>
  The callback changes a state \<open>'p\<close>.  A run goes on with the state and the characters written, or
  \<^verbatim>\<open>AOptionEncode\<close> returns (\<open>Inl\<close>); \<open>None\<close> is undefined behaviour.
\<close>

type_synonym 'p callback = "'p \<Rightarrow> string \<Rightarrow> int \<times> 'p"
type_synonym 'p sink = "'p \<times> int"
type_synonym 'p run = "'p sink \<Rightarrow> ((int \<times> 'p) + 'p sink) option"

definition and_then :: "'p run \<Rightarrow> 'p run \<Rightarrow> 'p run" where
  "and_then f g = (\<lambda>w.
     case f w of
       None \<Rightarrow> None
     | Some (Inl e) \<Rightarrow> Some (Inl e)
     | Some (Inr w) \<Rightarrow> g w)"

definition nothing :: "'p run" where
  "nothing w = Some (Inr w)"

definition write_sn :: "'p callback \<Rightarrow> string \<Rightarrow> 'p run" where
  "write_sn write_cb s = (\<lambda>(p, write_size).
     let (ret, p) = write_cb p s
     in if ret < 0 then Some (Inl (ret, p)) else Some (Inr (p, write_size + int (length s))))"

text \<open>\<^verbatim>\<open>write_sc(s, i, c)\<close>, with \<open>i\<close> the index of the cell read.\<close>

definition write_sc :: "'p callback \<Rightarrow> opt_data \<Rightarrow> nat \<Rightarrow> char \<Rightarrow> 'p run" where
  "write_sc write_cb d i c = (\<lambda>w.
     case peek (chars d) i of
       None \<Rightarrow> None
     | Some x \<Rightarrow> if x \<noteq> c then write_sn write_cb [c] w else nothing w)"

definition dquote :: char where "dquote = CHR 0x22"

definition encode_name :: "'p callback \<Rightarrow> opt_data \<Rightarrow> 'p run" where
  "encode_name write_cb d = (\<lambda>w.
     case option_name d of
       None \<Rightarrow> None
     | Some name \<Rightarrow>
         if name = [] then nothing w
         else and_then (write_sc write_cb d 0 dquote)
           (and_then (write_sn write_cb name) (write_sc write_cb d (length name - 1) dquote)) w)"

definition isdigit :: "char \<Rightarrow> bool" where
  "isdigit c = (let n = of_char c :: nat in 48 \<le> n \<and> n \<le> 57)"

text \<open>
  \<open>ext\<close> gives the string at an address, for the extended strings; the last quote is tested with the
  length of that string.  For an empty value the cell tested is the one before the array.
\<close>

definition encode_value :: "(64 word \<Rightarrow> string option) \<Rightarrow> 'p callback \<Rightarrow> opt_data \<Rightarrow> 'p run" where
  "encode_value ext write_cb d = (\<lambda>w.
     case option_value d of
       None \<Rightarrow> None
     | Some v \<Rightarrow>
         let c = (case v of [] \<Rightarrow> nul | c # _ \<Rightarrow> c)
         in if otype d \<noteq> AOption_String \<and> otype d \<noteq> AOption_StrExt \<and>
              (otype d = AOption_false \<or> otype d = AOption_true \<or> otype d = AOption_null \<or>
               otype d = AOption_Number \<or> c = CHR ''+'' \<or> c = CHR ''-'' \<or> isdigit c)
            then write_sn write_cb v w
            else (case (if otype d = AOption_StrExt then ext (value_i64 d) else Some v) of
                None \<Rightarrow> None
              | Some s \<Rightarrow>
                  and_then (write_sc write_cb d NAME_SIZE dquote)
                    (and_then (write_sn write_cb s) (write_sc write_cb d (NAME_SIZE + length s - 1) dquote)) w))"

text \<open>Only the name is written of an option without value and children, and of one with a long name.\<close>

definition name_only :: "opt_data option \<Rightarrow> opt_data \<Rightarrow> aoption list \<Rightarrow> bool option" where
  "name_only parent d cs = do {
     v \<leftarrow> value_at d 0;
     Some (((v = nul \<and> otype d = AOption_Any) \<or> NAME_SIZE \<le> name_len d) \<and> cs = [] \<and>
       (case parent of None \<Rightarrow> True | Some p \<Rightarrow> otype p \<noteq> AOption_Object))
   }"

definition is_array :: "opt_data \<Rightarrow> bool option" where
  "is_array d = map_option (\<lambda>v. otype d = AOption_Array \<or> v = CHR ''['') (value_at d 0)"

definition encode_colon :: "'p callback \<Rightarrow> opt_data \<Rightarrow> 'p run" where
  "encode_colon write_cb d = (\<lambda>w.
     case name_at d 0 of
       None \<Rightarrow> None
     | Some c \<Rightarrow> if c \<noteq> nul then write_sn write_cb '':'' w else nothing w)"

text \<open>
  The body of the loop up to the step to the first child, which follows when there is one, or to the
  label \<^verbatim>\<open>_next\<close>.
\<close>

definition encode_content ::
    "(64 word \<Rightarrow> string option) \<Rightarrow> 'p callback \<Rightarrow> opt_data \<Rightarrow> aoption list \<Rightarrow> 'p run" where
  "encode_content ext write_cb d cs = (\<lambda>w.
     case is_array d of
       None \<Rightarrow> None
     | Some True \<Rightarrow>
         and_then (write_sn write_cb ''['') (if cs = [] then write_sn write_cb '']'' else nothing) w
     | Some False \<Rightarrow>
         if otype d \<noteq> AOption_Object \<and> cs = [] then encode_value ext write_cb d w
         else and_then (write_sn write_cb ''{'') (if cs = [] then write_sn write_cb ''}'' else nothing) w)"

definition encode_head ::
    "(64 word \<Rightarrow> string option) \<Rightarrow> 'p callback \<Rightarrow> opt_data option \<Rightarrow> opt_data \<Rightarrow> aoption list \<Rightarrow> 'p run" where
  "encode_head ext write_cb parent d cs =
     and_then (encode_name write_cb d) (\<lambda>w.
       case name_only parent d cs of
         None \<Rightarrow> None
       | Some True \<Rightarrow> nothing w
       | Some False \<Rightarrow> and_then (encode_colon write_cb d) (encode_content ext write_cb d cs) w)"

text \<open>After the last child: the bracket of the parent.\<close>

definition encode_end :: "'p callback \<Rightarrow> opt_data \<Rightarrow> 'p run" where
  "encode_end write_cb d = (\<lambda>w.
     case is_array d of
       None \<Rightarrow> None
     | Some a \<Rightarrow> write_sn write_cb (if a then '']'' else ''}'') w)"

section \<open>The loop\<close>

text \<open>
  The way to the current option: its parent with the siblings that follow it, then the parent of that
  one, up to the option the loop has started with.
\<close>

type_synonym path = "(opt_data \<times> aoption list) list"

definition parent_of :: "opt_data option \<Rightarrow> path \<Rightarrow> opt_data option" where
  "parent_of par fs = (case fs of [] \<Rightarrow> par | f # _ \<Rightarrow> Some (fst f))"

fun options :: "aoption \<Rightarrow> nat" where
  "options (AOption d cs) = 2 + sum_list (map (\<lambda>c. options c + 1) cs)"

definition path_weight :: "path \<Rightarrow> nat" where
  "path_weight fs = sum_list (map (\<lambda>f. 1 + sum_list (map (\<lambda>c. options c + 1) (snd f))) fs)"

text \<open>\<open>encode_next\<close> is the code at the label \<^verbatim>\<open>_next\<close>.\<close>

function encode_loop ::
    "(64 word \<Rightarrow> string option) \<Rightarrow> 'p callback \<Rightarrow> opt_data option \<Rightarrow> aoption \<Rightarrow> path \<Rightarrow> 'p run"
and encode_next ::
    "(64 word \<Rightarrow> string option) \<Rightarrow> 'p callback \<Rightarrow> opt_data option \<Rightarrow> path \<Rightarrow> 'p run"
where
  "encode_loop ext write_cb par (AOption d cs) fs w =
     (case encode_head ext write_cb (parent_of par fs) d cs w of
        None \<Rightarrow> None
      | Some (Inl e) \<Rightarrow> Some (Inl e)
      | Some (Inr w) \<Rightarrow>
          (case cs of
             [] \<Rightarrow> encode_next ext write_cb par fs w
           | c # cs \<Rightarrow> encode_loop ext write_cb par c ((d, cs) # fs) w))"
| "encode_next ext write_cb par [] w = Some (Inr w)"
| "encode_next ext write_cb par ((p, []) # fs) w =
     (case encode_end write_cb p w of
        None \<Rightarrow> None
      | Some (Inl e) \<Rightarrow> Some (Inl e)
      | Some (Inr w) \<Rightarrow> encode_next ext write_cb par fs w)"
| "encode_next ext write_cb par ((p, s # ss) # fs) w =
     (case write_sn write_cb '','' w of
        None \<Rightarrow> None
      | Some (Inl e) \<Rightarrow> Some (Inl e)
      | Some (Inr w) \<Rightarrow> encode_loop ext write_cb par s ((p, ss) # fs) w)"
  by pat_completeness auto
termination
  by (relation "measure (\<lambda>x. case x of Inl (_, _, _, t, fs, _) \<Rightarrow> options t + path_weight fs
      | Inr (_, _, _, fs, _) \<Rightarrow> path_weight fs)")
    (auto simp: path_weight_def)

declare encode_loop.simps [simp del]

text \<open>The result with the state of the callback; \<open>par\<close> is the parent of the option, if any.\<close>

definition AOptionEncode ::
    "(64 word \<Rightarrow> string option) \<Rightarrow> 'p callback \<Rightarrow> opt_data option \<Rightarrow> aoption \<Rightarrow> 'p \<Rightarrow> (int \<times> 'p) option" where
  "AOptionEncode ext write_cb par opt p =
     (case encode_loop ext write_cb par opt [] (p, 0) of
        None \<Rightarrow> None
      | Some (Inl (ret, p)) \<Rightarrow> Some (ret, p)
      | Some (Inr (p, write_size)) \<Rightarrow> Some (write_size, p))"

text \<open>
  The callback of \<^verbatim>\<open>AOptionEncode2\<close> appends to a buffer; \<open>grow\<close> says whether the buffer can be made to
  hold so many more characters than it does.
\<close>

definition write_buf :: "(string \<Rightarrow> nat \<Rightarrow> bool) \<Rightarrow> string callback" where
  "write_buf grow buf s = (if grow buf (length s) then (int (length s), buf @ s) else (- ENOMEM, buf))"

definition AOptionEncode2 ::
    "(64 word \<Rightarrow> string option) \<Rightarrow> (string \<Rightarrow> nat \<Rightarrow> bool) \<Rightarrow> opt_data option \<Rightarrow> aoption \<Rightarrow> string option option" where
  "AOptionEncode2 ext grow par opt =
     (if grow [] 512
      then map_option (\<lambda>(result, buf). if result < 0 then None else Some buf)
        (AOptionEncode ext (write_buf grow) par opt [])
      else Some None)"

section \<open>The loop as a recursion\<close>

fun encode_tree ::
    "(64 word \<Rightarrow> string option) \<Rightarrow> 'p callback \<Rightarrow> opt_data option \<Rightarrow> aoption \<Rightarrow> 'p run"
and encode_children ::
    "(64 word \<Rightarrow> string option) \<Rightarrow> 'p callback \<Rightarrow> opt_data \<Rightarrow> aoption list \<Rightarrow> 'p run"
where
  "encode_tree ext write_cb parent (AOption d cs) =
     and_then (encode_head ext write_cb parent d cs)
       (if cs = [] then nothing else and_then (encode_children ext write_cb d cs) (encode_end write_cb d))"
| "encode_children ext write_cb p [] = nothing"
| "encode_children ext write_cb p (c # cs) =
     and_then (encode_tree ext write_cb (Some p) c)
       (if cs = [] then nothing else and_then (write_sn write_cb '','') (encode_children ext write_cb p cs))"

lemma and_then_nothing [simp]: "and_then nothing f = f" "and_then f nothing = f"
  by (auto simp: and_then_def nothing_def fun_eq_iff split: option.splits sum.splits)

lemma and_then_assoc [simp]: "and_then (and_then f g) h = and_then f (and_then g h)"
  by (auto simp: and_then_def fun_eq_iff split: option.splits sum.splits)

text \<open>What remains after an option: its siblings, then the end of its parent, and so on.\<close>

fun encode_rest :: "(64 word \<Rightarrow> string option) \<Rightarrow> 'p callback \<Rightarrow> path \<Rightarrow> 'p run" where
  "encode_rest ext write_cb [] = nothing"
| "encode_rest ext write_cb ((p, ss) # fs) =
     and_then (if ss = [] then nothing else and_then (write_sn write_cb '','') (encode_children ext write_cb p ss))
       (and_then (encode_end write_cb p) (encode_rest ext write_cb fs))"

lemma encode_loop_rest:
  "encode_loop ext write_cb par t fs w =
     and_then (encode_tree ext write_cb (parent_of par fs) t) (encode_rest ext write_cb fs) w"
  "encode_next ext write_cb par fs w = encode_rest ext write_cb fs w"
proof (induction ext write_cb par t fs w and ext write_cb par fs w rule: encode_loop_encode_next.induct)
  case (1 ext write_cb par d cs fs w)
  then show ?case
    by (cases cs)
      (auto simp: encode_loop.simps and_then_def parent_of_def nothing_def split: option.splits sum.splits)
next
  case (2 ext write_cb par w)
  then show ?case by (simp add: nothing_def encode_loop.simps)
next
  case (3 ext write_cb par p fs w)
  then show ?case by (auto simp: encode_loop.simps and_then_def nothing_def split: option.splits sum.splits)
next
  case (4 ext write_cb par p s ss fs w)
  then show ?case
    by (auto simp: encode_loop.simps and_then_def parent_of_def nothing_def split: option.splits sum.splits)
qed

lemma AOptionEncode_tree:
  "AOptionEncode ext write_cb par opt p =
     (case encode_tree ext write_cb par opt (p, 0) of
        None \<Rightarrow> None
      | Some (Inl (ret, p)) \<Rightarrow> Some (ret, p)
      | Some (Inr (p, write_size)) \<Rightarrow> Some (write_size, p))"
  by (simp add: AOptionEncode_def encode_loop_rest parent_of_def)

end
