(* ===== verification/Option_Text.thy ===== *)
theory Option_Text
  imports Option_Encode
begin

text \<open>
  Configurations as an abstract data type, the options that stand for them, their text, and the
  proof that the writer writes the text.
\<close>

section \<open>Configurations\<close>

text \<open>
  An element of an array that is a string; a name with a string or a word; objects and arrays, with or
  without a name.
\<close>

datatype conf =
    Plain (key: string)
  | Str (key: string) string
  | Word (key: string) string
  | Obj (key: string) "conf list"
  | Arr (key: string) "conf list"

text \<open>Characters that stand for themselves between quotes, and those that do outside.\<close>

definition clean :: "string \<Rightarrow> bool" where
  "clean s = (nul \<notin> set s \<and> dquote \<notin> set s \<and> CHR 0x5C \<notin> set s)"

definition bare :: "string \<Rightarrow> bool" where
  "bare s = (\<forall>c\<in>set s. c \<noteq> nul \<and> c \<notin> set ''{}[],'' \<and> \<not> is_quote c \<and> \<not> is_blank c)"

definition numeric :: "string \<Rightarrow> bool" where
  "numeric s = (case s of [] \<Rightarrow> False | c # _ \<Rightarrow> c = CHR ''+'' \<or> c = CHR ''-'' \<or> isdigit c)"

text \<open>\<open>arr\<close>: the configuration is an element of an array.\<close>

fun conf_ok :: "bool \<Rightarrow> conf \<Rightarrow> bool" where
  "conf_ok arr (Plain k) = (arr \<and> clean k \<and> length k \<le> 175)"
| "conf_ok arr (Str k v) = (k \<noteq> [] \<and> clean k \<and> length k \<le> 31 \<and>
     clean v \<and> length v \<le> 143)"
| "conf_ok arr (Word k v) = (k \<noteq> [] \<and> clean k \<and> length k \<le> 31 \<and> v \<noteq> [] \<and> clean v \<and> bare v \<and> length v \<le> 143)"
| "conf_ok arr (Obj k cs) = (clean k \<and> length k \<le> 31 \<and> list_all (conf_ok False) cs)"
| "conf_ok arr (Arr k cs) = (clean k \<and> length k \<le> 31 \<and> list_all (conf_ok True) cs \<and>
     (cs \<noteq> [] \<longrightarrow> last cs \<noteq> Plain []))"

text \<open>
  What the writer makes of a configuration: a word that is not a number becomes a string, and a string that
  starts with a bracket becomes an empty array.
\<close>

fun rewritten :: "conf \<Rightarrow> conf" where
  "rewritten (Plain k) = Plain k"
| "rewritten (Str k v) = (if v \<noteq> [] \<and> hd v = CHR ''['' then Arr k [] else Str k v)"
| "rewritten (Word k v) = (if numeric v then Word k v else Str k v)"
| "rewritten (Obj k cs) = Obj k (map rewritten cs)"
| "rewritten (Arr k cs) = Arr k (map rewritten cs)"

text \<open>No name has an empty string.\<close>

fun values_given :: "conf \<Rightarrow> bool" where
  "values_given (Str k v) = (v \<noteq> [])"
| "values_given (Obj k cs) = list_all values_given cs"
| "values_given (Arr k cs) = list_all values_given cs"
| "values_given _ = True"

section \<open>Text\<close>

definition quoted :: "string \<Rightarrow> string list" where
  "quoted s = [[dquote], s, [dquote]]"

definition key_chunks :: "string \<Rightarrow> string list" where
  "key_chunks k = (if k = [] then [] else quoted k)"

definition tag_chunks :: "string \<Rightarrow> string list" where
  "tag_chunks k = (if k = [] then [] else quoted k @ ['':''])"

fun commas :: "string list list \<Rightarrow> string list" where
  "commas [] = []"
| "commas (x # xs) = (if xs = [] then x else x @ ['',''] @ commas xs)"

text \<open>The text in the pieces in which it is written.\<close>

fun conf_chunks :: "conf \<Rightarrow> string list" where
  "conf_chunks (Plain k) = key_chunks k"
| "conf_chunks (Str k v) = tag_chunks k @ quoted v"
| "conf_chunks (Word k v) = tag_chunks k @ [v]"
| "conf_chunks (Obj k cs) = tag_chunks k @ [''{''] @ commas (map conf_chunks cs) @ [''}'']"
| "conf_chunks (Arr k cs) = tag_chunks k @ [''[''] @ commas (map conf_chunks cs) @ ['']'']"

definition conf_text :: "conf \<Rightarrow> string" where
  "conf_text c = concat (conf_chunks c)"

section \<open>Options\<close>

text \<open>\<open>put m i s\<close>: the characters of \<open>s\<close> stored one after the other.\<close>

primrec put :: "char option list \<Rightarrow> nat \<Rightarrow> string \<Rightarrow> char option list" where
  "put m i [] = m"
| "put m i (c # cs) = put (m[i := Some c]) (Suc i) cs"

lemma length_put [simp]: "length (put m i s) = length m"
  by (induction s arbitrary: m i) auto

lemma put_append: "put m i (s @ t) = put (put m i s) (i + length s) t"
  by (induction s arbitrary: m i) auto

lemma nth_put:
  "put m i s ! j = (if i \<le> j \<and> j < i + length s \<and> j < length m then Some (s ! (j - i)) else m ! j)"
proof (induction s arbitrary: m i)
  case Nil
  then show ?case by auto
next
  case (Cons c s)
  have "(c # s) ! (j - i) = s ! (j - Suc i)" if "Suc i \<le> j"
    using that by (simp add: Suc_diff_Suc nth_Cons' )
  then show ?case using Cons[of "m[i := Some c]" "Suc i"] by (auto simp: nth_list_update le_Suc_eq not_less_eq_eq list_update_beyond)
qed

lemma c_string_eq:
  assumes "nul \<notin> set s" and "length s < length m" and "\<And>j. j < length s \<Longrightarrow> m ! j = Some (s ! j)"
    and "m ! length s = Some nul"
  shows "c_string m = Some s"
  using assms
proof (induction s arbitrary: m)
  case Nil
  then show ?case by (cases m) auto
next
  case (Cons c s)
  then obtain m' where m: "m = Some c # m'" by (cases m) force+
  have "c_string m' = Some s"
  proof (rule Cons.IH)
    show "m' ! j = Some (s ! j)" if "j < length s" for j using Cons.prems(3)[of "Suc j"] that m by simp
  qed (use Cons.prems m in auto)
  then show ?case using m Cons.prems(1) by auto
qed

declare put.simps(2) [simp del]

definition named :: "string \<Rightarrow> char option list" where
  "named k = put (chars new_option) 0 (k @ [nul])"

definition mk_option :: "string \<Rightarrow> char option list \<Rightarrow> nat \<Rightarrow> option_type \<Rightarrow> opt_data" where
  "mk_option k m l t = \<lparr>chars = m, name_len = length k, value_len = l, otype = t, value_i64 = 0\<rparr>"

fun conf_data :: "conf \<Rightarrow> opt_data" where
  "conf_data (Plain k) = mk_option k (named k) 0 AOption_Any"
| "conf_data (Str k v) = mk_option k (put (named k) 32 (v @ [nul])) (length v) AOption_String"
| "conf_data (Word k v) = mk_option k (put (named k) 32 (v @ [nul])) (length v) AOption_Any"
| "conf_data (Obj k cs) = mk_option k (named k) 0 AOption_Object"
| "conf_data (Arr k cs) = mk_option k (put (named k) 32 ([CHR ''['', nul])) 0 AOption_Array"

text \<open>The option that stands for a configuration.\<close>

fun conf_option :: "conf \<Rightarrow> aoption" where
  "conf_option (Plain k) = AOption (conf_data (Plain k)) []"
| "conf_option (Str k v) = AOption (conf_data (Str k v)) []"
| "conf_option (Word k v) = AOption (conf_data (Word k v)) []"
| "conf_option (Obj k cs) = AOption (conf_data (Obj k cs)) (map conf_option cs)"
| "conf_option (Arr k cs) = AOption (conf_data (Arr k cs)) (map conf_option cs)"

lemma mk_option_simps [simp]:
  "chars (mk_option k m l t) = m" "name_len (mk_option k m l t) = length k"
  "value_len (mk_option k m l t) = l" "otype (mk_option k m l t) = t" "value_i64 (mk_option k m l t) = 0"
  by (simp_all add: mk_option_def)

lemma new_option_simps [simp]:
  "length (chars new_option) = 176" "chars new_option ! 0 = Some nul" "chars new_option ! 32 = Some nul"
  "name_len new_option = 0" "value_len new_option = 0" "otype new_option = AOption_Any"
  "value_i64 new_option = 0"
  by (simp_all add: new_option_def option_block_def)

lemma length_named [simp]: "length (named k) = 176"
  by (simp add: named_def)

lemma named_string:
  assumes "nul \<notin> set k" and "length k \<le> 175"
  shows "c_string (named k) = Some k"
  by (rule c_string_eq) (use assms in \<open>auto simp: named_def nth_put nth_append\<close>)

lemma named_put_string:
  assumes "nul \<notin> set k" and "length k \<le> 31"
  shows "c_string (put (named k) 32 s) = Some k"
  by (rule c_string_eq) (use assms in \<open>auto simp: named_def nth_put nth_append\<close>)

lemma put_string:
  assumes "nul \<notin> set v" and "length v \<le> 143" and "length m = 176"
  shows "c_string (drop 32 (put m 32 (v @ [nul]))) = Some v"
  by (rule c_string_eq) (use assms in \<open>auto simp: nth_put nth_append\<close>)

lemma named_value:
  assumes "length k \<le> 31"
  shows "named k ! 32 = Some nul"
  using assms by (simp add: named_def nth_put)

section \<open>Writing\<close>

definition run_chunks :: "'p callback \<Rightarrow> string list \<Rightarrow> 'p run" where
  "run_chunks write_cb ss = foldr (\<lambda>s. and_then (write_sn write_cb s)) ss nothing"

lemma run_chunks_simps [simp]:
  "run_chunks write_cb [] = nothing"
  "run_chunks write_cb (s # ss) = and_then (write_sn write_cb s) (run_chunks write_cb ss)"
  by (simp_all add: run_chunks_def)

lemma run_chunks_append [simp]:
  "run_chunks write_cb (ss @ ts) = and_then (run_chunks write_cb ss) (run_chunks write_cb ts)"
  by (induction ss) auto

lemma write_sc_other:
  "peek (chars d) i = Some x \<Longrightarrow> x \<noteq> c \<Longrightarrow> write_sc write_cb d i c = write_sn write_cb [c]"
  by (simp add: write_sc_def fun_eq_iff)

lemma write_name:
  assumes "option_name d = Some k" and "dquote \<notin> set k"
    and "\<And>j. j < length k \<Longrightarrow> peek (chars d) j = Some (k ! j)"
  shows "encode_name write_cb d = run_chunks write_cb (key_chunks k)"
proof (cases "k = []")
  case False
  have "write_sc write_cb d j dquote = write_sn write_cb [dquote]" if "j < length k" for j
    by (rule write_sc_other[OF assms(3)[OF that]]) (use assms(2) that in \<open>auto dest: nth_mem\<close>)
  then have "write_sc write_cb d 0 dquote = write_sn write_cb [dquote]"
    "write_sc write_cb d (length k - 1) dquote = write_sn write_cb [dquote]"
    using False by simp_all
  then show ?thesis
    using False assms(1) by (simp add: encode_name_def key_chunks_def quoted_def)
qed (simp add: encode_name_def key_chunks_def assms)

lemma conf_key:
  assumes "conf_ok arr c"
  shows "clean (key c)" and "length (key c) \<le> 175" and "name_len (conf_data c) = length (key c)"
    and "chars (conf_data c) = named (key c) \<or>
      length (key c) \<le> 31 \<and> (\<exists>s. chars (conf_data c) = put (named (key c)) 32 s)"
proof -
  show "clean (key c)" "length (key c) \<le> 175" "name_len (conf_data c) = length (key c)"
    using assms by (cases c; simp)+
  show "chars (conf_data c) = named (key c) \<or>
      length (key c) \<le> 31 \<and> (\<exists>s. chars (conf_data c) = put (named (key c)) 32 s)"
    using assms by (cases c) (simp_all, blast+)
qed

lemma named_nth: "j < length k \<Longrightarrow> length k \<le> 175 \<Longrightarrow> named k ! j = Some (k ! j)"
  by (simp add: named_def nth_put nth_append)

lemma conf_name:
  assumes "conf_ok arr c"
  shows "option_name (conf_data c) = Some (key c)" and "nul \<notin> set (key c)" and "dquote \<notin> set (key c)"
    and "\<And>j. j < length (key c) \<Longrightarrow> peek (chars (conf_data c)) j = Some (key c ! j)"
proof -
  note k = conf_key[OF assms]
  show n: "nul \<notin> set (key c)" "dquote \<notin> set (key c)" using k(1) by (auto simp: clean_def)
  show "option_name (conf_data c) = Some (key c)"
    using k(2,4) n named_string[of "key c"] named_put_string[of "key c"] by (auto simp: option_name_def)
  show "peek (chars (conf_data c)) j = Some (key c ! j)" if "j < length (key c)" for j
    using k(2,4) that by (auto simp: peek_def nth_put named_nth)
qed

lemma conf_first_value:
  assumes "conf_ok arr c"
  shows "value_at (conf_data c) 0 = Some (case c of Plain k \<Rightarrow> if length k \<le> 32 then nul else k ! 32
    | Str k v \<Rightarrow> (if v = [] then nul else hd v) | Word k v \<Rightarrow> hd v | Obj k cs \<Rightarrow> nul | Arr k cs \<Rightarrow> CHR ''['')"
  using assms
  by (cases c)
    (auto simp: value_at_def NAME_SIZE_def peek_def named_def nth_put nth_append hd_conv_nth numeric_def
      split: list.splits)

lemma write_key: "conf_ok arr c \<Longrightarrow> encode_name write_cb (conf_data c) = run_chunks write_cb (key_chunks (key c))"
  using conf_name by (intro write_name) auto

lemma write_tag:
  assumes "conf_ok arr c"
  shows "and_then (encode_name write_cb (conf_data c)) (and_then (encode_colon write_cb (conf_data c)) f) =
    and_then (run_chunks write_cb (tag_chunks (key c))) f"
proof -
  have "name_at (conf_data c) 0 = Some (if key c = [] then nul else hd (key c))"
  proof (cases "key c = []")
    case True
    then show ?thesis using assms
      by (cases c) (auto simp: name_at_def peek_def named_def nth_put nth_append)
  next
    case False
    then show ?thesis using conf_name(4)[OF assms, of 0] by (simp add: name_at_def hd_conv_nth)
  qed
  moreover have "hd (key c) \<noteq> nul" if "key c \<noteq> []" using conf_name(2)[OF assms] hd_in_set[OF that] by auto
  ultimately have "encode_colon write_cb (conf_data c) = run_chunks write_cb (if key c = [] then [] else ['':''])"
    by (auto simp: encode_colon_def)
  then show ?thesis using write_key[OF assms, of write_cb] by (auto simp: tag_chunks_def key_chunks_def)
qed

lemma write_value:
  assumes "conf_ok arr c" and "c = Str k v \<or> c = Word k v" and ne: "v \<noteq> []"
  shows "encode_value ext write_cb (conf_data c) = run_chunks write_cb (if c = Word k v \<and> numeric v then [v] else quoted v)"
proof -
  have "nul \<notin> set v" "length v \<le> 143" and q: "dquote \<notin> set v"
    using assms by (auto simp: clean_def bare_def is_quote_def dquote_def)
  then have v: "option_value (conf_data c) = Some v"
    using assms(2) put_string[of v "named k"] by (auto simp: option_value_def NAME_SIZE_def)
  show ?thesis
  proof (cases "c = Word k v \<and> numeric v")
    case True
    then show ?thesis using v
      by (cases v) (auto simp: encode_value_def numeric_def)
  next
    case False
    have p: "peek (chars (conf_data c)) (32 + j) = Some (v ! j)" if "j < length v" for j
      using assms that by (auto simp: peek_def nth_put nth_append)
    have q: "v ! j \<noteq> dquote" if "j < length v" for j using q that by (auto dest: nth_mem)
    have "write_sc write_cb (conf_data c) (32 + j) dquote = write_sn write_cb [dquote]" if "j < length v" for j
      using write_sc_other[OF p[OF that] q[OF that]] .
    moreover have "32 + (length v - 1) = 31 + length v" using ne by (cases v) auto
    ultimately have "write_sc write_cb (conf_data c) 32 dquote = write_sn write_cb [dquote]"
      "write_sc write_cb (conf_data c) (31 + length v) dquote = write_sn write_cb [dquote]"
      using ne by (metis add_0_right length_greater_0_conv, metis diff_less length_greater_0_conv zero_less_one)
    then show ?thesis
      using v ne False assms(2) by (cases v) (auto simp: encode_value_def NAME_SIZE_def quoted_def numeric_def)
  qed
qed

lemma encode_children_commas:
  assumes "\<And>c. c \<in> set cs \<Longrightarrow>
    encode_tree ext write_cb (Some d) (conf_option c) = run_chunks write_cb (conf_chunks (rewritten c))"
  shows "encode_children ext write_cb d (map conf_option cs) =
    run_chunks write_cb (commas (map conf_chunks (map rewritten cs)))"
  using assms by (induction cs) auto

lemma encode_head_full:
  assumes "conf_ok arr c" and "name_only par (conf_data c) cs = Some False"
  shows "encode_head ext write_cb par (conf_data c) cs =
    and_then (run_chunks write_cb (tag_chunks (key c))) (encode_content ext write_cb (conf_data c) cs)"
  using assms(2) write_tag[OF assms(1), of write_cb "encode_content ext write_cb (conf_data c) cs"]
  by (simp add: encode_head_def)

text \<open>Whatever the callback: the options of a configuration are written as the pieces of the text it is rewritten to.\<close>

lemma encode_conf:
  assumes "conf_ok arr c" and "values_given c"
    and "arr \<Longrightarrow> (case par of None \<Rightarrow> True | Some p \<Rightarrow> otype p \<noteq> AOption_Object)"
  shows "encode_tree ext write_cb par (conf_option c) = run_chunks write_cb (conf_chunks (rewritten c))"
  using assms
proof (induction c arbitrary: arr par)
  case (Plain k)
  have "name_only par (conf_data (Plain k)) [] = Some True"
    using Plain conf_first_value[OF Plain(1)]
    by (auto simp: name_only_def NAME_SIZE_def split: option.splits)
  then show ?case using write_key[OF Plain(1), of write_cb] by (simp add: encode_head_def del: conf_data.simps)
next
  case (Str k v)
  note val = conf_first_value[OF Str(1)] and wr = write_value[OF Str(1), of k v ext write_cb]
  have "name_only par (conf_data (Str k v)) [] = Some False"
    using Str val hd_in_set[of v] by (auto simp: name_only_def NAME_SIZE_def clean_def)
  moreover have "is_array (conf_data (Str k v)) = Some (hd v = CHR ''['')" using Str val by (simp add: is_array_def)
  ultimately show ?case using encode_head_full[OF Str(1), where write_cb = write_cb] wr Str(2)
    by (cases "hd v = CHR ''[''") (simp_all add: encode_content_def del: conf_data.simps, simp)
next
  case (Word k v)
  note val = conf_first_value[OF Word(1)] and wr = write_value[OF Word(1), of k v ext write_cb]
  have v: "v \<noteq> []" using Word by simp
  then have hd: "hd v \<noteq> nul" "hd v \<noteq> CHR ''[''" using Word hd_in_set[of v] by (auto simp: bare_def)
  have "name_only par (conf_data (Word k v)) [] = Some False" "is_array (conf_data (Word k v)) = Some False"
    using Word val hd by (auto simp: name_only_def NAME_SIZE_def is_array_def)
  then show ?case using encode_head_full[OF Word(1), where write_cb = write_cb] wr v
    by (cases "numeric v") (simp_all add: encode_content_def del: conf_data.simps, simp_all)
next
  case (Obj k cs)
  let ?d = "conf_data (Obj k cs)"
  note val = conf_first_value[OF Obj(2)]
  have h: "name_only par ?d ds = Some False" "is_array ?d = Some False" for ds
    using Obj(2) val by (auto simp: name_only_def NAME_SIZE_def is_array_def)
  have "encode_children ext write_cb ?d (map conf_option cs) = run_chunks write_cb (commas (map conf_chunks (map rewritten cs)))"
    by (rule encode_children_commas, rule Obj(1)) (use Obj(2,3) in \<open>auto simp: list_all_iff\<close>)
  then show ?case using encode_head_full[OF Obj(2) h(1), where write_cb = write_cb] h(2)
    by (auto simp: encode_content_def encode_end_def)
next
  case (Arr k cs)
  let ?d = "conf_data (Arr k cs)"
  note val = conf_first_value[OF Arr(2)]
  have h: "name_only par ?d ds = Some False" "is_array ?d = Some True" for ds
    using Arr(2) val by (auto simp: name_only_def NAME_SIZE_def is_array_def)
  have "encode_children ext write_cb ?d (map conf_option cs) = run_chunks write_cb (commas (map conf_chunks (map rewritten cs)))"
    by (rule encode_children_commas, rule Arr(1)) (use Arr(2,3) in \<open>auto simp: list_all_iff\<close>)
  then show ?case using encode_head_full[OF Arr(2) h(1), where write_cb = write_cb] h(2)
    by (auto simp: encode_content_def encode_end_def)
qed

end
