(* ===== verification/Option_Trip.thy ===== *)
theory Option_Trip
  imports Option_Text
begin

text \<open>
  Reading back what was written: for a configuration, the reader of options takes exactly its text and builds
  exactly the options that stand for it.
\<close>

section \<open>Steps of the reader\<close>

text \<open>A state of the loop outside of comments and escapes; \<open>q\<close> is the open quote, if any.\<close>

definition st :: "opt_data \<Rightarrow> aoption list \<Rightarrow> frame list \<Rightarrow> char \<Rightarrow> u8 \<Rightarrow> int \<Rightarrow> nat \<Rightarrow> decoder" where
  "st d ks ps q k L n = \<lparr>current = (d, ks), parents = ps, ident = q, comment = nul, keysep = k, slash = nul,
     layer = L, start = n\<rparr>"

abbreviation everything :: "nat \<Rightarrow> bool" where "everything \<equiv> \<lambda>_. True"

abbreviation reads where "reads \<equiv> decode_from everything"

lemma st_simps [simp]:
  "cur (st d ks ps q k L n) = d" "current (st d ks ps q k L n) = (d, ks)" "parents (st d ks ps q k L n) = ps"
  "ident (st d ks ps q k L n) = q" "comment (st d ks ps q k L n) = nul" "keysep (st d ks ps q k L n) = k"
  "slash (st d ks ps q k L n) = nul" "layer (st d ks ps q k L n) = L" "start (st d ks ps q k L n) = n"
  "set_cur d' (st d ks ps q k L n) = st d' ks ps q k L n"
  "st d ks ps q k L n\<lparr>ident := q'\<rparr> = st d ks ps q' k L n"
  "st d ks ps q k L n\<lparr>keysep := k'\<rparr> = st d ks ps q k' L n"
  "st d ks ps q k L n\<lparr>start := n'\<rparr> = st d ks ps q k L n'"
  "st d ks ps q k L n\<lparr>layer := L'\<rparr> = st d ks ps q k L' n"
  "st d ks ps q k L n\<lparr>parents := ps'\<rparr> = st d ks ps' q k L n"
  "st d ks ps q k L n\<lparr>current := (d', ks')\<rparr> = st d' ks' ps q k L n"
  by (simp_all add: st_def cur_def set_cur_def)

lemmas decode_char_simps = decode_char_def decode_comment_def decode_switch_def is_quote_def is_blank_def Let_def

lemma clean_first: "clean (c # s) \<Longrightarrow> c \<noteq> nul \<and> c \<noteq> CHR 0x22 \<and> c \<noteq> CHR 0x5C"
  by (auto simp: clean_def dquote_def)

lemma read_open_quote:
  "reads i (dquote # rest) (st d ks ps nul k L i) =
   reads (i + 1) rest (st (if k = 1 \<and> otype d = AOption_Any then d\<lparr>otype := AOption_String\<rparr> else d)
     ks ps dquote k L (i + 1))"
  by (simp add: decode_char_simps dquote_def decode_quote_def decode_blank_def)

lemma read_close_quote:
  assumes "i \<noteq> n" and "AOptionEndKeyOrValue k d = Some d'"
  shows "reads i (dquote # rest) (st d ks ps dquote k L n) =
    reads (i + 1) rest (st d' ks ps nul (k + 1) L (i + 1))"
  using assms by (simp add: decode_char_simps dquote_def decode_quote_def decode_blank_def end_part_def)

lemma read_empty_quotes:
  "reads i (dquote # rest) (st d ks ps dquote k L i) = reads (i + 1) rest (st d ks ps nul k L (i + 1))"
  by (simp add: decode_char_simps dquote_def decode_quote_def decode_blank_def)

lemma read_colon:
  "reads i (CHR '':'' # rest) (st d ks ps nul k L i) = reads (i + 1) rest (st d ks ps nul k L (i + 1))"
  by (simp add: decode_char_simps decode_blank_def)

lemma read_quoted_name:
  assumes "clean s" and "length (chars d) = 176" and "name_len d + length s \<le> max_name (in_array (st d ks ps dquote 0 L n))"
  shows "reads i (s @ rest) (st d ks ps dquote 0 L n) = reads (i + length s) rest
    (st (d\<lparr>chars := put (chars d) (name_len d) s, name_len := name_len d + length s\<rparr>) ks ps dquote 0 L n)"
  using assms
proof (induction s arbitrary: d i)
  case (Cons c s)
  let ?d = "d\<lparr>chars := (chars d)[name_len d := Some c], name_len := name_len d + 1\<rparr>"
  have "max_name (in_array (st d ks ps dquote 0 L n)) \<le> 175" by (simp add: max_name_def option_sizes)
  then have "put_char c (st d ks ps dquote 0 L n) = Some (st ?d ks ps dquote 0 L n)"
    using Cons.prems by (simp add: put_char_def AOptionSetKeyOrValue_def set_name_eq)
  then have "reads i ((c # s) @ rest) (st d ks ps dquote 0 L n) = reads (i + 1) (s @ rest) (st ?d ks ps dquote 0 L n)"
    using clean_first[OF Cons.prems(1)] by (simp add: decode_char_simps dquote_def)
  also have "\<dots> = reads (i + 1 + length s) rest (st (?d\<lparr>chars := put (chars ?d) (name_len ?d) s,
      name_len := name_len ?d + length s\<rparr>) ks ps dquote 0 L n)"
    using Cons.prems by (intro Cons.IH) (auto simp: clean_def in_array_def)
  finally show ?case by (simp add: put.simps)
qed simp

lemma put_char_value:
  assumes "length (chars d) = 176" and "value_len d < 143"
  shows "put_char c (st d ks ps q 1 L n) =
    Some (st (d\<lparr>chars := (chars d)[32 + value_len d := Some c], value_len := value_len d + 1\<rparr>) ks ps q 1 L n)"
  using assms by (simp add: put_char_def AOptionSetKeyOrValue_def set_value_eq VALUE_SIZE_def)

lemma read_value:
  assumes "if q = nul then bare s else q = dquote \<and> clean s"
    and "length (chars d) = 176" and "value_len d + length s \<le> 143"
  shows "reads i (s @ rest) (st d ks ps q 1 L n) = reads (i + length s) rest
    (st (d\<lparr>chars := put (chars d) (32 + value_len d) s, value_len := value_len d + length s\<rparr>) ks ps q 1 L n)"
  using assms
proof (induction s arbitrary: d i)
  case (Cons c s)
  let ?d = "d\<lparr>chars := (chars d)[32 + value_len d := Some c], value_len := value_len d + 1\<rparr>"
  have p: "put_char c (st d ks ps q 1 L n) = Some (st ?d ks ps q 1 L n)"
    using Cons.prems by (intro put_char_value) auto
  have "reads i ((c # s) @ rest) (st d ks ps q 1 L n) = reads (i + 1) (s @ rest) (st ?d ks ps q 1 L n)"
  proof (cases "q = nul")
    case True
    then have b: "c \<noteq> nul" "c \<notin> set ''{}[],''" "\<not> is_quote c" "\<not> is_blank c"
      using Cons.prems(1) by (auto simp: bare_def)
    then show ?thesis using p True by (simp add: decode_char_def decode_comment_def decode_switch_def)
  next
    case False
    then have "q = dquote" "clean (c # s)" using Cons.prems(1) by simp_all
    then show ?thesis using clean_first[of c s] p by (simp add: decode_char_simps dquote_def)
  qed
  also have "\<dots> = reads (i + 1 + length s) rest (st (?d\<lparr>chars := put (chars ?d) (32 + value_len ?d) s,
      value_len := value_len ?d + length s\<rparr>) ks ps q 1 L n)"
    using Cons.prems by (intro Cons.IH) (auto simp: clean_def bare_def split: if_splits)
  finally show ?case by (simp add: put.simps)
qed simp

lemma read_open:
  assumes "length (chars d) = 176" and "chars d ! 32 = Some nul" and "b = CHR ''{'' \<or> b = CHR ''[''"
  shows "reads i (b # rest) (st d ks ps nul k L i) = reads (i + 1) rest (st new_option []
    (((if b = CHR ''['' then d\<lparr>chars := (chars d)[32 := Some (CHR ''[''), 33 := Some nul], otype := AOption_Array\<rparr>
       else d\<lparr>otype := AOption_Object\<rparr>), ks) # ps) nul 0 (L + 1) (i + 1))"
  using assms by (auto simp: decode_char_simps decode_open_def end_pending_def mark_container_eq AOptionCreate_unnamed)

section \<open>Options that are complete\<close>

text \<open>
  The text of \<open>c\<close> was read up to index \<open>i\<close>, under the parents \<open>ps\<close>; a last part may not be terminated yet.
\<close>

definition finished :: "conf \<Rightarrow> frame list \<Rightarrow> int \<Rightarrow> nat \<Rightarrow> decoder \<Rightarrow> bool" where
  "finished c ps L i s = (\<exists>d ks k n. s = st d ks ps nul k L n \<and> AOption (conf_data c) ks = conf_option c \<and>
     (if i = n then d = conf_data c else AOptionEndKeyOrValue k d = Some (conf_data c)))"

lemma finished_now:
  "AOption (conf_data c) ks = conf_option c \<Longrightarrow> finished c ps L i (st (conf_data c) ks ps nul k L i)"
  unfolding finished_def by (intro exI[of _ "conf_data c"] exI[of _ ks] exI[of _ k] exI[of _ i]) simp

lemma finished_pending:
  "i \<noteq> n \<Longrightarrow> AOption (conf_data c) ks = conf_option c \<Longrightarrow> AOptionEndKeyOrValue k d = Some (conf_data c) \<Longrightarrow>
   finished c ps L i (st d ks ps nul k L n)"
  unfolding finished_def by (intro exI[of _ d] exI[of _ ks] exI[of _ k] exI[of _ n]) simp

lemma finished_end:
  assumes "finished c ps L i s"
  obtains ks k n where "end_pending i s = Some (st (conf_data c) ks ps nul k L n)"
    "AOption (conf_data c) ks = conf_option c" "ident s = nul" "comment s = nul"
proof -
  obtain d ks k n where s: "s = st d ks ps nul k L n" "AOption (conf_data c) ks = conf_option c"
    "if i = n then d = conf_data c else AOptionEndKeyOrValue k d = Some (conf_data c)"
    using assms unfolding finished_def by blast
  then have "end_pending i s = Some (st (conf_data c) ks ps nul k L n)"
    by (cases "i = n") (simp_all add: end_pending_def end_part_def)
  then show thesis using that s by simp
qed

lemma read_comma:
  assumes "finished c ((p, ds) # ps) L i s" and "L \<noteq> 0"
  shows "reads i (CHR '','' # rest) s =
    reads (i + 1) rest (st new_option [] ((p, ds @ [conf_option c]) # ps) nul 0 L (i + 1))"
proof -
  obtain ks k n where "end_pending i s = Some (st (conf_data c) ks ((p, ds) # ps) nul k L n)"
    "AOption (conf_data c) ks = conf_option c" "ident s = nul" "comment s = nul"
    by (rule finished_end[OF assms(1)])
  then show ?thesis
    using assms(2) by (simp add: decode_char_simps decode_comma_def frame_tree_def AOptionCreate_unnamed)
qed

text \<open>What a closing bracket at index \<open>i\<close> gives, for the parent \<open>p\<close> with the children \<open>cs\<close>.\<close>

definition closed ::
    "nat \<Rightarrow> string \<Rightarrow> opt_data \<Rightarrow> aoption list \<Rightarrow> frame list \<Rightarrow> int \<Rightarrow> (int \<times> aoption option) option" where
  "closed i rest p cs ps L =
     (if L = 1 then Some (int i + 1, Some (close_frames (AOption p cs) ps))
      else reads (i + 1) rest (st p cs ps nul 0 (L - 1) (i + 1)))"

lemma read_close:
  assumes "finished c ((p, ds) # ps) L i s" and "1 \<le> L" and "b = CHR ''}'' \<or> b = CHR '']''"
    and "c \<noteq> Plain []" and "conf_ok arr c"
  shows "reads i (b # rest) s = closed i rest p (ds @ [conf_option c]) ps L"
proof -
  obtain ks k n where e: "end_pending i s = Some (st (conf_data c) ks ((p, ds) # ps) nul k L n)"
    and c: "AOption (conf_data c) ks = conf_option c" and s: "ident s = nul" "comment s = nul"
    by (rule finished_end[OF assms(1)])
  have "name_at (conf_data c) 0 = Some nul \<Longrightarrow> key c = []"
    using conf_name(2)[OF assms(5)] conf_name(4)[OF assms(5), of 0] nth_mem[of 0 "key c"]
    by (cases "key c = []") (auto simp: name_at_def)
  moreover have "name_at (conf_data c) 0 \<noteq> None"
  proof -
    have "length (chars (conf_data c)) = 176" using conf_key(4)[OF assms(5)] by auto
    then show ?thesis using conf_key(4)[OF assms(5)]
      by (auto simp: name_at_def peek_def nth_put named_def nth_append simp del: length_greater_0_conv)
  qed
  ultimately have "up (st (conf_data c) ks ((p, ds) # ps) nul k (L - 1) n) =
      Some (st p (ds @ [conf_option c]) ps nul k (L - 1) n)"
    using assms(4,5) c by (cases c) (auto simp: up_def frame_tree_def)
  then show ?thesis using e s assms(2,3)
    by (auto simp: decode_char_simps decode_close_def closed_def decoded_def frame_tree_def)
qed

lemma read_close_empty:
  assumes "1 \<le> L" and "b = CHR ''}'' \<or> b = CHR '']''"
  shows "reads i (b # rest) (st new_option [] ((p, ds) # ps) nul 0 L i) = closed i rest p ds ps L"
proof -
  have "name_at new_option 0 = Some nul" by (simp add: name_at_def peek_def)
  then show ?thesis using assms
    by (auto simp: decode_char_simps decode_close_def end_pending_def closed_def decoded_def up_def frame_tree_def)
qed

section \<open>Reading the text of a configuration\<close>

lemma concat_quoted: "concat (quoted s) = dquote # s @ [dquote]"
  by (simp add: quoted_def)

text \<open>A name between quotes, at the start of an option.\<close>

lemma read_key:
  assumes "k \<noteq> []" and "clean k" and "length k \<le> max_name (in_array (st new_option [] ps nul 0 L i))"
  shows "reads i (concat (quoted k) @ rest) (st new_option [] ps nul 0 L i) =
    reads (i + length k + 2) rest (st (mk_option k (named k) 0 AOption_Any) [] ps nul 1 L (i + length k + 2))"
proof -
  let ?d = "new_option\<lparr>chars := put (chars new_option) 0 k, name_len := length k\<rparr>"
  have mx: "length k \<le> 175" using assms(3) by (simp add: max_name_def option_sizes split: if_splits)
  have "reads i (concat (quoted k) @ rest) (st new_option [] ps nul 0 L i) =
      reads (i + 1) (k @ dquote # rest) (st new_option [] ps dquote 0 L (i + 1))"
    using read_open_quote[of i "k @ dquote # rest" new_option "[]" ps 0 L] by (simp add: concat_quoted)
  also have "\<dots> = reads (i + 1 + length k) (dquote # rest) (st ?d [] ps dquote 0 L (i + 1))"
    using read_quoted_name[of k new_option "[]" ps L "i + 1" "i + 1" "dquote # rest"] assms(2,3)
    by (simp add: in_array_def)
  also have "AOptionEndKeyOrValue 0 ?d = Some (mk_option k (named k) 0 AOption_Any)"
    using mx by (simp add: AOptionEndKeyOrValue_def set_name_eq mk_option_def named_def put_append put.simps
        new_option_def option_block_def)
  then have "reads (i + 1 + length k) (dquote # rest) (st ?d [] ps dquote 0 L (i + 1)) =
      reads (i + length k + 2) rest (st (mk_option k (named k) 0 AOption_Any) [] ps nul 1 L (i + length k + 2))"
    using read_close_quote[of "i + 1 + length k" "i + 1" 0 ?d _ rest "[]" ps L] assms(1) by simp
  finally show ?thesis .
qed

definition tag_text :: "string \<Rightarrow> string" where
  "tag_text k = concat (tag_chunks k)"

text \<open>After the name and the colon: the option has its name, and its value is next.\<close>

lemma read_tag:
  assumes "clean k" and "length k \<le> 31"
  obtains ks where
    "reads i (tag_text k @ rest) (st new_option [] ps nul 0 L i) =
      reads (i + length (tag_text k)) rest
        (st (mk_option k (named k) 0 AOption_Any) [] ps nul ks L (i + length (tag_text k)))"
    "k \<noteq> [] \<longrightarrow> ks = 1"
proof (cases "k = []")
  case True
  have "new_option = mk_option [] (named []) 0 AOption_Any"
    by (simp add: mk_option_def named_def put.simps new_option_def option_block_def list_update_overwrite list_update_swap)
  then show thesis using True that[of 0] by (simp add: tag_text_def tag_chunks_def)
next
  case False
  have "31 \<le> max_name b" for b by (simp add: max_name_def option_sizes)
  then have "length k \<le> max_name (in_array (st new_option [] ps nul 0 L i))" using assms(2) le_trans by blast
  then have "reads i (tag_text k @ rest) (st new_option [] ps nul 0 L i) =
      reads (i + length k + 2) (CHR '':'' # rest) (st (mk_option k (named k) 0 AOption_Any) [] ps nul 1 L (i + length k + 2))"
    using False assms read_key[of k ps L i "CHR '':'' # rest"] by (simp add: tag_text_def tag_chunks_def)
  also have "\<dots> = reads (i + length k + 2 + 1) rest
      (st (mk_option k (named k) 0 AOption_Any) [] ps nul 1 L (i + length k + 2 + 1))" by (rule read_colon)
  also have "i + length k + 2 + 1 = i + length (tag_text k)"
    using False by (simp add: tag_text_def tag_chunks_def concat_quoted)
  finally show thesis using that by blast
qed

text \<open>Options under an array may have long names.\<close>

definition parent_fits :: "bool \<Rightarrow> frame list \<Rightarrow> bool" where
  "parent_fits arr ps = (arr \<longrightarrow> (case ps of [] \<Rightarrow> False | p # _ \<Rightarrow> otype (fst p) = AOption_Array))"

definition reads_conf :: "bool \<Rightarrow> conf \<Rightarrow> bool" where
  "reads_conf arr c = (\<forall>i ps L rest. 1 \<le> L \<longrightarrow> parent_fits arr ps \<longrightarrow>
     (\<exists>s. finished c ps L (i + length (conf_text c)) s \<and>
        reads i (conf_text c @ rest) (st new_option [] ps nul 0 L i) =
        reads (i + length (conf_text c)) rest s))"

lemma reads_confI:
  assumes "\<And>i ps L rest. 1 \<le> L \<Longrightarrow> parent_fits arr ps \<Longrightarrow> \<exists>t j s. conf_text c = t \<and> i + length t = j \<and>
    finished c ps L j s \<and> reads i (t @ rest) (st new_option [] ps nul 0 L i) = reads j rest s"
  shows "reads_conf arr c"
  using assms unfolding reads_conf_def by blast

lemma reads_Plain:
  assumes "conf_ok arr (Plain k)"
  shows "reads_conf arr (Plain k)"
proof (rule reads_confI)
  fix i ps L rest
  assume "(1::int) \<le> L" and p: "parent_fits arr ps"
  show "\<exists>t j s. conf_text (Plain k) = t \<and> i + length t = j \<and> finished (Plain k) ps L j s \<and>
      reads i (t @ rest) (st new_option [] ps nul 0 L i) = reads j rest s"
  proof (cases "k = []")
    case True
    have "new_option = conf_data (Plain [])"
      by (simp add: mk_option_def named_def put.simps new_option_def option_block_def list_update_swap)
    then have "finished (Plain k) ps L i (st new_option [] ps nul 0 L i)"
      using True finished_now[of "Plain []" "[]"] by simp
    then show ?thesis using True
      by (intro exI[of _ "[]"] exI[of _ i] exI[of _ "st new_option [] ps nul 0 L i"])
        (simp add: conf_text_def key_chunks_def)
  next
    case False
    have "length k \<le> max_name (in_array (st new_option [] ps nul 0 L i))"
      using assms p by (auto simp: parent_fits_def max_name_def option_sizes in_array_def split: list.splits)
    then have "reads i (concat (quoted k) @ rest) (st new_option [] ps nul 0 L i) =
        reads (i + length k + 2) rest (st (conf_data (Plain k)) [] ps nul 1 L (i + length k + 2))"
      using False assms read_key[of k ps L i rest] by simp
    moreover have "conf_text (Plain k) = concat (quoted k)" using False by (simp add: conf_text_def key_chunks_def)
    moreover have "i + length (concat (quoted k)) = i + length k + 2" by (simp add: concat_quoted)
    moreover have "finished (Plain k) ps L (i + length k + 2) (st (conf_data (Plain k)) [] ps nul 1 L (i + length k + 2))"
      by (rule finished_now) simp
    ultimately show ?thesis by blast
  qed
qed

lemma reads_Str:
  assumes "conf_ok arr (Str k v)"
  shows "reads_conf arr (Str k v)"
proof (rule reads_confI)
  fix i ps L rest
  let ?j = "i + length (tag_text k)"
  let ?e = "?j + 1 + length v + 1"
  let ?d = "(mk_option k (named k) 0 AOption_String)\<lparr>chars := put (named k) 32 v, value_len := length v\<rparr>"
  have v: "clean v" "length v \<le> 143" and k: "clean k" "length k \<le> 31" "k \<noteq> []" using assms by auto
  obtain ks where tag: "reads i (tag_text k @ concat (quoted v) @ rest) (st new_option [] ps nul 0 L i) =
      reads ?j (concat (quoted v) @ rest) (st (mk_option k (named k) 0 AOption_Any) [] ps nul ks L ?j)"
    and ks: "k \<noteq> [] \<longrightarrow> ks = 1"
    by (rule read_tag[OF k(1,2), where rest = "concat (quoted v) @ rest" and i = i and ps = ps and L = L])
  note tag
  also have "reads ?j (concat (quoted v) @ rest) (st (mk_option k (named k) 0 AOption_Any) [] ps nul ks L ?j) =
      reads (?j + 1) (v @ dquote # rest) (st (mk_option k (named k) 0 AOption_String) [] ps dquote 1 L (?j + 1))"
    using read_open_quote[of ?j "v @ dquote # rest" "mk_option k (named k) 0 AOption_Any" "[]" ps 1 L] ks k
    by (simp add: concat_quoted mk_option_def)
  also have "\<dots> = reads ?e rest (st (conf_data (Str k v)) [] ps nul (if v = [] then 1 else 1 + 1) L ?e)"
  proof (cases "v = []")
    case True
    have "put (named k) 32 [nul] = named k"
      using named_value[OF k(2)] by (simp add: put.simps list_update_same_conv)
    then show ?thesis
      using True read_empty_quotes[of "?j + 1" rest "mk_option k (named k) 0 AOption_String" "[]" ps 1 L] by simp
  next
    case False
    have "reads (?j + 1) (v @ dquote # rest) (st (mk_option k (named k) 0 AOption_String) [] ps dquote 1 L (?j + 1)) =
        reads (?j + 1 + length v) (dquote # rest) (st ?d [] ps dquote 1 L (?j + 1))"
      using read_value[of dquote v "mk_option k (named k) 0 AOption_String" "?j + 1" "dquote # rest" "[]" ps L "?j + 1"] v
      by (simp add: dquote_def)
    moreover have "AOptionEndKeyOrValue 1 ?d = Some (conf_data (Str k v))"
      using v by (simp add: AOptionEndKeyOrValue_def set_value_eq mk_option_def put_append put.simps)
    then have "reads (?j + 1 + length v) (dquote # rest) (st ?d [] ps dquote 1 L (?j + 1)) =
        reads ?e rest (st (conf_data (Str k v)) [] ps nul (1 + 1) L ?e)"
      using False by (intro read_close_quote) auto
    ultimately show ?thesis using False by simp
  qed
  finally have "reads i ((tag_text k @ concat (quoted v)) @ rest) (st new_option [] ps nul 0 L i) =
      reads ?e rest (st (conf_data (Str k v)) [] ps nul (if v = [] then 1 else 1 + 1) L ?e)"
    by (simp only: append_assoc)
  moreover have "conf_text (Str k v) = tag_text k @ concat (quoted v)" by (simp add: conf_text_def tag_text_def)
  moreover have "i + length (tag_text k @ concat (quoted v)) = ?e" by (simp add: concat_quoted)
  moreover have "finished (Str k v) ps L ?e (st (conf_data (Str k v)) [] ps nul (if v = [] then 1 else 1 + 1) L ?e)"
    by (rule finished_now) simp
  ultimately show "\<exists>t j s. conf_text (Str k v) = t \<and> i + length t = j \<and> finished (Str k v) ps L j s \<and>
      reads i (t @ rest) (st new_option [] ps nul 0 L i) = reads j rest s" by blast
qed

lemma reads_Word:
  assumes "conf_ok arr (Word k v)"
  shows "reads_conf arr (Word k v)"
proof (rule reads_confI)
  fix i ps L rest
  let ?j = "i + length (tag_text k)"
  let ?d = "(mk_option k (named k) 0 AOption_Any)\<lparr>chars := put (named k) 32 v, value_len := length v\<rparr>"
  have v: "v \<noteq> []" "bare v" "length v \<le> 143" and k: "clean k" "length k \<le> 31" "k \<noteq> []"
    using assms by auto
  obtain ks where tag: "reads i (tag_text k @ v @ rest) (st new_option [] ps nul 0 L i) =
      reads ?j (v @ rest) (st (mk_option k (named k) 0 AOption_Any) [] ps nul ks L ?j)"
    and ks: "k \<noteq> [] \<longrightarrow> ks = 1"
    by (rule read_tag[OF k(1,2), where rest = "v @ rest" and i = i and ps = ps and L = L])
  note tag
  also have "reads ?j (v @ rest) (st (mk_option k (named k) 0 AOption_Any) [] ps nul ks L ?j) =
      reads (?j + length v) rest (st ?d [] ps nul 1 L ?j)"
    using read_value[of nul v "mk_option k (named k) 0 AOption_Any" ?j rest "[]" ps L ?j] v k ks by simp
  finally have "reads i ((tag_text k @ v) @ rest) (st new_option [] ps nul 0 L i) =
      reads (?j + length v) rest (st ?d [] ps nul 1 L ?j)" by (simp only: append_assoc)
  moreover have "AOptionEndKeyOrValue 1 ?d = Some (conf_data (Word k v))"
    using v by (simp add: AOptionEndKeyOrValue_def set_value_eq mk_option_def put_append put.simps)
  then have "finished (Word k v) ps L (?j + length v) (st ?d [] ps nul 1 L ?j)"
    using v by (intro finished_pending) auto
  moreover have "conf_text (Word k v) = tag_text k @ v" by (simp add: conf_text_def tag_text_def)
  moreover have "i + length (tag_text k @ v) = ?j + length v" by simp
  ultimately show "\<exists>t j s. conf_text (Word k v) = t \<and> i + length t = j \<and> finished (Word k v) ps L j s \<and>
      reads i (t @ rest) (st new_option [] ps nul 0 L i) = reads j rest s" by blast
qed

section \<open>Objects and arrays\<close>

definition confs_text :: "conf list \<Rightarrow> string" where
  "confs_text cs = concat (commas (map conf_chunks cs))"

lemma confs_text_simps [simp]:
  "confs_text [] = []" "confs_text [c] = conf_text c"
  "cs \<noteq> [] \<Longrightarrow> confs_text (c # cs) = conf_text c @ CHR '','' # confs_text cs"
  by (simp_all add: confs_text_def conf_text_def)

text \<open>The children of \<open>p\<close> and the closing bracket.\<close>

lemma reads_children:
  assumes "\<And>c. c \<in> set cs \<Longrightarrow> reads_conf arr c \<and> conf_ok arr c" and "cs \<noteq> []" and "last cs \<noteq> Plain []"
    and "arr \<Longrightarrow> otype p = AOption_Array" and "1 \<le> L" and "b = CHR ''}'' \<or> b = CHR '']''"
  shows "reads i (confs_text cs @ b # rest) (st new_option [] ((p, ds) # ps) nul 0 L i) =
    closed (i + length (confs_text cs)) rest p (ds @ map conf_option cs) ps L"
  using assms(1-3)
proof (induction cs arbitrary: i ds)
  case (Cons c cs)
  let ?j = "i + length (conf_text c)"
  have "parent_fits arr ((p, ds) # ps)" using assms(4) by (simp add: parent_fits_def)
  then have r: "\<exists>s. finished c ((p, ds) # ps) L ?j s \<and>
      reads i (conf_text c @ rest') (st new_option [] ((p, ds) # ps) nul 0 L i) = reads ?j rest' s" for rest'
    using Cons.prems(1)[of c] assms(5) unfolding reads_conf_def by (meson list.set_intros(1))
  show ?case
  proof (cases "cs = []")
    case True
    obtain s where s: "finished c ((p, ds) # ps) L ?j s"
      "reads i (conf_text c @ b # rest) (st new_option [] ((p, ds) # ps) nul 0 L i) = reads ?j (b # rest) s"
      using r[of "b # rest"] by auto
    have "reads ?j (b # rest) s = closed ?j rest p (ds @ [conf_option c]) ps L"
      using read_close[OF s(1) assms(5,6)] Cons.prems True by auto
    then show ?thesis using s True by simp
  next
    case False
    let ?rest = "CHR '','' # confs_text cs @ b # rest"
    obtain s where s: "finished c ((p, ds) # ps) L ?j s"
      "reads i (conf_text c @ ?rest) (st new_option [] ((p, ds) # ps) nul 0 L i) = reads ?j ?rest s"
      using r[of ?rest] by auto
    have "reads ?j ?rest s = reads (?j + 1) (confs_text cs @ b # rest)
        (st new_option [] ((p, ds @ [conf_option c]) # ps) nul 0 L (?j + 1))"
      using read_comma[OF s(1)] assms(5) by simp
    also have "\<dots> = closed (?j + 1 + length (confs_text cs)) rest p ((ds @ [conf_option c]) @ map conf_option cs) ps L"
      using Cons.prems False by (intro Cons.IH) auto
    finally show ?thesis using s(2) False by (simp add: add.assoc)
  qed
qed simp

text \<open>A bracket, the children and the closing bracket, for an option at its value.\<close>

definition opened :: "bool \<Rightarrow> opt_data \<Rightarrow> opt_data" where
  "opened arr d =
     (if arr then d\<lparr>chars := (chars d)[32 := Some (CHR ''[''), 33 := Some nul], otype := AOption_Array\<rparr>
      else d\<lparr>otype := AOption_Object\<rparr>)"

definition brackets :: "bool \<Rightarrow> string \<Rightarrow> string" where
  "brackets arr s = (if arr then CHR ''['' # s @ '']'' else CHR ''{'' # s @ ''}'')"

lemma reads_brackets:
  assumes "\<And>c. c \<in> set cs \<Longrightarrow> reads_conf arr c \<and> conf_ok arr c" and "cs \<noteq> [] \<longrightarrow> last cs \<noteq> Plain []"
    and "length (chars d) = 176" and "chars d ! 32 = Some nul" and "0 \<le> L"
  shows "reads i (brackets arr (confs_text cs) @ rest) (st d [] ps nul k L i) =
    closed (i + 1 + length (confs_text cs)) rest (opened arr d) (map conf_option cs) ps (L + 1)"
proof -
  let ?a = "if arr then CHR ''['' else CHR ''{''" and ?b = "if arr then CHR '']'' else CHR ''}''"
  have "reads i (brackets arr (confs_text cs) @ rest) (st d [] ps nul k L i) =
      reads i (?a # confs_text cs @ ?b # rest) (st d [] ps nul k L i)" by (simp add: brackets_def)
  also have "\<dots> = reads (i + 1) (confs_text cs @ ?b # rest) (st new_option [] ((opened arr d, []) # ps) nul 0 (L + 1) (i + 1))"
    using read_open[OF assms(3,4), of ?a] by (simp add: opened_def)
  also have "\<dots> = closed (i + 1 + length (confs_text cs)) rest (opened arr d) (map conf_option cs) ps (L + 1)"
  proof (cases "cs = []")
    case True
    then show ?thesis using read_close_empty[of "L + 1" ?b] assms(5) by simp
  next
    case False
    have "otype (opened arr d) = AOption_Array" if arr using that by (simp add: opened_def)
    then show ?thesis
      using reads_children[of cs arr "opened arr d" "L + 1" ?b "i + 1" rest "[]" ps] assms False by auto
  qed
  finally show ?thesis .
qed

text \<open>An array or an object, as \<open>arr\<close> says.\<close>

definition container :: "bool \<Rightarrow> string \<Rightarrow> conf list \<Rightarrow> conf" where
  "container arr k cs = (if arr then Arr k cs else Obj k cs)"

lemma container_simps:
  "conf_text (container arr k cs) = tag_text k @ brackets arr (confs_text cs)"
  "conf_option (container arr k cs) = AOption (conf_data (container arr k cs)) (map conf_option cs)"
  "conf_data (container arr k cs) = opened arr (mk_option k (named k) 0 AOption_Any)"
  by (simp_all add: container_def conf_text_def tag_text_def brackets_def confs_text_def opened_def
      mk_option_def put.simps)

lemma container_ok:
  assumes "conf_ok b (container arr k cs)"
  shows "clean k" and "length k \<le> 31" and "\<And>c. c \<in> set cs \<Longrightarrow> conf_ok arr c" and "cs \<noteq> [] \<longrightarrow> last cs \<noteq> Plain []"
proof -
  show "clean k" "length k \<le> 31" "\<And>c. c \<in> set cs \<Longrightarrow> conf_ok arr c"
    using assms by (auto simp: container_def list_all_iff split: if_splits)
  then show "cs \<noteq> [] \<longrightarrow> last cs \<noteq> Plain []"
    using assms last_in_set[of cs] by (cases arr) (force simp: container_def)+
qed

lemma read_container:
  assumes "conf_ok b (container arr k cs)" and "\<And>c. c \<in> set cs \<Longrightarrow> reads_conf arr c" and "0 \<le> L"
  shows "reads i (conf_text (container arr k cs) @ rest) (st new_option [] ps nul 0 L i) =
    closed (i + length (conf_text (container arr k cs)) - 1) rest (conf_data (container arr k cs))
      (map conf_option cs) ps (L + 1)"
proof -
  note ok = container_ok[OF assms(1)]
  let ?d = "mk_option k (named k) 0 AOption_Any" and ?j = "i + length (tag_text k)"
  obtain ks where "reads i (tag_text k @ brackets arr (confs_text cs) @ rest) (st new_option [] ps nul 0 L i) =
      reads ?j (brackets arr (confs_text cs) @ rest) (st ?d [] ps nul ks L ?j)"
    by (rule read_tag[OF ok(1,2), where rest = "brackets arr (confs_text cs) @ rest" and i = i and ps = ps and L = L])
  also have "\<dots> = closed (?j + 1 + length (confs_text cs)) rest (opened arr ?d) (map conf_option cs) ps (L + 1)"
    by (rule reads_brackets) (use assms ok named_value in auto)
  finally show ?thesis by (simp add: container_simps brackets_def add.assoc)
qed

lemma reads_container:
  assumes "conf_ok b (container arr k cs)" and "\<And>c. c \<in> set cs \<Longrightarrow> reads_conf arr c"
  shows "reads_conf b (container arr k cs)"
proof (rule reads_confI)
  fix i ps L rest
  let ?c = "container arr k cs"
  let ?j = "i + length (conf_text ?c)" and ?s = "\<lambda>j. st (conf_data ?c) (map conf_option cs) ps nul 0 L j"
  assume L: "(1::int) \<le> L"
  have "conf_text ?c \<noteq> []" by (simp add: container_simps brackets_def)
  then have j: "?j - 1 + 1 = ?j" by (cases "conf_text ?c") auto
  have "reads i (conf_text ?c @ rest) (st new_option [] ps nul 0 L i) = reads ?j rest (?s ?j)"
    using read_container[OF assms, of L i rest ps] L j by (simp add: closed_def)
  moreover have "finished ?c ps L ?j (?s ?j)" by (rule finished_now) (simp add: container_simps)
  ultimately show "\<exists>t j s. conf_text ?c = t \<and> i + length t = j \<and> finished ?c ps L j s \<and>
      reads i (t @ rest) (st new_option [] ps nul 0 L i) = reads j rest s" by blast
qed

lemma reads_all: "conf_ok arr c \<Longrightarrow> reads_conf arr c"
proof (induction c arbitrary: arr)
  case (Obj k cs)
  then have "\<And>c. c \<in> set cs \<Longrightarrow> reads_conf False c" by (simp add: list_all_iff)
  then show ?case using reads_container[of arr False k cs] Obj(2) by (simp add: container_def)
next
  case (Arr k cs)
  then have "\<And>c. c \<in> set cs \<Longrightarrow> reads_conf True c" by (simp add: list_all_iff)
  then show ?case using reads_container[of arr True k cs] Arr(2) by (simp add: container_def)
qed (simp_all only: reads_Plain reads_Str reads_Word)

section \<open>The round trip\<close>

lemma decode_container:
  assumes "conf_ok b (container arr k cs)"
  shows "AOptionDecode True everything (conf_text (container arr k cs) @ rest) =
    Some (int (length (conf_text (container arr k cs))), Some (conf_option (container arr k cs)))"
proof -
  let ?c = "container arr k cs"
  have "decoder_init new_option = st new_option [] [] nul 0 0 0" by (simp add: decoder_init_def st_def)
  then have "AOptionDecode True everything (conf_text ?c @ rest) =
      closed (length (conf_text ?c) - 1) rest (conf_data ?c) (map conf_option cs) [] 1"
    using read_container[OF assms, of 0 0 rest "[]"] reads_all container_ok(3)[OF assms]
    by (simp add: AOptionDecode_def AOptionCreate_unnamed)
  moreover have "conf_text ?c \<noteq> []" by (simp add: container_simps brackets_def)
  then have "int (length (conf_text ?c) - 1) + 1 = int (length (conf_text ?c))" by (cases "conf_text ?c") auto
  ultimately show ?thesis by (simp add: closed_def container_simps(2))
qed

lemma run_chunks_buf:
  "run_chunks (write_buf (\<lambda>_ _. True)) ss (buf, n) = Some (Inr (buf @ concat ss, n + int (length (concat ss))))"
proof (induction ss arbitrary: buf n)
  case (Cons s ss)
  then show ?case by (simp add: and_then_def write_sn_def write_buf_def)
qed (simp add: nothing_def)

lemma rewritten_key [simp]: "key (rewritten c) = key c"
  by (cases c) auto

lemma rewritten_ok: "conf_ok arr c \<Longrightarrow> conf_ok arr (rewritten c)"
proof (induction c arbitrary: arr)
  case (Obj k cs)
  have "conf_ok False (rewritten c)" if "c \<in> set cs" for c
    using Obj(1)[OF that, of False] Obj(2) that by (simp add: list_all_iff)
  then show ?case using Obj(2) by (simp add: list_all_iff)
next
  case (Arr k cs)
  have "rewritten c \<noteq> Plain []" if "c \<noteq> Plain []" for c using that by (cases c) auto
  moreover have "conf_ok True (rewritten c)" if "c \<in> set cs" for c
    using Arr(1)[OF that, of True] Arr(2) that by (simp add: list_all_iff)
  ultimately show ?case using Arr(2) by (simp add: list_all_iff last_map)
next
  case (Word k v)
  then show ?case by simp
qed simp_all

text \<open>Writing gives the text of a configuration that is written as it is: rewriting once is enough.\<close>

lemma rewritten_twice: "conf_ok arr c \<Longrightarrow> rewritten (rewritten c) = rewritten c"
proof (induction c arbitrary: arr)
  case (Word k v)
  then have "v \<noteq> []" "hd v \<noteq> CHR ''[''" using hd_in_set[of v] by (auto simp: bare_def)
  then show ?case by simp
next
  case (Obj k cs)
  have "rewritten (rewritten c) = rewritten c" if "c \<in> set cs" for c
    using Obj(1)[OF that, of False] Obj(2) that by (simp add: list_all_iff)
  then show ?case by simp
next
  case (Arr k cs)
  have "rewritten (rewritten c) = rewritten c" if "c \<in> set cs" for c
    using Arr(1)[OF that, of True] Arr(2) that by (simp add: list_all_iff)
  then show ?case by simp
qed simp_all

text \<open>
  C6: reading and writing agree.  For the text of an object or an array of names, strings, words, objects and
  arrays (whose strings fit and have no quote or backslash), \<^verbatim>\<open>AOptionDecode\<close>, whatever follows the text, returns its
  length and the options that stand for it, cell by cell.  If no string is empty, \<^verbatim>\<open>AOptionEncode2\<close> of these
  options gives the text of the rewritten configuration, and reading this gives its options again, which no
  further writing changes; so what is not changed by rewriting comes back as it was.
\<close>

theorem option_roundtrip:
  assumes "conf_ok arr c" and "c = Obj k cs \<or> c = Arr k cs" and "values_given c"
  shows "AOptionDecode True (\<lambda>_. True) (conf_text c @ rest) = Some (int (length (conf_text c)), Some (conf_option c)) \<and>
    AOptionEncode2 ext (\<lambda>_ _. True) None (conf_option c) = Some (Some (conf_text (rewritten c))) \<and>
    AOptionDecode True (\<lambda>_. True) (conf_text (rewritten c) @ rest) =
      Some (int (length (conf_text (rewritten c))), Some (conf_option (rewritten c))) \<and>
    rewritten (rewritten c) = rewritten c"
proof (intro conjI)
  have decode: "AOptionDecode True (\<lambda>_. True) (conf_text c @ rest) = Some (int (length (conf_text c)), Some (conf_option c))"
    if "conf_ok arr c" "c = Obj k cs \<or> c = Arr k cs" for c cs
    using decode_container[of arr "\<exists>k cs. c = Arr k cs" k cs rest] that by (auto simp: container_def)
  show "AOptionDecode True (\<lambda>_. True) (conf_text c @ rest) = Some (int (length (conf_text c)), Some (conf_option c))"
    by (rule decode[OF assms(1,2)])
  show "AOptionDecode True (\<lambda>_. True) (conf_text (rewritten c) @ rest) =
      Some (int (length (conf_text (rewritten c))), Some (conf_option (rewritten c)))"
    by (rule decode[OF rewritten_ok[OF assms(1)], of "map rewritten cs"]) (use assms(2) in auto)
  have "encode_tree ext (write_buf (\<lambda>_ _. True)) None (conf_option c) ([], 0) =
      Some (Inr (conf_text (rewritten c), int (length (conf_text (rewritten c)))))"
    using encode_conf[OF assms(1,3), where par = None and ext = ext and write_cb = "write_buf (\<lambda>_ _. True)"]
    by (simp add: run_chunks_buf conf_text_def)
  then show "AOptionEncode2 ext (\<lambda>_ _. True) None (conf_option c) = Some (Some (conf_text (rewritten c)))"
    by (simp add: AOptionEncode2_def AOptionEncode_tree)
  show "rewritten (rewritten c) = rewritten c" by (rule rewritten_twice[OF assms(1)])
qed

definition conf_example :: conf where
  "conf_example = Obj [] [Str ''name'' ''web'', Word ''port'' ''80'', Word ''on'' ''true'',
     Arr ''peers'' [Plain ''a'', Obj [] [Word ''w'' ''+2'']]]"

theorem option_roundtrip_witness:
  "AOptionDecode True (\<lambda>_. True) (conf_text conf_example @ '' x'') = Some (57, Some (conf_option conf_example)) \<and>
   AOptionEncode2 (\<lambda>_. None) (\<lambda>_ _. True) None (conf_option conf_example) =
     Some (Some (conf_text (rewritten conf_example)))"
proof -
  have "conf_ok False conf_example" "values_given conf_example" "length (conf_text conf_example) = 57"
    by (code_simp, code_simp, code_simp)
  then show ?thesis
    using option_roundtrip[of False conf_example "[]" "[Str ''name'' ''web'', Word ''port'' ''80'', Word ''on'' ''true'',
     Arr ''peers'' [Plain ''a'', Obj [] [Word ''w'' ''+2'']]]" "'' x''" "\<lambda>_. None"]
    by (simp add: conf_example_def)
qed

text \<open>
  C40: an empty string is read, but writing it has undefined behaviour: \<^verbatim>\<open>AOptionEncode\<close> tests the cell before the
  value for a quote, the last cell of the name's array, which is not written when the name is shorter.
\<close>

theorem option_empty_value:
  assumes "k \<noteq> []" and "clean k" and "length k < 31"
  shows "AOptionDecode True (\<lambda>_. True) (conf_text (Obj [] [Str k []])) =
      Some (int (length k) + 7, Some (conf_option (Obj [] [Str k []]))) \<and>
    AOptionEncode2 ext (\<lambda>_ _. True) None (conf_option (Obj [] [Str k []])) = None"
proof
  have ok: "conf_ok False (Obj [] [Str k []])" "conf_ok False (Str k [])" using assms by (auto simp: clean_def)
  have "length (conf_text (Obj [] [Str k []])) = length k + 7"
    using assms by (simp add: conf_text_def tag_chunks_def quoted_def)
  then show "AOptionDecode True (\<lambda>_. True) (conf_text (Obj [] [Str k []])) =
      Some (int (length k) + 7, Some (conf_option (Obj [] [Str k []])))"
    using decode_container[of False False "[]" "[Str k []]" "[]"] ok(1) by (simp add: container_def)
  let ?cb = "write_buf (\<lambda>_ _. True)" and ?d = "conf_data (Str k [])" and ?p = "conf_data (Obj [] [Str k []])"
  have "peek (chars ?d) 31 = None"
    using assms by (simp add: peek_def named_def nth_put new_option_def fresh_def)
  then have "write_sc ?cb ?d 31 dquote w = None" for w by (simp add: write_sc_def)
  moreover have "write_sn ?cb s w = Some (Inr (fst w @ s, snd w + int (length s)))" for s w
    by (cases w) (simp add: write_sn_def write_buf_def)
  moreover have "option_value ?d = Some []"
    using put_string[of "[]" "named k"] by (simp add: option_value_def NAME_SIZE_def)
  moreover have "peek (chars ?d) 32 = Some nul" using conf_first_value[OF ok(2)] by (simp add: value_at_def NAME_SIZE_def)
  ultimately have v: "encode_value ext ?cb ?d w = None" for w
    by (simp add: encode_value_def and_then_def write_sc_def NAME_SIZE_def dquote_def isdigit_def)
  have "name_only (Some ?p) ?d [] = Some False" "is_array ?d = Some False"
    using conf_first_value[OF ok(2)] by (simp_all add: name_only_def is_array_def)
  then have "encode_tree ext ?cb (Some ?p) (conf_option (Str k [])) w = None" for w
    using encode_head_full[OF ok(2), where write_cb = ?cb] v
    by (cases w) (simp add: encode_content_def and_then_def run_chunks_buf)
  moreover have "name_only None ?p [conf_option (Str k [])] = Some False" "is_array ?p = Some False"
    using conf_first_value[OF ok(1)] by (simp_all add: name_only_def is_array_def)
  ultimately have "encode_tree ext ?cb None (conf_option (Obj [] [Str k []])) ([], 0) = None"
    using encode_head_full[OF ok(1), where write_cb = ?cb]
    by (simp add: encode_content_def and_then_def run_chunks_buf write_sn_def write_buf_def nothing_def del: conf_data.simps)
  then show "AOptionEncode2 ext (\<lambda>_ _. True) None (conf_option (Obj [] [Str k []])) = None"
    by (simp add: AOptionEncode2_def AOptionEncode_tree)
qed

theorem option_empty_value_witness:
  "AOptionDecode True (\<lambda>_. True) (conf_text (Obj [] [Str ''path'' []])) =
     Some (11, Some (conf_option (Obj [] [Str ''path'' []]))) \<and>
   AOptionEncode2 (\<lambda>_. None) (\<lambda>_ _. True) None (conf_option (Obj [] [Str ''path'' []])) = None"
proof -
  have "clean ''path''" by code_simp
  then show ?thesis using option_empty_value[of "''path''" "\<lambda>_. None"] by simp
qed

end
