(* ===== verification/Option_Clone.thy ===== *)
theory Option_Clone
  imports Option_Trip
begin

text \<open>
  Looking up and cloning options: on every tree the reader builds, looking up a child finds the first one of that
  name, and the clone of a tree has the same names, cut to the size of the member, and the same values.
\<close>

section \<open>Copies of strings\<close>

lemma c_string_map: "nul \<notin> set s \<Longrightarrow> c_string (map Some s @ Some nul # r) = Some s"
  by (induction s) auto

lemma c_string_no_nul: "c_string m = Some s \<Longrightarrow> nul \<notin> set s"
  by (induction m arbitrary: s rule: c_string.induct) (auto split: if_splits)

lemma c_string_length: "c_string m = Some s \<Longrightarrow> length s < length m"
  by (induction m arbitrary: s rule: c_string.induct) (auto split: if_splits)

lemma strcpy_sz_at:
  assumes "dest = length p" and "0 < n" and "n \<le> length r" and "n \<le> 176"
  shows "strcpy_sz (p @ r) dest n (Some s) =
    Some (p @ map Some (take (n - 1) s @ replicate (n - 1 - length s) nul) @ Some nul # drop n r)"
proof -
  let ?c = "map Some (take (n - 1) s @ replicate (n - 1 - length s) nul)"
  have len: "length ?c = n - 1" by simp
  have "drop (n - 1) r = r ! (n - 1) # drop n r"
    using assms(2,3) by (metis Cons_nth_drop_Suc Suc_diff_1 Suc_le_eq)
  moreover have "copy_in (p @ r) dest ?c = Some (p @ ?c @ drop (n - 1) r)"
    using copy_in_at[OF assms(1), of ?c r] assms(2,3) len by simp
  moreover have "poke (p @ ?c @ r ! (n - 1) # drop n r) (dest + (n - 1)) nul = Some (p @ ?c @ Some nul # drop n r)"
    using poke_at[of "dest + (n - 1)" "p @ ?c" "r ! (n - 1)" "drop n r" nul] assms(1) len by simp
  moreover have "n - Suc 0 < 4294967295" using assms(4) by arith
  ultimately show ?thesis
    by (simp add: strcpy_sz_def strncpy_sz_def INFINITE_def del: map_append)
qed

section \<open>Clones\<close>

text \<open>What is the same in an option and its clone.\<close>

definition same_option :: "opt_data \<Rightarrow> opt_data \<Rightarrow> bool" where
  "same_option d d' = (option_name d' = map_option (take 31) (option_name d) \<and> option_value d' = option_value d \<and>
     name_len d' = name_len d \<and> value_len d' = value_len d \<and> otype d' = otype d \<and> value_i64 d' = value_i64 d)"

fun same_tree :: "(opt_data \<Rightarrow> opt_data \<Rightarrow> bool) \<Rightarrow> aoption \<Rightarrow> aoption \<Rightarrow> bool" where
  "same_tree R (AOption d cs) (AOption d' cs') = (R d d' \<and> list_all2 (same_tree R) cs cs')"

lemma clone_data_same:
  assumes "option_ok d" and "length (chars c) = 176"
  obtains d' where "clone_data c d = Some d'" "same_option d d'"
proof -
  obtain n v where n: "option_name d = Some n" and v: "option_value d = Some v"
    using quiet_strings[of d] assms(1) by (auto simp: option_ok_def)
  have nul: "nul \<notin> set n" "nul \<notin> set v"
    using n v c_string_no_nul by (auto simp: option_name_def option_value_def)
  have "length v < 144"
    using v c_string_length[of "drop 32 (chars d)" v] assms(1)
    by (auto simp: option_value_def NAME_SIZE_def option_ok_def cells_ok_def)
  then have vt: "take 143 v = v" by simp
  let ?n = "map Some (take 31 n @ replicate (31 - length n) nul)"
  let ?v = "map Some (v @ replicate (143 - length v) nul)"
  have m1: "strcpy_sz (chars c) 0 32 (Some n) = Some (?n @ Some nul # drop 32 (chars c))"
    using strcpy_sz_at[of 0 "[]" 32 "chars c" n] assms(2) by simp
  have m2: "strcpy_sz (?n @ Some nul # drop 32 (chars c)) 32 144 (Some v) =
      Some ((?n @ [Some nul]) @ ?v @ [Some nul])"
    using strcpy_sz_at[of 32 "?n @ [Some nul]" 144 "drop 32 (chars c)" v] assms(2) vt by simp
  define d' where "d' = \<lparr>chars = (?n @ [Some nul]) @ ?v @ [Some nul], name_len = name_len d,
    value_len = value_len d, otype = otype d, value_i64 = value_i64 d\<rparr>"
  have c: "clone_data c d = Some d'"
    using n v m1 m2 by (simp add: clone_data_def option_sizes d'_def del: map_append)
  have "c_string (map Some (s @ replicate k nul) @ Some nul # r) = Some s" if "nul \<notin> set s" for s k r
    using c_string_map[OF that] by (cases k) auto
  moreover have "length (?n @ [Some nul]) = 32" by (simp add: min_def)
  then have "drop 32 (chars d') = ?v @ [Some nul]" by (simp add: d'_def del: map_append)
  ultimately have "option_name d' = Some (take 31 n)" "option_value d' = Some v"
    using nul in_set_takeD[of nul 31 n] by (auto simp: option_name_def option_value_def d'_def NAME_SIZE_def simp del: map_append)
  then have "same_option d d'" using n v by (simp add: same_option_def d'_def)
  then show thesis using that c by blast
qed

lemma new_option_length: "length (chars new_option) = 176"
  by (simp add: new_option_def option_block_def)

text \<open>Without memory for one of the options there is no clone.\<close>

definition clone_result :: "(nat list \<Rightarrow> bool) \<Rightarrow> ('a \<Rightarrow> 'a \<Rightarrow> bool) \<Rightarrow> 'a \<Rightarrow> 'a option option \<Rightarrow> bool" where
  "clone_result alloc R t r =
     (case r of
        None \<Rightarrow> False
      | Some None \<Rightarrow> \<exists>p. \<not> alloc p
      | Some (Some t') \<Rightarrow> R t t')"

lemma clone_ok:
  "all_options option_ok t \<Longrightarrow> clone_result alloc (same_tree same_option) t (AOptionClone alloc at t)"
  "list_all (all_options option_ok) cs \<Longrightarrow>
    clone_result alloc (list_all2 (same_tree same_option)) cs (clone_children alloc at i cs)"
proof (induction alloc at t and alloc at i cs rule: AOptionClone_clone_children.induct)
  case (1 alloc at d cs)
  show ?case
  proof (cases "alloc at")
    case True
    have "option_ok d" using 1(2) by simp
    then obtain d' where d: "clone_data new_option d = Some d'" "same_option d d'"
      using clone_data_same new_option_length by blast
    have "clone_result alloc (list_all2 (same_tree same_option)) cs (clone_children alloc at 0 cs)"
      using 1 True d by (simp add: AOptionCreate_unnamed)
    then show ?thesis using True d
      by (auto simp: clone_result_def AOptionCreate_unnamed split: option.splits)
  next
    case False
    then show ?thesis by (auto simp: clone_result_def AOptionCreate_unnamed)
  qed
next
  case (2 alloc at i)
  then show ?case by (simp add: clone_result_def)
next
  case (3 alloc at i c cs)
  have c: "clone_result alloc (same_tree same_option) c (AOptionClone alloc (at @ [i]) c)" using 3 by simp
  show ?case
  proof (cases "AOptionClone alloc (at @ [i]) c")
    case None
    then show ?thesis using c by (simp add: clone_result_def)
  next
    case (Some r)
    show ?thesis
    proof (cases r)
      case None
      then show ?thesis using c Some by (auto simp: clone_result_def)
    next
      case (Some c')
      have "clone_result alloc (list_all2 (same_tree same_option)) cs (clone_children alloc at (Suc i) cs)"
        using 3 Some \<open>AOptionClone alloc (at @ [i]) c = Some r\<close> by simp
      then show ?thesis using c Some \<open>AOptionClone alloc (at @ [i]) c = Some r\<close>
        by (auto simp: clone_result_def split: option.splits)
    qed
  qed
qed

section \<open>Looking up\<close>

lemma find_child_first:
  assumes "\<And>c. c \<in> set cs \<Longrightarrow> p (odata c) = Some (q c)"
  shows "find_child p cs = Some (find q cs)"
  using assms by (induction cs) auto

lemma all_options_child: "all_options P t \<Longrightarrow> c \<in> set (kids t) \<Longrightarrow> P (odata c)"
  by (cases t; cases c) (auto simp: list_all_iff)

lemma AOptionFind_first:
  assumes "all_options option_ok t"
  shows "AOptionFind (Some t) name =
    Some (find (\<lambda>c. same_name (the (option_name (odata c))) name) (kids t))"
proof -
  have "map_option (\<lambda>n. same_name n name) (option_name (odata c)) = Some (same_name (the (option_name (odata c))) name)"
    if "c \<in> set (kids t)" for c
    using all_options_child[OF assms that] quiet_strings[of "odata c"] by (auto simp: option_ok_def)
  then show ?thesis by (simp add: AOptionFind_def find_child_first)
qed

text \<open>
  C39: for every tree that \<^verbatim>\<open>AOptionDecode\<close> returns, \<^verbatim>\<open>AOptionClone\<close> returns a tree of the same shape in which
  every option has the value, the lengths and the type of its original and the first 31 characters of its name, or
  \<^verbatim>\<open>NULL\<close> when an allocation failed; and \<^verbatim>\<open>AOptionFind\<close> returns the first child whose name is the one
  asked for up to case, or \<^verbatim>\<open>NULL\<close> when there is none.
\<close>

theorem option_clone_and_find:
  assumes "AOptionDecode alloc_root alloc cs = Some (n, Some t)"
  shows "(case AOptionClone alloc' [] t of
      None \<Rightarrow> False
    | Some None \<Rightarrow> \<exists>p. \<not> alloc' p
    | Some (Some t') \<Rightarrow> same_tree same_option t t') \<and>
    AOptionFind (Some t) name = Some (find (\<lambda>c. same_name (the (option_name (odata c))) name) (kids t))"
proof
  note ok = AOptionDecode_ok[OF assms]
  show "case AOptionClone alloc' [] t of None \<Rightarrow> False | Some None \<Rightarrow> \<exists>p. \<not> alloc' p
      | Some (Some t') \<Rightarrow> same_tree same_option t t'"
    using clone_ok(1)[OF ok, of alloc' "[]"] by (simp add: clone_result_def)
  show "AOptionFind (Some t) name = Some (find (\<lambda>c. same_name (the (option_name (odata c))) name) (kids t))"
    by (rule AOptionFind_first[OF ok])
qed

theorem option_clone_and_find_witness:
  "AOptionFind (Some (conf_option (Obj [] [Word ''On'' ''1'', Word ''Port'' ''80'']))) ''port'' =
     Some (Some (conf_option (Word ''Port'' ''80''))) \<and>
   (case AOptionClone (\<lambda>_. True) [] (conf_option (Obj [] [Word ''On'' ''1'', Word ''Port'' ''80''])) of
      Some (Some t) \<Rightarrow> length (kids t) = 2
    | _ \<Rightarrow> False)"
proof -
  let ?c = "Obj [] [Word ''On'' ''1'', Word ''Port'' ''80'']"
  have "conf_ok False ?c" by code_simp
  then have d: "AOptionDecode True everything (conf_text ?c @ []) = Some (int (length (conf_text ?c)), Some (conf_option ?c))"
    using decode_container[of False False "[]" "[Word ''On'' ''1'', Word ''Port'' ''80'']" "[]"]
    by (simp add: container_def)
  have n: "option_name (conf_data (Word k v)) = Some k" if "nul \<notin> set k" "length k \<le> 31" for k v
    using named_put_string[OF that] by (simp add: option_name_def)
  have "\<not> same_name ''On'' ''port''" "same_name ''Port'' ''port''" by (code_simp, code_simp)
  then have "find (\<lambda>c. same_name (the (option_name (odata c))) ''port'') (kids (conf_option ?c)) =
      Some (conf_option (Word ''Port'' ''80''))"
    using n[of "''On''"] n[of "''Port''"] by (simp del: conf_data.simps)
  moreover have "length (kids t) = 2" if "same_tree same_option (conf_option ?c) t" for t
    using that by (cases t) (auto dest: list_all2_lengthD)
  ultimately show ?thesis
    using option_clone_and_find[OF d, of "\<lambda>_. True" "''port''"] by (simp split: option.splits)
qed

end
