(* ===== verification/Slice.thy ===== *)
theory Slice
  imports Prelude
begin

text \<open>
  Reference-counted buffers (\<^verbatim>\<open>ASlice\<close> of \<^verbatim>\<open>base/buf_util.h\<close>, and \<^verbatim>\<open>ARefsBuf\<close>, its instance for characters): an
  array with a window from \<^verbatim>\<open>_bgn\<close> to \<^verbatim>\<open>_end\<close> that holds the items, space after it to add more, and space
  before it where items were taken out.
\<close>

section \<open>Operations\<close>

record 'a slice =
  refs :: int
  slice_size :: int
  bgn :: int
  fin :: int
  cells :: "'a option list"

definition slice_init :: "int \<Rightarrow> 'a option list \<Rightarrow> 'a slice" where
  "slice_init count m = \<lparr>refs = 1, slice_size = count, bgn = 0, fin = 0, cells = m\<rparr>"

definition slice_create :: "bool \<Rightarrow> int \<Rightarrow> 'a slice option" where
  "slice_create alloc count = (if alloc then Some (slice_init count (fresh (nat count))) else None)"

definition slice_addref :: "'a slice \<Rightarrow> 'a slice" where
  "slice_addref s = s\<lparr>refs := refs s + 1\<rparr>"

text \<open>The slice is freed when the count returned is not positive.\<close>

definition slice_release :: "'a slice \<Rightarrow> int \<times> 'a slice" where
  "slice_release s = (refs s - 1, s\<lparr>refs := refs s - 1\<rparr>)"

definition slice_reset :: "'a slice \<Rightarrow> 'a slice" where
  "slice_reset s = s\<lparr>bgn := 0, fin := 0\<rparr>"

definition slice_len :: "'a slice \<Rightarrow> int" where "slice_len s = fin s - bgn s"
definition slice_caps :: "'a slice \<Rightarrow> int" where "slice_caps s = slice_size s - bgn s"
definition slice_left :: "'a slice \<Rightarrow> int" where "slice_left s = slice_size s - fin s"

definition slice_pop :: "int \<Rightarrow> 'a slice \<Rightarrow> 'a slice" where
  "slice_pop n s = s\<lparr>bgn := bgn s + n\<rparr>"

definition slice_push :: "int \<Rightarrow> 'a slice \<Rightarrow> 'a slice" where
  "slice_push n s = s\<lparr>fin := fin s + n\<rparr>"

text \<open>\<open>slice_at s i\<close> is \<^verbatim>\<open>_data[i]\<close>; \<open>None\<close> outside of the array and where nothing was stored.\<close>

definition slice_at :: "'a slice \<Rightarrow> int \<Rightarrow> 'a option" where
  "slice_at s i = (if i < 0 then None else peek (cells s) (nat i))"

definition slice_mempush :: "'a option list \<Rightarrow> 'a slice \<Rightarrow> 'a slice option" where
  "slice_mempush src s =
     (if fin s < 0 then None
      else do {
        m \<leftarrow> copy_in (cells s) (nat (fin s)) src;
        Some (slice_push (int (length src)) (s\<lparr>cells := m\<rparr>))
      })"

text \<open>The cells from \<^verbatim>\<open>ptr()\<close> on, as many as \<^verbatim>\<open>len()\<close>.\<close>

definition slice_window :: "'a slice \<Rightarrow> 'a option list option" where
  "slice_window s =
     (if bgn s < 0 \<or> slice_len s < 0 then None
      else copy_out (cells s) (nat (bgn s)) (nat (slice_len s)))"

definition slice_rewind :: "'a slice \<Rightarrow> 'a slice option" where
  "slice_rewind s = do {
     w \<leftarrow> slice_window s;
     m \<leftarrow> copy_in (cells s) 0 w;
     Some (s\<lparr>cells := m, fin := slice_len s, bgn := 0\<rparr>)
   }"

text \<open>
  \<^verbatim>\<open>reserve(slice, need, whole)\<close>: the result, the slice the reference then points to, and the old slice when it was replaced
  and its reference given up.
\<close>

definition slice_reserve ::
    "bool \<Rightarrow> 'a slice option \<Rightarrow> int \<Rightarrow> int \<Rightarrow> (int \<times> 'a slice option \<times> 'a slice option) option" where
  "slice_reserve alloc sl need whole =
     (case sl of
        None \<Rightarrow>
          (case slice_create alloc (max need whole) of
             None \<Rightarrow> Some (- ENOMEM, None, None)
           | Some s \<Rightarrow> Some (1, Some s, None))
      | Some s \<Rightarrow>
          if slice_left s \<ge> need then Some (0, Some s, None)
          else case slice_create alloc (max (slice_len s + need) whole) of
            None \<Rightarrow> Some (- ENOMEM, Some s, None)
          | Some s2 \<Rightarrow> do {
              w \<leftarrow> slice_window s;
              s2 \<leftarrow> slice_mempush w s2;
              Some (1, Some s2, Some (snd (slice_release s)))
            })"

section \<open>Contents\<close>

definition slice_ok :: "'a slice \<Rightarrow> bool" where
  "slice_ok s = (0 \<le> bgn s \<and> bgn s \<le> fin s \<and> fin s \<le> slice_size s \<and> int (length (cells s)) = slice_size s \<and>
     (\<forall>i. bgn s \<le> int i \<and> int i < fin s \<longrightarrow> cells s ! i \<noteq> None))"

definition slice_items :: "'a slice \<Rightarrow> 'a list" where
  "slice_items s = map the (take (nat (slice_len s)) (drop (nat (bgn s)) (cells s)))"

lemma slice_bounds:
  assumes "slice_ok s"
  shows "0 \<le> slice_len s" and "0 \<le> slice_left s" and "nat (bgn s) + nat (slice_len s) = nat (fin s)"
    and "nat (fin s) \<le> length (cells s)"
  using assms by (auto simp: slice_ok_def slice_len_def slice_left_def)

lemma length_slice_items [simp]: "slice_ok s \<Longrightarrow> length (slice_items s) = nat (slice_len s)"
  using slice_bounds[of s] by (simp add: slice_items_def)

lemma slice_items_cells:
  assumes "slice_ok s"
  shows "map Some (slice_items s) = take (nat (slice_len s)) (drop (nat (bgn s)) (cells s))"
proof (rule nth_equalityI)
  show "length (map Some (slice_items s)) = length (take (nat (slice_len s)) (drop (nat (bgn s)) (cells s)))"
    using slice_bounds[OF assms] by (simp add: slice_items_def)
next
  fix i assume "i < length (map Some (slice_items s))"
  then have i: "i < nat (slice_len s)" using assms by simp
  then have "cells s ! (nat (bgn s) + i) \<noteq> None"
    using assms by (auto simp: slice_ok_def slice_len_def)
  then show "map Some (slice_items s) ! i = take (nat (slice_len s)) (drop (nat (bgn s)) (cells s)) ! i"
    using i slice_bounds[OF assms] by (simp add: slice_items_def)
qed

lemma slice_window_items:
  assumes "slice_ok s"
  shows "slice_window s = Some (map Some (slice_items s))"
proof -
  have "nat (slice_len s) = 0 \<Longrightarrow> map Some (slice_items s) = []" using slice_items_cells[OF assms] by simp
  then show ?thesis
    using assms slice_bounds[OF assms] slice_items_cells[OF assms]
    by (auto simp: slice_window_def copy_out_def slice_ok_def slice_len_def)
qed

lemma slice_front:
  assumes "slice_ok s" and "slice_items s = x # xs"
  shows "slice_at s (bgn s) = Some x"
proof -
  have "0 < nat (slice_len s)" using assms by (metis length_slice_items length_greater_0_conv list.distinct(1))
  moreover have "map Some (slice_items s) ! 0 = Some x" using assms(2) by simp
  ultimately show ?thesis
    using assms(1) slice_bounds[OF assms(1)] slice_items_cells[OF assms(1)]
    by (simp add: slice_at_def peek_def slice_ok_def)
qed

lemma slice_pop_items:
  assumes "slice_ok s" and "0 \<le> n" and "n \<le> slice_len s"
  shows "slice_ok (slice_pop n s)" and "slice_items (slice_pop n s) = drop (nat n) (slice_items s)"
    and "slice_len (slice_pop n s) = slice_len s - n" and "slice_left (slice_pop n s) = slice_left s"
proof -
  show "slice_ok (slice_pop n s)" using assms by (auto simp: slice_ok_def slice_pop_def slice_len_def)
  have "nat (bgn s + n) = nat n + nat (bgn s)" "nat (fin s - (bgn s + n)) = nat (fin s - bgn s) - nat n"
    using assms by (auto simp: slice_ok_def)
  then show "slice_items (slice_pop n s) = drop (nat n) (slice_items s)"
    by (simp add: slice_items_def slice_pop_def slice_len_def drop_map drop_take)
qed (simp_all add: slice_pop_def slice_len_def slice_left_def)

lemma slice_mempush_items:
  assumes "slice_ok s" and "int (length xs) \<le> slice_left s"
  obtains s' where "slice_mempush (map Some xs) s = Some s'" "slice_ok s'" "slice_items s' = slice_items s @ xs"
    "slice_len s' = slice_len s + int (length xs)" "slice_left s' = slice_left s - int (length xs)"
    "refs s' = refs s" "slice_size s' = slice_size s" "bgn s' = bgn s"
proof -
  note b = slice_bounds[OF assms(1)]
  let ?f = "nat (fin s)" and ?n = "length xs"
  have room: "?f + ?n \<le> length (cells s)" using assms by (auto simp: slice_ok_def slice_left_def)
  define m where "m = take ?f (cells s) @ map Some xs @ drop (?f + ?n) (cells s)"
  have len: "length m = length (cells s)" using room by (simp add: m_def)
  have "copy_in (cells s) ?f (map Some xs) = Some m"
    using room by (auto simp: copy_in_def m_def)
  then have push: "slice_mempush (map Some xs) s = Some (slice_push (int ?n) (s\<lparr>cells := m\<rparr>))"
    using assms(1) by (simp add: slice_mempush_def slice_ok_def)
  let ?s = "slice_push (int ?n) (s\<lparr>cells := m\<rparr>)"
  have ok: "slice_ok ?s"
    unfolding slice_ok_def
  proof (intro conjI allI impI)
    fix i assume i: "bgn ?s \<le> int i \<and> int i < fin ?s"
    show "cells ?s ! i \<noteq> None"
    proof (cases "i < ?f")
      case True
      then have "int i < fin s" by simp
      then have "cells s ! i \<noteq> None" using assms(1) i by (auto simp: slice_ok_def slice_push_def)
      then show ?thesis using True room by (simp add: slice_push_def m_def nth_append)
    next
      case False
      then have "i - ?f < ?n" using i assms(1) by (auto simp: slice_push_def slice_ok_def)
      then show ?thesis using False room by (simp add: slice_push_def m_def nth_append)
    qed
  qed (use assms len in \<open>auto simp: slice_ok_def slice_push_def slice_left_def\<close>)
  have "nat (slice_len ?s) = nat (slice_len s) + ?n"
    using b(1) by (simp add: slice_len_def slice_push_def)
  moreover have "nat (fin s) - nat (bgn s) = nat (slice_len s)" using b(3) by arith
  then have "drop (nat (bgn s)) m =
      take (nat (slice_len s)) (drop (nat (bgn s)) (cells s)) @ map Some xs @ drop (?f + ?n) (cells s)"
    using b by (simp add: m_def drop_take drop_append)
  ultimately have "map Some (slice_items ?s) = map Some (slice_items s @ xs)"
    using slice_items_cells[OF ok] slice_items_cells[OF assms(1)] b
    by (simp add: slice_push_def)
  then have "slice_items ?s = slice_items s @ xs" by (rule map_injective) simp
  then show thesis using that[OF push ok] by (simp add: slice_len_def slice_left_def slice_push_def)
qed

lemma slice_create_ok:
  assumes "0 \<le> n" and "s = slice_init n (fresh (nat n))"
  shows "slice_ok s" and "slice_items s = []" and "slice_len s = 0" and "slice_left s = n" and "refs s = 1"
  using assms by (simp_all add: slice_ok_def slice_init_def slice_items_def slice_len_def slice_left_def)

text \<open>
  \<^verbatim>\<open>reserve\<close> of a buffer leaves it as it is with the space after the items, or replaces it by a buffer with the same
  items and the space and gives one reference to the old one up, or returns \<^verbatim>\<open>-ENOMEM\<close> and leaves it as it is.
\<close>

lemma slice_reserve_ok:
  assumes ok: "slice_ok s" and need: "0 \<le> need"
  shows "\<exists>r s' old. slice_reserve alloc (Some s) need whole = Some (r, Some s', old) \<and> slice_ok s' \<and>
    slice_items s' = slice_items s \<and>
    (if r < 0 then r = - ENOMEM \<and> s' = s \<and> old = None \<and> \<not> alloc
     else need \<le> slice_left s' \<and>
       (if r = 0 then s' = s \<and> old = None else old = Some (s\<lparr>refs := refs s - 1\<rparr>) \<and> refs s' = 1))"
proof -
  consider "need \<le> slice_left s" | "\<not> alloc" "\<not> need \<le> slice_left s" | "alloc" "\<not> need \<le> slice_left s" by blast
  then show ?thesis
  proof cases
    case 1
    then show ?thesis using ok by (simp add: slice_reserve_def)
  next
    case 2
    then show ?thesis using ok by (simp add: slice_reserve_def slice_create_def ENOMEM_def)
  next
    case 3
    let ?n = "max (slice_len s + need) whole"
    define s0 :: "'a slice" where "s0 = slice_init ?n (fresh (nat ?n))"
    have "0 \<le> ?n" using slice_bounds(1)[OF ok] need by auto
    note new = slice_create_ok[OF this s0_def]
    have room: "int (length (slice_items s)) \<le> slice_left s0"
      unfolding new(4) using slice_bounds(1)[OF ok] ok need by simp
    obtain t where t: "slice_mempush (map Some (slice_items s)) s0 = Some t" "slice_ok t"
      "slice_items t = slice_items s" "slice_left t = ?n - int (length (slice_items s))" "refs t = 1"
      using slice_mempush_items[OF new(1) room] new(2,4,5) by (metis append_Nil)
    have "need \<le> slice_left t" using t(4) ok slice_bounds(1)[OF ok] by simp
    moreover have "slice_create alloc ?n = Some s0" using 3 by (simp add: slice_create_def s0_def)
    ultimately show ?thesis
      using 3 t by (simp add: slice_reserve_def slice_window_items[OF ok] slice_release_def del: max.absorb1 max.absorb2)
  qed
qed

text \<open>When it succeeds, \<^verbatim>\<open>mempush\<close> of as many items stays inside the array and appends them.\<close>

theorem slice_reserve_mempush:
  assumes ok: "slice_ok s" and n: "int (length ys) = need"
  shows "\<exists>r s' old. slice_reserve alloc (Some s) need whole = Some (r, Some s', old) \<and>
    (if r < 0 then r = - ENOMEM \<and> s' = s \<and> old = None \<and> \<not> alloc
     else slice_items s' = slice_items s \<and> need \<le> slice_left s' \<and>
       (if r = 0 then s' = s \<and> old = None else old = Some (s\<lparr>refs := refs s - 1\<rparr>) \<and> refs s' = 1) \<and>
       (\<exists>t. slice_mempush (map Some ys) s' = Some t \<and> slice_ok t \<and> slice_items t = slice_items s @ ys))"
proof -
  have "0 \<le> need" using n by simp
  then obtain r s' old where r: "slice_reserve alloc (Some s) need whole = Some (r, Some s', old)" "slice_ok s'"
    "slice_items s' = slice_items s" "if r < 0 then r = - ENOMEM \<and> s' = s \<and> old = None \<and> \<not> alloc
     else need \<le> slice_left s' \<and> (if r = 0 then s' = s \<and> old = None else old = Some (s\<lparr>refs := refs s - 1\<rparr>) \<and> refs s' = 1)"
    using slice_reserve_ok[OF ok, of need alloc whole] by auto
  have "\<exists>t. slice_mempush (map Some ys) s' = Some t \<and> slice_ok t \<and> slice_items t = slice_items s @ ys" if "\<not> r < 0"
    using slice_mempush_items[OF r(2), of ys] r(3,4) n that by (auto split: if_splits)
  then show ?thesis using r by (cases "r < 0") auto
qed

theorem slice_reserve_mempush_witness:
  "\<exists>t. slice_mempush [Some 5, Some (7::nat)] (slice_init 4 [Some 1, None, None, None]\<lparr>fin := 1\<rparr>) = Some t \<and>
     slice_items t = [1, 5, 7]"
proof -
  let ?s = "slice_init 4 [Some 1, None, None, None]\<lparr>fin := 1\<rparr> :: nat slice"
  have "slice_ok ?s" by (auto simp: slice_ok_def slice_init_def)
  moreover have "slice_reserve True (Some ?s) 2 0 = Some (0, Some ?s, None)"
    by (simp add: slice_reserve_def slice_left_def slice_init_def)
  moreover have "slice_items ?s = [1]" by (simp add: slice_items_def slice_len_def slice_init_def)
  ultimately show ?thesis using slice_reserve_mempush[of ?s "[5, 7]" 2 True 0] by auto
qed

end
