(* ===== verification/Pool.thy ===== *)
theory Pool
  imports Slice
begin

text \<open>
  Queues of items in chained buffers (\<^verbatim>\<open>APool\<close> of \<^verbatim>\<open>base/buf_util.h\<close>).  The chain is the list of its slices;
  \<^verbatim>\<open>_slice_push\<close>, a pointer to one of them, is given as its position.  A slice of a pool has one
  reference, so releasing it frees it.
\<close>

section \<open>Operations\<close>

record 'a pool =
  slices :: "'a slice list"
  slice_at_push :: "nat option"
  slice_count :: int
  chunk_size :: int
  item_count :: int
  item_left :: int

text \<open>\<open>large\<close>: the items take more than 16 bytes each.\<close>

definition pool_init :: "bool \<Rightarrow> int \<Rightarrow> 'a pool" where
  "pool_init large chunk = \<lparr>slices = [], slice_at_push = None, slice_count = 0,
     chunk_size = (if chunk \<noteq> 0 then chunk else if large then 128 else 512), item_count = 0, item_left = 0\<rparr>"

definition pool_join_slice :: "'a slice \<Rightarrow> 'a pool \<Rightarrow> 'a pool" where
  "pool_join_slice s p =
     p\<lparr>slices := slices p @ [s],
       slice_at_push := (if slice_at_push p = None \<and> slice_left s \<noteq> 0 then Some (length (slices p)) else slice_at_push p),
       slice_count := slice_count p + 1,
       item_count := item_count p + slice_len s,
       item_left := item_left p + slice_left s\<rparr>"

text \<open>All slices of another pool, which is then empty.\<close>

definition pool_join :: "bool \<Rightarrow> 'a pool \<Rightarrow> 'a pool \<Rightarrow> 'a pool \<times> 'a pool" where
  "pool_join large p other = (fold pool_join_slice (slices other) p, pool_init large (chunk_size other))"

text \<open>
  \<open>alloc\<close> says whether the allocation succeeds when there are so many slices; the result of \<^verbatim>\<open>malloc\<close> is not
  tested.
\<close>

partial_function (option) pool_reserve :: "(int \<Rightarrow> bool) \<Rightarrow> int \<Rightarrow> 'a pool \<Rightarrow> 'a pool option" where
  "pool_reserve alloc count p =
     (if count > item_left p
      then case slice_create (alloc (slice_count p)) (chunk_size p) of
          None \<Rightarrow> None
        | Some s \<Rightarrow> pool_reserve alloc count (pool_join_slice s p)
      else Some p)"

text \<open>The first slice from a position on that has space left.\<close>

function next_with_space :: "'a slice list \<Rightarrow> nat \<Rightarrow> nat option" where
  "next_with_space ss k =
     (if k < length ss
      then if slice_left (ss ! k) = 0
           then if Suc k = length ss then None else next_with_space ss (Suc k)
           else Some k
      else None)"
  by pat_completeness auto
termination by (relation "measure (\<lambda>(ss, k). length ss - k)") auto

declare next_with_space.simps [simp del]

definition pool_move_push :: "bool \<Rightarrow> 'a pool \<Rightarrow> 'a pool option" where
  "pool_move_push force p =
     (case slice_at_push p of
        None \<Rightarrow> None
      | Some k \<Rightarrow>
          if k < length (slices p)
          then let s = slices p ! k;
                   p' = (if force then p\<lparr>item_left := item_left p - slice_left s\<rparr> else p)
               in if force \<and> slice_len s = 0
                  then Some (p'\<lparr>slices := take k (slices p) @ drop (Suc k) (slices p), slice_at_push := None\<rparr>)
                  else let p' = (if force then p'\<lparr>slices := (slices p)[k := s\<lparr>slice_size := fin s\<rparr>]\<rparr> else p')
                       in Some (p'\<lparr>slice_at_push := next_with_space (slices p') k\<rparr>)
          else None)"

definition pool_add :: "int \<Rightarrow> 'a pool \<Rightarrow> 'a pool" where
  "pool_add n p = p\<lparr>item_count := item_count p + n, item_left := item_left p - n\<rparr>"

text \<open>\<^verbatim>\<open>push(NULL, count)\<close>: the items were already stored behind \<^verbatim>\<open>next()\<close>.\<close>

definition pool_push_stored :: "int \<Rightarrow> 'a pool \<Rightarrow> 'a pool option" where
  "pool_push_stored count p =
     (case slice_at_push p of
        None \<Rightarrow> None
      | Some k \<Rightarrow>
          if k < length (slices p)
          then map_option (pool_add count)
            (pool_move_push False (p\<lparr>slices := (slices p)[k := slice_push count (slices p ! k)]\<rparr>))
          else None)"

partial_function (option) pool_push_loop :: "'a list \<Rightarrow> 'a pool \<Rightarrow> 'a pool option" where
  "pool_push_loop xs p =
     (if xs = [] then Some p
      else case slice_at_push p of
        None \<Rightarrow> None
      | Some k \<Rightarrow>
          if k < length (slices p)
          then let num = nat (min (int (length xs)) (slice_left (slices p ! k)))
               in case slice_mempush (map Some (take num xs)) (slices p ! k) of
                   None \<Rightarrow> None
                 | Some s \<Rightarrow>
                     (case pool_move_push False (p\<lparr>slices := (slices p)[k := s]\<rparr>) of
                        None \<Rightarrow> None
                      | Some p \<Rightarrow> pool_push_loop (drop num xs) (pool_add (int num) p))
          else None)"

definition pool_push :: "(int \<Rightarrow> bool) \<Rightarrow> 'a list \<Rightarrow> 'a pool \<Rightarrow> 'a pool option" where
  "pool_push alloc xs p = do {
     p \<leftarrow> pool_reserve alloc (int (length xs)) p;
     pool_push_loop xs p
   }"

definition pool_front :: "'a pool \<Rightarrow> 'a option" where
  "pool_front p =
     (case slices p of
        [] \<Rightarrow> None
      | s # _ \<Rightarrow> slice_at s (bgn s))"

text \<open>
  An empty slice is taken out, except the one for pushing.  It is freed, or reset and moved to the list of
  free slices when there is one.
\<close>

definition pool_move_pop ::
    "'a slice \<Rightarrow> 'a slice list \<Rightarrow> 'a slice list option \<Rightarrow> 'a pool \<Rightarrow> ('a pool \<times> 'a slice list option) option" where
  "pool_move_pop s ss free_list p =
     (if slice_len s = 0
      then if slice_at_push p = Some 0
           then if slice_left s \<noteq> 0 then Some (p\<lparr>slices := s # ss\<rparr>, free_list) else None
           else Some (p\<lparr>slices := ss, slice_at_push := map_option (\<lambda>k. k - 1) (slice_at_push p),
                        slice_count := slice_count p - 1\<rparr>,
                      map_option (\<lambda>fs. fs @ [slice_reset s]) free_list)
      else Some (p\<lparr>slices := s # ss\<rparr>, free_list))"

definition pool_pop_front ::
    "int \<Rightarrow> 'a slice list option \<Rightarrow> 'a pool \<Rightarrow> ('a pool \<times> 'a slice list option) option" where
  "pool_pop_front count free_list p =
     (case slices p of
        [] \<Rightarrow> None
      | s # ss \<Rightarrow>
          if count \<le> slice_len s
          then pool_move_pop (slice_pop count s) ss free_list (p\<lparr>item_count := item_count p - count\<rparr>)
          else None)"

definition pool_reset :: "'a pool \<Rightarrow> 'a pool option" where
  "pool_reset p =
     (if item_count p \<noteq> 0
      then Some (p\<lparr>item_left := item_left p + sum_list (map bgn (slices p)),
                   slices := map slice_reset (slices p),
                   slice_at_push := (if slices p \<noteq> [] then Some 0 else slice_at_push p),
                   item_count := 0\<rparr>)
      else case slice_at_push p of
        None \<Rightarrow> Some p
      | Some k \<Rightarrow>
          if k = 0 \<and> slices p \<noteq> []
          then Some (p\<lparr>item_left := item_left p + bgn (hd (slices p)),
                       slices := slice_reset (hd (slices p)) # tl (slices p)\<rparr>)
          else None)"

end
