(* ===== verification/Pool_Queue.thy ===== *)
theory Pool_Queue
  imports Pool
begin

text \<open>
  Pools are queues: pushing appends, the front is the oldest item, popping drops it; and the counters are exact.
\<close>

section \<open>The chain\<close>

text \<open>
  Slices before the one for pushing are full and not empty, slices after it are empty; without one for
  pushing all are full.
\<close>

definition packed :: "'a slice \<Rightarrow> bool" where
  "packed s = (slice_ok s \<and> slice_left s = 0 \<and> 0 < slice_len s)"

definition blank :: "'a slice \<Rightarrow> bool" where
  "blank s = (slice_ok s \<and> slice_len s = 0 \<and> 0 < slice_left s)"

definition chain_ok :: "'a slice list \<Rightarrow> nat option \<Rightarrow> bool" where
  "chain_ok ss at =
     (case at of
        None \<Rightarrow> list_all packed ss
      | Some k \<Rightarrow> \<exists>fs s bs. ss = fs @ s # bs \<and> length fs = k \<and> list_all packed fs \<and>
          slice_ok s \<and> 0 < slice_left s \<and> list_all blank bs)"

definition pool_ok :: "'a pool \<Rightarrow> bool" where
  "pool_ok p = (0 < chunk_size p \<and> slice_count p = int (length (slices p)) \<and>
     item_count p = sum_list (map slice_len (slices p)) \<and> item_left p = sum_list (map slice_left (slices p)) \<and>
     chain_ok (slices p) (slice_at_push p))"

definition pool_items :: "'a pool \<Rightarrow> 'a list" where
  "pool_items p = concat (map slice_items (slices p))"

lemma blank_items: "blank s \<Longrightarrow> slice_items s = []"
  by (simp add: blank_def slice_items_def)

lemma packed_left: "list_all packed ss \<Longrightarrow> sum_list (map slice_left ss) = 0"
  by (induction ss) (simp_all add: packed_def)

lemma chain_at:
  "list_all packed fs \<Longrightarrow> slice_ok s \<Longrightarrow> 0 < slice_left s \<Longrightarrow> list_all blank bs \<Longrightarrow>
   chain_ok (fs @ s # bs) (Some (length fs))"
  unfolding chain_ok_def by auto

lemma blanks_items: "list_all blank bs \<Longrightarrow> concat (map slice_items bs) = []"
  by (induction bs) (simp_all add: blank_items)

lemma chain_slices: "chain_ok ss at \<Longrightarrow> list_all slice_ok ss"
  by (cases at) (auto simp: chain_ok_def list_all_iff packed_def blank_def)

lemma item_count_length:
  assumes "pool_ok p"
  shows "item_count p = int (length (pool_items p))"
proof -
  have "list_all slice_ok ss \<Longrightarrow> sum_list (map slice_len ss) = int (length (concat (map slice_items ss)))" for ss :: "'a slice list"
    by (induction ss) (use slice_bounds(1) in auto)
  then show ?thesis using assms chain_slices by (auto simp: pool_ok_def pool_items_def)
qed

lemma pool_init_ok: "0 \<le> chunk \<Longrightarrow> pool_ok (pool_init large chunk) \<and> pool_items (pool_init large chunk) = []"
  by (auto simp: pool_ok_def pool_init_def chain_ok_def pool_items_def)

lemma pool_join_blank:
  assumes "pool_ok p" and "blank s"
  shows "pool_ok (pool_join_slice s p)" and "pool_items (pool_join_slice s p) = pool_items p"
    and "item_left p < item_left (pool_join_slice s p)"
    and "chunk_size (pool_join_slice s p) = chunk_size p"
proof -
  have "chain_ok (slices p @ [s]) (if slice_at_push p = None then Some (length (slices p)) else slice_at_push p)"
  proof (cases "slice_at_push p")
    case None
    then have "list_all packed (slices p)" using assms(1) by (simp add: pool_ok_def chain_ok_def)
    then have "chain_ok (slices p @ [s]) (Some (length (slices p)))"
      using assms(2) by (intro chain_at) (simp_all add: blank_def)
    then show ?thesis using None by simp
  next
    case (Some k)
    then obtain fs t bs where "slices p = fs @ t # bs" "length fs = k" "list_all packed fs"
      "slice_ok t" "0 < slice_left t" "list_all blank bs"
      using assms(1) by (auto simp: pool_ok_def chain_ok_def)
    then have "chain_ok (fs @ t # (bs @ [s])) (Some (length fs))"
      using assms(2) by (intro chain_at) simp_all
    then show ?thesis using Some \<open>slices p = fs @ t # bs\<close> \<open>length fs = k\<close> by simp
  qed
  then show "pool_ok (pool_join_slice s p)"
    using assms by (auto simp: pool_ok_def pool_join_slice_def blank_def)
  show "pool_items (pool_join_slice s p) = pool_items p" "item_left p < item_left (pool_join_slice s p)"
    "chunk_size (pool_join_slice s p) = chunk_size p"
    using assms blank_items[OF assms(2)] by (simp_all add: pool_items_def pool_join_slice_def blank_def)
qed

lemma pool_reserve_ok:
  assumes "pool_ok p" and "\<forall>n. alloc n"
  shows "\<exists>q. pool_reserve alloc c p = Some q \<and> pool_ok q \<and> pool_items q = pool_items p \<and> c \<le> item_left q \<and>
    chunk_size q = chunk_size p"
  using assms(1)
proof (induction "nat (c - item_left p)" arbitrary: p rule: less_induct)
  case less
  show ?case
  proof (cases "c > item_left p")
    case True
    have c: "0 < chunk_size p" using less.prems by (simp add: pool_ok_def)
    then have ch: "0 \<le> chunk_size p" by simp
    define s :: "'a slice" where "s = slice_init (chunk_size p) (fresh (nat (chunk_size p)))"
    have "blank s" using slice_create_ok[OF ch s_def] c by (simp add: blank_def)
    note j = pool_join_blank[OF less.prems this]
    have "nat (c - item_left (pool_join_slice s p)) < nat (c - item_left p)" using j(3) True by simp
    from less.hyps[OF this j(1)] show ?thesis
      using True assms(2) j by (subst pool_reserve.simps) (simp add: slice_create_def s_def)
  next
    case False
    then show ?thesis using less.prems by (subst pool_reserve.simps) simp
  qed
qed

lemma next_with_space_at:
  "slice_left s \<noteq> 0 \<Longrightarrow> next_with_space (fs @ s # bs) (length fs) = Some (length fs)"
  "slice_left s = 0 \<Longrightarrow> next_with_space (fs @ [s]) (length fs) = None"
  "slice_left s = 0 \<Longrightarrow> slice_left b \<noteq> 0 \<Longrightarrow> next_with_space (fs @ s # b # bs) (length fs) = Some (Suc (length fs))"
  by (simp_all add: next_with_space.simps nth_append)

text \<open>A slice of the chain takes items; when it is full, the next one is for pushing.\<close>

lemma chain_push:
  assumes "list_all packed fs" and "slice_ok s" and "0 \<le> slice_left s" and "0 < slice_len s" and "list_all blank bs"
  shows "chain_ok (fs @ s # bs) (next_with_space (fs @ s # bs) (length fs))"
proof (cases "slice_left s = 0")
  case True
  then have s: "packed s" using assms by (simp add: packed_def)
  show ?thesis
  proof (cases bs)
    case Nil
    then show ?thesis using True s assms by (simp add: next_with_space_at chain_ok_def)
  next
    case (Cons b cs)
    then have b: "slice_ok b" "0 < slice_left b" "list_all blank cs" using assms(5) by (auto simp: blank_def)
    then have "next_with_space (fs @ s # bs) (length fs) = Some (Suc (length fs))"
      using True Cons by (simp add: next_with_space_at)
    moreover have "chain_ok ((fs @ [s]) @ b # cs) (Some (length (fs @ [s])))"
      using s assms(1) b by (intro chain_at) simp_all
    ultimately show ?thesis using Cons by simp
  qed
next
  case False
  then have "0 < slice_left s" using assms(3) by simp
  then have "chain_ok (fs @ s # bs) (Some (length fs))" using assms by (intro chain_at)
  then show ?thesis using False by (simp add: next_with_space_at(1))
qed

lemma pool_items_split: "slices p = fs @ s # bs \<Longrightarrow> list_all blank bs \<Longrightarrow>
  pool_items p = concat (map slice_items fs) @ slice_items s"
  by (simp only: pool_items_def map_append concat_append list.map concat.simps blanks_items append_Nil2)

lemma pool_push_loop_ok:
  assumes "pool_ok p" and "int (length xs) \<le> item_left p"
  shows "\<exists>q. pool_push_loop xs p = Some q \<and> pool_ok q \<and> pool_items q = pool_items p @ xs \<and> chunk_size q = chunk_size p"
  using assms
proof (induction "length xs" arbitrary: xs p rule: less_induct)
  case less
  show ?case
  proof (cases "xs = []")
    case True
    then show ?thesis using less.prems by (subst pool_push_loop.simps) simp
  next
    case False
    have left: "0 < item_left p" using less.prems(2) False by (cases xs) auto
    obtain k where k: "slice_at_push p = Some k"
    proof (cases "slice_at_push p")
      case None
      then have "list_all packed (slices p)" using less.prems by (simp add: pool_ok_def chain_ok_def)
      then show ?thesis using left less.prems packed_left[of "slices p"] by (simp add: pool_ok_def)
    qed
    then obtain fs s bs where c: "slices p = fs @ s # bs" "length fs = k" "list_all packed fs"
      "slice_ok s" "0 < slice_left s" "list_all blank bs"
      using less.prems by (auto simp: pool_ok_def chain_ok_def)
    define num where "num = nat (min (int (length xs)) (slice_left s))"
    have num: "0 < num" "num \<le> length xs" "int num \<le> slice_left s"
      using False c(5) by (auto simp: num_def)
    then have "int (length (take num xs)) \<le> slice_left s" by simp
    then obtain s' where s': "slice_mempush (map Some (take num xs)) s = Some s'" "slice_ok s'"
      "slice_items s' = slice_items s @ take num xs" "slice_len s' = slice_len s + int num"
      "slice_left s' = slice_left s - int num"
      using slice_mempush_items[OF c(4), of "take num xs"] num by auto
    define q where "q = pool_add (int num) (p\<lparr>slices := fs @ s' # bs,
      slice_at_push := next_with_space (fs @ s' # bs) (length fs)\<rparr>)"
    have "chain_ok (fs @ s' # bs) (next_with_space (fs @ s' # bs) (length fs))"
      by (rule chain_push) (use c s' num slice_bounds(1)[OF c(4)] in auto)
    then have q: "pool_ok q"
      using less.prems(1) c(1) s' by (simp add: pool_ok_def q_def pool_add_def)
    have items: "pool_items q = pool_items p @ take num xs"
      using pool_items_split[OF c(1,6)] pool_items_split[of q fs s' bs] c(6) s'(3)
      by (simp add: q_def pool_add_def)
    have "pool_push_loop xs p = pool_push_loop (drop num xs) q"
      using False k c s'(1) num_def
      by (subst pool_push_loop.simps) (simp add: pool_move_push_def q_def nth_append list_update_append Let_def)
    moreover have "\<exists>r. pool_push_loop (drop num xs) q = Some r \<and> pool_ok r \<and>
        pool_items r = pool_items q @ drop num xs \<and> chunk_size r = chunk_size q"
      by (rule less.hyps) (use num q less.prems(2) False in \<open>auto simp: q_def pool_add_def\<close>)
    ultimately show ?thesis using items by (auto simp: q_def pool_add_def)
  qed
qed

lemma pool_push_ok:
  assumes "pool_ok p" and "\<forall>n. alloc n"
  shows "\<exists>q. pool_push alloc xs p = Some q \<and> pool_ok q \<and> pool_items q = pool_items p @ xs \<and> chunk_size q = chunk_size p"
proof -
  obtain r where r: "pool_reserve alloc (int (length xs)) p = Some r" "pool_ok r" "pool_items r = pool_items p"
    "int (length xs) \<le> item_left r" "chunk_size r = chunk_size p"
    using pool_reserve_ok[OF assms] by blast
  show ?thesis using pool_push_loop_ok[OF r(2,4)] r by (simp add: pool_push_def)
qed

text \<open>The first slice has the front, since no slice before the one for pushing is empty.\<close>

lemma pool_first:
  assumes "pool_ok p" and "pool_items p = x # xs"
  obtains s ss ys where "slices p = s # ss" "slice_ok s" "slice_items s = x # ys" "0 < slice_len s"
    "xs = ys @ concat (map slice_items ss)"
proof -
  obtain s ss where ss: "slices p = s # ss" using assms(2) by (cases "slices p") (auto simp: pool_items_def)
  have chain: "chain_ok (s # ss) (slice_at_push p)" using assms(1) ss by (simp add: pool_ok_def)
  then have ok: "slice_ok s" using chain_slices by fastforce
  have ne: "slice_items s \<noteq> []"
  proof
    assume e: "slice_items s = []"
    then have len: "slice_len s = 0" using length_slice_items[OF ok] slice_bounds(1)[OF ok] by simp
    have "concat (map slice_items ss) = []"
    proof (cases "slice_at_push p")
      case None
      then show ?thesis using chain len by (simp add: chain_ok_def packed_def)
    next
      case (Some k)
      then obtain fs t bs where c: "s # ss = fs @ t # bs" "list_all packed fs" "list_all blank bs"
        using chain by (auto simp: chain_ok_def)
      then have "fs = []" using len by (cases fs) (auto simp: packed_def)
      then show ?thesis using c blanks_items by auto
    qed
    then have "concat (map slice_items (slices p)) = []" using ss e by simp
    then show False using assms(2) unfolding pool_items_def by (metis list.distinct(1))
  qed
  then obtain ys where ys: "slice_items s = x # ys" "xs = ys @ concat (map slice_items ss)"
  proof (cases "slice_items s")
    case (Cons y zs)
    then have "y = x" "xs = zs @ concat (map slice_items ss)" using assms(2) ss by (simp_all add: pool_items_def)
    then show ?thesis using that Cons by blast
  qed (simp add: ne)
  have "0 < slice_len s" using ne length_slice_items[OF ok] by (cases "slice_items s") auto
  then show thesis using that ss ok ys by blast
qed

lemma pool_front_item:
  assumes "pool_ok p" and "pool_items p = x # xs"
  shows "pool_front p = Some x"
proof -
  obtain s ss ys where "slices p = s # ss" "slice_ok s" "slice_items s = x # ys" "0 < slice_len s"
    "xs = ys @ concat (map slice_items ss)" by (rule pool_first[OF assms])
  then show ?thesis by (simp add: pool_front_def slice_front)
qed

lemma pool_pop_front_ok:
  assumes "pool_ok p" and "pool_items p = x # xs"
  shows "\<exists>q fl'. pool_pop_front 1 fl p = Some (q, fl') \<and> pool_ok q \<and> pool_items q = xs \<and> chunk_size q = chunk_size p"
proof -
  obtain s ss ys where s: "slices p = s # ss" "slice_ok s" "slice_items s = x # ys" "0 < slice_len s"
    and xs: "xs = ys @ concat (map slice_items ss)" by (rule pool_first[OF assms])
  let ?t = "slice_pop 1 s"
  have t: "slice_ok ?t" "slice_items ?t = ys" "slice_len ?t = slice_len s - 1" "slice_left ?t = slice_left s"
    using slice_pop_items[OF s(2), of 1] s by simp_all
  have chain: "chain_ok (s # ss) (slice_at_push p)" using assms(1) s(1) by (simp add: pool_ok_def)
  have none: "ys = []" if "slice_len s = 1" using length_slice_items[OF s(2)] s(3) that by simp
  consider (push) "slice_at_push p = Some 0" | (later) k where "slice_at_push p = Some (Suc k)" | (full) "slice_at_push p = None"
    by (metis not0_implies_Suc not_None_eq)
  then show ?thesis
  proof cases
    case push
    then have "0 < slice_left s" "list_all blank ss" using chain by (auto simp: chain_ok_def)
    then have "chain_ok (?t # ss) (Some 0)" using t chain_at[of "[]" ?t ss] by simp
    then show ?thesis using assms(1) s t push xs \<open>0 < slice_left s\<close>
      by (simp add: pool_pop_front_def pool_move_pop_def pool_ok_def pool_items_def)
  next
    case later
    then obtain fs u bs where c: "ss = fs @ u # bs" "length fs = k" "packed s" "list_all packed fs"
      "slice_ok u" "0 < slice_left u" "list_all blank bs"
      using chain by (auto simp: chain_ok_def Cons_eq_append_conv)
    show ?thesis
    proof (cases "slice_len s = 1")
      case True
      have "chain_ok ss (Some k)" using c chain_at[of fs u bs] by simp
      moreover have "slice_left s = 0" using c(3) by (simp add: packed_def)
      ultimately show ?thesis using assms(1) s t later xs True none
        by (simp add: pool_pop_front_def pool_move_pop_def pool_ok_def pool_items_def)
    next
      case False
      have "packed ?t" using c(3) t False by (simp add: packed_def)
      then have "chain_ok (?t # ss) (Some (Suc k))" using c chain_at[of "?t # fs" u bs] by simp
      then show ?thesis using assms(1) s t later xs False
        by (simp add: pool_pop_front_def pool_move_pop_def pool_ok_def pool_items_def)
    qed
  next
    case full
    then have c: "packed s" "list_all packed ss" using chain by (auto simp: chain_ok_def)
    show ?thesis
    proof (cases "slice_len s = 1")
      case True
      moreover have "slice_left s = 0" using c(1) by (simp add: packed_def)
      ultimately show ?thesis using assms(1) s t full xs none c
        by (simp add: pool_pop_front_def pool_move_pop_def pool_ok_def pool_items_def chain_ok_def)
    next
      case False
      have "packed ?t" using c(1) t False by (simp add: packed_def)
      then show ?thesis using assms(1) s t full xs False c
        by (simp add: pool_pop_front_def pool_move_pop_def pool_ok_def pool_items_def chain_ok_def)
    qed
  qed
qed

section \<open>As a queue\<close>

text \<open>
  A user of a pool pushes items, or takes the first one out as long as \<^verbatim>\<open>_item_count\<close> is not 0, with a list of
  free slices or without; \<open>run_queue\<close> is what a queue gives for the same calls.
\<close>

datatype 'a pool_call = Push "'a list" | Take bool

fun run_pool :: "'a pool_call list \<Rightarrow> 'a pool \<Rightarrow> 'a list \<Rightarrow> ('a pool \<times> 'a list) option" where
  "run_pool [] p taken = Some (p, taken)"
| "run_pool (Push xs # cs) p taken = do {
     p \<leftarrow> pool_push (\<lambda>_. True) xs p;
     run_pool cs p taken
   }"
| "run_pool (Take reuse # cs) p taken =
     (if item_count p = 0 then run_pool cs p taken
      else do {
        x \<leftarrow> pool_front p;
        (p, free_list) \<leftarrow> pool_pop_front 1 (if reuse then Some [] else None) p;
        run_pool cs p (taken @ [x])
      })"

fun run_queue :: "'a pool_call list \<Rightarrow> 'a list \<Rightarrow> 'a list \<Rightarrow> 'a list \<times> 'a list" where
  "run_queue [] q taken = (q, taken)"
| "run_queue (Push xs # cs) q taken = run_queue cs (q @ xs) taken"
| "run_queue (Take reuse # cs) q taken =
     (case q of [] \<Rightarrow> run_queue cs q taken | x # xs \<Rightarrow> run_queue cs xs (taken @ [x]))"

lemma run_pool_queue:
  assumes "pool_ok p"
  shows "\<exists>q. run_pool cs p taken = Some (q, snd (run_queue cs (pool_items p) taken)) \<and> pool_ok q \<and>
    pool_items q = fst (run_queue cs (pool_items p) taken)"
  using assms
proof (induction cs p taken rule: run_pool.induct)
  case (2 xs cs p taken)
  obtain q where q: "pool_push (\<lambda>_. True) xs p = Some q" "pool_ok q" "pool_items q = pool_items p @ xs"
    using pool_push_ok[OF 2(2), of "\<lambda>_. True" xs] by auto
  show ?case using 2(1)[OF q(1,2)] q by simp
next
  case (3 reuse cs p taken)
  show ?case
  proof (cases "pool_items p")
    case Nil
    then have "item_count p = 0" using item_count_length[OF 3(3)] by simp
    then show ?thesis using 3(1)[OF _ 3(3)] Nil by simp
  next
    case (Cons x xs)
    then have "item_count p \<noteq> 0" using item_count_length[OF 3(3)] by simp
    moreover obtain q fl where "pool_pop_front 1 (if reuse then Some [] else None) p = Some (q, fl)"
      "pool_ok q" "pool_items q = xs"
      using pool_pop_front_ok[OF 3(3) Cons, of "if reuse then Some [] else None"] by auto
    ultimately show ?thesis using 3(2)[of x "(q, fl)" q fl] pool_front_item[OF 3(3) Cons] Cons by simp
  qed
qed simp

text \<open>
  C8: a pool is a queue with exact counters.  For every sequence of calls on a new pool, with any chunk size
  that is not negative, no call reads or writes outside of the slices, the items that were taken out are
  those that a queue gives, in the same order, the items left in the chain are those left in the queue, \<^verbatim>\<open>_item_count\<close>
  is their number, \<^verbatim>\<open>_item_left\<close> is the space in the slices, and \<^verbatim>\<open>_slice_count\<close> their number; and every push of
  \<^verbatim>\<open>count\<close> items ends.
\<close>

theorem pool_refines_queue:
  assumes "0 \<le> chunk"
  shows "\<exists>p. run_pool cs (pool_init large chunk) [] = Some (p, snd (run_queue cs [] [])) \<and>
    pool_items p = fst (run_queue cs [] []) \<and> item_count p = int (length (pool_items p)) \<and>
    item_left p = sum_list (map slice_left (slices p)) \<and> slice_count p = int (length (slices p)) \<and>
    (\<forall>s \<in> set (slices p). slice_ok s)"
proof -
  have "pool_ok (pool_init large chunk :: 'a pool)" "pool_items (pool_init large chunk :: 'a pool) = []"
    using pool_init_ok[OF assms] by blast+
  from run_pool_queue[OF this(1), of cs "[]", unfolded this(2)]
  obtain q where "run_pool cs (pool_init large chunk) [] = Some (q, snd (run_queue cs [] []))" "pool_ok q"
    "pool_items q = fst (run_queue cs [] [])" by blast
  moreover from this(2) have "chain_ok (slices q) (slice_at_push q)" by (simp add: pool_ok_def)
  ultimately show ?thesis
    using item_count_length[of q] chain_slices[of "slices q"] by (auto simp: pool_ok_def list_all_iff)
qed

theorem pool_refines_queue_witness:
  "\<exists>p. run_pool [Push [1, 2, 3], Take False, Push [4], Take True] (pool_init False 2) [] = Some (p, [1, 2]) \<and>
    pool_items p = [3, 4::nat] \<and> item_count p = 2"
  using pool_refines_queue[of 2 "[Push [1, 2, 3::nat], Take False, Push [4], Take True]" False] by (auto simp del: run_pool.simps)

section \<open>Where a pool is not a queue\<close>

text \<open>
  \<^verbatim>\<open>reset()\<close> of a pool that holds items gives only the space before them back: \<^verbatim>\<open>_item_left\<close> is then too small by
  the number of items that it dropped.
\<close>

lemma pool_reset_left:
  assumes "pool_ok p" and "item_count p \<noteq> 0"
  shows "\<exists>q. pool_reset p = Some q \<and> pool_items q = [] \<and>
    item_left q + item_count p = sum_list (map slice_left (slices q))"
proof -
  have "sum_list (map slice_left ss) + sum_list (map bgn ss) + sum_list (map slice_len ss) =
      sum_list (map slice_left (map slice_reset ss))" for ss :: "'a slice list"
    by (induction ss) (auto simp: slice_left_def slice_len_def slice_reset_def)
  moreover have "concat (map slice_items (map slice_reset ss)) = []" for ss :: "'a slice list"
    by (induction ss) (simp_all add: slice_items_def slice_reset_def slice_len_def)
  ultimately show ?thesis
    using assms by (simp add: pool_reset_def pool_ok_def pool_items_def del: concat_eq_Nil_conv)
qed

text \<open>
  After \<^verbatim>\<open>join\<close>, items that are pushed go into the space of a slice before the items that were joined, and come out
  before them.
\<close>

lemma pool_join_push_order:
  assumes "pool_ok p" and "slices p = [s]" and "slice_left s = 1" and "slices q = [packed_slice]" and that: "packed packed_slice"
  shows "\<exists>r. pool_push (\<lambda>_. True) [x] (fst (pool_join large p q)) = Some r \<and>
    pool_items r = slice_items s @ [x] @ slice_items packed_slice"
proof -
  have at: "slice_at_push p = Some 0"
    using assms(1-3) by (cases "slice_at_push p") (auto simp: pool_ok_def chain_ok_def packed_def Cons_eq_append_conv)
  have ok: "slice_ok s" using assms(1,2) chain_slices by (fastforce simp: pool_ok_def)
  define r where "r = fst (pool_join large p q)"
  have r: "slices r = [s, packed_slice]" "slice_at_push r = Some 0" "item_left r = 1"
    using assms that at by (simp_all add: r_def pool_join_def pool_join_slice_def pool_ok_def packed_def)
  obtain s' where s': "slice_mempush [Some x] s = Some s'" "slice_items s' = slice_items s @ [x]" "slice_left s' = 0"
    using slice_mempush_items[OF ok, of "[x]"] assms(3) by auto
  have "next_with_space [s', packed_slice] 0 = None"
    using s'(3) that by (simp add: next_with_space.simps packed_def)
  then show ?thesis
    using r s' assms(3) unfolding r_def[symmetric]
    by (simp add: pool_push_def pool_reserve.simps pool_push_loop.simps pool_move_push_def pool_add_def pool_items_def)
qed

end
