(* ===== verification/Inout.thy ===== *)
theory Inout
  imports Prelude "HOL-Library.Multiset"
begin

text \<open>
  Messages for an input/output object (\<^verbatim>\<open>AInOutComponent\<close> of \<^verbatim>\<open>ecs/AInOutComponent.h\<close> and \<^verbatim>\<open>ecs/AInOutComponent.cpp\<close>).
  Messages that are posted wait in a queue.  The thread that posts to an empty queue gives its message to
  \<^verbatim>\<open>do_input\<close>; when the result of a message is known, its \<^verbatim>\<open>done\<close> is called and the next one is given to
  \<^verbatim>\<open>do_input\<close>.

  The handlers are cut into the sections between which another thread may run: each of those that hold the
  mutex, and the calls outside of it.  A \<open>task\<close> is a thread before its next section; \<open>In_Flight\<close> is the object, which
  returned 0 and will call \<^verbatim>\<open>_inmsg.done\<close>.  What \<^verbatim>\<open>do_input\<close> returns, or the object reports, is an argument.
\<close>

section \<open>Sections of the handlers\<close>

record 'm inout =
  io_abort :: bool
  io_queue :: "'m list"
  post_end :: bool
  io_refs :: int
  ended :: "int list"

text \<open>
  \<open>post_end\<close> says that \<^verbatim>\<open>on_post_end\<close> is not \<^verbatim>\<open>NULL\<close>, \<open>ended\<close> lists the results it was called with, and \<open>io_refs\<close> are the
  references to the entity.
\<close>

datatype 'm task =
    Start 'm
  | In_Flight 'm
  | Loop int
  | Finish 'm int "'m option"
  | Continue 'm
  | Refuse 'm

definition inout_init :: "int \<Rightarrow> 'm inout" where
  "inout_init r = \<lparr>io_abort = True, io_queue = [], post_end = False, io_refs = r, ended = []\<rparr>"

definition input_begin :: "'m inout \<Rightarrow> 'm inout option" where
  "input_begin c =
     (if io_queue c = [] \<and> \<not> post_end c then Some (c\<lparr>io_abort := False, post_end := True\<rparr>) else None)"

definition call_post_end :: "int \<Rightarrow> 'm inout \<Rightarrow> 'm inout" where
  "call_post_end result c = c\<lparr>ended := ended c @ [result], post_end := False\<rparr>"

definition input_end :: "int \<Rightarrow> 'm inout \<Rightarrow> 'm inout" where
  "input_end result c =
     (let c = c\<lparr>io_abort := True\<rparr> in if io_queue c = [] \<and> post_end c then call_post_end result c else c)"

text \<open>\<^verbatim>\<open>_do_post\<close>: the locked part, then \<^verbatim>\<open>addref\<close> and \<^verbatim>\<open>do_input\<close> for the first message.\<close>

definition post_locked :: "'m \<Rightarrow> 'm inout \<Rightarrow> 'm inout \<times> 'm task option" where
  "post_locked m c =
     (if io_abort c then (c, Some (Refuse m))
      else (c\<lparr>io_queue := io_queue c @ [m]\<rparr>, if io_queue c = [] then Some (Start m) else None))"

definition after_input :: "'m \<Rightarrow> int \<Rightarrow> 'm task" where
  "after_input m result = (if result = 0 then In_Flight m else Loop result)"

definition post_start :: "'m \<Rightarrow> int \<Rightarrow> 'm inout \<Rightarrow> 'm inout \<times> 'm task" where
  "post_start m result c = (c\<lparr>io_refs := io_refs c + 1\<rparr>, after_input m result)"

text \<open>
  \<^verbatim>\<open>_inmsg_done\<close>: the locked part takes the message out; then \<^verbatim>\<open>done\<close> is called, and without a next message the
  reference is given up; a next message is given to \<^verbatim>\<open>do_input\<close>, or gets \<^verbatim>\<open>-EINTR\<close>.
\<close>

definition inmsg_locked :: "int \<Rightarrow> 'm inout \<Rightarrow> ('m inout \<times> 'm task) option" where
  "inmsg_locked result c =
     (case io_queue c of
        [] \<Rightarrow> None
      | m # q \<Rightarrow>
          (let c = c\<lparr>io_queue := q\<rparr>;
               c = (if q = [] \<and> io_abort c \<and> post_end c then call_post_end result c else c)
           in Some (c, Finish m result (case q of [] \<Rightarrow> None | n # _ \<Rightarrow> Some n))))"

definition inmsg_finish :: "'m option \<Rightarrow> 'm inout \<Rightarrow> 'm inout \<times> 'm task option" where
  "inmsg_finish n c =
     (case n of
        None \<Rightarrow> (c\<lparr>io_refs := io_refs c - 1\<rparr>, None)
      | Some n \<Rightarrow> (c, Some (Continue n)))"

definition inmsg_continue :: "'m \<Rightarrow> int \<Rightarrow> 'm inout \<Rightarrow> 'm task" where
  "inmsg_continue n result c = (if io_abort c then Loop (- EINTR) else after_input n result)"

section \<open>Runs\<close>

text \<open>
  What a run did: \<open>accepted\<close> messages in the order they were put in the queue; \<open>answers\<close>, the results in the order
  they were known, \<open>None\<close> for a message that was not given to the object; \<open>taken\<close>, the messages taken out with
  their results; \<open>finished\<close>, the calls of \<^verbatim>\<open>done\<close>; and those for messages that were not accepted.
\<close>

record 'm inout_run =
  com :: "'m inout"
  tasks :: "'m task multiset"
  accepted :: "'m list"
  answers :: "('m \<times> int option) list"
  taken :: "('m \<times> int) list"
  finished :: "('m \<times> int) list"
  turned_away :: "'m list"
  refused :: "('m \<times> int) list"
  begun :: nat

definition run_init :: "int \<Rightarrow> 'm inout_run" where
  "run_init r = \<lparr>com = inout_init r, tasks = {#}, accepted = [], answers = [], taken = [], finished = [],
     turned_away = [], refused = [], begun = 0\<rparr>"

definition new_task :: "'m task option \<Rightarrow> 'm task multiset" where
  "new_task t = (case t of None \<Rightarrow> {#} | Some t \<Rightarrow> {#t#})"

text \<open>The result of a message is known when \<^verbatim>\<open>do_input\<close> does not return 0.\<close>

definition answer :: "'m \<Rightarrow> int \<Rightarrow> ('m \<times> int option) list" where
  "answer m result = (if result = 0 then [] else [(m, Some result)])"

definition post_message :: "'m \<Rightarrow> 'm inout_run \<Rightarrow> 'm inout_run" where
  "post_message m s =
     (let (c, t) = post_locked m (com s) in
      s\<lparr>com := c, tasks := tasks s + new_task t,
        accepted := accepted s @ (if io_abort (com s) then [] else [m]),
        turned_away := turned_away s @ (if io_abort (com s) then [m] else [])\<rparr>)"

fun run_task :: "'m task \<Rightarrow> int \<Rightarrow> 'm inout_run \<Rightarrow> 'm inout_run option" where
  "run_task (Refuse m) result s =
     Some (s\<lparr>tasks := tasks s - {#Refuse m#}, refused := refused s @ [(m, - EINTR)]\<rparr>)"
| "run_task (Start m) result s =
     (let (c, t) = post_start m result (com s) in
      Some (s\<lparr>com := c, tasks := tasks s - {#Start m#} + {#t#}, answers := answers s @ answer m result\<rparr>))"
| "run_task (In_Flight m) result s =
     Some (s\<lparr>tasks := tasks s - {#In_Flight m#} + {#Loop result#}, answers := answers s @ [(m, Some result)]\<rparr>)"
| "run_task (Loop r) result s =
     (case inmsg_locked r (com s) of
        None \<Rightarrow> None
      | Some (c, t) \<Rightarrow>
          Some (s\<lparr>com := c, tasks := tasks s - {#Loop r#} + {#t#}, taken := taken s @ [(hd (io_queue (com s)), r)]\<rparr>))"
| "run_task (Finish m r n) result s =
     (let (c, t) = inmsg_finish n (com s) in
      Some (s\<lparr>com := c, tasks := tasks s - {#Finish m r n#} + new_task t, finished := finished s @ [(m, r)]\<rparr>))"
| "run_task (Continue n) result s =
     Some (s\<lparr>tasks := tasks s - {#Continue n#} + {#inmsg_continue n result (com s)#},
       answers := answers s @ (if io_abort (com s) then [(n, None)] else answer n result)\<rparr>)"

text \<open>
  Threads and the object in any order.  A message is not posted again while it waits, since its links are in
  use; \<open>abort\<close> ends the input, which may begin again when \<^verbatim>\<open>on_post_end\<close> was called.
\<close>

inductive inout_step :: "'m inout_run \<Rightarrow> 'm inout_run \<Rightarrow> bool" where
  Post: "m \<notin> set (io_queue (com s)) \<Longrightarrow> inout_step s (post_message m s)"
| Begin: "input_begin (com s) = Some c \<Longrightarrow> inout_step s (s\<lparr>com := c, begun := Suc (begun s)\<rparr>)"
| End: "inout_step s (s\<lparr>com := input_end r (com s)\<rparr>)"
| Work: "t \<in># tasks s \<Longrightarrow> run_task t r s = Some s' \<Longrightarrow> inout_step s s'"

inductive inout_reach :: "int \<Rightarrow> 'm inout_run \<Rightarrow> bool" for r :: int where
  "inout_reach r (run_init r)"
| "inout_reach r s \<Longrightarrow> inout_step s t \<Longrightarrow> inout_reach r t"

section \<open>Invariant\<close>

text \<open>The task that drives the queue, and those that hold a reference to the entity.\<close>

fun drives :: "'m task \<Rightarrow> bool" where
  "drives (Start m) = True"
| "drives (In_Flight m) = True"
| "drives (Loop r) = True"
| "drives (Finish m r n) = (n \<noteq> None)"
| "drives (Continue m) = True"
| "drives (Refuse m) = False"

fun holds_ref :: "'m task \<Rightarrow> bool" where
  "holds_ref (Start m) = False"
| "holds_ref (Refuse m) = False"
| "holds_ref t = True"

text \<open>The first message of the queue is the one that the driving task works on.\<close>

fun works_on :: "'m task \<Rightarrow> 'm list \<Rightarrow> bool" where
  "works_on (Start m) q = (hd q = m)"
| "works_on (In_Flight m) q = (hd q = m)"
| "works_on (Finish x r n) q = (n = Some (hd q))"
| "works_on (Continue m) q = (hd q = m)"
| "works_on t q = True"

fun known :: "'m task \<Rightarrow> 'm list \<Rightarrow> ('m \<times> int) list" where
  "known (Loop r) q = [(hd q, r)]"
| "known t q = []"

definition answered :: "('m \<times> int option) list \<Rightarrow> ('m \<times> int) list" where
  "answered = map (\<lambda>(m, r). (m, case r of None \<Rightarrow> - EINTR | Some r \<Rightarrow> r))"

fun finishing :: "'m task \<Rightarrow> ('m \<times> int) multiset" where
  "finishing (Finish m r n) = {#(m, r)#}"
| "finishing t = {#}"

fun refusing :: "'m task \<Rightarrow> 'm multiset" where
  "refusing (Refuse m) = {#m#}"
| "refusing t = {#}"

definition drivers :: "'m inout_run \<Rightarrow> 'm task multiset" where
  "drivers s = filter_mset drives (tasks s)"

definition driver_ok :: "'m task multiset \<Rightarrow> 'm list \<Rightarrow> ('m \<times> int) list \<Rightarrow> ('m \<times> int) list \<Rightarrow> bool" where
  "driver_ok D q as tk =
     (if q = [] then D = {#} \<and> as = tk
      else \<exists>t. D = {#t#} \<and> works_on t q \<and> as = tk @ known t q)"

definition inout_inv :: "int \<Rightarrow> 'm inout_run \<Rightarrow> bool" where
  "inout_inv r s =
     (driver_ok (drivers s) (io_queue (com s)) (answered (answers s)) (taken s) \<and>
      accepted s = map fst (taken s) @ io_queue (com s) \<and>
      io_refs (com s) = r + int (size (filter_mset holds_ref (tasks s))) \<and>
      mset (taken s) = mset (finished s) + \<Sum>\<^sub># (image_mset finishing (tasks s)) \<and>
      mset (turned_away s) = mset (map fst (refused s)) + \<Sum>\<^sub># (image_mset refusing (tasks s)) \<and>
      snd ` set (refused s) \<subseteq> {- EINTR} \<and>
      begun s = length (ended (com s)) + (if post_end (com s) then 1 else 0) \<and>
      (io_abort (com s) \<and> io_queue (com s) = [] \<longrightarrow> \<not> post_end (com s)))"

end
