(* ===== verification/Inout_Run.thy ===== *)
theory Inout_Run
  imports Inout
begin

text \<open>
  What holds of every run of an input/output component: the messages are taken out in the order they were accepted and each
  completes once, one of them is with the object at a time, the end of the input is reported once, and an aborted queue drains.
\<close>

section \<open>Every section keeps the invariant\<close>

lemma inout_inv_init: "inout_inv r (run_init r)"
  by (simp add: inout_inv_def driver_ok_def drivers_def run_init_def inout_init_def answered_def)

text \<open>A message at the end of the queue changes nothing for the task that works on the first.\<close>

lemma works_on_more [simp]:
  "works_on t (a # q @ p) = works_on t (a # q)" "known t (a # q @ p) = known t (a # q)"
  by (cases t; simp)+

lemma inout_inv_post:
  assumes "inout_inv r s"
  shows "inout_inv r (post_message m s)"
  using assms
  by (cases "io_queue (com s)")
    (auto simp: inout_inv_def driver_ok_def drivers_def post_message_def post_locked_def new_task_def)

lemma inout_inv_begin:
  assumes "inout_inv r s" and "input_begin (com s) = Some c"
  shows "inout_inv r (s\<lparr>com := c, begun := Suc (begun s)\<rparr>)"
  using assms by (auto simp: inout_inv_def driver_ok_def drivers_def input_begin_def split: if_splits)

lemma inout_inv_end:
  assumes "inout_inv r s"
  shows "inout_inv r (s\<lparr>com := input_end x (com s)\<rparr>)"
  using assms by (auto simp: inout_inv_def driver_ok_def drivers_def input_end_def call_post_end_def Let_def)

lemma answered_append [simp]: "answered (xs @ ys) = answered xs @ answered ys"
  by (simp add: answered_def)

text \<open>The task that drives is the only one, so there is a message.\<close>

lemma driver_only:
  assumes "inout_inv r s" and "tasks s = add_mset t T" and "drives t"
  shows "filter_mset drives T = {#}" "works_on t (io_queue (com s))" "io_queue (com s) \<noteq> []"
    "answered (answers s) = taken s @ known t (io_queue (com s))"
  using assms by (auto simp: inout_inv_def driver_ok_def drivers_def split: if_splits)

lemma inout_inv_work:
  assumes inv: "inout_inv r s" and t: "t \<in># tasks s"
  shows "\<exists>s'. run_task t x s = Some s' \<and> inout_inv r s'"
proof -
  obtain T where T: "tasks s = add_mset t T" using t by (metis multi_member_split)
  note only = driver_only[OF inv T]
  have i: "io_refs (com s) = r + int (size (filter_mset holds_ref (tasks s)))"
    "accepted s = map fst (taken s) @ io_queue (com s)"
    "mset (taken s) = mset (finished s) + \<Sum>\<^sub># (image_mset finishing (tasks s))"
    "mset (turned_away s) = mset (map fst (refused s)) + \<Sum>\<^sub># (image_mset refusing (tasks s))"
    "snd ` set (refused s) \<subseteq> {- EINTR}"
    "begun s = length (ended (com s)) + (if post_end (com s) then 1 else 0)"
    "io_abort (com s) \<and> io_queue (com s) = [] \<longrightarrow> \<not> post_end (com s)"
    "driver_ok (drivers s) (io_queue (com s)) (answered (answers s)) (taken s)"
    using inv by (simp_all add: inout_inv_def)
  show ?thesis
  proof (cases t)
    case (Start m)
    then show ?thesis using only i T
      by (auto simp: inout_inv_def driver_ok_def drivers_def post_start_def after_input_def answer_def answered_def)
  next
    case (In_Flight m)
    then show ?thesis using only i T
      by (auto simp: inout_inv_def driver_ok_def drivers_def answered_def)
  next
    case (Loop y)
    then obtain m q where q: "io_queue (com s) = m # q" using only(3) by (cases "io_queue (com s)") auto
    show ?thesis using Loop only i T q
      by (cases q) (auto simp: inout_inv_def driver_ok_def drivers_def inmsg_locked_def call_post_end_def Let_def)
  next
    case (Finish m y n)
    then show ?thesis using only i T
      by (cases n) (auto simp: inout_inv_def driver_ok_def drivers_def inmsg_finish_def new_task_def)
  next
    case (Continue m)
    then show ?thesis using only i T
      by (auto simp: inout_inv_def driver_ok_def drivers_def inmsg_continue_def after_input_def answer_def answered_def)
  next
    case (Refuse m)
    then show ?thesis using i T by (auto simp: inout_inv_def driver_ok_def drivers_def)
  qed
qed

lemma inout_reach_inv: "inout_reach r s \<Longrightarrow> inout_inv r s"
proof (induction rule: inout_reach.induct)
  case (2 s t)
  from 2(2) show ?case
  proof cases
    case (Work t x)
    then show ?thesis using inout_inv_work[OF 2(3), of t x] by auto
  qed (use 2(3) inout_inv_post inout_inv_begin inout_inv_end in auto)
qed (rule inout_inv_init)

text \<open>A component that began, took one message, and was aborted while the object had it.\<close>

lemma demo_run:
  obtains s :: "nat inout_run" where "inout_reach 1 s" "accepted s = [7]" "io_abort (com s)" "tasks s = {#In_Flight 7#}"
    "io_queue (com s) = [7]" "taken s = []" "answers s = []" "begun s = 1" "post_end (com s)" "io_refs (com s) = 2"
proof -
  let ?s0 = "run_init 1 :: nat inout_run"
  let ?c1 = "(com ?s0)\<lparr>io_abort := False, post_end := True\<rparr>"
  let ?s1 = "?s0\<lparr>com := ?c1, begun := Suc (begun ?s0)\<rparr>"
  let ?s2 = "post_message 7 ?s1"
  have 1: "inout_reach 1 ?s1"
    by (rule inout_reach.intros(2)[OF inout_reach.intros(1) inout_step.Begin])
      (simp add: input_begin_def run_init_def inout_init_def)
  have 2: "inout_reach 1 ?s2"
    by (rule inout_reach.intros(2)[OF 1 inout_step.Post]) (simp add: run_init_def inout_init_def)
  have "tasks ?s2 = {#Start 7#}"
    by (simp add: post_message_def post_locked_def run_init_def inout_init_def new_task_def)
  then have t: "Start 7 \<in># tasks ?s2" by simp
  obtain s3 where s3: "run_task (Start 7) 0 ?s2 = Some s3" by (simp add: post_start_def)
  have 3: "inout_reach 1 s3" by (rule inout_reach.intros(2)[OF 2 inout_step.Work[OF t s3]])
  let ?s4 = "s3\<lparr>com := input_end (- EINTR) (com s3)\<rparr>"
  have "inout_reach 1 ?s4" by (rule inout_reach.intros(2)[OF 3 inout_step.End])
  moreover have "s3 = \<lparr>com = \<lparr>io_abort = False, io_queue = [7], post_end = True, io_refs = 2, ended = []\<rparr>,
      tasks = {#In_Flight 7#}, accepted = [7], answers = [], taken = [], finished = [], turned_away = [],
      refused = [], begun = 1\<rparr>"
    using s3 by (simp add: post_message_def post_locked_def run_init_def inout_init_def new_task_def
      post_start_def after_input_def answer_def)
  ultimately show thesis using that[of ?s4] by (simp add: input_end_def)
qed

text \<open>While \<^verbatim>\<open>done\<close> of a message is to be called, the one behind it has no result.\<close>

lemma next_waits:
  assumes "inout_inv r s" and t: "Finish m y (Some n) \<in># tasks s"
  shows "io_queue (com s) \<noteq> [] \<and> n = hd (io_queue (com s)) \<and> answered (answers s) = taken s"
proof -
  obtain T where T: "tasks s = add_mset (Finish m y (Some n)) T" using t by (metis multi_member_split)
  show ?thesis using driver_only[OF assms(1) T] by simp
qed

text \<open>A message that finds the queue empty may complete before the one that was taken out just before it.\<close>

theorem inout_overtakes:
  "\<exists>s :: nat inout_run. inout_reach 1 s \<and> accepted s = [7, 8] \<and> finished s = [(8, 6), (7, 5)] \<and> tasks s = {#}"
proof -
  let ?c = "\<lambda>q n. \<lparr>io_abort = False, io_queue = q, post_end = True, io_refs = n, ended = []\<rparr> :: nat inout"
  let ?s = "\<lambda>q n ts ac an tk fi. \<lparr>com = ?c q n, tasks = ts, accepted = ac, answers = an, taken = tk, finished = fi,
    turned_away = [], refused = [], begun = 1\<rparr> :: nat inout_run"
  note sections = post_message_def post_locked_def new_task_def post_start_def after_input_def answer_def inmsg_locked_def inmsg_finish_def
  have "inout_reach 1 (?s [] 1 {#} [] [] [] [])"
    using inout_reach.intros(2)[OF inout_reach.intros(1) inout_step.Begin, of 1 "?c [] 1"]
    by (simp add: input_begin_def run_init_def inout_init_def)
  from inout_reach.intros(2)[OF this inout_step.Post, of 7]
  have "inout_reach 1 (?s [7] 1 {#Start 7#} [7] [] [] [])" by (simp add: sections)
  from inout_reach.intros(2)[OF this inout_step.Work[where t = "Start 7" and r = 5]]
  have "inout_reach 1 (?s [7] 2 {#Loop 5#} [7] [(7, Some 5)] [] [])" by (simp add: sections)
  from inout_reach.intros(2)[OF this inout_step.Work[where t = "Loop 5" and r = 0]]
  have "inout_reach 1 (?s [] 2 {#Finish 7 5 None#} [7] [(7, Some 5)] [(7, 5)] [])" by (simp add: sections)
  from inout_reach.intros(2)[OF this inout_step.Post, of 8]
  have "inout_reach 1 (?s [8] 2 {#Finish 7 5 None, Start 8#} [7, 8] [(7, Some 5)] [(7, 5)] [])" by (simp add: sections add_mset_commute)
  from inout_reach.intros(2)[OF this inout_step.Work[where t = "Start 8" and r = 6]]
  have "inout_reach 1 (?s [8] 3 {#Finish 7 5 None, Loop 6#} [7, 8] [(7, Some 5), (8, Some 6)] [(7, 5)] [])"
    by (simp add: sections add_mset_commute)
  from inout_reach.intros(2)[OF this inout_step.Work[where t = "Loop 6" and r = 0]]
  have "inout_reach 1 (?s [] 3 {#Finish 7 5 None, Finish 8 6 None#} [7, 8] [(7, Some 5), (8, Some 6)] [(7, 5), (8, 6)] [])"
    by (simp add: sections add_mset_commute)
  from inout_reach.intros(2)[OF this inout_step.Work[where t = "Finish 8 6 None" and r = 0]]
  have "inout_reach 1 (?s [] 2 {#Finish 7 5 None#} [7, 8] [(7, Some 5), (8, Some 6)] [(7, 5), (8, 6)] [(8, 6)])"
    by (simp add: sections add_mset_commute)
  from inout_reach.intros(2)[OF this inout_step.Work[where t = "Finish 7 5 None" and r = 0]]
  have "inout_reach 1 (?s [] 1 {#} [7, 8] [(7, Some 5), (8, Some 6)] [(7, 5), (8, 6)] [(8, 6), (7, 5)])"
    by (simp add: sections)
  then show ?thesis by - (rule exI, rule conjI, assumption, simp)
qed

section \<open>Runs of the sections alone\<close>

text \<open>A number of sections, without new messages and new beginnings.\<close>

inductive inout_work :: "nat \<Rightarrow> 'm inout_run \<Rightarrow> 'm inout_run \<Rightarrow> bool" where
  "inout_work 0 s s"
| "t \<in># tasks s \<Longrightarrow> run_task t r s = Some s1 \<Longrightarrow> inout_work n s1 s2 \<Longrightarrow> inout_work (Suc n) s s2"

lemma inout_work_inv: "inout_work n s t \<Longrightarrow> inout_inv r s \<Longrightarrow> inout_inv r t"
proof (induction rule: inout_work.induct)
  case (2 t s x s1 n s2)
  then show ?case using inout_inv_work[OF 2(5,1), of x] by simp
qed

text \<open>
  How many sections there are before the queue of an aborted component is empty: three for each message, and those
  of the tasks.
\<close>

fun task_weight :: "'m task \<Rightarrow> nat" where
  "task_weight (Start m) = 3"
| "task_weight (In_Flight m) = 2"
| "task_weight (Loop r) = 1"
| "task_weight (Finish m r n) = (if n = None then 1 else 3)"
| "task_weight (Continue m) = 2"
| "task_weight (Refuse m) = 1"

definition drain_bound :: "'m inout_run \<Rightarrow> nat" where
  "drain_bound s = 3 * length (io_queue (com s)) + \<Sum>\<^sub># (image_mset task_weight (tasks s))"

lemma work_drains:
  assumes "t \<in># tasks s" and "run_task t x s = Some s'" and "io_abort (com s)"
  shows "drain_bound s' < drain_bound s" "io_abort (com s')" "accepted s' = accepted s" "begun s' = begun s"
proof -
  obtain T where T: "tasks s = add_mset t T" using assms(1) by (metis multi_member_split)
  have "drain_bound s' < drain_bound s \<and> io_abort (com s') \<and> accepted s' = accepted s \<and> begun s' = begun s"
  proof (cases t)
    case (Loop y)
    then show ?thesis using assms T
      by (cases "io_queue (com s)")
        (auto simp: drain_bound_def inmsg_locked_def call_post_end_def Let_def split: list.splits)
  next
    case (Finish m y n)
    then show ?thesis using assms T
      by (cases n) (auto simp: drain_bound_def inmsg_finish_def new_task_def)
  qed (use assms T in \<open>auto simp: drain_bound_def post_start_def after_input_def inmsg_continue_def\<close>)
  then show "drain_bound s' < drain_bound s" "io_abort (com s')" "accepted s' = accepted s" "begun s' = begun s"
    by auto
qed

lemma work_bound:
  "inout_work n s t \<Longrightarrow> io_abort (com s) \<Longrightarrow>
   n + drain_bound t \<le> drain_bound s \<and> io_abort (com t) \<and> accepted t = accepted s \<and> begun t = begun s"
  by (induction rule: inout_work.induct) (use work_drains in fastforce)+

lemma inv_idle:
  assumes "inout_inv r s" and "tasks s = {#}"
  shows "io_queue (com s) = []" "mset (finished s) = mset (answered (answers s))"
    "map fst (answered (answers s)) = accepted s" "io_refs (com s) = r"
    "mset (map fst (refused s)) = mset (turned_away s)"
  using assms by (auto simp: inout_inv_def driver_ok_def drivers_def split: if_splits)

text \<open>
  C7: every message that is accepted completes exactly once, with its own result.  In
  every state that threads and the object can bring about: the messages accepted are those taken out, in
  their order, followed by the queue; results are known in that order, for the first message of the queue at
  most, so one message is with the object at a time; \<^verbatim>\<open>done\<close> was called, or is about to be, once for each message
  taken out with the result known for it; a message that waited behind another is the first of the queue and has no
  result while \<^verbatim>\<open>done\<close> of the other is still to be called (one that found the queue empty may overtake,
  see \<open>inout_overtakes\<close>); a queue that is not empty has exactly one thread or the object that
  drives it, and an empty one has none; each of them but the poster before its \<^verbatim>\<open>addref\<close> holds a reference to
  the entity; and none of them finds the queue empty when it takes a message out.  When all of them ended,
  every accepted message was completed once, and all references were given back.
\<close>

theorem inout_exactly_once:
  assumes "inout_reach r s"
  shows "accepted s = map fst (taken s) @ io_queue (com s) \<and>
    (\<exists>now. answered (answers s) = taken s @ now \<and> length now \<le> 1) \<and>
    mset (taken s) = mset (finished s) + \<Sum>\<^sub># (image_mset finishing (tasks s)) \<and>
    (\<forall>m y n. Finish m y (Some n) \<in># tasks s \<longrightarrow>
       io_queue (com s) \<noteq> [] \<and> n = hd (io_queue (com s)) \<and> answered (answers s) = taken s) \<and>
    size (drivers s) = (if io_queue (com s) = [] then 0 else 1) \<and>
    io_refs (com s) = r + int (size (filter_mset holds_ref (tasks s))) \<and>
    (\<forall>t x. t \<in># tasks s \<longrightarrow> run_task t x s \<noteq> None) \<and>
    (tasks s = {#} \<longrightarrow> io_queue (com s) = [] \<and> mset (finished s) = mset (answered (answers s)) \<and>
       map fst (answered (answers s)) = accepted s \<and> io_refs (com s) = r)"
proof -
  note inv = inout_reach_inv[OF assms]
  have "length (known t q) \<le> 1" for t :: "'a task" and q by (cases t) auto
  then have "\<exists>now. answered (answers s) = taken s @ now \<and> length now \<le> 1"
    using inv by (auto simp: inout_inv_def driver_ok_def split: if_splits)
  moreover have "size (drivers s) = (if io_queue (com s) = [] then 0 else 1)"
    using inv by (auto simp: inout_inv_def driver_ok_def split: if_splits)
  moreover have "\<forall>t x. t \<in># tasks s \<longrightarrow> run_task t x s \<noteq> None" using inout_inv_work[OF inv] by fastforce
  moreover have "\<forall>m y n. Finish m y (Some n) \<in># tasks s \<longrightarrow>
      io_queue (com s) \<noteq> [] \<and> n = hd (io_queue (com s)) \<and> answered (answers s) = taken s"
    using next_waits[OF inv] by blast
  ultimately show ?thesis using inv inv_idle[OF inv] by (simp add: inout_inv_def)
qed

theorem inout_exactly_once_witness:
  "\<exists>s :: nat inout_run. inout_reach 1 s \<and> accepted s = [7] \<and> size (drivers s) = 1 \<and> io_refs (com s) = 2"
proof -
  obtain s :: "nat inout_run" where "inout_reach 1 s" "accepted s = [7]" "io_queue (com s) = [7]"
    "tasks s = {#In_Flight 7#}" using demo_run by metis
  then show ?thesis using inout_exactly_once[of 1 s] by auto
qed

text \<open>
  The end of an input is reported once.  In every reachable state \<^verbatim>\<open>on_post_end\<close> was called once for each
  \<^verbatim>\<open>_input_begin\<close>, except for the last one while it is still set; and it is not set any more when the component is
  aborted and its queue is empty, whoever came last, \<^verbatim>\<open>_input_end\<close> or the last message.  Messages that come after
  the abort get \<^verbatim>\<open>-EINTR\<close>, once each.
\<close>

theorem inout_post_end:
  assumes "inout_reach r s"
  shows "begun s = length (ended (com s)) + (if post_end (com s) then 1 else 0) \<and>
    (io_abort (com s) \<and> io_queue (com s) = [] \<longrightarrow> begun s = length (ended (com s))) \<and>
    mset (turned_away s) = mset (map fst (refused s)) + \<Sum>\<^sub># (image_mset refusing (tasks s)) \<and>
    snd ` set (refused s) \<subseteq> {- EINTR}"
  using inout_reach_inv[OF assms] by (auto simp: inout_inv_def)

theorem inout_post_end_witness:
  "\<exists>s :: nat inout_run. inout_reach 1 s \<and> post_end (com s) \<and> begun s = length (ended (com s)) + 1"
proof -
  obtain s :: "nat inout_run" where "inout_reach 1 s" "post_end (com s)" using demo_run by metis
  then show ?thesis using inout_post_end[of 1 s] by auto
qed

text \<open>
  C18: an aborted component drains.  From every reachable state in which \<^verbatim>\<open>_abort\<close> is set, threads and the object run
  at most \<open>drain_bound\<close> sections, in any order; as long as one of them has not ended another section can run;
  and when all have ended the queue is empty, every accepted message was completed once, every message that
  was turned away got \<^verbatim>\<open>-EINTR\<close>, \<^verbatim>\<open>on_post_end\<close> was called for every beginning, and only the references from before
  are left.
\<close>

theorem inout_drains:
  assumes "inout_reach r s" and "io_abort (com s)" and "inout_work n s t"
  shows "n \<le> drain_bound s \<and>
    (if tasks t = {#}
     then io_queue (com t) = [] \<and> mset (map fst (finished t)) = mset (accepted s) \<and>
       mset (map fst (refused t)) = mset (turned_away t) \<and> begun s = length (ended (com t)) \<and> io_refs (com t) = r
     else \<exists>u. inout_work (Suc n) s u)"
proof -
  have inv: "inout_inv r t" using inout_work_inv[OF assms(3)] inout_reach_inv[OF assms(1)] .
  note b = work_bound[OF assms(3,2)]
  have more: "inout_work n s t \<Longrightarrow> x \<in># tasks t \<Longrightarrow> run_task x y t = Some u \<Longrightarrow> inout_work (Suc n) s u" for x y u
    by (induction rule: inout_work.induct) (auto intro: inout_work.intros)
  show ?thesis
  proof (cases "tasks t = {#}")
    case True
    note idle = inv_idle[OF inv True]
    have "mset (map fst (finished t)) = mset (accepted t)"
      using arg_cong[OF idle(2), of "image_mset fst"] idle(3) by (metis mset_map)
    moreover have "begun t = length (ended (com t))" using inv idle(1) b by (auto simp: inout_inv_def)
    ultimately show ?thesis using True idle b by simp
  next
    case False
    then obtain x where x: "x \<in># tasks t" by blast
    then show ?thesis using False inout_inv_work[OF inv x] more[OF assms(3) x] b by fastforce
  qed
qed

theorem inout_drains_witness:
  "\<exists>s t :: nat inout_run. inout_reach 1 s \<and> io_abort (com s) \<and> inout_work 3 s t \<and> tasks t = {#} \<and>
     ended (com t) = [9] \<and> mset (map fst (finished t)) = {#7#} \<and> io_refs (com t) = 1"
proof -
  obtain s :: "nat inout_run" where s: "inout_reach 1 s" "accepted s = [7]" "io_abort (com s)" "tasks s = {#In_Flight 7#}"
    "io_queue (com s) = [7]" "taken s = []" "answers s = []" "begun s = 1" "post_end (com s)" "io_refs (com s) = 2"
    by (rule demo_run)
  obtain s1 where s1: "run_task (In_Flight 7) 9 s = Some s1" by simp
  then have c1: "tasks s1 = {#Loop 9#}" "com s1 = com s" using s(4) by auto
  obtain s2 where s2: "run_task (Loop 9) 0 s1 = Some s2"
    using c1 s(5) by (simp add: inmsg_locked_def Let_def)
  then have c2: "tasks s2 = {#Finish 7 9 None#}" "ended (com s2) = ended (com s) @ [9]"
    using c1 s by (auto simp: inmsg_locked_def call_post_end_def Let_def)
  obtain s3 where s3: "run_task (Finish 7 9 None) 0 s2 = Some s3" by (simp add: inmsg_finish_def)
  then have c3: "tasks s3 = {#}" "ended (com s3) = ended (com s) @ [9]"
    using c2 by (auto simp: inmsg_finish_def new_task_def)
  have "inout_work 3 s s3"
    unfolding numeral_3_eq_3
    by (rule inout_work.intros(2)[OF _ s1], simp add: s(4))
      (rule inout_work.intros(2)[OF _ s2], simp add: c1,
       rule inout_work.intros(2)[OF _ s3], simp add: c2, rule inout_work.intros(1))
  moreover have "ended (com s) = []" using inout_reach_inv[OF s(1)] s(8,9) by (simp add: inout_inv_def)
  ultimately show ?thesis using inout_drains[OF s(1,3), of 3 s3] s(1,2,3) c3 by auto
qed

end
