(* ===== verification/Inout_Output.thy ===== *)
theory Inout_Output
  imports Slice
begin

text \<open>
  The output of an input/output object (\<^verbatim>\<open>_outmsg_done\<close> of \<^verbatim>\<open>ecs/AInOutComponent.cpp\<close> and \<^verbatim>\<open>_output_cycle\<close> of
  \<^verbatim>\<open>ecs/AInOutComponent.h\<close>): the object stores bytes behind those in the buffer, and \<^verbatim>\<open>on_output\<close> takes bytes out.  In a
  cycle the object completes many times, each one a round of the loop, whether \<^verbatim>\<open>output\<close> returns the result or
  the object reports it later and calls \<^verbatim>\<open>_outmsg.done\<close>.
\<close>

section \<open>Rounds of the loop\<close>

text \<open>
  \<open>arrived\<close> are the bytes that the object stored and that are not counted in the buffer yet.  \<open>received\<close>, \<open>handed\<close> and
  \<open>told\<close> record the bytes that were counted, those that \<^verbatim>\<open>on_output\<close> took, and the results it was given.
\<close>

record outcom =
  out_buf :: "u8 slice option"
  out_size :: int
  out_refs :: int
  arrived :: "u8 list"
  received :: "u8 list"
  handed :: "u8 list"
  told :: "int list"

text \<open>What the callback and the object do in a round.\<close>

record out_round =
  takes :: nat
  on_output_result :: int
  space :: bool
  io_result :: int
  io_bytes :: "u8 list"
  later_result :: int

datatype outcome = Returned int | Waiting int | Again int

definition AMsgType_Class :: int where "AMsgType_Class = 0x10000000"

definition call_on_output :: "out_round \<Rightarrow> int \<Rightarrow> outcom \<Rightarrow> int \<times> outcom" where
  "call_on_output t result c =
     (let c = c\<lparr>told := told c @ [result]\<rparr> in
      (on_output_result t,
       case out_buf c of
         None \<Rightarrow> c
       | Some b \<Rightarrow> (let k = min (takes t) (nat (slice_len b)) in
           c\<lparr>out_buf := Some (slice_pop (int k) b), handed := handed c @ take k (slice_items b)\<rparr>)))"

text \<open>\<^verbatim>\<open>output(msg, buf)\<close>: the message is the space behind the bytes of the buffer; the object stores at most as many.\<close>

definition io_output :: "out_round \<Rightarrow> outcom \<Rightarrow> outcom option" where
  "io_output t c =
     (case out_buf c of
        None \<Rightarrow> None
      | Some b \<Rightarrow>
          let bs = take (nat (slice_left b)) (io_bytes t) in
          if fin b < 0 then None
          else do {
            m \<leftarrow> copy_in (cells b) (nat (fin b)) (map Some bs);
            Some (c\<lparr>out_buf := Some (b\<lparr>cells := m\<rparr>), out_size := int (length bs), arrived := bs\<rparr>)
          })"

definition out_pushed :: "int \<Rightarrow> outcom \<Rightarrow> outcom option" where
  "out_pushed result c =
     (if result \<ge> 0
      then case out_buf c of
          None \<Rightarrow> None
        | Some b \<Rightarrow> Some (c\<lparr>out_buf := Some (slice_push (out_size c) b), received := received c @ arrived c, arrived := []\<rparr>)
      else Some (c\<lparr>arrived := []\<rparr>))"

definition out_request :: "out_round \<Rightarrow> outcom \<Rightarrow> (outcome \<times> outcom) option" where
  "out_request t c =
     (case out_buf c of
        None \<Rightarrow> None
      | Some b \<Rightarrow> do {
          (result, buf, old) \<leftarrow> slice_reserve (space t) (Some b) 512 (slice_size b);
          let c = c\<lparr>out_buf := buf\<rparr>;
          if result \<ge> 0
          then do {
            c \<leftarrow> io_output t c;
            Some (if io_result t = 0 then Waiting (later_result t) else Again (io_result t), c)
          }
          else Some (Again result, c)
        })"

definition outmsg_round :: "int \<Rightarrow> out_round \<Rightarrow> outcom \<Rightarrow> (outcome \<times> outcom) option" where
  "outmsg_round result t c = do {
     c \<leftarrow> out_pushed result c;
     if result < 0 \<or> map_option slice_len (out_buf c) \<noteq> Some 0
     then let (result, c) = call_on_output t result c in
       if result = 0 then Some (Returned 0, c)
       else if result < 0 \<or> result \<ge> AMsgType_Class then Some (Returned result, c\<lparr>out_refs := out_refs c - 1\<rparr>)
       else out_request t c
     else out_request t c
   }"

text \<open>The rounds of a cycle, until the handler returns or the list of rounds ends.\<close>

fun out_rounds :: "int \<Rightarrow> out_round list \<Rightarrow> outcom \<Rightarrow> (int option \<times> outcom) option" where
  "out_rounds result [] c = Some (None, c)"
| "out_rounds result (t # ts) c = do {
     (out, c) \<leftarrow> outmsg_round result t c;
     case out of
       Returned r \<Rightarrow> Some (Some r, c)
     | Waiting r \<Rightarrow> out_rounds r ts c
     | Again r \<Rightarrow> out_rounds r ts c
   }"

definition output_cycle :: "bool \<Rightarrow> int \<Rightarrow> int \<Rightarrow> out_round list \<Rightarrow> outcom \<Rightarrow> (int option \<times> outcom) option" where
  "output_cycle alloc ressiz bufsiz ts c = do {
     let c = c\<lparr>out_refs := out_refs c + 1\<rparr>;
     (result, buf, old) \<leftarrow> slice_reserve alloc (out_buf c) ressiz bufsiz;
     out_rounds result ts (c\<lparr>out_buf := buf, out_size := 0, arrived := []\<rparr>)
   }"

section \<open>The buffer\<close>

text \<open>The bytes that arrived are behind those of the buffer, and no byte is lost.\<close>

definition out_inv :: "int \<Rightarrow> u8 list \<Rightarrow> outcom \<Rightarrow> bool" where
  "out_inv r start c = (out_refs c = r \<and>
     (\<exists>b. out_buf c = Some b \<and> slice_ok b \<and> handed c @ slice_items b = start @ received c))"

definition stored :: "outcom \<Rightarrow> bool" where
  "stored c = (\<exists>b p. out_buf c = Some b \<and> slice_push (out_size c) b = p \<and> slice_ok p \<and>
     slice_items p = slice_items b @ arrived c)"

lemma stored_cell:
  assumes "slice_ok b" and "m = take (nat (fin b)) (cells b) @ xs @ drop (nat (fin b) + length xs) (cells b)"
    and "nat (fin b) + length xs \<le> length (cells b)"
  shows "slice_ok (b\<lparr>cells := m\<rparr>)" and "slice_items (b\<lparr>cells := m\<rparr>) = slice_items b"
proof -
  have f: "nat (fin b) \<le> length (cells b)" "nat (bgn b) + nat (slice_len b) = nat (fin b)" using slice_bounds[OF assms(1)] by simp_all
  have same: "m ! i = cells b ! i" if "i < nat (fin b)" for i using that f by (simp add: assms(2) nth_append)
  have "length m = length (cells b)" using assms(3) f by (simp add: assms(2))
  then show "slice_ok (b\<lparr>cells := m\<rparr>)" using assms(1) same by (auto simp: slice_ok_def zless_nat_eq_int_zless)
  have "take (nat (slice_len b)) (drop (nat (bgn b)) m) = take (nat (slice_len b)) (drop (nat (bgn b)) (cells b))"
    by (rule nth_equalityI) (use \<open>length m = _\<close> same f in auto)
  then show "slice_items (b\<lparr>cells := m\<rparr>) = slice_items b" by (simp add: slice_items_def slice_len_def)
qed

lemma io_output_stored:
  assumes "out_inv r start c"
  obtains c' where "io_output t c = Some c'" and "out_inv r start c'" and "stored c'"
proof -
  obtain b where b: "out_buf c = Some b" "slice_ok b" "handed c @ slice_items b = start @ received c" "out_refs c = r"
    using assms by (auto simp: out_inv_def)
  obtain bs where bs: "bs = take (nat (slice_left b)) (io_bytes t)" by blast
  have room: "int (length bs) \<le> slice_left b" using slice_bounds[OF b(2)] by (simp add: bs)
  obtain p where p: "slice_mempush (map Some bs) b = Some p" "slice_ok p" "slice_items p = slice_items b @ bs"
    using slice_mempush_items[OF b(2) room] by metis
  have fin: "\<not> fin b < 0" using b(2) by (simp add: slice_ok_def)
  have fits: "nat (fin b) + length bs \<le> length (cells b)" using room b(2) by (auto simp: slice_left_def slice_ok_def)
  obtain m where m: "copy_in (cells b) (nat (fin b)) (map Some bs) = Some m"
    "m = take (nat (fin b)) (cells b) @ map Some bs @ drop (nat (fin b) + length bs) (cells b)"
    using fits by (auto simp: copy_in_def)
  have kept: "slice_ok (b\<lparr>cells := m\<rparr>)" "slice_items (b\<lparr>cells := m\<rparr>) = slice_items b"
    using stored_cell[OF b(2), of m "map Some bs"] m(2) fits by simp_all
  have "p = slice_push (int (length bs)) (b\<lparr>cells := m\<rparr>)" using p(1) m(1) fin by (simp add: slice_mempush_def)
  then have "stored (c\<lparr>out_buf := Some (b\<lparr>cells := m\<rparr>), out_size := int (length bs), arrived := bs\<rparr>)"
    using p kept by (simp add: stored_def)
  moreover have "io_output t c = Some (c\<lparr>out_buf := Some (b\<lparr>cells := m\<rparr>), out_size := int (length bs), arrived := bs\<rparr>)"
    using b(1) fin m(1) by (simp add: io_output_def bs[symmetric])
  ultimately show thesis using that b kept by (auto simp: out_inv_def)
qed

lemma out_pushed_inv:
  assumes "out_inv r start c" and "0 \<le> result \<Longrightarrow> stored c"
  obtains c' where "out_pushed result c = Some c'" and "out_inv r start c'"
  using assms by (cases "0 \<le> result") (fastforce simp: out_pushed_def out_inv_def stored_def)+

lemma call_on_output_inv:
  assumes "out_inv r start c"
  shows "out_inv r start (snd (call_on_output t result c))"
proof -
  obtain b where b: "out_buf c = Some b" "slice_ok b" "handed c @ slice_items b = start @ received c" "out_refs c = r"
    using assms by (auto simp: out_inv_def)
  let ?k = "min (takes t) (nat (slice_len b))"
  have k: "0 \<le> int ?k" "int ?k \<le> slice_len b" using slice_bounds[OF b(2)] by simp_all
  note pop = slice_pop_items[OF b(2) k]
  have "handed c @ take ?k (slice_items b) @ drop ?k (slice_items b) = start @ received c"
    using b(3) by (simp only: append_take_drop_id)
  then show ?thesis using b pop(1,2) by (simp add: call_on_output_def out_inv_def Let_def)
qed

lemma out_request_inv:
  assumes "out_inv r start c"
  obtains out c' where "out_request t c = Some (out, c')" and "out_inv r start c'"
    and "(\<exists>x. out = Waiting x \<and> stored c') \<or> (\<exists>x. out = Again x \<and> (0 \<le> x \<longrightarrow> stored c'))"
proof -
  obtain b where b: "out_buf c = Some b" "slice_ok b" "handed c @ slice_items b = start @ received c" "out_refs c = r"
    using assms by (auto simp: out_inv_def)
  obtain x b' old where res: "slice_reserve (space t) (Some b) 512 (slice_size b) = Some (x, Some b', old)"
    "slice_ok b'" "slice_items b' = slice_items b" using slice_reserve_ok[OF b(2), of 512 "space t" "slice_size b"] by auto
  let ?c = "c\<lparr>out_buf := Some b'\<rparr>"
  have inv: "out_inv r start ?c" using b res by (simp add: out_inv_def)
  show thesis
  proof (cases "0 \<le> x")
    case True
    obtain c' where c': "io_output t ?c = Some c'" "out_inv r start c'" "stored c'" using io_output_stored[OF inv] .
    then have "out_request t c = Some (if io_result t = 0 then Waiting (later_result t) else Again (io_result t), c')"
      using True b(1) res(1) by (simp add: out_request_def Let_def)
    then show thesis using that[OF _ c'(2)] c'(3) by (cases "io_result t = 0") auto
  next
    case False
    then have "out_request t c = Some (Again x, ?c)" using b(1) res(1) by (simp add: out_request_def Let_def)
    then show thesis using that[OF _ inv] False by blast
  qed
qed

text \<open>A round either ends the cycle, and has given the reference up unless it returns 0, or goes on.\<close>

lemma outmsg_round_inv:
  assumes inv: "out_inv r start c" and st: "0 \<le> result \<Longrightarrow> stored c"
  obtains out c' where "outmsg_round result t c = Some (out, c')"
    and "(\<exists>x. out = Returned x \<and> out_inv (if x = 0 then r else r - 1) start c' \<and> (x \<le> 0 \<or> AMsgType_Class \<le> x)) \<or>
      (\<exists>x. (out = Waiting x \<or> out = Again x) \<and> out_inv r start c' \<and> (0 \<le> x \<longrightarrow> stored c'))"
proof -
  obtain c1 where c1: "out_pushed result c = Some c1" "out_inv r start c1" using out_pushed_inv[OF assms] by blast
  obtain y c2 where call: "call_on_output t result c1 = (y, c2)" by fastforce
  then have c2: "out_inv r start c2" using call_on_output_inv[OF c1(2), of t result] by simp
  have lower: "out_inv (r - 1) start (c2\<lparr>out_refs := out_refs c2 - 1\<rparr>)" using c2 by (auto simp: out_inv_def)
  have request: "\<exists>out c'. out_request t d = Some (out, c') \<and>
      (\<exists>x. (out = Waiting x \<or> out = Again x) \<and> out_inv r start c' \<and> (0 \<le> x \<longrightarrow> stored c'))" if "out_inv r start d" for d
    using out_request_inv[OF that, of t] by (metis (no_types))
  let ?ask = "result < 0 \<or> map_option slice_len (out_buf c1) \<noteq> Some 0"
  consider "\<not> ?ask" | "?ask" "y = 0" | "?ask" "y \<noteq> 0" "y < 0 \<or> AMsgType_Class \<le> y" | "?ask" "y \<noteq> 0" "\<not> (y < 0 \<or> AMsgType_Class \<le> y)"
    by blast
  then show thesis
  proof cases
    case 1
    have "outmsg_round result t c = out_request t c1"
      unfolding outmsg_round_def c1(1) bind.bind_lunit if_not_P[OF 1] by (rule refl)
    then show thesis using request[OF c1(2)] that by metis
  next
    case 2
    then have "outmsg_round result t c = Some (Returned 0, c2)" using c1(1) call by (simp add: outmsg_round_def)
    then show thesis using that c2 by fastforce
  next
    case 3
    then have "outmsg_round result t c = Some (Returned y, c2\<lparr>out_refs := out_refs c2 - 1\<rparr>)"
      using c1(1) call by (auto simp: outmsg_round_def)
    then show thesis using that[of "Returned y"] lower 3 by fastforce
  next
    case 4
    then have "outmsg_round result t c = out_request t c2" using c1(1) call by (simp add: outmsg_round_def)
    then show thesis using request[OF c2] that by metis
  qed
qed

lemma out_rounds_inv:
  "out_inv r start c \<Longrightarrow> (0 \<le> result \<Longrightarrow> stored c) \<Longrightarrow> \<exists>e c'. out_rounds result ts c = Some (e, c') \<and>
    out_inv (if e = None \<or> e = Some 0 then r else r - 1) start c' \<and>
    (case e of None \<Rightarrow> True | Some x \<Rightarrow> x \<le> 0 \<or> AMsgType_Class \<le> x)"
proof (induction ts arbitrary: result c)
  case (Cons t ts)
  have "\<exists>out c'. outmsg_round result t c = Some (out, c') \<and>
    ((\<exists>x. out = Returned x \<and> out_inv (if x = 0 then r else r - 1) start c' \<and> (x \<le> 0 \<or> AMsgType_Class \<le> x)) \<or>
      (\<exists>x. (out = Waiting x \<or> out = Again x) \<and> out_inv r start c' \<and> (0 \<le> x \<longrightarrow> stored c')))"
    by (rule outmsg_round_inv[where r = r and start = start and c = c and result = result and t = t])
      (use Cons.prems in \<open>simp_all only: refl simp_thms\<close>, blast)
  then obtain out c' where o: "outmsg_round result t c = Some (out, c')"
    "(\<exists>x. out = Returned x \<and> out_inv (if x = 0 then r else r - 1) start c' \<and> (x \<le> 0 \<or> AMsgType_Class \<le> x)) \<or>
      (\<exists>x. (out = Waiting x \<or> out = Again x) \<and> out_inv r start c' \<and> (0 \<le> x \<longrightarrow> stored c'))" by (elim exE conjE)
  then consider (returned) x where "out = Returned x" "out_inv (if x = 0 then r else r - 1) start c'" "x \<le> 0 \<or> AMsgType_Class \<le> x"
    | (waiting) x where "out = Waiting x" "out_inv r start c'" "0 \<le> x \<longrightarrow> stored c'"
    | (again) x where "out = Again x" "out_inv r start c'" "0 \<le> x \<longrightarrow> stored c'" by blast
  then show ?case
  proof cases
    case returned
    then show ?thesis using o(1) by simp
  next
    case waiting
    then show ?thesis using o(1) Cons.IH[of c' x] by simp
  next
    case again
    then show ?thesis using o(1) Cons.IH[of c' x] by simp
  qed
qed simp

definition out_start :: "u8 slice option \<Rightarrow> int \<Rightarrow> outcom" where
  "out_start buf r = \<lparr>out_buf = buf, out_size = 0, out_refs = r, arrived = [], received = [], handed = [], told = []\<rparr>"

text \<open>
  C19: output loses no byte.  A cycle of output with any answers of the object and of \<^verbatim>\<open>on_output\<close>, results at once or
  later, errors and buffers that cannot be enlarged included, never leaves the buffer's array; the bytes that \<^verbatim>\<open>on_output\<close>
  took and those still in the buffer are at every time those that were in the buffer and then those that
  arrived, in order, each once; and the reference that the cycle took is given up exactly once, when the handler returns an error
  or the type of a message, and is kept while the object or \<^verbatim>\<open>on_output\<close> is busy.
\<close>

theorem output_cycle_keeps_bytes:
  assumes "case buf of None \<Rightarrow> alloc | Some b \<Rightarrow> slice_ok b" and "0 \<le> ressiz"
  shows "\<exists>e c b. output_cycle alloc ressiz bufsiz ts (out_start buf r) = Some (e, c) \<and> out_buf c = Some b \<and> slice_ok b \<and>
    handed c @ slice_items b = (case buf of None \<Rightarrow> [] | Some b \<Rightarrow> slice_items b) @ received c \<and>
    out_refs c = (if e = None \<or> e = Some 0 then r + 1 else r) \<and>
    (case e of None \<Rightarrow> True | Some x \<Rightarrow> x \<le> 0 \<or> AMsgType_Class \<le> x)"
proof -
  let ?start = "case buf of None \<Rightarrow> [] | Some b \<Rightarrow> slice_items b"
  obtain x b old where b: "slice_reserve alloc buf ressiz bufsiz = Some (x, Some b, old)" "slice_ok b" "slice_items b = ?start"
  proof (cases buf)
    case None
    have "0 \<le> max ressiz bufsiz" using assms(2) by simp
    note new = slice_create_ok[OF this refl]
    show thesis using that[OF _ new(1)] new(2) None assms(1) by (simp add: slice_reserve_def slice_create_def)
  next
    case (Some s)
    then show thesis using that slice_reserve_ok[of s ressiz alloc bufsiz] assms by auto
  qed
  let ?c = "(out_start buf r)\<lparr>out_refs := r + 1, out_buf := Some b, out_size := 0, arrived := []\<rparr>"
  have "out_inv (r + 1) ?start ?c" using b by (simp add: out_inv_def out_start_def)
  moreover have "stored ?c" using b(2) by (auto simp: stored_def slice_push_def)
  moreover have "output_cycle alloc ressiz bufsiz ts (out_start buf r) = out_rounds x ts ?c"
    using b(1) by (simp add: output_cycle_def out_start_def)
  ultimately show ?thesis
    using out_rounds_inv[of "r + 1" ?start ?c x ts] by (fastforce simp: out_inv_def split: if_splits)
qed

theorem output_cycle_keeps_bytes_witness:
  "\<exists>e c b. output_cycle True 4 4 [\<lparr>takes = 0, on_output_result = 1, space = True, io_result = 2, io_bytes = [7, 8], later_result = 0\<rparr>,
       \<lparr>takes = 1, on_output_result = 1, space = False, io_result = 0, io_bytes = [9], later_result = - 5\<rparr>,
       \<lparr>takes = 0, on_output_result = - 1, space = True, io_result = 0, io_bytes = [], later_result = 0\<rparr>] (out_start None 1) = Some (e, c) \<and>
     out_buf c = Some b \<and> slice_ok b \<and> handed c @ slice_items b = [] @ received c \<and>
     out_refs c = (if e = None \<or> e = Some 0 then 1 + 1 else 1) \<and> (case e of None \<Rightarrow> True | Some x \<Rightarrow> x \<le> 0 \<or> AMsgType_Class \<le> x)"
  using output_cycle_keeps_bytes[where buf = None and alloc = True and ressiz = 4 and r = 1] by simp

end
