(* ===== verification/System.thy ===== *)
theory System
  imports Entity_Manager Client "HOL-Library.Sublist"
begin

text \<open>
  Systems and their manager (\<^verbatim>\<open>ecs/ASystem.h\<close>, \<^verbatim>\<open>ecs/ASystem.cpp\<close>).  A system is a table of functions that check the
  entities for work and execute the results; the manager asks all systems, on a timer, and executes what they
  found.

  The functions of a system act on a state \<open>'p\<close> that is theirs, and so does \<open>man\<close>, which gives the entity manager in it,
  since a check may take an entity out.  \<open>_all_systems\<close> with the ring of its class is a list, empty when it is \<^verbatim>\<open>NULL\<close>;
  a result has the position of its system in this list and an identity \<open>'r\<close>, whose status \<open>stat\<close> gives.
\<close>

section \<open>Systems\<close>

record ('r, 'p) asystem =
  sys_regist :: "(addr \<Rightarrow> 'p \<Rightarrow> 'p) option"
  sys_unregist :: "(addr \<Rightarrow> 'p \<Rightarrow> 'p) option"
  sys_clear_all :: "(bool \<Rightarrow> 'p \<Rightarrow> 'p) option"
  sys_check_all :: "(32 word \<Rightarrow> 'p \<Rightarrow> int \<times> 'r list \<times> 'p) option"
  sys_check_one :: "(32 word \<Rightarrow> addr \<Rightarrow> 'p \<Rightarrow> 'r option \<times> 'p) option"
  exec_run :: "'r \<Rightarrow> int \<Rightarrow> 'p \<Rightarrow> int \<times> 'p"
  exec_abort :: "'r \<Rightarrow> 'p \<Rightarrow> int \<times> 'p"

definition sys_exec :: "('r, 'p) asystem \<Rightarrow> system_status \<Rightarrow> 'r \<Rightarrow> 'p \<Rightarrow> int \<times> 'p" where
  "sys_exec sy st r p =
     (case st of
        Runnable \<Rightarrow> exec_run sy r 0 p
      | Aborting \<Rightarrow> exec_abort sy r p
      | _ \<Rightarrow> (- EINVAL, p))"

definition SM_regist :: "('r, 'p) asystem list \<Rightarrow> addr \<Rightarrow> 'p \<Rightarrow> 'p" where
  "SM_regist sys e p = fold (\<lambda>sy p. case sys_regist sy of None \<Rightarrow> p | Some f \<Rightarrow> f e p) sys p"

definition SM_unregist :: "('r, 'p) asystem list \<Rightarrow> addr \<Rightarrow> 'p \<Rightarrow> 'p" where
  "SM_unregist sys e p = fold (\<lambda>sy p. case sys_unregist sy of None \<Rightarrow> p | Some f \<Rightarrow> f e p) sys p"

definition SM_clear_allsys :: "('r, 'p) asystem list \<Rightarrow> bool \<Rightarrow> 'p \<Rightarrow> 'p" where
  "SM_clear_allsys sys abort p = fold (\<lambda>sy p. case sys_clear_all sy of None \<Rightarrow> p | Some f \<Rightarrow> f abort p) sys p"

fun SM_exec_results ::
    "('p \<Rightarrow> 'r \<Rightarrow> system_status) \<Rightarrow> ('r, 'p) asystem list \<Rightarrow> (nat \<times> 'r) list \<Rightarrow> 'p \<Rightarrow> 'p" where
  "SM_exec_results stat sys [] p = p"
| "SM_exec_results stat sys ((k, r) # rs) p = SM_exec_results stat sys rs (snd (sys_exec (sys ! k) (stat p r) r p))"

section \<open>Checks\<close>

text \<open>The systems from position \<open>k\<close> on are asked about one entity; their results go to the end of \<open>xs\<close>.\<close>

fun check_one_from ::
    "nat \<Rightarrow> ('r, 'p) asystem list \<Rightarrow> 32 word \<Rightarrow> addr \<Rightarrow> int \<Rightarrow> (nat \<times> 'r) list \<Rightarrow> 'p \<Rightarrow> int \<times> (nat \<times> 'r) list \<times> 'p" where
  "check_one_from k [] tick e count xs p = (count, xs, p)"
| "check_one_from k (sy # sys) tick e count xs p =
     (case sys_check_one sy of
        None \<Rightarrow> check_one_from (Suc k) sys tick e count xs p
      | Some f \<Rightarrow>
          (case f tick e p of
             (None, p) \<Rightarrow> check_one_from (Suc k) sys tick e count xs p
           | (Some r, p) \<Rightarrow> check_one_from (Suc k) sys tick e (count + 1) (xs @ [(k, r)]) p))"

definition SM_check_one ::
    "('r, 'p) asystem list \<Rightarrow> 32 word \<Rightarrow> addr \<Rightarrow> (nat \<times> 'r) list \<Rightarrow> 'p \<Rightarrow> int \<times> (nat \<times> 'r) list \<times> 'p" where
  "SM_check_one sys tick e xs p = check_one_from 0 sys tick e 0 xs p"

text \<open>
  The entities after the last one, in the order of the map, up to one with a result, which then is the last one;
  the result, the last entity, the results and the state.
\<close>

partial_function (option) check_entities_from ::
    "('p \<Rightarrow> entity_manager) \<Rightarrow> ('r, 'p) asystem list \<Rightarrow> 32 word \<Rightarrow> addr \<Rightarrow> int \<Rightarrow> (nat \<times> 'r) list \<Rightarrow> 'p \<Rightarrow>
     (int \<times> addr \<times> (nat \<times> 'r) list \<times> 'p) option" where
  "check_entities_from man sys tick last_entity result xs p =
     (if last_entity = NULL then Some (result, last_entity, xs, p)
      else let (result, xs, p) = SM_check_one sys tick last_entity xs p
           in if result > 0 then Some (result, last_entity, xs, p)
              else do {
                nxt \<leftarrow> EM_next last_entity (man p);
                check_entities_from man sys tick nxt result xs p
              })"

definition SM_check_entities ::
    "('p \<Rightarrow> entity_manager) \<Rightarrow> ('r, 'p) asystem list \<Rightarrow> 32 word \<Rightarrow> addr \<Rightarrow> (nat \<times> 'r) list \<Rightarrow> 'p \<Rightarrow>
     (int \<times> addr \<times> (nat \<times> 'r) list \<times> 'p) option" where
  "SM_check_entities man sys tick last_entity xs p = do {
     cur \<leftarrow> EM_upper last_entity (man p);
     check_entities_from man sys tick cur 0 xs p
   }"

fun check_all_sys ::
    "nat \<Rightarrow> ('r, 'p) asystem list \<Rightarrow> 32 word \<Rightarrow> int \<Rightarrow> (nat \<times> 'r) list \<Rightarrow> 'p \<Rightarrow> int \<times> (nat \<times> 'r) list \<times> 'p" where
  "check_all_sys k [] tick count xs p = (count, xs, p)"
| "check_all_sys k (sy # sys) tick count xs p =
     (case sys_check_all sy of
        None \<Rightarrow> check_all_sys (Suc k) sys tick count xs p
      | Some f \<Rightarrow>
          (let (n, rs, p) = f tick p in check_all_sys (Suc k) sys tick (count + n) (xs @ map (Pair k) rs) p))"

definition SM_check_allsys ::
    "('r, 'p) asystem list \<Rightarrow> 32 word \<Rightarrow> (nat \<times> 'r) list \<Rightarrow> 'p \<Rightarrow> int \<times> (nat \<times> 'r) list \<times> 'p" where
  "SM_check_allsys sys tick xs p = check_all_sys 0 sys tick 0 xs p"

section \<open>Operators\<close>

text \<open>
  The manager has two operators, one for all systems and one for the entities.  Of an operator it matters here whether a
  thread has it: not at all, until a time is over, or to be called at once.  Putting one to a thread that has it already
  would link it twice, and has no result.  A signal takes one that waits to those called at once, and leaves the others.
\<close>

datatype asop = Op_Idle | Op_Waiting "32 word" | Op_Posted

definition op_arm :: "asop \<Rightarrow> asop \<Rightarrow> asop option" where
  "op_arm new old = (if old = Op_Idle then Some new else None)"

definition op_delay :: "32 word \<Rightarrow> asop" where
  "op_delay t = (if t = 0 then Op_Posted else Op_Waiting t)"

definition op_signal :: "asop \<Rightarrow> asop" where
  "op_signal x = (case x of Op_Waiting t \<Rightarrow> Op_Posted | _ \<Rightarrow> x)"

text \<open>
  \<open>systems_done\<close> and \<open>entities_done\<close> say whether \<^verbatim>\<open>done\<close> of the operator is set, \<open>all_entities\<close> whether there is an entity
  manager, whose members are \<open>tick_entities\<close>, \<open>last_ent\<close>, \<open>entities_done\<close>, \<open>entities_op\<close> and \<open>entities_sysmng\<close>.
\<close>

record sysman =
  tick_systems :: "32 word"
  check_entities_when_idle :: bool
  systems_done :: bool
  systems_op :: asop
  all_entities :: bool
  tick_entities :: "32 word"
  last_ent :: addr
  entities_done :: bool
  entities_op :: asop
  entities_sysmng :: bool

section \<open>Callbacks\<close>

text \<open>
  The callbacks are cut where another thread may run: the test at the start; the checks; for the systems the delay is
  computed and then posted; for the entities the operator is delayed, or posted before the results are executed.
\<close>

definition systems_begin :: "int \<Rightarrow> sysman \<Rightarrow> bool \<times> sysman" where
  "systems_begin result sm =
     (if result < 0 \<or> tick_systems sm = 0 then (False, sm\<lparr>systems_done := False\<rparr>) else (True, sm))"

definition systems_check ::
    "('p \<Rightarrow> entity_manager) \<Rightarrow> ('p \<Rightarrow> 'r \<Rightarrow> system_status) \<Rightarrow> ('r, 'p) asystem list \<Rightarrow> 32 word \<Rightarrow> 32 word \<Rightarrow>
     sysman \<Rightarrow> 'p \<Rightarrow> (int \<times> sysman \<times> 'p) option" where
  "systems_check man stat sys now now2 sm p =
     (let (result, xs, p) = SM_check_allsys sys now [] p
      in do {
        (result, last_entity, xs, p) \<leftarrow>
          (if xs = [] \<and> check_entities_when_idle sm \<and> all_entities sm
           then SM_check_entities man sys now2 (last_ent sm) [] p
           else Some (result, last_ent sm, xs, p));
        Some (result, sm\<lparr>last_ent := last_entity\<rparr>, SM_exec_results stat sys xs p)
      })"

definition systems_arm :: "32 word \<Rightarrow> sysman \<Rightarrow> sysman option" where
  "systems_arm t sm = map_option (\<lambda>x. sm\<lparr>systems_op := x\<rparr>) (op_arm (op_delay t) (systems_op sm))"

definition SM_check_allsys_asop ::
    "('p \<Rightarrow> entity_manager) \<Rightarrow> ('p \<Rightarrow> 'r \<Rightarrow> system_status) \<Rightarrow> ('r, 'p) asystem list \<Rightarrow> 32 word \<Rightarrow> 32 word \<Rightarrow>
     int \<Rightarrow> sysman \<Rightarrow> 'p \<Rightarrow> (int \<times> sysman \<times> 'p) option" where
  "SM_check_allsys_asop man stat sys now now2 result sm p =
     (case systems_begin result sm of
        (False, sm) \<Rightarrow> Some (result, sm, p)
      | (True, sm) \<Rightarrow> do {
          (result, sm, p) \<leftarrow> systems_check man stat sys now now2 sm p;
          sm \<leftarrow> systems_arm (tick_systems sm) sm;
          Some (result, sm, p)
        })"

definition entities_begin :: "int \<Rightarrow> sysman \<Rightarrow> bool \<times> sysman" where
  "entities_begin result sm =
     (if result < 0 \<or> tick_entities sm = 0 then (False, sm\<lparr>entities_done := False\<rparr>) else (True, sm))"

definition entities_check ::
    "('p \<Rightarrow> entity_manager) \<Rightarrow> ('r, 'p) asystem list \<Rightarrow> 32 word \<Rightarrow> sysman \<Rightarrow> 'p \<Rightarrow>
     (int \<times> (nat \<times> 'r) list \<times> sysman \<times> 'p) option" where
  "entities_check man sys now sm p = do {
     (result, last_entity, xs, p) \<leftarrow> SM_check_entities man sys now (last_ent sm) [] p;
     Some (result, xs, sm\<lparr>last_ent := last_entity\<rparr>, p)
   }"

definition entities_arm :: "asop \<Rightarrow> sysman \<Rightarrow> sysman option" where
  "entities_arm new sm = map_option (\<lambda>x. sm\<lparr>entities_op := x\<rparr>) (op_arm new (entities_op sm))"

definition SM_check_entities_asop ::
    "('p \<Rightarrow> entity_manager) \<Rightarrow> ('p \<Rightarrow> 'r \<Rightarrow> system_status) \<Rightarrow> ('r, 'p) asystem list \<Rightarrow> 32 word \<Rightarrow>
     int \<Rightarrow> sysman \<Rightarrow> 'p \<Rightarrow> (int \<times> sysman \<times> 'p) option" where
  "SM_check_entities_asop man stat sys now result sm p =
     (case entities_begin result sm of
        (False, sm) \<Rightarrow> Some (result, sm, p)
      | (True, sm) \<Rightarrow> do {
          (result, xs, sm, p) \<leftarrow> entities_check man sys now sm p;
          sm \<leftarrow> entities_arm (if xs = [] then op_delay (tick_entities sm) else Op_Posted) sm;
          Some (result, sm, SM_exec_results stat sys xs p)
        })"

section \<open>Starting and stopping\<close>

definition SM_start_checkall :: "sysman \<Rightarrow> sysman option" where
  "SM_start_checkall sm = do {
     let sm = sm\<lparr>systems_done := True\<rparr>;
     x \<leftarrow> op_arm Op_Posted (systems_op sm);
     let sm = sm\<lparr>systems_op := x\<rparr>;
     if all_entities sm
     then do {
       let sm = sm\<lparr>entities_sysmng := True, entities_done := True\<rparr>;
       x \<leftarrow> op_arm Op_Posted (entities_op sm);
       Some (sm\<lparr>entities_op := x\<rparr>)
     }
     else Some sm
   }"

text \<open>
  \<^verbatim>\<open>SM_stop_checkall\<close>, a statement at a time, since the callbacks run beside it; the last is the loop that tests and
  sleeps.
\<close>

datatype stop_at = Clear_Systems | Signal_Systems | Clear_Entities | Signal_Entities | Wait_Loop | Stop_Returned

definition SM_stopped :: "sysman \<Rightarrow> bool" where
  "SM_stopped sm = (\<not> (systems_done sm \<or> all_entities sm \<and> entities_done sm))"

fun SM_stop_checkall :: "stop_at \<Rightarrow> sysman \<Rightarrow> stop_at \<times> sysman" where
  "SM_stop_checkall Clear_Systems sm = (Signal_Systems, sm\<lparr>tick_systems := 0\<rparr>)"
| "SM_stop_checkall Signal_Systems sm =
     (if all_entities sm then Clear_Entities else Wait_Loop, sm\<lparr>systems_op := op_signal (systems_op sm)\<rparr>)"
| "SM_stop_checkall Clear_Entities sm = (Signal_Entities, sm\<lparr>tick_entities := 0\<rparr>)"
| "SM_stop_checkall Signal_Entities sm = (Wait_Loop, sm\<lparr>entities_op := op_signal (entities_op sm)\<rparr>)"
| "SM_stop_checkall Wait_Loop sm = (if SM_stopped sm then Stop_Returned else Wait_Loop, sm)"
| "SM_stop_checkall Stop_Returned sm = (Stop_Returned, sm)"

end
