(* ===== verification/System_Rounds.thy ===== *)
theory System_Rounds
  imports System
begin

text \<open>
  The checks of the system manager visit the entities round robin.
\<close>

section \<open>Checks visit every entity\<close>

text \<open>A system may change the manager only when it has a result.\<close>

definition keeps_manager :: "('p \<Rightarrow> entity_manager) \<Rightarrow> ('r, 'p) asystem \<Rightarrow> bool" where
  "keeps_manager man sy =
     (\<forall>f tick e p p'. sys_check_one sy = Some f \<longrightarrow> f tick e p = (None, p') \<longrightarrow> man p' = man p)"

text \<open>What a call does with the list of the entities that are left to check.\<close>

fun check_list ::
    "('r, 'p) asystem list \<Rightarrow> 32 word \<Rightarrow> addr list \<Rightarrow> int \<Rightarrow> (nat \<times> 'r) list \<Rightarrow> 'p \<Rightarrow> int \<times> addr \<times> (nat \<times> 'r) list \<times> 'p" where
  "check_list sys tick [] result xs p = (result, NULL, xs, p)"
| "check_list sys tick (e # es) result xs p =
     (let (result, xs, p) = SM_check_one sys tick e xs p
      in if result > 0 then (result, e, xs, p) else check_list sys tick es result xs p)"

lemma check_one_from_results:
  "check_one_from k sys tick e count xs p = (n, ys, q) \<Longrightarrow> \<exists>zs. ys = xs @ zs \<and> n = count + int (length zs)"
proof (induction sys arbitrary: k count xs p)
  case (Cons sy sys)
  then show ?case by (fastforce split: option.splits prod.splits)
qed simp

lemma check_one_from_manager:
  "check_one_from k sys tick e count xs p = (count, ys, q) \<Longrightarrow> \<forall>sy \<in> set sys. keeps_manager man sy \<Longrightarrow> man q = man p"
proof (induction sys arbitrary: k xs p)
  case (Cons sy sys)
  show ?case
  proof (cases "sys_check_one sy")
    case None
    then show ?thesis using Cons by simp
  next
    case (Some f)
    obtain r p' where f: "f tick e p = (r, p')" by fastforce
    show ?thesis
    proof (cases r)
      case None
      then have "man p' = man p" using Cons.prems(2) Some f unfolding keeps_manager_def by auto
      then show ?thesis using Cons Some f None by simp
    next
      case (Some r')
      then have "check_one_from (Suc k) sys tick e (count + 1) (xs @ [(k, r')]) p' = (count, ys, q)"
        using Cons.prems(1) f \<open>sys_check_one sy = Some f\<close> by simp
      then show ?thesis using check_one_from_results by fastforce
    qed
  qed
qed simp

lemma SM_check_one_results:
  assumes "SM_check_one sys tick e xs p = (n, ys, q)"
  shows "\<exists>zs. ys = xs @ zs \<and> n = int (length zs)" and "\<forall>sy \<in> set sys. keeps_manager man sy \<Longrightarrow> n \<le> 0 \<Longrightarrow> man q = man p"
proof -
  show r: "\<exists>zs. ys = xs @ zs \<and> n = int (length zs)"
    using check_one_from_results assms unfolding SM_check_one_def by fastforce
  assume keeps: "\<forall>sy \<in> set sys. keeps_manager man sy" and "n \<le> 0"
  then have "n = 0" using r by auto
  then show "man q = man p" using check_one_from_manager[OF _ keeps] assms unfolding SM_check_one_def by blast
qed

lemma check_entities_from_list:
  assumes "em_inv em E (man p) (as @ bs)" and "\<forall>sy \<in> set sys. keeps_manager man sy"
  shows "check_entities_from man sys tick (hd_node bs) result xs p = Some (check_list sys tick bs result xs p)"
  using assms(1)
proof (induction bs arbitrary: as result xs p)
  case Nil
  then show ?case by (subst check_entities_from.simps) simp
next
  case (Cons e bs)
  have "e \<noteq> NULL" using Cons.prems by (auto simp: em_inv_def)
  obtain n ys q where one: "SM_check_one sys tick e xs p = (n, ys, q)" by (metis prod_cases3)
  show ?case
  proof (cases "n > 0")
    case True
    then show ?thesis using \<open>e \<noteq> NULL\<close> one by (subst check_entities_from.simps) simp
  next
    case False
    then have "man q = man p" using SM_check_one_results(2)[OF one assms(2)] by simp
    then have "em_inv em E (man q) ((as @ [e]) @ bs)" "EM_next e (man q) = Some (hd_node bs)"
      using Cons.prems EM_search_inv(3)[OF Cons.prems refl] by simp_all
    then show ?thesis
      using Cons.IH[of q "as @ [e]"] \<open>e \<noteq> NULL\<close> one False by (subst check_entities_from.simps) simp
  qed
qed

lemma SM_check_entities_list:
  assumes "em_inv em E (man p) es" and "\<forall>sy \<in> set sys. keeps_manager man sy"
  shows "SM_check_entities man sys tick last_entity xs p =
    Some (check_list sys tick (filter (\<lambda>e. last_entity < e) es) 0 xs p)"
proof -
  have "keyed (\<lambda>e. e) es" using assms(1) by (simp add: em_inv_def)
  then have "em_inv em E (man p) (filter (\<lambda>e. \<not> last_entity < e) es @ filter (\<lambda>e. last_entity < e) es)"
    using assms(1) filter_greater_suffix by metis
  from check_entities_from_list[OF this assms(2)] show ?thesis
    using EM_search_inv(2)[OF assms(1)] by (simp add: SM_check_entities_def)
qed

text \<open>
  A check of the entities asks about those after the last one.  In a manager that a program has built, and for
  systems that leave it alone as long as they have no result, a call checks the members above the last entity,
  in the order of the map, up to the first one for which a system has a result, which becomes the last
  entity; when there is none the next call starts over.  The results go to the end of the list.
\<close>

theorem check_entities_after_last:
  assumes "em_run em (man p) E" and "em \<noteq> NULL" and "\<forall>sy \<in> set sys. keeps_manager man sy"
  shows "SM_check_entities man sys tick last_entity xs p =
    Some (check_list sys tick (sorted_list_of_set {e \<in> members E (man p). last_entity < e}) 0 xs p)"
proof -
  obtain es where "em_inv em E (man p) es" using em_run_inv[OF assms(1,2)] by blast
  then show ?thesis using SM_check_entities_list[OF _ assms(3)] sorted_members by metis
qed

theorem check_entities_after_last_witness:
  "\<exists>last_entity p. SM_check_entities (\<lambda>_. AEntity_init 8 (EM_init raw_manager))
     [\<lparr>sys_regist = None, sys_unregist = None, sys_clear_all = None, sys_check_all = None,
       sys_check_one = Some (\<lambda>tick e p. (Some e, p)), exec_run = \<lambda>r n p. (0, p), exec_abort = \<lambda>r p. (0, p)\<rparr>]
     5 NULL [] (0 :: nat) = Some (0, last_entity, [], p)"
  by (subst check_entities_after_last[where em = 1 and E = "{8}"])
    (use raw_run in \<open>simp_all add: raw_members NULL_def keeps_manager_def\<close>)

section \<open>Round robin\<close>

text \<open>
  To see which entities are asked about, a system is put before the others that notes them and never has a
  result; the state of the others is beside the notes.
\<close>

definition only_check :: "(32 word \<Rightarrow> addr \<Rightarrow> 'p \<Rightarrow> 'r option \<times> 'p) option \<Rightarrow> ('r, 'p) asystem" where
  "only_check f = \<lparr>sys_regist = None, sys_unregist = None, sys_clear_all = None, sys_check_all = None,
     sys_check_one = f, exec_run = (\<lambda>r n p. (0, p)), exec_abort = (\<lambda>r p. (0, p))\<rparr>"

definition noting :: "('r, addr list \<times> 'q) asystem" where
  "noting = only_check (Some (\<lambda>tick e (seen, q). (None, seen @ [e], q)))"

definition beside_note :: "('r, 'q) asystem \<Rightarrow> ('r, addr list \<times> 'q) asystem" where
  "beside_note sy = only_check
     (map_option (\<lambda>f tick e (seen, q). let (r, q) = f tick e q in (r, seen, q)) (sys_check_one sy))"

definition watched :: "('r, 'q) asystem list \<Rightarrow> ('r, addr list \<times> 'q) asystem list" where
  "watched sys = noting # map beside_note sys"

fun SM_calls ::
    "('p \<Rightarrow> entity_manager) \<Rightarrow> ('r, 'p) asystem list \<Rightarrow> 32 word list \<Rightarrow> addr \<Rightarrow> 'p \<Rightarrow> (addr \<times> 'p) option" where
  "SM_calls man sys [] last_entity p = Some (last_entity, p)"
| "SM_calls man sys (t # ts) last_entity p = do {
     (result, last_entity, xs, p) \<leftarrow> SM_check_entities man sys t last_entity [] p;
     SM_calls man sys ts last_entity p
   }"

lemma beside_note_seen:
  "check_one_from k (map beside_note sys) tick e count xs (seen, q) = (n, ys, seen', q') \<Longrightarrow> seen' = seen"
proof (induction sys arbitrary: k count xs q)
  case (Cons sy sys)
  then show ?case
    by (cases "sys_check_one sy") (auto simp: beside_note_def only_check_def split: option.splits prod.splits)
qed simp

lemma watched_check_one: "SM_check_one (watched sys) tick e xs (seen, q) = (n, ys, seen', q') \<Longrightarrow> seen' = seen @ [e]"
  using beside_note_seen by (fastforce simp: SM_check_one_def watched_def noting_def only_check_def)

lemma watched_check_list:
  assumes "check_list (watched sys) tick bs result xs (seen, q) = (r, l, ys, seen', q')" and "NULL \<notin> set bs"
  shows "\<exists>cs ds. bs = cs @ ds \<and> seen' = seen @ cs \<and> (bs \<noteq> [] \<longrightarrow> cs \<noteq> []) \<and> (if l = NULL then ds = [] else cs \<noteq> [] \<and> l = last cs)"
  using assms
proof (induction bs arbitrary: result xs seen q)
  case (Cons e bs)
  obtain n zs seen1 q1 where one: "SM_check_one (watched sys) tick e xs (seen, q) = (n, zs, seen1, q1)"
    by (metis prod_cases4)
  then have seen1: "seen1 = seen @ [e]" by (rule watched_check_one)
  show ?case
  proof (cases "n > 0")
    case True
    then have "l = e" "seen' = seen @ [e]" using Cons.prems(1) one seen1 by auto
    then show ?thesis using Cons.prems(2) by (intro exI[of _ "[e]"] exI[of _ bs]) auto
  next
    case False
    then have "check_list (watched sys) tick bs n zs (seen1, q1) = (r, l, ys, seen', q')"
      using Cons.prems(1) one by simp
    from Cons.IH[OF this] obtain cs ds where "bs = cs @ ds" "seen' = seen1 @ cs"
      "if l = NULL then ds = [] else cs \<noteq> [] \<and> l = last cs" using Cons.prems(2) by auto
    then show ?thesis using seen1 by (intro exI[of _ "e # cs"] exI[of _ ds]) (auto split: if_splits)
  qed
qed simp

lemma filter_after_last:
  assumes "sorted_wrt (<) (as @ cs @ ds)" and "cs \<noteq> ([] :: addr list)"
  shows "filter (\<lambda>e. last cs < e) (as @ cs @ ds) = ds"
proof -
  have "x \<le> last cs" if "x \<in> set (as @ cs)" for x
    using assms that by (induction cs rule: rev_induct) (auto simp: sorted_wrt_append)
  then have "filter (\<lambda>e. last cs < e) (as @ cs) = []" by (auto simp: filter_empty_conv not_less)
  moreover have "filter (\<lambda>e. last cs < e) ds = ds"
    using assms last_in_set by (fastforce simp: filter_id_conv sorted_wrt_append)
  ultimately show ?thesis by simp
qed

text \<open>The entities seen and those left of this round are whole rounds.\<close>

definition round_ok :: "addr list \<Rightarrow> addr \<Rightarrow> addr list \<Rightarrow> nat \<Rightarrow> bool" where
  "round_ok es l seen k =
     ((\<exists>n. seen @ (if l = NULL then [] else filter (\<lambda>e. l < e) es) = concat (replicate n es)) \<and>
      (es \<noteq> [] \<longrightarrow> k + (if l = NULL then 0 else 1) \<le> 2 * length seen))"

lemma round_again: "concat (replicate m es) @ es = es @ concat (replicate m es)"
  by (induction m) simp_all

lemma SM_calls_rounds:
  assumes inv: "em_inv em E s es"
  shows "round_ok es l seen k \<Longrightarrow>
    \<exists>l' seen' q'. SM_calls (\<lambda>_. s) (watched sys) ts l (seen, q) = Some (l', seen', q') \<and>
      round_ok es l' seen' (k + length ts)"
proof (induction ts arbitrary: l seen q k)
  case (Cons t ts)
  have es: "NULL \<notin> set es" "sorted_wrt (<) es" using inv by (auto simp: em_inv_def keyed_def)
  let ?bs = "filter (\<lambda>e. l < e) es"
  obtain r l1 ys seen1 q1 where c: "check_list (watched sys) t ?bs 0 [] (seen, q) = (r, l1, ys, seen1, q1)"
    by (metis prod_cases5)
  obtain cs ds where cd: "?bs = cs @ ds" "seen1 = seen @ cs" "?bs \<noteq> [] \<longrightarrow> cs \<noteq> []"
    "if l1 = NULL then ds = [] else cs \<noteq> [] \<and> l1 = last cs" using watched_check_list[OF c] es by auto
  have all: "?bs = es" if "l = NULL" using that es(1) by (auto simp: NULL_def filter_id_conv intro!: gr0I)
  then obtain n where n: "seen @ ?bs = concat (replicate n es)"
  proof (cases "l = NULL")
    case True
    then obtain m where "seen = concat (replicate m es)" using Cons.prems by (auto simp: round_ok_def)
    then have "seen @ es = concat (replicate (Suc m) es)" by (simp add: round_again)
    then have "seen @ ?bs = concat (replicate (Suc m) es)" unfolding all[OF True] .
    then show ?thesis by (rule that)
  qed (use Cons.prems in \<open>auto simp: round_ok_def\<close>)
  have "filter (\<lambda>e. l1 < e) es = ds" if "l1 \<noteq> NULL"
  proof -
    have "es = filter (\<lambda>e. \<not> l < e) es @ cs @ ds"
      using filter_greater_suffix[of es l] inv cd(1) by (simp add: em_inv_def)
    then show ?thesis using filter_after_last[of "filter (\<lambda>e. \<not> l < e) es" cs ds] es(2) cd(4) that by auto
  qed
  then have "seen1 @ (if l1 = NULL then [] else filter (\<lambda>e. l1 < e) es) = concat (replicate n es)"
    using n cd by (auto split: if_splits)
  moreover have "Suc k + (if l1 = NULL then 0 else 1) \<le> 2 * length seen1" if ne: "es \<noteq> []"
  proof -
    have k: "k + (if l = NULL then 0 else 1) \<le> 2 * length seen" using Cons.prems ne unfolding round_ok_def by blast
    show ?thesis
    proof (cases "cs = []")
      case True
      then have "l \<noteq> NULL" using cd(3) ne all by metis
      moreover have "l1 = NULL" using cd(4) True by metis
      ultimately show ?thesis using k True by (simp add: cd(2))
    next
      case False
      then have "length seen + 1 \<le> length seen1" by (cases cs) (simp_all add: cd(2))
      then show ?thesis using k by (simp split: if_splits)
    qed
  qed
  ultimately have "round_ok es l1 seen1 (Suc k)" unfolding round_ok_def by blast
  moreover have "SM_check_entities (\<lambda>_. s) (watched sys) t l [] (seen, q) = Some (r, l1, ys, seen1, q1)"
    by (subst SM_check_entities_list[where em = em and E = E and es = es])
      (use inv c in \<open>simp_all add: keeps_manager_def\<close>)
  ultimately show ?case using Cons.IH[of l1 seen1 "Suc k" q1] by simp
qed simp

text \<open>
  C20: the checks are fair.  As long as the members of the manager stay the same, the entities that consecutive
  calls ask about, whatever results the systems have in between, are the members in the order of the map, over and
  over again; and two calls one after the other ask about one entity at least.
\<close>

theorem check_entities_round_robin:
  assumes "em_run em s E" and "em \<noteq> NULL"
  shows "\<exists>l seen q'. SM_calls (\<lambda>_. s) (watched sys) ts NULL ([], q) = Some (l, seen, q') \<and>
    (\<exists>n. prefix seen (concat (replicate n (sorted_list_of_set (members E s))))) \<and>
    (members E s \<noteq> {} \<longrightarrow> length ts \<le> 2 * length seen)"
proof -
  obtain es where inv: "em_inv em E s es" using em_run_inv[OF assms] by blast
  have es: "sorted_list_of_set (members E s) = es" using sorted_members[OF inv, of "\<lambda>_. True"] by simp
  have "round_ok es NULL [] 0" by (auto simp: round_ok_def intro: exI[of _ 0])
  from SM_calls_rounds[OF inv this, where sys = sys and ts = ts and q = q] obtain l seen q' where
    c: "SM_calls (\<lambda>_. s) (watched sys) ts NULL ([], q) = Some (l, seen, q')" "round_ok es l seen (length ts)"
    by auto
  then obtain n where "seen @ (if l = NULL then [] else filter (\<lambda>e. l < e) es) = concat (replicate n es)"
    by (auto simp: round_ok_def)
  then have "prefix seen (concat (replicate n es))" by (metis prefixI)
  moreover have "members E s \<noteq> {} \<longrightarrow> length ts \<le> 2 * length seen"
    using c(2) members_inv[OF inv] by (auto simp: round_ok_def)
  ultimately show ?thesis using c(1) unfolding es by blast
qed

theorem check_entities_round_robin_witness:
  "\<exists>s l seen q. em_run 1 s {8} \<and> members {8} s = {8} \<and>
     SM_calls (\<lambda>_. s) (watched ([] :: (nat, nat) asystem list)) [5, 6] NULL ([], 0) = Some (l, seen, q) \<and> 1 \<le> length seen"
proof -
  obtain s where s: "EM_push 1 8 (AEntity_init 8 (EM_init raw_manager)) = Some (True, s)" "members {8} s = {8}"
    using EM_push_inv[of 1 "{8}" "AEntity_init 8 (EM_init raw_manager)" "[]" 8] members_inv em_inv_create em_inv_init
    by (fastforce simp: NULL_def)
  have run: "em_run 1 s {8}" by (rule em_run.push[OF raw_run _ s(1)]) simp
  obtain l seen q where "SM_calls (\<lambda>_. s) (watched ([] :: (nat, nat) asystem list)) [5, 6] NULL ([], 0) = Some (l, seen, q)"
    "members {8} s \<noteq> {} \<longrightarrow> length [5 :: 32 word, 6] \<le> 2 * length seen"
    using check_entities_round_robin[OF run, where sys = "[] :: (nat, nat) asystem list" and ts = "[5, 6]" and q = 0]
    by (metis NULL_def one_neq_zero)
  moreover from this(2) s(2) have "1 \<le> length seen" by simp
  ultimately show ?thesis using run s(2) by blast
qed

end
