(* ===== verification/System_Stop.thy ===== *)
theory System_Stop
  imports System_Rounds "HOL-Library.Multiset"
begin

text \<open>
  Stopping the system manager (\<^verbatim>\<open>ecs/ASystem.cpp\<close>): its statements and the sections of the callbacks in any order.
  Every callback that is left ends, and the loop that waits for them is left.
\<close>

section \<open>Runs\<close>

text \<open>A thread in a callback, before its next section.\<close>

datatype 'r sm_call =
    Check_Systems
  | Delay_Systems "32 word"
  | Check_Entities
  | Arm_Entities asop "(nat \<times> 'r) list"
  | Exec_Entities "(nat \<times> 'r) list"

record ('r, 'p) sm_run =
  mgr :: sysman
  world :: 'p
  calls :: "'r sm_call multiset"
  stop_pc :: stop_at

fun run_call ::
    "('p \<Rightarrow> entity_manager) \<Rightarrow> ('p \<Rightarrow> 'r \<Rightarrow> system_status) \<Rightarrow> ('r, 'p) asystem list \<Rightarrow> 32 word \<Rightarrow> 32 word \<Rightarrow>
     'r sm_call \<Rightarrow> ('r, 'p) sm_run \<Rightarrow> ('r, 'p) sm_run option" where
  "run_call man stat sys now now2 Check_Systems s = do {
     (r, sm, p) \<leftarrow> systems_check man stat sys now now2 (mgr s) (world s);
     Some (s\<lparr>mgr := sm, world := p, calls := calls s - {#Check_Systems#} + {#Delay_Systems (tick_systems sm)#}\<rparr>)
   }"
| "run_call man stat sys now now2 (Delay_Systems t) s = do {
     sm \<leftarrow> systems_arm t (mgr s);
     Some (s\<lparr>mgr := sm, calls := calls s - {#Delay_Systems t#}\<rparr>)
   }"
| "run_call man stat sys now now2 Check_Entities s = do {
     (r, xs, sm, p) \<leftarrow> entities_check man sys now (mgr s) (world s);
     Some (s\<lparr>mgr := sm, world := p, calls := calls s - {#Check_Entities#} +
       {#Arm_Entities (if xs = [] then op_delay (tick_entities sm) else Op_Posted) xs#}\<rparr>)
   }"
| "run_call man stat sys now now2 (Arm_Entities x xs) s = do {
     sm \<leftarrow> entities_arm x (mgr s);
     Some (s\<lparr>mgr := sm, calls := calls s - {#Arm_Entities x xs#} + (if xs = [] then {#} else {#Exec_Entities xs#})\<rparr>)
   }"
| "run_call man stat sys now now2 (Exec_Entities xs) s =
     Some (s\<lparr>world := SM_exec_results stat sys xs (world s), calls := calls s - {#Exec_Entities xs#}\<rparr>)"

text \<open>
  An operator is called when it was posted, when its time is over, or, with a negative result, when its thread ends.  The
  time \<open>forever\<close> is never over.
\<close>

definition forever :: "32 word" where "forever = 0xFFFFFFFF"

fun may_fire :: "asop \<Rightarrow> int \<Rightarrow> bool" where
  "may_fire Op_Idle r = False"
| "may_fire (Op_Waiting t) r = (r < 0 \<or> t \<noteq> forever)"
| "may_fire Op_Posted r = True"

inductive sm_call_step ::
    "('p \<Rightarrow> entity_manager) \<Rightarrow> ('p \<Rightarrow> 'r \<Rightarrow> system_status) \<Rightarrow> ('r, 'p) asystem list \<Rightarrow>
     ('r, 'p) sm_run \<Rightarrow> ('r, 'p) sm_run \<Rightarrow> bool" for man stat sys where
  Systems: "may_fire (systems_op (mgr s)) r \<Longrightarrow> systems_begin r ((mgr s)\<lparr>systems_op := Op_Idle\<rparr>) = (go, sm) \<Longrightarrow>
    sm_call_step man stat sys s (s\<lparr>mgr := sm, calls := calls s + (if go then {#Check_Systems#} else {#})\<rparr>)"
| Entities: "may_fire (entities_op (mgr s)) r \<Longrightarrow> entities_begin r ((mgr s)\<lparr>entities_op := Op_Idle\<rparr>) = (go, sm) \<Longrightarrow>
    sm_call_step man stat sys s (s\<lparr>mgr := sm, calls := calls s + (if go then {#Check_Entities#} else {#})\<rparr>)"
| Section: "c \<in># calls s \<Longrightarrow> run_call man stat sys now now2 c s = Some s' \<Longrightarrow> sm_call_step man stat sys s s'"

text \<open>Without another thread the sections of a callback are the callback.\<close>

lemma systems_callback_sections:
  assumes "SM_check_allsys_asop man stat sys now now2 r ((mgr s)\<lparr>systems_op := Op_Idle\<rparr>) (world s) = Some (r', sm, p)"
    and "may_fire (systems_op (mgr s)) r" and "calls s = {#}"
  shows "(sm_call_step man stat sys)\<^sup>*\<^sup>* s (s\<lparr>mgr := sm, world := p\<rparr>)"
proof -
  obtain go sm1 where go: "systems_begin r ((mgr s)\<lparr>systems_op := Op_Idle\<rparr>) = (go, sm1)" by fastforce
  let ?s1 = "s\<lparr>mgr := sm1, calls := calls s + (if go then {#Check_Systems#} else {#})\<rparr>"
  have 1: "sm_call_step man stat sys s ?s1" using assms(2) go by (rule sm_call_step.Systems)
  show ?thesis
  proof (cases go)
    case False
    then have "?s1 = s\<lparr>mgr := sm, world := p\<rparr>" using assms(1) go by (simp add: SM_check_allsys_asop_def)
    then show ?thesis using 1 by (simp add: r_into_rtranclp)
  next
    case True
    then obtain sm2 where c: "systems_check man stat sys now now2 sm1 (world s) = Some (r', sm2, p)"
      "systems_arm (tick_systems sm2) sm2 = Some sm"
      using assms(1) go by (auto simp: SM_check_allsys_asop_def bind_eq_Some_conv)
    let ?s2 = "s\<lparr>mgr := sm2, world := p, calls := {#Delay_Systems (tick_systems sm2)#}\<rparr>"
    have 2: "sm_call_step man stat sys ?s1 ?s2"
      by (rule sm_call_step.Section[of Check_Systems _ _ _ _ now now2]) (simp_all add: True c(1) assms(3))
    have "sm_call_step man stat sys ?s2 (s\<lparr>mgr := sm, world := p, calls := {#}\<rparr>)"
      by (rule sm_call_step.Section[of "Delay_Systems (tick_systems sm2)"]) (simp_all add: c(2))
    moreover have "s\<lparr>mgr := sm, world := p, calls := {#}\<rparr> = s\<lparr>mgr := sm, world := p\<rparr>" using assms(3) by (cases s) simp
    ultimately show ?thesis using 1 2 by (auto intro: converse_rtranclp_into_rtranclp)
  qed
qed

lemma entities_callback_sections:
  assumes "SM_check_entities_asop man stat sys now r ((mgr s)\<lparr>entities_op := Op_Idle\<rparr>) (world s) = Some (r', sm, p)"
    and "may_fire (entities_op (mgr s)) r" and "calls s = {#}"
  shows "(sm_call_step man stat sys)\<^sup>*\<^sup>* s (s\<lparr>mgr := sm, world := p\<rparr>)"
proof -
  obtain go sm1 where go: "entities_begin r ((mgr s)\<lparr>entities_op := Op_Idle\<rparr>) = (go, sm1)" by fastforce
  let ?s1 = "s\<lparr>mgr := sm1, calls := calls s + (if go then {#Check_Entities#} else {#})\<rparr>"
  have 1: "sm_call_step man stat sys s ?s1" using assms(2) go by (rule sm_call_step.Entities)
  show ?thesis
  proof (cases go)
    case False
    then have "?s1 = s\<lparr>mgr := sm, world := p\<rparr>" using assms(1) go by (simp add: SM_check_entities_asop_def)
    then show ?thesis using 1 by (simp add: r_into_rtranclp)
  next
    case True
    then obtain xs sm2 q where c: "entities_check man sys now sm1 (world s) = Some (r', xs, sm2, q)"
      "entities_arm (if xs = [] then op_delay (tick_entities sm2) else Op_Posted) sm2 = Some sm" "p = SM_exec_results stat sys xs q"
      using assms(1) go by (auto simp: SM_check_entities_asop_def bind_eq_Some_conv)
    let ?x = "if xs = [] then op_delay (tick_entities sm2) else Op_Posted"
    let ?s2 = "s\<lparr>mgr := sm2, world := q, calls := {#Arm_Entities ?x xs#}\<rparr>"
    let ?s3 = "s\<lparr>mgr := sm, world := q, calls := (if xs = [] then {#} else {#Exec_Entities xs#})\<rparr>"
    have 2: "sm_call_step man stat sys ?s1 ?s2"
      by (rule sm_call_step.Section[of Check_Entities _ _ _ _ now 0]) (simp_all add: True c(1) assms(3))
    have 3: "sm_call_step man stat sys ?s2 ?s3"
      by (rule sm_call_step.Section[of "Arm_Entities ?x xs"]) (use c(2) in simp_all)
    have whole: "s\<lparr>mgr := sm, world := p, calls := {#}\<rparr> = s\<lparr>mgr := sm, world := p\<rparr>" using assms(3) by (cases s) simp
    have "(sm_call_step man stat sys)\<^sup>*\<^sup>* ?s3 (s\<lparr>mgr := sm, world := p, calls := {#}\<rparr>)"
    proof (cases "xs = []")
      case False
      have "sm_call_step man stat sys ?s3 (s\<lparr>mgr := sm, world := p, calls := {#}\<rparr>)"
        by (rule sm_call_step.Section[of "Exec_Entities xs"]) (simp_all add: False c(3))
      then show ?thesis by (rule r_into_rtranclp)
    qed (simp add: c(3))
    then show ?thesis using 1 2 3 unfolding whole by (meson converse_rtranclp_into_rtranclp)
  qed
qed

text \<open>A manager is started when no operator is in use, and its ticks are finite; it is stopped at any time.\<close>

definition sm_fresh :: "sysman \<Rightarrow> bool" where
  "sm_fresh sm = (\<not> systems_done sm \<and> \<not> entities_done sm \<and> systems_op sm = Op_Idle \<and> entities_op sm = Op_Idle \<and>
     tick_systems sm \<noteq> forever \<and> tick_entities sm \<noteq> forever)"

definition built :: "addr \<Rightarrow> ('p \<Rightarrow> entity_manager) \<Rightarrow> 'p \<Rightarrow> bool" where
  "built em man p = (\<exists>E. em_run em (man p) E)"

inductive sm_reach ::
    "addr \<Rightarrow> ('p \<Rightarrow> entity_manager) \<Rightarrow> ('p \<Rightarrow> 'r \<Rightarrow> system_status) \<Rightarrow> ('r, 'p) asystem list \<Rightarrow> ('r, 'p) sm_run \<Rightarrow> bool"
  for em man stat sys where
  start: "sm_fresh sm \<Longrightarrow> built em man p \<Longrightarrow> SM_start_checkall sm = Some sm' \<Longrightarrow>
    sm_reach em man stat sys \<lparr>mgr = sm', world = p, calls = {#}, stop_pc = Clear_Systems\<rparr>"
| step: "sm_reach em man stat sys s \<Longrightarrow> sm_call_step man stat sys s t \<Longrightarrow> sm_reach em man stat sys t"
| stop: "sm_reach em man stat sys s \<Longrightarrow> SM_stop_checkall (stop_pc s) (mgr s) = (pc, sm) \<Longrightarrow>
    sm_reach em man stat sys (s\<lparr>mgr := sm, stop_pc := pc\<rparr>)"

text \<open>A number of sections of the callbacks.\<close>

inductive sm_work ::
    "('p \<Rightarrow> entity_manager) \<Rightarrow> ('p \<Rightarrow> 'r \<Rightarrow> system_status) \<Rightarrow> ('r, 'p) asystem list \<Rightarrow> nat \<Rightarrow>
     ('r, 'p) sm_run \<Rightarrow> ('r, 'p) sm_run \<Rightarrow> bool" for man stat sys where
  "sm_work man stat sys 0 s s"
| "sm_work man stat sys n s t \<Longrightarrow> sm_call_step man stat sys t u \<Longrightarrow> sm_work man stat sys (Suc n) s u"

section \<open>Checks return\<close>

text \<open>
  Systems that leave the entity manager as a program may have built it; one without a result leaves it as it is.
\<close>

definition sound_system :: "addr \<Rightarrow> ('p \<Rightarrow> entity_manager) \<Rightarrow> ('r, 'p) asystem \<Rightarrow> bool" where
  "sound_system em man sy = (keeps_manager man sy \<and>
     (\<forall>f t p. sys_check_all sy = Some f \<longrightarrow> built em man p \<longrightarrow> built em man (snd (snd (f t p)))) \<and>
     (\<forall>f t e p. sys_check_one sy = Some f \<longrightarrow> built em man p \<longrightarrow> built em man (snd (f t e p))) \<and>
     (\<forall>r n p. built em man p \<longrightarrow> built em man (snd (exec_run sy r n p))) \<and>
     (\<forall>r p. built em man p \<longrightarrow> built em man (snd (exec_abort sy r p))))"

definition of_systems :: "('r, 'p) asystem list \<Rightarrow> (nat \<times> 'r) list \<Rightarrow> bool" where
  "of_systems sys xs = (\<forall>(k, r) \<in> set xs. k < length sys)"

lemma of_systems_simps [simp]:
  "of_systems sys []" "of_systems sys ((k, r) # xs) = (k < length sys \<and> of_systems sys xs)"
  "of_systems sys (xs @ ys) = (of_systems sys xs \<and> of_systems sys ys)"
  by (auto simp: of_systems_def)

lemma check_one_from_built:
  assumes "check_one_from (length as) bs tick e n xs p = (n', ys, q)" and "\<forall>sy \<in> set bs. sound_system em man sy"
    and "built em man p" and "of_systems (as @ bs) xs"
  shows "built em man q \<and> of_systems (as @ bs) ys"
  using assms
proof (induction bs arbitrary: as n xs p)
  case (Cons sy bs)
  have more: "length (as @ [sy]) = Suc (length as)" "(as @ [sy]) @ bs = as @ sy # bs" by simp_all
  show ?case
  proof (cases "sys_check_one sy")
    case None
    then show ?thesis using Cons.IH[of "as @ [sy]", unfolded more] Cons.prems by simp
  next
    case (Some f)
    obtain r p' where f: "f tick e p = (r, p')" by fastforce
    moreover have "built em man (snd (f tick e p))" using Cons.prems(2,3) Some by (auto simp: sound_system_def)
    ultimately have "built em man p'" by simp
    then show ?thesis
      using Cons.IH[of "as @ [sy]" _ _ p', unfolded more] Cons.prems Some f by (cases r) simp_all
  qed
qed simp

lemma check_list_built:
  assumes "check_list sys tick es n xs p = (n', l, ys, q)" and "\<forall>sy \<in> set sys. sound_system em man sy"
    and "built em man p" and "of_systems sys xs"
  shows "built em man q \<and> of_systems sys ys"
  using assms
proof (induction es arbitrary: n xs p)
  case (Cons e es)
  obtain m zs p' where one: "SM_check_one sys tick e xs p = (m, zs, p')" by (metis prod_cases3)
  have "built em man p' \<and> of_systems sys zs"
    using check_one_from_built[of "[]" sys tick e 0 xs p m zs p' em man] one Cons.prems by (simp add: SM_check_one_def)
  then show ?case using Cons.IH[of m zs p'] Cons.prems one by (auto split: if_splits)
qed simp

lemma check_all_sys_built:
  assumes "check_all_sys (length as) bs tick n xs p = (n', ys, q)" and "\<forall>sy \<in> set bs. sound_system em man sy"
    and "built em man p" and "of_systems (as @ bs) xs"
  shows "built em man q \<and> of_systems (as @ bs) ys"
  using assms
proof (induction bs arbitrary: as n xs p)
  case (Cons sy bs)
  have more: "length (as @ [sy]) = Suc (length as)" "(as @ [sy]) @ bs = as @ sy # bs" by simp_all
  show ?case
  proof (cases "sys_check_all sy")
    case None
    then show ?thesis using Cons.IH[of "as @ [sy]", unfolded more] Cons.prems by simp
  next
    case (Some f)
    obtain m rs p' where f: "f tick p = (m, rs, p')" by (metis prod_cases3)
    moreover have "built em man (snd (snd (f tick p)))" using Cons.prems(2,3) Some by (auto simp: sound_system_def)
    ultimately have "built em man p'" by simp
    moreover have "of_systems (as @ sy # bs) (map (Pair (length as)) rs)" by (auto simp: of_systems_def)
    ultimately show ?thesis
      using Cons.IH[of "as @ [sy]" _ _ p', unfolded more] Cons.prems Some f by simp
  qed
qed simp

lemma exec_results_built:
  "of_systems sys xs \<Longrightarrow> \<forall>sy \<in> set sys. sound_system em man sy \<Longrightarrow> built em man p \<Longrightarrow>
   built em man (SM_exec_results stat sys xs p)"
proof (induction xs arbitrary: p)
  case (Cons x xs)
  obtain k r where x: "x = (k, r)" by fastforce
  have "sound_system em man (sys ! k)" using Cons.prems x by simp
  then have "built em man (snd (sys_exec (sys ! k) (stat p r) r p))" using Cons.prems(3)
    by (cases "stat p r") (simp_all add: sys_exec_def sound_system_def)
  then show ?case using Cons by (simp add: x)
qed simp

lemma check_entities_built:
  assumes "em \<noteq> NULL" and "built em man p" and "\<forall>sy \<in> set sys. sound_system em man sy" and "of_systems sys xs"
  shows "\<exists>n l ys q. SM_check_entities man sys tick last_entity xs p = Some (n, l, ys, q) \<and> built em man q \<and> of_systems sys ys"
proof -
  obtain E es where es: "em_inv em E (man p) es" using em_run_inv assms(1,2) unfolding built_def by metis
  have "\<forall>sy \<in> set sys. keeps_manager man sy" using assms(3) by (simp add: sound_system_def)
  from SM_check_entities_list[OF es this]
  have "SM_check_entities man sys tick last_entity xs p =
    Some (check_list sys tick (filter (\<lambda>e. last_entity < e) es) 0 xs p)" .
  then show ?thesis using check_list_built[OF _ assms(3,2,4)] by (metis prod_cases4)
qed

lemma systems_check_built:
  assumes "em \<noteq> NULL" and "built em man p" and "\<forall>sy \<in> set sys. sound_system em man sy"
  shows "\<exists>r l q. systems_check man stat sys now now2 sm p = Some (r, sm\<lparr>last_ent := l\<rparr>, q) \<and> built em man q"
proof -
  obtain n xs p' where all: "SM_check_allsys sys now [] p = (n, xs, p')" by (metis prod_cases3)
  then have p': "built em man p'" "of_systems sys xs"
    using check_all_sys_built[of "[]" sys now 0 "[]" p n xs p' em man] assms by (simp_all add: SM_check_allsys_def)
  have "\<exists>n' l ys q. (if xs = [] \<and> check_entities_when_idle sm \<and> all_entities sm
      then SM_check_entities man sys now2 (last_ent sm) [] p' else Some (n, last_ent sm, xs, p')) = Some (n', l, ys, q) \<and>
    built em man q \<and> of_systems sys ys"
    using check_entities_built[OF assms(1) p'(1) assms(3), of "[]" now2 "last_ent sm"] p'
    by (cases "xs = [] \<and> check_entities_when_idle sm \<and> all_entities sm") auto
  then obtain n' l ys q where rest: "(if xs = [] \<and> check_entities_when_idle sm \<and> all_entities sm
      then SM_check_entities man sys now2 (last_ent sm) [] p' else Some (n, last_ent sm, xs, p')) = Some (n', l, ys, q)"
    "built em man q" "of_systems sys ys" by blast
  then show ?thesis using exec_results_built[OF rest(3) assms(3) rest(2), of stat]
    unfolding systems_check_def all by auto
qed

lemma entities_check_built:
  assumes "em \<noteq> NULL" and "built em man p" and "\<forall>sy \<in> set sys. sound_system em man sy"
  shows "\<exists>r xs l q. entities_check man sys now sm p = Some (r, xs, sm\<lparr>last_ent := l\<rparr>, q) \<and> built em man q \<and> of_systems sys xs"
  using check_entities_built[OF assms, of "[]" now "last_ent sm"] by (auto simp: entities_check_def)

section \<open>Invariant\<close>

text \<open>
  Each operator whose \<^verbatim>\<open>done\<close> is set is with a thread once: it is armed, or one callback will arm it.  No time is
  \<open>forever\<close>.  The ticks that the stopping thread has passed are cleared.
\<close>

fun systems_call :: "'r sm_call \<Rightarrow> bool" where
  "systems_call Check_Systems = True"
| "systems_call (Delay_Systems t) = True"
| "systems_call c = False"

fun entities_call :: "'r sm_call \<Rightarrow> bool" where
  "entities_call Check_Entities = True"
| "entities_call (Arm_Entities x xs) = True"
| "entities_call c = False"

definition finite_op :: "asop \<Rightarrow> bool" where
  "finite_op x = (x \<noteq> Op_Waiting forever)"

fun call_ok :: "('r, 'p) asystem list \<Rightarrow> 'r sm_call \<Rightarrow> bool" where
  "call_ok sys (Delay_Systems t) = (t \<noteq> forever)"
| "call_ok sys (Arm_Entities x xs) = (finite_op x \<and> x \<noteq> Op_Idle \<and> of_systems sys xs)"
| "call_ok sys (Exec_Entities xs) = of_systems sys xs"
| "call_ok sys c = True"

definition with_threads :: "asop \<Rightarrow> ('r sm_call \<Rightarrow> bool) \<Rightarrow> 'r sm_call multiset \<Rightarrow> nat" where
  "with_threads x P C = (if x = Op_Idle then 0 else 1) + size (filter_mset P C)"

definition ticks_ok :: "stop_at \<Rightarrow> sysman \<Rightarrow> bool" where
  "ticks_ok pc sm = (tick_systems sm \<noteq> forever \<and> tick_entities sm \<noteq> forever \<and>
     (pc \<noteq> Clear_Systems \<longrightarrow> tick_systems sm = 0) \<and> (pc = Signal_Entities \<longrightarrow> tick_entities sm = 0) \<and>
     (pc \<in> {Wait_Loop, Stop_Returned} \<longrightarrow> all_entities sm \<longrightarrow> tick_entities sm = 0))"

definition ops_ok :: "sysman \<Rightarrow> 'r sm_call multiset \<Rightarrow> bool" where
  "ops_ok sm C = (with_threads (systems_op sm) systems_call C = of_bool (systems_done sm) \<and>
     with_threads (entities_op sm) entities_call C = of_bool (entities_done sm) \<and>
     finite_op (systems_op sm) \<and> finite_op (entities_op sm) \<and> (entities_done sm \<longrightarrow> all_entities sm))"

definition sm_inv :: "addr \<Rightarrow> ('p \<Rightarrow> entity_manager) \<Rightarrow> ('r, 'p) asystem list \<Rightarrow> ('r, 'p) sm_run \<Rightarrow> bool" where
  "sm_inv em man sys s = (built em man (world s) \<and> ops_ok (mgr s) (calls s) \<and> (\<forall>c \<in># calls s. call_ok sys c) \<and>
     ticks_ok (stop_pc s) (mgr s))"

lemma not_forever: "0 \<noteq> forever" by (simp add: forever_def)

lemma finite_delay [simp]: "t \<noteq> forever \<Longrightarrow> finite_op (op_delay t)" "op_delay t \<noteq> Op_Idle"
  by (simp_all add: finite_op_def op_delay_def)

lemma finite_simps [simp]: "finite_op Op_Idle" "finite_op Op_Posted" "finite_op (op_signal x)" "(op_signal x = Op_Idle) = (x = Op_Idle)"
  by (simp_all add: finite_op_def op_signal_def split: asop.splits)

lemma may_fire_armed: "may_fire x r \<Longrightarrow> x \<noteq> Op_Idle"
  by (cases x) auto

lemma armed_only:
  assumes "with_threads x P C = of_bool b" and "x \<noteq> Op_Idle"
  shows "filter_mset P C = {#}" "b"
  using assms by (cases b; simp add: with_threads_def)+

lemma called_only:
  assumes "with_threads x P (add_mset c C) = of_bool b" and "P c"
  shows "x = Op_Idle" "filter_mset P C = {#}" "b"
  using assms by (cases b; simp add: with_threads_def split: if_splits)+

lemma with_threads_simps [simp]:
  "with_threads x P (add_mset c C) = (if P c then Suc (with_threads x P C) else with_threads x P C)"
  "with_threads Op_Idle P C = size (filter_mset P C)" "x \<noteq> Op_Idle \<Longrightarrow> with_threads x P C = Suc (size (filter_mset P C))"
  by (simp_all add: with_threads_def)

text \<open>The next section of every callback can run, and keeps the invariant.\<close>

lemma run_call_inv:
  assumes inv: "sm_inv em man sys s" and c: "c \<in># calls s" and em: "em \<noteq> NULL" and sound: "\<forall>sy \<in> set sys. sound_system em man sy"
  shows "\<exists>s'. run_call man stat sys now now2 c s = Some s' \<and> sm_inv em man sys s'"
proof -
  obtain C where C: "calls s = add_mset c C" using c by (metis multi_member_split)
  have i: "built em man (world s)" "ops_ok (mgr s) (calls s)" "\<forall>c \<in># calls s. call_ok sys c" "ticks_ok (stop_pc s) (mgr s)"
    using inv by (simp_all add: sm_inv_def)
  show ?thesis
  proof (cases c)
    case Check_Systems
    obtain r l q where "systems_check man stat sys now now2 (mgr s) (world s) = Some (r, (mgr s)\<lparr>last_ent := l\<rparr>, q)" "built em man q"
      using systems_check_built[OF em i(1) sound] by blast
    then show ?thesis using Check_Systems i C by (auto simp: sm_inv_def ops_ok_def ticks_ok_def)
  next
    case (Delay_Systems t)
    have only: "systems_op (mgr s) = Op_Idle" "filter_mset systems_call C = {#}" "systems_done (mgr s)"
      using called_only[of "systems_op (mgr s)" systems_call c C "systems_done (mgr s)"] i(2) C Delay_Systems
      by (simp_all add: ops_ok_def)
    then show ?thesis using Delay_Systems i C
      by (simp add: sm_inv_def ops_ok_def ticks_ok_def systems_arm_def op_arm_def)
  next
    case Check_Entities
    obtain r xs l q where "entities_check man sys now (mgr s) (world s) = Some (r, xs, (mgr s)\<lparr>last_ent := l\<rparr>, q)" "built em man q"
      "of_systems sys xs"
      using entities_check_built[OF em i(1) sound] by blast
    then show ?thesis using Check_Entities i C by (auto simp: sm_inv_def ops_ok_def ticks_ok_def)
  next
    case (Arm_Entities x xs)
    have only: "entities_op (mgr s) = Op_Idle" "filter_mset entities_call C = {#}" "entities_done (mgr s)"
      using called_only[of "entities_op (mgr s)" entities_call c C "entities_done (mgr s)"] i(2) C Arm_Entities
      by (simp_all add: ops_ok_def)
    then show ?thesis using Arm_Entities i C
      by (simp add: sm_inv_def ops_ok_def ticks_ok_def entities_arm_def op_arm_def)
  next
    case (Exec_Entities xs)
    then show ?thesis using i C exec_results_built[OF _ sound i(1), of xs stat]
      by (auto simp: sm_inv_def ops_ok_def ticks_ok_def)
  qed
qed

lemma call_step_inv:
  assumes "sm_call_step man stat sys s t" and "sm_inv em man sys s" and "em \<noteq> NULL" and "\<forall>sy \<in> set sys. sound_system em man sy"
  shows "sm_inv em man sys t"
  using assms(1)
proof cases
  case (Systems r go sm)
  have "filter_mset systems_call (calls s) = {#}" "systems_done (mgr s)"
    using armed_only[OF _ may_fire_armed[OF Systems(2)]] assms(2) unfolding sm_inv_def ops_ok_def by blast+
  moreover have sm: "sm = (if go then (mgr s)\<lparr>systems_op := Op_Idle\<rparr> else (mgr s)\<lparr>systems_op := Op_Idle, systems_done := False\<rparr>)"
    using Systems(3) by (auto simp: systems_begin_def split: if_splits)
  ultimately show ?thesis using assms(2) unfolding Systems(1) sm
    by (cases go) (simp_all add: sm_inv_def ops_ok_def ticks_ok_def)
next
  case (Entities r go sm)
  have "filter_mset entities_call (calls s) = {#}" "entities_done (mgr s)"
    using armed_only[OF _ may_fire_armed[OF Entities(2)]] assms(2) unfolding sm_inv_def ops_ok_def by blast+
  moreover have sm: "sm = (if go then (mgr s)\<lparr>entities_op := Op_Idle\<rparr> else (mgr s)\<lparr>entities_op := Op_Idle, entities_done := False\<rparr>)"
    using Entities(3) by (auto simp: entities_begin_def split: if_splits)
  ultimately show ?thesis using assms(2) unfolding Entities(1) sm
    by (cases go) (simp_all add: sm_inv_def ops_ok_def ticks_ok_def)
next
  case (Section c now now2)
  then show ?thesis using run_call_inv[OF assms(2) Section(1) assms(3,4), of stat now now2] by auto
qed

lemma stop_inv:
  assumes "sm_inv em man sys s" and "SM_stop_checkall (stop_pc s) (mgr s) = (pc, sm)"
  shows "sm_inv em man sys (s\<lparr>mgr := sm, stop_pc := pc\<rparr>)"
proof -
  have "with_threads (op_signal x) P C = with_threads x P C" for x :: asop and P and C :: "'b sm_call multiset"
    by (simp add: with_threads_def)
  then show ?thesis using assms not_forever
    by (cases "stop_pc s") (auto simp: sm_inv_def ops_ok_def ticks_ok_def split: if_splits)
qed

lemma start_inv:
  assumes "sm_fresh sm" and "built em man p" and "SM_start_checkall sm = Some sm'"
  shows "sm_inv em man sys \<lparr>mgr = sm', world = p, calls = {#}, stop_pc = Clear_Systems\<rparr>"
  using assms
  by (cases "all_entities sm")
    (auto simp: sm_inv_def ops_ok_def ticks_ok_def sm_fresh_def SM_start_checkall_def op_arm_def Let_def)

lemma sm_reach_inv:
  assumes "sm_reach em man stat sys s" and "em \<noteq> NULL" and "\<forall>sy \<in> set sys. sound_system em man sy"
  shows "sm_inv em man sys s"
  using assms(1)
proof (induction rule: sm_reach.induct)
  case (step s t)
  then show ?case using call_step_inv assms(2,3) by blast
qed (simp_all add: start_inv stop_inv)

section \<open>The loop of the stopping thread\<close>

text \<open>How many sections there are before every callback has ended.\<close>

fun call_weight :: "'r sm_call \<Rightarrow> nat" where
  "call_weight Check_Systems = 3"
| "call_weight (Delay_Systems t) = 2"
| "call_weight Check_Entities = 4"
| "call_weight (Arm_Entities x xs) = 3"
| "call_weight (Exec_Entities xs) = 1"

definition op_weight :: "asop \<Rightarrow> nat" where
  "op_weight x = (if x = Op_Idle then 0 else 1)"

definition stop_bound :: "('r, 'p) sm_run \<Rightarrow> nat" where
  "stop_bound s = op_weight (systems_op (mgr s)) + op_weight (entities_op (mgr s)) + \<Sum>\<^sub># (image_mset call_weight (calls s))"

lemma call_step_bound:
  assumes step: "sm_call_step man stat sys s t" and inv: "sm_inv em man sys s" and pc: "stop_pc s = Wait_Loop"
  shows "stop_bound t < stop_bound s \<and> stop_pc t = Wait_Loop"
  using step
proof cases
  case (Systems r go sm)
  then show ?thesis using inv pc may_fire_armed[OF Systems(2)]
    by (auto simp: sm_inv_def ticks_ok_def systems_begin_def stop_bound_def op_weight_def)
next
  case (Entities r go sm)
  have "all_entities (mgr s)"
    using inv may_fire_armed[OF Entities(2)] by (auto simp: sm_inv_def ops_ok_def with_threads_def split: if_splits)
  then show ?thesis using Entities inv pc may_fire_armed[OF Entities(2)]
    by (auto simp: sm_inv_def ticks_ok_def entities_begin_def stop_bound_def op_weight_def)
next
  case (Section c now now2)
  obtain C where C: "calls s = add_mset c C" using Section(1) by (metis multi_member_split)
  then show ?thesis using Section(2) pc
    by (cases c)
      (auto simp: stop_bound_def op_weight_def systems_check_def entities_check_def systems_arm_def entities_arm_def op_arm_def Let_def
        split: bind_splits prod.splits if_splits)
qed

text \<open>As long as a \<^verbatim>\<open>done\<close> is set, there is a section to run.\<close>

lemma armed_steps:
  assumes inv: "sm_inv em man sys t" and run: "\<not> SM_stopped (mgr t)" and em: "em \<noteq> NULL"
    and sound: "\<forall>sy \<in> set sys. sound_system em man sy"
  shows "\<exists>u. sm_call_step man stat sys t u"
proof (cases "calls t = {#}")
  case False
  then obtain c where "c \<in># calls t" by blast
  then show ?thesis using run_call_inv[OF inv _ em sound, of c stat 0 0] sm_call_step.Section by blast
next
  case True
  then have "systems_op (mgr t) \<noteq> Op_Idle \<or> entities_op (mgr t) \<noteq> Op_Idle"
    using inv run by (auto simp: sm_inv_def ops_ok_def with_threads_def SM_stopped_def split: if_splits)
  moreover have "may_fire x 0" if "x \<noteq> Op_Idle" "finite_op x" for x using that by (cases x) (auto simp: finite_op_def)
  ultimately have "may_fire (systems_op (mgr t)) 0 \<or> may_fire (entities_op (mgr t)) 0"
    using inv by (auto simp: sm_inv_def ops_ok_def)
  then show ?thesis using sm_call_step.Systems sm_call_step.Entities by (metis surj_pair)
qed

text \<open>
  C23: stopping ends.  Take a manager that was started and is stopped, with its callbacks in any order beside the
  statements of \<^verbatim>\<open>stop_checkall\<close>, and systems that leave the entity manager as a program may build it.  When the stopping
  thread waits in its loop, at most \<open>stop_bound\<close> sections of callbacks are left to run, whatever their order: as
  long as \<^verbatim>\<open>done\<close> of an operator is set there is one that can run, and when both are cleared the next test ends the
  loop; then no operator is with a thread and no callback is before its checks.  (Results of an entity may still be
  executed then, since the operator is posted before.)
\<close>

theorem stop_checkall_ends:
  assumes "sm_reach em man stat sys s" and "em \<noteq> NULL" and "\<forall>sy \<in> set sys. sound_system em man sy"
    and "stop_pc s = Wait_Loop" and "sm_work man stat sys n s t"
  shows "n \<le> stop_bound s \<and>
    (if SM_stopped (mgr t)
     then fst (SM_stop_checkall (stop_pc t) (mgr t)) = Stop_Returned \<and> systems_op (mgr t) = Op_Idle \<and>
       entities_op (mgr t) = Op_Idle \<and> (\<forall>c \<in># calls t. \<exists>xs. c = Exec_Entities xs)
     else stop_pc t = Wait_Loop \<and> (\<exists>u. sm_work man stat sys (Suc n) s u))"
proof -
  note inv = sm_reach_inv[OF assms(1-3)]
  have run: "n + stop_bound t \<le> stop_bound s \<and> stop_pc t = Wait_Loop \<and> sm_inv em man sys t"
    using assms(5) inv assms(4)
  proof (induction rule: sm_work.induct)
    case (2 n s t u)
    then show ?case using call_step_bound[OF 2(2), of em] call_step_inv[OF 2(2) _ assms(2,3)] by fastforce
  qed simp
  then have o: "ops_ok (mgr t) (calls t)" by (simp add: sm_inv_def)
  show ?thesis
  proof (cases "SM_stopped (mgr t)")
    case True
    then have z: "with_threads (systems_op (mgr t)) systems_call (calls t) = 0" "with_threads (entities_op (mgr t)) entities_call (calls t) = 0"
      using o by (auto simp: ops_ok_def SM_stopped_def)
    then have ops: "systems_op (mgr t) = Op_Idle" "entities_op (mgr t) = Op_Idle"
      by (auto simp: with_threads_def split: if_splits)
    have "\<exists>xs. c = Exec_Entities xs" if "c \<in># calls t" for c
      using z that by (cases c) (auto simp: ops)
    then show ?thesis using run True ops by simp
  next
    case False
    have "\<exists>u. sm_call_step man stat sys t u" by (rule armed_steps[OF _ False assms(2,3)]) (use run in simp)
    then show ?thesis using run False assms(5) by (auto intro: sm_work.intros)
  qed
qed

theorem stop_checkall_ends_witness:
  "\<exists>s t :: (nat, entity_manager) sm_run. sm_reach 1 id (\<lambda>p r. Runnable) [] s \<and> stop_pc s = Wait_Loop \<and>
     systems_op (mgr s) = Op_Posted \<and> sm_work id (\<lambda>p r. Runnable) [] 2 s t \<and> 2 \<le> stop_bound s \<and>
     fst (SM_stop_checkall (stop_pc t) (mgr t)) = Stop_Returned"
proof -
  let ?sm = "\<lambda>t x d u y e. \<lparr>tick_systems = t, check_entities_when_idle = True, systems_done = d, systems_op = x, all_entities = True,
    tick_entities = u, last_ent = NULL, entities_done = e, entities_op = y, entities_sysmng = True\<rparr>"
  let ?s = "\<lambda>m pc. \<lparr>mgr = m, world = AEntity_init 8 (EM_init raw_manager), calls = {#}, stop_pc = pc\<rparr> :: (nat, entity_manager) sm_run"
  let ?reach = "sm_reach 1 id (\<lambda>p r. Runnable) ([] :: (nat, entity_manager) asystem list)"
  note stop = sm_reach.stop[where man = id and em = 1 and stat = "\<lambda>p r. Runnable" and sys = "[] :: (nat, entity_manager) asystem list"]
  have "?reach (?s (?sm 1000 Op_Posted True 500 Op_Posted True) Clear_Systems)"
    by (rule sm_reach.start[of "?sm 1000 Op_Idle False 500 Op_Idle False"])
      (use raw_run in \<open>auto simp: sm_fresh_def built_def forever_def SM_start_checkall_def op_arm_def Let_def\<close>)
  from stop[OF this] have "?reach (?s (?sm 0 Op_Posted True 500 Op_Posted True) Signal_Systems)" by simp
  from stop[OF this] have "?reach (?s (?sm 0 Op_Posted True 500 Op_Posted True) Clear_Entities)" by (simp add: op_signal_def)
  from stop[OF this] have "?reach (?s (?sm 0 Op_Posted True 0 Op_Posted True) Signal_Entities)" by simp
  from stop[OF this] have reach: "?reach (?s (?sm 0 Op_Posted True 0 Op_Posted True) Wait_Loop)" by (simp add: op_signal_def)
  let ?call = "sm_call_step id (\<lambda>p r. Runnable) ([] :: (nat, entity_manager) asystem list)"
  let ?a = "?s (?sm 0 Op_Posted True 0 Op_Posted True) Wait_Loop" and ?b = "?s (?sm 0 Op_Idle False 0 Op_Posted True) Wait_Loop"
    and ?c = "?s (?sm 0 Op_Idle False 0 Op_Idle False) Wait_Loop"
  have "?call ?a ?b"
    using sm_call_step.Systems[where s = ?a and r = 0 and go = False] by (simp add: systems_begin_def)
  moreover have "?call ?b ?c"
    using sm_call_step.Entities[where s = ?b and r = 0 and go = False] by (simp add: entities_begin_def)
  ultimately have work: "sm_work id (\<lambda>p r. Runnable) ([] :: (nat, entity_manager) asystem list) 2 ?a ?c"
    unfolding numeral_2_eq_2 by (meson sm_work.intros)
  have "(1 :: addr) \<noteq> NULL" by (simp add: NULL_def)
  from stop_checkall_ends[OF reach this _ _ work]
  have "2 \<le> stop_bound ?a" "fst (SM_stop_checkall (stop_pc ?c) (mgr ?c)) = Stop_Returned" by (simp_all add: SM_stopped_def)
  then show ?thesis using reach work by (intro exI[of _ ?a] exI[of _ ?c]) simp
qed

end
