(* ===== verification/Ps.thy ===== *)
theory Ps
  imports Prelude
begin

text \<open>
  MPEG program streams (\<^verbatim>\<open>media/libPSutil.h\<close>, \<^verbatim>\<open>media/libPSutil.cpp\<close>): the headers that are written, and the parser
  that takes a stream apart, fed with pieces of it of any length.  The packed structs are lists of their bytes;
  a 16-bit member in network order is the result of \<^verbatim>\<open>MAKETWOCC\<close> stored in little endian order.  The
  callbacks of the parser are recorded with what they are given and do not change its state.  An \<^verbatim>\<open>assert(FALSE)\<close>
  does nothing, as in a release; what would read or write beyond an array has no result.
\<close>

section \<open>Bytes\<close>

definition MAKETWOCC :: "u8 \<Rightarrow> u8 \<Rightarrow> u16" where
  "MAKETWOCC ch0 ch1 = ucast ch0 OR push_bit 8 (ucast ch1)"

definition le16 :: "u16 \<Rightarrow> u8 list" where
  "le16 w = [ucast w, ucast (drop_bit 8 w)]"

text \<open>\<^verbatim>\<open>MAKETWOCC(w>>8, w)\<close>\<close>

definition swap16 :: "u16 \<Rightarrow> u16" where
  "swap16 w = MAKETWOCC (ucast (drop_bit 8 w)) (ucast w)"

definition MPEGPS_STARTCODE_LEN :: int where "MPEGPS_STARTCODE_LEN = 6"
definition MPEGPS_PACK_START_CODE :: u8 where "MPEGPS_PACK_START_CODE = 0xBA"
definition MPEGPS_SYSTEM_HEADER_START_CODE :: u8 where "MPEGPS_SYSTEM_HEADER_START_CODE = 0xBB"
definition MPEGPS_PROGRAM_STREAM_MAP :: u8 where "MPEGPS_PROGRAM_STREAM_MAP = 0xBC"
definition MPEGPS_PRIVATE_STREAM_1 :: u8 where "MPEGPS_PRIVATE_STREAM_1 = 0xBD"
definition MPEGPS_PADDING_STREAM :: u8 where "MPEGPS_PADDING_STREAM = 0xBE"
definition MPEGPS_PRIVATE_STREAM_2 :: u8 where "MPEGPS_PRIVATE_STREAM_2 = 0xBF"

text \<open>Audio, video, AC3, DTS, LPCM and subtitles.\<close>

definition is_pes :: "u8 \<Rightarrow> bool" where
  "is_pes t = (t = 0xC0 \<or> t = 0xE0 \<or> t = 0x80 \<or> t = 0x8A \<or> t = 0xA0 \<or> t = 0x20)"

definition start_code :: "u8 \<Rightarrow> u8 list" where
  "start_code t = [0, 0, 1, t]"

section \<open>Time stamps\<close>

definition MARKER_BIT :: "'a :: len word" where "MARKER_BIT = 1"

text \<open>
  Shifts to the right of the signed 64-bit time stamp are followed by a mask that the sign does not reach, so
  they are those of the word.
\<close>

definition MPEGPS_PTS_Encode :: "u8 \<Rightarrow> 64 word \<Rightarrow> u8 list" where
  "MPEGPS_PTS_Encode pdf timestamp =
     [push_bit 4 pdf OR ucast (drop_bit 29 timestamp AND 0x0E) OR MARKER_BIT,
      ucast (drop_bit 21 timestamp AND 0xFF),
      ucast (drop_bit 14 timestamp AND 0xFE) OR MARKER_BIT,
      ucast (drop_bit 7 timestamp AND 0xFF),
      ucast (push_bit 1 timestamp AND 0xFE) OR MARKER_BIT]"

text \<open>The time stamp, and the flags returned, of the five bytes from a position on.\<close>

definition MPEGPS_PTS_Decode :: "u8 list \<Rightarrow> nat \<Rightarrow> u8 \<times> 64 word" where
  "MPEGPS_PTS_Decode buf i =
     (drop_bit 4 (buf ! i),
      push_bit 29 (ucast (buf ! i AND 0x0E))
      OR push_bit 15 (drop_bit 1 (ucast (MAKETWOCC (buf ! (i + 2)) (buf ! (i + 1)))))
      OR drop_bit 1 (ucast (MAKETWOCC (buf ! (i + 4)) (buf ! (i + 3)))))"

section \<open>Headers\<close>

definition scr_base1 :: "64 word \<Rightarrow> u16" where
  "scr_base1 timestamp =
     (let us = push_bit 3 (0 OR 1);
          us = us OR ucast (drop_bit 30 timestamp AND 0x07);
          us = push_bit 1 us OR MARKER_BIT
      in push_bit 10 us OR ucast (drop_bit 20 timestamp AND 0x03FF))"

definition scr_base2 :: "64 word \<Rightarrow> u16" where
  "scr_base2 timestamp =
     (let us = 0 OR ucast (drop_bit 15 timestamp AND 0x1F);
          us = push_bit 1 us OR MARKER_BIT
      in push_bit 10 us OR ucast (drop_bit 5 timestamp AND 0x03FF))"

definition scr_ext :: "64 word \<Rightarrow> u16" where
  "scr_ext timestamp =
     (let us = 0 OR ucast (timestamp AND 0x1F);
          us = push_bit 1 us OR MARKER_BIT
      in push_bit 10 us OR MARKER_BIT)"

definition MPEGPS_PackHeader_Init :: "64 word \<Rightarrow> u8 list" where
  "MPEGPS_PackHeader_Init timestamp =
     start_code MPEGPS_PACK_START_CODE @ le16 (swap16 (scr_base1 timestamp)) @ le16 (swap16 (scr_base2 timestamp)) @
     le16 (swap16 (scr_ext timestamp)) @ le16 (MAKETWOCC 0x01 0x99) @ [0x9F, push_bit 3 0x1F OR 0]"

definition MPEGPS_SystemHeader_Init :: "u8 list" where
  "MPEGPS_SystemHeader_Init =
     start_code MPEGPS_SYSTEM_HEADER_START_CODE @ le16 (swap16 (18 - 6)) @ [0x80] @ le16 (MAKETWOCC 0xCC 0xF5) @
     [0x04, 0xE1, 0x7F, 0xE0] @ le16 (MAKETWOCC 0xE0 0xE8) @ [0xC0] @ le16 (MAKETWOCC 0xC0 0x20)"

text \<open>\<^verbatim>\<open>sizeof(MPEGPS_PESHeader)\<close> is 19, with the two time stamps.\<close>

definition MPEGPS_PES_MAX_PPL :: nat where "MPEGPS_PES_MAX_PPL = 0xFFFF - 19 + 6"

text \<open>
  The result and the nine bytes before the time stamps: \<^verbatim>\<open>dai\<close> and \<^verbatim>\<open>ff\<close> are in the first flag byte, \<^verbatim>\<open>pdf\<close> in the
  second.
\<close>

definition MPEGPS_PESHeader_Init :: "u8 \<Rightarrow> u16 \<Rightarrow> int \<times> u8 list option" where
  "MPEGPS_PESHeader_Init stream_id stream_length =
     (if unat stream_length > MPEGPS_PES_MAX_PPL then (- 1, None)
      else (19 + uint stream_length,
        Some (start_code stream_id @ le16 (swap16 stream_length) @
          [push_bit 2 1 OR push_bit 6 2, push_bit 6 (2 OR 1), 10])))"

section \<open>Parser\<close>

text \<open>
  What the callbacks are given: the header read so far, and content with the time stamps at the call.
\<close>

datatype ps_call = Parse_Header "u8 list" | Header_Callback "u8 list" | Content_Callback "64 word" "64 word" "u8 list"

record ps_info =
  unknown_header :: "(u8 list \<Rightarrow> bool) option"
  has_parse_header :: bool
  has_header_callback :: bool
  has_content_callback :: bool
  header_data :: "u8 list"
  header_pos :: int
  header_size :: int
  content_length :: int
  pts :: "64 word"
  dts :: "64 word"
  ps_calls :: "ps_call list"

definition HEADER_DATA :: nat where "HEADER_DATA = 256"

text \<open>\<^verbatim>\<open>MPEGPS_ParserInit\<close>, and the callbacks set after it.\<close>

definition MPEGPS_ParserInit :: "(u8 list \<Rightarrow> bool) option \<Rightarrow> bool \<Rightarrow> bool \<Rightarrow> bool \<Rightarrow> ps_info" where
  "MPEGPS_ParserInit unknown parse header content =
     \<lparr>unknown_header = unknown, has_parse_header = parse, has_header_callback = header, has_content_callback = content,
      header_data = replicate HEADER_DATA 0, header_pos = 0, header_size = 0, content_length = 0, pts = 0, dts = 0,
      ps_calls = []\<rparr>"

text \<open>\<^verbatim>\<open>FillData\<close>, of \<^verbatim>\<open>header_data\<close> at \<^verbatim>\<open>header_pos\<close>: a copy beyond the array has no result.\<close>

definition FillData :: "int \<Rightarrow> u8 list \<Rightarrow> ps_info \<Rightarrow> (int \<times> ps_info) option" where
  "FillData dest_len src info =
     (let used = min (dest_len - header_pos info) (int (length src));
          i = nat (header_pos info); n = nat used
      in if header_pos info < 0 \<or> used < 0 \<or> i + n > length (header_data info) then None
         else Some (used, info\<lparr>header_data := take i (header_data info) @ take n src @ drop (i + n) (header_data info),
           header_pos := header_pos info + used\<rparr>))"

definition MPEGPS_IsHeader :: "u8 list \<Rightarrow> bool" where
  "MPEGPS_IsHeader buf = (buf ! 0 = 0 \<and> buf ! 1 = 0 \<and> buf ! 2 = 1)"

definition uint16_at :: "u8 list \<Rightarrow> nat \<Rightarrow> int" where
  "uint16_at buf i = uint (MAKETWOCC (buf ! (i + 1)) (buf ! i))"

definition MPEGPS_ParserHeaderBegin :: "u8 list \<Rightarrow> ps_info \<Rightarrow> (bool \<times> ps_info) option" where
  "MPEGPS_ParserHeaderBegin buf info =
     (if int (length buf) < MPEGPS_STARTCODE_LEN then None
      else let unknown = (case unknown_header info of None \<Rightarrow> (False, info) | Some f \<Rightarrow> (f buf, info));
               t = buf ! 3
      in Some (
        if \<not> MPEGPS_IsHeader buf then unknown
        else if t = MPEGPS_PACK_START_CODE then (True, info\<lparr>header_size := 14\<rparr>)
        else if t = MPEGPS_SYSTEM_HEADER_START_CODE \<or> t = MPEGPS_PROGRAM_STREAM_MAP
          then (True, info\<lparr>header_size := MPEGPS_STARTCODE_LEN + uint16_at buf 4\<rparr>)
        else if t = MPEGPS_PRIVATE_STREAM_1 \<or> t = MPEGPS_PADDING_STREAM \<or> t = MPEGPS_PRIVATE_STREAM_2
          then (True, info\<lparr>header_size := MPEGPS_STARTCODE_LEN, content_length := uint16_at buf 4\<rparr>)
        else if is_pes t then (True, info\<lparr>header_size := 19 - 10\<rparr>)
        else unknown))"

text \<open>The end of \<^verbatim>\<open>MPEGPS_ParserHeaderEnd\<close>: the callback, and the test of the size.\<close>

definition header_parsed :: "ps_info \<Rightarrow> ps_info" where
  "header_parsed info =
     (let info = (if has_parse_header info
        then info\<lparr>ps_calls := ps_calls info @ [Parse_Header (take (nat (header_pos info)) (header_data info))]\<rparr> else info)
      in if header_size info > int HEADER_DATA
         then info\<lparr>header_size := 0, header_pos := 0, content_length := 0\<rparr> else info)"

definition read_stamps :: "ps_info \<Rightarrow> ps_info" where
  "read_stamps info =
     (let pdf = drop_bit 6 (header_data info ! 7);
          i = 9;
          (info, i) = (if pdf AND 2 \<noteq> 0 then (info\<lparr>pts := snd (MPEGPS_PTS_Decode (header_data info) i)\<rparr>, i + 5) else (info, i))
      in if pdf = 2 OR 1 then info\<lparr>dts := snd (MPEGPS_PTS_Decode (header_data info) i)\<rparr> else info)"

definition MPEGPS_ParserHeaderEnd :: "ps_info \<Rightarrow> ps_info" where
  "MPEGPS_ParserHeaderEnd info =
     (let t = header_data info ! 3 in
      if t = MPEGPS_PACK_START_CODE
      then header_parsed (info\<lparr>header_size := 14 + uint (header_data info ! 13 AND 7)\<rparr>)
      else if is_pes t
      then if drop_bit 6 (header_data info ! 6) AND 2 = 0 then header_parsed info
           else let hs = 19 - 10 + uint (header_data info ! 8);
                    cl = MPEGPS_STARTCODE_LEN + uint16_at (header_data info) 4 - hs;
                    info = info\<lparr>header_size := hs, content_length := cl\<rparr>
                in if cl < 0 then info\<lparr>header_size := 0, header_pos := 0, content_length := 0\<rparr>
                   else if header_pos info < hs then header_parsed info
                   else header_parsed (read_stamps info)
      else header_parsed info)"

text \<open>The search for a header in the bytes that were given; too few that are left are kept in \<^verbatim>\<open>header_data\<close>.\<close>

fun probe :: "int \<Rightarrow> u8 list \<Rightarrow> ps_info \<Rightarrow> (int \<times> ps_info) option" where
  "probe pos [] info =
     Some (pos, info\<lparr>header_pos := 0\<rparr>)"
| "probe pos (b # buf) info =
     (if int (length (b # buf)) \<ge> MPEGPS_STARTCODE_LEN
      then do {
        (found, info) \<leftarrow> MPEGPS_ParserHeaderBegin (b # buf) info;
        if found then Some (pos, info) else probe (pos + 1) buf info
      }
      else Some (pos + int (length (b # buf)),
        info\<lparr>header_data := (b # buf) @ drop (length (b # buf)) (header_data info), header_pos := int (length (b # buf))\<rparr>))"

definition MPEGPS_ParserInput :: "u8 list \<Rightarrow> ps_info \<Rightarrow> (int \<times> ps_info) option" where
  "MPEGPS_ParserInput buf info =
     (if header_pos info < header_size info
      then do {
        (used, info) \<leftarrow> FillData (header_size info) buf info;
        Some (used, if header_pos info = header_size info then MPEGPS_ParserHeaderEnd info else info)
      }
      else if content_length info \<noteq> 0
      then let used = min (content_length info) (int (length buf));
               info = info\<lparr>content_length := content_length info - used\<rparr>;
               info = (if has_content_callback info
                 then info\<lparr>ps_calls := ps_calls info @ [Content_Callback (pts info) (dts info) (take (nat used) buf)]\<rparr> else info);
               info = (if content_length info = 0 then info\<lparr>header_size := 0, header_pos := 0\<rparr> else info)
           in Some (used, info)
      else if header_size info \<noteq> 0
      then let info = (if has_header_callback info
                 then info\<lparr>ps_calls := ps_calls info @ [Header_Callback (take (nat (header_pos info)) (header_data info))]\<rparr> else info)
           in Some (0, info\<lparr>header_pos := 0, header_size := 0\<rparr>)
      else if header_pos info \<noteq> 0
      then do {
        (used, info) \<leftarrow> (if header_pos info < MPEGPS_STARTCODE_LEN then FillData MPEGPS_STARTCODE_LEN buf info
          else Some (0, info));
        if header_pos info \<ge> MPEGPS_STARTCODE_LEN
        then do {
          (found, info) \<leftarrow> MPEGPS_ParserHeaderBegin (take (nat (header_pos info)) (header_data info)) info;
          if found then Some (used, info)
          else let n = nat (header_pos info - (used + 1))
               in Some (0, info\<lparr>header_pos := header_pos info - (used + 1),
                    header_data := take n (drop 1 (header_data info)) @ drop n (header_data info)\<rparr>)
        }
        else Some (used, info)
      }
      else probe 0 buf info)"

partial_function (option) ParserRun_from :: "int \<Rightarrow> u8 list \<Rightarrow> ps_info \<Rightarrow> (int \<times> ps_info) option" where
  "ParserRun_from pos buf info =
     (if pos < int (length buf)
      then do {
        (used, info) \<leftarrow> MPEGPS_ParserInput (drop (nat pos) buf) info;
        if \<not> has_content_callback info \<and> header_size info \<noteq> 0 \<and> header_size info = header_pos info
        then Some (pos, info)
        else ParserRun_from (pos + used) buf info
      }
      else Some (pos, info))"

definition MPEGPS_ParserRun :: "u8 list \<Rightarrow> ps_info \<Rightarrow> (int \<times> ps_info) option" where
  "MPEGPS_ParserRun buf info = ParserRun_from 0 buf info"

end
