(* ===== verification/Ps_Stream.thy ===== *)
theory Ps_Stream
  imports Ps
begin

text \<open>
  The parser of program streams against a machine that takes one byte at a time: whatever the pieces, the parser
  does with a stream what the machine does with its bytes.
\<close>

section \<open>One byte at a time\<close>

text \<open>
  The bytes of the header so far, the size of the whole header when it is known, the bytes of content that are
  left, and the time stamps, \<open>None\<close> after they were read from beyond the header.
\<close>

record stream =
  got :: "u8 list"
  need :: int
  left_over :: int
  stamp :: "64 word option"
  decode_stamp :: "64 word option"

datatype item = Byte "64 word option" "64 word option" u8 | Header "u8 list"

definition stream_reset :: "stream \<Rightarrow> stream" where
  "stream_reset s = s\<lparr>got := [], need := 0, left_over := 0\<rparr>"

text \<open>The size of the header that begins with six bytes, and of content without a further header.\<close>

definition header_kind :: "u8 list \<Rightarrow> (int \<times> int) option" where
  "header_kind h =
     (let t = h ! 3 in
      if \<not> MPEGPS_IsHeader h then None
      else if t = MPEGPS_PACK_START_CODE then Some (14, 0)
      else if t = MPEGPS_SYSTEM_HEADER_START_CODE \<or> t = MPEGPS_PROGRAM_STREAM_MAP then Some (6 + uint16_at h 4, 0)
      else if t = MPEGPS_PRIVATE_STREAM_1 \<or> t = MPEGPS_PADDING_STREAM \<or> t = MPEGPS_PRIVATE_STREAM_2
        then Some (6, uint16_at h 4)
      else if is_pes t then Some (9, 0) else None)"

definition stream_stamps :: "stream \<Rightarrow> stream" where
  "stream_stamps s =
     (let pdf = drop_bit 6 (got s ! 7);
          read = (\<lambda>i. if i + 5 \<le> length (got s) then Some (snd (MPEGPS_PTS_Decode (got s) i)) else None);
          s = (if pdf AND 2 \<noteq> 0 then s\<lparr>stamp := read 9\<rparr> else s)
      in if pdf = 2 OR 1 then s\<lparr>decode_stamp := read 14\<rparr> else s)"

definition stream_sized :: "stream \<Rightarrow> stream" where
  "stream_sized s = (if need s > int HEADER_DATA then stream_reset s else s)"

definition stream_end :: "stream \<Rightarrow> stream" where
  "stream_end s =
     (let t = got s ! 3 in
      if t = MPEGPS_PACK_START_CODE then s\<lparr>need := 14 + uint (got s ! 13 AND 7)\<rparr>
      else if is_pes t \<and> drop_bit 6 (got s ! 6) AND 2 \<noteq> 0
      then let hs = 9 + uint (got s ! 8); cl = 6 + uint16_at (got s) 4 - hs
           in if cl < 0 then stream_reset s
              else if int (length (got s)) < hs then stream_sized (s\<lparr>need := hs, left_over := cl\<rparr>)
              else stream_stamps (s\<lparr>need := hs, left_over := cl\<rparr>)
      else s)"

definition probe_byte :: "u8 \<Rightarrow> stream \<Rightarrow> stream" where
  "probe_byte b s =
     (let w = got s @ [b] in
      if length w < 6 then s\<lparr>got := w\<rparr>
      else case header_kind w of
        None \<Rightarrow> s\<lparr>got := tl w\<rparr>
      | Some (n, c) \<Rightarrow> s\<lparr>got := w, need := n, left_over := c\<rparr>)"

definition stream_byte :: "u8 \<Rightarrow> stream \<Rightarrow> (stream \<times> item list) option" where
  "stream_byte b s =
     (if int (length (got s)) < need s
      then if HEADER_DATA \<le> length (got s) then None
           else let s = s\<lparr>got := got s @ [b]\<rparr> in Some (if int (length (got s)) = need s then stream_end s else s, [])
      else if left_over s \<noteq> 0
      then Some (if left_over s = 1 then stream_reset s else s\<lparr>left_over := left_over s - 1\<rparr>, [Byte (stamp s) (decode_stamp s) b])
      else if need s \<noteq> 0 then Some (probe_byte b (stream_reset s), [Header (got s)])
      else Some (probe_byte b s, []))"

fun stream_bytes :: "u8 list \<Rightarrow> stream \<Rightarrow> (stream \<times> item list) option" where
  "stream_bytes [] s = Some (s, [])"
| "stream_bytes (b # bs) s = do {
     (s, e) \<leftarrow> stream_byte b s;
     (s, es) \<leftarrow> stream_bytes bs s;
     Some (s, e @ es)
   }"

lemma stream_bytes_append:
  "stream_bytes (xs @ ys) s = do {
     (s, e) \<leftarrow> stream_bytes xs s;
     (s, es) \<leftarrow> stream_bytes ys s;
     Some (s, e @ es)
   }"
  by (induction xs arbitrary: s) (auto split: bind_splits)

text \<open>A part of the header.\<close>

lemma stream_fill:
  assumes "int (length (got s)) < need s" and "int (length (got s)) + int (length xs) \<le> need s"
    and "xs \<noteq> []" and "length (got s) \<le> HEADER_DATA"
  shows "stream_bytes xs s =
    (if length (got s) + length xs > HEADER_DATA then None
     else Some (let s = s\<lparr>got := got s @ xs\<rparr> in if int (length (got s)) = need s then stream_end s else s, []))"
  using assms
proof (induction xs arbitrary: s)
  case (Cons x xs)
  show ?case
  proof (cases "xs = []")
    case True
    then show ?thesis using Cons.prems by (auto simp: stream_byte_def Let_def)
  next
    case False
    let ?s = "s\<lparr>got := got s @ [x]\<rparr>"
    have "int (length (got ?s)) < need ?s" using Cons.prems False by (cases xs) auto
    then show ?thesis
      using Cons.IH[of ?s] Cons.prems False by (auto simp: stream_byte_def Let_def)
  qed
qed simp

text \<open>A part of the content.\<close>

lemma stream_content:
  assumes "need s \<le> int (length (got s))" and "int (length xs) \<le> left_over s" and "xs \<noteq> []"
  shows "stream_bytes xs s =
    Some (if int (length xs) = left_over s then stream_reset s else s\<lparr>left_over := left_over s - int (length xs)\<rparr>,
      map (Byte (stamp s) (decode_stamp s)) xs)"
  using assms
proof (induction xs arbitrary: s)
  case (Cons x xs)
  show ?case
  proof (cases "xs = []")
    case True
    then show ?thesis using Cons.prems by (auto simp: stream_byte_def)
  next
    case False
    then have "left_over s \<noteq> 1" using Cons.prems by (cases xs) auto
    then show ?thesis
      using Cons.IH[of "s\<lparr>left_over := left_over s - 1\<rparr>"] Cons.prems False
      by (auto simp: stream_byte_def stream_reset_def)
  qed
qed simp

text \<open>Bytes before a header is recognised.\<close>

lemma stream_probe_few:
  "need s = 0 \<Longrightarrow> left_over s = 0 \<Longrightarrow> length (got s) + length xs < 6 \<Longrightarrow>
   stream_bytes xs s = Some (s\<lparr>got := got s @ xs\<rparr>, [])"
  by (induction xs arbitrary: s) (simp_all add: stream_byte_def probe_byte_def)

lemma stream_probe_six:
  assumes "need s = 0" and "left_over s = 0" and "length (got s) + length xs = 6" and "xs \<noteq> []"
  shows "stream_bytes xs s =
    Some (case header_kind (got s @ xs) of
        None \<Rightarrow> s\<lparr>got := tl (got s @ xs)\<rparr>
      | Some (n, c) \<Rightarrow> s\<lparr>got := got s @ xs, need := n, left_over := c\<rparr>, [])"
proof -
  obtain ys y where xs: "xs = ys @ [y]" using assms(4) by (cases xs rule: rev_cases) auto
  then have "stream_bytes ys s = Some (s\<lparr>got := got s @ ys\<rparr>, [])" using assms by (intro stream_probe_few) auto
  then show ?thesis
    using assms(1,2,3) unfolding xs stream_bytes_append
    by (simp add: stream_byte_def probe_byte_def split: option.splits)
qed

text \<open>When the first six bytes are no header, the first of them does not matter.\<close>

lemma stream_probe_skip:
  assumes "need s = 0" and "left_over s = 0" and "length (got s) < 6" and "got s \<noteq> []"
    and "6 \<le> length (got s @ xs)" and "header_kind (take 6 (got s @ xs)) = None"
  shows "stream_bytes xs s = stream_bytes xs (s\<lparr>got := tl (got s)\<rparr>)"
proof -
  let ?n = "6 - length (got s)"
  have len: "length (take ?n xs) = ?n" using assms(5) by simp
  have six: "got s @ take ?n xs = take 6 (got s @ xs)" using assms(3) by simp
  have "stream_bytes (take ?n xs) s = Some (s\<lparr>got := tl (got s @ take ?n xs)\<rparr>, [])"
    using stream_probe_six[of s "take ?n xs"] assms len six by (cases "take ?n xs") auto
  moreover have "stream_bytes (take ?n xs) (s\<lparr>got := tl (got s)\<rparr>) = Some (s\<lparr>got := tl (got s) @ take ?n xs\<rparr>, [])"
    using stream_probe_few[of "s\<lparr>got := tl (got s)\<rparr>" "take ?n xs"] assms(1-4) len by (cases "got s") auto
  moreover have "tl (got s @ take ?n xs) = tl (got s) @ take ?n xs" using assms(4) by simp
  ultimately show ?thesis
    by (subst (1 2) append_take_drop_id[of ?n xs, symmetric]) (simp only: stream_bytes_append bind.bind_lunit prod.case)
qed

section \<open>The parser and the machine\<close>

definition call_items :: "ps_call list \<Rightarrow> item list" where
  "call_items cs = concat (map (\<lambda>c. case c of
     Parse_Header h \<Rightarrow> [] | Header_Callback h \<Rightarrow> [Header h] | Content_Callback p d bs \<Rightarrow> map (Byte (Some p) (Some d)) bs) cs)"

definition stamp_ok :: "64 word option \<Rightarrow> 64 word option \<Rightarrow> bool" where
  "stamp_ok x y = (y = None \<or> x = y)"

text \<open>The same items, with the same time stamps unless those come from beyond a header.\<close>

fun item_ok :: "item \<Rightarrow> item \<Rightarrow> bool" where
  "item_ok (Byte p d b) (Byte p' d' b') = (b = b' \<and> stamp_ok p p' \<and> stamp_ok d d')"
| "item_ok x y = (x = y)"

definition plain_callbacks :: "ps_info \<Rightarrow> bool" where
  "plain_callbacks info = (unknown_header info = None \<and> \<not> has_parse_header info \<and>
     has_header_callback info \<and> has_content_callback info)"

definition need_ok :: "u8 list \<Rightarrow> int \<Rightarrow> bool" where
  "need_ok h n =
     (if h ! 3 = MPEGPS_PACK_START_CODE then n = 14 \<or> 14 \<le> length h \<and> n = 14 + uint (h ! 13 AND 7)
      else if is_pes (h ! 3) then n = 9 \<or> 9 \<le> length h \<and> n = 9 + uint (h ! 8)
      else True)"

definition stream_ok :: "stream \<Rightarrow> bool" where
  "stream_ok s = (0 \<le> left_over s \<and> length (got s) \<le> HEADER_DATA \<and>
     (if need s = 0 then length (got s) < 6 \<and> left_over s = 0
      else 6 \<le> length (got s) \<and> int (length (got s)) \<le> need s \<and> need_ok (got s) (need s)))"

definition same_stamps :: "ps_info \<Rightarrow> stream \<Rightarrow> bool" where
  "same_stamps info s = (stamp_ok (Some (pts info)) (stamp s) \<and> stamp_ok (Some (dts info)) (decode_stamp s))"

definition same_state :: "ps_info \<Rightarrow> stream \<Rightarrow> bool" where
  "same_state info s = (plain_callbacks info \<and> stream_ok s \<and> same_stamps info s \<and>
     length (header_data info) = HEADER_DATA \<and> take (length (got s)) (header_data info) = got s \<and>
     header_pos info = int (length (got s)) \<and> header_size info = need s \<and> content_length info = left_over s)"

text \<open>Or the parser has found a header in the bytes to come and not taken it yet.\<close>

definition found_state :: "ps_info \<Rightarrow> stream \<Rightarrow> u8 list \<Rightarrow> bool" where
  "found_state info s buf = (plain_callbacks info \<and> same_stamps info s \<and> length (header_data info) = HEADER_DATA \<and>
     header_pos info = 0 \<and> got s = [] \<and> need s = 0 \<and> left_over s = 0 \<and> 6 \<le> length buf \<and>
     header_kind (take 6 buf) = Some (header_size info, content_length info))"

lemma header_kind_sizes: "header_kind h = Some (n, c) \<Longrightarrow> 6 \<le> n \<and> 0 \<le> c"
  by (auto simp: header_kind_def Let_def uint16_at_def split: if_splits)

lemma header_kind_take:
  "6 \<le> length h \<Longrightarrow> header_kind (take 6 h) = header_kind h"
  by (simp add: header_kind_def uint16_at_def MPEGPS_IsHeader_def Let_def cong: if_cong)

lemma header_begin_kind:
  assumes "plain_callbacks info" and "6 \<le> length buf" and "content_length info = 0"
  shows "MPEGPS_ParserHeaderBegin buf info =
    Some (case header_kind buf of None \<Rightarrow> (False, info)
      | Some (n, c) \<Rightarrow> (True, info\<lparr>header_size := n, content_length := c\<rparr>))"
proof -
  have "info\<lparr>header_size := n, content_length := 0\<rparr> = info\<lparr>header_size := n\<rparr>" for n
    using assms(3) by (cases info) simp
  then show ?thesis
    using assms(1,2)
    by (simp add: MPEGPS_ParserHeaderBegin_def header_kind_def plain_callbacks_def MPEGPS_STARTCODE_LEN_def Let_def)
qed

text \<open>The end of a header: the parser reads bytes of the header, or, for a time stamp that is not in it, any.\<close>

lemma taken_nth:
  assumes "take (length g) h = g" and "k < length g"
  shows "h ! k = g ! k"
  using assms by (metis nth_take)

lemma header_parsed_sized:
  assumes "plain_callbacks info" and "header_size info = need s" and "same_stamps info s"
    and "length (header_data info) = HEADER_DATA" and "take (length (got s)) (header_data info) = got s"
    and "header_pos info = int (length (got s))" and "content_length info = left_over s"
    and "need s \<le> int HEADER_DATA \<Longrightarrow> stream_ok s"
  shows "same_state (header_parsed info) (stream_sized s)" and "ps_calls (header_parsed info) = ps_calls info"
proof -
  have "same_state (header_parsed info) (stream_sized s) \<and> ps_calls (header_parsed info) = ps_calls info"
  proof (cases "need s > int HEADER_DATA")
    case True
    have "stream_ok (stream_reset s)" by (simp add: stream_ok_def stream_reset_def)
    then show ?thesis using True assms(1-7)
      by (simp add: header_parsed_def stream_sized_def plain_callbacks_def same_state_def same_stamps_def stream_reset_def)
  next
    case False
    then show ?thesis using assms
      by (simp add: header_parsed_def stream_sized_def plain_callbacks_def same_state_def same_stamps_def)
  qed
  then show "same_state (header_parsed info) (stream_sized s)" "ps_calls (header_parsed info) = ps_calls info" by blast+
qed

lemma decode_taken:
  assumes "take (length g) h = g" and "i + 5 \<le> length g"
  shows "MPEGPS_PTS_Decode h i = MPEGPS_PTS_Decode g i"
  using taken_nth[OF assms(1)] assms(2) by (simp add: MPEGPS_PTS_Decode_def)

lemma read_stamps_frame [simp]:
  "plain_callbacks (read_stamps info) = plain_callbacks info" "header_data (read_stamps info) = header_data info"
  "header_pos (read_stamps info) = header_pos info" "header_size (read_stamps info) = header_size info"
  "content_length (read_stamps info) = content_length info" "ps_calls (read_stamps info) = ps_calls info"
  by (simp_all add: read_stamps_def plain_callbacks_def Let_def)

lemma stream_stamps_frame [simp]:
  "got (stream_stamps s) = got s" "need (stream_stamps s) = need s" "left_over (stream_stamps s) = left_over s"
  "stream_ok (stream_stamps s) = stream_ok s"
  by (simp_all add: stream_stamps_def stream_ok_def Let_def)

lemma stamps_same:
  assumes "same_stamps info s" and "take (length (got s)) (header_data info) = got s" and "9 \<le> length (got s)"
  shows "same_stamps (read_stamps info) (stream_stamps s)"
proof -
  have "header_data info ! 7 = got s ! 7" using taken_nth[OF assms(2)] assms(3) by simp
  moreover have "drop_bit 6 (got s ! 7) = 3 \<Longrightarrow> drop_bit 6 (got s ! 7) AND 2 \<noteq> 0" by simp
  ultimately show ?thesis
    using assms decode_taken[OF assms(2), of 9] decode_taken[OF assms(2), of 14]
    by (auto simp: same_stamps_def read_stamps_def stream_stamps_def stamp_ok_def Let_def)
qed

lemma end_same:
  assumes st: "same_state info s" and full: "int (length (got s)) = need s" and ne: "need s \<noteq> 0"
  shows "same_state (MPEGPS_ParserHeaderEnd info) (stream_end s)"
    and "ps_calls (MPEGPS_ParserHeaderEnd info) = ps_calls info"
proof -
  have i: "plain_callbacks info" "stream_ok s" "same_stamps info s" "length (header_data info) = HEADER_DATA"
    "take (length (got s)) (header_data info) = got s" "header_pos info = int (length (got s))"
    "header_size info = need s" "content_length info = left_over s" using st by (simp_all add: same_state_def)
  have k: "6 \<le> length (got s)" "need_ok (got s) (need s)" "length (got s) \<le> HEADER_DATA" "0 \<le> left_over s"
    using i(2) full ne by (auto simp: stream_ok_def)
  note nth = taken_nth[OF i(5)]
  have t: "header_data info ! 3 = got s ! 3" using nth k(1) by simp
  have "same_state (MPEGPS_ParserHeaderEnd info) (stream_end s) \<and> ps_calls (MPEGPS_ParserHeaderEnd info) = ps_calls info"
  proof (cases "got s ! 3 = MPEGPS_PACK_START_CODE")
    case True
    then have n: "14 \<le> length (got s)" "need s = 14 \<or> need s = 14 + uint (got s ! 13 AND 7)"
      using k(2) full by (auto simp: need_ok_def)
    let ?n = "14 + uint (got s ! 13 AND 7)"
    have "uint (got s ! 13 AND 7) \<le> 7" using word_and_le1[of "got s ! 13" 7] by (simp add: word_le_def)
    then have "stream_sized (s\<lparr>need := ?n\<rparr>) = s\<lparr>need := ?n\<rparr>" by (simp add: stream_sized_def HEADER_DATA_def)
    moreover have "0 < ?n" using uint_ge_0[of "got s ! 13 AND 7"] by linarith
    then have "stream_ok (s\<lparr>need := ?n\<rparr>)" using i(2) n True full by (auto simp: stream_ok_def need_ok_def)
    ultimately show ?thesis
      using header_parsed_sized[of "info\<lparr>header_size := ?n\<rparr>" "s\<lparr>need := ?n\<rparr>"] i nth[of 13] n(1) t True
      by (simp add: MPEGPS_ParserHeaderEnd_def stream_end_def plain_callbacks_def same_stamps_def)
  next
    case no_pack: False
    have same: "same_state (header_parsed info) s \<and> ps_calls (header_parsed info) = ps_calls info"
      using header_parsed_sized[of info s] i k(3) full by (simp add: stream_sized_def)
    show ?thesis
    proof (cases "is_pes (got s ! 3)")
      case pes: True
      then have n: "9 \<le> length (got s)" "need s = 9 \<or> need s = 9 + uint (got s ! 8)"
        using k(2) full no_pack by (auto simp: need_ok_def)
      have b: "header_data info ! 6 = got s ! 6" "header_data info ! 8 = got s ! 8"
        "uint16_at (header_data info) 4 = uint16_at (got s) 4" using nth n(1) by (simp_all add: uint16_at_def)
      show ?thesis
      proof (cases "drop_bit 6 (got s ! 6) AND 2 = 0")
        case True
        then show ?thesis using same no_pack pes t b by (simp add: MPEGPS_ParserHeaderEnd_def stream_end_def)
      next
        case ff: False
        let ?hs = "9 + uint (got s ! 8)"
        let ?cl = "6 + uint16_at (got s) 4 - ?hs"
        let ?i = "info\<lparr>header_size := ?hs, content_length := ?cl\<rparr>"
        let ?s = "s\<lparr>need := ?hs, left_over := ?cl\<rparr>"
        have hs: "int (length (got s)) \<le> ?hs" using n full by auto
        have inf: "MPEGPS_ParserHeaderEnd info =
            (if ?cl < 0 then ?i\<lparr>header_size := 0, header_pos := 0, content_length := 0\<rparr>
             else if header_pos info < ?hs then header_parsed ?i else header_parsed (read_stamps ?i))"
          using no_pack pes ff t b by (simp add: MPEGPS_ParserHeaderEnd_def MPEGPS_STARTCODE_LEN_def Let_def)
        have str: "stream_end s = (if ?cl < 0 then stream_reset s
             else if int (length (got s)) < ?hs then stream_sized ?s else stream_stamps ?s)"
          using no_pack pes ff by (simp add: stream_end_def Let_def)
        have facts: "plain_callbacks ?i" "same_stamps ?i ?s" using i by (simp_all add: plain_callbacks_def same_stamps_def)
        have ok: "stream_ok ?s" if "0 \<le> ?cl"
          using that i(2) n hs pes no_pack full k by (auto simp: stream_ok_def need_ok_def)
        show ?thesis
        proof (cases "?cl < 0")
          case True
          then show ?thesis unfolding inf str using i
            by (simp add: same_state_def stream_reset_def plain_callbacks_def same_stamps_def stream_ok_def)
        next
          case False
          note ok = ok[OF this[unfolded not_less]]
          show ?thesis
          proof (cases "int (length (got s)) < ?hs")
            case True
            then show ?thesis unfolding inf str using False i facts ok header_parsed_sized[of ?i ?s] by simp
          next
            case whole: False
            then have "stream_sized (stream_stamps ?s) = stream_stamps ?s" using hs k(3) by (simp add: stream_sized_def)
            moreover have "same_stamps (read_stamps ?i) (stream_stamps ?s)" using stamps_same[of ?i ?s] i facts n by simp
            ultimately show ?thesis unfolding inf str
              using False whole i facts ok header_parsed_sized[of "read_stamps ?i" "stream_stamps ?s"] by simp
          qed
        qed
      qed
    next
      case False
      then show ?thesis using same no_pack t by (simp add: MPEGPS_ParserHeaderEnd_def stream_end_def)
    qed
  qed
  then show "same_state (MPEGPS_ParserHeaderEnd info) (stream_end s)"
    "ps_calls (MPEGPS_ParserHeaderEnd info) = ps_calls info" by blast+
qed

section \<open>Every call of the parser is steps of the machine\<close>

lemma FillData_same:
  assumes st: "take (length (got s)) (header_data info) = got s" "header_pos info = int (length (got s))"
    and len: "length (header_data info) = HEADER_DATA" and room: "header_pos info \<le> n"
  shows "FillData n buf info =
    (let used = min (n - header_pos info) (int (length buf)); xs = take (nat used) buf in
     if length (got s) + length xs > HEADER_DATA then None
     else Some (used, info\<lparr>header_data := got s @ xs @ drop (length (got s) + length xs) (header_data info),
       header_pos := int (length (got s @ xs))\<rparr>))"
proof -
  let ?used = "min (n - header_pos info) (int (length buf))"
  have u: "length (take (nat ?used) buf) = nat ?used" "\<not> ?used < 0" using room by auto
  show ?thesis
    unfolding FillData_def Let_def u(1) length_append using st len u(2) by simp
qed

lemma taken_part:
  assumes "0 < k" and "buf \<noteq> []"
  shows "take (nat (min k (int (length buf)))) buf \<noteq> []"
    and "int (length (take (nat (min k (int (length buf)))) buf)) = min k (int (length buf))"
    and "0 < min k (int (length buf))"
proof -
  let ?m = "min k (int (length buf))"
  have "0 < int (length buf)" using assms(2) by simp
  then show pos: "0 < ?m" using assms(1) by (simp only: min_less_iff_conj)
  have "?m \<le> int (length buf)" by (rule min.cobounded2)
  then show len: "int (length (take (nat ?m) buf)) = ?m" using pos by (simp only: length_take)
  show "take (nat ?m) buf \<noteq> []"
  proof
    assume "take (nat ?m) buf = []"
    then show False using pos len by (simp only: list.size of_nat_0 less_irrefl)
  qed
qed

text \<open>The states between calls, and a measure for the calls that take nothing.\<close>

definition related :: "ps_info \<Rightarrow> stream \<Rightarrow> u8 list \<Rightarrow> bool" where
  "related info s buf = (same_state info s \<or> found_state info s buf)"

definition rank :: "ps_info \<Rightarrow> nat" where
  "rank info = (if header_size info = 0 then nat (header_pos info) + 1 else if header_pos info = 0 then 0 else 7)"

text \<open>What a call does: some of the bytes are taken, and the machine makes the same steps on them.\<close>

definition call_ok :: "ps_info \<Rightarrow> stream \<Rightarrow> u8 list \<Rightarrow> bool" where
  "call_ok info s buf =
     (case MPEGPS_ParserInput buf info of
        None \<Rightarrow> stream_bytes buf s = None
      | Some (used, info') \<Rightarrow> 0 \<le> used \<and> used \<le> int (length buf) \<and> (used = 0 \<longrightarrow> rank info' < rank info) \<and>
          has_content_callback info' \<and>
          (\<exists>s' cs es. related info' s' (drop (nat used) buf) \<and> ps_calls info' = ps_calls info @ cs \<and>
             list_all2 item_ok (call_items cs) es \<and>
             stream_bytes buf s = map_option (\<lambda>(t, fs). (t, es @ fs)) (stream_bytes (drop (nat used) buf) s')))"

lemma bytes_step:
  assumes "stream_bytes (take n buf) s = Some (s', es)"
  shows "stream_bytes buf s = map_option (\<lambda>(t, fs). (t, es @ fs)) (stream_bytes (drop n buf) s')"
proof -
  have "stream_bytes buf s = stream_bytes (take n buf @ drop n buf) s" by simp
  then show ?thesis using assms unfolding stream_bytes_append by (auto split: bind_splits option.splits simp: bind_eq_Some_conv map_option_case)
qed

lemma bytes_stuck: "stream_bytes (take n buf) s = None \<Longrightarrow> stream_bytes buf s = None"
  by (subst append_take_drop_id[of n buf, symmetric]) (simp only: stream_bytes_append bind.bind_lzero)

lemma need_ok_append: "need_ok h n \<Longrightarrow> 6 \<le> length h \<Longrightarrow> need_ok (h @ xs) n"
  by (auto simp: need_ok_def nth_append)

lemma same_state_content: "same_state info s \<Longrightarrow> has_content_callback info"
  by (simp add: same_state_def plain_callbacks_def)

lemma relatedI: "same_state info s \<Longrightarrow> related info s buf"
  by (simp add: related_def)

lemma call_okI:
  assumes "MPEGPS_ParserInput buf info = Some (used, info')" and "0 \<le> used" and "used \<le> int (length buf)"
    and "used = 0 \<Longrightarrow> rank info' < rank info" and "related info' s' (drop (nat used) buf)"
    and "has_content_callback info'" and "ps_calls info' = ps_calls info @ cs"
    and "list_all2 item_ok (call_items cs) es"
    and "stream_bytes buf s = map_option (\<lambda>(t, fs). (t, es @ fs)) (stream_bytes (drop (nat used) buf) s')"
  shows "call_ok info s buf"
  unfolding call_ok_def assms(1) option.case prod.case using assms(2-) by blast

lemma call_items_Nil: "call_items [] = []"
  by (simp add: call_items_def)

lemma map_option_pair_id: "map_option (\<lambda>(t, fs). (t, fs)) r = r"
  by (cases r) auto

lemma call_fill:
  assumes st: "same_state info s" and "header_pos info < header_size info" and ne: "buf \<noteq> []"
  shows "call_ok info s buf"
proof -
  have i: "plain_callbacks info" "stream_ok s" "same_stamps info s" "length (header_data info) = HEADER_DATA"
    "take (length (got s)) (header_data info) = got s" "header_pos info = int (length (got s))"
    "header_size info = need s" "content_length info = left_over s" using st by (simp_all add: same_state_def)
  have less: "int (length (got s)) < need s" using assms(2) i by simp
  have "0 < need s - int (length (got s))" using less by simp
  note tk = taken_part[OF this ne]
  obtain used xs where u: "used = min (need s - int (length (got s))) (int (length buf))" "xs = take (nat used) buf"
    by blast
  have used: "0 < used" "used \<le> int (length buf)" "used \<le> need s - int (length (got s))" using tk(3) unfolding u(1) by simp_all
  have xs: "xs \<noteq> []" "int (length xs) = used" using tk(1,2) unfolding u by simp_all
  then have fits: "int (length (got s)) + int (length xs) \<le> need s" using used(3) by linarith
  have gl: "length (got s) \<le> HEADER_DATA" using i(2) by (simp add: stream_ok_def)
  note fill = stream_fill[OF less fits xs(1) gl]
  have F: "FillData (header_size info) buf info =
      (if length (got s) + length xs > HEADER_DATA then None
       else Some (used, info\<lparr>header_data := got s @ xs @ drop (length (got s) + length xs) (header_data info),
         header_pos := int (length (got s @ xs))\<rparr>))"
    using FillData_same[OF i(5,6,4), of "header_size info" buf] assms(2) i(6,7) u by (simp only: Let_def less_imp_le)
  show ?thesis
  proof (cases "length (got s) + length xs > HEADER_DATA")
    case True
    then have "stream_bytes xs s = None" using fill by simp
    then have "stream_bytes buf s = None" using bytes_stuck u(2) by metis
    moreover have "MPEGPS_ParserInput buf info = None"
      unfolding MPEGPS_ParserInput_def if_P[OF assms(2)] F using True by simp
    ultimately show ?thesis by (simp add: call_ok_def)
  next
    case False
    let ?info = "info\<lparr>header_data := got s @ xs @ drop (length (got s) + length xs) (header_data info),
         header_pos := int (length (got s @ xs))\<rparr>"
    let ?s = "s\<lparr>got := got s @ xs\<rparr>"
    have "6 \<le> length (got s)" "need_ok (got s) (need s)" "need s \<noteq> 0" using i(2) less by (auto simp: stream_ok_def split: if_splits)
    then have "stream_ok ?s" using i(2) False fits need_ok_append by (simp add: stream_ok_def)
    then have same: "same_state ?info ?s" using i False by (simp add: same_state_def plain_callbacks_def same_stamps_def)
    let ?info' = "if header_pos ?info = header_size ?info then MPEGPS_ParserHeaderEnd ?info else ?info"
    let ?s' = "if int (length (got ?s)) = need ?s then stream_end ?s else ?s"
    have same': "same_state ?info' ?s'" "ps_calls ?info' = ps_calls info"
      using same end_same[OF same] i(7) \<open>need s \<noteq> 0\<close> by simp_all
    have input: "MPEGPS_ParserInput buf info = Some (used, ?info')"
      unfolding MPEGPS_ParserInput_def if_P[OF assms(2)] F using False by simp
    have "stream_bytes buf s = map_option (\<lambda>(t, fs). (t, [] @ fs)) (stream_bytes (drop (nat used) buf) ?s')"
      by (rule bytes_step) (use fill False u(2) in \<open>simp add: Let_def\<close>)
    moreover have "related ?info' ?s' (drop (nat used) buf)" using same'(1) by (simp add: related_def)
    ultimately show ?thesis
      unfolding call_ok_def input using used same' same_state_content
      by (auto simp: call_items_def intro!: exI[of _ ?s'] exI[of _ "[]"])
  qed
qed

lemma need_ok_kind: "header_kind h = Some (n, c) \<Longrightarrow> need_ok h n"
  by (auto simp: need_ok_def header_kind_def Let_def MPEGPS_PACK_START_CODE_def is_pes_def
    MPEGPS_SYSTEM_HEADER_START_CODE_def MPEGPS_PROGRAM_STREAM_MAP_def MPEGPS_PRIVATE_STREAM_1_def
    MPEGPS_PADDING_STREAM_def MPEGPS_PRIVATE_STREAM_2_def split: if_splits)

lemma got_last: "s\<lparr>need := n, left_over := c, got := g\<rparr> = s\<lparr>got := g, need := n, left_over := c\<rparr>"
  by (cases s) simp

lemma call_found:
  assumes st: "found_state info s buf"
  shows "call_ok info s buf"
proof -
  have i: "plain_callbacks info" "same_stamps info s" "length (header_data info) = HEADER_DATA"
    "header_pos info = 0" "got s = []" "need s = 0" "left_over s = 0" "6 \<le> length buf"
    "header_kind (take 6 buf) = Some (header_size info, content_length info)"
    using st by (simp_all add: found_state_def)
  let ?n = "header_size info"
  have n: "6 \<le> ?n" "0 \<le> content_length info" using header_kind_sizes[OF i(9)] by simp_all
  have less: "header_pos info < ?n" using n i(4) by simp
  obtain used xs where u: "used = min ?n (int (length buf))" "xs = take (nat used) buf" by blast
  have used: "6 \<le> used" "used \<le> int (length buf)" "used \<le> ?n" using n(1) i(8) unfolding u(1) by simp_all
  have len: "int (length xs) = used" using used unfolding u(2) by simp
  have "6 \<le> nat used" using used(1) by simp
  then have xs6: "take 6 xs = take 6 buf" unfolding u(2) take_take by (simp add: min_absorb1)
  have F: "FillData ?n buf info = (if length xs > HEADER_DATA then None
       else Some (used, info\<lparr>header_data := xs @ drop (length xs) (header_data info), header_pos := int (length xs)\<rparr>))"
    using FillData_same[of s info ?n buf] i(3,4,5) n(1) u by (simp only: Let_def list.size append.simps add_0 of_nat_0 diff_0_right take_0 refl)
  let ?s1 = "s\<lparr>got := take 6 buf, need := ?n, left_over := content_length info\<rparr>"
  have six: "stream_bytes (take 6 buf) s = Some (?s1, [])"
    using stream_probe_six[of s "take 6 buf"] i by (cases buf) auto
  have need6: "need_ok (take 6 buf) ?n" by (rule need_ok_kind[OF i(9)])
  let ?s2 = "s\<lparr>got := xs, need := ?n, left_over := content_length info\<rparr>"
  let ?s' = "if int (length xs) = ?n then stream_end ?s2 else ?s2"
  have steps: "stream_bytes xs s = (if length xs > HEADER_DATA then None else Some (?s', []))"
  proof -
    have split: "xs = take 6 buf @ drop 6 xs" unfolding xs6[symmetric] by simp
    have "stream_bytes xs s = map_option (\<lambda>(t, fs). (t, [] @ fs)) (stream_bytes (drop 6 xs) ?s1)"
      by (rule bytes_step) (use six xs6 in simp)
    then have rest: "stream_bytes xs s = stream_bytes (drop 6 xs) ?s1" by (simp add: option.map_id)
    show ?thesis
    proof (cases "drop 6 xs = []")
      case True
      then have x: "xs = take 6 buf" using split by simp
      have "?s' = ?s2"
      proof (cases "?n = 6")
        case True
        then have "xs ! 3 \<noteq> MPEGPS_PACK_START_CODE \<and> \<not> is_pes (xs ! 3)" using i(9) unfolding x
          by (auto simp: header_kind_def Let_def is_pes_def MPEGPS_PACK_START_CODE_def MPEGPS_SYSTEM_HEADER_START_CODE_def
            MPEGPS_PROGRAM_STREAM_MAP_def MPEGPS_PRIVATE_STREAM_1_def MPEGPS_PADDING_STREAM_def
            MPEGPS_PRIVATE_STREAM_2_def split: if_splits)
        then show ?thesis by (simp add: stream_end_def)
      next
        case False
        then show ?thesis using i(8) unfolding x by simp
      qed
      then show ?thesis unfolding rest True using i(8) x by (simp add: HEADER_DATA_def)
    next
      case False
      then have l: "6 + int (length (drop 6 xs)) = int (length xs)" by simp
      then have "6 < ?n" using False len used(3) by (cases "drop 6 xs") auto
      then show ?thesis
        unfolding rest using stream_fill[of ?s1 "drop 6 xs"] False l len used(3) i(8) split
        by (simp add: HEADER_DATA_def Let_def got_last)
    qed
  qed
  have F': "MPEGPS_ParserInput buf info = map_option (\<lambda>(used, info).
      (used, if header_pos info = header_size info then MPEGPS_ParserHeaderEnd info else info)) (FillData ?n buf info)"
    unfolding MPEGPS_ParserInput_def if_P[OF less] by (cases "FillData ?n buf info") auto
  show ?thesis
  proof (cases "length xs > HEADER_DATA")
    case True
    then have "stream_bytes buf s = None" using steps bytes_stuck u(2) by metis
    then show ?thesis using True F F' by (simp add: call_ok_def)
  next
    case False
    let ?info = "info\<lparr>header_data := xs @ drop (length xs) (header_data info), header_pos := int (length xs)\<rparr>"
    have "need_ok xs ?n" using need_ok_append[OF need6, of "drop 6 xs"] i(8) xs6 by (metis append_take_drop_id length_take min_absorb2 order_refl)
    then have "stream_ok ?s2" using False len used n by (simp add: stream_ok_def)
    then have same: "same_state ?info ?s2" using i False by (simp add: same_state_def plain_callbacks_def same_stamps_def)
    let ?info' = "if header_pos ?info = header_size ?info then MPEGPS_ParserHeaderEnd ?info else ?info"
    have same': "same_state ?info' ?s'" "ps_calls ?info' = ps_calls info"
      using same end_same[OF same] n by simp_all
    have input: "MPEGPS_ParserInput buf info = Some (used, ?info')" using F F' False by simp
    have "stream_bytes buf s = map_option (\<lambda>(t, fs). (t, [] @ fs)) (stream_bytes (drop (nat used) buf) ?s')"
      by (rule bytes_step) (use steps False u(2) in simp)
    moreover have "related ?info' ?s' (drop (nat used) buf)" using same'(1) by (simp add: related_def)
    ultimately show ?thesis
      unfolding call_ok_def input using used same' same_state_content
      by (auto simp: call_items_def intro!: exI[of _ ?s'] exI[of _ "[]"])
  qed
qed

lemma call_content:
  assumes st: "same_state info s" and full: "\<not> header_pos info < header_size info" and left: "content_length info \<noteq> 0"
    and ne: "buf \<noteq> []"
  shows "call_ok info s buf"
proof -
  have i: "plain_callbacks info" "stream_ok s" "same_stamps info s" "length (header_data info) = HEADER_DATA"
    "take (length (got s)) (header_data info) = got s" "header_pos info = int (length (got s))"
    "header_size info = need s" "content_length info = left_over s" using st by (simp_all add: same_state_def)
  have pos: "0 < left_over s" using i left by (simp add: stream_ok_def)
  note tk = taken_part[OF pos ne]
  obtain used xs where u: "used = min (left_over s) (int (length buf))" "xs = take (nat used) buf" by blast
  have used: "0 < used" "used \<le> int (length buf)" "used \<le> left_over s" using tk(3) unfolding u(1) by simp_all
  have xs: "xs \<noteq> []" "int (length xs) = used" using tk(1,2) unfolding u by simp_all
  let ?s' = "if int (length xs) = left_over s then stream_reset s else s\<lparr>left_over := left_over s - int (length xs)\<rparr>"
  let ?es = "map (Byte (stamp s) (decode_stamp s)) xs"
  have "stream_bytes xs s = Some (?s', ?es)"
    by (rule stream_content) (use full i xs used(3) in simp_all)
  then have steps: "stream_bytes buf s = map_option (\<lambda>(t, fs). (t, ?es @ fs)) (stream_bytes (drop (nat used) buf) ?s')"
    unfolding u(2) by (rule bytes_step)
  let ?i1 = "info\<lparr>content_length := left_over s - used,
    ps_calls := ps_calls info @ [Content_Callback (pts info) (dts info) xs]\<rparr>"
  let ?info' = "if left_over s - used = 0 then ?i1\<lparr>header_size := 0, header_pos := 0\<rparr> else ?i1"
  have input: "MPEGPS_ParserInput buf info = Some (used, ?info')"
    unfolding MPEGPS_ParserInput_def if_not_P[OF full] if_P[OF left] Let_def u(2)
    using i(1,8) u(1) by (simp add: plain_callbacks_def)
  have "stream_ok (stream_reset s)" by (simp add: stream_ok_def stream_reset_def)
  moreover have "stream_ok (s\<lparr>left_over := left_over s - used\<rparr>)" using i(2) used(3) pos
    by (auto simp: stream_ok_def)
  ultimately have "same_state ?info' ?s'" using i xs(2)
    by (auto simp: same_state_def plain_callbacks_def same_stamps_def stream_reset_def)
  moreover have "list_all2 item_ok (map (Byte (Some (pts info)) (Some (dts info))) xs) ?es"
    using i(3) by (simp add: list_all2_conv_all_nth same_stamps_def)
  ultimately show ?thesis
    unfolding call_ok_def input using used steps same_state_content[of ?info' ?s']
    by (auto simp: call_items_def related_def intro!: exI[of _ ?s'] exI[of _ "[Content_Callback (pts info) (dts info) xs]"]
      exI[of _ ?es])
qed

lemma stream_bytes_whole:
  assumes "buf \<noteq> []" and "int (length (got s)) = need s" and "left_over s = 0" and "need s \<noteq> 0"
  shows "stream_bytes buf s = map_option (\<lambda>(t, fs). (t, [Header (got s)] @ fs)) (stream_bytes buf (stream_reset s))"
  using assms by (cases buf) (auto simp: stream_byte_def stream_reset_def split: bind_splits)

lemma call_whole:
  assumes st: "same_state info s" and full: "\<not> header_pos info < header_size info" and none: "\<not> content_length info \<noteq> 0"
    and size: "header_size info \<noteq> 0" and ne: "buf \<noteq> []"
  shows "call_ok info s buf"
proof -
  have i: "plain_callbacks info" "stream_ok s" "same_stamps info s" "length (header_data info) = HEADER_DATA"
    "take (length (got s)) (header_data info) = got s" "header_pos info = int (length (got s))"
    "header_size info = need s" "content_length info = left_over s" using st by (simp_all add: same_state_def)
  have whole: "int (length (got s)) = need s" using i(2) full size i(6,7) by (simp add: stream_ok_def)
  let ?info' = "info\<lparr>ps_calls := ps_calls info @ [Header_Callback (got s)], header_pos := 0, header_size := 0\<rparr>"
  have input: "MPEGPS_ParserInput buf info = Some (0, ?info')"
    unfolding MPEGPS_ParserInput_def if_not_P[OF full] if_not_P[OF none] if_P[OF size] Let_def
    using i(1,5,6) by (simp add: plain_callbacks_def)
  have "same_state ?info' (stream_reset s)" using i none
    by (simp add: same_state_def plain_callbacks_def same_stamps_def stream_reset_def stream_ok_def)
  moreover have "rank ?info' < rank info" using i size whole by (simp add: rank_def)
  ultimately show ?thesis
    unfolding call_ok_def input using stream_bytes_whole[OF ne whole] i none size same_state_content[of ?info' "stream_reset s"]
    by (auto simp: call_items_def related_def intro!: exI[of _ "stream_reset s"] exI[of _ "[Header_Callback (got s)]"]
      exI[of _ "[Header (got s)]"])
qed

lemma call_cached:
  assumes st: "same_state info s" and size: "header_size info = 0" and pos: "header_pos info \<noteq> 0" and ne: "buf \<noteq> []"
  shows "call_ok info s buf"
proof -
  have i: "plain_callbacks info" "stream_ok s" "same_stamps info s" "length (header_data info) = HEADER_DATA"
    "take (length (got s)) (header_data info) = got s" "header_pos info = int (length (got s))"
    "need s = 0" "content_length info = left_over s" using st size by (simp_all add: same_state_def)
  then have few: "length (got s) < 6" "left_over s = 0" "got s \<noteq> []" "content_length info = 0"
    using pos by (auto simp: stream_ok_def)
  have cond: "\<not> header_pos info < header_size info" "\<not> content_length info \<noteq> 0" "\<not> header_size info \<noteq> 0"
    "header_pos info < MPEGPS_STARTCODE_LEN"
    using size i few by (simp_all add: MPEGPS_STARTCODE_LEN_def)
  have "0 < 6 - int (length (got s))" using few(1) by simp
  note tk = taken_part[OF this ne]
  obtain used xs where u: "used = min (6 - int (length (got s))) (int (length buf))" "xs = take (nat used) buf" by blast
  have used: "0 < used" "used \<le> int (length buf)" "used \<le> 6 - int (length (got s))" using tk(3) unfolding u(1) by simp_all
  have xs: "xs \<noteq> []" "int (length xs) = used" using tk(1,2) unfolding u by simp_all
  let ?info = "info\<lparr>header_data := got s @ xs @ drop (length (got s) + length xs) (header_data info),
         header_pos := int (length (got s @ xs))\<rparr>"
  have F: "FillData MPEGPS_STARTCODE_LEN buf info = Some (used, ?info)"
    using FillData_same[OF i(5,6,4), of 6 buf] few(1) u i(6) xs(2) used(3)
    by (simp add: Let_def MPEGPS_STARTCODE_LEN_def HEADER_DATA_def)
  show ?thesis
  proof (cases "int (length (got s @ xs)) < 6")
    case True
    have input: "MPEGPS_ParserInput buf info = Some (used, ?info)"
      unfolding MPEGPS_ParserInput_def if_not_P[OF cond(1)] if_not_P[OF cond(2)] if_not_P[OF cond(3)] if_P[OF pos]
        if_P[OF cond(4)] F using True by (simp add: MPEGPS_STARTCODE_LEN_def)
    let ?s' = "s\<lparr>got := got s @ xs\<rparr>"
    have "stream_bytes xs s = Some (?s', [])" using stream_probe_few[of s xs] i(7) few True by simp
    then have steps: "stream_bytes buf s = map_option (\<lambda>(t, fs). (t, [] @ fs)) (stream_bytes (drop (nat used) buf) ?s')"
      unfolding u(2) by (rule bytes_step)
    have "same_state ?info ?s'" using i True few size
      by (simp add: same_state_def plain_callbacks_def same_stamps_def stream_ok_def HEADER_DATA_def)
    then show ?thesis unfolding call_ok_def input using used steps same_state_content[of ?info ?s']
      by (auto simp: call_items_def related_def intro!: exI[of _ ?s'] exI[of _ "[]"])
  next
    case False
    then have six: "length (got s @ xs) = 6" using used(3) xs(2) by simp
    have taken: "take (nat (header_pos ?info)) (header_data ?info) = got s @ xs" by simp
    have beginning: "MPEGPS_ParserHeaderBegin (got s @ xs) ?info =
        Some (case header_kind (got s @ xs) of None \<Rightarrow> (False, ?info)
          | Some (n, c) \<Rightarrow> (True, ?info\<lparr>header_size := n, content_length := c\<rparr>))"
      by (rule header_begin_kind) (use i(1) six few(4) in \<open>simp_all add: plain_callbacks_def\<close>)
    show ?thesis
    proof (cases "header_kind (got s @ xs)")
      case None
      let ?n = "nat (6 - (used + 1))"
      let ?info' = "?info\<lparr>header_pos := 6 - (used + 1),
        header_data := take ?n (drop 1 (header_data ?info)) @ drop ?n (header_data ?info)\<rparr>"
      let ?s' = "s\<lparr>got := tl (got s)\<rparr>"
      have n: "?n = length (tl (got s))" "6 - (used + 1) = int (length (tl (got s)))" using six xs(2) few(3) by (cases "got s"; simp)+
      have input: "MPEGPS_ParserInput buf info = Some (0, ?info')"
        unfolding MPEGPS_ParserInput_def if_not_P[OF cond(1)] if_not_P[OF cond(2)] if_not_P[OF cond(3)] if_P[OF pos]
          if_P[OF cond(4)] F using six taken beginning None by (simp add: MPEGPS_STARTCODE_LEN_def Let_def)
      have "take ?n (drop 1 (header_data ?info)) = tl (got s)" unfolding n(1) using few(3) by (cases "got s") auto
      have "length (got s) - Suc 0 \<le> 256" "length (got s) - Suc 0 < 6" using few(1) by simp_all
      then have "stream_ok ?s'" using i(7) few(2) by (simp add: stream_ok_def HEADER_DATA_def)
      have "length (header_data ?info) = HEADER_DATA" using i(4) six by (simp add: HEADER_DATA_def)
      then have "length (header_data ?info') = HEADER_DATA" using n(1) few(1) by (simp add: HEADER_DATA_def)
      moreover have "take (length (tl (got s))) (header_data ?info') = tl (got s)"
        using \<open>take ?n (drop 1 (header_data ?info)) = tl (got s)\<close> by simp
      ultimately have same: "same_state ?info' ?s'"
        unfolding same_state_def using i(1,3,7) few(2,4) size n(2) \<open>stream_ok ?s'\<close>
        by (simp only: plain_callbacks_def same_stamps_def) simp
      have rank: "rank ?info' < rank info" using size i(6) few(3) n by (cases "got s") (simp_all add: rank_def)
      have taken6: "got s @ xs = take 6 (got s @ buf)"
      proof -
        have "nat used = 6 - length (got s)" using six xs(2) by simp
        moreover have "take 6 (got s @ buf) = got s @ take (6 - length (got s)) buf" using few(1) by simp
        ultimately show ?thesis unfolding u(2) by simp
      qed
      have "6 \<le> length (got s @ buf)" using six used(2) xs(2) by simp
      then have "stream_bytes buf s = stream_bytes buf ?s'"
        by (rule stream_probe_skip[OF i(7) few(2,1,3)]) (simp only: taken6[symmetric] None)
      then have steps: "stream_bytes buf s = map_option (\<lambda>(t, fs). (t, [] @ fs)) (stream_bytes (drop (nat 0) buf) ?s')"
        by (simp only: nat_zero_as_int[symmetric] drop_0 nat_0 append_Nil map_option_pair_id)
      have no_calls: "ps_calls ?info' = ps_calls info @ []" "list_all2 item_ok (call_items []) []"
        by (simp_all add: call_items_Nil)
      show ?thesis
        by (rule call_okI[OF input order_refl of_nat_0_le_iff rank relatedI[OF same] same_state_content[OF same] no_calls steps])
    next
      case (Some k)
      obtain n c where k: "k = (n, c)" by fastforce
      let ?info' = "?info\<lparr>header_size := n, content_length := c\<rparr>"
      let ?s' = "s\<lparr>got := got s @ xs, need := n, left_over := c\<rparr>"
      have input: "MPEGPS_ParserInput buf info = Some (used, ?info')"
        unfolding MPEGPS_ParserInput_def if_not_P[OF cond(1)] if_not_P[OF cond(2)] if_not_P[OF cond(3)] if_P[OF pos]
          if_P[OF cond(4)] F using six taken beginning Some k by (simp add: MPEGPS_STARTCODE_LEN_def)
      have "stream_bytes xs s = Some (?s', [])" using stream_probe_six[of s xs] i(7) few six xs(1) Some k by simp
      then have steps: "stream_bytes buf s = map_option (\<lambda>(t, fs). (t, [] @ fs)) (stream_bytes (drop (nat used) buf) ?s')"
        unfolding u(2) by (rule bytes_step)
      have "6 \<le> n" "0 \<le> c" using header_kind_sizes Some k by simp_all
      then have "stream_ok ?s'" using six need_ok_kind[OF Some[unfolded k]] by (simp add: stream_ok_def HEADER_DATA_def)
      then have same: "same_state ?info' ?s'" using i six
        by (simp add: same_state_def plain_callbacks_def same_stamps_def HEADER_DATA_def)
      show ?thesis unfolding call_ok_def input using used steps same same_state_content[OF same]
        by (auto simp: call_items_def related_def intro!: exI[of _ ?s'] exI[of _ "[]"])
    qed
  qed
qed

lemma probe_ok:
  assumes "plain_callbacks info" and "same_stamps info s" and "length (header_data info) = HEADER_DATA"
    and "header_pos info = 0" and "header_size info = 0" and "content_length info = 0"
    and "got s = []" and "need s = 0" and "left_over s = 0"
  shows "\<exists>k info' s'. probe pos buf info = Some (pos + int k, info') \<and> k \<le> length buf \<and>
    related info' s' (drop k buf) \<and> stream_bytes buf s = stream_bytes (drop k buf) s' \<and>
    ps_calls info' = ps_calls info \<and> (k = 0 \<longrightarrow> buf = [] \<or> rank info' = 0) \<and> has_content_callback info'"
proof (induction buf arbitrary: pos)
  case Nil
  have "related (info\<lparr>header_pos := 0\<rparr>) s []" using assms
    by (simp add: related_def same_state_def stream_ok_def plain_callbacks_def same_stamps_def)
  then show ?case using assms(1) by (intro exI[of _ 0] exI[of _ "info\<lparr>header_pos := 0\<rparr>"] exI[of _ s]) (simp add: plain_callbacks_def)
next
  case (Cons b buf)
  have s: "s\<lparr>got := []\<rparr> = s" using assms(7) by (cases s) simp
  show ?case
  proof (cases "6 \<le> length (b # buf)")
    case True
    note kind = header_begin_kind[OF assms(1) True assms(6)]
    have take6: "header_kind (take 6 (b # buf)) = header_kind (b # buf)" by (rule header_kind_take[OF True])
    show ?thesis
    proof (cases "header_kind (b # buf)")
      case None
      have "stream_bytes (b # buf) s = stream_bytes buf (s\<lparr>got := [b]\<rparr>)"
        using assms by (simp add: stream_byte_def probe_byte_def)
      also have "\<dots> = stream_bytes buf s"
        using stream_probe_skip[of "s\<lparr>got := [b]\<rparr>" buf] assms True None take6 s by simp
      finally have "stream_bytes (b # buf) s = stream_bytes buf s" .
      moreover have "probe pos (b # buf) info = probe (pos + 1) buf info"
        using True kind None by (simp add: MPEGPS_STARTCODE_LEN_def)
      moreover obtain k info' s' where "probe (pos + 1) buf info = Some (pos + 1 + int k, info')" "k \<le> length buf"
        "related info' s' (drop k buf)" "stream_bytes buf s = stream_bytes (drop k buf) s'"
        "ps_calls info' = ps_calls info" "has_content_callback info'" using Cons.IH[of "pos + 1"] by blast
      ultimately show ?thesis by (intro exI[of _ "Suc k"] exI[of _ info'] exI[of _ s']) simp
    next
      case (Some a)
      obtain n c where a: "a = (n, c)" by fastforce
      let ?info' = "info\<lparr>header_size := n, content_length := c\<rparr>"
      have "probe pos (b # buf) info = Some (pos, ?info')"
        using True kind Some a by (simp add: MPEGPS_STARTCODE_LEN_def)
      moreover have "related ?info' s (b # buf)"
        using assms True Some a take6 by (simp add: related_def found_state_def plain_callbacks_def same_stamps_def)
      moreover have "rank ?info' = 0" "has_content_callback ?info'"
        using assms header_kind_sizes[OF Some[unfolded a]] by (simp_all add: rank_def plain_callbacks_def)
      ultimately show ?thesis by (intro exI[of _ 0] exI[of _ ?info'] exI[of _ s]) simp
    qed
  next
    case False
    let ?xs = "b # buf"
    let ?info' = "info\<lparr>header_data := ?xs @ drop (length ?xs) (header_data info), header_pos := int (length ?xs)\<rparr>"
    let ?s' = "s\<lparr>got := ?xs\<rparr>"
    have "probe pos ?xs info = Some (pos + int (length ?xs), ?info')" using False by (simp add: MPEGPS_STARTCODE_LEN_def)
    moreover have "related ?info' ?s' []"
      using assms False by (simp add: related_def same_state_def stream_ok_def plain_callbacks_def same_stamps_def HEADER_DATA_def)
    moreover have "stream_bytes ?xs s = Some (?s', [])" using stream_probe_few[of s ?xs] assms False by simp
    moreover have "has_content_callback ?info'" using assms(1) by (simp add: plain_callbacks_def)
    ultimately show ?thesis by (intro exI[of _ "length ?xs"] exI[of _ ?info'] exI[of _ ?s']) simp
  qed
qed

lemma call_related:
  assumes rel: "related info s buf" and ne: "buf \<noteq> []"
  shows "call_ok info s buf"
proof (cases "found_state info s buf")
  case True
  then show ?thesis by (rule call_found)
next
  case False
  then have st: "same_state info s" using rel by (simp add: related_def)
  show ?thesis
  proof (cases "header_pos info < header_size info")
    case True
    then show ?thesis by (rule call_fill[OF st _ ne])
  next
    case full: False
    show ?thesis
    proof (cases "content_length info = 0")
      case none: True
      show ?thesis
      proof (cases "header_size info = 0")
        case size: True
        show ?thesis
        proof (cases "header_pos info = 0")
          case True
          then have s: "got s = []" "need s = 0" "left_over s = 0" "plain_callbacks info" "same_stamps info s"
            "length (header_data info) = HEADER_DATA" using st size none by (simp_all add: same_state_def)
          obtain k info' s' where k: "probe 0 buf info = Some (int k, info')" "k \<le> length buf"
            "related info' s' (drop k buf)" "stream_bytes buf s = stream_bytes (drop k buf) s'"
            "ps_calls info' = ps_calls info" "k = 0 \<longrightarrow> buf = [] \<or> rank info' = 0" "has_content_callback info'"
            using probe_ok[OF s(4,5,6) True size none s(1,2,3), of 0 buf] by auto
          moreover have "MPEGPS_ParserInput buf info = probe 0 buf info"
            using full none size True by (simp add: MPEGPS_ParserInput_def)
          ultimately show ?thesis using ne size True
            by (auto simp: call_ok_def call_items_def rank_def option.map_id intro!: exI[of _ s'] exI[of _ "[]"])
        next
          case False
          then show ?thesis by (rule call_cached[OF st size _ ne])
        qed
      next
        case False
        then show ?thesis using call_whole[OF st full _ _ ne] none by simp
      qed
    next
      case False
      then show ?thesis by (rule call_content[OF st full _ ne])
    qed
  qed
qed

section \<open>Runs\<close>

definition run_ok :: "ps_info \<Rightarrow> stream \<Rightarrow> u8 list \<Rightarrow> (int \<times> ps_info) option \<Rightarrow> bool" where
  "run_ok info s buf r =
     (case stream_bytes buf s of
        None \<Rightarrow> r = None
      | Some (s', es) \<Rightarrow> \<exists>info' cs n. r = Some (n, info') \<and> same_state info' s' \<and>
          ps_calls info' = ps_calls info @ cs \<and> list_all2 item_ok (call_items cs) es)"

lemma call_items_append: "call_items (xs @ ys) = call_items xs @ call_items ys"
  by (simp add: call_items_def)

lemma run_from:
  assumes "related info s (drop (nat pos) buf)" and "0 \<le> pos" and "pos \<le> int (length buf)"
  shows "run_ok info s (drop (nat pos) buf) (ParserRun_from pos buf info)"
    and "\<forall>n info'. ParserRun_from pos buf info = Some (n, info') \<longrightarrow> n = int (length buf)"
proof -
  have "run_ok info s (drop (nat pos) buf) (ParserRun_from pos buf info) \<and>
    (\<forall>n info'. ParserRun_from pos buf info = Some (n, info') \<longrightarrow> n = int (length buf))"
    using assms
  proof (induction "(nat (int (length buf) - pos), rank info)" arbitrary: pos info s
      rule: wf_induct_rule[OF wf_lex_prod[OF wf_less_than wf_less_than]])
    case less: 1
    show ?case
    proof (cases "drop (nat pos) buf = []")
      case True
      then have pos: "pos = int (length buf)" using less.prems(2,3) by simp
      then have "same_state info s" using less.prems(1) by (simp add: related_def found_state_def)
      moreover have "ParserRun_from pos buf info = Some (pos, info)" using pos by (subst ParserRun_from.simps) simp
      ultimately show ?thesis using pos by (simp add: run_ok_def call_items_def)
    next
      case False
      then have pos: "pos < int (length buf)" using less.prems(2) by simp
      have ok: "call_ok info s (drop (nat pos) buf)" by (rule call_related[OF less.prems(1) False])
      show ?thesis
      proof (cases "MPEGPS_ParserInput (drop (nat pos) buf) info")
        case None
        then have "ParserRun_from pos buf info = None" using pos by (subst ParserRun_from.simps) simp
        then show ?thesis using ok None by (simp add: call_ok_def run_ok_def)
      next
        case (Some a)
        obtain used info1 where a: "a = (used, info1)" by fastforce
        note c = ok[unfolded call_ok_def Some a option.case prod.case]
        then obtain s1 cs es where c1: "related info1 s1 (drop (nat used) (drop (nat pos) buf))"
          "ps_calls info1 = ps_calls info @ cs" "list_all2 item_ok (call_items cs) es"
          "stream_bytes (drop (nat pos) buf) s =
            map_option (\<lambda>(t, fs). (t, es @ fs)) (stream_bytes (drop (nat used) (drop (nat pos) buf)) s1)" by blast
        have c2: "0 \<le> used" "used \<le> int (length buf) - pos" "used = 0 \<longrightarrow> rank info1 < rank info"
          "has_content_callback info1" using c pos less.prems(2) by auto
        have dd: "drop (nat used) (drop (nat pos) buf) = drop (nat (pos + used)) buf"
          using c2(1) less.prems(2) by (simp add: nat_add_distrib add.commute)
        have step: "ParserRun_from pos buf info = ParserRun_from (pos + used) buf info1"
          using pos Some a c2(4) by (subst ParserRun_from.simps) simp
        have "((nat (int (length buf) - (pos + used)), rank info1), nat (int (length buf) - pos), rank info)
            \<in> less_than <*lex*> less_than" using c2 pos by (cases "used = 0") auto
        note ih = less.hyps[OF this c1(1)[unfolded dd]]
        then have ih: "run_ok info1 s1 (drop (nat (pos + used)) buf) (ParserRun_from (pos + used) buf info1)"
          "\<forall>n info'. ParserRun_from (pos + used) buf info1 = Some (n, info') \<longrightarrow> n = int (length buf)"
          using c2(1,2) less.prems(2) by simp_all
        have "run_ok info s (drop (nat pos) buf) (ParserRun_from pos buf info)"
        proof (cases "stream_bytes (drop (nat (pos + used)) buf) s1")
          case None
          then show ?thesis using ih(1) c1(4) dd step by (simp add: run_ok_def)
        next
          case (Some b)
          obtain t fs where b: "b = (t, fs)" by fastforce
          obtain info' ds n where r: "ParserRun_from (pos + used) buf info1 = Some (n, info')" "same_state info' t"
            "ps_calls info' = ps_calls info1 @ ds" "list_all2 item_ok (call_items ds) fs"
            using ih(1) Some b by (auto simp: run_ok_def)
          have "list_all2 item_ok (call_items (cs @ ds)) (es @ fs)"
            unfolding call_items_append by (rule list_all2_appendI[OF c1(3) r(4)])
          then show ?thesis using r c1 dd step Some b
            by (auto simp: run_ok_def intro!: exI[of _ "cs @ ds"])
        qed
        then show ?thesis using ih(2) step by simp
      qed
    qed
  qed
  then show "run_ok info s (drop (nat pos) buf) (ParserRun_from pos buf info)"
    "\<forall>n info'. ParserRun_from pos buf info = Some (n, info') \<longrightarrow> n = int (length buf)" by blast+
qed

end
