(* ===== verification/Ps_Trip.thy ===== *)
theory Ps_Trip
  imports Ps_Stream
begin

text \<open>
  What the writers and the parser of program streams make of each other: time stamps, packets in pieces of any
  length, and the lengths for which the parser stays inside its array.
\<close>

section \<open>Time stamps\<close>

lemmas word_bits = bit_or_iff bit_and_iff bit_push_bit_iff bit_drop_bit_eq comp_apply bit_unsigned_iff

lemma stamp_bytes:
  fixes t :: "64 word"
  assumes "n < 8"
  shows "bit (push_bit 4 pdf OR ucast (drop_bit 29 t AND 0x0E) OR 1 :: u8) n =
      (n = 0 \<or> (if n < 4 then bit t (29 + n) else bit pdf (n - 4)))"
    and "bit (ucast (drop_bit k t AND 0xFF) :: u8) n = bit t (k + n)"
    and "bit (ucast (drop_bit k t AND 0xFE) OR 1 :: u8) n = (n = 0 \<or> bit t (k + n))"
    and "bit (ucast (push_bit 1 t AND 0xFE) OR 1 :: u8) n = (n = 0 \<or> bit t (n - 1))"
  using assms by (simp_all only: word_bits) (auto simp: less_Suc_eq numeral_eq_Suc)

lemma bit_TWOCC: "n < 16 \<Longrightarrow> bit (MAKETWOCC a b) n = (if n < 8 then bit a n else bit b (n - 8))"
  by (auto simp: MAKETWOCC_def word_bits not_less dest: bit_imp_le_length)

lemma bit_0E: "bit (0x0E :: u8) m = (1 \<le> m \<and> m < 4)"
proof (cases "m < 8")
  case True
  then show ?thesis by (auto simp: less_Suc_eq numeral_eq_Suc)
next
  case False
  then show ?thesis by (auto dest: bit_imp_le_length)
qed

lemma wide: "bit (ucast (w :: u8) :: 64 word) m = bit w m"
  by (auto simp: bit_unsigned_iff dest: bit_imp_le_length)

lemma bit_decode:
  assumes "n < 64" and b: "\<And>k. b k = buf ! (i + k)"
  shows "bit (snd (MPEGPS_PTS_Decode buf i)) n =
    (if n < 7 then bit (b 4) (n + 1)
     else if n < 15 then bit (b 3) (n - 7)
     else if n < 22 then bit (b 2) (n - 14)
     else if n < 30 then bit (b 1) (n - 22)
     else n < 33 \<and> bit (b 0) (n - 29))"
proof -
  have dec: "snd (MPEGPS_PTS_Decode buf i) = push_bit 29 (ucast (b 0 AND 0x0E))
      OR push_bit 15 (drop_bit 1 (ucast (MAKETWOCC (b 2) (b 1)))) OR drop_bit 1 (ucast (MAKETWOCC (b 4) (b 3)))"
    by (simp only: MPEGPS_PTS_Decode_def snd_conv b add_0_right)
  have high: "bit (MAKETWOCC x y) m \<Longrightarrow> m < 16" for x y m using bit_imp_le_length[of "MAKETWOCC x y" m] by simp
  have pos: "possible_bit TYPE(64 word) m = (m < 64)" for m by simp
  have sub: "15 \<le> n \<Longrightarrow> 1 + (n - 15) = n - 14" by simp
  have low: "bit (ucast (b 0 AND 0x0E) :: 64 word) m = (bit (b 0) m \<and> 1 \<le> m \<and> m < 4)" for m
    by (simp only: wide bit_and_iff bit_0E)
  have two: "bit (ucast (MAKETWOCC x y) :: 64 word) m = bit (MAKETWOCC x y) m" for x y m
    by (auto simp: bit_unsigned_iff dest: high)
  have "bit (snd (MPEGPS_PTS_Decode buf i)) n =
      (29 \<le> n \<and> bit (b 0) (n - 29) \<and> 1 \<le> n - 29 \<and> n - 29 < 4 \<or>
       15 \<le> n \<and> bit (MAKETWOCC (b 2) (b 1)) (n - 14) \<or> bit (MAKETWOCC (b 4) (b 3)) (1 + n))"
    unfolding dec bit_or_iff bit_push_bit_iff bit_drop_bit_eq comp_apply low two pos disj_assoc
    using assms(1) sub by (cases "15 \<le> n") (simp_all only: simp_thms)
  moreover have "bit (MAKETWOCC (b 2) (b 1)) (n - 14) =
      (n - 14 < 16 \<and> (if n - 14 < 8 then bit (b 2) (n - 14) else bit (b 1) (n - 14 - 8)))"
    "bit (MAKETWOCC (b 4) (b 3)) (1 + n) =
      (1 + n < 16 \<and> (if 1 + n < 8 then bit (b 4) (1 + n) else bit (b 3) (1 + n - 8)))"
    using bit_TWOCC high by blast+
  ultimately have all: "bit (snd (MPEGPS_PTS_Decode buf i)) n =
      (29 \<le> n \<and> bit (b 0) (n - 29) \<and> 1 \<le> n - 29 \<and> n - 29 < 4 \<or>
       15 \<le> n \<and> n - 14 < 16 \<and> (if n - 14 < 8 then bit (b 2) (n - 14) else bit (b 1) (n - 14 - 8)) \<or>
       1 + n < 16 \<and> (if 1 + n < 8 then bit (b 4) (1 + n) else bit (b 3) (1 + n - 8)))" by (simp only:)
  show ?thesis
  proof (cases "n < 15")
    case True
    then show ?thesis unfolding all by simp
  next
    case False
    then obtain m where m: "n = 15 + m" by (metis not_less le_Suc_ex)
    show ?thesis
    proof (cases "m < 15")
      case True
      then show ?thesis unfolding m all[unfolded m] by simp
    next
      case False
      then obtain k where "m = 15 + k" by (metis not_less le_Suc_ex)
      then show ?thesis unfolding m all[unfolded m] by auto
    qed
  qed
qed

text \<open>The bits 21 to 28 are written where the bits 22 to 29 are read.\<close>

definition stored_stamp :: "64 word \<Rightarrow> 64 word" where
  "stored_stamp t = take_bit 22 t OR push_bit 22 (take_bit 8 (drop_bit 21 t)) OR push_bit 30 (take_bit 3 (drop_bit 30 t))"

lemma bit_stored: "n < 64 \<Longrightarrow> bit (stored_stamp t) n = (if 22 \<le> n \<and> n < 30 then bit t (n - 1) else n < 33 \<and> bit t n)"
  by (auto simp: stored_stamp_def word_bits bit_take_bit_iff)

lemma PTS_roundtrip:
  "snd (MPEGPS_PTS_Decode (xs @ MPEGPS_PTS_Encode pdf t @ ys) (length xs)) = stored_stamp t"
proof (rule bit_word_eqI)
  fix n assume n: "n < LENGTH(64)"
  let ?buf = "xs @ MPEGPS_PTS_Encode pdf t @ ys"
  have at: "?buf ! length xs = push_bit 4 pdf OR ucast (drop_bit 29 t AND 0x0E) OR 1"
    "?buf ! (length xs + 1) = ucast (drop_bit 21 t AND 0xFF)"
    "?buf ! (length xs + 2) = ucast (drop_bit 14 t AND 0xFE) OR 1"
    "?buf ! (length xs + 3) = ucast (drop_bit 7 t AND 0xFF)"
    "?buf ! (length xs + 4) = ucast (push_bit 1 t AND 0xFE) OR 1"
    by (simp_all add: nth_append MPEGPS_PTS_Encode_def MARKER_BIT_def)
  obtain b where b: "\<And>k. b k = ?buf ! (length xs + k)" by auto
  have e: "bit (b 0) m = (m = 0 \<or> (if m < 4 then bit t (29 + m) else bit pdf (m - 4)))"
    "bit (b 1) m = bit t (21 + m)" "bit (b 2) m = (m = 0 \<or> bit t (14 + m))" "bit (b 3) m = bit t (7 + m)"
    "bit (b 4) m = (m = 0 \<or> bit t (m - 1))" if "m < 8" for m
    unfolding b add_0_right at using stamp_bytes[OF that] by (simp_all only:)
  have sub: "21 + (n - 22) = n - 1" if "22 \<le> n" using that by simp
  have sub2: "n - 29 < 4 \<and> 29 + (n - 29) = n" if "\<not> n < 30" "n < 33" using that by simp
  have "n < 64" using n by simp
  then show "bit (snd (MPEGPS_PTS_Decode ?buf (length xs))) n = bit (stored_stamp t) n"
    unfolding bit_decode[OF \<open>n < 64\<close> b] bit_stored[OF \<open>n < 64\<close>]
    using e(1)[of "n - 29"] e(2)[of "n - 22"] e(3)[of "n - 14"] e(4)[of "n - 7"] e(5)[of "n + 1"] sub sub2
    by (cases "n < 7"; cases "n < 15"; cases "n < 22"; cases "n < 30"; cases "n < 33"; simp)
qed

lemma decode_at:
  "h = xs @ MPEGPS_PTS_Encode pdf t @ ys \<Longrightarrow> length xs = i \<Longrightarrow> snd (MPEGPS_PTS_Decode h i) = stored_stamp t"
  using PTS_roundtrip by blast

lemma stored_stamp_small: "t < 2 ^ 21 \<Longrightarrow> stored_stamp t = t"
proof -
  assume "t < 2 ^ 21"
  then have "take_bit 21 t = t" by (simp add: take_bit_eq_mod mod_word_less)
  then have small: "bit t n \<Longrightarrow> n < 21" for n by (metis bit_take_bit_iff)
  show "stored_stamp t = t"
  proof (rule bit_word_eqI)
    fix n assume "n < LENGTH(64)"
    then have "n < 64" by simp
    then show "bit (stored_stamp t) n = bit t n"
      unfolding bit_stored[OF \<open>n < 64\<close>] using small[of n] small[of "n - 1"] by (cases "22 \<le> n") auto
  qed
qed

lemma large_stamp_damaged: "snd (MPEGPS_PTS_Decode (MPEGPS_PTS_Encode pdf (2 ^ 22)) 0) \<noteq> 2 ^ 22"
proof -
  have "snd (MPEGPS_PTS_Decode (MPEGPS_PTS_Encode pdf (2 ^ 22)) 0) = stored_stamp (2 ^ 22)"
    using PTS_roundtrip[of "[]" pdf "2 ^ 22" "[]"] by simp
  moreover have "stored_stamp (2 ^ 22) \<noteq> 2 ^ 22" by code_simp
  ultimately show ?thesis by simp
qed

section \<open>Pieces of a stream\<close>

text \<open>The pieces of a stream are given to the parser one after the other.\<close>

fun ps_feed :: "u8 list list \<Rightarrow> ps_info \<Rightarrow> ps_info option" where
  "ps_feed [] info = Some info"
| "ps_feed (c # cs) info = do {
     (used, info) \<leftarrow> MPEGPS_ParserRun c info;
     if used = int (length c) then ps_feed cs info else None
   }"

definition ps_start :: ps_info where
  "ps_start = MPEGPS_ParserInit None False True True"

definition stream_start :: stream where
  "stream_start = \<lparr>got = [], need = 0, left_over = 0, stamp = Some 0, decode_stamp = Some 0\<rparr>"

lemma same_start: "same_state ps_start stream_start"
  by (simp add: same_state_def ps_start_def stream_start_def MPEGPS_ParserInit_def plain_callbacks_def stream_ok_def
    same_stamps_def stamp_ok_def)

lemma run_stream:
  assumes "same_state info s"
  shows "case stream_bytes buf s of
      None \<Rightarrow> MPEGPS_ParserRun buf info = None
    | Some (s', es) \<Rightarrow> \<exists>info' cs. MPEGPS_ParserRun buf info = Some (int (length buf), info') \<and> same_state info' s' \<and>
        ps_calls info' = ps_calls info @ cs \<and> list_all2 item_ok (call_items cs) es"
  using run_from[of info s 0 buf] relatedI[OF assms]
  by (fastforce simp: run_ok_def MPEGPS_ParserRun_def split: option.splits)

lemma feed_stream:
  "same_state info s \<Longrightarrow>
   case stream_bytes (concat bufs) s of
      None \<Rightarrow> ps_feed bufs info = None
    | Some (s', es) \<Rightarrow> \<exists>info' cs. ps_feed bufs info = Some info' \<and> same_state info' s' \<and>
        ps_calls info' = ps_calls info @ cs \<and> list_all2 item_ok (call_items cs) es"
proof (induction bufs arbitrary: info s)
  case Nil
  then show ?case by (simp add: call_items_def)
next
  case (Cons b bufs)
  note r = run_stream[OF Cons.prems, of b]
  show ?case
  proof (cases "stream_bytes b s")
    case None
    then show ?thesis using r by (simp add: stream_bytes_append)
  next
    case (Some a)
    obtain s1 es where a: "a = (s1, es)" by fastforce
    then obtain info1 cs where c: "MPEGPS_ParserRun b info = Some (int (length b), info1)" "same_state info1 s1"
      "ps_calls info1 = ps_calls info @ cs" "list_all2 item_ok (call_items cs) es" using r Some by auto
    note ih = Cons.IH[OF c(2)]
    show ?thesis
    proof (cases "stream_bytes (concat bufs) s1")
      case None
      then show ?thesis using ih c(1) Some a by (simp add: stream_bytes_append)
    next
      case (Some a')
      obtain s2 fs where a': "a' = (s2, fs)" by fastforce
      then obtain info2 ds where d: "ps_feed bufs info1 = Some info2" "same_state info2 s2"
        "ps_calls info2 = ps_calls info1 @ ds" "list_all2 item_ok (call_items ds) fs" using ih Some by auto
      have "list_all2 item_ok (call_items (cs @ ds)) (es @ fs)"
        unfolding call_items_append by (rule list_all2_appendI[OF c(4) d(4)])
      then show ?thesis using c d Some \<open>stream_bytes b s = Some a\<close> a a' by (auto simp: stream_bytes_append)
    qed
  qed
qed

lemma feed_start:
  "case stream_bytes (concat bufs) stream_start of
      None \<Rightarrow> ps_feed bufs ps_start = None
    | Some (s', es) \<Rightarrow> \<exists>info. ps_feed bufs ps_start = Some info \<and> list_all2 item_ok (call_items (ps_calls info)) es"
  using feed_stream[OF same_start, of bufs]
  by (auto simp: ps_start_def MPEGPS_ParserInit_def split: option.splits)

text \<open>The items without their time stamps, which may come from beyond a header that is too short for them.\<close>

fun unstamped :: "item \<Rightarrow> item" where
  "unstamped (Byte p d b) = Byte None None b"
| "unstamped (Header h) = Header h"

lemma unstamped_ok: "list_all2 item_ok xs es \<Longrightarrow> map unstamped xs = map unstamped es"
proof (induction rule: list_all2_induct)
  case (Cons x xs y ys)
  then show ?case by (cases x; cases y) auto
qed simp

text \<open>
  C10: the parser does not depend on how a stream is cut.  Fed with a stream in pieces, each call of \<^verbatim>\<open>MPEGPS_ParserRun\<close>
  ends and takes the whole piece, or writes beyond \<^verbatim>\<open>header_data\<close>; and two ways to cut the same stream, with
  empty pieces and headers that are split anywhere, give the same bytes of content and the same headers in the same
  order, or both write beyond the array.  So content is found after garbage and in headers however they
  arrive.
\<close>

theorem ps_cut_anywhere:
  assumes "concat bufs = concat bufs'"
  shows "rel_option (\<lambda>info info'. map unstamped (call_items (ps_calls info)) = map unstamped (call_items (ps_calls info')))
    (ps_feed bufs ps_start) (ps_feed bufs' ps_start)"
proof (cases "stream_bytes (concat bufs) stream_start")
  case None
  then show ?thesis using feed_start[of bufs] feed_start[of bufs'] assms by simp
next
  case (Some a)
  then obtain s es where "stream_bytes (concat bufs) stream_start = Some (s, es)" by (cases a) auto
  then obtain info info' where "ps_feed bufs ps_start = Some info" "ps_feed bufs' ps_start = Some info'"
    "list_all2 item_ok (call_items (ps_calls info)) es" "list_all2 item_ok (call_items (ps_calls info')) es"
    using feed_start[of bufs] feed_start[of bufs'] assms by auto
  moreover from this have "map unstamped (call_items (ps_calls info)) = map unstamped (call_items (ps_calls info'))"
    by (simp only: unstamped_ok)
  ultimately show ?thesis by (simp only: option.rel_inject(2))
qed

theorem ps_cut_anywhere_witness:
  "rel_option (\<lambda>info info'. map unstamped (call_items (ps_calls info)) = map unstamped (call_items (ps_calls info')))
    (ps_feed [[7, 0, 0], [], [1, 0xBE, 0, 2, 5], [6]] ps_start) (ps_feed [[7, 0, 0, 1, 0xBE], [0, 2, 5, 6]] ps_start)"
  by (rule ps_cut_anywhere) simp

section \<open>Headers that fit\<close>

text \<open>A stream in which every system header and stream map that is declared fits into \<^verbatim>\<open>header_data\<close>.\<close>

definition headers_fit :: "u8 list \<Rightarrow> bool" where
  "headers_fit bs = (\<forall>i. i + 6 \<le> length bs \<longrightarrow>
     (case header_kind (take 6 (drop i bs)) of None \<Rightarrow> True | Some (n, c) \<Rightarrow> n \<le> int HEADER_DATA))"

definition stream_fits :: "stream \<Rightarrow> u8 list \<Rightarrow> bool" where
  "stream_fits s seen = (need s \<le> int HEADER_DATA \<and> (need s = 0 \<longrightarrow> left_over s = 0 \<and> length (got s) < 6 \<and> (\<exists>ys. seen = ys @ got s)))"

lemma fits_reset [simp]: "stream_fits (stream_reset s) seen"
  by (simp add: stream_fits_def stream_reset_def)

lemma fits_need: "need s \<le> int HEADER_DATA \<Longrightarrow> need s \<noteq> 0 \<Longrightarrow> stream_fits s seen"
  by (simp add: stream_fits_def)

lemma fits_end:
  assumes "int (length (got s)) = need s" and "need s \<le> int HEADER_DATA" and "need s \<noteq> 0"
  shows "stream_fits (stream_end s) seen"
proof -
  have "uint (got s ! 13 AND 7) \<le> 7" using word_and_le1[of "got s ! 13" 7] by (simp add: word_le_def)
  moreover have "14 + uint (got s ! 13 AND 7) \<noteq> 0" using uint_ge_0[of "got s ! 13 AND 7"] by linarith
  ultimately have pack: "stream_fits (s\<lparr>need := 14 + uint (got s ! 13 AND 7)\<rparr>) seen" by (simp add: fits_need HEADER_DATA_def)
  have "9 + uint (got s ! 8) \<noteq> 0" using uint_ge_0[of "got s ! 8"] by linarith
  then have sized: "stream_fits (stream_sized (s\<lparr>need := 9 + uint (got s ! 8), left_over := c\<rparr>)) seen"
    "9 + uint (got s ! 8) \<le> int HEADER_DATA \<Longrightarrow> stream_fits (stream_stamps (s\<lparr>need := 9 + uint (got s ! 8), left_over := c\<rparr>)) seen" for c
    by (simp_all add: stream_sized_def fits_need)
  show ?thesis
    unfolding stream_end_def Let_def
    using assms pack sized by (simp add: fits_need)
qed

lemma fits_probe:
  assumes "stream_fits s seen" and "need s = 0" and "headers_fit (seen @ [b])"
  shows "stream_fits (probe_byte b s) (seen @ [b])"
proof -
  obtain ys where ys: "seen = ys @ got s" "length (got s) < 6" "left_over s = 0" using assms(1,2) by (auto simp: stream_fits_def)
  let ?w = "got s @ [b]"
  show ?thesis
  proof (cases "length ?w < 6")
    case True
    then show ?thesis using ys assms(2) by (simp add: probe_byte_def stream_fits_def)
  next
    case False
    then have w: "length ?w = 6" "got s \<noteq> []" using ys(2) by auto
    have at: "take 6 (drop (length ys) (seen @ [b])) = ?w" using w(1) ys(1) by simp
    have "length ys + 6 \<le> length (seen @ [b])" using w(1) ys(1) by simp
    then have size: "case header_kind ?w of None \<Rightarrow> True | Some (n, c) \<Rightarrow> n \<le> int HEADER_DATA"
      using assms(3) at unfolding headers_fit_def by metis
    show ?thesis
    proof (cases "header_kind ?w")
      case None
      have "seen @ [b] = (ys @ [hd (got s)]) @ tl ?w" using ys(1) w(2) by (cases "got s") auto
      moreover have "length (tl ?w) < 6" using w(1) by simp
      ultimately show ?thesis using None w(1) assms(2) ys(3) unfolding probe_byte_def stream_fits_def
        by (simp add: HEADER_DATA_def)
    next
      case (Some a)
      then obtain n c where "header_kind ?w = Some (n, c)" by (cases a) auto
      then show ?thesis using size header_kind_sizes[of ?w n c] w(1) by (simp add: probe_byte_def fits_need)
    qed
  qed
qed

lemma fits_byte:
  assumes "stream_fits s seen" and "headers_fit (seen @ [b])"
  obtains s' es where "stream_byte b s = Some (s', es)" and "stream_fits s' (seen @ [b])"
proof -
  have n: "need s \<le> int HEADER_DATA" using assms(1) by (simp add: stream_fits_def)
  consider (fill) "int (length (got s)) < need s" | (content) "\<not> int (length (got s)) < need s" "left_over s \<noteq> 0"
    | (whole) "\<not> int (length (got s)) < need s" "left_over s = 0" "need s \<noteq> 0"
    | (search) "\<not> int (length (got s)) < need s" "left_over s = 0" "need s = 0" by blast
  then show ?thesis
  proof cases
    case fill
    let ?s = "s\<lparr>got := got s @ [b]\<rparr>"
    have "stream_byte b s = Some (if int (length (got ?s)) = need ?s then stream_end ?s else ?s, [])"
      using fill n by (simp add: stream_byte_def)
    moreover have "stream_fits (if int (length (got ?s)) = need ?s then stream_end ?s else ?s) (seen @ [b])"
      using fits_end[of ?s] fits_need[of ?s] fill n by simp
    ultimately show ?thesis by (rule that)
  next
    case content
    let ?s = "if left_over s = 1 then stream_reset s else s\<lparr>left_over := left_over s - 1\<rparr>"
    have "stream_byte b s = Some (?s, [Byte (stamp s) (decode_stamp s) b])"
      unfolding stream_byte_def if_not_P[OF content(1)] if_P[OF content(2)] by (rule refl)
    moreover have "stream_fits ?s (seen @ [b])"
      using assms(1) content n fits_reset[of s] by (cases "left_over s = 1") (auto simp: stream_fits_def)
    ultimately show ?thesis by (rule that)
  next
    case whole
    have "stream_byte b s = Some (probe_byte b (stream_reset s), [Header (got s)])"
      unfolding stream_byte_def if_not_P[OF whole(1)] using whole by simp
    moreover have "stream_fits (probe_byte b (stream_reset s)) (seen @ [b])"
      by (rule fits_probe[OF fits_reset _ assms(2)]) (simp add: stream_reset_def)
    ultimately show ?thesis by (rule that)
  next
    case search
    have "stream_byte b s = Some (probe_byte b s, [])"
      unfolding stream_byte_def if_not_P[OF search(1)] using search by simp
    moreover have "stream_fits (probe_byte b s) (seen @ [b])" by (rule fits_probe[OF assms(1) search(3) assms(2)])
    ultimately show ?thesis by (rule that)
  qed
qed

lemma headers_fit_prefix: "headers_fit (xs @ ys) \<Longrightarrow> headers_fit xs"
  unfolding headers_fit_def
proof (intro allI impI)
  fix i assume all: "\<forall>i. i + 6 \<le> length (xs @ ys) \<longrightarrow>
      (case header_kind (take 6 (drop i (xs @ ys))) of None \<Rightarrow> True | Some (n, c) \<Rightarrow> n \<le> int HEADER_DATA)"
    and i: "i + 6 \<le> length xs"
  then have "take 6 (drop i (xs @ ys)) = take 6 (drop i xs)" by simp
  moreover have "i + 6 \<le> length (xs @ ys)" using i by simp
  ultimately show "case header_kind (take 6 (drop i xs)) of None \<Rightarrow> True | Some (n, c) \<Rightarrow> n \<le> int HEADER_DATA"
    using all by metis
qed

lemma fits_bytes:
  "stream_fits s seen \<Longrightarrow> headers_fit (seen @ bs) \<Longrightarrow> stream_bytes bs s \<noteq> None"
proof (induction bs arbitrary: s seen)
  case (Cons b bs)
  have h: "headers_fit ((seen @ [b]) @ bs)" using Cons.prems(2) by simp
  obtain s' es where st: "stream_byte b s = Some (s', es)" "stream_fits s' (seen @ [b])"
    using fits_byte[OF Cons.prems(1) headers_fit_prefix[OF h]] .
  then have "stream_bytes bs s' \<noteq> None" using Cons.IH h by blast
  then show ?case using st(1) by (auto)
qed simp

text \<open>
  C29: the parser stays inside \<^verbatim>\<open>header_data\<close>.  When no six bytes of a stream declare a system header or a stream map
  of more than the 256 bytes of the array, the stream is taken whole, however it is cut, and nothing is written
  beyond the array.
\<close>

theorem ps_headers_fit:
  assumes "headers_fit (concat bufs)"
  shows "\<exists>info. ps_feed bufs ps_start = Some info"
proof -
  have "stream_fits stream_start []" by (simp add: stream_fits_def stream_start_def HEADER_DATA_def)
  then have "stream_bytes (concat bufs) stream_start \<noteq> None" using fits_bytes assms by fastforce
  then show ?thesis using feed_start[of bufs] by auto
qed

lemma headers_fit_eval: "headers_fit bs = (\<forall>i\<in>set [0..<length bs - 5].
    (case header_kind (take 6 (drop i bs)) of None \<Rightarrow> True | Some (n, c) \<Rightarrow> n \<le> int HEADER_DATA))"
  by (auto simp: headers_fit_def)

theorem ps_headers_fit_witness:
  "\<exists>info. ps_feed [[0, 0], [1, 0xBB, 0], [3, 1, 2, 3], [9]] ps_start = Some info"
  by (rule ps_headers_fit)
    (simp add: headers_fit_eval upt_rec header_kind_def MPEGPS_IsHeader_def uint16_at_def MAKETWOCC_def HEADER_DATA_def
      MPEGPS_PACK_START_CODE_def MPEGPS_SYSTEM_HEADER_START_CODE_def)

text \<open>
  The condition is needed: a system header that declares more is copied beyond the array, whose size is tested only
  at the end of the header.
\<close>

lemma ps_long_header_overflows:
  assumes "250 < uint16_at [0, 0, 1, t, a, b] 4" and "t = MPEGPS_SYSTEM_HEADER_START_CODE \<or> t = MPEGPS_PROGRAM_STREAM_MAP"
    and "250 < length xs" and "concat bufs = [0, 0, 1, t, a, b] @ xs"
  shows "ps_feed bufs ps_start = None"
proof -
  let ?h = "[0, 0, 1, t, a, b]"
  let ?s = "stream_start\<lparr>got := ?h, need := 6 + uint16_at ?h 4\<rparr>"
  have "header_kind ?h = Some (6 + uint16_at ?h 4, 0)" using assms(2)
    by (auto simp: header_kind_def MPEGPS_IsHeader_def MPEGPS_PACK_START_CODE_def
      MPEGPS_SYSTEM_HEADER_START_CODE_def MPEGPS_PROGRAM_STREAM_MAP_def)
  then have six: "stream_bytes ?h stream_start = Some (?s, [])"
    using stream_probe_six[of stream_start ?h] by (simp add: stream_start_def)
  have len: "length (take 251 xs) = 251" using assms(3) by simp
  then have "take 251 xs \<noteq> []" by auto
  then have "stream_bytes (take 251 xs) ?s = None"
    using stream_fill[of ?s "take 251 xs"] assms(1) len by (simp add: HEADER_DATA_def)
  then have "stream_bytes (take 251 xs @ drop 251 xs) ?s = None" unfolding stream_bytes_append by simp
  then have "stream_bytes (concat bufs) stream_start = None"
    using six unfolding assms(4) stream_bytes_append[of ?h] by simp
  then show ?thesis using feed_start[of bufs] by simp
qed

section \<open>Packs and packets\<close>

text \<open>
  A pack header, and a packet of content with both time stamps, whose length is the one that goes into the
  packet: the payload and the 13 bytes of the header behind the length.
\<close>

record ps_pack =
  pack_time :: "64 word"
  stream_id :: u8
  packet_pts :: "64 word"
  packet_dts :: "64 word"
  payload :: "u8 list"

definition packet_ok :: "ps_pack \<Rightarrow> bool" where
  "packet_ok p = (is_pes (stream_id p) \<and> payload p \<noteq> [] \<and> length (payload p) + 13 \<le> MPEGPS_PES_MAX_PPL)"

definition write_packet :: "ps_pack \<Rightarrow> u8 list" where
  "write_packet p = (case snd (MPEGPS_PESHeader_Init (stream_id p) (of_nat (length (payload p) + 13))) of
     None \<Rightarrow> []
   | Some header \<Rightarrow> MPEGPS_PackHeader_Init (pack_time p) @ header @ MPEGPS_PTS_Encode 3 (packet_pts p) @
       MPEGPS_PTS_Encode 1 (packet_dts p) @ payload p)"

text \<open>What the callbacks are to be given: the header, and each byte of the payload with the time stamps of its packet.\<close>

definition packet_items :: "ps_pack \<Rightarrow> item list" where
  "packet_items p = Header (MPEGPS_PackHeader_Init (pack_time p)) #
     map (Byte (Some (packet_pts p)) (Some (packet_dts p))) (payload p)"

fun untimed :: "item \<Rightarrow> item" where
  "untimed (Byte p d b) = Byte None None b"
| "untimed (Header h) = Header h"

text \<open>What they are given: time stamps with the bits that are written to the wrong place.\<close>

definition stored_items :: "ps_pack \<Rightarrow> item list" where
  "stored_items p = Header (MPEGPS_PackHeader_Init (pack_time p)) #
     map (Byte (Some (stored_stamp (packet_pts p))) (Some (stored_stamp (packet_dts p)))) (payload p)"

lemma le16_swap16: "le16 (swap16 w) = [ucast (drop_bit 8 w), ucast w]"
proof -
  have "ucast (swap16 w) = (ucast (drop_bit 8 w) :: u8)" "ucast (drop_bit 8 (swap16 w)) = (ucast w :: u8)"
    by (rule bit_word_eqI; auto simp: swap16_def MAKETWOCC_def word_bits)+
  then show ?thesis by (simp add: le16_def)
qed

lemma MAKETWOCC_split: "MAKETWOCC (ucast w) (ucast (drop_bit 8 w)) = w"
  by (rule bit_word_eqI) (auto simp: MAKETWOCC_def word_bits)

lemma PackHeader_shape:
  obtains x where "length x = 9" and "MPEGPS_PackHeader_Init t = [0, 0, 1, MPEGPS_PACK_START_CODE] @ x @ [0xF8]"
proof
  let ?x = "le16 (swap16 (scr_base1 t)) @ le16 (swap16 (scr_base2 t)) @ le16 (swap16 (scr_ext t)) @ le16 (MAKETWOCC 0x01 0x99) @ [0x9F]"
  show "length ?x = 9" by (simp add: le16_def)
  show "MPEGPS_PackHeader_Init t = [0, 0, 1, MPEGPS_PACK_START_CODE] @ ?x @ [0xF8]"
    by (simp add: MPEGPS_PackHeader_Init_def start_code_def)
qed

lemma got_need: "s\<lparr>need := n, got := g\<rparr> = s\<lparr>got := g, need := n\<rparr>"
  by (cases s) simp

lemma stream_bytes_seq:
  "stream_bytes xs s = Some (s1, e) \<Longrightarrow> stream_bytes ys s1 = Some (s2, es) \<Longrightarrow>
   stream_bytes (xs @ ys) s = Some (s2, e @ es)"
  by (simp add: stream_bytes_append)

lemma stream_pack:
  assumes "got s = []" and "need s = 0" and "left_over s = 0"
  shows "stream_bytes (MPEGPS_PackHeader_Init t) s = Some (s\<lparr>got := MPEGPS_PackHeader_Init t, need := 14\<rparr>, [])"
proof -
  obtain x where x: "length x = 9" and h: "MPEGPS_PackHeader_Init t = [0, 0, 1, MPEGPS_PACK_START_CODE] @ x @ [0xF8]"
    by (rule PackHeader_shape)
  let ?h = "MPEGPS_PackHeader_Init t"
  have kind: "header_kind (take 6 ?h) = Some (14, 0)" using x unfolding h
    by (simp add: header_kind_def MPEGPS_IsHeader_def)
  let ?s1 = "s\<lparr>got := take 6 ?h, need := 14\<rparr>"
  have six: "stream_bytes (take 6 ?h) s = Some (?s1, [])"
    using stream_probe_six[of s "take 6 ?h"] assms kind x unfolding h by simp
  have len: "length ?h = 14" using x by (simp add: h)
  have "stream_bytes (drop 6 ?h) ?s1 = Some (stream_end (s\<lparr>got := ?h, need := 14\<rparr>), [])"
    using stream_fill[of ?s1 "drop 6 ?h"] len by (simp add: HEADER_DATA_def Let_def got_need)
  moreover have "?h ! 3 = MPEGPS_PACK_START_CODE" "?h ! 13 = 0xF8" using x by (simp_all add: h nth_append)
  ultimately have "stream_bytes (drop 6 ?h) ?s1 = Some (s\<lparr>got := ?h, need := 14\<rparr>, [])" by (simp add: stream_end_def)
  then show ?thesis using six stream_bytes_append[of "take 6 ?h" "drop 6 ?h" s] by simp
qed

text \<open>The 19 bytes of a header, in three parts: up to the length, up to the time stamps, and the time stamps.\<close>

lemma stream_pes_header:
  fixes p d :: "64 word"
  assumes s: "got s = []" "need s = 0" "left_over s = 0" and pes: "is_pes typ"
    and n: "w = of_nat (n + 13)" "n + 13 < 2 ^ 16"
  defines "h \<equiv> [0, 0, 1, typ, ucast (drop_bit 8 w), ucast (w :: u16), 0x84, 0xC0, 10] @ MPEGPS_PTS_Encode 3 p @ MPEGPS_PTS_Encode 1 d"
  shows "stream_bytes h s = Some (s\<lparr>got := h, need := 19, left_over := int n, stamp := Some (stored_stamp p),
    decode_stamp := Some (stored_stamp d)\<rparr>, [])"
proof -
  have t: "typ \<noteq> MPEGPS_PACK_START_CODE" "typ \<noteq> MPEGPS_SYSTEM_HEADER_START_CODE" "typ \<noteq> MPEGPS_PROGRAM_STREAM_MAP"
    "typ \<noteq> MPEGPS_PRIVATE_STREAM_1" "typ \<noteq> MPEGPS_PADDING_STREAM" "typ \<noteq> MPEGPS_PRIVATE_STREAM_2" using pes
    by (auto simp: is_pes_def MPEGPS_PACK_START_CODE_def MPEGPS_SYSTEM_HEADER_START_CODE_def
      MPEGPS_PROGRAM_STREAM_MAP_def MPEGPS_PRIVATE_STREAM_1_def MPEGPS_PADDING_STREAM_def MPEGPS_PRIVATE_STREAM_2_def)
  obtain a b where ab: "a = (ucast (drop_bit 8 w) :: u8)" "b = (ucast w :: u8)" by blast
  have len5: "length (MPEGPS_PTS_Encode f x) = 5" for f x by (simp add: MPEGPS_PTS_Encode_def)
  obtain P D where PD: "P = MPEGPS_PTS_Encode 3 p" "D = MPEGPS_PTS_Encode 1 d" "length P = 5" "length D = 5"
    using len5 by blast
  have h: "h = [0, 0, 1, typ, a, b] @ [0x84, 0xC0, 10] @ P @ D" by (simp add: h_def PD ab)
  have "LENGTH(16) = 16" by simp
  then have "uint w = int (n + 13)" unfolding n(1) unsigned_of_nat using take_bit_nat_eq_self[OF n(2)] by (simp only:)
  then have size: "6 + uint16_at ([0, 0, 1, typ, a, b] @ ys) 4 = 19 + int n" for ys
    by (simp add: uint16_at_def ab MAKETWOCC_split)
  let ?h9 = "[0, 0, 1, typ, a, b] @ [0x84, 0xC0, 10]"
  have six: "stream_bytes [0, 0, 1, typ, a, b] s = Some (s\<lparr>got := [0, 0, 1, typ, a, b], need := 9\<rparr>, [])"
    using stream_probe_six[of s "[0, 0, 1, typ, a, b]"] s t pes by (simp add: header_kind_def MPEGPS_IsHeader_def)
  let ?s9 = "s\<lparr>got := ?h9, need := 19, left_over := int n\<rparr>"
  have "stream_end (s\<lparr>got := ?h9, need := 9\<rparr>) = ?s9"
    using t pes size[of "[0x84, 0xC0, 10]"] by (simp add: stream_end_def stream_sized_def HEADER_DATA_def)
  then have nine: "stream_bytes [0x84, 0xC0, 10] (s\<lparr>got := [0, 0, 1, typ, a, b], need := 9\<rparr>) = Some (?s9, [])"
    using stream_fill[of "s\<lparr>got := [0, 0, 1, typ, a, b], need := 9\<rparr>" "[0x84, 0xC0, 10]"]
    by (simp add: HEADER_DATA_def Let_def got_need)
  let ?s19 = "s\<lparr>got := h, need := 19, left_over := int n\<rparr>"
  have len: "length h = 19" by (simp add: h PD(3,4))
  have at: "h ! 3 = typ" "h ! 6 = 0x84" "h ! 7 = 0xC0" "h ! 8 = 10" by (simp_all add: h)
  have stamps: "snd (MPEGPS_PTS_Decode h 9) = stored_stamp p" "snd (MPEGPS_PTS_Decode h 14) = stored_stamp d"
    using decode_at[of h ?h9 3 p D 9] decode_at[of h "?h9 @ P" 1 d "[]" 14] PD(3,4) by (simp_all add: h PD(1,2)[symmetric])
  have "uint16_at h 4 = 13 + int n" using size[of "[0x84, 0xC0, 10] @ P @ D"] unfolding h append_assoc by simp
  then have "stream_end ?s19 = stream_stamps ?s19"
    using t pes len at by (simp add: stream_end_def Let_def)
  moreover have "stream_stamps ?s19 = ?s19\<lparr>stamp := Some (stored_stamp p), decode_stamp := Some (stored_stamp d)\<rparr>"
    using len at stamps by (simp add: stream_stamps_def Let_def)
  moreover have ne: "P \<noteq> []" using PD(3) by auto
  ultimately have "stream_bytes (P @ D) ?s9 = Some (?s19\<lparr>stamp := Some (stored_stamp p), decode_stamp := Some (stored_stamp d)\<rparr>, [])"
    using stream_fill[of ?s9 "P @ D"] PD(3,4) len ne by (simp add: HEADER_DATA_def Let_def got_last h)
  then show ?thesis using stream_bytes_seq[OF six stream_bytes_seq[OF nine]] by (simp add: h)
qed

lemma stream_packet:
  assumes s: "got s = []" "need s = 0" "left_over s = 0" and ok: "packet_ok p"
  shows "stream_bytes (write_packet p) s =
    Some (s\<lparr>stamp := Some (stored_stamp (packet_pts p)), decode_stamp := Some (stored_stamp (packet_dts p))\<rparr>, stored_items p)"
proof -
  let ?n = "length (payload p)"
  let ?w = "of_nat (?n + 13) :: u16"
  let ?head = "MPEGPS_PackHeader_Init (pack_time p)"
  obtain h where h: "h = [0, 0, 1, stream_id p, ucast (drop_bit 8 ?w), ucast ?w, 0x84, 0xC0, 10] @
    MPEGPS_PTS_Encode 3 (packet_pts p) @ MPEGPS_PTS_Encode 1 (packet_dts p)" by blast
  have n: "?n + 13 \<le> MPEGPS_PES_MAX_PPL" "?n + 13 < 2 ^ 16" "is_pes (stream_id p)" "payload p \<noteq> []"
    using ok by (auto simp: packet_ok_def MPEGPS_PES_MAX_PPL_def)
  have "LENGTH(16) = 16" by simp
  then have "unat ?w = ?n + 13" unfolding unsigned_of_nat using take_bit_nat_eq_self[OF n(2)] by (simp only: of_nat_id)
  then have w: "write_packet p = ?head @ h @ payload p"
    using n(1) unfolding write_packet_def h MPEGPS_PESHeader_Init_def le16_swap16 by (simp add: start_code_def)
  let ?s1 = "s\<lparr>got := ?head, need := 14\<rparr>"
  have one: "stream_bytes ?head s = Some (?s1, [])" by (rule stream_pack[OF s])
  have reset: "stream_reset ?s1 = s" using s by (cases s) (simp add: stream_reset_def)
  let ?s2 = "s\<lparr>got := h, need := 19, left_over := int ?n, stamp := Some (stored_stamp (packet_pts p)),
    decode_stamp := Some (stored_stamp (packet_dts p))\<rparr>"
  have two: "stream_bytes h s = Some (?s2, [])" unfolding h by (rule stream_pes_header[OF s n(3) refl n(2)])
  have "length ?head = 14" by (simp add: MPEGPS_PackHeader_Init_def start_code_def le16_def)
  then have "stream_bytes h ?s1 = Some (?s2, [Header ?head])"
    using stream_bytes_whole[of h ?s1] s(3) two reset h by simp
  moreover have "length h = 19" by (simp add: h MPEGPS_PTS_Encode_def)
  then have "stream_bytes (payload p) ?s2 = Some (stream_reset ?s2,
      map (Byte (Some (stored_stamp (packet_pts p))) (Some (stored_stamp (packet_dts p)))) (payload p))"
    using stream_content[of ?s2 "payload p"] n(4) by simp
  moreover have "stream_reset ?s2 = s\<lparr>stamp := Some (stored_stamp (packet_pts p)), decode_stamp := Some (stored_stamp (packet_dts p))\<rparr>"
    using s by (cases s) (simp add: stream_reset_def)
  ultimately show ?thesis using one by (simp add: w stream_bytes_append stored_items_def)
qed

lemma stream_packets:
  "got s = [] \<Longrightarrow> need s = 0 \<Longrightarrow> left_over s = 0 \<Longrightarrow> list_all packet_ok ps \<Longrightarrow>
   \<exists>s'. stream_bytes (concat (map write_packet ps)) s = Some (s', concat (map stored_items ps))"
proof (induction ps arbitrary: s)
  case (Cons p ps)
  let ?s = "s\<lparr>stamp := Some (stored_stamp (packet_pts p)), decode_stamp := Some (stored_stamp (packet_dts p))\<rparr>"
  have "stream_bytes (write_packet p) s = Some (?s, stored_items p)" using stream_packet Cons.prems by simp
  moreover obtain s' where "stream_bytes (concat (map write_packet ps)) ?s = Some (s', concat (map stored_items ps))"
    using Cons.IH[of ?s] Cons.prems by auto
  ultimately show ?case by (simp add: stream_bytes_append)
qed simp

text \<open>Where every time stamp was read from its header, it is the one that was given to the callback.\<close>

fun stamped :: "item \<Rightarrow> bool" where
  "stamped (Byte p d b) = (p \<noteq> None \<and> d \<noteq> None)"
| "stamped (Header h) = True"

lemma stamped_items: "list_all stamped es \<Longrightarrow> list_all2 item_ok xs es \<Longrightarrow> xs = es"
proof (induction xs arbitrary: es)
  case (Cons x xs)
  then obtain y ys where "es = y # ys" "item_ok x y" "list_all2 item_ok xs ys" by (auto simp: list_all2_Cons1)
  moreover from this have "x = y" using Cons.prems(1) by (cases x; cases y) (auto simp: stamp_ok_def)
  ultimately show ?case using Cons by auto
qed simp

lemma stamped_packets: "list_all stamped (concat (map stored_items ps))"
  by (induction ps) (auto simp: stored_items_def list_all_iff)

lemma stored_items_small: "packet_pts p < 2 ^ 21 \<Longrightarrow> packet_dts p < 2 ^ 21 \<Longrightarrow> stored_items p = packet_items p"
  by (simp add: stored_items_def packet_items_def stored_stamp_small)

lemma stored_items_untimed: "map untimed (stored_items p) = map untimed (packet_items p)"
  by (simp add: stored_items_def packet_items_def)


definition sample_packets :: "ps_pack list" where
  "sample_packets =
     [\<lparr>pack_time = 90000, stream_id = 0xE0, packet_pts = 3600, packet_dts = 0, payload = [0, 0, 1, 0x67]\<rparr>,
      \<lparr>pack_time = 93600, stream_id = 0xC0, packet_pts = 7200, packet_dts = 3600, payload = [0xFF]\<rparr>]"


end
