(* ===== verification/Sps.thy ===== *)
theory Sps
  imports Prelude
begin

text \<open>
  The reader of H.264 parameter sets (\<^verbatim>\<open>media/h264_decode_sps.cpp\<close>) and the search for the next start code
  (\<^verbatim>\<open>media/h264_decode_sps.h\<close>).  A read beyond the bytes of the buffer has no result, and neither has a computation
  on \<^verbatim>\<open>int\<close> that overflows.
\<close>

section \<open>Bits\<close>

definition bit_at :: "u8 list \<Rightarrow> u32 \<Rightarrow> bool option" where
  "bit_at buf start =
     (let i = unat (start div 8) in
      if i < length buf then Some (buf ! i AND drop_bit (unat (start mod 8)) 0x80 \<noteq> 0) else None)"

text \<open>The loop of \<^verbatim>\<open>u\<close> and of the second part of \<^verbatim>\<open>Ue\<close>.\<close>

fun read_bits :: "nat \<Rightarrow> u8 list \<Rightarrow> u32 \<Rightarrow> u32 \<Rightarrow> (u32 \<times> u32) option" where
  "read_bits 0 buf ret start = Some (ret, start)"
| "read_bits (Suc n) buf ret start = do {
     b \<leftarrow> bit_at buf start;
     read_bits n buf (if b then push_bit 1 ret + 1 else push_bit 1 ret) (start + 1)
   }"

definition u :: "nat \<Rightarrow> u8 list \<Rightarrow> u32 \<Rightarrow> (u32 \<times> u32) option" where
  "u count buf start = read_bits count buf 0 start"

function count_zeros :: "u8 list \<Rightarrow> u32 \<Rightarrow> u32 \<Rightarrow> u32 \<Rightarrow> (u32 \<times> u32) option" where
  "count_zeros buf len zeros start =
     (if start < len * 8
      then do {
        b \<leftarrow> bit_at buf start;
        if b then Some (zeros, start) else count_zeros buf len (zeros + 1) (start + 1)
      }
      else Some (zeros, start))"
  by auto

termination
proof (relation "measure (\<lambda>(buf, len, zeros, start). unat (len * 8) - unat start)")
  fix buf :: "u8 list" and len zeros start :: u32 and b
  assume less: "start < len * 8"
  then have "start \<noteq> - 1" using word_order.extremum_strict by auto
  then have "start + 1 \<noteq> 0" by (simp add: eq_neg_iff_add_eq_0)
  then have "unat (start + 1) = Suc (unat start)" using unatSuc[of start] by (simp add: add.commute)
  then show "((buf, len, zeros + 1, start + 1), buf, len, zeros, start)
      \<in> measure (\<lambda>(buf, len, zeros, start). unat (len * 8) - unat start)"
    using less by (simp add: word_less_nat_alt)
qed simp

text \<open>\<^verbatim>\<open>(1 << nZeroNum) - 1\<close> overflows for 31 zeros.\<close>

definition Ue :: "u8 list \<Rightarrow> u32 \<Rightarrow> u32 \<Rightarrow> (u32 \<times> u32) option" where
  "Ue buf len start = do {
     (zeros, start) \<leftarrow> count_zeros buf len 0 start;
     (ret, start) \<leftarrow> read_bits (unat zeros) buf 0 (start + 1);
     if 31 \<le> zeros then None else Some (push_bit (unat zeros) 1 - 1 + ret, start)
   }"

text \<open>\<^verbatim>\<open>ceil(k/2)\<close> of an \<^verbatim>\<open>int\<close> in a \<^verbatim>\<open>double\<close> is exact.\<close>

definition Se :: "u8 list \<Rightarrow> u32 \<Rightarrow> u32 \<Rightarrow> (int \<times> u32) option" where
  "Se buf len start = do {
     (ue, start) \<leftarrow> Ue buf len start;
     let k = sint ue;
     let value = (k + 1) div 2;
     Some (if k mod 2 = 0 then - value else value, start)
   }"

section \<open>Parameter sets\<close>

text \<open>The part for the high profiles; the eight flags are not used and read at once.\<close>

definition skip_high :: "u8 list \<Rightarrow> u32 \<Rightarrow> u32 \<Rightarrow> u32 option" where
  "skip_high buf len start = do {
     (chroma_format_idc, start) \<leftarrow> Ue buf len start;
     (_, start) \<leftarrow> (if chroma_format_idc = 3 then u 1 buf start else Some (0, start));
     (_, start) \<leftarrow> Ue buf len start;
     (_, start) \<leftarrow> Ue buf len start;
     (_, start) \<leftarrow> u 1 buf start;
     (seq_scaling_matrix_present_flag, start) \<leftarrow> u 1 buf start;
     (_, start) \<leftarrow> (if seq_scaling_matrix_present_flag \<noteq> 0 then u 8 buf start else Some (0, start));
     Some start
   }"

fun skip_offsets :: "nat \<Rightarrow> u8 list \<Rightarrow> u32 \<Rightarrow> u32 \<Rightarrow> u32 option" where
  "skip_offsets 0 buf len start = Some start"
| "skip_offsets (Suc n) buf len start = do {
     (_, start) \<leftarrow> Se buf len start;
     skip_offsets n buf len start
   }"

definition skip_order_count :: "u8 list \<Rightarrow> u32 \<Rightarrow> u32 \<Rightarrow> u32 option" where
  "skip_order_count buf len start = do {
     (pic_order_cnt_type, start) \<leftarrow> Ue buf len start;
     if pic_order_cnt_type = 0 then map_option snd (Ue buf len start)
     else if pic_order_cnt_type = 1
     then do {
       (_, start) \<leftarrow> u 1 buf start;
       (_, start) \<leftarrow> Se buf len start;
       (_, start) \<leftarrow> Se buf len start;
       (n, start) \<leftarrow> Ue buf len start;
       skip_offsets (nat (sint n)) buf len start
     }
     else Some start
   }"

definition checked_int :: "int \<Rightarrow> int option" where
  "checked_int x = (if - (2 ^ 31) \<le> x \<and> x < 2 ^ 31 then Some x else None)"

text \<open>\<open>None\<close> inside is \<^verbatim>\<open>FALSE\<close>; otherwise the width and the height.\<close>

definition h264_decode_sps :: "u8 list \<Rightarrow> u32 \<Rightarrow> (int \<times> int) option option" where
  "h264_decode_sps buf len = do {
     (_, start) \<leftarrow> u 1 buf 0;
     (_, start) \<leftarrow> u 2 buf start;
     (nal_unit_type, start) \<leftarrow> u 5 buf start;
     if nal_unit_type = 7
     then do {
       (profile_idc, start) \<leftarrow> u 8 buf start;
       (_, start) \<leftarrow> u 1 buf start;
       (_, start) \<leftarrow> u 1 buf start;
       (_, start) \<leftarrow> u 1 buf start;
       (_, start) \<leftarrow> u 1 buf start;
       (_, start) \<leftarrow> u 4 buf start;
       (_, start) \<leftarrow> u 8 buf start;
       (_, start) \<leftarrow> Ue buf len start;
       start \<leftarrow> (if profile_idc = 100 \<or> profile_idc = 110 \<or> profile_idc = 122 \<or> profile_idc = 144
         then skip_high buf len start else Some start);
       (_, start) \<leftarrow> Ue buf len start;
       start \<leftarrow> skip_order_count buf len start;
       (_, start) \<leftarrow> Ue buf len start;
       (_, start) \<leftarrow> u 1 buf start;
       (pic_width_in_mbs_minus1, start) \<leftarrow> Ue buf len start;
       (pic_height_in_map_units_minus1, start) \<leftarrow> Ue buf len start;
       width \<leftarrow> checked_int ((sint pic_width_in_mbs_minus1 + 1) * 16);
       height \<leftarrow> checked_int ((sint pic_height_in_map_units_minus1 + 1) * 16);
       Some (Some (width, height))
     }
     else Some None
   }"

section \<open>Start codes\<close>

definition byte_at :: "u8 list \<Rightarrow> int \<Rightarrow> u8 option" where
  "byte_at data i = (if 0 \<le> i \<and> i < int (length data) then Some (data ! nat i) else None)"

text \<open>\<^verbatim>\<open>&&\<close> does not read what is not needed.\<close>

definition is_es4_header :: "u8 list \<Rightarrow> int \<Rightarrow> bool option" where
  "is_es4_header data i = do {
     a \<leftarrow> byte_at data i;
     if a \<noteq> 0 then Some False else do {
       b \<leftarrow> byte_at data (i + 1);
       if b \<noteq> 0 then Some False else do {
         c \<leftarrow> byte_at data (i + 2);
         if c \<noteq> 0 then Some False else do {
           d \<leftarrow> byte_at data (i + 3);
           Some (d = 1)
         }
       }
     }
   }"

definition get_es_type :: "u8 list \<Rightarrow> int \<Rightarrow> int option" where
  "get_es_type data i = map_option (\<lambda>b. uint (b AND 0x1F)) (byte_at data i)"

function next_es_from :: "u8 list \<Rightarrow> int \<Rightarrow> int \<Rightarrow> int \<Rightarrow> int option" where
  "next_es_from data sz type ptr =
     (if ptr < sz - 3
      then do {
        head \<leftarrow> is_es4_header data ptr;
        found \<leftarrow> (if \<not> head then Some False else if type = - 1 then Some True
          else map_option (\<lambda>t. t = type) (get_es_type data (ptr + 4)));
        if found then Some ptr else next_es_from data sz type (ptr + 1)
      }
      else Some (- 1))"
  by auto

termination
  by (relation "measure (\<lambda>(data, sz, type, ptr). nat (sz - ptr))") auto

definition next_es_header :: "u8 list \<Rightarrow> int \<Rightarrow> int \<Rightarrow> int option" where
  "next_es_header data sz type = next_es_from data sz type 3"

declare count_zeros.simps [simp del] next_es_from.simps [simp del]

end
