(* ===== verification/Sps_Trip.thy ===== *)
theory Sps_Trip
  imports Sps
begin

text \<open>
  What the reader of parameter sets makes of those that are written as the standard has them (ITU-T H.264, 7.3.2.1.1),
  as far as it reads them: without lists for scaling and without bytes against the emulation of start codes.  What the
  search for start codes finds.
\<close>

section \<open>Bits of a buffer\<close>

definition byte_bits :: "u8 \<Rightarrow> bool list" where
  "byte_bits b = map (bit b) [7, 6, 5, 4, 3, 2, 1, 0]"

definition bits_of :: "u8 list \<Rightarrow> bool list" where
  "bits_of buf = concat (map byte_bits buf)"

lemma length_bits_of [simp]: "length (bits_of buf) = 8 * length buf"
  by (induction buf) (simp_all add: bits_of_def byte_bits_def)

lemma nth_bits_of: "i < 8 * length buf \<Longrightarrow> bits_of buf ! i = bit (buf ! (i div 8)) (7 - i mod 8)"
proof (induction buf arbitrary: i)
  case (Cons b buf)
  have bits: "bits_of (b # buf) = byte_bits b @ bits_of buf" by (simp add: bits_of_def)
  show ?case
  proof (cases "i < 8")
    case True
    then have "i = 0 \<or> i = 1 \<or> i = 2 \<or> i = 3 \<or> i = 4 \<or> i = 5 \<or> i = 6 \<or> i = 7" by arith
    then show ?thesis unfolding bits by (elim disjE) (simp_all add: byte_bits_def)
  next
    case False
    then obtain j where j: "i = 8 + j" by (metis not_less le_Suc_ex)
    have "(8 + j) div 8 = Suc (j div 8)" by simp
    then show ?thesis using Cons.IH[of j] Cons.prems j unfolding bits j by (simp add: nth_append byte_bits_def del: div_add_self1)
  qed
qed simp

lemma and_bit: "k < 8 \<Longrightarrow> ((b :: u8) AND drop_bit k 0x80 \<noteq> 0) = bit b (7 - k)"
proof -
  assume "k < 8"
  then have "k = 0 \<or> k = 1 \<or> k = 2 \<or> k = 3 \<or> k = 4 \<or> k = 5 \<or> k = 6 \<or> k = 7" by arith
  then have "drop_bit k (0x80 :: u8) = 2 ^ (7 - k)" by (elim disjE) simp_all
  then show ?thesis by (simp add: and_exp_eq_0_iff_not_bit)
qed

text \<open>The bits from a position to the end of the buffer.\<close>

definition bits_at :: "u8 list \<Rightarrow> u32 \<Rightarrow> bool list \<Rightarrow> bool" where
  "bits_at buf p bs = (8 * length buf < 2 ^ 32 \<and> drop (unat p) (bits_of buf) = bs)"

lemma bits_at_Cons:
  assumes "bits_at buf p (b # bs)"
  shows "unat p < 8 * length buf" and "bit_at buf p = Some b" and "bits_at buf (p + 1) bs"
proof -
  have d: "drop (unat p) (bits_of buf) = b # bs" and len: "8 * length buf < 2 ^ 32"
    using assms by (simp_all add: bits_at_def)
  show p: "unat p < 8 * length buf" by (rule ccontr) (use d in simp)
  then have "bits_of buf ! unat p = b" using d by (simp add: drop_eq_nths nth_via_drop)
  then have b: "bit (buf ! (unat p div 8)) (7 - unat p mod 8) = b" using nth_bits_of[OF p] by simp
  have at: "unat (p div 8) = unat p div 8" "unat (p mod 8) = unat p mod 8" by (simp_all add: unat_div unat_mod)
  show "bit_at buf p = Some b"
    unfolding bit_at_def Let_def at using p b and_bit[of "unat p mod 8" "buf ! (unat p div 8)"] by simp
  have "p \<noteq> - 1"
  proof
    assume "p = - 1"
    then have "unat p = 2 ^ 32 - 1" by (simp add: unsigned_minus_1_eq_mask mask_eq_exp_minus_1)
    then show False using p len by simp
  qed
  then have "1 + p \<noteq> 0" by (auto simp: add_eq_0_iff)
  then have "unat (p + 1) = Suc (unat p)" using unatSuc[of p] by (simp add: add.commute)
  moreover have "drop (Suc (unat p)) (bits_of buf) = bs" using d by (metis drop_Suc list.sel(3) tl_drop)
  ultimately show "bits_at buf (p + 1) bs" using len by (simp add: bits_at_def)
qed

lemma u32_of_nat: "n < 2 ^ 32 \<Longrightarrow> unat (of_nat n :: u32) = n"
  by (simp add: unat_of_nat)

lemma bits_at_less: "len = of_nat (length buf) \<Longrightarrow> bits_at buf p (b # bs) \<Longrightarrow> p < len * 8"
proof -
  assume len: "len = of_nat (length buf)" and at: "bits_at buf p (b # bs)"
  have "8 * length buf < 2 ^ 32" using at by (simp add: bits_at_def)
  moreover have "len * 8 = of_nat (8 * length buf)" by (simp add: len)
  ultimately have "unat (len * 8) = 8 * length buf" by (simp only: u32_of_nat)
  then show "p < len * 8" using bits_at_Cons(1)[OF at] by (simp add: word_less_nat_alt)
qed

section \<open>Readers\<close>

text \<open>A computation has a result, and it satisfies a condition.\<close>

definition yields :: "'a option \<Rightarrow> ('a \<Rightarrow> bool) \<Rightarrow> bool" where
  "yields r Q = (\<exists>x. r = Some x \<and> Q x)"

definition gives :: "('a \<times> u32) option \<Rightarrow> u8 list \<Rightarrow> 'a \<Rightarrow> bool list \<Rightarrow> bool" where
  "gives r buf x bs = yields r (\<lambda>(y, q). y = x \<and> bits_at buf q bs)"

lemma yields_bind: "gives r buf x bs \<Longrightarrow> (\<And>q. bits_at buf q bs \<Longrightarrow> yields (f x q) Q) \<Longrightarrow>
   yields (r \<bind> (\<lambda>(y, q). f y q)) Q"
  by (auto simp: gives_def yields_def)

lemma yields_skip: "yields r (\<lambda>q. bits_at buf q bs) \<Longrightarrow> (\<And>q. bits_at buf q bs \<Longrightarrow> yields (f q) Q) \<Longrightarrow>
   yields (r \<bind> f) Q"
  by (auto simp: yields_def)

lemma yields_Some: "Q x \<Longrightarrow> yields (Some x) Q"
  by (simp add: yields_def)

fun to_bits :: "nat \<Rightarrow> nat \<Rightarrow> bool list" where
  "to_bits 0 v = []"
| "to_bits (Suc n) v = to_bits n (v div 2) @ [odd v]"

lemma length_to_bits [simp]: "length (to_bits n v) = n"
  by (induction n arbitrary: v) simp_all

definition add_bit :: "bool \<Rightarrow> u32 \<Rightarrow> u32" where
  "add_bit b r = (if b then push_bit 1 r + 1 else push_bit 1 r)"

lemma fold_to_bits: "v < 2 ^ n \<Longrightarrow> fold add_bit (to_bits n v) 0 = of_nat v"
proof (induction n arbitrary: v)
  case (Suc n)
  have "of_nat v = (of_nat (v div 2) * 2 + of_nat (v mod 2) :: u32)"
    by (metis div_mult_mod_eq of_nat_add of_nat_mult of_nat_numeral)
  moreover have "v div 2 < 2 ^ n" using Suc.prems by auto
  ultimately show ?case using Suc.IH[of "v div 2"]
    by (cases "odd v") (auto simp: add_bit_def push_bit_eq_mult odd_iff_mod_2_eq_one even_iff_mod_2_eq_zero)
qed simp

lemma read_bits_gives:
  "bits_at buf p (xs @ bs) \<Longrightarrow> length xs = n \<Longrightarrow> gives (read_bits n buf r p) buf (fold add_bit xs r) bs"
proof (induction xs arbitrary: p r n)
  case (Cons x xs)
  then obtain m where n: "n = Suc m" "length xs = m" by auto
  have "bits_at buf p (x # (xs @ bs))" using Cons.prems by simp
  note b = bits_at_Cons[OF this]
  show ?case using Cons.IH[OF b(3) n(2), of "add_bit x r"] b(2) by (simp add: n add_bit_def)
qed (simp add: gives_def yields_def)

lemma u_gives: "bits_at buf p (to_bits n v @ bs) \<Longrightarrow> v < 2 ^ n \<Longrightarrow> gives (u n buf p) buf (of_nat v) bs"
  using read_bits_gives[of buf p "to_bits n v" bs n 0] by (simp add: u_def fold_to_bits)

lemma u_one: "bits_at buf p (b # bs) \<Longrightarrow> gives (u 1 buf p) buf (of_bool b) bs"
  using read_bits_gives[of buf p "[b]" bs 1 0] by (cases b) (simp_all add: u_def add_bit_def)

section \<open>Numbers\<close>

text \<open>Unsigned and signed numbers in the code of the standard (9.1).\<close>

fun ue_len :: "nat \<Rightarrow> nat" where
  "ue_len v = (if v = 0 then 0 else Suc (ue_len ((v - 1) div 2)))"

declare ue_len.simps [simp del]

definition ue_bits :: "nat \<Rightarrow> bool list" where
  "ue_bits v = replicate (ue_len v) False @ True # to_bits (ue_len v) (v + 1 - 2 ^ ue_len v)"

definition se_bits :: "int \<Rightarrow> bool list" where
  "se_bits k = ue_bits (if 0 < k then nat (2 * k - 1) else nat (- 2 * k))"

lemma ue_len_bounds: "2 ^ ue_len v \<le> v + 1 \<and> v + 1 < 2 * 2 ^ ue_len v"
proof (induction v rule: ue_len.induct)
  case (1 v)
  show ?case
  proof (cases "v = 0")
    case True
    then show ?thesis by (simp add: ue_len.simps)
  next
    case False
    obtain x where x: "x = (v - 1) div 2" by blast
    then have "v + 1 = 2 * (x + 1) \<or> v + 1 = 2 * (x + 1) + 1" using False unfolding x by presburger
    moreover have "2 ^ ue_len x \<le> x + 1" "x + 1 < 2 * 2 ^ ue_len x" using 1[OF False] unfolding x by simp_all
    moreover have "(2 :: nat) ^ ue_len v = 2 * 2 ^ ue_len x" using False x by (subst ue_len.simps) simp
    ultimately show ?thesis by auto
  qed
qed

definition ue_ok :: "nat \<Rightarrow> bool" where
  "ue_ok v = (v < 2 ^ 31 - 1)"

lemma ue_len_ok: "ue_ok v \<Longrightarrow> ue_len v < 31"
proof (rule ccontr)
  assume ok: "ue_ok v" and "\<not> ue_len v < 31"
  then have "(2 :: nat) ^ 31 \<le> 2 ^ ue_len v" by (intro power_increasing) auto
  then have "2 ^ 31 \<le> v + 1" using ue_len_bounds[of v] by linarith
  then show False using ok by (simp add: ue_ok_def)
qed

lemma count_zeros_gives:
  assumes "len = of_nat (length buf)" and "bits_at buf p (replicate n False @ True # bs)"
  shows "gives (count_zeros buf len z p) buf (z + of_nat n) (True # bs)"
  using assms(2)
proof (induction n arbitrary: z p)
  case 0
  then have b: "bits_at buf p (True # bs)" by simp
  have "p < len * 8" using bits_at_less[OF assms(1) b] .
  then show ?case using bits_at_Cons(2)[OF b] b
    by (subst count_zeros.simps) (simp add: gives_def yields_def)
next
  case (Suc n)
  then have b: "bits_at buf p (False # (replicate n False @ True # bs))" by simp
  have "p < len * 8" using bits_at_less[OF assms(1) b] .
  then show ?case using bits_at_Cons(2)[OF b] Suc.IH[OF bits_at_Cons(3)[OF b], of "z + 1"]
    by (subst count_zeros.simps) (simp add: add.assoc)
qed

lemma Ue_gives:
  assumes len: "len = of_nat (length buf)" and at: "bits_at buf p (ue_bits v @ bs)" and ok: "ue_ok v"
  shows "gives (Ue buf len p) buf (of_nat v) bs"
proof -
  let ?n = "ue_len v"
  have n: "?n < 31" by (rule ue_len_ok[OF ok])
  have v: "v + 1 - 2 ^ ?n < 2 ^ ?n" "2 ^ ?n \<le> v + 1" using ue_len_bounds[of v] by linarith+
  have un: "unat (of_nat ?n :: u32) = ?n" "\<not> 31 \<le> (of_nat ?n :: u32)"
    using n by (simp_all add: u32_of_nat word_le_nat_alt)
  have "bits_at buf p (replicate ?n False @ True # (to_bits ?n (v + 1 - 2 ^ ?n) @ bs))"
    using at by (simp add: ue_bits_def)
  from count_zeros_gives[OF len this, of 0] obtain q where
    q: "count_zeros buf len 0 p = Some (of_nat ?n, q)" "bits_at buf q (True # (to_bits ?n (v + 1 - 2 ^ ?n) @ bs))"
    by (auto simp: gives_def yields_def)
  have "gives (read_bits ?n buf 0 (q + 1)) buf (of_nat (v + 1 - 2 ^ ?n)) bs"
    using read_bits_gives[OF bits_at_Cons(3)[OF q(2)], of ?n 0] fold_to_bits[OF v(1)] by simp
  moreover have "push_bit ?n 1 - 1 + of_nat (v + 1 - 2 ^ ?n) = (of_nat v :: u32)"
    using v(2) by (simp add: push_bit_eq_mult of_nat_diff)
  ultimately show ?thesis using q(1) un by (auto simp: Ue_def gives_def yields_def)
qed

definition se_ok :: "int \<Rightarrow> bool" where
  "se_ok k = (\<bar>k\<bar> < 2 ^ 30)"

lemma sint_of_nat: "v < 2 ^ 31 \<Longrightarrow> sint (of_nat v :: u32) = int v"
  by (simp add: signed_of_nat signed_take_bit_int_eq_self)

lemma Se_gives:
  assumes "len = of_nat (length buf)" and "bits_at buf p (se_bits k @ bs)" and "se_ok k"
  shows "gives (Se buf len p) buf k bs"
proof -
  obtain v where v: "v = (if 0 < k then nat (2 * k - 1) else nat (- 2 * k))" by blast
  have ok: "ue_ok v" "v < 2 ^ 31" using assms(3) by (auto simp: v ue_ok_def se_ok_def)
  have "bits_at buf p (ue_bits v @ bs)" using assms(2) by (simp only: se_bits_def v)
  from Ue_gives[OF assms(1) this ok(1)] obtain q where q: "Ue buf len p = Some (of_nat v, q)" "bits_at buf q bs"
    by (auto simp: gives_def yields_def)
  have "(if int v mod 2 = 0 then - ((int v + 1) div 2) else (int v + 1) div 2) = k"
  proof (cases "0 < k")
    case True
    then have "int v = 2 * k - 1" by (simp add: v)
    then show ?thesis by presburger
  next
    case False
    then have "int v = - 2 * k" by (simp add: v)
    then show ?thesis by presburger
  qed
  then show ?thesis using q sint_of_nat[OF ok(2)] by (auto simp: Se_def Let_def gives_def yields_def split: if_splits)
qed

section \<open>Parameter sets\<close>

text \<open>The fields up to the size of the picture, in the order of the standard, without lists for scaling.\<close>

record high_part =
  chroma_format :: nat
  separate_planes :: bool
  depth_luma :: nat
  depth_chroma :: nat
  bypass :: bool
  no_scaling_lists :: bool

datatype order_count = Lsb nat | Cycle bool int int "int list" | Output_Order

record sps =
  ref_idc :: nat
  profile :: nat
  constraints :: "bool \<times> bool \<times> bool \<times> bool"
  reserved :: nat
  level :: nat
  set_id :: nat
  high :: "high_part option"
  max_frame_num :: nat
  order_count :: order_count
  ref_frames :: nat
  gaps :: bool
  width_in_mbs :: nat
  height_in_units :: nat
  frame_mbs_only :: bool
  mb_adaptive :: bool
  direct_8x8 :: bool
  cropping :: "(nat \<times> nat \<times> nat \<times> nat) option"

definition high_bits :: "high_part \<Rightarrow> bool list" where
  "high_bits h = ue_bits (chroma_format h) @ (if chroma_format h = 3 then [separate_planes h] else []) @
     ue_bits (depth_luma h) @ ue_bits (depth_chroma h) @ [bypass h, no_scaling_lists h] @
     (if no_scaling_lists h then to_bits 8 0 else [])"

definition high_ok :: "high_part \<Rightarrow> bool" where
  "high_ok h = (chroma_format h \<le> (if no_scaling_lists h then 2 else 3) \<and> depth_luma h \<le> 6 \<and> depth_chroma h \<le> 6)"

fun count_bits :: "order_count \<Rightarrow> bool list" where
  "count_bits (Lsb n) = ue_bits 0 @ ue_bits n"
| "count_bits (Cycle z a b ks) = ue_bits 1 @ [z] @ se_bits a @ se_bits b @ ue_bits (length ks) @ concat (map se_bits ks)"
| "count_bits Output_Order = ue_bits 2"

fun count_ok :: "order_count \<Rightarrow> bool" where
  "count_ok (Lsb n) = (n \<le> 12)"
| "count_ok (Cycle z a b ks) = (se_ok a \<and> se_ok b \<and> list_all se_ok ks \<and> length ks \<le> 255)"
| "count_ok Output_Order = True"

text \<open>What follows the height, up to the flag for the usability information; the cropping is left, right, top, bottom.\<close>

definition frame_bits :: "sps \<Rightarrow> bool list" where
  "frame_bits s = [frame_mbs_only s] @ (if frame_mbs_only s then [] else [mb_adaptive s]) @ [direct_8x8 s] @
     (case cropping s of None \<Rightarrow> [False]
      | Some (l, r, t, b) \<Rightarrow> [True] @ ue_bits l @ ue_bits r @ ue_bits t @ ue_bits b)"

definition sps_bits :: "sps \<Rightarrow> bool list" where
  "sps_bits s =
     (case constraints s of (c0, c1, c2, c3) \<Rightarrow>
        [False] @ to_bits 2 (ref_idc s) @ to_bits 5 7 @ to_bits 8 (profile s) @ [c0, c1, c2, c3] @ to_bits 4 (reserved s) @
        to_bits 8 (level s) @ ue_bits (set_id s) @ (case high s of None \<Rightarrow> [] | Some h \<Rightarrow> high_bits h) @
        ue_bits (max_frame_num s) @ count_bits (order_count s) @ ue_bits (ref_frames s) @ [gaps s] @
        ue_bits (width_in_mbs s - 1) @ ue_bits (height_in_units s - 1) @ frame_bits s)"

text \<open>Baseline, main and extended without the high part; high, high 10 and high 4:2:2 with it.\<close>

definition sps_ok :: "sps \<Rightarrow> bool" where
  "sps_ok s = (ref_idc s < 4 \<and> reserved s < 16 \<and> level s < 256 \<and> set_id s \<le> 31 \<and>
     (case high s of None \<Rightarrow> profile s \<in> {66, 77, 88} | Some h \<Rightarrow> profile s \<in> {100, 110, 122} \<and> high_ok h) \<and>
     max_frame_num s \<le> 12 \<and> count_ok (order_count s) \<and> ref_frames s \<le> 16 \<and>
     0 < width_in_mbs s \<and> width_in_mbs s < 2 ^ 27 \<and> 0 < height_in_units s \<and> height_in_units s < 2 ^ 27)"

text \<open>
  The size of the pictures by the standard (7.4.2.1.1): a map unit of a stream with fields is a pair of macroblocks, and
  the cropping is counted in samples of the chroma planes.
\<close>

definition crop_units :: "sps \<Rightarrow> int \<times> int" where
  "crop_units s =
     (let format = (case high s of None \<Rightarrow> 1 | Some h \<Rightarrow> if separate_planes h then 0 else chroma_format h);
          fields = (if frame_mbs_only s then 1 else 2)
      in (if format = 1 \<or> format = 2 then 2 else 1, if format = 1 then 2 * fields else fields))"

definition picture_size :: "sps \<Rightarrow> int \<times> int" where
  "picture_size s =
     (let width = 16 * int (width_in_mbs s); height = (if frame_mbs_only s then 1 else 2) * int (height_in_units s) * 16 in
      case cropping s of None \<Rightarrow> (width, height)
      | Some (l, r, t, b) \<Rightarrow> (width - fst (crop_units s) * int (l + r), height - snd (crop_units s) * int (t + b)))"

text \<open>
  A unit in a stream (7.4.1.1): a byte 3 is put before every byte up to 3 that follows two zero bytes.  The counter is
  that of the zero bytes before.
\<close>

fun against_emulation :: "nat \<Rightarrow> u8 list \<Rightarrow> u8 list" where
  "against_emulation z [] = []"
| "against_emulation z (b # bs) =
     (if z = 2 \<and> b \<le> 3 then 3 # b # against_emulation (if b = 0 then 1 else 0) bs
      else b # against_emulation (if b = 0 then z + 1 else 0) bs)"

fun emulates :: "u8 list \<Rightarrow> bool" where
  "emulates (a # b # c # bs) = (a = 0 \<and> b = 0 \<and> c \<le> 3 \<or> emulates (b # c # bs))"
| "emulates bs = False"

lemma emulates_tl: "emulates bs \<Longrightarrow> emulates (b # bs)"
  by (cases bs rule: emulates.cases) auto

lemma emulates_zeros: "c \<le> 3 \<Longrightarrow> emulates (0 # 0 # c # bs)"
  by simp

lemma against_emulation_unneeded:
  "z \<le> 2 \<Longrightarrow> \<not> emulates (replicate z 0 @ bs) \<Longrightarrow> against_emulation z bs = bs"
proof (induction bs arbitrary: z)
  case (Cons b bs)
  then have "b = 0 \<Longrightarrow> z < 2" using emulates_zeros[of 0 bs] by (auto simp del: emulates.simps simp: less_Suc_eq_le numeral_2_eq_2 le_Suc_eq)
  moreover have "\<not> (z = 2 \<and> b \<le> 3)" using Cons.prems(2) emulates_zeros[of b bs] by (auto simp del: emulates.simps simp: numeral_2_eq_2)
  moreover have "\<not> emulates (replicate (if b = 0 then z + 1 else 0) 0 @ bs)"
    using Cons.prems emulates_tl by (auto simp del: emulates.simps simp: le_Suc_eq numeral_2_eq_2)
  ultimately show ?case using Cons.IH[of "if b = 0 then z + 1 else 0"] by (cases "b = 0") auto
qed simp

lemma u32_eq: "n < 2 ^ 32 \<Longrightarrow> m < 2 ^ 32 \<Longrightarrow> (of_nat n = (of_nat m :: u32)) = (n = m)"
  by (metis u32_of_nat)

lemma gives_if: "bits_at buf p ((if c then xs else []) @ bs) \<Longrightarrow> (c \<Longrightarrow> bits_at buf p (xs @ bs) \<Longrightarrow> gives r buf x bs) \<Longrightarrow>
   gives (if c then r else Some (y, p)) buf (if c then x else y) bs"
  by (cases c) (auto simp: gives_def yields_def)

lemma high_gives:
  assumes len: "len = of_nat (length buf)" and at: "bits_at buf p (high_bits h @ bs)" and ok: "high_ok h"
  shows "yields (skip_high buf len p) (\<lambda>q. bits_at buf q bs)"
proof -
  have small: "ue_ok (chroma_format h)" "ue_ok (depth_luma h)" "ue_ok (depth_chroma h)" "chroma_format h < 2 ^ 32"
    using ok by (auto simp: high_ok_def ue_ok_def split: if_splits)
  have three: "(of_nat (chroma_format h) = (3 :: u32)) = (chroma_format h = 3)" using u32_eq[of "chroma_format h" 3] small(4) by simp
  have flag: "(of_bool c \<noteq> (0 :: u32)) = c" for c by (cases c) simp_all
  note ue = Ue_gives[OF len]
  have bits: "high_bits h @ bs = ue_bits (chroma_format h) @ (if chroma_format h = 3 then [separate_planes h] else []) @
     ue_bits (depth_luma h) @ ue_bits (depth_chroma h) @ bypass h # no_scaling_lists h #
     (if no_scaling_lists h then to_bits 8 0 else []) @ bs" by (simp add: high_bits_def)
  show ?thesis
    using at unfolding skip_high_def bits
    apply -
    apply (rule yields_bind[OF ue], assumption, rule small, unfold three)
    apply (rule yields_bind[OF gives_if], assumption, rule u_one, simp)
    apply (rule yields_bind[OF ue], assumption, rule small)
    apply (rule yields_bind[OF ue], assumption, rule small)
    apply (rule yields_bind[OF u_one], assumption)
    apply (rule yields_bind[OF u_one], assumption)
    apply (unfold flag, rule yields_bind[OF gives_if], assumption, rule u_gives, assumption, simp)
    by (rule yields_Some)
qed

lemma offsets_give:
  assumes len: "len = of_nat (length buf)"
  shows "bits_at buf p (concat (map se_bits ks) @ bs) \<Longrightarrow> list_all se_ok ks \<Longrightarrow>
    yields (skip_offsets (length ks) buf len p) (\<lambda>q. bits_at buf q bs)"
proof (induction ks arbitrary: p)
  case (Cons k ks)
  have "bits_at buf p (se_bits k @ concat (map se_bits ks) @ bs)" using Cons.prems by simp
  then have "gives (Se buf len p) buf k (concat (map se_bits ks) @ bs)" by (rule Se_gives[OF len]) (use Cons.prems in simp)
  then have "yields (Se buf len p \<bind> (\<lambda>(y, q). skip_offsets (length ks) buf len q)) (\<lambda>q. bits_at buf q bs)"
    by (rule yields_bind) (use Cons in simp)
  then show ?case by simp
qed (simp add: yields_def)

lemma count_gives:
  assumes len: "len = of_nat (length buf)" and at: "bits_at buf p (count_bits c @ bs)" and ok: "count_ok c"
  shows "yields (skip_order_count buf len p) (\<lambda>q. bits_at buf q bs)"
proof -
  note ue = Ue_gives[OF len] and se = Se_gives[OF len]
  have kinds: "ue_ok 0" "ue_ok 1" "ue_ok 2" by (simp_all add: ue_ok_def)
  show ?thesis
  proof (cases c)
    case (Lsb n)
    then have "bits_at buf p (ue_bits 0 @ ue_bits n @ bs)" "ue_ok n" using at ok by (simp_all add: ue_ok_def)
    then show ?thesis unfolding skip_order_count_def
      apply -
      apply (rule yields_bind[OF ue], assumption, rule kinds)
      using ue by (fastforce simp: gives_def yields_def)
  next
    case (Cycle z a b ks)
    then have "bits_at buf p (ue_bits 1 @ z # se_bits a @ se_bits b @ ue_bits (length ks) @ concat (map se_bits ks) @ bs)"
      and oks: "se_ok a" "se_ok b" "ue_ok (length ks)" "list_all se_ok ks" "length ks < 2 ^ 31" using at ok
      by (simp_all add: ue_ok_def)
    moreover have n: "nat (sint (of_nat (length ks) :: u32)) = length ks" using sint_of_nat[OF oks(5)] by simp
    ultimately show ?thesis unfolding skip_order_count_def
      apply -
      apply (rule yields_bind[OF ue], assumption, rule kinds, simp only: of_nat_1 one_neq_zero if_False if_True simp_thms)
      apply (rule yields_bind[OF u_one], assumption)
      apply (rule yields_bind[OF se], assumption, assumption)
      apply (rule yields_bind[OF se], assumption, assumption)
      apply (rule yields_bind[OF ue], assumption, assumption)
      by (simp only: n offsets_give[OF len])
  next
    case Output_Order
    then have "bits_at buf p (ue_bits 2 @ bs)" using at by simp
    then show ?thesis unfolding skip_order_count_def
      apply -
      apply (rule yields_bind[OF ue], assumption, rule kinds)
      by (simp add: yields_Some)
  qed
qed

lemma to_bits_numeral: "to_bits (numeral k) v = to_bits (pred_numeral k) (v div 2) @ [odd v]"
  by (simp add: numeral_eq_Suc)

text \<open>What is read of a parameter set: the width in macroblocks and the height in map units, times 16.\<close>

lemma h264_sps_units:
  assumes "sps_ok s" and "bits_of buf = sps_bits s @ rest" and "8 * length buf < 2 ^ 32"
  shows "h264_decode_sps buf (of_nat (length buf)) =
    Some (Some (16 * int (width_in_mbs s), 16 * int (height_in_units s)))"
proof -
  obtain len :: u32 where len: "len = of_nat (length buf)" by blast
  obtain c0 c1 c2 c3 where c: "constraints s = (c0, c1, c2, c3)" by (metis prod.exhaust)
  let ?part = "case high s of None \<Rightarrow> [] | Some h \<Rightarrow> high_bits h"
  have at: "bits_at buf 0 (False # to_bits 2 (ref_idc s) @ to_bits 5 7 @ to_bits 8 (profile s) @ c0 # c1 # c2 # c3 #
     to_bits 4 (reserved s) @ to_bits 8 (level s) @ ue_bits (set_id s) @ ?part @ ue_bits (max_frame_num s) @
     count_bits (order_count s) @ ue_bits (ref_frames s) @ gaps s # ue_bits (width_in_mbs s - 1) @
     ue_bits (height_in_units s - 1) @ frame_bits s @ rest)"
    using assms(2,3) c by (simp add: bits_at_def sps_bits_def)
  have small: "ref_idc s < 2 ^ 2" "reserved s < 2 ^ 4" "level s < 2 ^ 8" "ue_ok (set_id s)" "ue_ok (max_frame_num s)"
    "ue_ok (ref_frames s)" "ue_ok (width_in_mbs s - 1)" "ue_ok (height_in_units s - 1)" "count_ok (order_count s)"
    using assms(1) by (auto simp: sps_ok_def ue_ok_def)
  have profile: "profile s < 2 ^ 8" using assms(1) by (auto simp: sps_ok_def split: option.splits)
  then have "profile s < 2 ^ 32" by simp
  note pr = u32_eq[OF this]
  have is_high: "(of_nat (profile s) = (100 :: u32) \<or> of_nat (profile s) = (110 :: u32) \<or> of_nat (profile s) = (122 :: u32) \<or>
      of_nat (profile s) = (144 :: u32)) = (high s \<noteq> None)"
    using pr[of 100] pr[of 110] pr[of 122] pr[of 144] assms(1) by (auto simp: sps_ok_def split: option.splits)
  have part: "yields (if high s \<noteq> None then skip_high buf len q else Some q) (\<lambda>q. bits_at buf q bs)"
    if "bits_at buf q (?part @ bs)" for q bs
    using that high_gives[OF len] assms(1) by (cases "high s") (auto simp: sps_ok_def yields_def)
  have dims: "checked_int ((sint (of_nat (n - 1) :: u32) + 1) * 16) = Some (16 * int n)" if "0 < n" "n < 2 ^ 27" for n
  proof -
    have "sint (of_nat (n - 1) :: u32) = int (n - 1)" using that by (intro sint_of_nat) simp
    then show ?thesis using that by (simp add: checked_int_def of_nat_diff)
  qed
  note w = dims[of "width_in_mbs s"] and h = dims[of "height_in_units s"]
  have sizes: "0 < width_in_mbs s" "width_in_mbs s < 2 ^ 27" "0 < height_in_units s" "height_in_units s < 2 ^ 27"
    using assms(1) by (simp_all add: sps_ok_def)
  note ue = Ue_gives[OF len]
  have "yields (h264_decode_sps buf len) (\<lambda>r. r = Some (16 * int (width_in_mbs s), 16 * int (height_in_units s)))"
    using at unfolding h264_decode_sps_def
    apply -
    apply (rule yields_bind[OF u_one], assumption)
    apply (rule yields_bind[OF u_gives], assumption, rule small)
    apply (rule yields_bind[OF u_gives], assumption, simp, simp only: of_nat_numeral refl if_True)
    apply (rule yields_bind[OF u_gives], assumption, rule profile, unfold is_high)
    apply (rule yields_bind[OF u_one], assumption)
    apply (rule yields_bind[OF u_one], assumption)
    apply (rule yields_bind[OF u_one], assumption)
    apply (rule yields_bind[OF u_one], assumption)
    apply (rule yields_bind[OF u_gives], assumption, rule small)
    apply (rule yields_bind[OF u_gives], assumption, rule small)
    apply (rule yields_bind[OF ue], assumption, rule small)
    apply (rule yields_skip[OF part], assumption)
    apply (rule yields_bind[OF ue], assumption, rule small)
    apply (rule yields_skip[OF count_gives[OF len]], assumption, rule small)
    apply (rule yields_bind[OF ue], assumption, rule small)
    apply (rule yields_bind[OF u_one], assumption)
    apply (rule yields_bind[OF ue], assumption, rule small)
    apply (rule yields_bind[OF ue], assumption, rule small)
    by (simp only: w[OF sizes(1,2)] h[OF sizes(3,4)] bind.bind_lunit yields_Some)
  then show ?thesis unfolding len by (simp add: yields_def)
qed

text \<open>
  C30: the reader finds the size of the picture in the parameter sets that it can read.  Let a unit of a
  stream begin with a sequence parameter set written as the standard has it, of the baseline, main, extended, high,
  high 10 or high 4:2:2 profile, without lists for scaling, with whatever order of output and offsets, and let no three
  of its bytes ask for one against the emulation of a start code.  When the stream is of frames only and not cropped,
  \<^verbatim>\<open>h264_decode_sps\<close> reads no byte beyond the buffer, returns \<^verbatim>\<open>TRUE\<close>, and gives the width and height of the pictures
  as the standard defines them.
\<close>

theorem h264_sps_read:
  assumes "sps_ok s" and "frame_mbs_only s" and "cropping s = None"
    and "bits_of payload = sps_bits s @ rest" and "\<not> emulates payload" and "8 * length payload < 2 ^ 32"
  shows "h264_decode_sps (against_emulation 0 payload) (of_nat (length (against_emulation 0 payload))) =
    Some (Some (picture_size s))"
  using h264_sps_units[OF assms(1,4,6)] against_emulation_unneeded[of 0 payload] assms(2,3,5) by (simp add: picture_size_def)

text \<open>The other streams: with fields the height comes out half, and what is cropped is not taken off.\<close>

lemma h264_sps_fields:
  assumes "sps_ok s" and "\<not> frame_mbs_only s" and "cropping s = None"
    and "bits_of buf = sps_bits s @ rest" and "8 * length buf < 2 ^ 32"
  shows "\<exists>w h. h264_decode_sps buf (of_nat (length buf)) = Some (Some (w, h)) \<and> picture_size s = (w, 2 * h)"
  using h264_sps_units[OF assms(1,4,5)] assms(2,3) by (simp add: picture_size_def)

lemma h264_sps_cropped:
  assumes "sps_ok s" and "frame_mbs_only s" and "cropping s = Some (l, r, t, b)"
    and "bits_of buf = sps_bits s @ rest" and "8 * length buf < 2 ^ 32"
  shows "\<exists>w h. h264_decode_sps buf (of_nat (length buf)) = Some (Some (w, h)) \<and>
    picture_size s = (w - fst (crop_units s) * int (l + r), h - snd (crop_units s) * int (t + b))"
  using h264_sps_units[OF assms(1,4,5)] assms(2,3) by (simp add: picture_size_def)

definition sample_sps :: sps where
  "sample_sps = \<lparr>ref_idc = 3, profile = 100, constraints = (False, False, False, False), reserved = 0, level = 31, set_id = 0,
     high = Some \<lparr>chroma_format = 1, separate_planes = False, depth_luma = 0, depth_chroma = 0, bypass = False,
       no_scaling_lists = False\<rparr>,
     max_frame_num = 0, order_count = Cycle False (- 2) 1 [3, - 1], ref_frames = 4, gaps = False, width_in_mbs = 80,
     height_in_units = 45, frame_mbs_only = True, mb_adaptive = False, direct_8x8 = True, cropping = None\<rparr>"

definition sample_buffer :: "u8 list" where
  "sample_buffer = [0x67, 0x64, 0x00, 0x1F, 0xAC, 0xA1, 0x53, 0x33, 0x28, 0x0A, 0x00, 0xB7, 0x20]"

theorem h264_sps_read_witness:
  "h264_decode_sps sample_buffer (of_nat (length sample_buffer)) = Some (Some (1280, 720)) \<and>
   picture_size sample_sps = (1280, 720)"
proof -
  have ue:
    "ue_bits 0 = [True]"
    "ue_bits 1 = [False, True, False]"
    "ue_bits 2 = [False, True, True]"
    "ue_bits 4 = [False, False, True, False, True]"
    "ue_bits 5 = [False, False, True, True, False]"
    "ue_bits 44 = [False, False, False, False, False, True, False, True, True, False, True]"
    "ue_bits 79 = [False, False, False, False, False, False, True, False, True, False, False, False, False]"
    by (simp_all add: ue_bits_def ue_len.simps to_bits_numeral)
  have se: "se_bits (- 2) = ue_bits 4" "se_bits 1 = ue_bits 1" "se_bits 3 = ue_bits 5" "se_bits (- 1) = ue_bits 2"
    by (simp_all add: se_bits_def)
  have "sps_bits sample_sps = [False, True, True, False, False, True, True, True, False, True, True, False, False, True, False, False,
    False, False, False, False, False, False, False, False, False, False, False, True, True, True, True, True,
    True, False, True, False, True, True, False, False, True, False, True, False, False, False, False, True,
    False, True, False, True, False, False, True, True, False, False, True, True, False, False, True, True, False,
    False, True, False, True, False, False, False, False, False, False, False, True, False, True, False, False,
    False, False, False, False, False, False, False, True, False, True, True, False, True, True, True, False]"
    by (simp add: sps_bits_def sample_sps_def high_bits_def frame_bits_def se ue ue(2)[unfolded One_nat_def] ue(3)[unfolded numeral_2_eq_2] to_bits_numeral)
  then have "bits_of sample_buffer = sps_bits sample_sps @ [False, True, False, False, False, False, False]"
    by (simp add: bits_of_def byte_bits_def sample_buffer_def)
  moreover have "sps_ok sample_sps" by (simp add: sps_ok_def sample_sps_def high_ok_def se_ok_def)
  moreover have "\<not> emulates sample_buffer" by (simp add: sample_buffer_def)
  moreover have "picture_size sample_sps = (1280, 720)" by (simp add: picture_size_def sample_sps_def)
  moreover have "against_emulation 0 sample_buffer = sample_buffer" by (simp add: sample_buffer_def)
  moreover have "frame_mbs_only sample_sps" "cropping sample_sps = None" "length sample_buffer = 13"
    by (simp_all add: sample_sps_def sample_buffer_def)
  ultimately show ?thesis using h264_sps_read[of sample_sps sample_buffer "[False, True, False, False, False, False, False]"]
    by simp
qed

section \<open>Start codes\<close>

text \<open>A start code at a position, and before a unit of the type asked for.\<close>

definition header_at :: "u8 list \<Rightarrow> int \<Rightarrow> bool" where
  "header_at data i = (0 \<le> i \<and> i + 3 < int (length data) \<and> take 4 (drop (nat i) data) = [0, 0, 0, 1])"

definition unit_at :: "u8 list \<Rightarrow> int \<Rightarrow> int \<Rightarrow> bool" where
  "unit_at data type i = (header_at data i \<and> (type = - 1 \<or> uint (data ! nat (i + 4) AND 0x1F) = type))"

lemma take4: "i + 3 < length data \<Longrightarrow> take 4 (drop i data) = [data ! i, data ! (i + 1), data ! (i + 2), data ! (i + 3)]"
  by (auto simp: numeral_eq_Suc take_Suc_conv_app_nth intro!: nth_equalityI)

lemma is_es4_header_at:
  assumes "0 \<le> i" and "i + 3 < int (length data)"
  shows "is_es4_header data i = Some (header_at data i)"
proof -
  obtain k where k: "i = int k" using assms(1) nonneg_int_cases by blast
  then have len: "k + 3 < length data" using assms(2) by simp
  have at: "nat (int k + 1) = k + 1" "nat (int k + 2) = k + 2" "nat (int k + 3) = k + 3" by simp_all
  have "byte_at data (int k) = Some (data ! k)" "byte_at data (int k + 1) = Some (data ! (k + 1))"
    "byte_at data (int k + 2) = Some (data ! (k + 2))" "byte_at data (int k + 3) = Some (data ! (k + 3))"
    using len by (simp_all add: byte_at_def at)
  then show ?thesis unfolding k is_es4_header_def header_at_def using take4[OF len] len by auto
qed

lemma next_es_from_finds:
  assumes "sz = int (length data)" and "type = - 1 \<or> \<not> header_at data (sz - 4)"
  shows "0 \<le> ptr \<Longrightarrow> \<exists>r. next_es_from data sz type ptr = Some r \<and>
    (if r = - 1 then \<forall>i\<ge>ptr. \<not> unit_at data type i
     else ptr \<le> r \<and> unit_at data type r \<and> (\<forall>i. ptr \<le> i \<and> i < r \<longrightarrow> \<not> unit_at data type i))"
proof (induction "nat (sz - ptr)" arbitrary: ptr rule: less_induct)
  case less
  show ?case
  proof (cases "ptr < sz - 3")
    case False
    then show ?thesis using assms(1) by (subst next_es_from.simps) (auto simp: unit_at_def header_at_def)
  next
    case True
    have head: "is_es4_header data ptr = Some (header_at data ptr)"
      using is_es4_header_at[OF less.prems] True assms(1) by simp
    have found: "(if \<not> header_at data ptr then Some False else if type = - 1 then Some True
        else map_option (\<lambda>t. t = type) (get_es_type data (ptr + 4))) = Some (unit_at data type ptr)"
    proof (cases "header_at data ptr \<and> type \<noteq> - 1")
      case True
      then have "ptr \<noteq> sz - 4" using assms(2) by auto
      then have "ptr + 4 < int (length data)" using \<open>ptr < sz - 3\<close> assms(1) by simp
      then have "byte_at data (ptr + 4) = Some (data ! nat (ptr + 4))" using less.prems by (simp add: byte_at_def)
      then show ?thesis using True by (simp add: get_es_type_def unit_at_def)
    qed (auto simp: unit_at_def)
    have step: "next_es_from data sz type ptr =
        (if unit_at data type ptr then Some ptr else next_es_from data sz type (ptr + 1))"
      using True by (subst next_es_from.simps) (simp only: head found if_True bind.bind_lunit)
    show ?thesis
    proof (cases "unit_at data type ptr")
      case True
      then show ?thesis using step less.prems by auto
    next
      case False
      have "nat (sz - (ptr + 1)) < nat (sz - ptr)" using True by simp
      then obtain r where r: "next_es_from data sz type (ptr + 1) = Some r"
        "if r = - 1 then \<forall>i\<ge>ptr + 1. \<not> unit_at data type i
         else ptr + 1 \<le> r \<and> unit_at data type r \<and> (\<forall>i. ptr + 1 \<le> i \<and> i < r \<longrightarrow> \<not> unit_at data type i)"
        using less.hyps[of "ptr + 1"] less.prems by auto
      have "i = ptr \<or> ptr + 1 \<le> i" if "ptr \<le> i" for i using that by linarith
      then show ?thesis using r step False by (auto split: if_splits)
    qed
  qed
qed

text \<open>
  The search for a start code.  \<^verbatim>\<open>next_es_header\<close> reads only inside the buffer, unless a type is asked for and
  a start code is the last four bytes; it returns the first position behind the first start code at which a start code
  stands before a unit of that type, any unit for -1, and -1 when there is none.
\<close>

theorem next_es_header_finds:
  assumes "type = - 1 \<or> \<not> header_at data (int (length data) - 4)"
  shows "\<exists>r. next_es_header data (int (length data)) type = Some r \<and>
    (if r = - 1 then \<forall>i\<ge>3. \<not> unit_at data type i
     else 3 \<le> r \<and> unit_at data type r \<and> (\<forall>i. 3 \<le> i \<and> i < r \<longrightarrow> \<not> unit_at data type i))"
  unfolding next_es_header_def by (rule next_es_from_finds[OF refl assms]) simp

theorem next_es_header_finds_witness:
  "\<exists>r. next_es_header [0, 0, 0, 1, 0x67, 1, 0, 0, 0, 1, 0x68] (int (length [0, 0, 0, 1, 0x67, 1, 0, 0, 0, 1, (0x68 :: u8)])) 8 = Some r \<and>
    (if r = - 1 then \<forall>i\<ge>3. \<not> unit_at [0, 0, 0, 1, 0x67, 1, 0, 0, 0, 1, 0x68] 8 i
     else 3 \<le> r \<and> unit_at [0, 0, 0, 1, 0x67, 1, 0, 0, 0, 1, 0x68] 8 r \<and>
       (\<forall>i. 3 \<le> i \<and> i < r \<longrightarrow> \<not> unit_at [0, 0, 0, 1, 0x67, 1, 0, 0, 0, 1, 0x68] 8 i))"
  by (rule next_es_header_finds) (simp add: header_at_def)

text \<open>The exception: the type is read from the byte behind the buffer.\<close>

lemma next_es_header_beyond: "next_es_header [0, 0, 0, 1, 0x67, 0, 0, 0, 1] 9 8 = None"
  by (simp add: next_es_header_def next_es_from.simps is_es4_header_def get_es_type_def byte_at_def)

end
