(* ===== verification/Http_Msg.thy ===== *)
theory Http_Msg
  imports Slice "HOL-Library.List_Lexorder" "HOL-Library.Char_ord"
begin

text \<open>
  HTTP messages (\<^verbatim>\<open>http/http_msg.h\<close> and \<^verbatim>\<open>HttpMsgImpl\<close> of \<^verbatim>\<open>http/AModule_HttpSession.cpp\<close>): the maps of a message, its
  parameters from the query of the address, and its text.  A \<^verbatim>\<open>str_t\<close> is a string, or \<open>None\<close> when its pointer is
  \<^verbatim>\<open>NULL\<close>.  What the copied \<^verbatim>\<open>http/http_parser.c\<close> finds in an address is an argument.
\<close>

section \<open>Maps\<close>

text \<open>A \<^verbatim>\<open>std::map\<close> from strings to strings: its entries in the order of the keys.\<close>

type_synonym kv_map = "(string \<times> string) list"

fun kv_insert :: "string \<Rightarrow> string \<Rightarrow> kv_map \<Rightarrow> kv_map" where
  "kv_insert k v [] = [(k, v)]"
| "kv_insert k v ((a, b) # m) =
     (if k = a then (k, v) # m else if k < a then (k, v) # (a, b) # m else (a, b) # kv_insert k v m)"

definition kv_erase :: "string \<Rightarrow> kv_map \<Rightarrow> kv_map" where
  "kv_erase k m = filter (\<lambda>(a, b). a \<noteq> k) m"

text \<open>\<^verbatim>\<open>++it\<close> of the iterator at a key that is in the map.\<close>

fun kv_after :: "string \<Rightarrow> kv_map \<Rightarrow> (string \<times> string) option" where
  "kv_after k [] = None"
| "kv_after k ((a, b) # m) = (if a = k then (case m of [] \<Rightarrow> None | e # _ \<Rightarrow> Some e) else kv_after k m)"

datatype http_type = HTTP_REQUEST | HTTP_RESPONSE | HTTP_BOTH

record http_msg =
  hm_type :: http_type
  hm_flags :: u8
  http_major :: nat
  http_minor :: nat
  status_code :: nat
  http_method :: nat
  body_len :: int
  parsed_param :: bool
  kv_maps :: "int \<Rightarrow> kv_map"

definition KV_UriInfo :: int where "KV_UriInfo = 0"
definition KV_Header :: int where "KV_Header = 1"
definition KV_Param :: int where "KV_Param = 2"
definition KV_Cookie :: int where "KV_Cookie = 3"
definition KV_MaxTypes :: int where "KV_MaxTypes = 4"

definition kv_type_ok :: "int \<Rightarrow> bool" where
  "kv_type_ok type = (0 \<le> type \<and> type < KV_MaxTypes)"

definition kv_get :: "int \<Rightarrow> string \<Rightarrow> http_msg \<Rightarrow> string option" where
  "kv_get type f hm = (if kv_type_ok type then map_of (kv_maps hm type) f else None)"

definition kv_set :: "int \<Rightarrow> string option \<Rightarrow> string option \<Rightarrow> http_msg \<Rightarrow> int \<times> http_msg" where
  "kv_set type f v hm =
     (if \<not> kv_type_ok type then (- 1, hm)
      else let m = (case f of
             None \<Rightarrow> []
           | Some f \<Rightarrow> (case v of None \<Rightarrow> kv_erase f (kv_maps hm type) | Some v \<Rightarrow> kv_insert f v (kv_maps hm type)))
        in (int (length m), hm\<lparr>kv_maps := (kv_maps hm)(type := m)\<rparr>))"

definition kv_next :: "int \<Rightarrow> string option \<Rightarrow> http_msg \<Rightarrow> (string \<times> string) option" where
  "kv_next type f hm =
     (if \<not> kv_type_ok type then None
      else case f of
        None \<Rightarrow> (case kv_maps hm type of [] \<Rightarrow> None | e # _ \<Rightarrow> Some e)
      | Some f \<Rightarrow> kv_after f (kv_maps hm type))"

text \<open>\<^verbatim>\<open>_reset\<close> and \<^verbatim>\<open>http_parser_init\<close>.\<close>

definition hm_reset :: "http_msg \<Rightarrow> http_msg" where
  "hm_reset hm = \<lparr>hm_type = HTTP_BOTH, hm_flags = 0, http_major = 0, http_minor = 0, status_code = 0, http_method = 0,
     body_len = 0, parsed_param = False, kv_maps = (\<lambda>type. [])\<rparr>"

definition uri_key :: "bool \<Rightarrow> string" where
  "uri_key raw = (if raw then ''1'' else ''0'')"

definition uri_set :: "string option \<Rightarrow> bool \<Rightarrow> http_msg \<Rightarrow> http_msg" where
  "uri_set v raw hm = snd (kv_set KV_UriInfo (Some (uri_key raw)) v hm)"

definition uri_get :: "bool \<Rightarrow> http_msg \<Rightarrow> string option" where
  "uri_get raw hm = kv_get KV_UriInfo (uri_key raw) hm"

definition header_set :: "string \<Rightarrow> string option \<Rightarrow> http_msg \<Rightarrow> http_msg" where
  "header_set f v hm = snd (kv_set KV_Header (Some f) v hm)"

definition param_set :: "string \<Rightarrow> string option \<Rightarrow> http_msg \<Rightarrow> http_msg" where
  "param_set f v hm = snd (kv_set KV_Param (Some f) v hm)"

section \<open>The address\<close>

text \<open>\<^verbatim>\<open>strnchr\<close> of \<^verbatim>\<open>base/str_util.h\<close>: a position, or \<open>None\<close>.\<close>

fun strnchr :: "string \<Rightarrow> char \<Rightarrow> nat option" where
  "strnchr [] c = None"
| "strnchr (x # s) c = (if x = CHR 0x00 then None else if x = c then Some 0 else map_option Suc (strnchr s c))"

lemma strnchr_less: "strnchr s c = Some i \<Longrightarrow> i < length s"
  by (induction s arbitrary: i) (auto split: if_splits)

function url_params :: "string \<Rightarrow> http_msg \<Rightarrow> http_msg" where
  "url_params f hm =
     (if f = [] then hm
      else case strnchr f CHR ''&'' of
        None \<Rightarrow> param_set f None hm
      | Some i \<Rightarrow>
          (let part = take i f;
               hm = (case strnchr part CHR ''='' of
                 None \<Rightarrow> param_set part None hm
               | Some j \<Rightarrow> param_set (take j part) (Some (drop (j + 1) part)) hm)
           in url_params (drop (i + 1) f) hm))"
  by auto

termination
  by (relation "measure (\<lambda>(f, hm). length f)") (auto dest: strnchr_less)

declare url_params.simps [simp del]

text \<open>The fields of an address that the parser found.\<close>

record url_fields =
  schema :: "string option"
  host :: "string option"
  port :: "string option"
  path :: "string option"
  query :: "string option"

definition set_field :: "string \<Rightarrow> string option \<Rightarrow> http_msg \<Rightarrow> http_msg" where
  "set_field k v hm = (case v of None \<Rightarrow> hm | Some v \<Rightarrow> snd (kv_set KV_UriInfo (Some k) (Some v) hm))"

definition url_parse :: "url_fields option \<Rightarrow> http_msg \<Rightarrow> http_msg" where
  "url_parse found hm =
     (case found of
        None \<Rightarrow> hm
      | Some u \<Rightarrow>
          (let hm = set_field ''Schema'' (schema u) hm;
               hm = set_field ''Host'' (host u) hm;
               hm = set_field ''Port'' (port u) hm;
               hm = set_field (uri_key False) (path u) hm
           in case query u of None \<Rightarrow> hm | Some f \<Rightarrow> url_params f hm))"

text \<open>The parameters are taken from the address when they are first counted.\<close>

definition kv_num :: "int \<Rightarrow> url_fields option \<Rightarrow> http_msg \<Rightarrow> int \<times> http_msg" where
  "kv_num type found hm =
     (if \<not> kv_type_ok type then (- 1, hm)
      else let hm = (if type = KV_Param \<and> \<not> parsed_param hm then (url_parse found hm)\<lparr>parsed_param := True\<rparr> else hm)
        in (int (length (kv_maps hm type)), hm))"

section \<open>Text\<close>

definition F_CHUNKED :: u8 where "F_CHUNKED = 1"
definition F_CONNECTION_KEEP_ALIVE :: u8 where "F_CONNECTION_KEEP_ALIVE = 2"
definition F_CONNECTION_CLOSE :: u8 where "F_CONNECTION_CLOSE = 4"
definition F_TRAILING :: u8 where "F_TRAILING = 16"
definition F_CONTENTLENGTH :: u8 where "F_CONTENTLENGTH = 128"

definition http_methods :: "string list" where
  "http_methods = [''DELETE'', ''GET'', ''HEAD'', ''POST'', ''PUT'', ''CONNECT'', ''OPTIONS'', ''TRACE'', ''COPY'', ''LOCK'',
     ''MKCOL'', ''MOVE'', ''PROPFIND'', ''PROPPATCH'', ''SEARCH'', ''UNLOCK'', ''BIND'', ''REBIND'', ''UNBIND'', ''ACL'',
     ''REPORT'', ''MKACTIVITY'', ''CHECKOUT'', ''MERGE'', ''M-SEARCH'', ''NOTIFY'', ''SUBSCRIBE'', ''UNSUBSCRIBE'', ''PATCH'',
     ''PURGE'', ''MKCALENDAR'', ''LINK'', ''UNLINK'']"

definition http_method_str :: "nat \<Rightarrow> string" where
  "http_method_str m = (if m < length http_methods then http_methods ! m else ''<unknown>'')"

text \<open>Numbers of \<^verbatim>\<open>printf\<close>.\<close>

definition digit :: "nat \<Rightarrow> char" where
  "digit d = char_of (if d < 10 then 48 + d else 87 + d)"

fun digits :: "nat \<Rightarrow> nat \<Rightarrow> string" where
  "digits b n = (if n < b \<or> b < 2 then [digit n] else digits b (n div b) @ [digit (n mod b)])"

declare digits.simps [simp del]

definition decimal :: "nat \<Rightarrow> string" where "decimal n = digits 10 n"
definition hexadecimal :: "nat \<Rightarrow> string" where "hexadecimal n = digits 16 n"

definition signed_decimal :: "int \<Rightarrow> string" where
  "signed_decimal i = (if i < 0 then ''-'' @ decimal (nat (- i)) else decimal (nat i))"

text \<open>\<^verbatim>\<open>%.*s\<close>, and the end of a line.\<close>

definition c_part :: "string \<Rightarrow> string" where
  "c_part s = takeWhile (\<lambda>c. c \<noteq> CHR 0x00) s"

definition crlf :: string where "crlf = [CHR 0x0D, CHR 0x0A]"

text \<open>
  \<^verbatim>\<open>strfmt\<close> of \<^verbatim>\<open>base/buf_util.h\<close>, for a formatted text: \<^verbatim>\<open>vsnprintf\<close> stores what fits with a zero behind it and returns
  the length of the whole text, by which the end is moved.  A negative size is a huge one.
\<close>

definition slice_strfmt :: "string \<Rightarrow> char slice \<Rightarrow> (int \<times> char slice) option" where
  "slice_strfmt txt b =
     (if fin b < 0 \<or> slice_left b < 0 then None
      else do {
        let w = (if slice_left b = 0 then [] else take (nat (slice_left b) - 1) txt @ [CHR 0x00]);
        m \<leftarrow> copy_in (cells b) (nat (fin b)) (map Some w);
        Some (int (length txt), slice_push (int (length txt)) (b\<lparr>cells := m\<rparr>))
      })"

definition put :: "string \<Rightarrow> char slice \<Rightarrow> char slice option" where
  "put txt b = map_option snd (slice_strfmt txt b)"

text \<open>The two loops over the headers.\<close>

partial_function (option) header_size :: "http_msg \<Rightarrow> string option \<Rightarrow> int \<Rightarrow> int option" where
  "header_size hm f result =
     (case kv_next KV_Header f hm of
        None \<Rightarrow> Some result
      | Some e \<Rightarrow> header_size hm (Some (fst e)) (result + int (length (fst e)) + int (length (snd e)) + 6))"

partial_function (option) put_headers :: "http_msg \<Rightarrow> string option \<Rightarrow> char slice \<Rightarrow> char slice option" where
  "put_headers hm f buf =
     (case kv_next KV_Header f hm of
        None \<Rightarrow> Some buf
      | Some e \<Rightarrow> do {
          buf \<leftarrow> put (c_part (fst e) @ '': '' @ c_part (snd e) @ crlf) buf;
          put_headers hm (Some (fst e)) buf
        })"

definition send_bufsiz :: int where "send_bufsiz = 2 * 1024"

definition first_line :: "http_msg \<Rightarrow> string" where
  "first_line hm =
     (let v = c_part (case uri_get True hm of None \<Rightarrow> [] | Some v \<Rightarrow> v);
          version = ''HTTP/'' @ decimal (http_major hm) @ ''.'' @ decimal (http_minor hm)
      in case hm_type hm of
        HTTP_REQUEST \<Rightarrow> http_method_str (http_method hm) @ '' '' @ v @ '' '' @ version @ crlf
      | HTTP_RESPONSE \<Rightarrow> version @ '' '' @ decimal (status_code hm) @ '' '' @ v @ crlf
      | HTTP_BOTH \<Rightarrow> v @ crlf)"

text \<open>The size of a chunk is cut to 32 bits.\<close>

definition chunk_size :: "http_msg \<Rightarrow> nat" where
  "chunk_size hm = nat (body_len hm mod 2 ^ 32)"

definition hm_encode_chunk :: "bool \<Rightarrow> http_msg \<Rightarrow> char slice option \<Rightarrow> (int \<times> char slice option) option" where
  "hm_encode_chunk alloc hm buf = do {
     (result, buf, old) \<leftarrow> slice_reserve alloc buf 32 send_bufsiz;
     if result < 0 then Some (result, buf)
     else do {
       b \<leftarrow> buf;
       (result, b) \<leftarrow> slice_strfmt (if body_len hm \<noteq> 0 then crlf @ hexadecimal (chunk_size hm) @ crlf
         else crlf @ ''0'' @ crlf @ crlf) b;
       Some (result, Some b)
     }
   }"

definition uri_length :: "http_msg \<Rightarrow> int" where
  "uri_length hm = (case uri_get True hm of None \<Rightarrow> 0 | Some v \<Rightarrow> int (length v))"

definition hm_encode :: "bool \<Rightarrow> http_msg \<Rightarrow> char slice option \<Rightarrow> (int \<times> char slice option) option" where
  "hm_encode alloc hm buf =
     (if hm_flags hm AND (F_CHUNKED OR F_TRAILING) \<noteq> 0 then hm_encode_chunk alloc hm buf
      else do {
        result \<leftarrow> header_size hm None (50 + uri_length hm);
        let result = (if body_len hm > 0 then result + 32 else result);
        (result, buf, old) \<leftarrow> slice_reserve alloc buf result send_bufsiz;
        if result < 0 then Some (result, buf)
        else do {
          b \<leftarrow> buf;
          b \<leftarrow> put (first_line hm) b;
          b \<leftarrow> put_headers hm None b;
          b \<leftarrow> (if hm_flags hm AND F_CONNECTION_KEEP_ALIVE \<noteq> 0 then put (''Connection: Keep-Alive'' @ crlf) b
            else if hm_flags hm AND F_CONNECTION_CLOSE \<noteq> 0 then put (''Connection: Close'' @ crlf) b
            else Some b);
          b \<leftarrow> (if hm_flags hm AND F_CHUNKED \<noteq> 0
            then do {
              b \<leftarrow> put (''Transfer-Encoding: chunked'' @ crlf) b;
              if body_len hm \<noteq> 0 then put (crlf @ hexadecimal (chunk_size hm) @ crlf) b else Some b
            }
            else if body_len hm = 0 \<and> hm_flags hm AND F_CONTENTLENGTH = 0 then put crlf b
            else put (''Content-Length: '' @ signed_decimal (body_len hm) @ crlf @ crlf) b);
          Some (slice_len b, Some b)
        }
      })"

section \<open>Probing\<close>

text \<open>\<^verbatim>\<open>HttpProbe\<close>, for the bytes that have arrived.\<close>

fun probe_methods :: "string list \<Rightarrow> string \<Rightarrow> int" where
  "probe_methods [] data = 0"
| "probe_methods (m # ms) data =
     (if length data > length m \<and> data ! length m = CHR '' '' \<and> take (length m) data = m then 60
      else probe_methods ms data)"

definition HttpProbe :: "string option \<Rightarrow> int" where
  "HttpProbe msg = (case msg of None \<Rightarrow> - 1 | Some data \<Rightarrow> if length data < 4 then - 1 else probe_methods http_methods data)"

end
