(* ===== verification/Http_Text.thy ===== *)
theory Http_Text
  imports Http_Msg
begin

text \<open>
  What the maps of a message hold, which parameters are found in a query, and the text that is written.
\<close>

section \<open>Maps\<close>

definition kv_ok :: "kv_map \<Rightarrow> bool" where
  "kv_ok m = sorted_wrt (<) (map fst m)"

lemma kv_ok_simps [simp]:
  "kv_ok []" "kv_ok ((a, b) # m) = ((\<forall>k\<in>fst ` set m. a < k) \<and> kv_ok m)"
  by (simp_all add: kv_ok_def)

lemma kv_insert_keys: "fst ` set (kv_insert k v m) = insert k (fst ` set m)"
  by (induction k v m rule: kv_insert.induct) auto

lemma kv_insert_ok: "kv_ok m \<Longrightarrow> kv_ok (kv_insert k v m)"
  by (induction k v m rule: kv_insert.induct) (auto simp: kv_insert_keys neq_iff)

lemma map_of_kv_insert: "kv_ok m \<Longrightarrow> map_of (kv_insert k v m) = (map_of m)(k \<mapsto> v)"
  by (induction k v m rule: kv_insert.induct) (auto simp: fun_eq_iff)

lemma kv_erase_ok: "kv_ok m \<Longrightarrow> kv_ok (kv_erase k m)"
  unfolding kv_ok_def kv_erase_def by (induction m) auto

lemma map_of_kv_erase: "map_of (kv_erase k m) = (map_of m)(k := None)"
  by (induction m) (auto simp: kv_erase_def fun_eq_iff)

lemma kv_after_split: "kv_ok (xs @ (k, v) # ys) \<Longrightarrow> kv_after k (xs @ (k, v) # ys) = (case ys of [] \<Rightarrow> None | e # _ \<Rightarrow> Some e)"
  by (induction xs) auto

lemma kv_ok_length: "kv_ok m \<Longrightarrow> length m = card (dom (map_of m))"
proof -
  assume "kv_ok m"
  then have "distinct (map fst m)" unfolding kv_ok_def by (induction m) (auto simp: image_iff)
  then show ?thesis by (metis distinct_card dom_map_of_conv_image_fst length_map set_map)
qed

definition hm_ok :: "http_msg \<Rightarrow> bool" where
  "hm_ok hm = (\<forall>type. kv_ok (kv_maps hm type))"

lemma kv_set_ok: "hm_ok hm \<Longrightarrow> hm_ok (snd (kv_set type f v hm))"
  by (auto simp: hm_ok_def kv_set_def Let_def kv_insert_ok kv_erase_ok split: option.splits)

lemma kv_set_maps:
  assumes "hm_ok hm" and "kv_type_ok type"
  shows "map_of (kv_maps (snd (kv_set type (Some f) v hm)) type) = (map_of (kv_maps hm type))(f := v)"
    and "t \<noteq> type \<Longrightarrow> kv_maps (snd (kv_set type f' v hm)) t = kv_maps hm t"
  using assms by (cases v) (simp_all add: hm_ok_def kv_set_def map_of_kv_insert map_of_kv_erase Let_def)

lemma kv_types [simp]: "kv_type_ok KV_UriInfo" "kv_type_ok KV_Header" "kv_type_ok KV_Param" "KV_Param \<noteq> KV_UriInfo"
  "KV_Header \<noteq> KV_UriInfo"
  by (simp_all add: kv_type_ok_def KV_UriInfo_def KV_Header_def KV_Param_def KV_MaxTypes_def)

lemma kv_get_set:
  assumes "hm_ok hm" and "kv_type_ok type"
  shows "kv_get t g (snd (kv_set type (Some f) v hm)) = (if t = type \<and> g = f then v else kv_get t g hm)"
  using kv_set_maps(1)[OF assms, of f v] kv_set_maps(2)[OF assms, of t "Some f" v] assms(2) by (cases "t = type") (auto simp: kv_get_def)

lemma param_set_map:
  assumes "hm_ok hm"
  shows "hm_ok (param_set f v hm)" and "map_of (kv_maps (param_set f v hm) KV_Param) = (map_of (kv_maps hm KV_Param))(f := v)"
  using assms kv_set_ok[OF assms] kv_set_maps[OF assms] by (simp_all add: param_set_def)

text \<open>The entries that \<^verbatim>\<open>_kv_next\<close> gives, from one on.\<close>

partial_function (option) kv_walk :: "int \<Rightarrow> string option \<Rightarrow> http_msg \<Rightarrow> kv_map option" where
  "kv_walk type f hm =
     (case kv_next type f hm of
        None \<Rightarrow> Some []
      | Some e \<Rightarrow> do { m \<leftarrow> kv_walk type (Some (fst e)) hm; Some (e # m) })"

lemma kv_walk_split:
  assumes ok: "kv_ok (kv_maps hm type)" and t: "kv_type_ok type"
  shows "kv_maps hm type = xs @ (k, v) # ys \<Longrightarrow> kv_walk type (Some k) hm = Some ys"
proof (induction ys arbitrary: xs k v)
  case Nil
  then have "kv_next type (Some k) hm = None" using kv_after_split[of xs k v "[]"] ok t by (simp add: kv_next_def)
  then show ?case by (subst kv_walk.simps) simp
next
  case (Cons e ys)
  obtain a b where e: "e = (a, b)" by fastforce
  have "kv_next type (Some k) hm = Some e" using kv_after_split[of xs k v "e # ys"] ok t Cons.prems by (simp add: kv_next_def)
  moreover have "kv_walk type (Some a) hm = Some ys" using Cons.IH[of "xs @ [(k, v)]" a b] Cons.prems e by simp
  ultimately show ?case using e by (subst kv_walk.simps) simp
qed

lemma kv_walk_all:
  assumes ok: "kv_ok (kv_maps hm type)" and t: "kv_type_ok type"
  shows "kv_walk type None hm = Some (kv_maps hm type)"
proof (cases "kv_maps hm type")
  case Nil
  then have "kv_next type None hm = None" by (simp add: kv_next_def)
  then show ?thesis using Nil by (subst kv_walk.simps) simp
next
  case (Cons e ys)
  obtain a b where e: "e = (a, b)" by fastforce
  have "kv_next type None hm = Some e" using Cons t by (simp add: kv_next_def)
  moreover have "kv_walk type (Some a) hm = Some ys" using kv_walk_split[OF ok t, of "[]" a b ys] Cons e by simp
  ultimately show ?thesis using e Cons by (subst kv_walk.simps) simp
qed

section \<open>Parameters\<close>

definition plain :: "char set \<Rightarrow> string \<Rightarrow> bool" where
  "plain special s = (set s \<inter> insert (CHR 0x00) special = {})"

lemma strnchr_found: "plain {c} s \<Longrightarrow> c \<noteq> CHR 0x00 \<Longrightarrow> strnchr (s @ c # t) c = Some (length s)"
  by (induction s) (auto simp: plain_def)

lemma strnchr_none: "c \<notin> set s \<Longrightarrow> strnchr s c = None"
  by (induction s) auto

definition query_text :: "(string \<times> string) list \<Rightarrow> string \<Rightarrow> string" where
  "query_text ps rest = concat (map (\<lambda>(f, v). f @ ''='' @ v @ ''&'') ps) @ rest"

lemma url_params_step:
  assumes "plain {CHR ''='', CHR ''&''} f" and "plain {CHR ''&''} v"
  shows "url_params (f @ ''='' @ v @ ''&'' @ tail) hm = url_params tail (param_set f (Some v) hm)"
proof -
  let ?part = "f @ CHR ''='' # v"
  have "plain {CHR ''&''} ?part" using assms by (auto simp: plain_def)
  then have amp: "strnchr (f @ ''='' @ v @ ''&'' @ tail) CHR ''&'' = Some (length ?part)"
    using strnchr_found[of "CHR ''&''" ?part tail] by simp
  have eq: "strnchr ?part CHR ''='' = Some (length f)"
    using strnchr_found[of "CHR ''=''" f v] assms(1) by (auto simp: plain_def)
  show ?thesis by (subst url_params.simps) (simp only: amp option.case Let_def, simp add: eq)
qed

lemma url_params_query:
  assumes "CHR ''&'' \<notin> set rest"
  shows "list_all (\<lambda>(f, v). plain {CHR ''='', CHR ''&''} f \<and> plain {CHR ''&''} v) ps \<Longrightarrow>
    url_params (query_text ps rest) hm =
      (let hm = foldl (\<lambda>hm (f, v). param_set f (Some v) hm) hm ps in if rest = [] then hm else param_set rest None hm)"
proof (induction ps arbitrary: hm)
  case Nil
  then show ?case using strnchr_none[OF assms] by (subst url_params.simps) (simp add: query_text_def)
next
  case (Cons p ps)
  obtain f v where p: "p = (f, v)" by fastforce
  have "query_text (p # ps) rest = f @ ''='' @ v @ ''&'' @ query_text ps rest" by (simp add: query_text_def p)
  then show ?case using url_params_step[of f v "query_text ps rest" hm] Cons by (simp add: p)
qed

lemma foldl_params:
  "hm_ok hm \<Longrightarrow> hm_ok (foldl (\<lambda>hm (f, v). param_set f (Some v) hm) hm ps) \<and>
   map_of (kv_maps (foldl (\<lambda>hm (f, v). param_set f (Some v) hm) hm ps) KV_Param) = map_of (kv_maps hm KV_Param) ++ map_of (rev ps)"
proof (induction ps arbitrary: hm)
  case (Cons p ps)
  then show ?case using param_set_map[of hm "fst p" "Some (snd p)"] by (cases p) (auto simp: fun_eq_iff map_add_def split: option.splits)
qed simp



section \<open>Text\<close>

text \<open>A text was added to a buffer.\<close>

definition added :: "char slice \<Rightarrow> string \<Rightarrow> char slice \<Rightarrow> bool" where
  "added b txt b' = (slice_ok b' \<and> slice_items b' = slice_items b @ txt \<and> slice_left b' = slice_left b - int (length txt) \<and>
     bgn b' = bgn b)"

lemma added_trans: "added b s c \<Longrightarrow> added c t d \<Longrightarrow> added b (s @ t) d"
  by (simp add: added_def)

lemma added_none: "slice_ok b \<Longrightarrow> added b [] b"
  by (simp add: added_def)

lemma put_added:
  assumes ok: "slice_ok b" and room: "int (length txt) < slice_left b"
  obtains b' where "slice_strfmt txt b = Some (int (length txt), b')" and "put txt b = Some b'" and "added b txt b'"
proof -
  let ?w = "txt @ [CHR 0x00]"
  have "int (length ?w) \<le> slice_left b" using room by simp
  then obtain p where p: "slice_mempush (map Some ?w) b = Some p" "slice_ok p" "slice_items p = slice_items b @ ?w"
    "slice_len p = slice_len b + int (length ?w)" "slice_left p = slice_left b - int (length ?w)" "bgn p = bgn b"
    using slice_mempush_items[OF ok] by metis
  let ?b = "slice_push (- 1) p"
  have fin: "0 \<le> fin b" using ok by (auto simp: slice_ok_def)
  have "take (nat (slice_left b) - 1) txt = txt" using room by simp
  then have fmt: "slice_strfmt txt b = Some (int (length txt), ?b)"
    using p(1) fin room slice_bounds(2)[OF ok]
    by (auto simp: slice_strfmt_def slice_mempush_def slice_push_def split: bind_splits)
  have len: "slice_len ?b = slice_len p - 1" "nat (slice_len p) = Suc (nat (slice_len ?b))"
    using p(4) slice_bounds(1)[OF ok] by (simp_all add: slice_push_def slice_len_def)
  have "slice_items ?b = butlast (slice_items p)"
    using len slice_bounds[OF p(2)] by (simp add: slice_items_def slice_push_def butlast_conv_take take_map)
  moreover have "slice_ok ?b" using p(2,4) slice_bounds(1)[OF ok] by (auto simp: slice_ok_def slice_push_def slice_len_def)
  ultimately have "added b txt ?b" using p(3,5,6) by (simp add: added_def slice_push_def slice_left_def butlast_append)
  then show thesis using that fmt by (simp add: put_def)
qed

text \<open>The loops over the headers.\<close>

definition header_line :: "string \<times> string \<Rightarrow> string" where
  "header_line e = c_part (fst e) @ '': '' @ c_part (snd e) @ crlf"

definition headers_size :: "kv_map \<Rightarrow> int" where
  "headers_size m = sum_list (map (\<lambda>e. int (length (fst e)) + int (length (snd e)) + 6) m)"

lemma length_c_part: "length (c_part s) \<le> length s"
  by (simp add: c_part_def length_takeWhile_le)

lemma length_crlf [simp]: "length crlf = 2"
  by (simp add: crlf_def)

lemma length_header_lines: "int (length (concat (map header_line m))) \<le> headers_size m"
proof (induction m)
  case (Cons e m)
  then show ?case using length_c_part[of "fst e"] length_c_part[of "snd e"] by (simp add: headers_size_def header_line_def)
qed (simp add: headers_size_def)

lemma next_header:
  assumes "kv_ok (kv_maps hm KV_Header)" and "kv_maps hm KV_Header = xs @ ys"
  shows "kv_next KV_Header (if xs = [] then None else Some (fst (last xs))) hm = (case ys of [] \<Rightarrow> None | e # _ \<Rightarrow> Some e)"
proof (cases xs rule: rev_cases)
  case Nil
  then show ?thesis using assms(2) by (simp add: kv_next_def)
next
  case (snoc zs e)
  obtain k v where "e = (k, v)" by fastforce
  then show ?thesis using kv_after_split[of zs k v ys] assms snoc by (simp add: kv_next_def)
qed

lemma header_size_walk:
  assumes "kv_ok (kv_maps hm KV_Header)"
  shows "kv_maps hm KV_Header = xs @ ys \<Longrightarrow>
    header_size hm (if xs = [] then None else Some (fst (last xs))) n = Some (n + headers_size ys)"
proof (induction ys arbitrary: xs n)
  case Nil
  then show ?case using next_header[OF assms, of xs "[]"] by (subst header_size.simps) (simp add: headers_size_def)
next
  case (Cons e ys)
  have "header_size hm (Some (fst e)) k = Some (k + headers_size ys)" for k using Cons.IH[of "xs @ [e]" k] Cons.prems by simp
  then show ?case using next_header[OF assms Cons.prems] by (subst header_size.simps) (simp add: headers_size_def)
qed

lemma put_headers_walk:
  assumes "kv_ok (kv_maps hm KV_Header)"
  shows "kv_maps hm KV_Header = xs @ ys \<Longrightarrow> slice_ok b \<Longrightarrow> int (length (concat (map header_line ys))) < slice_left b \<Longrightarrow>
    \<exists>b'. put_headers hm (if xs = [] then None else Some (fst (last xs))) b = Some b' \<and> added b (concat (map header_line ys)) b'"
proof (induction ys arbitrary: xs b)
  case Nil
  then show ?case using next_header[OF assms, of xs "[]"] by (subst put_headers.simps) (simp add: added_none)
next
  case (Cons e ys)
  have "int (length (header_line e)) < slice_left b" using Cons.prems(3) by simp
  then obtain c where c: "put (header_line e) b = Some c" "added b (header_line e) c" using put_added[OF Cons.prems(2)] by metis
  then have "slice_ok c" "slice_left c = slice_left b - int (length (header_line e))" by (simp_all add: added_def)
  then obtain d where d: "put_headers hm (Some (fst e)) c = Some d" "added c (concat (map header_line ys)) d"
    using Cons.IH[of "xs @ [e]" c] Cons.prems by auto
  show ?case using next_header[OF assms Cons.prems(1)] c(1) d(1) added_trans[OF c(2) d(2)]
    by (subst put_headers.simps) (simp add: header_line_def)
qed

section \<open>Messages\<close>

lemma length_digits: "2 \<le> b \<Longrightarrow> n < b ^ k \<Longrightarrow> 0 < k \<Longrightarrow> length (digits b n) \<le> k"
proof (induction k arbitrary: n)
  case (Suc k)
  show ?case
  proof (cases "n < b")
    case True
    then show ?thesis by (subst digits.simps) simp
  next
    case False
    then have "k \<noteq> 0" using Suc.prems by (intro notI) simp
    moreover have "n div b < b ^ k" using Suc.prems by (simp add: less_mult_imp_div_less mult.commute)
    ultimately show ?thesis using Suc.IH[of "n div b"] Suc.prems(1) False by (subst digits.simps) simp
  qed
qed simp

definition connection_line :: "http_msg \<Rightarrow> string" where
  "connection_line hm =
     (if hm_flags hm AND F_CONNECTION_KEEP_ALIVE \<noteq> 0 then ''Connection: Keep-Alive'' @ crlf
      else if hm_flags hm AND F_CONNECTION_CLOSE \<noteq> 0 then ''Connection: Close'' @ crlf else [])"

text \<open>The start line of a request, of a response, and of a message of neither kind.\<close>

definition start_line :: "http_msg \<Rightarrow> string" where
  "start_line hm =
     (let address = (case uri_get True hm of None \<Rightarrow> [] | Some v \<Rightarrow> c_part v) in
      case hm_type hm of
        HTTP_REQUEST \<Rightarrow> concat [http_method_str (http_method hm), '' '', address, '' HTTP/'', decimal (http_major hm), ''.'', decimal (http_minor hm), crlf]
      | HTTP_RESPONSE \<Rightarrow> concat [''HTTP/'', decimal (http_major hm), ''.'', decimal (http_minor hm), '' '', decimal (status_code hm), '' '', address, crlf]
      | HTTP_BOTH \<Rightarrow> address @ crlf)"

lemma start_line_first: "start_line hm = first_line hm"
  by (cases "hm_type hm"; cases "uri_get True hm") (simp_all add: start_line_def first_line_def Let_def c_part_def)

definition http_text :: "http_msg \<Rightarrow> string" where
  "http_text hm = start_line hm @ concat (map header_line (kv_maps hm KV_Header)) @ connection_line hm @
     (if body_len hm = 0 then crlf else ''Content-Length: '' @ decimal (nat (body_len hm)) @ crlf @ crlf)"

text \<open>
  A message that is no chunk, with sorted maps, versions of one digit, a status of at most three, a body of less than
  \<open>10 ^ 10\<close> bytes, and \<^verbatim>\<open>F_CONTENTLENGTH\<close> only if there is a body.
\<close>

definition common_msg :: "http_msg \<Rightarrow> bool" where
  "common_msg hm = (hm_ok hm \<and> hm_flags hm AND (F_CHUNKED OR F_TRAILING) = 0 \<and> http_major hm < 10 \<and> http_minor hm < 10 \<and>
     status_code hm < 1000 \<and> 0 \<le> body_len hm \<and> body_len hm < 10 ^ 10 \<and>
     (body_len hm = 0 \<longrightarrow> hm_flags hm AND F_CONTENTLENGTH = 0))"

lemma length_method: "length (http_method_str m) \<le> 11"
proof (cases "m < length http_methods")
  case True
  have "list_all (\<lambda>s. length s \<le> 11) http_methods" by (simp add: http_methods_def)
  then show ?thesis using True by (simp add: http_method_str_def list_all_length)
qed (simp add: http_method_str_def)

lemma length_first_line:
  assumes "common_msg hm"
  shows "int (length (first_line hm)) \<le> 23 + uri_length hm"
proof -
  have one: "length (decimal (http_major hm)) \<le> 1" "length (decimal (http_minor hm)) \<le> 1" "length (decimal (status_code hm)) \<le> 3"
    using length_digits[of 10 _ 1] length_digits[of 10 _ 3] assms by (simp_all add: decimal_def common_msg_def)
  have "int (length (c_part (case uri_get True hm of None \<Rightarrow> [] | Some v \<Rightarrow> v))) \<le> uri_length hm"
    using length_c_part by (auto simp: uri_length_def c_part_def split: option.splits)
  then show ?thesis using one length_method[of "http_method hm"]
    unfolding first_line_def Let_def by (cases "hm_type hm") (simp_all only: http_type.case length_append, simp_all)
qed

lemma reserve_fresh:
  fixes buf :: "'a slice option"
  assumes "case buf of None \<Rightarrow> True | Some b \<Rightarrow> slice_ok b" and "0 \<le> need"
  shows "\<exists>r b' old. slice_reserve alloc buf need whole = Some (r, b', old) \<and>
    (r < 0 \<longrightarrow> r = - ENOMEM \<and> b' = buf \<and> \<not> alloc) \<and>
    (0 \<le> r \<longrightarrow> (\<exists>b. b' = Some b \<and> slice_ok b \<and> need \<le> slice_left b \<and>
      slice_items b = (case buf of None \<Rightarrow> [] | Some b \<Rightarrow> slice_items b)))"
proof (cases buf)
  case None
  obtain n where n: "n = max need whole" by blast
  then have room: "0 \<le> n" "need \<le> n" using assms(2) by auto
  obtain s0 :: "'a slice" where s0: "s0 = slice_init n (fresh (nat n))" by blast
  note new = slice_create_ok[OF room(1) s0]
  show ?thesis
  proof (cases alloc)
    case True
    then have "slice_reserve alloc buf need whole = Some (1, Some s0, None)"
      using None by (simp add: slice_reserve_def slice_create_def n s0)
    moreover have "need \<le> slice_left s0" using new(4) room(2) by simp
    ultimately show ?thesis using None new(1,2) by simp
  next
    case False
    then show ?thesis using None by (simp add: slice_reserve_def slice_create_def ENOMEM_def)
  qed
next
  case (Some s)
  then obtain r s' old where "slice_reserve alloc (Some s) need whole = Some (r, Some s', old)" "slice_ok s'"
    "slice_items s' = slice_items s" "if r < 0 then r = - ENOMEM \<and> s' = s \<and> old = None \<and> \<not> alloc
     else need \<le> slice_left s' \<and> (if r = 0 then s' = s \<and> old = None else old = Some (s\<lparr>refs := refs s - 1\<rparr>) \<and> refs s' = 1)"
    using slice_reserve_ok[of s need alloc whole] assms by auto
  then show ?thesis using Some by (cases "r < 0") auto
qed

text \<open>The space that is computed, and that the lines fit into it.\<close>

definition space_needed :: "http_msg \<Rightarrow> int" where
  "space_needed hm = 50 + uri_length hm + headers_size (kv_maps hm KV_Header) + (if body_len hm > 0 then 32 else 0)"

definition last_lines :: "http_msg \<Rightarrow> string" where
  "last_lines hm = (if body_len hm = 0 then crlf else ''Content-Length: '' @ decimal (nat (body_len hm)) @ crlf @ crlf)"

lemma http_text_length:
  assumes "common_msg hm"
  shows "int (length (http_text hm)) < space_needed hm" and "0 \<le> space_needed hm"
    and "http_text hm = first_line hm @ concat (map header_line (kv_maps hm KV_Header)) @ connection_line hm @ last_lines hm"
proof -
  have one: "int (length (first_line hm)) \<le> 23 + uri_length hm" by (rule length_first_line[OF assms])
  note two = length_header_lines[of "kv_maps hm KV_Header"]
  have three: "length (connection_line hm) \<le> 24" by (simp add: connection_line_def)
  have body: "0 \<le> body_len hm" "nat (body_len hm) < 10 ^ 10" using assms by (auto simp: common_msg_def)
  then have "length (decimal (nat (body_len hm))) \<le> 10" using length_digits[of 10 _ 10] by (simp add: decimal_def)
  then have four: "int (length (last_lines hm)) \<le> (if body_len hm > 0 then 30 else 2)" using body(1) by (simp add: last_lines_def)
  show whole: "http_text hm = first_line hm @ concat (map header_line (kv_maps hm KV_Header)) @ connection_line hm @ last_lines hm"
    by (simp add: http_text_def last_lines_def start_line_first)
  show "int (length (http_text hm)) < space_needed hm"
    unfolding whole length_append of_nat_add space_needed_def using one two three four by (simp split: if_splits)
  then show "0 \<le> space_needed hm" by linarith
qed

lemma put_lines:
  assumes msg: "common_msg hm" and ok: "slice_ok b" and room: "int (length (http_text hm)) < slice_left b"
  shows "\<exists>b1 b2 b3 b4. put (first_line hm) b = Some b1 \<and> put_headers hm None b1 = Some b2 \<and>
    (if hm_flags hm AND F_CONNECTION_KEEP_ALIVE \<noteq> 0 then put (''Connection: Keep-Alive'' @ crlf) b2
     else if hm_flags hm AND F_CONNECTION_CLOSE \<noteq> 0 then put (''Connection: Close'' @ crlf) b2 else Some b2) = Some b3 \<and>
    (if body_len hm = 0 \<and> hm_flags hm AND F_CONTENTLENGTH = 0 then put crlf b3
     else put (''Content-Length: '' @ signed_decimal (body_len hm) @ crlf @ crlf) b3) = Some b4 \<and> added b (http_text hm) b4"
proof -
  let ?m = "kv_maps hm KV_Header"
  note room = room[unfolded http_text_length(3)[OF msg] length_append of_nat_add]
  have m: "kv_ok ?m" "0 \<le> body_len hm" "body_len hm = 0 \<Longrightarrow> hm_flags hm AND F_CONTENTLENGTH = 0"
    using msg by (auto simp: common_msg_def hm_ok_def)
  have lefts: "slice_ok y \<and> slice_left y = slice_left x - int (length t)" if "added x t y" for x t y
    using that by (simp add: added_def)
  obtain b1 where b1: "put (first_line hm) b = Some b1" "added b (first_line hm) b1"
    using put_added[OF ok, of "first_line hm"] room by auto
  note l1 = lefts[OF b1(2)]
  obtain b2 where b2: "put_headers hm None b1 = Some b2" "added b1 (concat (map header_line ?m)) b2"
    using put_headers_walk[OF m(1), of "[]" ?m b1] l1 room by auto
  note l2 = lefts[OF b2(2)]
  have room2: "int (length (connection_line hm)) + int (length (last_lines hm)) < slice_left b2" using l1 l2 room by simp
  obtain b3 where b3: "(if hm_flags hm AND F_CONNECTION_KEEP_ALIVE \<noteq> 0 then put (''Connection: Keep-Alive'' @ crlf) b2
      else if hm_flags hm AND F_CONNECTION_CLOSE \<noteq> 0 then put (''Connection: Close'' @ crlf) b2 else Some b2) = Some b3"
    "added b2 (connection_line hm) b3"
    using put_added[of b2 "connection_line hm"] added_none l2 room2 unfolding connection_line_def by (auto split: if_splits)
  have "int (length (last_lines hm)) < slice_left b3" using lefts[OF b3(2)] room2 by simp
  then obtain b4 where b4: "put (last_lines hm) b3 = Some b4" "added b3 (last_lines hm) b4"
    using put_added[of b3 "last_lines hm"] lefts[OF b3(2)] by metis
  have "(if body_len hm = 0 \<and> hm_flags hm AND F_CONTENTLENGTH = 0 then put crlf b3
      else put (''Content-Length: '' @ signed_decimal (body_len hm) @ crlf @ crlf) b3) = Some b4"
    using b4(1) m by (cases "body_len hm = 0") (simp_all add: signed_decimal_def last_lines_def)
  then show ?thesis using b1(1) b2(1) b3(1) added_trans[OF added_trans[OF added_trans[OF b1(2) b2(2)] b3(2)] b4(2)]
    http_text_length(3)[OF msg] by auto
qed

text \<open>
  C21: the text of a message.  Let a message have neither \<^verbatim>\<open>F_CHUNKED\<close> nor \<^verbatim>\<open>F_TRAILING\<close>, versions below 10, a status
  below 1000, a body of at least 0 and less than \<open>10 ^ 10\<close> bytes, and \<^verbatim>\<open>F_CONTENTLENGTH\<close> only with a body that is not empty
  (\<open>common_msg\<close>).  Then \<^verbatim>\<open>hm_encode\<close> adds the first line, the headers in the order of
  their names, and the lines for the connection and the body to what is in the buffer, and stays inside its
  array: the space that is computed beforehand is enough for every address and all headers.  When the space cannot be
  had, the buffer is as before.  (With \<^verbatim>\<open>F_CONTENTLENGTH\<close> and an empty body the space is not enough, see \<open>http_encode_overflow\<close>.)
\<close>

theorem http_encode_text:
  assumes msg: "common_msg hm" and buf: "case buf of None \<Rightarrow> True | Some b \<Rightarrow> slice_ok b"
  shows "\<exists>r b'. hm_encode alloc hm buf = Some (r, b') \<and>
    (if r < 0 then r = - ENOMEM \<and> b' = buf \<and> \<not> alloc
     else \<exists>b. b' = Some b \<and> slice_ok b \<and> r = slice_len b \<and>
       slice_items b = (case buf of None \<Rightarrow> [] | Some b \<Rightarrow> slice_items b) @ http_text hm)"
proof -
  have flags: "hm_flags hm AND (F_CHUNKED OR F_TRAILING) = 0" "hm_flags hm AND F_CHUNKED = 0"
    using msg by (auto simp: common_msg_def bit_eq_iff bit_simps)
  have "kv_ok (kv_maps hm KV_Header)" using msg by (simp add: common_msg_def hm_ok_def)
  then have size: "header_size hm None (50 + uri_length hm) = Some (50 + uri_length hm + headers_size (kv_maps hm KV_Header))"
    using header_size_walk[of hm "[]" "kv_maps hm KV_Header"] by simp
  have need: "(if 0 < body_len hm then 50 + uri_length hm + headers_size (kv_maps hm KV_Header) + 32
      else 50 + uri_length hm + headers_size (kv_maps hm KV_Header)) = space_needed hm" by (simp add: space_needed_def)
  from reserve_fresh[OF buf http_text_length(2)[OF msg], of alloc send_bufsiz] obtain r b0 old where
    res: "slice_reserve alloc buf (space_needed hm) send_bufsiz = Some (r, b0, old)" "r < 0 \<longrightarrow> r = - ENOMEM \<and> b0 = buf \<and> \<not> alloc"
    "0 \<le> r \<longrightarrow> (\<exists>b. b0 = Some b \<and> slice_ok b \<and> space_needed hm \<le> slice_left b \<and>
      slice_items b = (case buf of None \<Rightarrow> [] | Some b \<Rightarrow> slice_items b))" by (elim exE conjE)
  show ?thesis
  proof (cases "r < 0")
    case True
    then have "hm_encode alloc hm buf = Some (r, b0)"
      by (simp only: hm_encode_def flags size need Let_def res(1) bind.bind_lunit prod.case if_True if_False simp_thms)
    then show ?thesis using True res(2) by auto
  next
    case False
    then obtain b where b: "b0 = Some b" "slice_ok b" "int (length (http_text hm)) < slice_left b"
      "slice_items b = (case buf of None \<Rightarrow> [] | Some b \<Rightarrow> slice_items b)" using res(3) http_text_length(1)[OF msg] by auto
    from put_lines[OF msg b(2,3)] obtain b1 b2 b3 b4 where lines: "put (first_line hm) b = Some b1" "put_headers hm None b1 = Some b2"
      "(if hm_flags hm AND F_CONNECTION_KEEP_ALIVE \<noteq> 0 then put (''Connection: Keep-Alive'' @ crlf) b2
       else if hm_flags hm AND F_CONNECTION_CLOSE \<noteq> 0 then put (''Connection: Close'' @ crlf) b2 else Some b2) = Some b3"
      "(if body_len hm = 0 \<and> hm_flags hm AND F_CONTENTLENGTH = 0 then put crlf b3
       else put (''Content-Length: '' @ signed_decimal (body_len hm) @ crlf @ crlf) b3) = Some b4" "added b (http_text hm) b4"
      by (elim exE conjE)
    have "hm_encode alloc hm buf = Some (slice_len b4, Some b4)"
      by (simp only: hm_encode_def flags size need Let_def res(1) False b(1) lines(1-4) bind.bind_lunit prod.case
        if_True if_False simp_thms)
    then show ?thesis using b(4) lines(5) slice_bounds(1)[of b4] by (auto simp: added_def)
  qed
qed

definition sample_msg :: http_msg where
  "sample_msg = \<lparr>hm_type = HTTP_REQUEST, hm_flags = F_CONNECTION_KEEP_ALIVE, http_major = 1, http_minor = 1, status_code = 0,
     http_method = 1, body_len = 0, parsed_param = False, kv_maps = (\<lambda>type. [])(KV_UriInfo := [(''1'', ''/'')], KV_Header := [(''Host'', ''a'')])\<rparr>"

lemma char_one: "char_of (49 :: nat) = CHR ''1''"
  by code_simp

theorem http_encode_text_witness:
  "\<exists>b. hm_encode True sample_msg None = Some (slice_len b, Some b) \<and>
     slice_items b = ''GET / HTTP/1.1'' @ crlf @ ''Host: a'' @ crlf @ ''Connection: Keep-Alive'' @ crlf @ crlf"
proof -
  have types: "KV_UriInfo = 0" "KV_Header = 1" "KV_MaxTypes = 4" by (simp_all add: KV_UriInfo_def KV_Header_def KV_MaxTypes_def)
  have msg: "common_msg sample_msg"
    by (simp add: common_msg_def sample_msg_def hm_ok_def types F_CONNECTION_KEEP_ALIVE_def F_CHUNKED_def F_TRAILING_def F_CONTENTLENGTH_def)
  have whole: "http_text sample_msg = ''GET / HTTP/1.1'' @ crlf @ ''Host: a'' @ crlf @ ''Connection: Keep-Alive'' @ crlf @ crlf"
    by (simp add: http_text_def start_line_def sample_msg_def uri_get_def uri_key_def kv_get_def types kv_type_ok_def c_part_def
      decimal_def digits.simps digit_def http_method_str_def http_methods_def header_line_def connection_line_def
      F_CONNECTION_KEEP_ALIVE_def char_one)
  show ?thesis using http_encode_text[OF msg, of None True] whole by (auto split: if_splits)
qed

text \<open>
  Without the condition on the length in the header the space is not enough: a request without a body that has a
  \<^verbatim>\<open>Content-Length\<close> moves the end of a buffer of the computed size beyond its array.
\<close>

lemma strfmt_beyond:
  assumes "slice_ok b"
  shows "\<exists>b'. slice_strfmt txt b = Some (int (length txt), b') \<and> slice_left b' = slice_left b - int (length txt)"
proof -
  obtain w where w: "w = (if slice_left b = 0 then [] else take (nat (slice_left b) - 1) txt @ [CHR 0x00])" by blast
  note sb = slice_bounds[OF assms]
  have "int (length w) \<le> slice_left b" using sb(2) by (auto simp: w min_def)
  then have "nat (fin b) + length w \<le> length (cells b)" using assms by (auto simp: slice_ok_def slice_left_def)
  then obtain m where "copy_in (cells b) (nat (fin b)) (map Some w) = Some m" by (cases "w = []") (auto simp: copy_in_def)
  moreover have "\<not> (fin b < 0 \<or> slice_left b < 0)" using assms sb(2) by (auto simp: slice_ok_def)
  ultimately have "slice_strfmt txt b = Some (int (length txt), slice_push (int (length txt)) (b\<lparr>cells := m\<rparr>))"
    unfolding slice_strfmt_def Let_def w[symmetric] by simp
  then show ?thesis by (simp add: slice_left_def slice_push_def)
qed

lemma http_encode_overflow:
  assumes "hm = sample_msg\<lparr>http_method := 3, hm_flags := F_CONNECTION_KEEP_ALIVE OR F_CONTENTLENGTH, kv_maps := (\<lambda>type. [])(KV_UriInfo := [(''1'', ''/'')])\<rparr>"
    and "slice_ok b" and "slice_left b = 51"
  shows "\<exists>b'. hm_encode alloc hm (Some b) = Some (slice_len b', Some b') \<and> slice_left b' = - 11"
proof -
  have types: "KV_UriInfo = 0" "KV_Header = 1" "KV_MaxTypes = 4" by (simp_all add: KV_UriInfo_def KV_Header_def KV_MaxTypes_def)
  have flags: "hm_flags hm AND (F_CHUNKED OR F_TRAILING) = 0" "hm_flags hm AND F_CHUNKED = 0"
    "hm_flags hm AND F_CONNECTION_KEEP_ALIVE \<noteq> 0" "hm_flags hm AND F_CONTENTLENGTH \<noteq> 0"
    by (simp_all add: assms(1) F_CONNECTION_KEEP_ALIVE_def F_CHUNKED_def F_TRAILING_def F_CONTENTLENGTH_def)
  have body: "body_len hm = 0" "\<not> 0 < body_len hm" by (simp_all add: assms(1) sample_msg_def)
  have no_header: "kv_next KV_Header None hm = None" by (simp add: assms(1) sample_msg_def kv_next_def types)
  have size: "header_size hm None n = Some n" for n by (subst header_size.simps) (simp add: no_header)
  have heads: "put_headers hm None c = Some c" for c by (subst put_headers.simps) (simp add: no_header)
  have uri: "uri_length hm = 1" by (simp add: assms(1) sample_msg_def uri_length_def uri_get_def uri_key_def kv_get_def types kv_type_ok_def)
  have line: "length (first_line hm) = 17"
    by (simp add: first_line_def assms(1) sample_msg_def uri_get_def uri_key_def kv_get_def types kv_type_ok_def c_part_def
      decimal_def digits.simps http_method_str_def http_methods_def)
  have res: "slice_reserve alloc (Some b) 51 send_bufsiz = Some (0, Some b, None)" using assms(3) by (simp add: slice_reserve_def)
  obtain b1 where b1: "put (first_line hm) b = Some b1" "added b (first_line hm) b1"
    using put_added[OF assms(2), of "first_line hm"] assms(3) line by auto
  then have l1: "slice_ok b1" "slice_left b1 = 34" using assms(3) line by (simp_all add: added_def)
  obtain b2 where b2: "put (''Connection: Keep-Alive'' @ crlf) b1 = Some b2" "added b1 (''Connection: Keep-Alive'' @ crlf) b2"
    using put_added[OF l1(1), of "''Connection: Keep-Alive'' @ crlf"] l1(2) by auto
  then have l2: "slice_ok b2" "slice_left b2 = 10" using l1 by (simp_all add: added_def)
  have zero: "length (signed_decimal 0) = 1" by (simp add: signed_decimal_def decimal_def digits.simps)
  obtain b3 where b3: "put (''Content-Length: '' @ signed_decimal 0 @ crlf @ crlf) b2 = Some b3" "slice_left b3 = - 11"
    using strfmt_beyond[OF l2(1), of "''Content-Length: '' @ signed_decimal 0 @ crlf @ crlf"] l2(2) zero by (auto simp: put_def)
  have "hm_encode alloc hm (Some b) = Some (slice_len b3, Some b3)"
    using b1(1) b2(1) b3(1) res unfolding hm_encode_def
    by (simp add: flags size heads uri body Let_def)
  then show ?thesis using b3(2) by blast
qed

end
