(* ===== verification/Http_Session.thy ===== *)
theory Http_Session
  imports Http_Text
begin

text \<open>
  What the callbacks of the HTTP parser make of the pieces that it finds (\<^verbatim>\<open>http/AModule_HttpSession.cpp\<close>).  The parser
  itself (\<^verbatim>\<open>http/http_parser.c\<close>) is copied third-party code; its calls of the callbacks are an argument.  A token may
  come in any number of pieces, since a call of the parser ends with the bytes that have arrived.
\<close>

section \<open>Callbacks\<close>

text \<open>
  \<^verbatim>\<open>HttpParserCompenont\<close>.  Positions are counted from \<^verbatim>\<open>outbuf()->ptr()\<close>; \<open>head_block\<close> is the part of the buffer with the headers.
\<close>

record http_com =
  httpmsg :: http_msg
  head_block :: "(int \<times> int) option"
  header_count :: int
  field_pos :: int
  field_len :: int
  value_pos :: int
  value_len :: int
  body_pos :: int
  body_size :: int
  paused :: bool

datatype http_event =
    Msg_Begin
  | Url int int
  | Head_Field int int
  | Head_Value int int
  | Head_Done int int
  | Body int int
  | Msg_Done
  | Chunk_Header
  | Chunk_Complete

definition part :: "string \<Rightarrow> int \<Rightarrow> int \<Rightarrow> string" where
  "part buf pos len = take (nat len) (drop (nat pos) buf)"

definition on_msg_begin :: "http_com \<Rightarrow> http_com" where
  "on_msg_begin p = p\<lparr>httpmsg := hm_reset (httpmsg p), head_block := None, header_count := 0, field_pos := 0, field_len := 0,
     value_pos := 0, value_len := 0, body_pos := 0, body_size := 0\<rparr>"

definition on_url_or_status :: "int \<Rightarrow> int \<Rightarrow> http_com \<Rightarrow> http_com" where
  "on_url_or_status at len p =
     (let p = (if field_len p = 0 then p\<lparr>field_pos := at, value_pos := at\<rparr> else p)
      in p\<lparr>field_len := field_len p + len, value_len := value_len p + len\<rparr>)"

text \<open>A value was found: the name and the value before the next name are complete.  The first of them is the address.\<close>

definition store_header :: "string \<Rightarrow> http_com \<Rightarrow> http_com" where
  "store_header buf p =
     (if value_len p \<noteq> 0
      then let p = p\<lparr>header_count := header_count p + 1\<rparr>;
               field = part buf (field_pos p) (field_len p);
               value = part buf (value_pos p) (value_len p);
               p = (if header_count p = 1 then p\<lparr>httpmsg := uri_set (Some value) True (httpmsg p)\<rparr>
                    else p\<lparr>httpmsg := header_set field (Some value) (httpmsg p)\<rparr>)
           in p\<lparr>field_pos := 0, field_len := 0, value_pos := 0, value_len := 0\<rparr>
      else p)"

definition on_head_field :: "string \<Rightarrow> int \<Rightarrow> int \<Rightarrow> http_com \<Rightarrow> http_com" where
  "on_head_field buf at len p =
     (let p = store_header buf p;
          p = (if field_len p = 0 then p\<lparr>field_pos := at\<rparr> else p)
      in p\<lparr>field_len := field_len p + len\<rparr>)"

definition on_head_value :: "int \<Rightarrow> int \<Rightarrow> http_com \<Rightarrow> http_com" where
  "on_head_value at len p =
     (let p = (if value_len p = 0 then p\<lparr>value_pos := at\<rparr> else p) in p\<lparr>value_len := value_len p + len\<rparr>)"

definition on_head_done :: "string \<Rightarrow> int \<Rightarrow> int \<Rightarrow> http_com \<Rightarrow> http_com" where
  "on_head_done buf first nread p =
     (let p = (if value_len p \<noteq> 0
               then p\<lparr>header_count := header_count p + 1,
                 httpmsg := header_set (part buf (field_pos p) (field_len p)) (Some (part buf (value_pos p) (value_len p))) (httpmsg p)\<rparr>
               else p)
      in p\<lparr>head_block := Some (first, nread)\<rparr>)"

definition on_body :: "int \<Rightarrow> int \<Rightarrow> http_com \<Rightarrow> http_com" where
  "on_body at len p =
     (let p = (if body_size p = 0 then p\<lparr>body_pos := at\<rparr> else p) in p\<lparr>body_size := body_size p + len\<rparr>)"

definition on_msg_done :: "http_com \<Rightarrow> http_com" where
  "on_msg_done p = p\<lparr>paused := True\<rparr>"

definition on_chunk_complete :: "http_com \<Rightarrow> http_com" where
  "on_chunk_complete p = (if body_size p \<noteq> 0 then p\<lparr>paused := True\<rparr> else p)"

text \<open>\<^verbatim>\<open>cb_sets\<close>\<close>

fun on_event :: "string \<Rightarrow> http_event \<Rightarrow> http_com \<Rightarrow> http_com" where
  "on_event buf Msg_Begin p = on_msg_begin p"
| "on_event buf (Url at len) p = on_url_or_status at len p"
| "on_event buf (Head_Field at len) p = on_head_field buf at len p"
| "on_event buf (Head_Value at len) p = on_head_value at len p"
| "on_event buf (Head_Done first nread) p = on_head_done buf first nread p"
| "on_event buf (Body at len) p = on_body at len p"
| "on_event buf Msg_Done p = on_msg_done p"
| "on_event buf Chunk_Header p = p"
| "on_event buf Chunk_Complete p = on_chunk_complete p"

section \<open>Tokens\<close>

text \<open>A token from a position on, in pieces of the lengths given.\<close>

fun pieces :: "(int \<Rightarrow> int \<Rightarrow> http_event) \<Rightarrow> int \<Rightarrow> nat list \<Rightarrow> http_event list" where
  "pieces ev at [] = []"
| "pieces ev at (n # ns) = ev at (int n) # pieces ev (at + int n) ns"

record token =
  tok_at :: int
  tok_pieces :: "nat list"

definition tok_len :: "token \<Rightarrow> int" where
  "tok_len t = int (sum_list (tok_pieces t))"

definition tok_text :: "string \<Rightarrow> token \<Rightarrow> string" where
  "tok_text buf t = part buf (tok_at t) (tok_len t)"

definition tok_events :: "(int \<Rightarrow> int \<Rightarrow> http_event) \<Rightarrow> token \<Rightarrow> http_event list" where
  "tok_events ev t = pieces ev (tok_at t) (tok_pieces t)"

definition head_events :: "token \<Rightarrow> (token \<times> token) list \<Rightarrow> int \<Rightarrow> int \<Rightarrow> http_event list" where
  "head_events u hs first nread = Msg_Begin # tok_events Url u @
     concat (map (\<lambda>(f, v). tok_events Head_Field f @ tok_events Head_Value v) hs) @ [Head_Done first nread]"

lemma fold_url:
  "field_len p = int k \<Longrightarrow> value_len p = int k \<Longrightarrow> (0 < k \<Longrightarrow> field_pos p = at - int k \<and> value_pos p = at - int k) \<Longrightarrow>
   0 < k + sum_list ns \<Longrightarrow> fold (on_event buf) (pieces Url at ns) p =
     p\<lparr>field_pos := at - int k, value_pos := at - int k, field_len := int (k + sum_list ns), value_len := int (k + sum_list ns)\<rparr>"
proof (induction ns arbitrary: at k p)
  case (Cons n ns)
  let ?p = "p\<lparr>field_pos := at - int k, value_pos := at - int k, field_len := int (k + n), value_len := int (k + n)\<rparr>"
  have one: "on_event buf (Url at (int n)) p = ?p" using Cons.prems by (cases "k = 0") (simp_all add: on_url_or_status_def Let_def)
  have "fold (on_event buf) (pieces Url (at + int n) ns) ?p = ?p\<lparr>field_pos := at + int n - int (k + n),
      value_pos := at + int n - int (k + n), field_len := int (k + n + sum_list ns), value_len := int (k + n + sum_list ns)\<rparr>"
    using Cons.prems(4) by (intro Cons.IH) simp_all
  then show ?case using one by (simp add: add.assoc)
qed simp

lemma fold_value:
  "value_len p = int k \<Longrightarrow> (0 < k \<Longrightarrow> value_pos p = at - int k) \<Longrightarrow> 0 < k + sum_list ns \<Longrightarrow>
   fold (on_event buf) (pieces Head_Value at ns) p = p\<lparr>value_pos := at - int k, value_len := int (k + sum_list ns)\<rparr>"
proof (induction ns arbitrary: at k p)
  case (Cons n ns)
  let ?p = "p\<lparr>value_pos := at - int k, value_len := int (k + n)\<rparr>"
  have one: "on_event buf (Head_Value at (int n)) p = ?p" using Cons.prems by (cases "k = 0") (simp_all add: on_head_value_def Let_def)
  have "fold (on_event buf) (pieces Head_Value (at + int n) ns) ?p =
      ?p\<lparr>value_pos := at + int n - int (k + n), value_len := int (k + n + sum_list ns)\<rparr>"
    using Cons.prems(3) by (intro Cons.IH) simp_all
  then show ?case using one by (simp add: add.assoc)
qed simp

lemma fold_field:
  "value_len p = 0 \<Longrightarrow> field_len p = int k \<Longrightarrow> (0 < k \<Longrightarrow> field_pos p = at - int k) \<Longrightarrow> 0 < k + sum_list ns \<Longrightarrow>
   fold (on_event buf) (pieces Head_Field at ns) p = p\<lparr>field_pos := at - int k, field_len := int (k + sum_list ns)\<rparr>"
proof (induction ns arbitrary: at k p)
  case (Cons n ns)
  let ?p = "p\<lparr>field_pos := at - int k, field_len := int (k + n)\<rparr>"
  have one: "on_event buf (Head_Field at (int n)) p = ?p" using Cons.prems
    by (cases "k = 0") (simp_all add: on_head_field_def store_header_def Let_def)
  have "fold (on_event buf) (pieces Head_Field (at + int n) ns) ?p =
      ?p\<lparr>field_pos := at + int n - int (k + n), field_len := int (k + n + sum_list ns)\<rparr>"
    using Cons.prems(1,4) by (intro Cons.IH) simp_all
  then show ?case using one by (simp add: add.assoc)
qed simp

lemma store_empty: "value_len p \<noteq> 0 \<Longrightarrow> value_len (store_header buf p) = 0 \<and> field_len (store_header buf p) = 0"
  by (simp add: store_header_def Let_def)

lemma store_twice: "store_header buf (store_header buf p) = store_header buf p"
  by (simp add: store_header_def Let_def)

text \<open>A name and a value, after a complete value.\<close>

lemma fold_header:
  assumes "value_len p \<noteq> 0" and "0 < tok_len f" and "0 < tok_len v"
  shows "fold (on_event buf) (tok_events Head_Field f @ tok_events Head_Value v) p =
    (store_header buf p)\<lparr>field_pos := tok_at f, field_len := tok_len f, value_pos := tok_at v, value_len := tok_len v\<rparr>"
proof -
  let ?q = "store_header buf p"
  note q = store_empty[OF assms(1), of buf]
  obtain n ns where ns: "tok_pieces f = n # ns" using assms(2) by (cases "tok_pieces f") (simp_all add: tok_len_def)
  have "on_head_field buf at len p = on_head_field buf at len ?q" for at len
    by (simp add: on_head_field_def store_twice)
  then have "fold (on_event buf) (tok_events Head_Field f) p = fold (on_event buf) (tok_events Head_Field f) ?q"
    by (simp add: tok_events_def ns)
  also have "\<dots> = ?q\<lparr>field_pos := tok_at f, field_len := tok_len f\<rparr>"
    using fold_field[of ?q 0 "tok_at f" "tok_pieces f" buf] q assms(2) by (simp add: tok_events_def tok_len_def)
  finally show ?thesis
    using fold_value[of "?q\<lparr>field_pos := tok_at f, field_len := tok_len f\<rparr>" 0 "tok_at v" "tok_pieces v" buf] q assms(3)
    by (simp add: tok_events_def[of Head_Value] tok_len_def)
qed

definition tokens_ok :: "(token \<times> token) list \<Rightarrow> bool" where
  "tokens_ok hs = list_all (\<lambda>(f, v). 0 < tok_len f \<and> 0 < tok_len v) hs"

definition set_headers :: "string \<Rightarrow> (token \<times> token) list \<Rightarrow> http_msg \<Rightarrow> http_msg" where
  "set_headers buf hs hm = foldl (\<lambda>hm (f, v). header_set (tok_text buf f) (Some (tok_text buf v)) hm) hm hs"

lemma fold_heads:
  "value_len p \<noteq> 0 \<Longrightarrow> 1 \<le> header_count (store_header buf p) \<Longrightarrow> tokens_ok hs \<Longrightarrow>
   (let q = fold (on_event buf) (concat (map (\<lambda>(f, v). tok_events Head_Field f @ tok_events Head_Value v) hs)) p in
    value_len q \<noteq> 0 \<and> (if hs = [] then q = p else
      header_count q = header_count (store_header buf p) + int (length hs) - 1 \<and>
      header_set (part buf (field_pos q) (field_len q)) (Some (part buf (value_pos q) (value_len q))) (httpmsg q) =
        set_headers buf hs (httpmsg (store_header buf p))))"
proof (induction hs arbitrary: p)
  case (Cons h hs)
  obtain f v where h: "h = (f, v)" by fastforce
  have tok: "0 < tok_len f" "0 < tok_len v" "tokens_ok hs" using Cons.prems(3) by (simp_all add: tokens_ok_def h)
  let ?q = "(store_header buf p)\<lparr>field_pos := tok_at f, field_len := tok_len f, value_pos := tok_at v, value_len := tok_len v\<rparr>"
  have step: "fold (on_event buf) (tok_events Head_Field f @ tok_events Head_Value v) p = ?q"
    by (rule fold_header[OF Cons.prems(1) tok(1,2)])
  have q: "value_len ?q \<noteq> 0" using tok(2) by simp
  have st: "header_count (store_header buf ?q) = header_count (store_header buf p) + 1"
    "httpmsg (store_header buf ?q) = header_set (tok_text buf f) (Some (tok_text buf v)) (httpmsg (store_header buf p))"
    using q Cons.prems(2) by (simp_all add: store_header_def[of buf ?q] Let_def tok_text_def)
  note ih = Cons.IH[OF q _ tok(3)]
  have count: "1 \<le> header_count (store_header buf ?q)" using st(1) Cons.prems(2) by simp
  have all: "fold (on_event buf) (concat (map (\<lambda>(f, v). tok_events Head_Field f @ tok_events Head_Value v) (h # hs))) p =
      fold (on_event buf) (concat (map (\<lambda>(f, v). tok_events Head_Field f @ tok_events Head_Value v) hs)) ?q"
    using step by (simp add: h)
  show ?case
  proof (cases "hs = []")
    case True
    then show ?thesis unfolding all using q by (simp add: h set_headers_def tok_text_def Let_def)
  next
    case False
    then show ?thesis unfolding all using ih[OF count] st by (simp add: h set_headers_def Let_def)
  qed
qed simp

text \<open>
  What is stored for a head.  When it has no headers its address is stored as a header; the headers are counted with the
  address.
\<close>

lemma head_events_message:
  assumes "0 < tok_len u" and "tokens_ok hs" and "q = fold (on_event buf) (head_events u hs first nread) p"
  shows "httpmsg q = (if hs = [] then header_set (tok_text buf u) (Some (tok_text buf u)) (hm_reset (httpmsg p))
      else set_headers buf hs (uri_set (Some (tok_text buf u)) True (hm_reset (httpmsg p)))) \<and>
    header_count q = 1 + int (length hs) \<and> head_block q = Some (first, nread)"
proof -
  let ?a = "(on_msg_begin p)\<lparr>field_pos := tok_at u, value_pos := tok_at u, field_len := tok_len u, value_len := tok_len u\<rparr>"
  have url: "fold (on_event buf) (tok_events Url u) (on_msg_begin p) = ?a"
    using fold_url[of "on_msg_begin p" 0 "tok_at u" "tok_pieces u" buf] assms(1) by (simp add: tok_events_def tok_len_def on_msg_begin_def)
  have a: "value_len ?a \<noteq> 0" using assms(1) by simp
  have st: "header_count (store_header buf ?a) = 1"
    "httpmsg (store_header buf ?a) = uri_set (Some (tok_text buf u)) True (hm_reset (httpmsg p))"
    using assms(1) by (simp_all add: store_header_def on_msg_begin_def Let_def tok_text_def)
  let ?b = "fold (on_event buf) (concat (map (\<lambda>(f, v). tok_events Head_Field f @ tok_events Head_Value v) hs)) ?a"
  have q: "q = on_head_done buf first nread ?b" using assms(3) url by (simp add: head_events_def)
  have b: "value_len ?b \<noteq> 0" "if hs = [] then ?b = ?a else header_count ?b = int (length hs) \<and>
      header_set (part buf (field_pos ?b) (field_len ?b)) (Some (part buf (value_pos ?b) (value_len ?b))) (httpmsg ?b) =
        set_headers buf hs (uri_set (Some (tok_text buf u)) True (hm_reset (httpmsg p)))"
    using fold_heads[OF a _ assms(2), of buf] st by (simp_all add: Let_def)
  show ?thesis
  proof (cases "hs = []")
    case True
    then have "?b = ?a" using b(2) by simp
    then show ?thesis unfolding q using True assms(1) by (simp add: on_head_done_def on_msg_begin_def Let_def tok_text_def)
  next
    case False
    then show ?thesis unfolding q using b by (simp add: on_head_done_def Let_def)
  qed
qed

text \<open>The headers of a message after the whole head.\<close>

lemma set_headers_maps:
  "kv_maps (set_headers buf hs hm) = (kv_maps hm)(KV_Header :=
     foldl (\<lambda>m (f, v). kv_insert (tok_text buf f) (tok_text buf v) m) (kv_maps hm KV_Header) hs)"
proof -
  have types: "kv_type_ok KV_Header" by (simp add: kv_type_ok_def KV_Header_def KV_MaxTypes_def)
  show ?thesis
  proof (induction hs arbitrary: hm)
    case (Cons h hs)
    show ?case
      using Cons.IH[of "header_set (tok_text buf (fst h)) (Some (tok_text buf (snd h))) hm"]
      by (simp add: set_headers_def header_set_def kv_set_def types Let_def split_beta fun_eq_iff)
  qed (simp add: set_headers_def)
qed

lemma insert_headers:
  "kv_ok m \<Longrightarrow> distinct (map (key \<circ> fst) hs) \<Longrightarrow>
   (let m' = foldl (\<lambda>m (f, v). kv_insert (key f) (key v) m) m hs in
    kv_ok m' \<and> map_of m' = map_of m ++ map_of (map (\<lambda>(f, v). (key f, key v)) hs))"
proof (induction hs arbitrary: m)
  case (Cons h hs)
  obtain f v where h: "h = (f, v)" by fastforce
  let ?m = "kv_insert (key f) (key v) m"
  have "key f \<notin> (\<lambda>x. key (fst x)) ` set hs" using Cons.prems(2) by (simp add: h)
  then have "key f \<notin> dom (map_of (map (\<lambda>(f, v). (key f, key v)) hs))"
    by (auto simp: dom_map_of_conv_image_fst image_iff split_beta)
  then have "(map_of m)(key f \<mapsto> key v) ++ map_of (map (\<lambda>(f, v). (key f, key v)) hs) =
      map_of m ++ (map_of (map (\<lambda>(f, v). (key f, key v)) hs))(key f \<mapsto> key v)"
    by (simp add: map_add_upd_left)
  moreover have ok: "kv_ok ?m" "map_of ?m = (map_of m)(key f \<mapsto> key v)"
    using Cons.prems(1) by (simp_all add: kv_insert_ok map_of_kv_insert)
  moreover have "distinct (map (key \<circ> fst) hs)" using Cons.prems(2) by (simp add: comp_def)
  note Cons.IH[OF ok(1) this]
  ultimately show ?case by (simp add: h Let_def del: fun_upd_apply)
qed simp

text \<open>
  C11: headers in pieces.  Take a head with at least one header, whose address, names and values are not empty and whose
  names are different.  However the address, the names and the values are cut into pieces,
  the message gets the whole address; every name has its whole value, and there are no other headers; and
  the headers are counted with the address, as \<^verbatim>\<open>hm_decode\<close> asserts.  (The other heads are not stored so, see
  \<open>http_no_headers\<close>, \<open>http_name_twice\<close> and \<open>http_empty_value\<close>.)
\<close>

theorem http_head_in_pieces:
  assumes "0 < tok_len u" and "hs \<noteq> []" and "tokens_ok hs" and "distinct (map (tok_text buf \<circ> fst) hs)"
    and "q = fold (on_event buf) (head_events u hs first nread) p"
  shows "uri_get True (httpmsg q) = Some (tok_text buf u) \<and>
    (\<forall>name. kv_get KV_Header name (httpmsg q) = map_of (map (\<lambda>(f, v). (tok_text buf f, tok_text buf v)) hs) name) \<and>
    fst (kv_num KV_Header found (httpmsg q)) = int (length hs) \<and>
    header_count q = fst (kv_num KV_Header found (httpmsg q)) + 1 \<and> head_block q = Some (first, nread)"
proof -
  have types: "KV_UriInfo = 0" "KV_Header = 1" "KV_MaxTypes = 4" "KV_Param = 2"
    by (simp_all add: KV_UriInfo_def KV_Header_def KV_MaxTypes_def KV_Param_def)
  let ?a = "uri_set (Some (tok_text buf u)) True (hm_reset (httpmsg p))"
  let ?pairs = "map (\<lambda>(f, v). (tok_text buf f, tok_text buf v)) hs"
  define m where "m = foldl (\<lambda>m (f, v). kv_insert (tok_text buf f) (tok_text buf v) m) [] hs"
  have q: "httpmsg q = set_headers buf hs ?a" "header_count q = 1 + int (length hs)" "head_block q = Some (first, nread)"
    using head_events_message[OF assms(1,3,5)] assms(2) by simp_all
  have a: "kv_maps ?a = (\<lambda>type. [])(KV_UriInfo := [(''1'', tok_text buf u)])"
    by (simp add: uri_set_def kv_set_def kv_type_ok_def types hm_reset_def uri_key_def)
  have maps: "kv_maps (httpmsg q) = ((\<lambda>type. [])(KV_UriInfo := [(''1'', tok_text buf u)]))(KV_Header := m)"
    unfolding q(1) set_headers_maps a by (simp add: m_def types)
  have m: "kv_ok m" "map_of m = map_of ?pairs"
    using insert_headers[of "[]" "tok_text buf" hs] assms(4) by (simp_all add: m_def Let_def)
  have "distinct (map fst ?pairs)" using assms(4) by (simp add: comp_def split_beta)
  from distinct_card[OF this] have "card (dom (map_of ?pairs)) = length hs" by (simp add: dom_map_of_conv_image_fst image_image)
  then have len: "length m = length hs" using kv_ok_length[OF m(1)] m(2) by simp
  show ?thesis
    using q(2,3) m(2) len
    by (simp add: uri_get_def uri_key_def kv_get_def kv_num_def kv_type_ok_def types maps[unfolded types])
qed

theorem http_head_in_pieces_witness:
  "let q = fold (on_event ''GET /ab H: xyz'') (head_events \<lparr>tok_at = 4, tok_pieces = [1, 2]\<rparr>
       [(\<lparr>tok_at = 8, tok_pieces = [1]\<rparr>, \<lparr>tok_at = 11, tok_pieces = [2, 0, 1]\<rparr>)] 0 14) (undefined\<lparr>httpmsg := sample_msg\<rparr>)
   in uri_get True (httpmsg q) = Some ''/ab'' \<and> kv_get KV_Header ''H'' (httpmsg q) = Some ''xyz'' \<and> header_count q = 2"
  using http_head_in_pieces[of "\<lparr>tok_at = 4, tok_pieces = [1, 2]\<rparr>"
    "[(\<lparr>tok_at = 8, tok_pieces = [1]\<rparr>, \<lparr>tok_at = 11, tok_pieces = [2, 0, 1]\<rparr>)]" "''GET /ab H: xyz''" _ 0 14
    "undefined\<lparr>httpmsg := sample_msg\<rparr>" None, OF _ _ _ _ refl]
  by (simp add: tok_len_def tokens_ok_def tok_text_def part_def Let_def)

text \<open>Without headers, the address is stored as the name and the value of one, and not as the address.\<close>

lemma http_no_headers:
  assumes "0 < tok_len u" and "q = fold (on_event buf) (head_events u [] first nread) p"
  shows "uri_get True (httpmsg q) = None" and "kv_get KV_Header (tok_text buf u) (httpmsg q) = Some (tok_text buf u)"
    and "header_count q = fst (kv_num KV_Header found (httpmsg q))"
proof -
  have types: "KV_UriInfo = 0" "KV_Header = 1" "KV_MaxTypes = 4" "KV_Param = 2"
    by (simp_all add: KV_UriInfo_def KV_Header_def KV_MaxTypes_def KV_Param_def)
  have q: "httpmsg q = header_set (tok_text buf u) (Some (tok_text buf u)) (hm_reset (httpmsg p))" "header_count q = 1"
    using head_events_message[OF assms(1) _ assms(2)] by (simp_all add: tokens_ok_def)
  show "uri_get True (httpmsg q) = None" "kv_get KV_Header (tok_text buf u) (httpmsg q) = Some (tok_text buf u)"
    "header_count q = fst (kv_num KV_Header found (httpmsg q))"
    unfolding q by (simp_all add: header_set_def kv_set_def kv_type_ok_def types hm_reset_def uri_get_def uri_key_def kv_get_def kv_num_def)
qed

text \<open>A name that comes twice is counted twice and stored once, with its last value: the assertion does not hold.\<close>

lemma http_name_twice:
  assumes "0 < tok_len u" and "tokens_ok [(f, v), (g, w)]" and "tok_text buf f = tok_text buf g"
    and "q = fold (on_event buf) (head_events u [(f, v), (g, w)] first nread) p"
  shows "header_count q = 3" and "fst (kv_num KV_Header found (httpmsg q)) = 1"
    and "kv_get KV_Header (tok_text buf f) (httpmsg q) = Some (tok_text buf w)"
proof -
  have types: "KV_UriInfo = 0" "KV_Header = 1" "KV_MaxTypes = 4" "KV_Param = 2"
    by (simp_all add: KV_UriInfo_def KV_Header_def KV_MaxTypes_def KV_Param_def)
  have q: "httpmsg q = set_headers buf [(f, v), (g, w)] (uri_set (Some (tok_text buf u)) True (hm_reset (httpmsg p)))"
    "header_count q = 3" using head_events_message[OF assms(1,2,4)] by simp_all
  have "kv_maps (httpmsg q) KV_Header = [(tok_text buf f, tok_text buf w)]"
    unfolding q(1) set_headers_maps using assms(3)
    by (simp add: uri_set_def kv_set_def kv_type_ok_def types hm_reset_def)
  then show "header_count q = 3" "fst (kv_num KV_Header found (httpmsg q)) = 1"
    "kv_get KV_Header (tok_text buf f) (httpmsg q) = Some (tok_text buf w)"
    using q(2) by (simp_all add: kv_num_def kv_get_def kv_type_ok_def types)
qed

text \<open>A header with an empty value is not stored, and its name is joined to the bytes of the next one.\<close>

lemma http_empty_value:
  assumes "value_len p = 0" and "field_len p = 0" and "0 < n" and "0 < m"
  shows "fold (on_event buf) [Head_Field f n, Head_Value e 0, Head_Field g m] p =
    p\<lparr>field_pos := f, field_len := n + m, value_pos := e, value_len := 0\<rparr>"
  using assms by (simp add: on_head_field_def on_head_value_def store_header_def Let_def)

end
