(* ===== verification/Spec2Isabelle.thy ===== *)
theory Spec2Isabelle
  imports Wait_Queue Mqtt_Connect Mqtt_Delivery Entity_Manager Timer_Threads Event_Manager Module_Registry Client_Life Option_Clone Pool_Queue Inout_Run Inout_Output System_Stop Ps_Trip Sps_Trip Http_Session
begin

text \<open>
  A model of AModule, a C and C++ framework for network services, and the theorems that make its core
  correct.  File and function names below are those under \<^verbatim>\<open>src/\<close>.

  \<^bold>\<open>The program.\<close>  A program registers modules (\<^verbatim>\<open>base/AModule\<close>), each the factory of a class of
  reference-counted objects, and configures them with trees of options (\<^verbatim>\<open>base/AOption\<close>).  Objects
  that live on are entities with components; the entity manager (\<^verbatim>\<open>ecs/AEntity\<close>) keeps them in a
  red-black tree.  The client system (\<^verbatim>\<open>ecs/AClientSystem\<close>) opens, watches and closes the entities that
  have a client component, and the event manager (\<^verbatim>\<open>ecs/AEvent\<close>) tells receivers about events.  Work
  is posted to threads as operators, at once or after a delay (\<^verbatim>\<open>base/AOperator\<close>).  Lists, trees and
  queues are intrusive (\<^verbatim>\<open>base/list.h\<close>, \<^verbatim>\<open>base/rbtree\<close>, \<^verbatim>\<open>base/wait_queue.h\<close>); buffers and pools of
  buffers are in \<^verbatim>\<open>base/buf_util.h\<close>.  An entity that does input has a component to which messages are posted
  (\<^verbatim>\<open>ecs/AInOutComponent\<close>), and systems look at the entities in rounds (\<^verbatim>\<open>ecs/ASystem\<close>).  \<^verbatim>\<open>iot/\<close> has a codec
  for MQTT, \<^verbatim>\<open>http/\<close> messages of HTTP,
  \<^verbatim>\<open>media/libPSutil\<close> a codec for MPEG program streams and a reader of H.264 parameter sets.

  \<^bold>\<open>Foundations.\<close>
  \<^item> \<open>Prelude\<close>: machine integers, error codes, and blocks of cells with checked access.  A computation
    that may have undefined behaviour is an \<open>option\<close>; \<open>None\<close> is undefined behaviour.
  \<^item> \<open>C_String\<close>: the comparison of names without regard to case.
  \<^item> \<open>List_Head\<close>, \<open>List_Frame\<close>: \<^verbatim>\<open>base/list.h\<close>.  The heap maps addresses to links; \<open>ring h q xs\<close> says that
    the nodes \<open>xs\<close> are linked under the head \<open>q\<close>.  Every operation is proved against lists; the locale
    \<open>intrusive_fifo\<close> is the interface of a queue.
  \<^item> \<open>Wait_Queue\<close>: \<^verbatim>\<open>base/wait_queue.h\<close>, an interpretation of that interface.
  \<^item> \<open>Rb_Tree\<close>: \<^verbatim>\<open>base/rbtree.c\<close> and the functions that the macro \<^verbatim>\<open>rb_tree_define\<close> of \<^verbatim>\<open>base/rbtree.h\<close>
    expands to, on a heap of nodes with parent pointers.  \<open>Rb_Shape\<close> relates heaps to trees,
    \<open>Rb_Insert\<close>, \<open>Rb_Erase\<close>, \<open>Rb_Delete\<close> prove insertion and deletion against red-black trees,
    \<open>Rb_Search\<close> the searches, \<open>Rb_Frame\<close> what is left alone.
  \<^item> \<open>Node_Map\<close>: the tree as an ordered map of nodes, the locale \<open>node_map\<close>, interpreted on the model of
    \<^verbatim>\<open>base/rbtree.c\<close>.  The entity manager, the timers and the event manager rest on it.
  \<^item> \<open>Group_Map\<close>: a tree whose nodes head lists of nodes with the same key, shared by timers and events.

  \<^bold>\<open>Modules and options.\<close>
  \<^item> \<open>Module\<close>, \<open>Module_Registry\<close>: \<^verbatim>\<open>base/AModule.cpp\<close>; the registry as rings of modules and classes,
    registration, initialisation, lookups and objects.  The lookups through the classes are proved
    equal to searches through all modules.
  \<^item> \<open>Option_Tree\<close>, \<open>Option_Decode\<close>, \<open>Option_Encode\<close>: \<^verbatim>\<open>base/AOption.cpp\<close>, \<^verbatim>\<open>base/AOption.h\<close>: trees of options,
    the decoder of their text as a machine that takes a character at a time, and the encoder.
  \<^item> \<open>Option_Safe\<close>: the decoder stays inside its buffers.  \<open>Option_Text\<close>, \<open>Option_Trip\<close>: texts are read as the
    trees they were written from.  \<open>Option_Clone\<close>: copies and the search by name.
  \<^item> \<open>Slice\<close>, \<open>Pool\<close>, \<open>Pool_Queue\<close>: \<^verbatim>\<open>base/buf_util.h\<close>; a buffer with two offsets, and a chain of buffers, which
    is proved to be a queue of items.

  \<^bold>\<open>Entities, clients, events.\<close>
  \<^item> \<open>Entity\<close>, \<open>Entity_Manager\<close>: reference counts and components, and the manager of \<^verbatim>\<open>ecs/AEntity.cpp\<close> as
    a set of entities; its iterations as folds in address order over entities and their components, whose lists are an
    invariant of every run; the life of the components it adds, up to the end of their entity.
  \<^item> \<open>Client\<close>, \<open>Client_Life\<close>: the state machine of \<^verbatim>\<open>ecs/AClientSystem.cpp\<close> as functions and as a step
    relation; its counters, the order of the calls, and the check of all clients.
  \<^item> \<open>Event\<close>, \<open>Event_Groups\<close>, \<open>Event_Manager\<close>: the template of \<^verbatim>\<open>ecs/AEvent.cpp\<close> over a record of helper
    functions, proved in the locale \<open>event_helper\<close> and interpreted for names and for numbers.
  \<^item> \<open>Inout\<close>, \<open>Inout_Run\<close>: \<^verbatim>\<open>ecs/AInOutComponent\<close>, cut into the sections between which threads may interleave, as
    a step relation: messages are taken out in order and each completes exactly once, and an aborted component drains.
    \<open>Inout_Output\<close>: its cycle of output, which loses no byte of the buffer.
  \<^item> \<open>System\<close>, \<open>System_Rounds\<close>: \<^verbatim>\<open>ecs/ASystem\<close>; rounds over the entities from the last one seen.
    \<open>System_Stop\<close>: the callbacks, cut into sections, beside the statements of a stopping thread, whose loop ends.

  \<^bold>\<open>Operators.\<close>
  \<^item> \<open>Timer\<close>, \<open>Timer_Expiry\<close>, \<open>Timer_Check\<close>, \<open>Timer_Signal\<close>, \<open>Timer_Threads\<close>: \<^verbatim>\<open>base/AOperator.cpp\<close>, the
    branches for Linux: posting, delaying, signalling, the check for expired timers, binding, and the
    end of a thread.

  \<^bold>\<open>MQTT.\<close>
  \<^item> \<open>Mqtt_Buffer\<close>, \<open>Mqtt_Message\<close>: \<^verbatim>\<open>iot/buffer.c\<close>, \<^verbatim>\<open>iot/mqtt_message.c\<close>.
  \<^item> \<open>Mqtt_Codec\<close>, \<open>Mqtt_Decoder\<close>: the two halves of \<^verbatim>\<open>iot/mqtt_codec.c\<close>.
  \<^item> \<open>Mqtt_Wire\<close>, \<open>Mqtt_Connect\<close>: the packets built, against a wire format on byte lists.
  \<^item> \<open>Mqtt_Framing\<close>, \<open>Mqtt_Delivery\<close>: what the decoder does with a stream, and that it delivers what the
    encoder built.

  \<^bold>\<open>HTTP.\<close>
  \<^item> \<open>Http_Msg\<close>, \<open>Http_Text\<close>: \<^verbatim>\<open>http/http_msg.h\<close> and the messages of \<^verbatim>\<open>http/AModule_HttpSession.cpp\<close>: maps, parameters, and
    the text, and for which messages it stays inside the space that was computed.
  \<^item> \<open>Http_Session\<close>: the callbacks of the parser, which put tokens together that arrive in pieces.

  \<^bold>\<open>Media.\<close>
  \<^item> \<open>Ps\<close>: \<^verbatim>\<open>media/libPSutil.cpp\<close>, the writers of headers and time stamps and the parser.
  \<^item> \<open>Ps_Stream\<close>: a machine that takes one byte at a time, and that each call of the parser is steps of it.
  \<^item> \<open>Ps_Trip\<close>: how a stream is cut into pieces does not matter; the parser stays inside its array when
    the declared headers fit; packets that are written are read back.
  \<^item> \<open>Sps\<close>, \<open>Sps_Trip\<close>: \<^verbatim>\<open>media/h264_decode_sps.cpp\<close>, the size of the picture in H.264 parameter sets, against the
    syntax and the definition of the standard, for the streams and profiles that the reader handles; what comes out for
    fields and cropping; and the search for start codes.

  \<^bold>\<open>Parameters.\<close>  What is not under \<^verbatim>\<open>src/\<close> is an argument: whether an allocation succeeds, the clock,
  the result of \<^verbatim>\<open>epoll_ctl\<close>, and the callbacks that users of the framework supply.  A mutex makes its
  critical section one step.

  \<^bold>\<open>Termination.\<close>  Loops that may run forever are \<open>partial_function (option)\<close>; that they end is proved
  where it holds (and refuted for \<^verbatim>\<open>check_all\<close>).  No fuel is used.

  \<^bold>\<open>Not modelled.\<close>  Third-party code that is copied in (\<^verbatim>\<open>http/http_parser.c\<close>, \<^verbatim>\<open>rtmp/\<close>, \<^verbatim>\<open>crypto/\<close>,
  \<^verbatim>\<open>win32/\<close>); wrappers of system calls (\<^verbatim>\<open>io/\<close>: threads, sockets, files, TLS); logging (\<^verbatim>\<open>base/ALog.cpp\<close>); HTTP
  clients and services, and \<^verbatim>\<open>hm_decode\<close>, which drive the third-party parser; \<^verbatim>\<open>media/flv.h\<close> and \<^verbatim>\<open>media/amf_util.h\<close>, which serve the RTMP module;
  the applications above the framework (\<^verbatim>\<open>proxy/\<close>, \<^verbatim>\<open>PVDClient/\<close>, \<^verbatim>\<open>device_agent/\<close>, \<^verbatim>\<open>SyncControl/\<close>).  Of the
  components modelled: the creation and release of \<^verbatim>\<open>ecs/AInOutComponent\<close>, the stream map of \<^verbatim>\<open>media/libPSutil.cpp\<close>,
  whose checksum is FFmpeg's, and the branches for Windows of \<^verbatim>\<open>base/AOperator.cpp\<close>.
\<close>

end
